(* ===== verification/P2P_Prelude.thy ===== *)
theory P2P_Prelude
  imports Main "HOL-Library.Word"
begin

text \<open>
  Shared vocabulary of the development: the machine integer types of the C++
  sources, the fact collections the component theories add to, and the generic
  lemmas on words, lists and integers that more than one component uses.
\<close>

unbundle bit_operations_syntax

type_synonym u8 = "8 word"
type_synonym u16 = "16 word"
type_synonym u32 = "32 word"
type_synonym u64 = "64 word"

type_synonym bytes = "u8 list"

text \<open>
  Fact collections: \<open>limb_simps\<close> holds the value equations of the big-integer
  routines; \<open>wf_intros\<close> the preservation rules of the component invariants.
\<close>

named_theorems limb_simps \<open>value equations of the limb routines\<close>
named_theorems wf_intros \<open>preservation of component invariants\<close>

subsection \<open>Words\<close>

lemma unat_ucast_eq: "unat (ucast (x :: 'a::len word) :: 'b::len word) = unat x mod 2 ^ LENGTH('b)"
  by (simp add: unsigned_ucast_eq take_bit_eq_mod)

lemma unat_u32_lt: "unat (x :: u32) < 4294967296"
  using unsigned_less [of x, where ?'a = nat] by simp

lemma unat_u64_lt: "unat (x :: u64) < 18446744073709551616"
  using unsigned_less [of x, where ?'a = nat] by simp

lemma unat_u8_lt: "unat (x :: u8) < 256"
  using unsigned_less [of x, where ?'a = nat] by simp

lemma unat_ucast_32_64 [simp]: "unat (ucast (x :: u32) :: u64) = unat x"
  using unat_u32_lt [of x] by (simp add: unat_ucast_eq)

lemma unat_ucast_64_32: "unat (ucast (n :: u64) :: u32) = unat n mod 4294967296"
  by (simp add: unat_ucast_eq)

lemma unat_drop_bit_32: "unat (drop_bit 32 (n :: u64)) = unat n div 4294967296"
  unfolding unat_drop_bit_eq drop_bit_eq_div by (simp add: unat_div_distrib)

lemma unat_push_bit: "unat (push_bit n (x :: 'a::len word)) = (unat x * 2 ^ n) mod 2 ^ LENGTH('a)"
  by (subst unsigned_push_bit_eq) (simp only: take_bit_eq_mod push_bit_eq_mult)

lemma unat_drop_bit: "unat (drop_bit n (x :: 'a::len word)) = unat x div 2 ^ n"
  by (subst unat_drop_bit_eq) (rule drop_bit_eq_div)

lemma bit_unat [simp]: "bit (unat (x :: 'a::len word)) k \<longleftrightarrow> bit x k"
  by (simp add: bit_unsigned_iff bit_imp_le_length)

subsection \<open>Naturals in a positional system\<close>

lemma mod_mult_add_lt:
  fixes x y m k :: nat
  assumes "x < m" and "y < k"
  shows "x + m * y < m * k"
proof -
  have "x + m * y < m + m * y" using assms(1) by simp
  also have "\<dots> = m * Suc y" by simp
  also have "\<dots> \<le> m * k" using assms(2) by (intro mult_le_mono2) simp
  finally show ?thesis .
qed

lemma mod_digit_step:
  fixes r v b m :: nat
  assumes "r < b"
  shows "(r + b * v) mod (b * m) = r + b * (v mod m)"
proof (cases "m = 0")
  case False
  have "r + b * (v mod m) < b * m"
    using assms False by (intro mod_mult_add_lt) simp_all
  moreover have "(r + b * v) mod (b * m) = (r + b * (v mod m)) mod (b * m)"
    by (metis mod_add_right_eq mult_mod_right)
  ultimately show ?thesis by simp
qed simp

lemma bit_top_iff:
  fixes v :: nat
  assumes "v < 2 ^ Suc n"
  shows "bit v n \<longleftrightarrow> 2 ^ n \<le> v"
proof (cases "2 ^ n \<le> v")
  case True
  then have "v div 2 ^ n = 1" using assms by (intro div_nat_eqI) simp_all
  with True show ?thesis by (simp add: bit_iff_odd)
qed (simp add: bit_iff_odd)

lemma div_unique_nat:
  fixes n d q r :: nat
  assumes "q * d + r = n" and "r < d"
  shows "n div d = q"
  using assms by (metis add.commute div_mult_self3 div_less add.right_neutral less_nat_zero_code)

end
