(* ===== verification/Uint256.thy ===== *)
theory Uint256
  imports P2P_Prelude
begin

text \<open>
  The big unsigned integers of \<^verbatim>\<open>src/uint256.h\<close> and \<^verbatim>\<open>src/uint256.cpp\<close>:
  \<^verbatim>\<open>base_uint<BITS>\<close> is an array \<open>pn\<close> of \<open>BITS / 32\<close> limbs of 32 bits,
  least significant first. A value is modelled by its list of limbs; \<open>uval\<close>
  reads it as a natural number.
\<close>

section \<open>The limb representation\<close>

type_synonym base_uint = "u32 list"

primrec uval :: "base_uint \<Rightarrow> nat" where
  "uval [] = 0"
| "uval (x # xs) = unat x + 4294967296 * uval xs"

abbreviation BITS :: "base_uint \<Rightarrow> nat" where
  "BITS a \<equiv> 32 * length a"

lemma pow_limb: "(2::nat) ^ (32 * Suc n) = 4294967296 * 2 ^ (32 * n)"
  by (simp add: power_add)

lemma uval_lt: "uval a < 2 ^ BITS a"
proof (induction a)
  case (Cons x xs)
  have "unat x + 4294967296 * uval xs < 4294967296 * 2 ^ BITS xs"
    using unat_u32_lt Cons.IH by (rule mod_mult_add_lt)
  then show ?case by (simp only: uval.simps length_Cons pow_limb)
qed simp

lemma uval_append: "uval (a @ b) = uval a + 2 ^ BITS a * uval b"
  by (induction a) (simp_all add: power_add algebra_simps)

lemma uval_replicate_0 [simp]: "uval (replicate n 0) = 0"
  by (induction n) simp_all

lemma uval_inject:
  assumes "length a = length b" and "uval a = uval b"
  shows "a = b"
  using assms
proof (induction a b rule: list_induct2)
  case (Cons x xs y ys)
  from Cons.prems have eq: "unat x + 4294967296 * uval xs = unat y + 4294967296 * uval ys" by simp
  from arg_cong [OF eq, of "\<lambda>n. n mod 4294967296"] have "unat x = unat y"
    using unat_u32_lt [of x] unat_u32_lt [of y] by simp
  with eq Cons.IH show ?case by (simp add: word_unat_eq_iff)
qed simp

lemma bit_uval: "bit (uval a) k \<longleftrightarrow> k < BITS a \<and> bit (a ! (k div 32)) (k mod 32)"
proof (induction a arbitrary: k)
  case (Cons x xs)
  have split: "uval (x # xs) = unat x + push_bit 32 (uval xs)"
    by (simp add: push_bit_eq_mult)
  have lt: "bit x j \<Longrightarrow> j < 32" for j
    using bit_imp_le_length [of x j] by simp
  have "unat x AND push_bit 32 (uval xs) = 0"
    by (rule bit_eqI) (auto simp: bit_simps dest: lt)
  then have "bit (uval (x # xs)) k \<longleftrightarrow> bit (unat x) k \<or> bit (push_bit 32 (uval xs)) k"
    unfolding split by (simp add: disjunctive_add_eq_or bit_or_iff)
  also have "\<dots> \<longleftrightarrow> (if k < 32 then bit x k else bit (uval xs) (k - 32))"
    by (auto simp: bit_push_bit_iff dest: lt)
  also have "\<dots> \<longleftrightarrow> k < BITS (x # xs) \<and> bit ((x # xs) ! (k div 32)) (k mod 32)"
  proof (cases "k < 32")
    case False
    then have "(x # xs) ! (k div 32) = xs ! ((k - 32) div 32)" "k mod 32 = (k - 32) mod 32"
      by (simp_all add: le_div_geq le_mod_geq)
    with False Cons.IH [of "k - 32"] show ?thesis by auto
  qed simp
  finally show ?case .
qed simp

section \<open>Operations of the class template\<close>

text \<open>\<^verbatim>\<open>base_uint(uint64_t b)\<close> and \<^verbatim>\<open>operator=(uint64_t b)\<close> on a value of \<open>w\<close> limbs.\<close>

definition base_uint_of_u64 :: "nat \<Rightarrow> u64 \<Rightarrow> base_uint" where
  "base_uint_of_u64 w b = ucast b # ucast (drop_bit 32 b) # replicate (w - 2) 0"

text \<open>\<^verbatim>\<open>operator!\<close> and \<^verbatim>\<open>IsNull\<close>: every limb is zero.\<close>

definition IsNull :: "base_uint \<Rightarrow> bool" where
  "IsNull pn = list_all (\<lambda>x. x = 0) pn"

definition bnot :: "base_uint \<Rightarrow> base_uint" where
  "bnot pn = map NOT pn"

definition bxor :: "base_uint \<Rightarrow> base_uint \<Rightarrow> base_uint" where
  "bxor pn b = map2 (XOR) pn b"

definition band :: "base_uint \<Rightarrow> base_uint \<Rightarrow> base_uint" where
  "band pn b = map2 (AND) pn b"

definition bor :: "base_uint \<Rightarrow> base_uint \<Rightarrow> base_uint" where
  "bor pn b = map2 (OR) pn b"

text \<open>Prefix \<^verbatim>\<open>operator++\<close>: carry on while the incremented limb became zero.\<close>

fun inc :: "base_uint \<Rightarrow> base_uint" where
  "inc [] = []"
| "inc (x # xs) = (let y = x + 1 in if y = 0 then y # inc xs else y # xs)"

text \<open>Prefix \<^verbatim>\<open>operator--\<close>: borrow on while the decremented limb became all ones.\<close>

fun dec :: "base_uint \<Rightarrow> base_uint" where
  "dec [] = []"
| "dec (x # xs) = (let y = x - 1 in if y = - 1 then y # dec xs else y # xs)"

definition neg :: "base_uint \<Rightarrow> base_uint" where
  "neg pn = inc (bnot pn)"

text \<open>\<^verbatim>\<open>operator+=\<close>: a 64-bit carry runs through the limbs.\<close>

fun add_loop :: "u64 \<Rightarrow> base_uint \<Rightarrow> base_uint \<Rightarrow> base_uint" where
  "add_loop carry (p # pn) (q # b) =
     (let n = carry + ucast p + ucast q
      in ucast n # add_loop (drop_bit 32 n) pn b)"
| "add_loop carry _ _ = []"

definition add :: "base_uint \<Rightarrow> base_uint \<Rightarrow> base_uint" where
  "add pn b = add_loop 0 pn b"

definition sub :: "base_uint \<Rightarrow> base_uint \<Rightarrow> base_uint" where
  "sub pn b = add pn (neg b)"

text \<open>\<^verbatim>\<open>operator*=(uint32_t)\<close>.\<close>

fun mul32_loop :: "u64 \<Rightarrow> u32 \<Rightarrow> base_uint \<Rightarrow> base_uint" where
  "mul32_loop carry b32 [] = []"
| "mul32_loop carry b32 (p # pn) =
     (let n = carry + ucast b32 * ucast p
      in ucast n # mul32_loop (drop_bit 32 n) b32 pn)"

definition mul32 :: "base_uint \<Rightarrow> u32 \<Rightarrow> base_uint" where
  "mul32 pn b32 = mul32_loop 0 b32 pn"

text \<open>
  \<^verbatim>\<open>operator*=(const base_uint&)\<close>: the inner loop adds \<open>a.pn[j] * b\<close> into the
  limbs from index \<open>j\<close> on and stops at the last limb; the outer loop runs over \<open>j\<close>.
\<close>

fun mul_row :: "u64 \<Rightarrow> u32 \<Rightarrow> base_uint \<Rightarrow> base_uint \<Rightarrow> base_uint" where
  "mul_row carry aj (p # pn) (q # b) =
     (let n = carry + ucast p + ucast aj * ucast q
      in ucast n # mul_row (drop_bit 32 n) aj pn b)"
| "mul_row carry aj _ _ = []"

definition mul_step :: "base_uint \<Rightarrow> base_uint \<Rightarrow> base_uint \<Rightarrow> nat \<Rightarrow> base_uint" where
  "mul_step a b pn j = take j pn @ mul_row 0 (a ! j) (drop j pn) b"

definition mul :: "base_uint \<Rightarrow> base_uint \<Rightarrow> base_uint" where
  "mul a b = foldl (mul_step a b) (replicate (length a) 0) [0..<length a]"

text \<open>\<^verbatim>\<open>operator<<=\<close> and \<^verbatim>\<open>operator>>=\<close>: each limb is or-ed into its two targets.\<close>

definition or_at :: "base_uint \<Rightarrow> nat \<Rightarrow> u32 \<Rightarrow> base_uint" where
  "or_at pn i x = pn[i := pn ! i OR x]"

definition shl_step :: "base_uint \<Rightarrow> nat \<Rightarrow> nat \<Rightarrow> base_uint \<Rightarrow> nat \<Rightarrow> base_uint" where
  "shl_step a k sh pn i =
     (let w = length a;
          pn = (if i + k + 1 < w \<and> sh \<noteq> 0 then or_at pn (i + k + 1) (drop_bit (32 - sh) (a ! i)) else pn)
      in if i + k < w then or_at pn (i + k) (push_bit sh (a ! i)) else pn)"

definition shl :: "base_uint \<Rightarrow> nat \<Rightarrow> base_uint" where
  "shl a shift = foldl (shl_step a (shift div 32) (shift mod 32)) (replicate (length a) 0) [0..<length a]"

definition shr_step :: "base_uint \<Rightarrow> nat \<Rightarrow> nat \<Rightarrow> base_uint \<Rightarrow> nat \<Rightarrow> base_uint" where
  "shr_step a k sh pn i =
     (let pn = (if k + 1 \<le> i \<and> sh \<noteq> 0 then or_at pn (i - k - 1) (push_bit (32 - sh) (a ! i)) else pn)
      in if k \<le> i then or_at pn (i - k) (drop_bit sh (a ! i)) else pn)"

definition shr :: "base_uint \<Rightarrow> nat \<Rightarrow> base_uint" where
  "shr a shift = foldl (shr_step a (shift div 32) (shift mod 32)) (replicate (length a) 0) [0..<length a]"

text \<open>\<^verbatim>\<open>CompareTo\<close>: from the most significant limb down; the lists are walked reversed.\<close>

fun compare_loop :: "base_uint \<Rightarrow> base_uint \<Rightarrow> int" where
  "compare_loop (p # pn) (q # b) =
     (if p < q then - 1 else if q < p then 1 else compare_loop pn b)"
| "compare_loop _ _ = 0"

definition CompareTo :: "base_uint \<Rightarrow> base_uint \<Rightarrow> int" where
  "CompareTo pn b = compare_loop (rev pn) (rev b)"

definition EqualTo :: "base_uint \<Rightarrow> u64 \<Rightarrow> bool" where
  "EqualTo pn b =
     (if \<not> list_all (\<lambda>x. x = 0) (drop 2 pn) then False
      else if ucast (pn ! 1) \<noteq> drop_bit 32 b then False
      else if ucast (pn ! 0) \<noteq> b AND 0xffffffff then False
      else True)"

text \<open>\<^verbatim>\<open>bits()\<close>: one more than the position of the highest bit set, zero for zero.\<close>

fun limb_bits :: "nat \<Rightarrow> u32 \<Rightarrow> nat" where
  "limb_bits 0 x = 1"
| "limb_bits (Suc n) x = (if x AND push_bit (Suc n) 1 \<noteq> 0 then Suc n + 1 else limb_bits n x)"

fun bits_loop :: "base_uint \<Rightarrow> nat \<Rightarrow> nat" where
  "bits_loop pn 0 = 0"
| "bits_loop pn (Suc pos) =
     (if pn ! pos \<noteq> 0 then 32 * pos + limb_bits 31 (pn ! pos) else bits_loop pn pos)"

definition bits :: "base_uint \<Rightarrow> nat" where
  "bits pn = bits_loop pn (length pn)"

text \<open>\<^verbatim>\<open>operator/=\<close>: shift-and-subtract long division.\<close>

datatype uint_error = DivisionByZero | WrongVectorSize

fun div_loop :: "nat \<Rightarrow> base_uint \<Rightarrow> base_uint \<Rightarrow> base_uint \<Rightarrow> base_uint" where
  "div_loop 0 num dv q = q"
| "div_loop (Suc shift) num dv q =
     (if 0 \<le> CompareTo num dv
      then div_loop shift (sub num dv) (shr dv 1) (or_at q (shift div 32) (push_bit (shift mod 32) 1))
      else div_loop shift num (shr dv 1) q)"

definition udiv :: "base_uint \<Rightarrow> base_uint \<Rightarrow> uint_error + base_uint" where
  "udiv a b =
     (let zero = replicate (length a) 0; num_bits = bits a; div_bits = bits b
      in if div_bits = 0 then Inl DivisionByZero
         else if num_bits < div_bits then Inr zero
         else let shift = num_bits - div_bits in Inr (div_loop (Suc shift) a (shl b shift) zero))"

section \<open>The routines compute arithmetic modulo the width\<close>

lemma length_base_uint_of_u64: "2 \<le> w \<Longrightarrow> length (base_uint_of_u64 w b) = w"
  by (simp add: base_uint_of_u64_def)

lemma uval_base_uint_of_u64 [limb_simps]: "uval (base_uint_of_u64 w b) = unat b"
  using unat_u64_lt [of b] by (simp add: base_uint_of_u64_def unat_ucast_64_32 unat_drop_bit_32)

lemma IsNull_iff: "IsNull pn \<longleftrightarrow> uval pn = 0"
  by (induction pn) (auto simp: IsNull_def unat_eq_zero)

lemma length_bitops [simp]:
  "length (bnot a) = length a"
  "length (bxor a b) = min (length a) (length b)"
  "length (band a b) = min (length a) (length b)"
  "length (bor a b) = min (length a) (length b)"
  by (simp_all add: bnot_def bxor_def band_def bor_def)

lemma unat_not_u32: "unat (NOT (x :: u32)) = 4294967295 - unat x"
proof -
  have "NOT x = - 1 - x" by (simp add: not_eq_complement)
  then show ?thesis
    using unat_sub [of x "- 1"] by (simp add: unsigned_minus_1_eq_mask mask_eq_exp_minus_1)
qed

lemma unat_add1_u32: "unat (x + 1 :: u32) = (if unat x = 4294967295 then 0 else unat x + 1)"
  using unat_u32_lt [of x] unat_plus_if' [of x 1] by auto

lemma add1_u32_eq_0: "x + 1 = (0 :: u32) \<longleftrightarrow> unat x = 4294967295"
  using unat_add1_u32 [of x] unat_eq_zero [of "x + 1"] by (auto split: if_splits)

lemma uval_bnot [limb_simps]: "uval (bnot a) = 2 ^ BITS a - 1 - uval a"
proof (induction a)
  case (Cons x xs)
  have "uval (bnot (x # xs)) = (4294967295 - unat x) + 4294967296 * (2 ^ BITS xs - 1 - uval xs)"
    using Cons.IH by (simp add: bnot_def unat_not_u32)
  also have "\<dots> = 4294967296 * 2 ^ BITS xs - 1 - (unat x + 4294967296 * uval xs)"
    using unat_u32_lt [of x] uval_lt [of xs] by (simp add: diff_mult_distrib2)
  finally show ?case by (simp only: uval.simps length_Cons pow_limb)
qed (simp add: bnot_def)

lemma length_inc [simp]: "length (inc a) = length a"
  by (induction a) (simp_all add: Let_def)

lemma uval_inc [limb_simps]: "uval (inc a) = (uval a + 1) mod 2 ^ BITS a"
proof (induction a)
  case (Cons x xs)
  show ?case
  proof (cases "x + 1 = 0")
    case True
    then have "unat x = 4294967295" by (simp only: add1_u32_eq_0)
    then have "uval (x # xs) + 1 = 4294967296 * (uval xs + 1)" by simp
    then have "(uval (x # xs) + 1) mod 2 ^ BITS (x # xs) = 4294967296 * ((uval xs + 1) mod 2 ^ BITS xs)"
      by (simp only: length_Cons pow_limb mult_mod_right)
    with True Cons.IH show ?thesis by (simp add: Let_def)
  next
    case False
    then have y: "unat (x + 1) = unat x + 1" by (simp add: unat_add1_u32 add1_u32_eq_0)
    have "uval ((x + 1) # xs) < 2 ^ BITS ((x + 1) # xs)" by (rule uval_lt)
    with False y show ?thesis by (simp add: Let_def)
  qed
qed simp

lemma uval_neg: "uval (neg a) = (2 ^ BITS a - uval a) mod 2 ^ BITS a"
proof -
  have "2 ^ BITS a - 1 - uval a + 1 = 2 ^ BITS a - uval a"
    using uval_lt [of a] by simp
  then show ?thesis by (simp add: neg_def limb_simps)
qed

lemma length_neg [simp]: "length (neg a) = length a"
  by (simp add: neg_def)

text \<open>The two bounded-carry facts behind the 64-bit intermediate sums.\<close>

lemma carry_sum:
  fixes c :: u64 and n :: u64
  assumes "unat n = v" and "v < 4294967296 * k"
  shows "unat (ucast n :: u32) + 4294967296 * unat (drop_bit 32 n) = v"
    and "unat (drop_bit 32 n) < k"
proof -
  show "unat (ucast n :: u32) + 4294967296 * unat (drop_bit 32 n) = v"
    using assms(1) unfolding unat_ucast_64_32 unat_drop_bit_32 by simp
  show "unat (drop_bit 32 n) < k"
    using assms unfolding unat_drop_bit_32 by (simp add: less_mult_imp_div_less mult.commute)
qed

lemma length_add_loop [simp]: "length (add_loop c a b) = min (length a) (length b)"
  by (induction c a b rule: add_loop.induct) (simp_all add: Let_def)

lemma uval_add_loop:
  assumes "length a = length b" and "unat c < 2"
  shows "uval (add_loop c a b) = (unat c + uval a + uval b) mod 2 ^ BITS a"
  using assms
proof (induction a b arbitrary: c rule: list_induct2)
  case (Cons p pn q b)
  define n :: u64 where "n = c + ucast p + ucast q"
  have un: "unat n = unat c + unat p + unat q"
    using Cons.prems unat_u32_lt [of p] unat_u32_lt [of q]
    by (simp add: n_def unat_word_ariths)
  note cs = carry_sum [OF un, of 2]
  have small: "unat c + unat p + unat q < 4294967296 * 2"
    using Cons.prems unat_u32_lt [of p] unat_u32_lt [of q] by simp
  define r where "r = unat (ucast n :: u32)"
  define d where "d = unat (drop_bit 32 n)"
  have rd: "r + 4294967296 * d = unat c + unat p + unat q" "d < 2" and r: "r < 4294967296"
    using cs [OF small] unat_u32_lt by (auto simp: r_def d_def)
  have "uval (add_loop c (p # pn) (q # b)) = r + 4294967296 * ((d + uval pn + uval b) mod 2 ^ BITS pn)"
    using Cons.IH [of "drop_bit 32 n"] rd(2) by (simp add: Let_def n_def r_def d_def)
  also have "\<dots> = (r + 4294967296 * (d + uval pn + uval b)) mod 2 ^ BITS (p # pn)"
    using r by (simp only: length_Cons pow_limb mod_digit_step)
  also have "r + 4294967296 * (d + uval pn + uval b) = unat c + uval (p # pn) + uval (q # b)"
    using rd(1) by (simp add: algebra_simps)
  finally show ?case .
qed simp

lemma length_add [simp]: "length (add a b) = min (length a) (length b)"
  by (simp add: add_def)

lemma uval_add: "length a = length b \<Longrightarrow> uval (add a b) = (uval a + uval b) mod 2 ^ BITS a"
  by (simp add: add_def uval_add_loop)

lemma length_sub [simp]: "length (sub a b) = min (length a) (length b)"
  by (simp add: sub_def)

lemma uval_sub:
  assumes "length a = length b"
  shows "uval (sub a b) = (uval a + (2 ^ BITS a - uval b)) mod 2 ^ BITS a"
  using assms by (simp add: sub_def uval_add uval_neg mod_add_right_eq)

lemma uval_sub_le:
  assumes "length a = length b" and "uval b \<le> uval a"
  shows "uval (sub a b) = uval a - uval b"
proof -
  have "uval a + (2 ^ BITS a - uval b) = (uval a - uval b) + 2 ^ BITS a"
    using assms uval_lt [of b] by simp
  then have "uval (sub a b) = (uval a - uval b) mod 2 ^ BITS a"
    by (simp only: uval_sub [OF assms(1)] mod_add_self2)
  then show ?thesis using uval_lt [of a] by simp
qed

lemma length_mul32_loop [simp]: "length (mul32_loop c b a) = length a"
  by (induction c b a rule: mul32_loop.induct) (simp_all add: Let_def)

lemma limb_product_lt:
  fixes c p x y :: nat
  assumes "c < 4294967296" "p < 4294967296" "x < 4294967296" "y < 4294967296"
  shows "c + p + x * y < 4294967296 * 4294967296"
proof -
  have "x * y \<le> 4294967295 * 4294967295" using assms by (intro mult_le_mono) simp_all
  then show ?thesis using assms(1,2) by simp
qed

lemma uval_mul32_loop:
  assumes "unat c < 4294967296"
  shows "uval (mul32_loop c b32 a) = (unat c + unat b32 * uval a) mod 2 ^ BITS a"
  using assms
proof (induction a arbitrary: c)
  case (Cons p pn)
  define n :: u64 where "n = c + ucast b32 * ucast p"
  have small: "unat c + unat b32 * unat p < 4294967296 * 4294967296"
    using limb_product_lt [of "unat c" 0 "unat b32" "unat p"] Cons.prems
      unat_u32_lt [of b32] unat_u32_lt [of p] by simp
  then have un: "unat n = unat c + unat b32 * unat p"
    by (simp add: n_def unat_word_ariths mod_simps)
  define r where "r = unat (ucast n :: u32)"
  define d where "d = unat (drop_bit 32 n)"
  have rd: "r + 4294967296 * d = unat c + unat b32 * unat p" "d < 4294967296" and r: "r < 4294967296"
    using carry_sum [OF un small] unat_u32_lt by (auto simp: r_def d_def)
  have "uval (mul32_loop c b32 (p # pn)) = r + 4294967296 * ((d + unat b32 * uval pn) mod 2 ^ BITS pn)"
    using Cons.IH [of "drop_bit 32 n"] rd(2) by (simp add: Let_def n_def r_def d_def)
  also have "\<dots> = (r + 4294967296 * (d + unat b32 * uval pn)) mod 2 ^ BITS (p # pn)"
    using r by (simp only: length_Cons pow_limb mod_digit_step)
  also have "r + 4294967296 * (d + unat b32 * uval pn) = unat c + unat b32 * uval (p # pn)"
    using rd(1) by (simp add: algebra_simps)
  finally show ?case .
qed simp

lemma length_mul32 [simp]: "length (mul32 a b) = length a"
  by (simp add: mul32_def)

lemma uval_mul32: "uval (mul32 a b) = (uval a * unat b) mod 2 ^ BITS a"
  by (simp add: mul32_def uval_mul32_loop mult.commute)

lemma length_mul_row [simp]: "length (mul_row c x a b) = min (length a) (length b)"
  by (induction c x a b rule: mul_row.induct) (simp_all add: Let_def)

lemma uval_mul_row:
  assumes "length a \<le> length b" and "unat c < 4294967296"
  shows "uval (mul_row c x a b) = (unat c + uval a + unat x * uval b) mod 2 ^ BITS a"
  using assms
proof (induction c x a b rule: mul_row.induct)
  case (1 c x p pn q b)
  define n :: u64 where "n = c + ucast p + ucast x * ucast q"
  have small: "unat c + unat p + unat x * unat q < 4294967296 * 4294967296"
    using "1.prems" by (intro limb_product_lt unat_u32_lt) simp_all
  then have un: "unat n = unat c + unat p + unat x * unat q"
    by (simp add: n_def unat_word_ariths mod_simps)
  define r where "r = unat (ucast n :: u32)"
  define d where "d = unat (drop_bit 32 n)"
  have rd: "r + 4294967296 * d = unat c + unat p + unat x * unat q" "d < 4294967296"
    and r: "r < 4294967296"
    using carry_sum [OF un small] unat_u32_lt by (auto simp: r_def d_def)
  have "uval (mul_row c x (p # pn) (q # b))
      = r + 4294967296 * ((d + uval pn + unat x * uval b) mod 2 ^ BITS pn)"
    using "1.IH" [OF n_def] "1.prems" rd(2) by (simp add: Let_def n_def [symmetric] r_def d_def)
  also have "\<dots> = (r + 4294967296 * (d + uval pn + unat x * uval b)) mod 2 ^ BITS (p # pn)"
    using r by (simp only: length_Cons pow_limb mod_digit_step)
  also have "r + 4294967296 * (d + uval pn + unat x * uval b)
      = unat c + uval (p # pn) + unat x * uval (q # b)"
    using rd(1) by (simp add: algebra_simps)
  finally show ?case .
qed simp_all

lemma uval_take_Suc: "j < length a \<Longrightarrow> uval (take (Suc j) a) = uval (take j a) + 2 ^ (32 * j) * unat (a ! j)"
  by (simp add: take_Suc_conv_app_nth uval_append)

lemma length_mul_step [simp]: "length pn = length b \<Longrightarrow> length (mul_step a b pn j) = length pn"
  by (simp add: mul_step_def)

lemma uval_mul_step:
  assumes "length pn = length b" and "j < length b"
  shows "uval (mul_step a b pn j) = (uval pn + 2 ^ (32 * j) * (unat (a ! j) * uval b)) mod 2 ^ BITS b"
proof -
  define lo hi k where "lo = uval (take j pn)" and "hi = uval (drop j pn)" and "k = length b - j"
  have pn: "uval pn = lo + 2 ^ (32 * j) * hi"
    using assms uval_append [of "take j pn" "drop j pn"] by (simp add: lo_def hi_def)
  have w: "(2::nat) ^ BITS b = 2 ^ (32 * j) * 2 ^ (32 * k)"
    using assms(2) by (simp add: k_def power_add [symmetric] algebra_simps)
  have lo: "lo < 2 ^ (32 * j)"
    using uval_lt [of "take j pn"] assms by (simp add: lo_def)
  have "uval (mul_step a b pn j) = lo + 2 ^ (32 * j) * ((hi + unat (a ! j) * uval b) mod 2 ^ (32 * k))"
    using assms by (simp add: mul_step_def uval_append uval_mul_row lo_def hi_def k_def)
  also have "\<dots> = (lo + 2 ^ (32 * j) * (hi + unat (a ! j) * uval b)) mod 2 ^ BITS b"
    unfolding w using lo by (rule mod_digit_step [symmetric])
  finally show ?thesis by (simp add: pn algebra_simps)
qed

lemma uval_mul_fold:
  assumes "length a = length b" and "m \<le> length a"
  shows "length (foldl (mul_step a b) (replicate (length a) 0) [0..<m]) = length a
       \<and> uval (foldl (mul_step a b) (replicate (length a) 0) [0..<m]) = (uval (take m a) * uval b) mod 2 ^ BITS a"
  using assms(2)
proof (induction m)
  case (Suc m)
  then have IH: "length (foldl (mul_step a b) (replicate (length a) 0) [0..<m]) = length a"
    "uval (foldl (mul_step a b) (replicate (length a) 0) [0..<m]) = (uval (take m a) * uval b) mod 2 ^ BITS a"
    by simp_all
  have "uval (take (Suc m) a) * uval b = uval (take m a) * uval b + 2 ^ (32 * m) * (unat (a ! m) * uval b)"
    using Suc.prems by (simp add: uval_take_Suc algebra_simps)
  with IH Suc.prems assms(1) show ?case by (simp add: uval_mul_step mod_add_left_eq)
qed simp

lemma length_mul [simp]: "length a = length b \<Longrightarrow> length (mul a b) = length a"
  using uval_mul_fold [of a b "length a"] by (simp add: mul_def)

lemma uval_mul: "length a = length b \<Longrightarrow> uval (mul a b) = (uval a * uval b) mod 2 ^ BITS a"
  using uval_mul_fold [of a b "length a"] by (simp add: mul_def)

subsection \<open>Shifts\<close>

lemma length_or_at [simp]: "length (or_at pn i x) = length pn"
  by (simp add: or_at_def)

lemma nth_or_at: "or_at pn i x ! j = (if j = i \<and> i < length pn then pn ! i OR x else pn ! j)"
  by (cases "i < length pn") (simp_all add: or_at_def nth_list_update list_update_beyond)

text \<open>
  Each target limb of a left shift is the disjunction of two source limbs; \<open>shl_limb\<close> is
  that closed form restricted to the source limbs below \<open>m\<close>.
\<close>

definition shl_limb :: "base_uint \<Rightarrow> nat \<Rightarrow> nat \<Rightarrow> nat \<Rightarrow> nat \<Rightarrow> u32" where
  "shl_limb a k sh m j =
     (if k + 1 \<le> j \<and> j - k - 1 < m \<and> sh \<noteq> 0 then drop_bit (32 - sh) (a ! (j - k - 1)) else 0)
     OR (if k \<le> j \<and> j - k < m then push_bit sh (a ! (j - k)) else 0)"

definition shr_limb :: "base_uint \<Rightarrow> nat \<Rightarrow> nat \<Rightarrow> nat \<Rightarrow> nat \<Rightarrow> u32" where
  "shr_limb a k sh m j =
     (if j + k < m then drop_bit sh (a ! (j + k)) else 0)
     OR (if j + k + 1 < m \<and> sh \<noteq> 0 then push_bit (32 - sh) (a ! (j + k + 1)) else 0)"

lemma length_shl_step [simp]: "length (shl_step a k sh pn m) = length pn"
  by (simp add: shl_step_def Let_def)

lemma length_shr_step [simp]: "length (shr_step a k sh pn m) = length pn"
  by (simp add: shr_step_def Let_def)

lemma nth_shl_step:
  assumes "length pn = length a" and "j < length a"
  shows "shl_step a k sh pn m ! j =
    (if j = m + k + 1 \<and> sh \<noteq> 0 then pn ! j OR drop_bit (32 - sh) (a ! m)
     else if j = m + k then pn ! j OR push_bit sh (a ! m) else pn ! j)"
  using assms by (auto simp: shl_step_def Let_def nth_or_at)

lemma nth_shr_step:
  assumes "length pn = length a" and "m < length a" and "j < length a"
  shows "shr_step a k sh pn m ! j =
    (if j + k + 1 = m \<and> sh \<noteq> 0 then pn ! j OR push_bit (32 - sh) (a ! m)
     else if j + k = m then pn ! j OR drop_bit sh (a ! m) else pn ! j)"
  using assms by (auto simp: shr_step_def Let_def nth_or_at)

lemma shl_fold:
  assumes "m \<le> length a"
  shows "length (foldl (shl_step a k sh) (replicate (length a) 0) [0..<m]) = length a
       \<and> (\<forall>j < length a. foldl (shl_step a k sh) (replicate (length a) 0) [0..<m] ! j = shl_limb a k sh m j)"
  using assms
proof (induction m)
  case 0
  then show ?case by (simp add: shl_limb_def)
next
  case (Suc m)
  then show ?case
    by (auto simp: nth_shl_step shl_limb_def or.assoc less_Suc_eq)
qed

lemma shr_fold:
  assumes "m \<le> length a"
  shows "length (foldl (shr_step a k sh) (replicate (length a) 0) [0..<m]) = length a
       \<and> (\<forall>j < length a. foldl (shr_step a k sh) (replicate (length a) 0) [0..<m] ! j = shr_limb a k sh m j)"
  using assms
proof (induction m)
  case 0
  then show ?case by (simp add: shr_limb_def)
next
  case (Suc m)
  then show ?case
    by (auto simp: nth_shr_step shr_limb_def or.assoc less_Suc_eq)
qed

lemma length_shl [simp]: "length (shl a s) = length a"
  using shl_fold [of "length a" a] by (simp add: shl_def)

lemma length_shr [simp]: "length (shr a s) = length a"
  using shr_fold [of "length a" a] by (simp add: shr_def)

lemma nth_shl: "j < length a \<Longrightarrow> shl a s ! j = shl_limb a (s div 32) (s mod 32) (length a) j"
  using shl_fold [of "length a" a "s div 32" "s mod 32"] by (simp add: shl_def)

lemma nth_shr: "j < length a \<Longrightarrow> shr a s ! j = shr_limb a (s div 32) (s mod 32) (length a) j"
  using shr_fold [of "length a" a "s div 32" "s mod 32"] by (simp add: shr_def)

lemma u32_bit_lt: "bit (x :: u32) i \<Longrightarrow> i < 32"
  using bit_imp_le_length [of x i] by simp

lemma split_32: obtains j t :: nat where "n = 32 * j + t" and "t < 32"
  by (rule that [of "n div 32" "n mod 32"]) simp_all

lemma bit_uval_split: "t < 32 \<Longrightarrow> bit (uval a) (32 * j + t) \<longleftrightarrow> j < length a \<and> bit (a ! j) t"
  by (auto simp: bit_uval)

lemma bit_shl_limb:
  assumes "t < 32" and "sh < 32" and "j < length a"
  shows "bit (shl_limb a k sh (length a) j) t \<longleftrightarrow>
    32 * k + sh \<le> 32 * j + t \<and> bit (uval a) (32 * j + t - (32 * k + sh))"
proof (cases "sh \<le> t")
  case True
  show ?thesis
  proof (cases "k \<le> j")
    case le: True
    then have "32 * j + t - (32 * k + sh) = 32 * (j - k) + (t - sh)"
      using True by (simp add: algebra_simps)
    moreover have "t - sh < 32" using assms by simp
    ultimately have "bit (uval a) (32 * j + t - (32 * k + sh)) \<longleftrightarrow>
        j - k < length a \<and> bit (a ! (j - k)) (t - sh)"
      by (simp only: bit_uval_split)
    moreover have "\<not> bit (a ! i) (32 - sh + t)" for i
      using True u32_bit_lt [of "a ! i" "32 - sh + t"] assms(2) by auto
    ultimately show ?thesis
      using True le assms by (auto simp: shl_limb_def bit_or_iff bit_push_bit_iff bit_drop_bit_eq)
  next
    case False
    then have "32 * j + t < 32 * k" using assms(1) by linarith
    with False show ?thesis by (auto simp: shl_limb_def)
  qed
next
  case False
  show ?thesis
  proof (cases "k < j")
    case lt: True
    then have "32 * j + t - (32 * k + sh) = 32 * (j - k - 1) + (32 - sh + t)"
      using False assms by (simp add: algebra_simps)
    moreover have "32 - sh + t < 32" using False assms by simp
    ultimately have "bit (uval a) (32 * j + t - (32 * k + sh)) \<longleftrightarrow>
        j - k - 1 < length a \<and> bit (a ! (j - k - 1)) (32 - sh + t)"
      by (simp only: bit_uval_split)
    with False lt assms show ?thesis
      by (auto simp: shl_limb_def bit_or_iff bit_push_bit_iff bit_drop_bit_eq)
  next
    case False
    then have "32 * j + t < 32 * k + sh" using \<open>\<not> sh \<le> t\<close> by linarith
    with False \<open>\<not> sh \<le> t\<close> show ?thesis by (auto simp: shl_limb_def bit_simps)
  qed
qed

lemma bit_shr_limb:
  assumes "t < 32" and "sh < 32"
  shows "bit (shr_limb a k sh (length a) j) t \<longleftrightarrow> bit (uval a) (32 * j + t + (32 * k + sh))"
proof (cases "t + sh < 32")
  case True
  have "32 * j + t + (32 * k + sh) = 32 * (j + k) + (t + sh)" by simp
  then have "bit (uval a) (32 * j + t + (32 * k + sh)) \<longleftrightarrow> j + k < length a \<and> bit (a ! (j + k)) (t + sh)"
    using True by (simp only: bit_uval_split)
  with True show ?thesis by (auto simp: shr_limb_def bit_simps add.commute)
next
  case False
  have "32 * j + t + (32 * k + sh) = 32 * (j + k + 1) + (t - (32 - sh))" using False assms by simp
  moreover have "t - (32 - sh) < 32" using assms by simp
  ultimately have "bit (uval a) (32 * j + t + (32 * k + sh)) \<longleftrightarrow>
      j + k + 1 < length a \<and> bit (a ! (j + k + 1)) (t - (32 - sh))"
    by (simp only: bit_uval_split)
  moreover have "\<not> bit (a ! i) (sh + t)" for i
    using False u32_bit_lt [of "a ! i" "sh + t"] by auto
  moreover have "32 - sh \<le> t" "sh \<noteq> 0" using False assms by simp_all
  ultimately show ?thesis
    using assms(1) by (simp add: shr_limb_def bit_or_iff bit_push_bit_iff bit_drop_bit_eq)
qed

lemma uval_shl: "uval (shl a s) = (uval a * 2 ^ s) mod 2 ^ BITS a"
proof -
  have "uval (shl a s) = take_bit (BITS a) (push_bit s (uval a))"
  proof (rule bit_eqI)
    fix n :: nat
    obtain j t :: nat where n: "n = 32 * j + t" "t < 32" by (rule split_32)
    show "bit (uval (shl a s)) n \<longleftrightarrow> bit (take_bit (BITS a) (push_bit s (uval a))) n"
      using n bit_shl_limb [of t "s mod 32" j a "s div 32"]
      by (auto simp: bit_uval_split nth_shl bit_take_bit_iff bit_push_bit_iff)
  qed
  then show ?thesis by (simp add: take_bit_eq_mod push_bit_eq_mult)
qed

lemma uval_shr: "uval (shr a s) = uval a div 2 ^ s"
proof -
  have "uval (shr a s) = drop_bit s (uval a)"
  proof (rule bit_eqI)
    fix n :: nat
    obtain j t :: nat where n: "n = 32 * j + t" "t < 32" by (rule split_32)
    show "bit (uval (shr a s)) n \<longleftrightarrow> bit (drop_bit s (uval a)) n"
      using n bit_shr_limb [of t "s mod 32" a "s div 32" j]
      by (auto simp: bit_uval_split nth_shr bit_drop_bit_eq add.commute bit_uval)
  qed
  then show ?thesis by (simp add: drop_bit_eq_div)
qed

subsection \<open>Bitwise operators, comparison and bit length\<close>

lemma uval_bitops:
  assumes "length a = length b"
  shows "uval (band a b) = uval a AND uval b"
    and "uval (bor a b) = uval a OR uval b"
    and "uval (bxor a b) = uval a XOR uval b"
  using assms
  by (auto intro!: bit_eqI simp: bit_simps bit_uval band_def bor_def bxor_def)

lemma compare_loop_append:
  assumes "length a = length b"
  shows "compare_loop (a @ [x]) (b @ [y]) =
    (if compare_loop a b \<noteq> 0 then compare_loop a b
     else if x < y then - 1 else if y < x then 1 else 0)"
  using assms by (induction a b rule: list_induct2) auto

lemma CompareTo_correct:
  assumes "length a = length b"
  shows "CompareTo a b = (if uval a < uval b then - 1 else if uval b < uval a then 1 else 0)"
  using assms
proof (induction a b rule: list_induct2)
  case Nil
  then show ?case by (simp add: CompareTo_def)
next
  case (Cons x xs y ys)
  have "unat x < 4294967296" "unat y < 4294967296" by (rule unat_u32_lt)+
  then have "uval (x # xs) < uval (y # ys) \<longleftrightarrow> uval xs < uval ys \<or> uval xs = uval ys \<and> unat x < unat y"
    "uval (y # ys) < uval (x # xs) \<longleftrightarrow> uval ys < uval xs \<or> uval xs = uval ys \<and> unat y < unat x"
    by auto
  with Cons show ?case
    by (auto simp: CompareTo_def compare_loop_append word_less_nat_alt)
qed

text \<open>\<open>limb_bits n x\<close> finds the highest set bit of a non-zero limb whose set bits are at most \<open>n\<close>.\<close>

lemma limb_bits_correct:
  assumes "x \<noteq> 0" and "unat (x :: u32) < 2 ^ Suc n" and "n < 32"
  shows "2 ^ (limb_bits n x - 1) \<le> unat x \<and> unat x < 2 ^ limb_bits n x \<and> 0 < limb_bits n x"
  using assms
proof (induction n)
  case 0
  then show ?case by (simp add: unat_gt_0 [symmetric] Suc_leI)
next
  case (Suc n)
  have flag: "x AND push_bit (Suc n) 1 \<noteq> 0 \<longleftrightarrow> bit x (Suc n)"
    by (simp only: bit_iff_and_push_bit_not_eq_0)
  show ?case
  proof (cases "bit x (Suc n)")
    case True
    then have "2 ^ Suc n \<le> unat x"
      using bit_top_iff [OF Suc.prems(2)] by simp
    with True flag Suc.prems(2) show ?thesis by simp
  next
    case False
    have "unat x < 2 ^ Suc n"
      using False bit_top_iff [OF Suc.prems(2)] by simp
    with Suc.IH Suc.prems False flag show ?thesis by simp
  qed
qed

lemma bits_loop_correct:
  assumes "m \<le> length pn"
  shows "(uval (take m pn) = 0 \<longrightarrow> bits_loop pn m = 0) \<and>
         (uval (take m pn) \<noteq> 0 \<longrightarrow> 0 < bits_loop pn m
            \<and> 2 ^ (bits_loop pn m - 1) \<le> uval (take m pn) \<and> uval (take m pn) < 2 ^ bits_loop pn m)"
  using assms
proof (induction m)
  case (Suc m)
  define x where "x = pn ! m"
  define lo where "lo = uval (take m pn)"
  have v: "uval (take (Suc m) pn) = lo + 2 ^ (32 * m) * unat x"
    using Suc.prems by (simp add: uval_take_Suc lo_def x_def)
  show ?case
  proof (cases "x = 0")
    case True
    with Suc v show ?thesis by (simp add: x_def lo_def)
  next
    case False
    define l where "l = limb_bits 31 x"
    have l: "2 ^ (l - 1) \<le> unat x" "unat x < 2 ^ l" "0 < l"
      using limb_bits_correct [of x 31] False unat_u32_lt [of x] by (simp_all add: l_def)
    have "lo < 2 ^ (32 * m)"
      using uval_lt [of "take m pn"] Suc.prems by (simp add: lo_def)
    then have "lo + 2 ^ (32 * m) * unat x < 2 ^ (32 * m) * 2 ^ l"
      using l(2) by (rule mod_mult_add_lt)
    moreover have "2 ^ (32 * m) * 2 ^ (l - 1) \<le> lo + 2 ^ (32 * m) * unat x"
      using l(1) by (simp add: trans_le_add2)
    moreover have "(2::nat) ^ (32 * m + l - 1) = 2 ^ (32 * m) * 2 ^ (l - 1)"
      using l(3) by (simp flip: power_add)
    moreover have "bits_loop pn (Suc m) = 32 * m + l" using False by (simp add: x_def l_def)
    moreover have "0 < unat x" using False by (simp add: unat_gt_0)
    ultimately show ?thesis using v l(3) by (simp add: power_add del: bits_loop.simps)
  qed
qed simp

lemma bits_eq_0_iff: "bits a = 0 \<longleftrightarrow> uval a = 0"
  using bits_loop_correct [of "length a" a] by (auto simp: bits_def)

lemma bits_bounds:
  assumes "uval a \<noteq> 0"
  shows "2 ^ (bits a - 1) \<le> uval a" and "uval a < 2 ^ bits a" and "0 < bits a"
  using bits_loop_correct [of "length a" a] assms by (simp_all add: bits_def)

lemma bits_lt: "uval a < 2 ^ bits a"
  using bits_bounds(2) [of a] by (cases "uval a = 0") simp_all

lemma bits_le_BITS: "bits a \<le> BITS a"
proof (cases "uval a = 0")
  case False
  have "2 ^ (bits a - 1) < (2::nat) ^ BITS a"
    using bits_bounds(1) [OF False] uval_lt [of a] by (rule le_less_trans)
  then have "bits a - 1 < BITS a" by (rule power_less_imp_less_exp [rotated]) simp
  then show ?thesis by simp
qed (simp add: bits_eq_0_iff [symmetric])

subsection \<open>Division\<close>

lemma uval_or_at_bit:
  assumes "s < BITS q" and "\<not> bit (uval q) s"
  shows "uval (or_at q (s div 32) (push_bit (s mod 32) 1)) = uval q + 2 ^ s"
proof -
  have "s div 32 < length q" using assms(1) by auto
  moreover have "n = s" if "n div 32 = s div 32" "n mod 32 = s mod 32" for n
    using that by (metis div_mult_mod_eq)
  ultimately have "uval (or_at q (s div 32) (2 ^ (s mod 32))) = uval q OR 2 ^ s"
    using assms(1)
    by (intro bit_eqI) (auto simp: bit_uval nth_or_at bit_or_iff bit_exp_iff possible_bit_def)
  also have "\<dots> = uval q + 2 ^ s"
    using assms(2) by (intro disjunctive_add_eq_or [symmetric] bit_eqI) (auto simp: bit_simps)
  finally show ?thesis by simp
qed

lemma div_loop_correct:
  assumes "length num = length q" and "length dv = length q" and "0 < D"
    and "n = 0 \<or> uval dv = D * 2 ^ (n - 1)" and "uval num < D * 2 ^ n"
    and "2 ^ n dvd uval q" and "n \<le> BITS q"
  shows "length (div_loop n num dv q) = length q
       \<and> uval (div_loop n num dv q) = uval q + uval num div D"
  using assms
proof (induction n num dv q rule: div_loop.induct)
  case (2 s num dv q)
  have dv: "uval dv = D * 2 ^ s" using "2.prems" by simp
  have shr1: "s = 0 \<or> uval (shr dv 1) = D * 2 ^ (s - 1)"
    by (cases s) (simp_all add: uval_shr dv)
  have dvd: "2 ^ s dvd uval q" "\<not> bit (uval q) s"
    using "2.prems"(6) by (auto simp: bit_iff_odd elim!: dvdE)
  show ?case
  proof (cases "uval dv \<le> uval num")
    case True
    then have cmp: "0 \<le> CompareTo num dv" using "2.prems" by (simp add: CompareTo_correct)
    define q' where "q' = or_at q (s div 32) (push_bit (s mod 32) 1)"
    have q': "uval q' = uval q + 2 ^ s" "length q' = length q"
      using dvd "2.prems"(7) by (simp_all add: q'_def uval_or_at_bit del: push_bit_of_1)
    have num': "uval (sub num dv) = uval num - D * 2 ^ s"
      using True "2.prems" dv by (simp add: uval_sub_le)
    have "length (div_loop s (sub num dv) (shr dv 1) q') = length q'
        \<and> uval (div_loop s (sub num dv) (shr dv 1) q') = uval q' + uval (sub num dv) div D"
      unfolding q'_def using cmp "2.prems" shr1 num' dvd q' [unfolded q'_def]
      by (intro "2.IH"(1)) (auto simp: q'_def)
    moreover have "uval num div D = 2 ^ s + (uval num - D * 2 ^ s) div D"
    proof -
      have "uval num = (uval num - D * 2 ^ s) + 2 ^ s * D" using True dv by (simp add: mult.commute)
      then show ?thesis using "2.prems"(3) by (metis add.commute div_mult_self1 not_gr_zero)
    qed
    ultimately show ?thesis using cmp q' num' by (simp add: q'_def)
  next
    case False
    then have cmp: "\<not> 0 \<le> CompareTo num dv" using "2.prems" by (simp add: CompareTo_correct)
    have "length (div_loop s num (shr dv 1) q) = length q
        \<and> uval (div_loop s num (shr dv 1) q) = uval q + uval num div D"
      using cmp False dv shr1 dvd "2.prems" by (intro "2.IH"(2)) simp_all
    with cmp show ?thesis by simp
  qed
qed simp

lemma udiv_Inr:
  assumes "length a = length b" and "uval b \<noteq> 0"
  obtains q where "udiv a b = Inr q" and "length q = length a" and "uval q = uval a div uval b"
proof (cases "bits a < bits b")
  case True
  have "uval a < 2 ^ bits a" by (rule bits_lt)
  also have "\<dots> \<le> 2 ^ (bits b - 1)" using True by (intro power_increasing) simp_all
  also have "\<dots> \<le> uval b" using assms(2) by (rule bits_bounds(1))
  finally have "uval a div uval b = 0" by simp
  with True assms show ?thesis
    by (intro that [of "replicate (length a) 0"]) (simp_all add: udiv_def bits_eq_0_iff)
next
  case False
  define s where "s = bits a - bits b"
  define r where "r = div_loop (Suc s) a (shl b s) (replicate (length a) 0)"
  have ab: "bits a = bits b + s" using False by (simp add: s_def)
  have "uval b * 2 ^ s < 2 ^ bits b * 2 ^ s" using bits_lt [of b] by simp
  also have "\<dots> \<le> 2 ^ BITS a"
    using ab bits_le_BITS [of a] by (simp flip: power_add) 
  finally have shl: "uval (shl b s) = uval b * 2 ^ s" using assms(1) by (simp add: uval_shl)
  have "uval a < 2 ^ bits a" by (rule bits_lt)
  also have "\<dots> = 2 * 2 ^ (bits b - 1) * 2 ^ s"
    using bits_bounds(3) [OF assms(2)] ab by (simp add: power_add flip: power_Suc)
  also have "\<dots> \<le> uval b * 2 ^ Suc s"
    using bits_bounds(1) [OF assms(2)] by simp
  finally have "uval a < uval b * 2 ^ Suc s" .
  moreover have "Suc s \<le> BITS a"
    using ab bits_le_BITS [of a] bits_bounds(3) [OF assms(2)] by simp
  ultimately have "length r = length a \<and> uval r = uval a div uval b"
    using div_loop_correct [of a "replicate (length a) 0" "shl b s" "uval b" "Suc s"] assms shl
    by (simp add: r_def)
  moreover have "udiv a b = Inr r"
    using False assms(2) by (simp add: udiv_def bits_eq_0_iff Let_def s_def r_def)
  ultimately show ?thesis using that by blast
qed

lemma udiv_by_zero: "uval b = 0 \<Longrightarrow> udiv a b = Inl DivisionByZero"
  by (simp add: udiv_def bits_eq_0_iff [THEN iffD2])

section \<open>Refinement\<close>

text \<open>
  C18. On two numbers of equal width the limb routines refine arithmetic modulo two to the
  width: sum, difference, product, product with a 32-bit factor, complement, both shifts and
  the three bitwise operators compute the corresponding operation on the values, keep the
  width, and \<^verbatim>\<open>CompareTo\<close> is the sign of the comparison of the values.
\<close>

theorem base_uint_refines_modular_arithmetic:
  assumes "length a = length b"
  shows "uval (add a b) = (uval a + uval b) mod 2 ^ BITS a
    \<and> uval (sub a b) = (uval a + (2 ^ BITS a - uval b)) mod 2 ^ BITS a
    \<and> uval (mul a b) = (uval a * uval b) mod 2 ^ BITS a
    \<and> uval (mul32 a k) = (uval a * unat k) mod 2 ^ BITS a
    \<and> uval (shl a s) = (uval a * 2 ^ s) mod 2 ^ BITS a \<and> uval (shr a s) = uval a div 2 ^ s
    \<and> uval (band a b) = uval a AND uval b \<and> uval (bor a b) = uval a OR uval b
    \<and> uval (bxor a b) = uval a XOR uval b \<and> uval (bnot a) = 2 ^ BITS a - 1 - uval a
    \<and> CompareTo a b = (if uval a < uval b then - 1 else if uval b < uval a then 1 else 0)
    \<and> (\<forall>r \<in> {add a b, sub a b, mul a b, mul32 a k, shl a s, shr a s, band a b, bor a b, bxor a b, bnot a}.
         length r = length a)"
  using assms
  by (simp add: uval_add uval_sub uval_mul uval_mul32 uval_shl uval_shr uval_bitops uval_bnot CompareTo_correct)

theorem base_uint_refines_modular_arithmetic_witness:
  "uval (mul [4294967295, 4294967295] [4294967295, 7]) = (18446744073709551615 * 34359738367) mod 2 ^ 64"
  using base_uint_refines_modular_arithmetic [of "[4294967295, 4294967295]" "[4294967295, 7]" 0 0] by simp

text \<open>
  C19. \<^verbatim>\<open>operator/=\<close> is division of the values: it throws exactly on a zero divisor and
  otherwise the shift-and-subtract loop returns the quotient, in the width of the operands.
\<close>

theorem division_correct:
  assumes "length a = length b"
  shows "udiv a b = Inl DivisionByZero \<and> uval b = 0
       \<or> (\<exists>q. udiv a b = Inr q \<and> uval b \<noteq> 0 \<and> length q = length a \<and> uval q = uval a div uval b)"
  using udiv_by_zero [of b a] udiv_Inr [OF assms] by (cases "uval b = 0") auto

theorem division_correct_witness:
  "\<exists>q. udiv [5, 7, 0, 1] [3, 2, 0, 0] = Inr q \<and> uval q = uval [5, 7, 0, 1] div uval [3, 2, 0, 0]"
  using division_correct [of "[5, 7, 0, 1]" "[3, 2, 0, 0]"] by auto

end
