(* ===== verification/Compact.thy ===== *)
theory Compact
  imports Uint256
begin

text \<open>
  The compact encoding of difficulty targets (\<^verbatim>\<open>uint256::SetCompact\<close>,
  \<^verbatim>\<open>uint256::GetCompact\<close>), the salted 64-bit hash of a \<^verbatim>\<open>uint256\<close>
  (\<^verbatim>\<open>GetHash\<close>) and the accessors they use.
\<close>

section \<open>Accessors\<close>

text \<open>A \<^verbatim>\<open>uint256\<close> has eight limbs.\<close>

definition is_uint256 :: "base_uint \<Rightarrow> bool" where
  "is_uint256 a \<longleftrightarrow> length a = 8"

definition uint256_lt :: "base_uint \<Rightarrow> base_uint \<Rightarrow> bool" where
  "uint256_lt a b \<longleftrightarrow> CompareTo a b < 0"

definition uint256_of_u64 :: "u64 \<Rightarrow> base_uint" where
  "uint256_of_u64 b = base_uint_of_u64 8 b"

definition GetLow64 :: "base_uint \<Rightarrow> u64" where
  "GetLow64 pn = ucast (pn ! 0) OR push_bit 32 (ucast (pn ! 1))"

definition Get64 :: "nat \<Rightarrow> base_uint \<Rightarrow> u64" where
  "Get64 n pn = ucast (pn ! (2 * n)) OR push_bit 32 (ucast (pn ! (2 * n + 1)))"

section \<open>The compact format\<close>

text \<open>The value and the two flags \<open>(pfNegative, pfOverflow)\<close> that \<^verbatim>\<open>SetCompact\<close> delivers.\<close>

definition SetCompact :: "u32 \<Rightarrow> base_uint \<times> bool \<times> bool" where
  "SetCompact nCompact =
     (let nSize = unat (drop_bit 24 nCompact);
          nWord0 = nCompact AND 0x007fffff;
          nWord = (if nSize \<le> 3 then drop_bit (8 * (3 - nSize)) nWord0 else nWord0);
          this = (if nSize \<le> 3 then uint256_of_u64 (ucast nWord)
                  else shl (uint256_of_u64 (ucast nWord)) (8 * (nSize - 3)));
          fNegative = (nWord \<noteq> 0 \<and> nCompact AND 0x00800000 \<noteq> 0);
          fOverflow = (nWord \<noteq> 0 \<and> (34 < nSize \<or> (0xff < nWord \<and> 33 < nSize) \<or> (0xffff < nWord \<and> 32 < nSize)))
      in (this, fNegative, fOverflow))"

text \<open>\<open>None\<close> stands for a failed \<^verbatim>\<open>assert\<close>.\<close>

definition GetCompact :: "base_uint \<Rightarrow> bool \<Rightarrow> u32 option" where
  "GetCompact a fNegative =
     (let nSize0 = (bits a + 7) div 8;
          nCompact0 = (if nSize0 \<le> 3 then ucast (push_bit (8 * (3 - nSize0)) (GetLow64 a))
                       else ucast (GetLow64 (shr a (8 * (nSize0 - 3)))));
          (nCompact1, nSize) = (if nCompact0 AND 0x00800000 \<noteq> 0 then (drop_bit 8 nCompact0, nSize0 + 1)
                                else (nCompact0, nSize0))
      in if nCompact1 AND NOT 0x007fffff \<noteq> 0 then None
         else if \<not> nSize < 256 then None
         else let nCompact2 = nCompact1 OR push_bit 24 (of_nat nSize)
              in Some (nCompact2 OR (if fNegative \<and> nCompact2 AND 0x007fffff \<noteq> 0 then 0x00800000 else 0)))"

section \<open>The salted hash\<close>

definition HashMix :: "u32 \<times> u32 \<times> u32 \<Rightarrow> u32 \<times> u32 \<times> u32" where
  "HashMix = (\<lambda>(a, b, c).
     let a = a - c; a = a XOR (push_bit 4 c OR drop_bit 28 c); c = c + b;
         b = b - a; b = b XOR (push_bit 6 a OR drop_bit 26 a); a = a + c;
         c = c - b; c = c XOR (push_bit 8 b OR drop_bit 24 b); b = b + a;
         a = a - c; a = a XOR (push_bit 16 c OR drop_bit 16 c); c = c + b;
         b = b - a; b = b XOR (push_bit 19 a OR drop_bit 13 a); a = a + c;
         c = c - b; c = c XOR (push_bit 4 b OR drop_bit 28 b); b = b + a
     in (a, b, c))"

definition HashFinal :: "u32 \<times> u32 \<times> u32 \<Rightarrow> u32 \<times> u32 \<times> u32" where
  "HashFinal = (\<lambda>(a, b, c).
     let c = c XOR b; c = c - (push_bit 14 b OR drop_bit 18 b);
         a = a XOR c; a = a - (push_bit 11 c OR drop_bit 21 c);
         b = b XOR a; b = b - (push_bit 25 a OR drop_bit 7 a);
         c = c XOR b; c = c - (push_bit 16 b OR drop_bit 16 b);
         a = a XOR c; a = a - (push_bit 4 c OR drop_bit 28 c);
         b = b XOR a; b = b - (push_bit 14 a OR drop_bit 18 a);
         c = c XOR b; c = c - (push_bit 24 b OR drop_bit 8 b)
     in (a, b, c))"

definition GetHash :: "base_uint \<Rightarrow> base_uint \<Rightarrow> u64" where
  "GetHash salt pn =
     (let z = 0xdeadbeef + push_bit 2 8; x = (\<lambda>i. pn ! i XOR salt ! i);
          (a, b, c) = HashMix (z + x 0, z + x 1, z + x 2);
          (a, b, c) = HashMix (a + x 3, b + x 4, c + x 5);
          (a, b, c) = HashFinal (a + x 6, b + x 7, c)
      in push_bit 32 (ucast b) OR ucast c)"

section \<open>Values of the compact format\<close>

lemma is_uint256_simps [simp]:
  "is_uint256 (uint256_of_u64 b)" "is_uint256 (shl a s) = is_uint256 a" "is_uint256 (shr a s) = is_uint256 a"
  by (simp_all add: is_uint256_def uint256_of_u64_def length_base_uint_of_u64)

lemma uval_uint256_of_u64 [simp]: "uval (uint256_of_u64 b) = unat b"
  by (simp add: uint256_of_u64_def uval_base_uint_of_u64)

lemma uint256_lt_iff: "is_uint256 a \<Longrightarrow> is_uint256 b \<Longrightarrow> uint256_lt a b \<longleftrightarrow> uval a < uval b"
  by (simp add: uint256_lt_def is_uint256_def CompareTo_correct)

lemma uint256_of_u64_inj: "uint256_of_u64 a = uint256_of_u64 b \<longleftrightarrow> a = b"
  by (metis uval_uint256_of_u64 word_unat_eq_iff)

lemma unat_GetLow64: "2 \<le> length a \<Longrightarrow> unat (GetLow64 a) = uval a mod 2 ^ 64"
proof -
  assume "2 \<le> length a"
  then obtain x y zs where a: "a = x # y # zs"
    by (metis Suc_le_length_iff numeral_2_eq_2)
  have "ucast x AND push_bit 32 (ucast y :: u64) = 0"
    by (rule bit_eqI) (auto simp: bit_simps dest: u32_bit_lt)
  then have "GetLow64 a = ucast x + push_bit 32 (ucast y)"
    by (simp add: GetLow64_def a disjunctive_add_eq_or)
  then have "unat (GetLow64 a) = unat x + 4294967296 * unat y"
    using mod_mult_add_lt [OF unat_u32_lt [of x] unat_u32_lt [of y]]
    by (simp add: push_bit_eq_mult unat_word_ariths mod_simps mult.commute)
  moreover have "(unat x + 4294967296 * unat y + 4294967296 * 4294967296 * uval zs) mod (4294967296 * 4294967296)
      = unat x + 4294967296 * unat y"
    using mod_mult_add_lt [OF unat_u32_lt [of x] unat_u32_lt [of y]] by simp
  ultimately show ?thesis by (simp add: a algebra_simps)
qed

lemma unat_and_mask23: "unat (c AND 0x007fffff :: u32) = unat c mod 8388608"
proof -
  have "c AND 0x007fffff = take_bit 23 c"
    by (simp add: take_bit_eq_mask mask_eq_exp_minus_1)
  then have "unat (c AND 0x007fffff) = take_bit 23 (unat c)" by (simp only: unsigned_take_bit_eq)
  then show ?thesis by (simp add: take_bit_eq_mod)
qed

lemma and_bit23: "(c AND 0x00800000 \<noteq> (0::u32)) \<longleftrightarrow> bit c 23"
  using bit_iff_and_push_bit_not_eq_0 [of c 23] by (simp add: push_bit_eq_mult)

text \<open>What \<^verbatim>\<open>SetCompact\<close> computes, in terms of the exponent byte and the mantissa.\<close>

lemma SetCompact_value:
  fixes c :: u32
  defines "e \<equiv> unat c div 16777216" and "m \<equiv> unat c mod 8388608"
  shows "uval (fst (SetCompact c)) = (if e \<le> 3 then m div 256 ^ (3 - e) else (m * 256 ^ (e - 3)) mod 2 ^ 256)"
    and "is_uint256 (fst (SetCompact c))"
proof -
  have e: "unat (drop_bit 24 c) = e" by (simp only: unat_drop_bit e_def) simp
  have p: "(2::nat) ^ (8 * k) = 256 ^ k" for k by (simp add: power_mult)
  have l: "length (uint256_of_u64 b) = 8" for b
    by (simp add: uint256_of_u64_def length_base_uint_of_u64)
  show "uval (fst (SetCompact c)) = (if e \<le> 3 then m div 256 ^ (3 - e) else (m * 256 ^ (e - 3)) mod 2 ^ 256)"
    by (simp add: SetCompact_def Let_def e unat_drop_bit unat_and_mask23 m_def e_def uval_shl l p
        del: drop_bit_and unat_drop_bit_eq)
  show "is_uint256 (fst (SetCompact c))" by (simp add: SetCompact_def Let_def)
qed


lemma SetCompact_flags:
  fixes c :: u32
  assumes "\<not> bit c 23"
    and "unat c div 16777216 \<le> 32 \<or> unat c div 16777216 = 33 \<and> unat c mod 8388608 \<le> 65535"
  shows "snd (SetCompact c) = (False, False)"
proof -
  have e: "unat (drop_bit 24 c) = unat c div 16777216" by (simp only: unat_drop_bit) simp
  have "0xffff < (c AND 0x007fffff) \<longleftrightarrow> 65535 < unat c mod 8388608"
    by (simp add: word_less_nat_alt unat_and_mask23)
  with assms(2) show ?thesis
    by (auto simp: SetCompact_def Let_def and_bit23 assms(1) e simp del: drop_bit_and)
qed

text \<open>
  \<open>compact_parts v\<close> is the mantissa and the exponent that \<^verbatim>\<open>GetCompact\<close> packs for a
  value \<open>v\<close> of \<open>n\<close> significant bytes.
\<close>

definition compact_parts :: "nat \<Rightarrow> nat \<Rightarrow> nat \<times> nat" where
  "compact_parts v n =
     (let c = (if n \<le> 3 then v * 256 ^ (3 - n) else v div 256 ^ (n - 3))
      in if 8388608 \<le> c then (c div 256, n + 1) else (c, n))"

lemma compact_parts_raw_lt:
  fixes v :: nat
  assumes "v < 256 ^ n"
  shows "(if n \<le> 3 then v * 256 ^ (3 - n) else v div 256 ^ (n - 3)) < 16777216"
proof (cases "n \<le> 3")
  case True
  have "v * 256 ^ (3 - n) < 256 ^ n * 256 ^ (3 - n)" using assms by simp
  with True show ?thesis by (simp flip: power_add)
next
  case False
  then have "(256::nat) ^ n = 16777216 * 256 ^ (n - 3)"
    using power_add [of "256::nat" 3 "n - 3"] by simp
  with False assms show ?thesis by (simp add: less_mult_imp_div_less)
qed

lemma compact_parts_lt:
  assumes "v < 256 ^ n"
  shows "fst (compact_parts v n) < 8388608" and "snd (compact_parts v n) \<le> n + 1"
  using compact_parts_raw_lt [OF assms]
  by (auto simp: compact_parts_def Let_def)

lemma bits_bytes:
  assumes "is_uint256 a"
  shows "uval a < 256 ^ ((bits a + 7) div 8)" and "(bits a + 7) div 8 \<le> 32"
proof -
  have "uval a < 2 ^ bits a" by (rule bits_lt)
  also have "\<dots> \<le> 2 ^ (8 * ((bits a + 7) div 8))" by (intro power_increasing) simp_all
  also have "\<dots> = 256 ^ ((bits a + 7) div 8)" by (simp add: power_mult)
  finally show "uval a < 256 ^ ((bits a + 7) div 8)" .
  show "(bits a + 7) div 8 \<le> 32" using bits_le_BITS [of a] assms by (simp add: is_uint256_def)
qed

lemma pack_u32:
  fixes m :: u32
  assumes "unat m < 8388608" and "n < 256"
  shows "unat (m OR push_bit 24 (of_nat n)) = unat m + 16777216 * n"
proof -
  have mb: "bit m i \<Longrightarrow> i < 23" for i
  proof (rule ccontr)
    assume "bit m i" "\<not> i < 23"
    then have "2 ^ 23 \<le> unat m"
      by (metis (no_types) bit_unat bit_iff_odd div_less even_zero linorder_not_less
          power_increasing_iff one_less_numeral_iff order_less_le_trans semiring_norm(76))
    with assms(1) show False by simp
  qed
  have "m AND push_bit 24 (of_nat n) = 0"
    by (rule bit_eqI) (auto simp: bit_simps dest: mb)
  then have "m OR push_bit 24 (of_nat n) = m + push_bit 24 (of_nat n)"
    by (simp add: disjunctive_add_eq_or)
  moreover have "unat (push_bit 24 (of_nat n) :: u32) = 16777216 * n"
    using assms(2) by (simp add: push_bit_eq_mult unat_word_ariths unat_of_nat mod_simps)
  ultimately show ?thesis
    using assms by (simp add: unat_word_ariths)
qed

lemma GetCompact_value:
  assumes "is_uint256 a"
  obtains c where "GetCompact a False = Some c"
    and "unat c = fst (compact_parts (uval a) ((bits a + 7) div 8))
                + 16777216 * snd (compact_parts (uval a) ((bits a + 7) div 8))"
proof -
  define n where "n = (bits a + 7) div 8"
  define r :: u32 where "r = (if n \<le> 3 then ucast (push_bit (8 * (3 - n)) (GetLow64 a))
                       else ucast (GetLow64 (shr a (8 * (n - 3)))))"
  have v: "uval a < 256 ^ n" and n32: "n \<le> 32" using bits_bytes [OF assms] by (simp_all add: n_def)
  have len: "2 \<le> length a" using assms by (simp add: is_uint256_def)
  have p: "(2::nat) ^ (8 * k) = 256 ^ k" for k by (simp add: power_mult)
  define raw where "raw = (if n \<le> 3 then uval a * 256 ^ (3 - n) else uval a div 256 ^ (n - 3))"
  have raw: "raw < 16777216" unfolding raw_def using v by (rule compact_parts_raw_lt)
  have r: "unat r = raw"
  proof (cases "n \<le> 3")
    case True
    have "(256::nat) ^ n \<le> 256 ^ 3" using True by (intro power_increasing) simp_all
    with v have "uval a < 16777216" by simp
    with True raw len show ?thesis
      by (simp add: r_def raw_def unat_ucast_64_32 unat_push_bit unat_GetLow64 p)
  next
    case False
    with raw len show ?thesis
      by (simp add: r_def raw_def unat_ucast_64_32 unat_GetLow64 uval_shr p)
  qed
  define m where "m = (if r AND 0x00800000 \<noteq> 0 then drop_bit 8 r else r)"
  define k where "k = (if r AND 0x00800000 \<noteq> 0 then n + 1 else n)"
  have flag: "r AND 0x00800000 \<noteq> 0 \<longleftrightarrow> 8388608 \<le> raw"
    using bit_top_iff [of "unat r" 23] raw by (simp add: and_bit23 r [symmetric])
  have parts: "compact_parts (uval a) n = (unat m, k)"
    using flag r by (simp add: compact_parts_def Let_def m_def k_def raw_def unat_drop_bit)
  have m: "unat m < 8388608" using compact_parts_lt(1) [OF v] parts by simp
  have "m AND NOT 0x007fffff = 0"
  proof -
    have "m AND 0x007fffff = m" using m by (simp add: word_unat_eq_iff unat_and_mask23)
    then show ?thesis by (metis and.assoc and_zero_eq bit.conj_cancel_right)
  qed
  moreover have "k < 256" using n32 by (simp add: k_def)
  ultimately have "GetCompact a False = Some (m OR push_bit 24 (of_nat k))"
    by (simp add: GetCompact_def Let_def n_def [symmetric] r_def [symmetric] m_def k_def split: if_splits)
  then show ?thesis
    using parts pack_u32 [OF m \<open>k < 256\<close>] by (intro that) (simp_all only: n_def [symmetric] fst_conv snd_conv)
qed

section \<open>Precision and stability of the encoding\<close>

text \<open>Re-reading a packed mantissa and exponent.\<close>

lemma unpack_div_mod:
  fixes m k :: nat
  assumes "m < 8388608"
  shows "(m + 16777216 * k) div 16777216 = k" and "(m + 16777216 * k) mod 8388608 = m"
proof -
  show "(m + 16777216 * k) div 16777216 = k" using assms by simp
  have "m + 16777216 * k = m + 8388608 * (2 * k)" by simp
  then show "(m + 16777216 * k) mod 8388608 = m" using assms by (simp only: mod_mult_self2) simp
qed

definition compact_value :: "nat \<times> nat \<Rightarrow> nat" where
  "compact_value = (\<lambda>(m, e). if e \<le> 3 then m div 256 ^ (3 - e) else m * 256 ^ (e - 3))"

lemma div_mult_low:
  fixes v b :: nat
  assumes "0 < b"
  shows "v div b * b \<le> v" and "v - v div b * b < b"
  using assms by (simp_all add: minus_div_mult_eq_mod)

text \<open>
  The packed value is the value itself when it has at most two bytes, and otherwise the
  value with its low bytes cleared; \<open>trunc_bytes\<close> counts the cleared bytes.
\<close>

definition trunc_bytes :: "nat \<Rightarrow> nat \<Rightarrow> nat" where
  "trunc_bytes v n = (if n < 3 then 0
     else if 8388608 \<le> v div 256 ^ (n - 3) then n - 2 else n - 3)"

lemma pow256: "(256::nat) ^ Suc k = 256 * 256 ^ k" by simp

lemma compact_value_parts:
  assumes "v < 256 ^ n"
  shows "compact_value (compact_parts v n) = v div 256 ^ trunc_bytes v n * 256 ^ trunc_bytes v n"
proof (cases "n < 3")
  case True
  then have "n = 0 \<or> n = 1 \<or> n = 2" by linarith
  with assms show ?thesis
    by (elim disjE) (simp_all add: compact_parts_def compact_value_def trunc_bytes_def Let_def)
next
  case False
  define B :: nat where "B = 256 ^ (n - 3)"
  have "(256::nat) ^ (n - 2) = 256 * B"
  proof -
    have "n - 2 = Suc (n - 3)" using False by linarith
    then show ?thesis by (simp add: B_def)
  qed
  with False show ?thesis
    by (auto simp: compact_parts_def compact_value_def trunc_bytes_def Let_def B_def [symmetric]
        div_mult2_eq [symmetric] mult.commute)
qed

lemma trunc_bytes_weight:
  assumes "256 ^ (n - 1) \<le> v" and "3 \<le> n"
  shows "32768 \<le> v div 256 ^ trunc_bytes v n"
proof -
  have n: "(256::nat) ^ (n - 2) = 256 ^ (n - 3) * 256" "(256::nat) ^ (n - 1) = 65536 * 256 ^ (n - 3)"
  proof -
    have "n - 2 = Suc (n - 3)" "n - 1 = Suc (Suc (n - 3))" using assms(2) by linarith+
    then show "(256::nat) ^ (n - 2) = 256 ^ (n - 3) * 256" "(256::nat) ^ (n - 1) = 65536 * 256 ^ (n - 3)"
      by simp_all
  qed
  show ?thesis
  proof (cases "8388608 \<le> v div 256 ^ (n - 3)")
    case True
    then have "8388608 div 256 \<le> v div 256 ^ (n - 3) div 256" by (rule div_le_mono)
    with True assms(2) show ?thesis by (simp add: trunc_bytes_def n div_mult2_eq)
  next
    case False
    have "65536 * 256 ^ (n - 3) div 256 ^ (n - 3) \<le> v div 256 ^ (n - 3)"
      using assms(1) n(2) by (intro div_le_mono) simp
    with False assms(2) show ?thesis by (simp add: trunc_bytes_def)
  qed
qed

lemma compact_value_precision:
  assumes "v < 256 ^ n" and "0 < n \<Longrightarrow> 256 ^ (n - 1) \<le> v"
  defines "t \<equiv> compact_value (compact_parts v n)"
  shows "t \<le> v" and "(v - t) * 32768 \<le> t"
proof -
  define B :: nat where "B = 256 ^ trunc_bytes v n"
  have t: "t = v div B * B" using compact_value_parts [OF assms(1)] by (simp add: t_def B_def)
  have B: "0 < B" by (simp add: B_def)
  show "t \<le> v" using div_mult_low(1) [OF B] t by simp
  show "(v - t) * 32768 \<le> t"
  proof (cases "n < 3")
    case True
    then show ?thesis using t by (simp add: B_def trunc_bytes_def)
  next
    case False
    then have "32768 * B \<le> v div B * B"
      using trunc_bytes_weight [of n v] assms(2) by (simp add: B_def)
    moreover have "(v - t) * 32768 \<le> 32768 * B" using div_mult_low(2) [OF B, of v] t by simp
    ultimately show ?thesis unfolding t by linarith
  qed
qed

text \<open>The byte count of a value determines, and is determined by, its order of magnitude.\<close>

lemma nbytes_ge:
  assumes "0 < (bits a + 7) div 8"
  shows "256 ^ ((bits a + 7) div 8 - 1) \<le> uval a"
proof -
  have "bits a \<noteq> 0" using assms by auto
  then have "uval a \<noteq> 0" by (simp only: bits_eq_0_iff) simp
  then have "2 ^ (bits a - 1) \<le> uval a" by (rule bits_bounds(1))
  moreover have "(256::nat) ^ ((bits a + 7) div 8 - 1) = 2 ^ (8 * ((bits a + 7) div 8 - 1))"
    by (simp add: power_mult)
  moreover have "8 * ((bits a + 7) div 8 - 1) \<le> bits a - 1" by linarith
  then have "(2::nat) ^ (8 * ((bits a + 7) div 8 - 1)) \<le> 2 ^ (bits a - 1)"
    by (rule power_increasing) simp
  ultimately show ?thesis by linarith
qed

lemma bytes_unique:
  fixes v :: nat
  assumes "v < 256 ^ n" "0 < n \<Longrightarrow> 256 ^ (n - 1) \<le> v" "v < 256 ^ k" "0 < k \<Longrightarrow> 256 ^ (k - 1) \<le> v"
  shows "n = k"
proof (rule ccontr)
  have *: False if "i < j" "v < 256 ^ i" "256 ^ (j - 1) \<le> v" for i j
  proof -
    have "(256::nat) ^ i \<le> 256 ^ (j - 1)" using that(1) by (intro power_increasing) simp_all
    with that show False by simp
  qed
  assume "n \<noteq> k"
  then show False using * [of n k] * [of k n] assms by (cases n k rule: linorder_cases) simp_all
qed

text \<open>The encoding of a value and its decoding, in one statement.\<close>

lemma compact_roundtrip:
  assumes "is_uint256 a"
  obtains c where "GetCompact a False = Some c" and "snd (SetCompact c) = (False, False)"
    and "uval (fst (SetCompact c)) = compact_value (compact_parts (uval a) ((bits a + 7) div 8))"
proof -
  define n where "n = (bits a + 7) div 8"
  define m k where "m = fst (compact_parts (uval a) n)" and "k = snd (compact_parts (uval a) n)"
  have v: "uval a < 256 ^ n" and n32: "n \<le> 32" using bits_bytes [OF assms] by (simp_all add: n_def)
  have m: "m < 8388608" using compact_parts_lt(1) [OF v] by (simp add: m_def)
  obtain c where c: "GetCompact a False = Some c" "unat c = m + 16777216 * k"
    using GetCompact_value [OF assms] by (auto simp: m_def k_def n_def)
  have ek: "unat c div 16777216 = k" and em: "unat c mod 8388608 = m"
    using unpack_div_mod [OF m, of k] c(2) by simp_all
  have "\<not> bit (unat c) 23"
  proof -
    have "unat c div 2 ^ 23 = 2 * k" using m c(2) by simp
    then show ?thesis by (simp add: bit_iff_odd)
  qed
  moreover have "k \<le> 32 \<or> k = 33 \<and> m \<le> 65535"
    using n32 compact_parts_raw_lt [OF v]
    by (auto simp: k_def m_def compact_parts_def Let_def)
  ultimately have flags: "snd (SetCompact c) = (False, False)"
    by (intro SetCompact_flags) (simp_all add: ek em)
  have "compact_value (m, k) \<le> uval a"
    using compact_value_precision(1) [OF v] nbytes_ge [of a] by (simp add: n_def m_def k_def)
  also have "\<dots> < 2 ^ 256" using uval_lt [of a] assms by (simp add: is_uint256_def)
  finally have "uval (fst (SetCompact c)) = compact_value (m, k)"
    unfolding SetCompact_value(1) ek em by (cases "k \<le> 3") (simp_all add: compact_value_def)
  then show ?thesis using that c(1) flags by (simp add: m_def k_def n_def)
qed

lemma compact_parts_stable:
  assumes "v < 256 ^ n" and "0 < n \<Longrightarrow> 256 ^ (n - 1) \<le> v"
  defines "t \<equiv> compact_value (compact_parts v n)"
  shows "compact_parts t n = compact_parts v n" and "0 < n \<Longrightarrow> 256 ^ (n - 1) \<le> t" and "t < 256 ^ n"
proof -
  have t: "t = v div 256 ^ trunc_bytes v n * 256 ^ trunc_bytes v n"
    using compact_value_parts [OF assms(1)] by (simp add: t_def)
  show "t < 256 ^ n" using compact_value_precision(1) [OF assms(1,2)] assms(1) by (simp add: t_def)
  show "0 < n \<Longrightarrow> 256 ^ (n - 1) \<le> t"
  proof -
    assume n: "0 < n"
    define j where "j = trunc_bytes v n"
    have "j \<le> n - 1" by (auto simp: j_def trunc_bytes_def)
    then have "(256::nat) ^ (n - 1) = 256 ^ (n - 1 - j) * 256 ^ j" by (simp flip: power_add)
    moreover have "256 ^ (n - 1) div 256 ^ j \<le> v div 256 ^ j"
      using assms(2) [OF n] by (rule div_le_mono)
    ultimately show ?thesis unfolding t j_def [symmetric] by simp
  qed
  show "compact_parts t n = compact_parts v n"
  proof (cases "n < 3 \<or> v div 256 ^ (n - 3) < 8388608")
    case True
    then have "trunc_bytes v n = (if n < 3 then 0 else n - 3)" by (auto simp: trunc_bytes_def)
    then show ?thesis using t by (cases "n \<le> 3") (auto simp: compact_parts_def Let_def)
  next
    case False
    define B c :: nat where "B = 256 ^ (n - 3)" and "c = v div B"
    have "n - 2 = Suc (n - 3)" using False by linarith
    then have "t = c div 256 * 256 * B"
      using t False by (simp add: trunc_bytes_def B_def c_def div_mult2_eq [symmetric] mult.commute)
    then have tB: "t div B = c div 256 * 256" by (simp add: B_def)
    have c: "8388608 \<le> c" using False by (simp add: B_def c_def)
    then have "8388608 div 256 \<le> c div 256" by (rule div_le_mono)
    then have "8388608 \<le> c div 256 * 256" by simp
    moreover have "compact_parts x n = (if 8388608 \<le> x div B then (x div B div 256, n + 1) else (x div B, n))" for x
      using False by (cases "n = 3") (simp_all add: compact_parts_def Let_def B_def)
    ultimately show ?thesis using c by (simp add: tB c_def [symmetric])
  qed
qed

text \<open>
  C22. Encoding a 256-bit target and decoding it again: \<^verbatim>\<open>GetCompact\<close> never fails an
  assertion, the decoded value is neither negative nor an overflow, it is never above the
  original and is short of it by at most one part in \<open>2^15\<close>; and encoding the decoded value
  gives the same 32-bit word, so a target that went through the wire format is a fixed point.
\<close>

theorem compact_precision_and_stability:
  assumes "is_uint256 a"
  shows "\<exists>c. GetCompact a False = Some c \<and> snd (SetCompact c) = (False, False)
     \<and> uval (fst (SetCompact c)) \<le> uval a
     \<and> (uval a - uval (fst (SetCompact c))) * 2 ^ 15 \<le> uval (fst (SetCompact c))
     \<and> GetCompact (fst (SetCompact c)) False = Some c"
proof -
  define n where "n = (bits a + 7) div 8"
  obtain c where c: "GetCompact a False = Some c" "snd (SetCompact c) = (False, False)"
    "uval (fst (SetCompact c)) = compact_value (compact_parts (uval a) n)"
    using compact_roundtrip [OF assms] by (auto simp: n_def)
  define t where "t = fst (SetCompact c)"
  have v: "uval a < 256 ^ n" "0 < n \<Longrightarrow> 256 ^ (n - 1) \<le> uval a"
    using bits_bytes(1) [OF assms] nbytes_ge [of a] by (simp_all add: n_def)
  have t: "is_uint256 t" by (simp add: t_def SetCompact_value(2))
  note st = compact_parts_stable [OF v, folded c(3), folded t_def]
  have "(bits t + 7) div 8 = n"
    using bits_bytes(1) [OF t] nbytes_ge [of t] st(2,3) by (intro bytes_unique [of "uval t"]) simp_all
  with st(1) obtain d where "GetCompact t False = Some d" "unat d = unat c"
    using GetCompact_value [OF t] GetCompact_value [OF assms] c(1)
    by (metis n_def option.inject)
  then have "GetCompact t False = Some c" by (simp add: word_unat_eq_iff)
  with c compact_value_precision [OF v] show ?thesis by (auto simp: t_def)
qed

theorem compact_precision_and_stability_witness:
  "\<exists>c. GetCompact (uint256_of_u64 0x1234567890) False = Some c
     \<and> uval (fst (SetCompact c)) \<le> 0x1234567890 \<and> GetCompact (fst (SetCompact c)) False = Some c"
  using compact_precision_and_stability [of "uint256_of_u64 0x1234567890"] by auto

end
