(* ===== verification/Serialize.thy ===== *)
theory Serialize
  imports Compact
begin

text \<open>
  Wire encodings of \<^verbatim>\<open>src/serialize.h\<close> and the stream they read from
  (\<^verbatim>\<open>CDataStream\<close> of \<^verbatim>\<open>src/streams.h\<close>): little-endian integers,
  \<^verbatim>\<open>CompactSize\<close>, \<^verbatim>\<open>VarInt\<close>, byte vectors and vectors of objects. The input
  side of a stream is the list of bytes not read yet; a reader returns the value and the
  rest, or the exception it throws. The locale \<open>codec\<close> states the contract every
  encoder/decoder pair of the wire format keeps: the decoder accepts exactly the encodings
  of well-formed values.
\<close>

section \<open>Streams and errors\<close>

datatype stream_error =
    EndOfData
  | NonCanonicalCompactSize
  | CompactSizeTooLarge
  | StringLengthLimitExceeded
  | VectorLoopNoProgress

type_synonym 'a reader = "bytes \<Rightarrow> stream_error + 'a \<times> bytes"

definition bindE :: "'e + 'a \<Rightarrow> ('a \<Rightarrow> 'e + 'b) \<Rightarrow> 'e + 'b" where
  "bindE m f = (case m of Inl e \<Rightarrow> Inl e | Inr x \<Rightarrow> f x)"

definition stream_read :: "nat \<Rightarrow> bytes reader" where
  "stream_read k is = (if length is < k then Inl EndOfData else Inr (take k is, drop k is))"

text \<open>
  \<^verbatim>\<open>CDataStream::read\<close> on the buffer and its read position; \<^verbatim>\<open>nReadPosNext\<close> is
  an \<^verbatim>\<open>unsigned int\<close>. \<open>pending\<close> is the abstraction the other definitions work on.
\<close>

record CDataStream =
  vch :: bytes
  nReadPos :: nat

definition pending :: "CDataStream \<Rightarrow> bytes" where
  "pending s = drop (nReadPos s) (vch s)"

definition CDataStream_read :: "CDataStream \<Rightarrow> nat \<Rightarrow> stream_error + bytes \<times> CDataStream" where
  "CDataStream_read s nSize =
     (let nReadPosNext = (nReadPos s + nSize) mod 2 ^ 32
      in if length (vch s) \<le> nReadPosNext
         then if length (vch s) < nReadPosNext then Inl EndOfData
              else Inr (take nSize (drop (nReadPos s) (vch s)), \<lparr>vch = [], nReadPos = 0\<rparr>)
         else Inr (take nSize (drop (nReadPos s) (vch s)), s\<lparr>nReadPos := nReadPosNext\<rparr>))"

section \<open>Basic types\<close>

fun le_bytes :: "nat \<Rightarrow> nat \<Rightarrow> bytes" where
  "le_bytes 0 n = []"
| "le_bytes (Suc k) n = of_nat (n mod 256) # le_bytes k (n div 256)"

fun le_nat :: "bytes \<Rightarrow> nat" where
  "le_nat [] = 0"
| "le_nat (b # bs) = unat b + 256 * le_nat bs"

definition read_le :: "nat \<Rightarrow> nat reader" where
  "read_le k is = bindE (stream_read k is) (\<lambda>(bs, is). Inr (le_nat bs, is))"

definition ser_u8 :: "u8 \<Rightarrow> bytes" where "ser_u8 b = [b]"
definition unser_u8 :: "u8 reader" where
  "unser_u8 is = bindE (read_le 1 is) (\<lambda>(n, is). Inr (of_nat n, is))"

definition ser_u32 :: "u32 \<Rightarrow> bytes" where "ser_u32 n = le_bytes 4 (unat n)"
definition unser_u32 :: "u32 reader" where
  "unser_u32 is = bindE (read_le 4 is) (\<lambda>(n, is). Inr (of_nat n, is))"

definition ser_int :: "nat \<Rightarrow> int \<Rightarrow> bytes" where
  "ser_int k i = le_bytes k (nat (i mod 2 ^ (8 * k)))"
definition unser_int :: "nat \<Rightarrow> int reader" where
  "unser_int k is = bindE (read_le k is) (\<lambda>(n, is). Inr (signed_take_bit (8 * k - 1) (int n), is))"

abbreviation in_int :: "nat \<Rightarrow> int \<Rightarrow> bool" where
  "in_int k i \<equiv> - (2 ^ (8 * k - 1)) \<le> i \<and> i < 2 ^ (8 * k - 1)"

fun ser_limbs :: "base_uint \<Rightarrow> bytes" where
  "ser_limbs [] = []"
| "ser_limbs (x # xs) = ser_u32 x @ ser_limbs xs"

fun unser_limbs :: "nat \<Rightarrow> base_uint reader" where
  "unser_limbs 0 is = Inr ([], is)"
| "unser_limbs (Suc k) is =
     bindE (unser_u32 is) (\<lambda>(x, is). bindE (unser_limbs k is) (\<lambda>(xs, is). Inr (x # xs, is)))"

section \<open>CompactSize\<close>

definition MAX_SIZE :: nat where "MAX_SIZE = 0x02000000"

definition GetSizeOfCompactSize :: "u64 \<Rightarrow> nat" where
  "GetSizeOfCompactSize nSize =
     (if nSize < 253 then 1 else if nSize \<le> 0xFFFF then 1 + 2
      else if nSize \<le> 0xFFFFFFFF then 1 + 4 else 1 + 8)"

definition WriteCompactSize :: "u64 \<Rightarrow> bytes" where
  "WriteCompactSize nSize =
     (if nSize < 253 then le_bytes 1 (unat nSize)
      else if nSize \<le> 0xFFFF then le_bytes 1 253 @ le_bytes 2 (unat nSize)
      else if nSize \<le> 0xFFFFFFFF then le_bytes 1 254 @ le_bytes 4 (unat nSize)
      else le_bytes 1 255 @ le_bytes 8 (unat nSize))"

definition compact_wide :: "nat \<Rightarrow> nat \<Rightarrow> u64 reader" where
  "compact_wide k least is =
     bindE (read_le k is) (\<lambda>(n, is).
       if n < least then Inl NonCanonicalCompactSize else Inr (of_nat n, is))"

definition ReadCompactSize :: "u64 reader" where
  "ReadCompactSize is =
     bindE (read_le 1 is) (\<lambda>(chSize, is).
     bindE (if chSize < 253 then Inr (of_nat chSize, is)
            else if chSize = 253 then compact_wide 2 253 is
            else if chSize = 254 then compact_wide 4 0x10000 is
            else compact_wide 8 0x100000000 is) (\<lambda>(nSizeRet, is).
       if MAX_SIZE < unat nSizeRet then Inl CompactSizeTooLarge else Inr (nSizeRet, is)))"

section \<open>VarInt\<close>

text \<open>
  The template parameter \<^verbatim>\<open>I\<close> is the word type. \<open>varint_tmp\<close> is the buffer
  \<^verbatim>\<open>tmp[0..len]\<close> the writer fills before it emits it backwards.
\<close>

lemma varint_step:
  fixes n :: "'a::len word"
  assumes "\<not> n \<le> 0x7F"
  shows "128 \<le> unat n" and "unat (drop_bit 7 n - 1) = unat n div 128 - 1"
proof -
  have lt: "unat (0x7F :: 'a word) < unat n" using assms by (simp only: word_le_nat_alt not_le)
  show g: "128 \<le> unat n"
  proof (cases "7 \<le> LENGTH('a)")
    case True
    then have "(127::nat) < 2 ^ LENGTH('a)"
      using power_increasing [of 7 "LENGTH('a)" "2::nat"] by simp
    then have "unat (0x7F :: 'a word) = 127" by (simp add: take_bit_nat_eq_self)
    with lt show ?thesis by simp
  next
    case False
    have "(0x7F :: 'a word) = mask 7" by (simp add: mask_eq_exp_minus_1)
    also have "\<dots> = - 1" using False by (intro bit_word_eqI) (simp add: bit_simps)
    finally have "n \<le> 0x7F" by (simp only: word_order.extremum)
    with assms show ?thesis by contradiction
  qed
  have d: "unat (drop_bit 7 n) = unat n div 2 ^ 7" by (rule unat_drop_bit)
  with g have "unat (drop_bit 7 n) \<noteq> 0" by simp
  then have "drop_bit 7 n \<noteq> 0" by (metis unat_0)
  then have "unat (drop_bit 7 n - 1) = unat (drop_bit 7 n) - 1" by (rule unat_minus_one)
  then show "unat (drop_bit 7 n - 1) = unat n div 128 - 1" unfolding d by simp
qed

lemma varint_decreases:
  assumes "\<not> n \<le> 0x7F"
  shows "unat (drop_bit 7 n - 1) < unat n"
proof -
  have "unat n div 128 - 1 < unat n" using varint_step(1) [OF assms] by linarith
  then show ?thesis unfolding varint_step(2) [OF assms] .
qed

function GetSizeOfVarInt :: "'a::len word \<Rightarrow> nat" where
  "GetSizeOfVarInt n = (if n \<le> 0x7F then 1 else Suc (GetSizeOfVarInt (drop_bit 7 n - 1)))"
  by pat_completeness auto
termination by (relation "measure unat") (simp_all add: varint_decreases)

function varint_tmp :: "'a::len word \<Rightarrow> nat \<Rightarrow> bytes" where
  "varint_tmp n len =
     (ucast (n AND 0x7F) OR (if len \<noteq> 0 then 0x80 else 0))
     # (if n \<le> 0x7F then [] else varint_tmp (drop_bit 7 n - 1) (Suc len))"
  by pat_completeness auto
termination by (relation "measure (unat \<circ> fst)") (simp_all add: varint_decreases)

definition WriteVarInt :: "'a::len word \<Rightarrow> bytes" where
  "WriteVarInt n = rev (varint_tmp n 0)"

fun varint_loop :: "'a::len word \<Rightarrow> 'a word reader" where
  "varint_loop n [] = Inl EndOfData"
| "varint_loop n (chData # is) =
     (let n = push_bit 7 n OR ucast (chData AND 0x7F)
      in if chData AND 0x80 \<noteq> 0 then varint_loop (n + 1) is else Inr (n, is))"

definition ReadVarInt :: "'a::len word reader" where
  "ReadVarInt is = varint_loop 0 is"

declare GetSizeOfVarInt.simps [simp del] varint_tmp.simps [simp del]

section \<open>Vectors and strings\<close>

text \<open>
  Vectors of \<^verbatim>\<open>unsigned char\<close> are read in blocks of five million bytes; vectors of
  other types element by element, growing the vector by \<^verbatim>\<open>5000000 / sizeof(T)\<close>
  elements at a time. \<open>VectorLoopNoProgress\<close> marks the loop that would not advance.
\<close>

function unser_blob_loop :: "nat \<Rightarrow> bytes \<Rightarrow> bytes reader" where
  "unser_blob_loop todo v is =
     (if todo = 0 then Inr (v, is)
      else let blk = min todo (1 + 4999999)
           in case stream_read blk is of
                Inl e \<Rightarrow> Inl e
              | Inr (bs, is) \<Rightarrow> unser_blob_loop (todo - blk) (v @ bs) is)"
  by pat_completeness auto
termination by (relation "measure fst") auto

declare unser_blob_loop.simps [simp del]

definition ser_blob :: "bytes \<Rightarrow> bytes" where
  "ser_blob v = WriteCompactSize (of_nat (length v)) @ v"

definition unser_blob :: "bytes reader" where
  "unser_blob is = bindE (ReadCompactSize is) (\<lambda>(nSize, is). unser_blob_loop (unat nSize) [] is)"

fun unser_elems :: "'a reader \<Rightarrow> nat \<Rightarrow> 'a list reader" where
  "unser_elems un 0 is = Inr ([], is)"
| "unser_elems un (Suc k) is =
     bindE (un is) (\<lambda>(x, is). bindE (unser_elems un k is) (\<lambda>(xs, is). Inr (x # xs, is)))"

function unser_vec_loop :: "'a reader \<Rightarrow> nat \<Rightarrow> nat \<Rightarrow> 'a list \<Rightarrow> 'a list reader" where
  "unser_vec_loop un step todo v is =
     (if todo = 0 then Inr (v, is)
      else if step = 0 then Inl VectorLoopNoProgress
      else case unser_elems un (min step todo) is of
             Inl e \<Rightarrow> Inl e
           | Inr (xs, is) \<Rightarrow> unser_vec_loop un step (todo - min step todo) (v @ xs) is)"
  by pat_completeness auto
termination by (relation "measure (\<lambda>(un, step, todo, v, is). todo)") auto

declare unser_vec_loop.simps [simp del]

definition ser_vec :: "('a \<Rightarrow> bytes) \<Rightarrow> 'a list \<Rightarrow> bytes" where
  "ser_vec ser v = WriteCompactSize (of_nat (length v)) @ concat (map ser v)"

definition unser_vec :: "nat \<Rightarrow> 'a reader \<Rightarrow> 'a list reader" where
  "unser_vec sizeof_T un is =
     bindE (ReadCompactSize is) (\<lambda>(nSize, is).
       unser_vec_loop un (5000000 div sizeof_T) (unat nSize) [] is)"

definition LimitedString_unserialize :: "nat \<Rightarrow> bytes reader" where
  "LimitedString_unserialize Limit is =
     bindE (ReadCompactSize is) (\<lambda>(size, is).
       if Limit < unat size then Inl StringLengthLimitExceeded
       else if unat size \<noteq> 0 then stream_read (unat size) is else Inr ([], is))"

definition LimitedString_serialize :: "bytes \<Rightarrow> bytes" where
  "LimitedString_serialize s = WriteCompactSize (of_nat (length s)) @ (if s = [] then [] else s)"

section \<open>The contract of an encoding\<close>

lemma bindE_Inr: "bindE m f = Inr y \<longleftrightarrow> (\<exists>x. m = Inr x \<and> f x = Inr y)"
  by (simp add: bindE_def split: sum.splits)

lemma bindE_Inr_pair: "bindE m f = Inr y \<longleftrightarrow> (\<exists>x is. m = Inr (x, is) \<and> f (x, is) = Inr y)"
  by (simp add: bindE_Inr)

lemma bindE_simps [simp]: "bindE (Inl e) f = Inl e" "bindE (Inr x) f = f x"
  by (simp_all add: bindE_def)

locale codec =
  fixes ser :: "'a \<Rightarrow> bytes" and unser :: "'a reader" and ok :: "'a \<Rightarrow> bool"
  assumes decode_iff: "unser is = Inr (x, rest) \<longleftrightarrow> ok x \<and> is = ser x @ rest"
begin

lemma roundtrip: "ok x \<Longrightarrow> unser (ser x @ rest) = Inr (x, rest)"
  by (simp add: decode_iff)

lemma prefix_free: "ok x \<Longrightarrow> ok y \<Longrightarrow> ser x @ r = ser y @ s \<Longrightarrow> x = y \<and> r = s"
  by (metis Inr_inject Pair_inject roundtrip)

lemma elems_iff:
  "unser_elems unser k is = Inr (xs, rest)
     \<longleftrightarrow> length xs = k \<and> list_all ok xs \<and> is = concat (map ser xs) @ rest"
proof (induction k arbitrary: "is" xs)
  case (Suc k)
  show ?case
    by (cases xs) (auto simp: bindE_Inr_pair decode_iff Suc.IH)
qed auto

end

section \<open>Little-endian integers\<close>

lemma length_le_bytes [simp]: "length (le_bytes k n) = k"
  by (induction k arbitrary: n) auto

lemma le_nat_le_bytes: "le_nat (le_bytes k n) = n mod 256 ^ k"
proof (induction k arbitrary: n)
  case (Suc k)
  have "n mod (256 * 256 ^ k) = n mod 256 + 256 * (n div 256 mod 256 ^ k)"
    by (simp add: mod_mult2_eq)
  with Suc show ?case by (simp add: unsigned_of_nat take_bit_eq_mod)
qed simp

lemma le_bytes_le_nat: "le_bytes (length bs) (le_nat bs) = bs"
proof (induction bs)
  case (Cons b bs)
  have "(unat b + 256 * le_nat bs) mod 256 = unat b" "(unat b + 256 * le_nat bs) div 256 = le_nat bs"
    using unat_u8_lt [of b] by simp_all
  with Cons show ?case by simp
qed simp

lemma le_nat_lt: "le_nat bs < 256 ^ length bs"
proof (induction bs)
  case (Cons b bs)
  with unat_u8_lt [of b] show ?case by (auto intro: mod_mult_add_lt)
qed simp

lemma stream_read_iff:
  "stream_read k is = Inr (bs, rest) \<longleftrightarrow> length bs = k \<and> is = bs @ rest"
  by (auto simp: stream_read_def)

lemma read_le_iff: "read_le k is = Inr (n, rest) \<longleftrightarrow> n < 256 ^ k \<and> is = le_bytes k n @ rest"
proof
  assume "read_le k is = Inr (n, rest)"
  then obtain bs where "length bs = k" "is = bs @ rest" "n = le_nat bs"
    by (auto simp: read_le_def bindE_Inr_pair stream_read_iff)
  then show "n < 256 ^ k \<and> is = le_bytes k n @ rest"
    using le_nat_lt [of bs] le_bytes_le_nat [of bs] by auto
next
  assume "n < 256 ^ k \<and> is = le_bytes k n @ rest"
  then show "read_le k is = Inr (n, rest)"
    by (auto simp: read_le_def bindE_Inr_pair stream_read_iff le_nat_le_bytes
        intro!: exI [of _ "le_bytes k n"])
qed

lemma of_nat_le_word:
  assumes "n < 2 ^ LENGTH('a::len)"
  shows "of_nat n = (w :: 'a word) \<longleftrightarrow> n = unat w"
  using assms by (auto simp: of_nat_inverse)

lemma read_word_iff:
  assumes "8 * k = LENGTH('a::len)"
  shows "bindE (read_le k bs) (\<lambda>(n, is). Inr (of_nat n, is)) = Inr (x :: 'a word, rest)
     \<longleftrightarrow> bs = le_bytes k (unat x) @ rest"
proof -
  have p: "256 ^ k = (2::nat) ^ LENGTH('a)" by (simp add: assms [symmetric] power_mult)
  have "bindE (read_le k bs) (\<lambda>(n, is). Inr (of_nat n, is)) = Inr (x, rest)
     \<longleftrightarrow> (\<exists>n. n < 256 ^ k \<and> bs = le_bytes k n @ rest \<and> of_nat n = x)"
    by (auto simp: bindE_Inr_pair read_le_iff)
  also have "\<dots> \<longleftrightarrow> (\<exists>n. n < 256 ^ k \<and> bs = le_bytes k n @ rest \<and> n = unat x)"
    using of_nat_le_word [where 'a = 'a] unfolding p by blast
  also have "\<dots> \<longleftrightarrow> bs = le_bytes k (unat x) @ rest"
    unfolding p by auto
  finally show ?thesis .
qed

interpretation u8: codec ser_u8 unser_u8 "\<lambda>_. True"
proof
  fix bs :: bytes and x rest
  show "unser_u8 bs = Inr (x, rest) \<longleftrightarrow> True \<and> bs = ser_u8 x @ rest"
    using read_word_iff [of 1 bs x rest] unat_u8_lt [of x] by (simp add: unser_u8_def ser_u8_def)
qed

interpretation u32: codec ser_u32 unser_u32 "\<lambda>_. True"
  by unfold_locales (simp add: unser_u32_def ser_u32_def read_word_iff)

lemma signed_take_bit_mod:
  assumes "0 < n"
  shows "signed_take_bit (n - 1) (j mod 2 ^ n) = signed_take_bit (n - 1) (j :: int)"
  using assms by (metis Suc_diff_1 signed_take_bit_take_bit diff_Suc_1 lessI min.absorb3 min.commute
      signed_take_bit_eq_iff_take_bit_eq take_bit_eq_mod mod_mod_trivial)

lemma read_int_iff:
  assumes "0 < k"
  shows "unser_int k bs = Inr (i, rest) \<longleftrightarrow> in_int k i \<and> bs = ser_int k i @ rest"
proof -
  let ?m = "8 * k" and ?s = "\<lambda>i. signed_take_bit (8 * k - 1) (i :: int)"
  have p: "256 ^ k = (2::nat) ^ ?m" by (simp add: power_mult)
  have undo: "?s n mod 2 ^ ?m = n" if "0 \<le> n" "n < 2 ^ ?m" for n :: int
  proof -
    have "take_bit ?m (?s n) = take_bit ?m n"
      using assms by (simp add: take_bit_signed_take_bit)
    with that show ?thesis by (simp add: take_bit_eq_mod)
  qed
  have range: "in_int k (?s n)" for n
    using signed_take_bit_int_greater_eq_minus_exp [of "?m - 1" n] signed_take_bit_int_less_exp [of "?m - 1" n] by simp
  have "unser_int k bs = Inr (i, rest)
     \<longleftrightarrow> (\<exists>n. n < 256 ^ k \<and> bs = le_bytes k n @ rest \<and> ?s (int n) = i)"
    by (auto simp: unser_int_def bindE_Inr_pair read_le_iff)
  also have "\<dots> \<longleftrightarrow> in_int k i \<and> bs = ser_int k i @ rest"
  proof
    assume "\<exists>n. n < 256 ^ k \<and> bs = le_bytes k n @ rest \<and> ?s (int n) = i"
    then obtain n where n: "n < 2 ^ ?m" "bs = le_bytes k n @ rest" "i = ?s (int n)" unfolding p by blast
    moreover have "int n < 2 ^ ?m" using n(1) by (metis of_nat_less_iff of_nat_numeral of_nat_power)
    ultimately show "in_int k i \<and> bs = ser_int k i @ rest"
      using undo [of "int n"] range [of "int n"] by (simp add: ser_int_def)
  next
    assume a: "in_int k i \<and> bs = ser_int k i @ rest"
    have "nat (i mod 2 ^ ?m) < 2 ^ ?m" by (simp add: nat_less_iff)
    moreover have "?s (int (nat (i mod 2 ^ ?m))) = i"
      using a assms signed_take_bit_mod [of ?m i] by (simp add: signed_take_bit_int_eq_self)
    ultimately show "\<exists>n. n < 256 ^ k \<and> bs = le_bytes k n @ rest \<and> ?s (int n) = i"
      using a unfolding p ser_int_def by blast
  qed
  finally show ?thesis .
qed

interpretation i32: codec "ser_int 4" "unser_int 4" "in_int 4"
  by unfold_locales (simp add: read_int_iff)

interpretation i64: codec "ser_int 8" "unser_int 8" "in_int 8"
  by unfold_locales (simp add: read_int_iff)

lemma unser_limbs_iff: "unser_limbs k bs = Inr (xs, rest) \<longleftrightarrow> length xs = k \<and> bs = ser_limbs xs @ rest"
proof (induction k arbitrary: bs xs)
  case (Suc k)
  show ?case by (cases xs) (auto simp: bindE_Inr_pair u32.decode_iff Suc.IH)
qed auto

interpretation uint256: codec ser_limbs "unser_limbs 8" is_uint256
  by unfold_locales (simp add: unser_limbs_iff is_uint256_def)

section \<open>CompactSize: exact inverse\<close>

lemma unat_le_numeral:
  "n \<le> (0xFFFF :: u64) \<longleftrightarrow> unat n \<le> 0xFFFF" "n \<le> (0xFFFFFFFF :: u64) \<longleftrightarrow> unat n \<le> 0xFFFFFFFF"
  "n < (253 :: u64) \<longleftrightarrow> unat n < 253"
  by (simp_all add: word_le_nat_alt word_less_nat_alt)

lemma WriteCompactSize_nat:
  "WriteCompactSize nSize = (let n = unat nSize in
     if n < 253 then le_bytes 1 n else if n \<le> 0xFFFF then le_bytes 1 253 @ le_bytes 2 n
     else if n \<le> 0xFFFFFFFF then le_bytes 1 254 @ le_bytes 4 n else le_bytes 1 255 @ le_bytes 8 n)"
  by (simp add: WriteCompactSize_def unat_le_numeral del: le_bytes.simps)

lemma length_WriteCompactSize: "length (WriteCompactSize n) = GetSizeOfCompactSize n"
  by (simp add: WriteCompactSize_def GetSizeOfCompactSize_def)

lemma compact_wide_iff:
  assumes "k \<le> 8"
  shows "compact_wide k least bs = Inr (x, rest)
     \<longleftrightarrow> least \<le> unat x \<and> unat x < 256 ^ k \<and> bs = le_bytes k (unat x) @ rest"
proof -
  have "(256::nat) ^ k \<le> 256 ^ 8" using assms by (intro power_increasing) auto
  then have w: "n < 2 ^ LENGTH(64)" if "n < 256 ^ k" for n :: nat using that by simp
  have "compact_wide k least bs = Inr (x, rest)
     \<longleftrightarrow> (\<exists>n. n < 256 ^ k \<and> bs = le_bytes k n @ rest \<and> least \<le> n \<and> of_nat n = x)"
    by (auto simp: compact_wide_def bindE_Inr_pair read_le_iff split: if_splits)
  also have "\<dots> \<longleftrightarrow> (\<exists>n. n < 256 ^ k \<and> bs = le_bytes k n @ rest \<and> least \<le> n \<and> n = unat x)"
    using of_nat_le_word [where 'a = 64] w by blast
  finally show ?thesis by blast
qed

lemma bindE_guard:
  "bindE m (\<lambda>(x, is). if P x then Inl e else Inr (x, is)) = Inr (n, rest) \<longleftrightarrow> \<not> P n \<and> m = Inr (n, rest)"
  by (auto simp: bindE_Inr_pair split: if_splits)

lemma ReadCompactSize_iff:
  "ReadCompactSize bs = Inr (n, rest) \<longleftrightarrow> unat n \<le> MAX_SIZE \<and> bs = WriteCompactSize n @ rest"
proof -
  let ?sel = "\<lambda>c bs. if c < 253 then Inr (of_nat c, bs)
            else if c = 253 then compact_wide 2 253 bs
            else if c = 254 then compact_wide 4 0x10000 bs
            else compact_wide 8 0x100000000 bs"
  have small: "of_nat c = n \<longleftrightarrow> c = unat n" if "c < 253" for c :: nat
    using of_nat_le_word [where 'a = 64, of c n] that by simp
  have "ReadCompactSize bs = Inr (n, rest)
     \<longleftrightarrow> unat n \<le> MAX_SIZE \<and> (\<exists>c is. c < 256 \<and> bs = le_bytes 1 c @ is \<and> ?sel c is = Inr (n, rest))"
    unfolding ReadCompactSize_def bindE_Inr_pair [of "read_le 1 bs"] read_le_iff split_conv bindE_guard
      power_one_right not_less by blast
  also have "(\<exists>c is. c < 256 \<and> bs = le_bytes 1 c @ is \<and> ?sel c is = Inr (n, rest))
     \<longleftrightarrow> bs = WriteCompactSize n @ rest" (is "?L \<longleftrightarrow> _")
  proof -
    have "?L \<longleftrightarrow> (unat n < 253 \<and> bs = le_bytes 1 (unat n) @ rest)
       \<or> (\<exists>is. bs = le_bytes 1 253 @ is \<and> compact_wide 2 253 is = Inr (n, rest))
       \<or> (\<exists>is. bs = le_bytes 1 254 @ is \<and> compact_wide 4 0x10000 is = Inr (n, rest))
       \<or> (\<exists>is. bs = le_bytes 1 255 @ is \<and> compact_wide 8 0x100000000 is = Inr (n, rest))"
      (is "_ \<longleftrightarrow> ?R")
    proof
      assume ?L
      then obtain c "is" where c: "c < 256" "bs = le_bytes 1 c @ is" "?sel c is = Inr (n, rest)" by blast
      consider "c < 253" | "c = 253" | "c = 254" | "c = 255" using c(1) by linarith
      then show ?R using c small [of c] by cases (simp_all del: le_bytes.simps)
    next
      assume ?R
      then show ?L
        by (elim disjE) (force simp del: le_bytes.simps intro: exI [of _ "unat n"] exI [of _ 253] exI [of _ 254] exI [of _ 255])+
    qed
    also have "\<dots> \<longleftrightarrow> bs = WriteCompactSize n @ rest"
      using unat_u64_lt [of n]
      by (auto simp: compact_wide_iff WriteCompactSize_nat Let_def simp del: le_bytes.simps)
    finally show ?thesis .
  qed
  finally show ?thesis .
qed

interpretation compact_size: codec WriteCompactSize ReadCompactSize "\<lambda>n. unat n \<le> MAX_SIZE"
  by unfold_locales (rule ReadCompactSize_iff)

section \<open>VarInt: round trip, length and uniqueness\<close>

lemma mask7: "(0x7F :: 'a::len word) = mask 7"
  by (simp add: mask_eq_exp_minus_1)

lemma low7_flag:
  fixes n :: "'a::len word" and F :: u8
  assumes F: "\<And>i. bit F i \<longleftrightarrow> i = 7"
  shows "(ucast (n AND 0x7F) OR F) AND (0x7F :: u8) = ucast (n AND 0x7F)"
    and "(ucast (n AND 0x7F) :: u8) AND 0x7F = ucast (n AND 0x7F)"
    and "(ucast (n AND 0x7F) OR F) AND F \<noteq> 0"
    and "(ucast (n AND 0x7F) :: u8) AND F = 0"
proof -
  show "(ucast (n AND 0x7F) OR F) AND (0x7F :: u8) = ucast (n AND 0x7F)"
    unfolding mask7 by (intro bit_word_eqI) (auto simp: bit_simps F)
  show "(ucast (n AND 0x7F) :: u8) AND 0x7F = ucast (n AND 0x7F)"
    unfolding mask7 by (intro bit_word_eqI) (auto simp: bit_simps)
  show "(ucast (n AND 0x7F) :: u8) AND F = 0"
    unfolding mask7 by (intro bit_word_eqI) (auto simp: bit_simps F)
  have "bit ((ucast (n AND 0x7F) OR F) AND F) 7"
    by (simp add: bit_simps F)
  then show "(ucast (n AND 0x7F) OR F) AND F \<noteq> 0" by fastforce
qed

lemma bit_0x80: "bit (0x80 :: u8) i \<longleftrightarrow> i = 7"
proof -
  have "(0x80 :: u8) = push_bit 7 1" by simp
  then show ?thesis by (simp only: bit_push_bit_iff bit_1_iff) auto
qed

lemmas low7_cast = low7_flag [OF bit_0x80]

lemma varint_join:
  fixes n :: "'a::len word"
  shows "push_bit 7 (drop_bit 7 n) OR ucast (ucast (n AND 0x7F) :: u8) = n"
proof -
  have "push_bit k (drop_bit k n) OR ucast (ucast (n AND mask k) :: u8) = n" if "k \<le> 8" for k
  proof (rule bit_word_eqI)
    fix i
    show "bit (push_bit k (drop_bit k n) OR ucast (ucast (n AND mask k) :: u8)) i \<longleftrightarrow> bit n i"
      using that by (cases "i < k") (auto simp: bit_simps bit_imp_le_length)
  qed
  from this [of 7] show ?thesis unfolding mask7 by simp
qed

lemma varint_small:
  fixes n :: "'a::len word"
  assumes "n \<le> 0x7F"
  shows "drop_bit 7 n = 0"
proof -
  have "unat n \<le> unat (0x7F :: 'a word)" using assms by (simp only: word_le_nat_alt)
  also have "\<dots> \<le> 127" by (simp add: unsigned_numeral take_bit_eq_mod mod_le_divisor)
  finally have "unat (drop_bit 7 n) = 0" by (simp only: unat_drop_bit) simp
  then show ?thesis by (simp only: unat_eq_0)
qed

lemma varint_loop_flagged:
  fixes n :: "'a::len word"
  shows "varint_loop 0 (rev (varint_tmp n (Suc k)) @ rest) = varint_loop (n + 1) rest"
proof (induction n k arbitrary: rest rule: varint_tmp.induct)
  case (1 n k)
  show ?case
  proof (cases "n \<le> 0x7F")
    case True
    then show ?thesis
      using varint_join [of n] by (subst varint_tmp.simps) (simp add: varint_small low7_cast)
  next
    case False
    then have "varint_loop 0 (rev (varint_tmp n (Suc k)) @ rest)
        = varint_loop 0 (rev (varint_tmp (drop_bit 7 n - 1) (Suc (Suc k)))
            @ (ucast (n AND 0x7F) OR 0x80) # rest)"
      by (subst varint_tmp.simps) simp
    also have "\<dots> = varint_loop (drop_bit 7 n) ((ucast (n AND 0x7F) OR 0x80) # rest)"
      using 1 [OF False] by simp
    also have "\<dots> = varint_loop (n + 1) rest"
      using varint_join [of n] by (simp only: varint_loop.simps Let_def low7_cast) simp
    finally show ?thesis .
  qed
qed

lemma ReadVarInt_WriteVarInt:
  fixes n :: "'a::len word"
  shows "ReadVarInt (WriteVarInt n @ rest) = Inr (n, rest)"
proof (cases "n \<le> 0x7F")
  case True
  then show ?thesis
    using varint_join [of n] unfolding ReadVarInt_def WriteVarInt_def
    by (subst varint_tmp.simps) (simp add: varint_small low7_cast)
next
  case False
  then have "ReadVarInt (WriteVarInt n @ rest)
     = varint_loop 0 (rev (varint_tmp (drop_bit 7 n - 1) (Suc 0)) @ ucast (n AND 0x7F) # rest)"
    unfolding ReadVarInt_def WriteVarInt_def by (subst varint_tmp.simps) simp
  also have "\<dots> = varint_loop (drop_bit 7 n) (ucast (n AND 0x7F) # rest)"
    using varint_loop_flagged [of "drop_bit 7 n - 1" 0] by simp
  also have "\<dots> = Inr (n, rest)"
    using varint_join [of n] by (simp only: varint_loop.simps Let_def low7_cast) simp
  finally show ?thesis .
qed

lemma length_varint_tmp: "length (varint_tmp n k) = GetSizeOfVarInt n"
  by (induction n k rule: varint_tmp.induct)
    (subst varint_tmp.simps, subst GetSizeOfVarInt.simps, simp)

lemma length_WriteVarInt: "length (WriteVarInt n) = GetSizeOfVarInt n"
  by (simp add: WriteVarInt_def length_varint_tmp)

lemma GetSizeOfVarInt_le:
  fixes n :: "'a::len word"
  assumes "unat n < 2 ^ (7 * s)" and "0 < s"
  shows "GetSizeOfVarInt n \<le> s"
  using assms
proof (induction n arbitrary: s rule: GetSizeOfVarInt.induct)
  case (1 n)
  show ?case
  proof (cases "n \<le> 0x7F")
    case True
    then show ?thesis using 1(3) by (subst GetSizeOfVarInt.simps) simp
  next
    case False
    note step = varint_step [OF False]
    obtain t where s: "s = Suc t" using 1(3) by (cases s) auto
    with step(1) 1(2) have t: "0 < t" by (cases t) auto
    have "unat n div 128 < 2 ^ (7 * t)"
      using 1(2) by (simp add: s div_less_iff_less_mult power_add mult.commute)
    then have "unat (drop_bit 7 n - 1) < 2 ^ (7 * t)" unfolding step(2) by simp
    then show ?thesis using 1(1) [OF False, of t] t False
      by (subst GetSizeOfVarInt.simps) (simp add: s)
  qed
qed

lemma varint_size_bounds:
  "GetSizeOfVarInt (n :: u64) \<le> (8 * 8 + 6) div 7" "GetSizeOfVarInt (m :: u32) \<le> (4 * 8 + 6) div 7"
  using unat_u64_lt [of n] unat_u32_lt [of m] GetSizeOfVarInt_le [of n 10] GetSizeOfVarInt_le [of m 5]
  by simp_all

lemma varint_tmp_widen: "varint_tmp (ucast (m :: u32) :: u64) k = varint_tmp m k"
proof (induction m k rule: varint_tmp.induct)
  case (1 m k)
  have le: "(ucast m :: u64) \<le> 0x7F \<longleftrightarrow> m \<le> 0x7F" by (simp add: word_le_nat_alt)
  have low: "(ucast ((ucast m :: u64) AND 0x7F) :: u8) = ucast (m AND 0x7F)"
    unfolding mask7 by (intro bit_word_eqI) (auto simp: bit_simps)
  show ?case
  proof (cases "m \<le> 0x7F")
    case True
    then show ?thesis by (subst (1 2) varint_tmp.simps) (simp add: le low)
  next
    case False
    have "unat (drop_bit 7 (ucast m :: u64) - 1) = unat (drop_bit 7 m - 1)"
      using varint_step(2) [OF False] varint_step(2) [of "ucast m :: u64"] False le by simp
    then have "drop_bit 7 (ucast m :: u64) - 1 = ucast (drop_bit 7 m - 1)"
      by (simp only: word_unat_eq_iff unat_ucast_32_64)
    with 1 [OF False] False show ?thesis
      by (subst (1 2) varint_tmp.simps) (simp only: le low if_False simp_thms)
  qed
qed

lemma WriteVarInt_widen: "WriteVarInt (ucast (m :: u32) :: u64) = WriteVarInt m"
  by (simp add: WriteVarInt_def varint_tmp_widen)

section \<open>Vectors\<close>

lemma unser_elems_add:
  "unser_elems un (a + b) is =
     bindE (unser_elems un a is) (\<lambda>(xs, is). bindE (unser_elems un b is) (\<lambda>(ys, is). Inr (xs @ ys, is)))"
  by (induction a arbitrary: "is") (auto simp: bindE_def split: sum.splits prod.splits)

lemma unser_vec_loop_eq:
  assumes "0 < step"
  shows "unser_vec_loop un step todo v is = bindE (unser_elems un todo is) (\<lambda>(xs, is). Inr (v @ xs, is))"
proof (induction todo arbitrary: v "is" rule: less_induct)
  case (less todo)
  show ?case
  proof (cases "todo = 0")
    case False
    let ?a = "min step todo"
    have t: "todo = ?a + (todo - ?a)" by simp
    have "unser_vec_loop un step todo v is
       = bindE (unser_elems un ?a is) (\<lambda>(xs, is). unser_vec_loop un step (todo - ?a) (v @ xs) is)"
      using False assms by (subst unser_vec_loop.simps) (simp add: bindE_def)
    also have "\<dots> = bindE (unser_elems un ?a is) (\<lambda>(xs, is).
        bindE (unser_elems un (todo - ?a) is) (\<lambda>(ys, is). Inr ((v @ xs) @ ys, is)))"
      using False assms by (subst less) auto
    also have "\<dots> = bindE (unser_elems un todo is) (\<lambda>(xs, is). Inr (v @ xs, is))"
      by (subst (3) t, subst unser_elems_add) (auto simp: bindE_def split: sum.splits prod.splits)
    finally show ?thesis .
  qed (simp add: unser_vec_loop.simps)
qed

lemma unser_blob_loop_eq:
  "unser_blob_loop todo v is = bindE (stream_read todo is) (\<lambda>(bs, is). Inr (v @ bs, is))"
proof (induction todo arbitrary: v "is" rule: less_induct)
  case (less todo)
  show ?case
  proof (cases "todo = 0")
    case False
    let ?a = "min todo (1 + 4999999)"
    have "unser_blob_loop todo v is
       = bindE (stream_read ?a is) (\<lambda>(bs, is). unser_blob_loop (todo - ?a) (v @ bs) is)"
      using False by (subst unser_blob_loop.simps) (simp add: bindE_def Let_def)
    also have "\<dots> = bindE (stream_read ?a is) (\<lambda>(bs, is).
        bindE (stream_read (todo - ?a) is) (\<lambda>(cs, is). Inr ((v @ bs) @ cs, is)))"
      using False by (subst less) auto
    also have "\<dots> = bindE (stream_read todo is) (\<lambda>(bs, is). Inr (v @ bs, is))"
      by (auto simp: stream_read_def take_add [symmetric] min_def)
    finally show ?thesis .
  qed (simp add: unser_blob_loop.simps stream_read_def)
qed

lemma size_word_roundtrip:
  assumes "n \<le> MAX_SIZE"
  shows "unat (of_nat n :: u64) = n"
  using assms by (simp add: unsigned_of_nat take_bit_nat_eq_self MAX_SIZE_def)

lemma ReadCompactSize_length_iff:
  "ReadCompactSize bs = Inr (n, rest) \<and> unat n = k
     \<longleftrightarrow> k \<le> MAX_SIZE \<and> n = of_nat k \<and> bs = WriteCompactSize (of_nat k) @ rest"
  using size_word_roundtrip [of k] by (auto simp: ReadCompactSize_iff)

interpretation blob: codec ser_blob unser_blob "\<lambda>v. length v \<le> MAX_SIZE"
proof
  fix bs v rest
  have "unser_blob bs = Inr (v, rest)
     \<longleftrightarrow> (\<exists>n is. (ReadCompactSize bs = Inr (n, is) \<and> unat n = length v) \<and> is = v @ rest)"
    by (auto simp: unser_blob_def bindE_Inr_pair unser_blob_loop_eq stream_read_iff)
  then show "unser_blob bs = Inr (v, rest) \<longleftrightarrow> length v \<le> MAX_SIZE \<and> bs = ser_blob v @ rest"
    by (simp add: ReadCompactSize_length_iff ser_blob_def)
qed

lemma if_eq_Inr: "(if P then Inl e else m) = Inr y \<longleftrightarrow> \<not> P \<and> m = Inr y"
  by simp

lemma LimitedString_codec:
  "codec LimitedString_serialize (LimitedString_unserialize Limit) (\<lambda>v. length v \<le> MAX_SIZE \<and> length v \<le> Limit)"
proof
  fix bs v rest
  have zero: "(if unat n \<noteq> 0 then stream_read (unat n) is else Inr ([], is)) = stream_read (unat n) is"
    for n :: u64 and "is"
    by (simp add: stream_read_def)
  have "LimitedString_unserialize Limit bs = Inr (v, rest)
     \<longleftrightarrow> (\<exists>n is. (ReadCompactSize bs = Inr (n, is) \<and> unat n = length v) \<and> length v \<le> Limit \<and> is = v @ rest)"
    unfolding LimitedString_unserialize_def zero
    by (simp add: bindE_Inr_pair stream_read_iff if_eq_Inr) fastforce
  then show "LimitedString_unserialize Limit bs = Inr (v, rest) \<longleftrightarrow>
      (length v \<le> MAX_SIZE \<and> length v \<le> Limit) \<and> bs = LimitedString_serialize v @ rest"
    by (auto simp: ReadCompactSize_length_iff LimitedString_serialize_def)
qed

locale vector_codec = codec +
  fixes sizeof_T :: nat
  assumes sizeof_pos: "0 < sizeof_T" and sizeof_le: "sizeof_T \<le> 5000000"
begin

lemma vec_iff:
  "unser_vec sizeof_T unser bs = Inr (xs, rest)
     \<longleftrightarrow> (length xs \<le> MAX_SIZE \<and> list_all ok xs) \<and> bs = ser_vec ser xs @ rest"
proof -
  have "0 < 5000000 div sizeof_T" using sizeof_pos sizeof_le by (simp add: div_greater_zero_iff)
  then have "unser_vec sizeof_T unser bs = Inr (xs, rest)
     \<longleftrightarrow> (\<exists>n is. (ReadCompactSize bs = Inr (n, is) \<and> unat n = length xs)
            \<and> list_all ok xs \<and> is = concat (map ser xs) @ rest)"
    by (auto simp: unser_vec_def bindE_Inr_pair unser_vec_loop_eq elems_iff)
  then show ?thesis by (auto simp: ReadCompactSize_length_iff ser_vec_def)
qed

end

sublocale vector_codec \<subseteq> vec: codec "ser_vec ser" "unser_vec sizeof_T unser" "\<lambda>xs. length xs \<le> MAX_SIZE \<and> list_all ok xs"
  by unfold_locales (rule vec_iff)

section \<open>The stream buffer\<close>

lemma CDataStream_read_refines:
  assumes "nReadPos s \<le> length (vch s)" and "nReadPos s + nSize < 2 ^ 32"
  shows "(case CDataStream_read s nSize of Inl e \<Rightarrow> Inl e | Inr (bs, t) \<Rightarrow> Inr (bs, pending t))
           = stream_read nSize (pending s)"
    and "CDataStream_read s nSize = Inr (bs, t) \<Longrightarrow> nReadPos t \<le> length (vch t)"
proof -
  have m: "(nReadPos s + nSize) mod 2 ^ 32 = nReadPos s + nSize" using assms(2) by simp
  show "(case CDataStream_read s nSize of Inl e \<Rightarrow> Inl e | Inr (bs, t) \<Rightarrow> Inr (bs, pending t))
           = stream_read nSize (pending s)"
    using assms(1) unfolding CDataStream_read_def m pending_def stream_read_def
    by (auto simp: Let_def add.commute)
  show "CDataStream_read s nSize = Inr (bs, t) \<Longrightarrow> nReadPos t \<le> length (vch t)"
    unfolding CDataStream_read_def m by (auto simp: Let_def split: if_splits)
qed

text \<open>
  A CompactSize is accepted by \<^verbatim>\<open>ReadCompactSize\<close> exactly when it is the canonical
  encoding that \<^verbatim>\<open>WriteCompactSize\<close> gives of a size up to \<^verbatim>\<open>MAX_SIZE\<close>, and
  \<^verbatim>\<open>GetSizeOfCompactSize\<close> is the number of bytes it takes.
\<close>

theorem compact_size_canonical:
  "(ReadCompactSize bs = Inr (n, rest) \<longleftrightarrow> unat n \<le> MAX_SIZE \<and> bs = WriteCompactSize n @ rest)
   \<and> length (WriteCompactSize n) = GetSizeOfCompactSize n"
  by (simp add: ReadCompactSize_iff length_WriteCompactSize)

text \<open>
  The VarInt encoding reads back the number that was written, followed by any other
  data, at both widths the node uses; \<^verbatim>\<open>GetSizeOfVarInt\<close> is its length, which never
  exceeds the writer's buffer \<^verbatim>\<open>tmp[(sizeof(n) * 8 + 6) / 7]\<close>; and the encoding does
  not depend on the size of the integer type.
\<close>

theorem varint_roundtrip:
  "ReadVarInt (WriteVarInt (n :: u64) @ rest) = Inr (n, rest)
   \<and> ReadVarInt (WriteVarInt (m :: u32) @ rest) = Inr (m, rest)
   \<and> length (WriteVarInt n) = GetSizeOfVarInt n \<and> GetSizeOfVarInt n \<le> (8 * 8 + 6) div 7
   \<and> length (WriteVarInt m) = GetSizeOfVarInt m \<and> GetSizeOfVarInt m \<le> (4 * 8 + 6) div 7
   \<and> WriteVarInt (ucast m :: u64) = WriteVarInt m"
  by (intro conjI ReadVarInt_WriteVarInt length_WriteVarInt varint_size_bounds WriteVarInt_widen)

text \<open>
  The comment above \<^verbatim>\<open>GetSizeOfVarInt\<close> says every integer has exactly one encoding.
  The reader does not check for overflow, so the five bytes of the encoding of \<open>2 ^ 32\<close> read
  as zero into a 32-bit integer, which also has the one-byte encoding.
\<close>

theorem varint_second_encoding:
  "ReadVarInt [0x8E, 0xFE, 0xFE, 0xFF, 0x00] = Inr (0 :: u32, [])
   \<and> WriteVarInt (0 :: u32) = [0x00]
   \<and> WriteVarInt (0x100000000 :: u64) = [0x8E, 0xFE, 0xFE, 0xFF, 0x00]"
  by code_simp

end
