(* ===== verification/Block_Index.thy ===== *)
theory Block_Index
  imports Compact
begin

text \<open>
  Block index entries (\<^verbatim>\<open>class CBlockIndex\<close> of \<^verbatim>\<open>src/chain.h\<close>) as the consensus
  routines read them, and the consensus constants of \<^verbatim>\<open>src/chainparams.cpp\<close>. A
  \<^verbatim>\<open>const CBlockIndex*\<close> that is only walked along \<^verbatim>\<open>pprev\<close> is modelled by
  the list of entries met on that walk: the head is the entry itself, the empty list is
  \<^verbatim>\<open>NULL\<close>.
\<close>

section \<open>Index entries\<close>

record CBlockIndex =
  nHeight :: int
  nTime :: u32
  nBits :: u32
  nFlags :: u32
  nStatus :: u32
  nVersion :: int
  phashBlock :: "base_uint option"
  hashProofOfStake :: base_uint
  nStakeModifier :: u64
  nStakeModifierChecksum :: u32
  nMint :: int
  nMoneySupply :: int
  nChainWork :: base_uint
  nTx :: u32
  nChainTx :: u32
  nSequenceId :: u32
  nFile :: int
  nDataPos :: u32
  nUndoPos :: u32

type_synonym pprev_chain = "CBlockIndex list"

definition BLOCK_PROOF_OF_STAKE :: u32 where "BLOCK_PROOF_OF_STAKE = 1"
definition BLOCK_STAKE_ENTROPY :: u32 where "BLOCK_STAKE_ENTROPY = 2"
definition BLOCK_STAKE_MODIFIER :: u32 where "BLOCK_STAKE_MODIFIER = 4"

definition GetBlockTime :: "CBlockIndex \<Rightarrow> int" where
  "GetBlockTime b = int (unat (nTime b))"

definition IsProofOfStake :: "CBlockIndex \<Rightarrow> bool" where
  "IsProofOfStake b \<longleftrightarrow> nFlags b AND BLOCK_PROOF_OF_STAKE \<noteq> 0"

definition IsProofOfWork :: "CBlockIndex \<Rightarrow> bool" where
  "IsProofOfWork b \<longleftrightarrow> \<not> nFlags b AND BLOCK_PROOF_OF_STAKE \<noteq> 0"

definition SetProofOfStake :: "CBlockIndex \<Rightarrow> CBlockIndex" where
  "SetProofOfStake b = b\<lparr>nFlags := nFlags b OR BLOCK_PROOF_OF_STAKE\<rparr>"

text \<open>
  An entry points to its hash, which lives in the key of the map of blocks; the dummy entry of
  \<^verbatim>\<open>TestBlockValidity\<close> has a null pointer. \<open>None\<close> is the read through it.
\<close>

definition GetBlockHash :: "CBlockIndex \<Rightarrow> base_uint option" where
  "GetBlockHash b = phashBlock b"

definition GetStakeEntropyBit :: "CBlockIndex \<Rightarrow> u64 option" where
  "GetStakeEntropyBit b = map_option (\<lambda>h. Get64 0 h AND 1) (GetBlockHash b)"

definition SetStakeEntropyBit :: "CBlockIndex \<Rightarrow> nat \<Rightarrow> CBlockIndex \<times> bool" where
  "SetStakeEntropyBit b nEntropyBit =
     (if 1 < nEntropyBit then (b, False)
      else (b\<lparr>nFlags := nFlags b OR (if nEntropyBit \<noteq> 0 then BLOCK_STAKE_ENTROPY else 0)\<rparr>, True))"

definition GeneratedStakeModifier :: "CBlockIndex \<Rightarrow> bool" where
  "GeneratedStakeModifier b \<longleftrightarrow> nFlags b AND BLOCK_STAKE_MODIFIER \<noteq> 0"

definition SetStakeModifier :: "CBlockIndex \<Rightarrow> u64 \<Rightarrow> bool \<Rightarrow> CBlockIndex" where
  "SetStakeModifier b nModifier fGenerated =
     (let b = b\<lparr>nStakeModifier := nModifier\<rparr>
      in if fGenerated then b\<lparr>nFlags := nFlags b OR BLOCK_STAKE_MODIFIER\<rparr> else b)"

text \<open>
  \<^verbatim>\<open>GetMedianTimePast\<close>: the times of at most eleven entries of the walk, sorted; the
  middle one. The receiver exists, so the walk is never empty in the code; \<open>None\<close> is the
  undefined read of an empty buffer.
\<close>

definition nMedianTimeSpan :: nat where "nMedianTimeSpan = 11"

definition GetMedianTimePast :: "pprev_chain \<Rightarrow> int option" where
  "GetMedianTimePast pindex =
     (let pmedian = sort (map GetBlockTime (take nMedianTimeSpan pindex))
      in if pmedian = [] then None else Some (pmedian ! (length pmedian div 2)))"

text \<open>
  Validity levels (\<^verbatim>\<open>enum BlockStatus\<close>), \<^verbatim>\<open>IsValid\<close> and
  \<^verbatim>\<open>RaiseValidity\<close>; \<open>None\<close> is the failed assertion that only validity bits are
  passed.
\<close>

definition BLOCK_VALID_MASK :: u32 where "BLOCK_VALID_MASK = 1 OR 2 OR 3 OR 4 OR 5"
definition BLOCK_FAILED_MASK :: u32 where "BLOCK_FAILED_MASK = 32 OR 64"

definition IsValid :: "CBlockIndex \<Rightarrow> u32 \<Rightarrow> bool option" where
  "IsValid b nUpTo =
     (if nUpTo AND NOT BLOCK_VALID_MASK \<noteq> 0 then None
      else if nStatus b AND BLOCK_FAILED_MASK \<noteq> 0 then Some False
      else Some (nUpTo \<le> nStatus b AND BLOCK_VALID_MASK))"

definition RaiseValidity :: "CBlockIndex \<Rightarrow> u32 \<Rightarrow> (CBlockIndex \<times> bool) option" where
  "RaiseValidity b nUpTo =
     (if nUpTo AND NOT BLOCK_VALID_MASK \<noteq> 0 then None
      else if nStatus b AND BLOCK_FAILED_MASK \<noteq> 0 then Some (b, False)
      else if nStatus b AND BLOCK_VALID_MASK < nUpTo
           then Some (b\<lparr>nStatus := (nStatus b AND NOT BLOCK_VALID_MASK) OR nUpTo\<rparr>, True)
      else Some (b, False))"

text \<open>Positions of a block and of its undo data in the block files.\<close>

record CDiskBlockPos =
  pos_nFile :: int
  pos_nPos :: u32

definition CDiskBlockPos_SetNull :: CDiskBlockPos where
  "CDiskBlockPos_SetNull = \<lparr>pos_nFile = - 1, pos_nPos = 0\<rparr>"

definition CDiskBlockPos_IsNull :: "CDiskBlockPos \<Rightarrow> bool" where
  "CDiskBlockPos_IsNull p \<longleftrightarrow> pos_nFile p = - 1"

definition BLOCK_HAVE_DATA :: u32 where "BLOCK_HAVE_DATA = 8"
definition BLOCK_HAVE_UNDO :: u32 where "BLOCK_HAVE_UNDO = 16"

definition GetBlockPos :: "CBlockIndex \<Rightarrow> CDiskBlockPos" where
  "GetBlockPos b = (if nStatus b AND BLOCK_HAVE_DATA \<noteq> 0 then \<lparr>pos_nFile = nFile b, pos_nPos = nDataPos b\<rparr>
     else CDiskBlockPos_SetNull)"

definition GetUndoPos :: "CBlockIndex \<Rightarrow> CDiskBlockPos" where
  "GetUndoPos b = (if nStatus b AND BLOCK_HAVE_UNDO \<noteq> 0 then \<lparr>pos_nFile = nFile b, pos_nPos = nUndoPos b\<rparr>
     else CDiskBlockPos_SetNull)"

text \<open>\<^verbatim>\<open>IsSuperMajority\<close>: the loop stops at the bound, at the quorum or at \<^verbatim>\<open>NULL\<close>.\<close>

fun super_majority_loop :: "int \<Rightarrow> nat \<Rightarrow> nat \<Rightarrow> nat \<Rightarrow> pprev_chain \<Rightarrow> nat" where
  "super_majority_loop minVersion nRequired 0 nFound pstart = nFound"
| "super_majority_loop minVersion nRequired (Suc n) nFound [] = nFound"
| "super_majority_loop minVersion nRequired (Suc n) nFound (b # pprev) =
     (if nFound < nRequired
      then super_majority_loop minVersion nRequired n
             (if minVersion \<le> nVersion b then nFound + 1 else nFound) pprev
      else nFound)"

section \<open>Consensus constants\<close>

datatype Network = MAIN | TESTNET | REGTEST | UNITTEST

record CChainParams =
  NetworkID :: Network
  ProofOfWorkLimit :: base_uint
  LAST_POW_BLOCK :: int
  TargetSpacing :: int
  SkipProofOfWorkCheck :: bool
  COINBASE_MATURITY :: int
  MaxReorganizationDepth :: int
  ModifierUpgradeBlock :: int
  MaxMoneyOut :: int
  EnforceBlockUpgradeMajority :: nat
  RejectBlockOutdatedMajority :: nat
  ToCheckBlockUpgradeMajority :: nat

definition COIN :: int where "COIN = 100000000"
definition CENT :: int where "CENT = 1000000"

definition uint256_max :: base_uint where
  "uint256_max = bnot (uint256_of_u64 0)"

definition CMainParams :: CChainParams where
  "CMainParams = \<lparr>NetworkID = MAIN, ProofOfWorkLimit = shr uint256_max 16, LAST_POW_BLOCK = 200, TargetSpacing = 1 * 60,
     SkipProofOfWorkCheck = False, COINBASE_MATURITY = 21, MaxReorganizationDepth = 100,
     ModifierUpgradeBlock = 1, MaxMoneyOut = 21000000 * COIN,
     EnforceBlockUpgradeMajority = 750, RejectBlockOutdatedMajority = 950, ToCheckBlockUpgradeMajority = 1000\<rparr>"

definition CTestNetParams :: CChainParams where
  "CTestNetParams = CMainParams\<lparr>NetworkID := TESTNET, LAST_POW_BLOCK := 200, TargetSpacing := 1 * 60, COINBASE_MATURITY := 30,
     ModifierUpgradeBlock := 1, MaxMoneyOut := 21000000 * COIN,
     EnforceBlockUpgradeMajority := 51, RejectBlockOutdatedMajority := 75, ToCheckBlockUpgradeMajority := 100\<rparr>"

definition IsSuperMajority :: "CChainParams \<Rightarrow> int \<Rightarrow> pprev_chain \<Rightarrow> nat \<Rightarrow> bool" where
  "IsSuperMajority params minVersion pstart nRequired \<longleftrightarrow>
     nRequired \<le> super_majority_loop minVersion nRequired (ToCheckBlockUpgradeMajority params) 0 pstart"

lemma uint256_max_value: "uval uint256_max = 2 ^ 256 - 1" "is_uint256 uint256_max"
proof -
  have l: "length (uint256_of_u64 0) = 8" using is_uint256_simps(1) by (simp only: is_uint256_def)
  show "uval uint256_max = 2 ^ 256 - 1" by (simp add: uint256_max_def uval_bnot l)
  show "is_uint256 uint256_max" by (simp add: uint256_max_def is_uint256_def l)
qed

lemma ProofOfWorkLimit_main: "uval (ProofOfWorkLimit CMainParams) = 2 ^ 240 - 1" "is_uint256 (ProofOfWorkLimit CMainParams)"
  by (simp_all add: CMainParams_def uval_shr uint256_max_value)

section \<open>Median time past\<close>

lemma sorted_nth_count:
  fixes xs :: "int list"
  assumes "sorted xs" and "k < length xs"
  shows "k + 1 \<le> length (filter (\<lambda>t. t \<le> xs ! k) xs)"
    and "length xs - k \<le> length (filter (\<lambda>t. xs ! k \<le> t) xs)"
proof -
  have le: "\<forall>t \<in> set (take (Suc k) xs). t \<le> xs ! k"
    using assms by (auto simp: in_set_conv_nth sorted_iff_nth_mono)
  have ge: "\<forall>t \<in> set (drop k xs). xs ! k \<le> t"
    using assms by (auto simp: in_set_conv_nth sorted_iff_nth_mono)
  have "length (filter (\<lambda>t. t \<le> xs ! k) xs) = length (filter (\<lambda>t. t \<le> xs ! k) (take (Suc k) xs @ drop (Suc k) xs))" by simp
  also have "\<dots> \<ge> length (take (Suc k) xs)" using le by (simp only: filter_append length_append filter_True)
  finally show "k + 1 \<le> length (filter (\<lambda>t. t \<le> xs ! k) xs)" using assms(2) by simp
  have "length (filter (\<lambda>t. xs ! k \<le> t) xs) = length (filter (\<lambda>t. xs ! k \<le> t) (take k xs @ drop k xs))" by simp
  also have "\<dots> \<ge> length (drop k xs)" using ge by (simp only: filter_append length_append filter_True)
  finally show "length xs - k \<le> length (filter (\<lambda>t. xs ! k \<le> t) xs)" by simp
qed

lemma median_is_median:
  assumes "GetMedianTimePast ch = Some m"
  defines "ts \<equiv> map GetBlockTime (take 11 ch)"
  shows "m \<in> set ts"
    and "length ts < 2 * length (filter (\<lambda>t. t \<le> m) ts)"
    and "length ts \<le> 2 * length (filter (\<lambda>t. m \<le> t) ts)"
proof -
  define s where "s = sort ts"
  have ne: "s \<noteq> []" and m: "m = s ! (length s div 2)"
    using assms(1) by (auto simp: GetMedianTimePast_def Let_def nMedianTimeSpan_def ts_def s_def split: if_splits)
  have k: "length s div 2 < length s" using ne by simp
  have cnt: "length (filter P s) = length (filter P ts)" for P
    unfolding s_def by (metis length_sort sort_key_simps filter_sort)
  show "m \<in> set ts" using nth_mem [OF k] m by (simp add: s_def)
  note c = sorted_nth_count [OF _ k, folded m, unfolded cnt]
  show "length ts < 2 * length (filter (\<lambda>t. t \<le> m) ts)"
    using c(1) by (simp add: s_def)
  show "length ts \<le> 2 * length (filter (\<lambda>t. m \<le> t) ts)"
    using c(2) by (simp add: s_def)
qed

section \<open>Validity levels and version quorums\<close>

lemma BLOCK_VALID_MASK_eq: "BLOCK_VALID_MASK = 7"
  by (simp add: BLOCK_VALID_MASK_def)

lemma RaiseValidity_IsValid:
  assumes "RaiseValidity b n = Some (b', r)" and "nStatus b AND BLOCK_FAILED_MASK = 0"
  shows "IsValid b' n = Some True"
proof -
  have n: "n AND NOT BLOCK_VALID_MASK = 0" using assms(1) by (auto simp: RaiseValidity_def split: if_splits)
  then have nm: "n AND BLOCK_VALID_MASK = n"
    by (auto simp: bit_eq_iff bit_simps)
  have nf: "n AND BLOCK_FAILED_MASK = 0"
  proof -
    have "n AND BLOCK_FAILED_MASK = n AND (BLOCK_VALID_MASK AND BLOCK_FAILED_MASK)" using nm by (metis and.assoc)
    also have "BLOCK_VALID_MASK AND BLOCK_FAILED_MASK = 0" by (simp add: BLOCK_VALID_MASK_def BLOCK_FAILED_MASK_def)
    finally show ?thesis by simp
  qed
  show ?thesis
  proof (cases "nStatus b AND BLOCK_VALID_MASK < n")
    case True
    let ?s = "(nStatus b AND NOT BLOCK_VALID_MASK) OR n"
    have "?s AND BLOCK_FAILED_MASK = 0"
      using assms(2) nf by (auto simp: bit_eq_iff bit_simps)
    moreover have "?s AND BLOCK_VALID_MASK = n"
      using nm by (simp add: bit.conj_disj_distrib2 and.assoc)
    moreover have "b' = b\<lparr>nStatus := ?s\<rparr>" using assms True n by (simp add: RaiseValidity_def)
    ultimately show ?thesis using n by (simp add: IsValid_def)
  next
    case False
    then have "b' = b" using assms n by (auto simp: RaiseValidity_def)
    with False n assms(2) show ?thesis by (simp add: IsValid_def not_less)
  qed
qed

lemma super_majority_loop_count:
  assumes "nFound \<le> nRequired"
  shows "super_majority_loop v nRequired n nFound ch
       = min nRequired (nFound + length (filter (\<lambda>b. v \<le> nVersion b) (take n ch)))"
  using assms
  by (induction v nRequired n nFound ch rule: super_majority_loop.induct) auto

text \<open>
  The early exit of the loop is an optimisation: the test is that at least \<open>nRequired\<close> of the
  last \<^verbatim>\<open>ToCheckBlockUpgradeMajority\<close> blocks carry the version.
\<close>

lemma IsSuperMajority_count:
  "IsSuperMajority params v ch nRequired \<longleftrightarrow>
     nRequired \<le> length (filter (\<lambda>b. v \<le> nVersion b) (take (ToCheckBlockUpgradeMajority params) ch))"
  by (simp add: IsSuperMajority_def super_majority_loop_count)

end
