(* ===== verification/Transaction.thy ===== *)
theory Transaction
  imports Serialize Block_Index
begin

text \<open>
  Transactions and blocks (\<^verbatim>\<open>src/primitives/transaction.h\<close>, \<^verbatim>\<open>.cpp\<close>,
  \<^verbatim>\<open>src/primitives/block.h\<close>) with their wire format, amounts and fee rates
  (\<^verbatim>\<open>src/amount.cpp\<close>) and the context-free checks of \<^verbatim>\<open>src/main.cpp\<close>. A
  \<^verbatim>\<open>CAmount\<close> is an integer; sums of 64-bit amounts wrap through \<open>add64\<close>. The
  transaction identifier is the field \<open>tx_hash\<close>, as in the code; the hash function that fills it
  is a parameter of the decoder.
\<close>

section \<open>Amounts and fee rates\<close>

definition wrap64 :: "int \<Rightarrow> int" where "wrap64 a = signed_take_bit 63 a"

definition add64 :: "int \<Rightarrow> int \<Rightarrow> int" where "add64 a b = wrap64 (a + b)"

definition MoneyRange :: "CChainParams \<Rightarrow> int \<Rightarrow> bool" where
  "MoneyRange params nValueOut \<longleftrightarrow> 0 \<le> nValueOut \<and> nValueOut \<le> MaxMoneyOut params"

text \<open>
  \<^verbatim>\<open>CFeeRate\<close> is its rate. Multiplying the signed rate by a \<^verbatim>\<open>size_t\<close> and
  dividing by a literal is done in unsigned 64-bit arithmetic, the quotient converted back.
\<close>

definition CFeeRate_of_fee :: "int \<Rightarrow> nat \<Rightarrow> int" where
  "CFeeRate_of_fee nFeePaid nSize =
     (if 0 < nSize then wrap64 ((wrap64 (nFeePaid * 1000) mod 2 ^ 64) div int nSize) else 0)"

definition GetFee :: "int \<Rightarrow> nat \<Rightarrow> int" where
  "GetFee nSatoshisPerK nSize =
     (let nFee = wrap64 ((nSatoshisPerK * int nSize) mod 2 ^ 64 div 1000)
      in if nFee = 0 \<and> 0 < nSatoshisPerK then nSatoshisPerK else nFee)"

section \<open>Transactions\<close>

record COutPoint =
  op_hash :: base_uint
  op_n :: u32

record CTxIn =
  prevout :: COutPoint
  scriptSig :: bytes
  nSequence :: u32

record CTxOut =
  nValue :: int
  scriptPubKey :: bytes

record CTransaction =
  tx_hash :: base_uint
  tx_nVersion :: int
  vin :: "CTxIn list"
  vout :: "CTxOut list"
  nLockTime :: u32

definition COutPoint_SetNull :: COutPoint where
  "COutPoint_SetNull = \<lparr>op_hash = uint256_of_u64 0, op_n = - 1\<rparr>"

definition COutPoint_IsNull :: "COutPoint \<Rightarrow> bool" where
  "COutPoint_IsNull p \<longleftrightarrow> IsNull (op_hash p) \<and> op_n p = - 1"

definition CTxIn_IsFinal :: "CTxIn \<Rightarrow> bool" where
  "CTxIn_IsFinal i \<longleftrightarrow> nSequence i = - 1"

definition CTxOut_SetNull :: CTxOut where "CTxOut_SetNull = \<lparr>nValue = - 1, scriptPubKey = []\<rparr>"
definition CTxOut_IsNull :: "CTxOut \<Rightarrow> bool" where "CTxOut_IsNull txout \<longleftrightarrow> nValue txout = - 1"
definition CTxOut_SetEmpty :: CTxOut where "CTxOut_SetEmpty = \<lparr>nValue = 0, scriptPubKey = []\<rparr>"
definition CTxOut_IsEmpty :: "CTxOut \<Rightarrow> bool" where
  "CTxOut_IsEmpty txout \<longleftrightarrow> nValue txout = 0 \<and> scriptPubKey txout = []"

definition IsCoinBase :: "CTransaction \<Rightarrow> bool" where
  "IsCoinBase tx \<longleftrightarrow> length (vin tx) = 1 \<and> COutPoint_IsNull (prevout (vin tx ! 0))"

definition IsCoinStake :: "CTransaction \<Rightarrow> bool" where
  "IsCoinStake tx \<longleftrightarrow> 0 < length (vin tx) \<and> \<not> COutPoint_IsNull (prevout (vin tx ! 0))
     \<and> 2 \<le> length (vout tx) \<and> CTxOut_IsEmpty (vout tx ! 0)"

text \<open>
  \<^verbatim>\<open>COutPoint::IsMasternodeReward\<close>: the comparison of \<^verbatim>\<open>n\<close> with a
  \<^verbatim>\<open>size_t\<close> guards the access \<^verbatim>\<open>vout[n]\<close>.
\<close>

definition IsMasternodeReward :: "COutPoint \<Rightarrow> CTransaction \<Rightarrow> bool" where
  "IsMasternodeReward p tx \<longleftrightarrow> IsCoinStake tx \<and> unat (op_n p) = length (vout tx) - 1
     \<and> scriptPubKey (vout tx ! 1) \<noteq> scriptPubKey (vout tx ! unat (op_n p))"

datatype value_error = ValueNegative | ValueWraps

fun value_out_loop :: "int \<Rightarrow> CTxOut list \<Rightarrow> value_error + int" where
  "value_out_loop nValueOut [] = Inr nValueOut"
| "value_out_loop nValueOut (it # vouts) =
     (if nValue it < 0 then Inl ValueNegative
      else if add64 nValueOut (nValue it) < nValueOut then Inl ValueWraps
      else value_out_loop (add64 nValueOut (nValue it)) vouts)"

definition GetValueOut :: "CTransaction \<Rightarrow> value_error + int" where
  "GetValueOut tx = value_out_loop 0 (vout tx)"

section \<open>Wire format\<close>

definition ser_outpoint :: "COutPoint \<Rightarrow> bytes" where
  "ser_outpoint p = ser_limbs (op_hash p) @ ser_u32 (op_n p)"
definition unser_outpoint :: "COutPoint reader" where
  "unser_outpoint is =
     bindE (unser_limbs 8 is) (\<lambda>(h, is). bindE (unser_u32 is) (\<lambda>(n, is). Inr (\<lparr>op_hash = h, op_n = n\<rparr>, is)))"

definition ser_txin :: "CTxIn \<Rightarrow> bytes" where
  "ser_txin i = ser_outpoint (prevout i) @ ser_blob (scriptSig i) @ ser_u32 (nSequence i)"
definition unser_txin :: "CTxIn reader" where
  "unser_txin is =
     bindE (unser_outpoint is) (\<lambda>(p, is). bindE (unser_blob is) (\<lambda>(s, is). bindE (unser_u32 is) (\<lambda>(q, is).
       Inr (\<lparr>prevout = p, scriptSig = s, nSequence = q\<rparr>, is))))"

definition ser_txout :: "CTxOut \<Rightarrow> bytes" where
  "ser_txout out = ser_int 8 (nValue out) @ ser_blob (scriptPubKey out)"
definition unser_txout :: "CTxOut reader" where
  "unser_txout is =
     bindE (unser_int 8 is) (\<lambda>(v, is). bindE (unser_blob is) (\<lambda>(s, is). Inr (\<lparr>nValue = v, scriptPubKey = s\<rparr>, is)))"

text \<open>The sizes of the two classes under the LP64 data model, which the vector reader divides by.\<close>

definition sizeof_CTxIn :: nat where "sizeof_CTxIn = 96"
definition sizeof_CTxOut :: nat where "sizeof_CTxOut = 32"
definition sizeof_CTransaction :: nat where "sizeof_CTransaction = 96"

definition ser_tx :: "CTransaction \<Rightarrow> bytes" where
  "ser_tx tx = ser_int 4 (tx_nVersion tx) @ ser_vec ser_txin (vin tx) @ ser_vec ser_txout (vout tx)
     @ ser_u32 (nLockTime tx)"

definition UpdateHash :: "(bytes \<Rightarrow> base_uint) \<Rightarrow> CTransaction \<Rightarrow> CTransaction" where
  "UpdateHash H tx = tx\<lparr>tx_hash := H (ser_tx tx)\<rparr>"

definition unser_tx :: "(bytes \<Rightarrow> base_uint) \<Rightarrow> CTransaction reader" where
  "unser_tx H is =
     bindE (unser_int 4 is) (\<lambda>(v, is).
     bindE (unser_vec sizeof_CTxIn unser_txin is) (\<lambda>(ins, is).
     bindE (unser_vec sizeof_CTxOut unser_txout is) (\<lambda>(outs, is).
     bindE (unser_u32 is) (\<lambda>(l, is).
       Inr (UpdateHash H \<lparr>tx_hash = uint256_of_u64 0, tx_nVersion = v, vin = ins, vout = outs, nLockTime = l\<rparr>, is)))))"

section \<open>Blocks\<close>

record CBlockHeader =
  hdr_nVersion :: int
  hashPrevBlock :: base_uint
  hashMerkleRoot :: base_uint
  hdr_nTime :: u32
  hdr_nBits :: u32
  nNonce :: u32

record CBlock =
  block_header :: CBlockHeader
  vtx :: "CTransaction list"
  vchBlockSig :: bytes

definition CBlock_IsProofOfStake :: "CBlock \<Rightarrow> bool" where
  "CBlock_IsProofOfStake b \<longleftrightarrow> 1 < length (vtx b) \<and> IsCoinStake (vtx b ! 1)"

definition CBlock_IsProofOfWork :: "CBlock \<Rightarrow> bool" where
  "CBlock_IsProofOfWork b \<longleftrightarrow> \<not> CBlock_IsProofOfStake b"

definition GetProofOfStake :: "CBlock \<Rightarrow> COutPoint \<times> u32" where
  "GetProofOfStake b =
     (if CBlock_IsProofOfStake b then (prevout (vin (vtx b ! 1) ! 0), hdr_nTime (block_header b))
      else (COutPoint_SetNull, 0))"

definition ser_header :: "CBlockHeader \<Rightarrow> bytes" where
  "ser_header h = ser_int 4 (hdr_nVersion h) @ ser_limbs (hashPrevBlock h) @ ser_limbs (hashMerkleRoot h)
     @ ser_u32 (hdr_nTime h) @ ser_u32 (hdr_nBits h) @ ser_u32 (nNonce h)"
definition unser_header :: "CBlockHeader reader" where
  "unser_header is =
     bindE (unser_int 4 is) (\<lambda>(v, is). bindE (unser_limbs 8 is) (\<lambda>(p, is). bindE (unser_limbs 8 is) (\<lambda>(m, is).
     bindE (unser_u32 is) (\<lambda>(t, is). bindE (unser_u32 is) (\<lambda>(b, is). bindE (unser_u32 is) (\<lambda>(n, is).
       Inr (\<lparr>hdr_nVersion = v, hashPrevBlock = p, hashMerkleRoot = m, hdr_nTime = t, hdr_nBits = b, nNonce = n\<rparr>, is)))))))"

definition ser_block :: "CBlock \<Rightarrow> bytes" where
  "ser_block b = ser_header (block_header b) @ ser_vec ser_tx (vtx b)
     @ (if 1 < length (vtx b) \<and> IsCoinStake (vtx b ! 1) then ser_blob (vchBlockSig b) else [])"
definition unser_block :: "(bytes \<Rightarrow> base_uint) \<Rightarrow> CBlock reader" where
  "unser_block H is =
     bindE (unser_header is) (\<lambda>(h, is). bindE (unser_vec sizeof_CTransaction (unser_tx H) is) (\<lambda>(txs, is).
     bindE (if 1 < length txs \<and> IsCoinStake (txs ! 1) then unser_blob is else Inr ([], is)) (\<lambda>(sig, is).
       Inr (\<lparr>block_header = h, vtx = txs, vchBlockSig = sig\<rparr>, is))))"

section \<open>Well-formed values and the exact inverse\<close>

definition wf_outpoint :: "COutPoint \<Rightarrow> bool" where "wf_outpoint p \<longleftrightarrow> is_uint256 (op_hash p)"
definition wf_txin :: "CTxIn \<Rightarrow> bool" where
  "wf_txin i \<longleftrightarrow> wf_outpoint (prevout i) \<and> length (scriptSig i) \<le> MAX_SIZE"
definition wf_txout :: "CTxOut \<Rightarrow> bool" where
  "wf_txout out \<longleftrightarrow> in_int 8 (nValue out) \<and> length (scriptPubKey out) \<le> MAX_SIZE"
definition wf_tx :: "(bytes \<Rightarrow> base_uint) \<Rightarrow> CTransaction \<Rightarrow> bool" where
  "wf_tx H tx \<longleftrightarrow> in_int 4 (tx_nVersion tx)
     \<and> length (vin tx) \<le> MAX_SIZE \<and> list_all wf_txin (vin tx)
     \<and> length (vout tx) \<le> MAX_SIZE \<and> list_all wf_txout (vout tx)
     \<and> tx_hash tx = H (ser_tx tx)"
definition wf_header :: "CBlockHeader \<Rightarrow> bool" where
  "wf_header h \<longleftrightarrow> in_int 4 (hdr_nVersion h) \<and> is_uint256 (hashPrevBlock h) \<and> is_uint256 (hashMerkleRoot h)"
definition wf_block :: "(bytes \<Rightarrow> base_uint) \<Rightarrow> CBlock \<Rightarrow> bool" where
  "wf_block H b \<longleftrightarrow> wf_header (block_header b) \<and> length (vtx b) \<le> MAX_SIZE \<and> list_all (wf_tx H) (vtx b)
     \<and> (if CBlock_IsProofOfStake b then length (vchBlockSig b) \<le> MAX_SIZE else vchBlockSig b = [])"

lemmas codec_iffs =
  u32.decode_iff i32.decode_iff i64.decode_iff uint256.decode_iff blob.decode_iff

interpretation outpoint: codec ser_outpoint unser_outpoint wf_outpoint
proof
  fix bs x rest
  show "unser_outpoint bs = Inr (x, rest) \<longleftrightarrow> wf_outpoint x \<and> bs = ser_outpoint x @ rest"
    by (cases x) (auto simp: unser_outpoint_def ser_outpoint_def wf_outpoint_def bindE_Inr_pair codec_iffs)
qed

interpretation txin: vector_codec ser_txin unser_txin wf_txin sizeof_CTxIn
proof
  fix bs x rest
  show "unser_txin bs = Inr (x, rest) \<longleftrightarrow> wf_txin x \<and> bs = ser_txin x @ rest"
    by (cases x) (auto simp: unser_txin_def ser_txin_def wf_txin_def bindE_Inr_pair codec_iffs outpoint.decode_iff)
qed (simp_all add: sizeof_CTxIn_def)

interpretation txout: vector_codec ser_txout unser_txout wf_txout sizeof_CTxOut
proof
  fix bs x rest
  show "unser_txout bs = Inr (x, rest) \<longleftrightarrow> wf_txout x \<and> bs = ser_txout x @ rest"
    by (cases x) (auto simp: unser_txout_def ser_txout_def wf_txout_def bindE_Inr_pair codec_iffs)
qed (simp_all add: sizeof_CTxOut_def)

lemma unser_tx_iff: "unser_tx H bs = Inr (tx, rest) \<longleftrightarrow> wf_tx H tx \<and> bs = ser_tx tx @ rest"
  by (cases tx) (auto simp: unser_tx_def ser_tx_def wf_tx_def UpdateHash_def bindE_Inr_pair codec_iffs
      txin.vec.decode_iff txout.vec.decode_iff)

interpretation tx: vector_codec ser_tx "unser_tx H" "wf_tx H" sizeof_CTransaction for H
  by unfold_locales (simp_all add: unser_tx_iff sizeof_CTransaction_def)

interpretation header: codec ser_header unser_header wf_header
proof
  fix bs x rest
  show "unser_header bs = Inr (x, rest) \<longleftrightarrow> wf_header x \<and> bs = ser_header x @ rest"
    by (cases x) (auto simp: unser_header_def ser_header_def wf_header_def bindE_Inr_pair codec_iffs)
qed

interpretation block: codec ser_block "unser_block H" "wf_block H" for H
proof
  fix bs rest and x :: CBlock
  let ?pos = "\<lambda>txs. 1 < length txs \<and> IsCoinStake (txs ! 1)"
  have sig: "(if ?pos txs then unser_blob is else Inr ([], is)) = Inr (g, r)
      \<longleftrightarrow> (if ?pos txs then length g \<le> MAX_SIZE else g = []) \<and> is = (if ?pos txs then ser_blob g else []) @ r"
    for g "is" r txs
    by (auto simp: blob.decode_iff)
  show "unser_block H bs = Inr (x, rest) \<longleftrightarrow> wf_block H x \<and> bs = ser_block x @ rest"
    unfolding unser_block_def bindE_Inr_pair split_conv sig header.decode_iff tx.vec.decode_iff
    by (cases x) (auto simp: ser_block_def wf_block_def CBlock_IsProofOfStake_def)
qed

section \<open>Context-free checks\<close>

text \<open>
  A rejection carries the misbehaviour score, the reject code and the reason
  (\<^verbatim>\<open>CValidationState::DoS\<close>).
\<close>

datatype reject = DoS nat nat string

definition REJECT_INVALID :: nat where "REJECT_INVALID = 0x10"
definition MAX_BLOCK_SIZE :: nat where "MAX_BLOCK_SIZE = 2000000"
definition LOCKTIME_THRESHOLD :: nat where "LOCKTIME_THRESHOLD = 500000000"

fun check_outputs :: "CChainParams \<Rightarrow> CTransaction \<Rightarrow> int \<Rightarrow> CTxOut list \<Rightarrow> reject + unit" where
  "check_outputs params tx nValueOut [] = Inr ()"
| "check_outputs params tx nValueOut (txout # outs) =
     (if CTxOut_IsEmpty txout \<and> \<not> IsCoinBase tx \<and> \<not> IsCoinStake tx then Inl (DoS 100 0 '''')
      else if nValue txout < 0 then Inl (DoS 100 REJECT_INVALID ''bad-txns-vout-negative'')
      else if MaxMoneyOut params < nValue txout then Inl (DoS 100 REJECT_INVALID ''bad-txns-vout-toolarge'')
      else if \<not> MoneyRange params (add64 nValueOut (nValue txout))
           then Inl (DoS 100 REJECT_INVALID ''bad-txns-txouttotal-toolarge'')
      else check_outputs params tx (add64 nValueOut (nValue txout)) outs)"

fun check_duplicates :: "COutPoint list \<Rightarrow> CTxIn list \<Rightarrow> reject + unit" where
  "check_duplicates vInOutPoints [] = Inr ()"
| "check_duplicates vInOutPoints (txin # ins) =
     (if prevout txin \<in> set vInOutPoints then Inl (DoS 100 REJECT_INVALID ''bad-txns-inputs-duplicate'')
      else check_duplicates (prevout txin # vInOutPoints) ins)"

definition CheckTransaction :: "CChainParams \<Rightarrow> CTransaction \<Rightarrow> reject + unit" where
  "CheckTransaction params tx =
     (if vin tx = [] then Inl (DoS 10 REJECT_INVALID ''bad-txns-vin-empty'')
      else if vout tx = [] then Inl (DoS 10 REJECT_INVALID ''bad-txns-vout-empty'')
      else if MAX_BLOCK_SIZE < length (ser_tx tx) then Inl (DoS 100 REJECT_INVALID ''bad-txns-oversize'')
      else bindE (check_outputs params tx 0 (vout tx)) (\<lambda>_.
           bindE (check_duplicates [] (vin tx)) (\<lambda>_.
             if IsCoinBase tx
             then if length (scriptSig (vin tx ! 0)) < 2 \<or> 150 < length (scriptSig (vin tx ! 0))
                  then Inl (DoS 100 REJECT_INVALID ''bad-cb-length'') else Inr ()
             else if list_ex (\<lambda>txin. COutPoint_IsNull (prevout txin)) (vin tx)
                  then Inl (DoS 10 REJECT_INVALID ''bad-txns-prevout-null'') else Inr ())))"

text \<open>
  \<^verbatim>\<open>IsFinalTx\<close> falls back to the height of the active chain and the network-adjusted
  time, which are its first two arguments, when it is called with zeros.
\<close>

definition IsFinalTx :: "int \<Rightarrow> int \<Rightarrow> CTransaction \<Rightarrow> int \<Rightarrow> int \<Rightarrow> bool" where
  "IsFinalTx chainHeight adjustedTime tx nBlockHeight nBlockTime =
     (if nLockTime tx = 0 then True
      else let h = (if nBlockHeight = 0 then chainHeight else nBlockHeight);
               t = (if nBlockTime = 0 then adjustedTime else nBlockTime);
               lock = int (unat (nLockTime tx))
           in if lock < (if lock < int LOCKTIME_THRESHOLD then h else t) then True
              else list_all CTxIn_IsFinal (vin tx))"

definition CheckFinalTx :: "pprev_chain \<Rightarrow> int \<Rightarrow> CTransaction \<Rightarrow> int \<Rightarrow> bool option" where
  "CheckFinalTx tip adjustedTime tx flags =
     (let chainHeight = (case tip of [] \<Rightarrow> - 1 | b # _ \<Rightarrow> nHeight b)
      in map_option (\<lambda>nBlockTime. IsFinalTx chainHeight adjustedTime tx (chainHeight + 1) nBlockTime)
           (if max flags 0 AND 2 \<noteq> 0 then GetMedianTimePast tip else Some adjustedTime))"

definition IsDust :: "int \<Rightarrow> CTxOut \<Rightarrow> bool" where
  "IsDust minRelayTxFee txout \<longleftrightarrow> nValue txout < wrap64 (3 * GetFee minRelayTxFee (length (ser_txout txout) + 148))"

fun modified_size_loop :: "nat \<Rightarrow> CTxIn list \<Rightarrow> nat" where
  "modified_size_loop nTxSize [] = nTxSize"
| "modified_size_loop nTxSize (it # ins) =
     (let offset = 41 + min 110 (length (scriptSig it))
      in modified_size_loop (if offset < nTxSize then nTxSize - offset else nTxSize) ins)"

definition CalculateModifiedSize :: "CTransaction \<Rightarrow> nat \<Rightarrow> nat" where
  "CalculateModifiedSize tx nTxSize =
     modified_size_loop (if nTxSize = 0 then length (ser_tx tx) else nTxSize) (vin tx)"

section \<open>Properties of amounts\<close>

lemma wrap64_id: "- (2 ^ 63) \<le> a \<Longrightarrow> a < 2 ^ 63 \<Longrightarrow> wrap64 a = a"
  by (simp add: wrap64_def signed_take_bit_int_eq_self)

lemma add64_over:
  assumes "0 \<le> a" "a < 2 ^ 63" "0 \<le> b" "b < 2 ^ 63"
  shows "add64 a b = (if a + b < 2 ^ 63 then a + b else a + b - 2 ^ 64)"
proof (cases "a + b < 2 ^ 63")
  case False
  have "wrap64 (a + b) = wrap64 (a + b - 2 ^ 64)"
    using signed_take_bit_mod [of 64 "a + b"] signed_take_bit_mod [of 64 "a + b - 2 ^ 64"]
    by (simp add: wrap64_def)
  also have "\<dots> = a + b - 2 ^ 64" using assms False by (intro wrap64_id) simp_all
  finally show ?thesis using False by (simp add: add64_def)
qed (use assms in \<open>simp add: add64_def wrap64_id\<close>)

abbreviation sum_values :: "CTxOut list \<Rightarrow> int" where
  "sum_values outs \<equiv> sum_list (map nValue outs)"

lemma sum_values_nonneg: "list_all (\<lambda>out. 0 \<le> nValue out) outs \<Longrightarrow> 0 \<le> sum_values outs"
  by (induction outs) auto

lemma value_out_loop_iff:
  assumes "list_all (\<lambda>out. nValue out < 2 ^ 63) outs" and "0 \<le> acc" and "acc < 2 ^ 63"
  shows "value_out_loop acc outs = Inr v
     \<longleftrightarrow> list_all (\<lambda>out. 0 \<le> nValue out) outs \<and> v = acc + sum_values outs \<and> v < 2 ^ 63"
  using assms
proof (induction outs arbitrary: acc)
  case (Cons out outs)
  show ?case
  proof (cases "nValue out < 0")
    case False
    note a = add64_over [of acc "nValue out"]
    show ?thesis
    proof (cases "acc + nValue out < 2 ^ 63")
      case True
      with False Cons a show ?thesis by (simp add: add.assoc)
    next
      case over: False
      with False Cons.prems a sum_values_nonneg [of outs] show ?thesis by auto
    qed
  qed simp
qed auto

lemma check_outputs_iff:
  assumes "0 \<le> acc" "acc \<le> MaxMoneyOut params" "MaxMoneyOut params < 2 ^ 62"
  shows "check_outputs params tx acc outs = Inr ()
     \<longleftrightarrow> list_all (\<lambda>out. 0 \<le> nValue out) outs
       \<and> list_all (\<lambda>out. CTxOut_IsEmpty out \<longrightarrow> IsCoinBase tx \<or> IsCoinStake tx) outs
       \<and> acc + sum_values outs \<le> MaxMoneyOut params"
  using assms
proof (induction outs arbitrary: acc)
  case (Cons out outs)
  note nonneg = sum_values_nonneg [of outs]
  consider (neg) "nValue out < 0" | (high) "MaxMoneyOut params < nValue out"
    | (ok) "0 \<le> nValue out" "nValue out \<le> MaxMoneyOut params" by linarith
  then show ?case
  proof cases
    case high
    then show ?thesis using Cons.prems nonneg by auto
  next
    case ok
    then have a: "add64 acc (nValue out) = acc + nValue out"
      using Cons.prems by (simp add: add64_over)
    show ?thesis
    proof (cases "acc + nValue out \<le> MaxMoneyOut params")
      case True
      with ok Cons.prems Cons.IH [of "acc + nValue out"] show ?thesis
        by (simp add: a MoneyRange_def add.assoc)
    next
      case False
      with ok Cons.prems nonneg show ?thesis by (auto simp: a MoneyRange_def)
    qed
  qed simp
qed simp

lemma check_duplicates_iff:
  "check_duplicates seen ins = Inr () \<longleftrightarrow> distinct (map prevout ins) \<and> set (map prevout ins) \<inter> set seen = {}"
  by (induction ins arbitrary: seen) auto

lemma bindE_unit: "bindE m f = Inr y \<longleftrightarrow> m = Inr () \<and> f () = Inr y"
  by (cases m) auto

lemma CMainParams_MaxMoneyOut: "MaxMoneyOut CMainParams = 2100000000000000"
  by (simp add: CMainParams_def COIN_def)

lemma CheckTransaction_iff:
  assumes "0 \<le> MaxMoneyOut params" "MaxMoneyOut params < 2 ^ 62"
  shows "CheckTransaction params tx = Inr () \<longleftrightarrow>
     vin tx \<noteq> [] \<and> vout tx \<noteq> [] \<and> length (ser_tx tx) \<le> MAX_BLOCK_SIZE
     \<and> list_all (\<lambda>out. 0 \<le> nValue out) (vout tx)
     \<and> list_all (\<lambda>out. CTxOut_IsEmpty out \<longrightarrow> IsCoinBase tx \<or> IsCoinStake tx) (vout tx)
     \<and> sum_values (vout tx) \<le> MaxMoneyOut params
     \<and> distinct (map prevout (vin tx))
     \<and> (if IsCoinBase tx then 2 \<le> length (scriptSig (vin tx ! 0)) \<and> length (scriptSig (vin tx ! 0)) \<le> 150
        else \<not> list_ex (\<lambda>txin. COutPoint_IsNull (prevout txin)) (vin tx))"
  using assms check_outputs_iff [of 0 params tx "vout tx"]
  by (auto simp: CheckTransaction_def bindE_unit check_duplicates_iff not_less)

section \<open>Encoded lengths\<close>

lemma length_ser_limbs [simp]: "length (ser_limbs xs) = 4 * length xs"
  by (induction xs) (auto simp: ser_u32_def)

lemma length_ser_outpoint: "wf_outpoint p \<Longrightarrow> length (ser_outpoint p) = 36"
  by (simp add: ser_outpoint_def wf_outpoint_def is_uint256_def ser_u32_def)

lemma length_ser_blob: "length (ser_blob v) = GetSizeOfCompactSize (of_nat (length v)) + length v"
  by (simp add: ser_blob_def length_WriteCompactSize)

lemma length_ser_txin:
  "wf_outpoint (prevout i) \<Longrightarrow> length (ser_txin i) = 40 + length (ser_blob (scriptSig i))"
  by (simp add: ser_txin_def length_ser_outpoint ser_u32_def)

lemma length_ser_txout: "length (ser_txout out) = 8 + length (ser_blob (scriptPubKey out))"
  by (simp add: ser_txout_def ser_int_def)

lemma length_ser_vec:
  "length (ser_vec ser v) = GetSizeOfCompactSize (of_nat (length v)) + sum_list (map (length \<circ> ser) v)"
  by (simp add: ser_vec_def length_WriteCompactSize length_concat comp_def)

lemma length_ser_tx: "length (ser_tx tx) = 8 + length (ser_vec ser_txin (vin tx)) + length (ser_vec ser_txout (vout tx))"
  by (simp add: ser_tx_def ser_int_def ser_u32_def)

lemmas length_sers =
  length_ser_tx length_ser_vec length_ser_txin length_ser_txout length_ser_blob GetSizeOfCompactSize_def

lemma null_outpoint: "wf_outpoint COutPoint_SetNull" "COutPoint_IsNull COutPoint_SetNull"
  by (simp_all add: wf_outpoint_def COutPoint_SetNull_def is_uint256_simps COutPoint_IsNull_def) code_simp

section \<open>Theorems\<close>

text \<open>
  C23. The wire format is exact: the decoders of transactions and of blocks accept a byte
  string if and only if it starts with the encoding of a well-formed value, and return that value
  and the rest. So every value round-trips, no two values share an encoding, and no byte string
  has two readings (a transaction cannot be re-encoded under the same content).
\<close>

theorem wire_format_exact:
  "(unser_tx H bs = Inr (tx, rest) \<longleftrightarrow> wf_tx H tx \<and> bs = ser_tx tx @ rest)
   \<and> (unser_block H bs = Inr (b, rest) \<longleftrightarrow> wf_block H b \<and> bs = ser_block b @ rest)"
  by (simp add: unser_tx_iff block.decode_iff)

text \<open>
  C7. \<^verbatim>\<open>CheckTransaction\<close> on the main network accepts exactly the transactions with
  inputs and outputs, at most two million bytes, non-negative outputs that sum to at most the
  money limit, empty outputs only in coinbase and coinstake, pairwise different inputs, and a
  coinbase script of 2 to 150 bytes or no null input; and then \<^verbatim>\<open>GetValueOut\<close> does not
  throw: it is the exact sum.
\<close>

theorem CheckTransaction_exact:
  "(CheckTransaction CMainParams tx = Inr () \<longleftrightarrow>
     vin tx \<noteq> [] \<and> vout tx \<noteq> [] \<and> length (ser_tx tx) \<le> 2000000
     \<and> list_all (\<lambda>out. 0 \<le> nValue out) (vout tx)
     \<and> list_all (\<lambda>out. CTxOut_IsEmpty out \<longrightarrow> IsCoinBase tx \<or> IsCoinStake tx) (vout tx)
     \<and> sum_values (vout tx) \<le> 2100000000000000
     \<and> distinct (map prevout (vin tx))
     \<and> (if IsCoinBase tx then 2 \<le> length (scriptSig (vin tx ! 0)) \<and> length (scriptSig (vin tx ! 0)) \<le> 150
        else \<not> list_ex (\<lambda>txin. COutPoint_IsNull (prevout txin)) (vin tx)))
   \<and> (CheckTransaction CMainParams tx = Inr () \<longrightarrow> GetValueOut tx = Inr (sum_values (vout tx)))"
proof -
  note iff = CheckTransaction_iff [of CMainParams tx, unfolded CMainParams_MaxMoneyOut MAX_BLOCK_SIZE_def]
  have "GetValueOut tx = Inr (sum_values (vout tx))" if "CheckTransaction CMainParams tx = Inr ()"
  proof -
    have pos: "list_all (\<lambda>out. 0 \<le> nValue out) (vout tx)" and le: "sum_values (vout tx) \<le> 2100000000000000"
      using iff that by auto
    have "list_all (\<lambda>out. nValue out \<le> sum_values (vout tx)) (vout tx)"
      using pos unfolding list_all_iff by (auto intro!: member_le_sum_list)
    with le have "list_all (\<lambda>out. nValue out < 2 ^ 63) (vout tx)" by (auto simp: list_all_iff)
    with pos le show ?thesis
      unfolding GetValueOut_def by (subst value_out_loop_iff) auto
  qed
  with iff show ?thesis by simp
qed

definition ex_coinbase :: CTransaction where
  "ex_coinbase = \<lparr>tx_hash = uint256_of_u64 1, tx_nVersion = 1,
     vin = [\<lparr>prevout = COutPoint_SetNull, scriptSig = [1, 2], nSequence = - 1\<rparr>],
     vout = [\<lparr>nValue = 5 * COIN, scriptPubKey = [0x51]\<rparr>], nLockTime = 0\<rparr>"

theorem CheckTransaction_exact_witness:
  "CheckTransaction CMainParams ex_coinbase = Inr () \<and> GetValueOut ex_coinbase = Inr 500000000"
proof -
  have "length (ser_tx ex_coinbase) \<le> 2000000"
    by (simp add: ex_coinbase_def length_sers null_outpoint)
  with CheckTransaction_exact [of ex_coinbase] show ?thesis
    by (simp add: ex_coinbase_def COIN_def IsCoinBase_def null_outpoint)
qed

text \<open>
  \<^verbatim>\<open>GetValueOut\<close> on outputs whose values fit 64 bits: it throws for a negative
  output or a sum outside the 64-bit range, and otherwise returns the exact sum; no wrapped sum is
  ever returned.
\<close>

theorem GetValueOut_exact:
  assumes "list_all (\<lambda>out. nValue out < 2 ^ 63) (vout tx)"
  shows "GetValueOut tx = Inr v \<longleftrightarrow>
     list_all (\<lambda>out. 0 \<le> nValue out) (vout tx) \<and> v = sum_values (vout tx) \<and> v < 2 ^ 63"
  unfolding GetValueOut_def by (subst value_out_loop_iff [OF assms]) auto

theorem GetValueOut_exact_witness:
  "\<forall>v. GetValueOut (ex_coinbase\<lparr>vout := [\<lparr>nValue = 2 ^ 62, scriptPubKey = []\<rparr>, \<lparr>nValue = 2 ^ 62, scriptPubKey = []\<rparr>]\<rparr>)
     \<noteq> Inr v"
  by (subst GetValueOut_exact) simp_all

end
