(* ===== verification/Script.thy ===== *)
theory Script
  imports Serialize
begin

text \<open>
  Scripts (\<^verbatim>\<open>src/script/script.h\<close>, \<^verbatim>\<open>src/script/script.cpp\<close>): the opcode
  table, script numbers, the instruction decoder and the static predicates. A script is its byte
  vector; an iterator into it is the suffix it points at, so \<^verbatim>\<open>pc == end()\<close> is the
  empty list.
\<close>

section \<open>Opcodes\<close>

type_synonym opcodetype = u8

abbreviation (input) OP_0 :: opcodetype where "OP_0 \<equiv> 0x00"
abbreviation (input) OP_FALSE :: opcodetype where "OP_FALSE \<equiv> OP_0"
abbreviation (input) OP_PUSHDATA1 :: opcodetype where "OP_PUSHDATA1 \<equiv> 0x4c"
abbreviation (input) OP_PUSHDATA2 :: opcodetype where "OP_PUSHDATA2 \<equiv> 0x4d"
abbreviation (input) OP_PUSHDATA4 :: opcodetype where "OP_PUSHDATA4 \<equiv> 0x4e"
abbreviation (input) OP_1NEGATE :: opcodetype where "OP_1NEGATE \<equiv> 0x4f"
abbreviation (input) OP_RESERVED :: opcodetype where "OP_RESERVED \<equiv> 0x50"
abbreviation (input) OP_1 :: opcodetype where "OP_1 \<equiv> 0x51"
abbreviation (input) OP_TRUE :: opcodetype where "OP_TRUE \<equiv> OP_1"
abbreviation (input) OP_2 :: opcodetype where "OP_2 \<equiv> 0x52"
abbreviation (input) OP_3 :: opcodetype where "OP_3 \<equiv> 0x53"
abbreviation (input) OP_4 :: opcodetype where "OP_4 \<equiv> 0x54"
abbreviation (input) OP_5 :: opcodetype where "OP_5 \<equiv> 0x55"
abbreviation (input) OP_6 :: opcodetype where "OP_6 \<equiv> 0x56"
abbreviation (input) OP_7 :: opcodetype where "OP_7 \<equiv> 0x57"
abbreviation (input) OP_8 :: opcodetype where "OP_8 \<equiv> 0x58"
abbreviation (input) OP_9 :: opcodetype where "OP_9 \<equiv> 0x59"
abbreviation (input) OP_10 :: opcodetype where "OP_10 \<equiv> 0x5a"
abbreviation (input) OP_11 :: opcodetype where "OP_11 \<equiv> 0x5b"
abbreviation (input) OP_12 :: opcodetype where "OP_12 \<equiv> 0x5c"
abbreviation (input) OP_13 :: opcodetype where "OP_13 \<equiv> 0x5d"
abbreviation (input) OP_14 :: opcodetype where "OP_14 \<equiv> 0x5e"
abbreviation (input) OP_15 :: opcodetype where "OP_15 \<equiv> 0x5f"
abbreviation (input) OP_16 :: opcodetype where "OP_16 \<equiv> 0x60"
abbreviation (input) OP_NOP :: opcodetype where "OP_NOP \<equiv> 0x61"
abbreviation (input) OP_VER :: opcodetype where "OP_VER \<equiv> 0x62"
abbreviation (input) OP_IF :: opcodetype where "OP_IF \<equiv> 0x63"
abbreviation (input) OP_NOTIF :: opcodetype where "OP_NOTIF \<equiv> 0x64"
abbreviation (input) OP_VERIF :: opcodetype where "OP_VERIF \<equiv> 0x65"
abbreviation (input) OP_VERNOTIF :: opcodetype where "OP_VERNOTIF \<equiv> 0x66"
abbreviation (input) OP_ELSE :: opcodetype where "OP_ELSE \<equiv> 0x67"
abbreviation (input) OP_ENDIF :: opcodetype where "OP_ENDIF \<equiv> 0x68"
abbreviation (input) OP_VERIFY :: opcodetype where "OP_VERIFY \<equiv> 0x69"
abbreviation (input) OP_RETURN :: opcodetype where "OP_RETURN \<equiv> 0x6a"
abbreviation (input) OP_TOALTSTACK :: opcodetype where "OP_TOALTSTACK \<equiv> 0x6b"
abbreviation (input) OP_FROMALTSTACK :: opcodetype where "OP_FROMALTSTACK \<equiv> 0x6c"
abbreviation (input) OP_2DROP :: opcodetype where "OP_2DROP \<equiv> 0x6d"
abbreviation (input) OP_2DUP :: opcodetype where "OP_2DUP \<equiv> 0x6e"
abbreviation (input) OP_3DUP :: opcodetype where "OP_3DUP \<equiv> 0x6f"
abbreviation (input) OP_2OVER :: opcodetype where "OP_2OVER \<equiv> 0x70"
abbreviation (input) OP_2ROT :: opcodetype where "OP_2ROT \<equiv> 0x71"
abbreviation (input) OP_2SWAP :: opcodetype where "OP_2SWAP \<equiv> 0x72"
abbreviation (input) OP_IFDUP :: opcodetype where "OP_IFDUP \<equiv> 0x73"
abbreviation (input) OP_DEPTH :: opcodetype where "OP_DEPTH \<equiv> 0x74"
abbreviation (input) OP_DROP :: opcodetype where "OP_DROP \<equiv> 0x75"
abbreviation (input) OP_DUP :: opcodetype where "OP_DUP \<equiv> 0x76"
abbreviation (input) OP_NIP :: opcodetype where "OP_NIP \<equiv> 0x77"
abbreviation (input) OP_OVER :: opcodetype where "OP_OVER \<equiv> 0x78"
abbreviation (input) OP_PICK :: opcodetype where "OP_PICK \<equiv> 0x79"
abbreviation (input) OP_ROLL :: opcodetype where "OP_ROLL \<equiv> 0x7a"
abbreviation (input) OP_ROT :: opcodetype where "OP_ROT \<equiv> 0x7b"
abbreviation (input) OP_SWAP :: opcodetype where "OP_SWAP \<equiv> 0x7c"
abbreviation (input) OP_TUCK :: opcodetype where "OP_TUCK \<equiv> 0x7d"
abbreviation (input) OP_CAT :: opcodetype where "OP_CAT \<equiv> 0x7e"
abbreviation (input) OP_SUBSTR :: opcodetype where "OP_SUBSTR \<equiv> 0x7f"
abbreviation (input) OP_LEFT :: opcodetype where "OP_LEFT \<equiv> 0x80"
abbreviation (input) OP_RIGHT :: opcodetype where "OP_RIGHT \<equiv> 0x81"
abbreviation (input) OP_SIZE :: opcodetype where "OP_SIZE \<equiv> 0x82"
abbreviation (input) OP_INVERT :: opcodetype where "OP_INVERT \<equiv> 0x83"
abbreviation (input) OP_AND :: opcodetype where "OP_AND \<equiv> 0x84"
abbreviation (input) OP_OR :: opcodetype where "OP_OR \<equiv> 0x85"
abbreviation (input) OP_XOR :: opcodetype where "OP_XOR \<equiv> 0x86"
abbreviation (input) OP_EQUAL :: opcodetype where "OP_EQUAL \<equiv> 0x87"
abbreviation (input) OP_EQUALVERIFY :: opcodetype where "OP_EQUALVERIFY \<equiv> 0x88"
abbreviation (input) OP_RESERVED1 :: opcodetype where "OP_RESERVED1 \<equiv> 0x89"
abbreviation (input) OP_RESERVED2 :: opcodetype where "OP_RESERVED2 \<equiv> 0x8a"
abbreviation (input) OP_1ADD :: opcodetype where "OP_1ADD \<equiv> 0x8b"
abbreviation (input) OP_1SUB :: opcodetype where "OP_1SUB \<equiv> 0x8c"
abbreviation (input) OP_2MUL :: opcodetype where "OP_2MUL \<equiv> 0x8d"
abbreviation (input) OP_2DIV :: opcodetype where "OP_2DIV \<equiv> 0x8e"
abbreviation (input) OP_NEGATE :: opcodetype where "OP_NEGATE \<equiv> 0x8f"
abbreviation (input) OP_ABS :: opcodetype where "OP_ABS \<equiv> 0x90"
abbreviation (input) OP_NOT :: opcodetype where "OP_NOT \<equiv> 0x91"
abbreviation (input) OP_0NOTEQUAL :: opcodetype where "OP_0NOTEQUAL \<equiv> 0x92"
abbreviation (input) OP_ADD :: opcodetype where "OP_ADD \<equiv> 0x93"
abbreviation (input) OP_SUB :: opcodetype where "OP_SUB \<equiv> 0x94"
abbreviation (input) OP_MUL :: opcodetype where "OP_MUL \<equiv> 0x95"
abbreviation (input) OP_DIV :: opcodetype where "OP_DIV \<equiv> 0x96"
abbreviation (input) OP_MOD :: opcodetype where "OP_MOD \<equiv> 0x97"
abbreviation (input) OP_LSHIFT :: opcodetype where "OP_LSHIFT \<equiv> 0x98"
abbreviation (input) OP_RSHIFT :: opcodetype where "OP_RSHIFT \<equiv> 0x99"
abbreviation (input) OP_BOOLAND :: opcodetype where "OP_BOOLAND \<equiv> 0x9a"
abbreviation (input) OP_BOOLOR :: opcodetype where "OP_BOOLOR \<equiv> 0x9b"
abbreviation (input) OP_NUMEQUAL :: opcodetype where "OP_NUMEQUAL \<equiv> 0x9c"
abbreviation (input) OP_NUMEQUALVERIFY :: opcodetype where "OP_NUMEQUALVERIFY \<equiv> 0x9d"
abbreviation (input) OP_NUMNOTEQUAL :: opcodetype where "OP_NUMNOTEQUAL \<equiv> 0x9e"
abbreviation (input) OP_LESSTHAN :: opcodetype where "OP_LESSTHAN \<equiv> 0x9f"
abbreviation (input) OP_GREATERTHAN :: opcodetype where "OP_GREATERTHAN \<equiv> 0xa0"
abbreviation (input) OP_LESSTHANOREQUAL :: opcodetype where "OP_LESSTHANOREQUAL \<equiv> 0xa1"
abbreviation (input) OP_GREATERTHANOREQUAL :: opcodetype where "OP_GREATERTHANOREQUAL \<equiv> 0xa2"
abbreviation (input) OP_MIN :: opcodetype where "OP_MIN \<equiv> 0xa3"
abbreviation (input) OP_MAX :: opcodetype where "OP_MAX \<equiv> 0xa4"
abbreviation (input) OP_WITHIN :: opcodetype where "OP_WITHIN \<equiv> 0xa5"
abbreviation (input) OP_RIPEMD160 :: opcodetype where "OP_RIPEMD160 \<equiv> 0xa6"
abbreviation (input) OP_SHA1 :: opcodetype where "OP_SHA1 \<equiv> 0xa7"
abbreviation (input) OP_SHA256 :: opcodetype where "OP_SHA256 \<equiv> 0xa8"
abbreviation (input) OP_HASH160 :: opcodetype where "OP_HASH160 \<equiv> 0xa9"
abbreviation (input) OP_HASH256 :: opcodetype where "OP_HASH256 \<equiv> 0xaa"
abbreviation (input) OP_CODESEPARATOR :: opcodetype where "OP_CODESEPARATOR \<equiv> 0xab"
abbreviation (input) OP_CHECKSIG :: opcodetype where "OP_CHECKSIG \<equiv> 0xac"
abbreviation (input) OP_CHECKSIGVERIFY :: opcodetype where "OP_CHECKSIGVERIFY \<equiv> 0xad"
abbreviation (input) OP_CHECKMULTISIG :: opcodetype where "OP_CHECKMULTISIG \<equiv> 0xae"
abbreviation (input) OP_CHECKMULTISIGVERIFY :: opcodetype where "OP_CHECKMULTISIGVERIFY \<equiv> 0xaf"
abbreviation (input) OP_NOP1 :: opcodetype where "OP_NOP1 \<equiv> 0xb0"
abbreviation (input) OP_NOP2 :: opcodetype where "OP_NOP2 \<equiv> 0xb1"
abbreviation (input) OP_NOP3 :: opcodetype where "OP_NOP3 \<equiv> 0xb2"
abbreviation (input) OP_NOP4 :: opcodetype where "OP_NOP4 \<equiv> 0xb3"
abbreviation (input) OP_NOP5 :: opcodetype where "OP_NOP5 \<equiv> 0xb4"
abbreviation (input) OP_NOP6 :: opcodetype where "OP_NOP6 \<equiv> 0xb5"
abbreviation (input) OP_NOP7 :: opcodetype where "OP_NOP7 \<equiv> 0xb6"
abbreviation (input) OP_NOP8 :: opcodetype where "OP_NOP8 \<equiv> 0xb7"
abbreviation (input) OP_NOP9 :: opcodetype where "OP_NOP9 \<equiv> 0xb8"
abbreviation (input) OP_NOP10 :: opcodetype where "OP_NOP10 \<equiv> 0xb9"
abbreviation (input) OP_SMALLINTEGER :: opcodetype where "OP_SMALLINTEGER \<equiv> 0xfa"
abbreviation (input) OP_PUBKEYS :: opcodetype where "OP_PUBKEYS \<equiv> 0xfb"
abbreviation (input) OP_PUBKEYHASH :: opcodetype where "OP_PUBKEYHASH \<equiv> 0xfd"
abbreviation (input) OP_PUBKEY :: opcodetype where "OP_PUBKEY \<equiv> 0xfe"
abbreviation (input) OP_INVALIDOPCODE :: opcodetype where "OP_INVALIDOPCODE \<equiv> 0xff"

section \<open>Script numbers\<close>

datatype scriptnum_error = ScriptNumOverflow | ScriptNumNonMinimal

definition nMaxNumSize :: nat where "nMaxNumSize = 4"

definition set_vch :: "bytes \<Rightarrow> int" where
  "set_vch b =
     (if b = [] then 0
      else let result = int (le_nat b)
           in if last b AND 0x80 \<noteq> 0
              then - (result AND NOT (push_bit (8 * (length b - 1)) 0x80))
              else result)"

definition CScriptNum :: "bytes \<Rightarrow> bool \<Rightarrow> scriptnum_error + int" where
  "CScriptNum b fRequireMinimal =
     (if nMaxNumSize < length b then Inl ScriptNumOverflow
      else if fRequireMinimal \<and> 0 < length b \<and> last b AND 0x7f = 0
              \<and> (length b \<le> 1 \<or> (b ! (length b - 2)) AND 0x80 = 0)
           then Inl ScriptNumNonMinimal
      else Inr (set_vch b))"

fun abs_bytes :: "nat \<Rightarrow> bytes" where
  "abs_bytes absvalue = (if absvalue = 0 then [] else of_nat (absvalue mod 256) # abs_bytes (absvalue div 256))"

declare abs_bytes.simps [simp del]

definition serialize :: "int \<Rightarrow> bytes" where
  "serialize m_value =
     (if m_value = 0 then []
      else let neg = m_value < 0; result = abs_bytes (nat \<bar>m_value\<bar>)
           in if last result AND 0x80 \<noteq> 0 then result @ [if neg then 0x80 else 0]
              else if neg then butlast result @ [last result OR 0x80]
              else result)"

definition getint :: "int \<Rightarrow> int" where
  "getint m_value = (if 2 ^ 31 - 1 < m_value then 2 ^ 31 - 1 else if m_value < - (2 ^ 31) then - (2 ^ 31) else m_value)"

section \<open>Building scripts\<close>

definition push_data :: "bytes \<Rightarrow> bytes" where
  "push_data b =
     (if length b < unat OP_PUSHDATA1 then [of_nat (length b)]
      else if length b \<le> 0xff then [OP_PUSHDATA1, of_nat (length b)]
      else if length b \<le> 0xffff then OP_PUSHDATA2 # le_bytes 2 (length b)
      else OP_PUSHDATA4 # le_bytes 4 (length b)) @ b"

definition push_int64 :: "int \<Rightarrow> bytes" where
  "push_int64 n =
     (if n = - 1 \<or> 1 \<le> n \<and> n \<le> 16 then [word_of_int (n + (uint OP_1 - 1))]
      else if n = 0 then [OP_0]
      else push_data (serialize n))"

section \<open>Decoding\<close>

text \<open>
  \<^verbatim>\<open>GetOp2\<close> returns its success flag, the opcode, the immediate data and the advanced
  iterator; a failure leaves the iterator behind the bytes it consumed.
\<close>

definition push_size :: "opcodetype \<Rightarrow> bytes \<Rightarrow> (nat \<times> bytes) option" where
  "push_size opcode pc =
     (if opcode < OP_PUSHDATA1 then Some (unat opcode, pc)
      else let k = (if opcode = OP_PUSHDATA1 then 1 else if opcode = OP_PUSHDATA2 then 2 else 4)
           in if length pc < k then None else Some (le_nat (take k pc), drop k pc))"

fun GetOp :: "bytes \<Rightarrow> bool \<times> opcodetype \<times> bytes \<times> bytes" where
  "GetOp [] = (False, OP_INVALIDOPCODE, [], [])"
| "GetOp (opcode # pc) =
     (if opcode \<le> OP_PUSHDATA4
      then case push_size opcode pc of
             None \<Rightarrow> (False, OP_INVALIDOPCODE, [], pc)
           | Some (nSize, pc) \<Rightarrow>
               if length pc < nSize then (False, OP_INVALIDOPCODE, [], pc)
               else (True, opcode, take nSize pc, drop nSize pc)
      else (True, opcode, [], pc))"

lemma GetOp_progress: "GetOp pc = (ok, opcode, v, pc') \<Longrightarrow> pc \<noteq> [] \<Longrightarrow> length pc' < length pc"
  by (cases pc) (auto simp: push_size_def Let_def split: if_splits option.splits)

definition DecodeOP_N :: "opcodetype \<Rightarrow> int option" where
  "DecodeOP_N opcode =
     (if opcode = OP_0 then Some 0
      else if OP_1 \<le> opcode \<and> opcode \<le> OP_16 then Some (uint opcode - (uint OP_1 - 1))
      else None)"

definition EncodeOP_N :: "int \<Rightarrow> opcodetype option" where
  "EncodeOP_N n =
     (if 0 \<le> n \<and> n \<le> 16 then Some (if n = 0 then OP_0 else word_of_int (uint OP_1 + n - 1)) else None)"

section \<open>Scanning\<close>

function sigop_loop :: "bool \<Rightarrow> opcodetype \<Rightarrow> nat \<Rightarrow> bytes \<Rightarrow> nat" where
  "sigop_loop fAccurate lastOpcode n pc =
     (if pc = [] then n
      else case GetOp pc of (ok, opcode, v, pc') \<Rightarrow>
        if \<not> ok then n
        else sigop_loop fAccurate opcode
               (if opcode = OP_CHECKSIG \<or> opcode = OP_CHECKSIGVERIFY then n + 1
                else if opcode = OP_CHECKMULTISIG \<or> opcode = OP_CHECKMULTISIGVERIFY
                then if fAccurate \<and> OP_1 \<le> lastOpcode \<and> lastOpcode \<le> OP_16
                     then n + nat (the (DecodeOP_N lastOpcode)) else n + 20
                else n) pc')"
  by pat_completeness auto
termination by (relation "measure (\<lambda>(a, l, n, pc). length pc)") (auto dest: GetOp_progress [OF sym])

definition GetSigOpCount :: "bool \<Rightarrow> bytes \<Rightarrow> nat" where
  "GetSigOpCount fAccurate script = sigop_loop fAccurate OP_INVALIDOPCODE 0 script"

definition IsPayToScriptHash :: "bytes \<Rightarrow> bool" where
  "IsPayToScriptHash script \<longleftrightarrow>
     length script = 23 \<and> script ! 0 = OP_HASH160 \<and> script ! 1 = 0x14 \<and> script ! 22 = OP_EQUAL"

function last_push_loop :: "bytes \<Rightarrow> bytes \<Rightarrow> bytes option" where
  "last_push_loop data pc =
     (if pc = [] then Some data
      else case GetOp pc of (ok, opcode, v, pc') \<Rightarrow>
        if \<not> ok then None else if OP_16 < opcode then None else last_push_loop v pc')"
  by pat_completeness auto
termination by (relation "measure (\<lambda>(d, pc). length pc)") (auto dest: GetOp_progress [OF sym])

definition GetSigOpCountP2SH :: "bytes \<Rightarrow> bytes \<Rightarrow> nat" where
  "GetSigOpCountP2SH script scriptSig' =
     (if \<not> IsPayToScriptHash script then GetSigOpCount True script
      else case last_push_loop [] scriptSig' of None \<Rightarrow> 0 | Some subscript \<Rightarrow> GetSigOpCount True subscript)"

function IsPushOnly :: "bytes \<Rightarrow> bool" where
  "IsPushOnly pc =
     (if pc = [] then True
      else case GetOp pc of (ok, opcode, v, pc') \<Rightarrow>
        if \<not> ok then False else if OP_16 < opcode then False else IsPushOnly pc')"
  by pat_completeness auto
termination by (relation "measure length") (auto dest: GetOp_progress [OF sym])

definition IsUnspendable :: "bytes \<Rightarrow> bool" where
  "IsUnspendable script \<longleftrightarrow> 0 < length script \<and> hd script = OP_RETURN"

function normal_payment_loop :: "nat \<Rightarrow> bytes \<Rightarrow> bool" where
  "normal_payment_loop i pc =
     (if pc = [] then True
      else case GetOp pc of (ok, opcode, v, pc') \<Rightarrow>
        if i = 0 \<and> opcode \<noteq> OP_DUP then False
        else if i = 1 \<and> opcode \<noteq> OP_HASH160 then False
        else if i = 3 \<and> opcode \<noteq> OP_EQUALVERIFY then False
        else if i = 4 \<and> opcode \<noteq> OP_CHECKSIG then False
        else if i = 5 then False
        else normal_payment_loop (i + 1) pc')"
  by pat_completeness auto
termination by (relation "measure (\<lambda>(i, pc). length pc)") (auto dest: GetOp_progress [OF sym])

definition IsNormalPaymentScript :: "bytes \<Rightarrow> bool" where
  "IsNormalPaymentScript script \<longleftrightarrow> length script = 25 \<and> normal_payment_loop 0 script"

function find_loop :: "opcodetype \<Rightarrow> nat \<Rightarrow> bytes \<Rightarrow> nat" where
  "find_loop op nFound pc =
     (if pc = [] then nFound
      else case GetOp pc of (ok, opcode, v, pc') \<Rightarrow>
        if \<not> ok then nFound else find_loop op (if opcode = op then nFound + 1 else nFound) pc')"
  by pat_completeness auto
termination by (relation "measure (\<lambda>(p, n, pc). length pc)") (auto dest: GetOp_progress [OF sym])

definition Find :: "opcodetype \<Rightarrow> bytes \<Rightarrow> nat" where
  "Find op script = find_loop op 0 script"

text \<open>
  \<^verbatim>\<open>FindAndDelete\<close> keeps what it has passed (\<open>done\<close>) and erases at the iterator;
  when decoding fails the rest of the script is kept as it is.
\<close>

function erase_loop :: "bytes \<Rightarrow> nat \<Rightarrow> bytes \<Rightarrow> nat \<times> bytes" where
  "erase_loop b nFound pc =
     (if b \<noteq> [] \<and> length b \<le> length pc \<and> take (length b) pc = b
      then erase_loop b (nFound + 1) (drop (length b) pc) else (nFound, pc))"
  by pat_completeness auto
termination by (relation "measure (\<lambda>(b, n, pc). length pc)") (auto simp: neq_Nil_conv)

declare sigop_loop.simps [simp del] last_push_loop.simps [simp del] IsPushOnly.simps [simp del]
  normal_payment_loop.simps [simp del] find_loop.simps [simp del] erase_loop.simps [simp del]

lemma erase_loop_length: "erase_loop b n pc = (n', pc') \<Longrightarrow> length pc' \<le> length pc"
proof (induction b n pc rule: erase_loop.induct)
  case (1 b n pc)
  show ?case
  proof (cases "b \<noteq> [] \<and> length b \<le> length pc \<and> take (length b) pc = b")
    case True
    with 1(2) have "erase_loop b (n + 1) (drop (length b) pc) = (n', pc')" by (subst (asm) erase_loop.simps) simp
    from 1(1) [OF True this] show ?thesis by simp
  next
    case False
    with 1(2) show ?thesis by (subst (asm) erase_loop.simps) (simp split: if_splits)
  qed
qed

function find_and_delete_loop :: "bytes \<Rightarrow> nat \<Rightarrow> bytes \<Rightarrow> bytes \<Rightarrow> nat \<times> bytes" where
  "find_and_delete_loop b nFound passed pc =
     (case erase_loop b nFound pc of (nFound, pc) \<Rightarrow>
      case GetOp pc of (ok, opcode, v, pc') \<Rightarrow>
        if ok then find_and_delete_loop b nFound (passed @ take (length pc - length pc') pc) pc'
        else (nFound, passed @ pc))"
  by pat_completeness auto
termination
proof (relation "measure (\<lambda>(b, n, p, pc). length pc)")
  fix b p pc pc1 v pc' :: bytes and n n' :: nat and ok opcode z w
  assume "(n', pc1) = erase_loop b n pc" "(ok, z) = GetOp pc1" "(opcode, w) = z" "(v, pc') = w" "ok"
  then have "erase_loop b n pc = (n', pc1)" "GetOp pc1 = (True, opcode, v, pc')" by auto
  moreover from this have "pc1 \<noteq> []" by auto
  ultimately have "length pc' < length pc"
    using GetOp_progress [of pc1] erase_loop_length [of b n pc] by fastforce
  then show "((b, n', p @ take (length pc1 - length pc') pc1, pc'), b, n, p, pc) \<in> measure (\<lambda>(b, n, p, pc). length pc)"
    by simp
qed simp

declare find_and_delete_loop.simps [simp del]

definition FindAndDelete :: "bytes \<Rightarrow> bytes \<Rightarrow> nat \<times> bytes" where
  "FindAndDelete script b = (if b = [] then (0, script) else find_and_delete_loop b 0 [] script)"

section \<open>Sign and magnitude\<close>

lemma bit7_iff: "bit (t :: u8) 7 \<longleftrightarrow> 128 \<le> unat t"
  using bit_top_iff [of "unat t" 7] unat_u8_lt [of t] by simp

lemma and_flag_iff:
  fixes t F :: u8
  assumes "\<And>i. bit F i \<longleftrightarrow> i = 7"
  shows "t AND F \<noteq> 0 \<longleftrightarrow> bit t 7"
proof
  assume "t AND F \<noteq> 0"
  then obtain i where "bit (t AND F) i" by (metis bit_eqI bit_0_eq bot_apply bot_bool_def)
  then show "bit t 7" by (auto simp: bit_and_iff assms)
next
  assume "bit t 7"
  then have "bit (t AND F) 7" by (simp add: bit_and_iff assms)
  then show "t AND F \<noteq> 0" by auto
qed

lemma and_0x80_iff: "t AND 0x80 \<noteq> 0 \<longleftrightarrow> 128 \<le> unat (t :: u8)"
  unfolding bit7_iff [symmetric] by (rule and_flag_iff) (rule bit_0x80)

lemma unat_and_0x7f: "unat ((t :: u8) AND 0x7f) = unat t mod 128"
proof -
  have "unat (take_bit 7 t) = take_bit 7 (unat t)" by (rule unsigned_take_bit_eq)
  then show ?thesis unfolding mask7 take_bit_eq_mask [symmetric] by (simp only: take_bit_eq_mod) simp
qed

lemma and_0x7f_iff: "t AND 0x7f = 0 \<longleftrightarrow> unat (t :: u8) mod 128 = 0"
  using unat_and_0x7f [of t] by (metis unat_eq_0)

lemma unat_or_0x80: "unat t < 128 \<Longrightarrow> unat ((t :: u8) OR 0x80) = unat t + 128"
proof -
  assume t: "unat t < 128"
  have "t AND 0x80 = 0" using t and_0x80_iff [of t] by linarith
  then have "t OR 0x80 = t + 0x80" by (simp add: disjunctive_add_eq_or)
  with t show ?thesis by (simp add: unat_word_ariths)
qed

lemma le_nat_append: "le_nat (xs @ ys) = le_nat xs + 256 ^ length xs * le_nat ys"
  by (induction xs) (simp_all add: algebra_simps)

lemma set_vch_snoc:
  "set_vch (xs @ [t]) =
     (if 128 \<le> unat t then - int (le_nat xs + 256 ^ length xs * (unat t - 128))
      else int (le_nat xs + 256 ^ length xs * unat t))"
proof -
  let ?k = "8 * length xs + 7" and ?v = "le_nat xs + 256 ^ length xs * unat t"
  have p: "(256::nat) ^ length xs = 2 ^ (8 * length xs)" by (simp add: power_mult)
  have "?v div 256 ^ length xs = unat t" using le_nat_lt [of xs] by simp
  then have "?v div 2 ^ ?k = unat t div 128" by (simp add: p power_add div_mult2_eq)
  then have b: "bit ?v ?k" if "128 \<le> unat t"
  proof -
    have "unat t div 128 = 1" using that unat_u8_lt [of t] by (intro div_nat_eqI) simp_all
    with \<open>?v div 2 ^ ?k = unat t div 128\<close> show ?thesis by (simp only: bit_iff_odd) simp
  qed
  have m: "push_bit (8 * (length (xs @ [t]) - 1)) (0x80 :: int) = push_bit ?k 1"
    by (simp add: push_bit_eq_mult power_add)
  have "int ?v AND NOT (push_bit ?k 1) = int ?v - 2 ^ ?k" if "128 \<le> unat t"
  proof -
    have "unset_bit ?k (int ?v) = int ?v - 2 ^ ?k"
      using b [OF that] by (simp only: unset_bit_eq bit_of_nat_iff_bit) simp
    then show ?thesis by (simp only: unset_bit_eq_and_not)
  qed
  moreover have "int ?v - 2 ^ ?k = int (le_nat xs + 256 ^ length xs * (unat t - 128))" if "128 \<le> unat t"
  proof -
    have "int (unat t - 128) = int (unat t) - 128" using that by (simp only: of_nat_diff of_nat_numeral)
    moreover have "(2::int) ^ ?k = 256 ^ length xs * 128" by (simp add: power_add power_mult)
    ultimately show ?thesis by (simp only: of_nat_add of_nat_mult of_nat_power of_nat_numeral right_diff_distrib add_diff_eq)
  qed
  ultimately have "- (int ?v AND NOT (push_bit ?k 1)) = - int (le_nat xs + 256 ^ length xs * (unat t - 128))"
    if "128 \<le> unat t" using that by metis
  then show ?thesis
    unfolding set_vch_def m Let_def last_snoc and_0x80_iff le_nat_append le_nat.simps mult_0_right add_0_right
    by simp
qed

lemma abs_bytes_0 [simp]: "abs_bytes 0 = []"
  by (simp add: abs_bytes.simps)

lemma le_nat_abs_bytes: "le_nat (abs_bytes m) = m"
  by (induction m rule: abs_bytes.induct) (subst abs_bytes.simps, simp add: unsigned_of_nat take_bit_eq_mod)

lemma abs_bytes_le_nat: "xs = [] \<or> last xs \<noteq> 0 \<Longrightarrow> abs_bytes (le_nat xs) = xs"
proof (induction xs)
  case Nil
  then show ?case by (simp add: abs_bytes.simps)
next
  case (Cons x xs)
  have "le_nat (x # xs) \<noteq> 0"
  proof (cases "xs = []")
    case True
    with Cons show ?thesis by (simp add: unat_eq_0)
  next
    case False
    with Cons have "abs_bytes (le_nat xs) \<noteq> []" by simp
    then have "le_nat xs \<noteq> 0" by (metis abs_bytes_0)
    then show ?thesis by simp
  qed
  moreover have "(unat x + 256 * le_nat xs) mod 256 = unat x" "(unat x + 256 * le_nat xs) div 256 = le_nat xs"
    using unat_u8_lt [of x] by simp_all
  moreover have "abs_bytes (le_nat xs) = xs" using Cons by (auto split: if_splits)
  ultimately show ?case by (subst abs_bytes.simps) simp
qed

lemma abs_bytes_last: "0 < m \<Longrightarrow> abs_bytes m \<noteq> [] \<and> last (abs_bytes m) \<noteq> 0"
proof (induction m rule: abs_bytes.induct)
  case (1 m)
  show ?case
  proof (cases "m < 256")
    case True
    then have "unat (of_nat m :: u8) = m" by (simp add: unsigned_of_nat take_bit_nat_eq_self)
    then have "(of_nat m :: u8) \<noteq> 0" using 1(2) by (metis less_irrefl unat_0)
    with True 1(2) show ?thesis by (subst (1 2) abs_bytes.simps) simp
  next
    case False
    then have "0 < m div 256" by simp
    with 1 show ?thesis by (subst (1 2) abs_bytes.simps) simp
  qed
qed

definition minimal_num :: "bytes \<Rightarrow> bool" where
  "minimal_num b \<longleftrightarrow> b = [] \<or> \<not> (last b AND 0x7f = 0 \<and> (length b \<le> 1 \<or> (b ! (length b - 2)) AND 0x80 = 0))"

lemma minimal_snoc:
  "minimal_num (xs @ [t]) \<longleftrightarrow> unat t mod 128 \<noteq> 0 \<or> (\<exists>ys u. xs = ys @ [u] \<and> 128 \<le> unat u)"
proof -
  have "length xs \<noteq> 0 \<Longrightarrow> (xs @ [t]) ! (length xs - 1) = last xs"
    by (simp add: nth_append last_conv_nth)
  moreover have "(\<exists>ys u. xs = ys @ [u] \<and> 128 \<le> unat u) \<longleftrightarrow> xs \<noteq> [] \<and> 128 \<le> unat (last xs)"
    by (metis append_butlast_last_id last_snoc snoc_eq_iff_butlast)
  ultimately show ?thesis
    using and_0x80_iff [of "last xs"] by (auto simp: minimal_num_def and_0x7f_iff)
qed

lemma abs_bytes_snoc:
  assumes "0 < m"
  obtains xs t where "abs_bytes m = xs @ [t]" "0 < unat t" "m = le_nat xs + 256 ^ length xs * unat t"
proof -
  obtain xs t where xs: "abs_bytes m = xs @ [t]" "t \<noteq> 0"
    using abs_bytes_last [OF assms] by (metis append_butlast_last_id last_snoc)
  moreover from xs(1) have "m = le_nat xs + 256 ^ length xs * unat t"
    using le_nat_abs_bytes [of m] by (simp add: le_nat_append)
  ultimately show ?thesis using that by (simp add: unat_gt_0)
qed

lemma serialize_sound:
  assumes "n \<noteq> 0"
  shows "set_vch (serialize n) = n \<and> minimal_num (serialize n)"
proof -
  obtain xs t where xt: "abs_bytes (nat \<bar>n\<bar>) = xs @ [t]" "0 < unat t" "nat \<bar>n\<bar> = le_nat xs + 256 ^ length xs * unat t"
    using abs_bytes_snoc [of "nat \<bar>n\<bar>"] assms by auto
  have n: "n = (if n < 0 then - int (nat \<bar>n\<bar>) else int (nat \<bar>n\<bar>))" by simp
  show ?thesis
  proof (cases "128 \<le> unat t")
    case True
    then have s: "serialize n = (xs @ [t]) @ [if n < 0 then 0x80 else 0]"
      using assms xt(1) by (simp add: serialize_def Let_def and_0x80_iff)
    have "set_vch (serialize n) = n"
      using le_nat_abs_bytes [of "nat \<bar>n\<bar>"] unfolding s set_vch_snoc xt(1) by (cases "n < 0") simp_all
    moreover have "minimal_num (serialize n)" unfolding s minimal_snoc using True by blast
    ultimately show ?thesis ..
  next
    case False
    then have s: "serialize n = xs @ [if n < 0 then t OR 0x80 else t]"
      using assms xt(1) and_0x80_iff [of t] by (simp add: serialize_def Let_def)
    have u: "unat (t OR 0x80) = unat t + 128" using False by (intro unat_or_0x80) simp
    have "set_vch (serialize n) = n"
    proof (cases "n < 0")
      case True
      then have "set_vch (serialize n) = - int (nat \<bar>n\<bar>)" unfolding s set_vch_snoc xt(3) by (simp add: u)
      with True show ?thesis by simp
    next
      case pos: False
      then have "set_vch (serialize n) = int (nat \<bar>n\<bar>)" unfolding s set_vch_snoc xt(3) using False by simp
      with pos show ?thesis by simp
    qed
    moreover have "minimal_num (serialize n)"
      unfolding s minimal_snoc using False u xt(2) by simp
    ultimately show ?thesis ..
  qed
qed

lemma serialize_magnitude:
  "M \<noteq> 0 \<Longrightarrow> serialize (if sg then - int M else int M) =
     (let r = abs_bytes M
      in if last r AND 0x80 \<noteq> 0 then r @ [if sg then 0x80 else 0]
         else if sg then butlast r @ [last r OR 0x80] else r)"
  by (cases sg) (simp_all add: serialize_def Let_def)

lemma serialize_complete:
  assumes "minimal_num b"
  shows "serialize (set_vch b) = b"
proof (cases b rule: rev_cases)
  case Nil
  then show ?thesis by (simp add: set_vch_def serialize_def)
next
  case (snoc xs t)
  let ?q = "unat t mod 128"
  let ?M = "le_nat xs + 256 ^ length xs * ?q"
  have q: "(if 128 \<le> unat t then unat t - 128 else unat t) = ?q"
    using unat_u8_lt [of t] by (simp add: mod_if)
  then have v: "set_vch b = (if 128 \<le> unat t then - int ?M else int ?M)"
    unfolding snoc set_vch_snoc by (metis (full_types))
  show ?thesis
  proof (cases "?q = 0")
    case False
    define u :: u8 where "u = of_nat ?q"
    have u: "unat u = ?q" unfolding u_def by (simp add: unsigned_of_nat take_bit_nat_eq_self)
    then have lt: "unat u < 128" "u \<noteq> 0" using False by auto
    have M: "?M = le_nat (xs @ [u])" by (simp add: le_nat_append u)
    then have r: "abs_bytes ?M = xs @ [u]" using lt by (simp only: M abs_bytes_le_nat last_snoc simp_thms)
    then have M0: "?M \<noteq> 0" by (metis abs_bytes_0 snoc_eq_iff_butlast)
    have "t = u OR 0x80" if "128 \<le> unat t"
    proof -
      have "unat t = ?q + 128" using q that by simp
      then show ?thesis using unat_or_0x80 [OF lt(1)] u by (simp add: word_unat_eq_iff)
    qed
    moreover have "t = u" if "\<not> 128 \<le> unat t" using that q u by (simp add: word_unat_eq_iff)
    ultimately show ?thesis
      using lt(1) and_0x80_iff [of u] unfolding v serialize_magnitude [OF M0] r by (auto simp: Let_def snoc)
  next
    case True
    then obtain ys u where xs: "xs = ys @ [u]" "128 \<le> unat u" using assms unfolding snoc minimal_snoc by metis
    then have "u \<noteq> 0" by auto
    then have r: "abs_bytes ?M = xs" using True xs(1) abs_bytes_le_nat [of xs] by simp
    then have M0: "?M \<noteq> 0" using xs(1) by (metis abs_bytes_0 snoc_eq_iff_butlast)
    have "t = (if 128 \<le> unat t then 0x80 else 0)"
      using q True by (auto simp: word_unat_eq_iff split: if_splits)
    then show ?thesis
      using xs and_0x80_iff [of u] unfolding v serialize_magnitude [OF M0] r by (simp add: Let_def snoc)
  qed
qed

lemma set_vch_abs: "\<bar>set_vch (xs @ [t])\<bar> = int (le_nat xs + 256 ^ length xs * (unat t mod 128))"
proof (cases "128 \<le> unat t")
  case True
  then have "unat t mod 128 = unat t - 128" using unat_u8_lt [of t] by (simp add: mod_if)
  with True show ?thesis by (simp only: set_vch_snoc if_True abs_minus_cancel abs_of_nat)
next
  case False
  then have "unat t mod 128 = unat t" by simp
  with False show ?thesis by (simp only: set_vch_snoc if_False abs_of_nat)
qed

lemma num_size_iff:
  assumes "minimal_num b"
  shows "length b \<le> 4 \<longleftrightarrow> \<bar>set_vch b\<bar> < 2 ^ 31"
proof (cases b rule: rev_cases)
  case (snoc xs t)
  let ?M = "le_nat xs + 256 ^ length xs * (unat t mod 128)"
  have "?M < 2147483648" if "length b \<le> 4"
  proof -
    have "?M < 256 ^ length xs * 128" by (rule mod_mult_add_lt) (use le_nat_lt [of xs] in simp_all)
    also have "\<dots> \<le> 256 ^ 3 * 128" using that snoc by (intro mult_le_mono1 power_increasing) simp_all
    finally show ?thesis by simp
  qed
  moreover have "2147483648 \<le> ?M" if len: "\<not> length b \<le> 4"
  proof (cases "unat t mod 128 = 0")
    case False
    have "(2147483648::nat) \<le> 256 ^ 4 * 1" by simp
    also have "\<dots> \<le> 256 ^ length xs * (unat t mod 128)"
      using len snoc False by (intro mult_le_mono power_increasing) simp_all
    finally show ?thesis by simp
  next
    case True
    then obtain ys u where xs: "xs = ys @ [u]" "128 \<le> unat u" using assms unfolding snoc minimal_snoc by metis
    have "(2147483648::nat) = 256 ^ 3 * 128" by simp
    also have "\<dots> \<le> 256 ^ length ys * unat u"
      using len snoc xs by (intro mult_le_mono power_increasing) simp_all
    also have "\<dots> \<le> le_nat xs" unfolding xs(1) le_nat_append by simp
    finally show ?thesis by simp
  qed
  ultimately have "length b \<le> 4 \<longleftrightarrow> ?M < 2147483648" by (metis not_le)
  then show ?thesis unfolding snoc set_vch_abs by (simp only: of_nat_less_iff [symmetric, where 'a = int]) simp
qed (simp add: set_vch_def)

lemma CScriptNum_minimal_iff:
  "CScriptNum b True = Inr n \<longleftrightarrow> \<bar>n\<bar> < 2 ^ 31 \<and> b = serialize n"
proof
  assume "CScriptNum b True = Inr n"
  then have "minimal_num b" "length b \<le> 4" "n = set_vch b"
    by (auto simp: CScriptNum_def minimal_num_def nMaxNumSize_def split: if_splits)
  then show "\<bar>n\<bar> < 2 ^ 31 \<and> b = serialize n"
    using num_size_iff [of b] serialize_complete [of b] by simp
next
  assume n: "\<bar>n\<bar> < 2 ^ 31 \<and> b = serialize n"
  have "minimal_num b" "set_vch b = n"
    using n serialize_sound [of n] by (cases "n = 0"; simp add: serialize_def minimal_num_def set_vch_def)+
  moreover from this have "length b \<le> 4" using n num_size_iff [of b] by simp
  ultimately show "CScriptNum b True = Inr n"
    by (auto simp: CScriptNum_def minimal_num_def nMaxNumSize_def)
qed

section \<open>Decoding pushes\<close>

lemma GetOp_push_data:
  assumes "length b < 2 ^ 32"
  shows "\<exists>op. op \<le> OP_PUSHDATA4 \<and> GetOp (push_data b @ rest) = (True, op, b, rest)"
proof -
  have small: "unat (of_nat n :: u8) = n" if "n < 256" for n
    using that by (simp add: unsigned_of_nat take_bit_nat_eq_self)
  consider "length b < 76" | "76 \<le> length b" "length b \<le> 0xff" | "0xff < length b" "length b \<le> 0xffff"
    | "0xffff < length b" by linarith
  then show ?thesis
  proof cases
    case 1
    then have "(of_nat (length b) :: u8) < 76" by (simp add: word_less_nat_alt small)
    moreover from this have "(of_nat (length b) :: u8) \<le> 78" by (simp add: word_less_nat_alt word_le_nat_alt)
    ultimately show ?thesis using 1 by (simp add: push_data_def push_size_def small)
  next
    case 2
    then show ?thesis by (simp add: push_data_def push_size_def small)
  next
    case 3
    then show ?thesis by (simp add: push_data_def push_size_def le_nat_le_bytes del: le_bytes.simps)
  next
    case 4
    then show ?thesis using assms by (simp add: push_data_def push_size_def le_nat_le_bytes del: le_bytes.simps)
  qed
qed

lemma IsPushOnly_push: "length b < 2 ^ 32 \<Longrightarrow> IsPushOnly (push_data b @ rest) = IsPushOnly rest"
proof -
  assume b: "length b < 2 ^ 32"
  have "push_data b @ rest \<noteq> []" by (simp add: push_data_def)
  moreover obtain op where "op \<le> OP_PUSHDATA4" "GetOp (push_data b @ rest) = (True, op, b, rest)"
    using GetOp_push_data [OF b] by blast
  ultimately show ?thesis by (subst IsPushOnly.simps) (auto simp: word_le_nat_alt word_less_nat_alt)
qed

section \<open>Theorems\<close>

text \<open>
  Script numbers: with minimality required, the constructor accepts exactly the
  encodings that \<^verbatim>\<open>serialize\<close> gives of the integers from \<open>- 2 ^ 31 + 1\<close> to
  \<open>2 ^ 31 - 1\<close>, and returns that integer; so decoding inverts encoding, the encoding is
  unique, and a result outside the range is encoded but rejected as an operand.
\<close>

theorem CScriptNum_exact:
  "(CScriptNum b True = Inr n \<longleftrightarrow> \<bar>n\<bar> < 2 ^ 31 \<and> b = serialize n)
   \<and> set_vch (serialize m) = m \<and> (CScriptNum (serialize m) True = Inl ScriptNumOverflow \<longleftrightarrow> 2 ^ 31 \<le> \<bar>m\<bar>)"
proof -
  have m: "set_vch (serialize m) = m" "minimal_num (serialize m)"
    using serialize_sound [of m] by (cases "m = 0"; simp add: serialize_def set_vch_def minimal_num_def)+
  then have "length (serialize m) \<le> 4 \<longleftrightarrow> \<bar>m\<bar> < 2 ^ 31" using num_size_iff by metis
  then have "CScriptNum (serialize m) True = Inl ScriptNumOverflow \<longleftrightarrow> 2 ^ 31 \<le> \<bar>m\<bar>"
    by (auto simp: CScriptNum_def nMaxNumSize_def)
  with m(1) show ?thesis by (simp add: CScriptNum_minimal_iff)
qed

text \<open>
  A data push built by \<^verbatim>\<open>operator<<\<close> decodes to the same data whatever follows it,
  through every width of length prefix, and a script of pushes is push-only.
\<close>

theorem push_roundtrip:
  assumes "length b < 2 ^ 32"
  shows "(\<exists>op. op \<le> OP_PUSHDATA4 \<and> GetOp (push_data b @ rest) = (True, op, b, rest))
     \<and> IsPushOnly (push_data b @ rest) = IsPushOnly rest"
  using GetOp_push_data [OF assms] IsPushOnly_push [OF assms] by blast

theorem push_roundtrip_witness:
  "IsPushOnly (push_data (replicate 300 0) @ [0x51]) = IsPushOnly [0x51]"
  using push_roundtrip [of "replicate 300 0" "[0x51]"] by simp

end
