(* ===== verification/Compressor.thy ===== *)
theory Compressor
  imports Transaction Script
begin

text \<open>
  The compact encoding of transaction outputs in the coin database
  (\<^verbatim>\<open>src/compressor.cpp\<close>, \<^verbatim>\<open>src/compressor.h\<close>): amounts, the six special
  scripts, and the output wrapper. Public-key validity and point decompression belong to the
  elliptic-curve library; they are the parameters \<open>IsFullyValid\<close> and \<open>EC_Decompress\<close>, and
  \<open>ec_law\<close> states what the code relies on.
\<close>

section \<open>Amounts\<close>

function strip_zeros :: "u64 \<Rightarrow> nat \<Rightarrow> u64 \<times> nat" where
  "strip_zeros n e = (if n mod 10 = 0 \<and> e < 9 then strip_zeros (n div 10) (e + 1) else (n, e))"
  by pat_completeness auto
termination by (relation "measure (\<lambda>(n, e). 9 - e)") auto

declare strip_zeros.simps [simp del]

definition CompressAmount :: "u64 \<Rightarrow> u64 option" where
  "CompressAmount n =
     (if n = 0 then Some 0
      else case strip_zeros n 0 of (n, e) \<Rightarrow>
        if e < 9
        then let d = n mod 10
             in if 1 \<le> d \<and> d \<le> 9 then Some (1 + (n div 10 * 9 + d - 1) * 10 + of_nat e) else None
        else Some (1 + (n - 1) * 10 + 9))"

fun scale10 :: "nat \<Rightarrow> u64 \<Rightarrow> u64" where
  "scale10 0 n = n"
| "scale10 (Suc e) n = scale10 e (n * 10)"

definition DecompressAmount :: "u64 \<Rightarrow> u64" where
  "DecompressAmount x =
     (if x = 0 then 0
      else let x = x - 1; e = unat (x mod 10); x = x div 10
           in scale10 e (if e < 9 then x div 9 * 10 + (x mod 9 + 1) else x + 1))"

section \<open>Scripts\<close>

definition IsToKeyID :: "bytes \<Rightarrow> bytes option" where
  "IsToKeyID script =
     (if length script = 25 \<and> script ! 0 = OP_DUP \<and> script ! 1 = OP_HASH160 \<and> script ! 2 = 20
         \<and> script ! 23 = OP_EQUALVERIFY \<and> script ! 24 = OP_CHECKSIG
      then Some (take 20 (drop 3 script)) else None)"

definition IsToScriptID :: "bytes \<Rightarrow> bytes option" where
  "IsToScriptID script =
     (if length script = 23 \<and> script ! 0 = OP_HASH160 \<and> script ! 1 = 20 \<and> script ! 22 = OP_EQUAL
      then Some (take 20 (drop 2 script)) else None)"

definition IsToPubKey :: "(bytes \<Rightarrow> bool) \<Rightarrow> bytes \<Rightarrow> bytes option" where
  "IsToPubKey IsFullyValid script =
     (if length script = 35 \<and> script ! 0 = 33 \<and> script ! 34 = OP_CHECKSIG \<and> (script ! 1 = 0x02 \<or> script ! 1 = 0x03)
      then Some (take 33 (drop 1 script))
      else if length script = 67 \<and> script ! 0 = 65 \<and> script ! 66 = OP_CHECKSIG \<and> script ! 1 = 0x04
      then let pubkey = take 65 (drop 1 script) in if IsFullyValid pubkey then Some pubkey else None
      else None)"

definition Compress :: "(bytes \<Rightarrow> bool) \<Rightarrow> bytes \<Rightarrow> bytes option" where
  "Compress IsFullyValid script =
     (case IsToKeyID script of Some keyID \<Rightarrow> Some (0x00 # keyID)
      | None \<Rightarrow> (case IsToScriptID script of Some scriptID \<Rightarrow> Some (0x01 # scriptID)
      | None \<Rightarrow> (case IsToPubKey IsFullyValid script of
          Some pubkey \<Rightarrow>
            if pubkey ! 0 = 0x02 \<or> pubkey ! 0 = 0x03 then Some (pubkey ! 0 # take 32 (drop 1 pubkey))
            else if pubkey ! 0 = 0x04 then Some ((0x04 OR (pubkey ! 64 AND 0x01)) # take 32 (drop 1 pubkey))
            else None
      | None \<Rightarrow> None)))"

definition GetSpecialSize :: "nat \<Rightarrow> nat" where
  "GetSpecialSize nSize =
     (if nSize = 0 \<or> nSize = 1 then 20 else if nSize = 2 \<or> nSize = 3 \<or> nSize = 4 \<or> nSize = 5 then 32 else 0)"

definition Decompress :: "(bytes \<Rightarrow> bytes option) \<Rightarrow> nat \<Rightarrow> bytes \<Rightarrow> bytes option" where
  "Decompress EC_Decompress nSize inp =
     (if nSize = 0x00 then Some ([OP_DUP, OP_HASH160, 20] @ take 20 inp @ [OP_EQUALVERIFY, OP_CHECKSIG])
      else if nSize = 0x01 then Some ([OP_HASH160, 20] @ take 20 inp @ [OP_EQUAL])
      else if nSize = 0x02 \<or> nSize = 0x03 then Some ([33, of_nat nSize] @ take 32 inp @ [OP_CHECKSIG])
      else if nSize = 0x04 \<or> nSize = 0x05
      then (case EC_Decompress (of_nat (nSize - 2) # take 32 inp) of
              None \<Rightarrow> None | Some pubkey \<Rightarrow> Some ([65] @ pubkey @ [OP_CHECKSIG]))
      else None)"

definition nSpecialScripts :: nat where "nSpecialScripts = 6"

definition script_compressor_size :: "(bytes \<Rightarrow> bool) \<Rightarrow> bytes \<Rightarrow> nat" where
  "script_compressor_size IsFullyValid script =
     (case Compress IsFullyValid script of Some compr \<Rightarrow> length compr
      | None \<Rightarrow> length script + GetSizeOfVarInt (of_nat (length script + nSpecialScripts) :: u32))"

definition script_compressor_serialize :: "(bytes \<Rightarrow> bool) \<Rightarrow> bytes \<Rightarrow> bytes" where
  "script_compressor_serialize IsFullyValid script =
     (case Compress IsFullyValid script of Some compr \<Rightarrow> compr
      | None \<Rightarrow> WriteVarInt (of_nat (length script + nSpecialScripts) :: u32) @ script)"

text \<open>
  The result of \<^verbatim>\<open>Decompress\<close> is ignored by \<^verbatim>\<open>Unserialize\<close>: when it fails the
  script keeps its former value, the first argument here.
\<close>

definition script_compressor_unserialize :: "(bytes \<Rightarrow> bytes option) \<Rightarrow> bytes \<Rightarrow> bytes reader" where
  "script_compressor_unserialize EC_Decompress old is =
     bindE (ReadVarInt is) (\<lambda>(nSize :: u32, is).
       if unat nSize < nSpecialScripts
       then bindE (stream_read (GetSpecialSize (unat nSize)) is) (\<lambda>(buf, is).
              Inr (case Decompress EC_Decompress (unat nSize) buf of Some s \<Rightarrow> s | None \<Rightarrow> old, is))
       else stream_read (unat nSize - nSpecialScripts) is)"

section \<open>Outputs\<close>

definition txout_compressor_serialize :: "(bytes \<Rightarrow> bool) \<Rightarrow> CTxOut \<Rightarrow> bytes option" where
  "txout_compressor_serialize IsFullyValid txout =
     map_option (\<lambda>nVal. WriteVarInt nVal @ script_compressor_serialize IsFullyValid (scriptPubKey txout))
       (CompressAmount (word_of_int (nValue txout)))"

definition txout_compressor_unserialize :: "(bytes \<Rightarrow> bytes option) \<Rightarrow> CTxOut \<Rightarrow> CTxOut reader" where
  "txout_compressor_unserialize EC_Decompress old is =
     bindE (ReadVarInt is) (\<lambda>(nVal, is).
     bindE (script_compressor_unserialize EC_Decompress (scriptPubKey old) is) (\<lambda>(script, is).
       Inr (\<lparr>nValue = sint (DecompressAmount nVal), scriptPubKey = script\<rparr>, is)))"

section \<open>Amount round trip\<close>

lemma unat_div10: "unat ((n :: u64) div 10) = unat n div 10" "unat ((n :: u64) mod 10) = unat n mod 10"
  by (simp_all add: unat_div unat_mod)

lemma strip_zeros_spec:
  assumes "strip_zeros n e = (m, f)" and "e \<le> 9"
  shows "e \<le> f \<and> f \<le> 9 \<and> unat n = unat m * 10 ^ (f - e) \<and> (f < 9 \<longrightarrow> unat m mod 10 \<noteq> 0)"
  using assms
proof (induction n e rule: strip_zeros.induct)
  case (1 n e)
  have z: "n mod 10 = 0 \<longleftrightarrow> unat n mod 10 = 0" by (metis unat_div10(2) unat_eq_0)
  show ?case
  proof (cases "n mod 10 = 0 \<and> e < 9")
    case True
    then have "strip_zeros (n div 10) (e + 1) = (m, f)" using 1(2) by (subst (asm) strip_zeros.simps) simp
    then have ih: "Suc e \<le> f" "f \<le> 9" "unat n div 10 = unat m * 10 ^ (f - Suc e)" "f < 9 \<longrightarrow> unat m mod 10 \<noteq> 0"
      using 1(1) [OF True] True by (auto simp: unat_div10)
    have "unat n = 10 * (unat n div 10)" using True z by auto
    also have "\<dots> = unat m * 10 ^ Suc (f - Suc e)" using ih(3) by simp
    also have "Suc (f - Suc e) = f - e" using ih(1) by simp
    finally show ?thesis using ih by simp
  next
    case False
    then have "m = n" "f = e" using 1(2) by (subst (asm) strip_zeros.simps; simp)+
    with False 1(3) z show ?thesis by auto
  qed
qed

lemma scale10_value: "unat n * 10 ^ e < 2 ^ 64 \<Longrightarrow> unat (scale10 e n) = unat n * 10 ^ e"
proof (induction e arbitrary: n)
  case (Suc e)
  have "unat n * 10 \<le> unat n * 10 * 10 ^ e" by simp
  also have "\<dots> < 2 ^ 64" using Suc.prems by (simp only: power_Suc mult.assoc)
  finally have "unat (n * 10) = unat n * 10" by (simp add: unat_word_ariths)
  with Suc show ?case by (simp add: mult.assoc)
qed simp

lemma unat_code_word:
  assumes "unat (k :: u64) = v" "v < 1152921504606846986" "e \<le> 9"
  shows "unat (1 + k * 10 + of_nat e) = 1 + v * 10 + e"
proof -
  have "unat (of_nat e :: u64) = e" using assms(3) by (simp add: unsigned_of_nat take_bit_nat_eq_self)
  with assms show ?thesis by (simp add: unat_word_ariths)
qed

lemma CompressAmount_value:
  assumes "unat n = m * 10 ^ e" "0 < m" "e \<le> 9" "unat n < 2 ^ 60" "strip_zeros n 0 = (w, e)" "unat w = m"
    and "e < 9 \<longrightarrow> m mod 10 \<noteq> 0"
  shows "\<exists>x. CompressAmount n = Some x
     \<and> unat x = (if e < 9 then 1 + (m div 10 * 9 + m mod 10 - 1) * 10 + e else 1 + (m - 1) * 10 + 9)"
proof -
  have n0: "n \<noteq> 0" using assms(1,2) by auto
  have "m \<le> unat n" using assms(1) by simp
  with assms(4) have m: "m < 1152921504606846976" by simp
  show ?thesis
  proof (cases "e < 9")
    case True
    let ?d = "w mod 10"
    have d: "unat ?d = m mod 10" "1 \<le> unat ?d" "unat ?d \<le> 9"
      using True assms(6,7) by (simp_all add: unat_div10 Suc_le_eq)
    then have dd: "1 \<le> ?d" "?d \<le> 9" by (simp_all add: word_le_nat_alt)
    have q: "unat (w div 10 * 9 + ?d) = m div 10 * 9 + m mod 10"
      using m d assms(6) by (simp add: unat_word_ariths unat_div10)
    have "w div 10 * 9 + ?d \<noteq> 0" using q d by auto
    then have "unat (w div 10 * 9 + ?d - 1) = m div 10 * 9 + m mod 10 - 1"
      unfolding q [symmetric] by (rule unat_minus_one)
    then have "unat (1 + (w div 10 * 9 + ?d - 1) * 10 + of_nat e) = 1 + (m div 10 * 9 + m mod 10 - 1) * 10 + e"
      using m True by (intro unat_code_word) auto
    then show ?thesis using n0 assms(5) True dd by (simp add: CompressAmount_def Let_def)
  next
    case False
    have "w \<noteq> 0" using assms(2,6) by auto
    then have "unat (w - 1) = m - 1" unfolding assms(6) [symmetric] by (rule unat_minus_one)
    then have "unat (1 + (w - 1) * 10 + 9) = 1 + (m - 1) * 10 + 9"
      using m unat_code_word [of "w - 1" "m - 1" 9] by simp
    then show ?thesis using n0 assms(5) False by (simp add: CompressAmount_def Let_def)
  qed
qed

lemma DecompressAmount_value:
  assumes "unat x = 1 + 10 * y + e" "e \<le> 9"
  shows "DecompressAmount x = scale10 e (if e < 9 then of_nat (y div 9 * 10 + (y mod 9 + 1)) else of_nat (y + 1))"
proof -
  have x0: "x \<noteq> 0" using assms(1) by auto
  then have x1: "unat (x - 1) = 10 * y + e" using assms(1) unat_minus_one [OF x0] by simp
  have y: "unat ((x - 1) div 10) = y" "unat ((x - 1) mod 10) = e"
    using assms(2) by (simp_all add: unat_div10 x1)
  have w: "z = of_nat (unat z)" for z :: u64 by simp
  have "(x - 1) div 10 = of_nat y" using w [of "(x - 1) div 10"] unfolding y(1) .
  moreover have "(x - 1) div 10 div 9 = of_nat (y div 9)" "(x - 1) div 10 mod 9 = of_nat (y mod 9)"
    using w [of "(x - 1) div 10 div 9"] w [of "(x - 1) div 10 mod 9"]
    unfolding unat_div [of _ 9] unat_mod [of _ 9] y(1) by simp_all
  ultimately show ?thesis using x0 unfolding DecompressAmount_def Let_def y(2) by (simp add: algebra_simps)
qed

lemma amount_roundtrip:
  assumes "unat n < 2 ^ 60"
  shows "\<exists>x. CompressAmount n = Some x \<and> DecompressAmount x = n"
proof (cases "n = 0")
  case True
  then show ?thesis by (simp add: CompressAmount_def DecompressAmount_def)
next
  case False
  obtain w e where we: "strip_zeros n 0 = (w, e)" by force
  define m where "m = unat w"
  have sp: "e \<le> 9" "unat n = m * 10 ^ e" "e < 9 \<longrightarrow> m mod 10 \<noteq> 0"
    using strip_zeros_spec [OF we] by (simp_all add: m_def)
  have m0: "0 < m" using sp(2) False by (cases m) (auto simp: unat_eq_0)
  obtain x where x: "CompressAmount n = Some x"
    "unat x = (if e < 9 then 1 + (m div 10 * 9 + m mod 10 - 1) * 10 + e else 1 + (m - 1) * 10 + 9)"
    using CompressAmount_value [OF sp(2) m0 sp(1) assms we _ sp(3)] m_def by blast
  have "DecompressAmount x = scale10 e (of_nat m)"
  proof (cases "e < 9")
    case True
    let ?y = "m div 10 * 9 + (m mod 10 - 1)"
    have mm: "0 < m mod 10" using sp(3) True by simp
    then have "unat x = 1 + 10 * ?y + e" using x(2) True by simp
    moreover have "(a * 9 + z) div 9 = a" "(a * 9 + z) mod 9 = z" if "z < 9" for a z :: nat
      using that by auto
    note this [of "m mod 10 - 1" "m div 10"]
    then have "?y div 9 = m div 10" "?y mod 9 = m mod 10 - 1" using mm by auto
    moreover have "m div 10 * 10 + (m mod 10 - 1 + 1) = m" using mm by simp
    ultimately show ?thesis using DecompressAmount_value [of x ?y e] True by simp
  next
    case False
    then have "unat x = 1 + 10 * (m - 1) + e" "m - 1 + 1 = m" using x(2) sp(1) m0 by auto
    then show ?thesis using DecompressAmount_value [of x "m - 1" e] False sp(1) by simp
  qed
  moreover have "unat (of_nat m :: u64) = m" by (simp add: m_def)
  ultimately have "unat (DecompressAmount x) = unat n"
    using scale10_value [of "of_nat m" e] sp(2) unat_u64_lt [of n] by simp
  with x(1) show ?thesis by (auto simp: word_unat_eq_iff)
qed

section \<open>Script round trip\<close>

definition ec_law :: "(bytes \<Rightarrow> bool) \<Rightarrow> (bytes \<Rightarrow> bytes option) \<Rightarrow> bool" where
  "ec_law IsFullyValid EC_Decompress \<longleftrightarrow>
     (\<forall>pk. length pk = 65 \<longrightarrow> pk ! 0 = 0x04 \<longrightarrow> IsFullyValid pk
        \<longrightarrow> EC_Decompress ((if odd (unat (pk ! 64)) then 3 else 2) # take 32 (drop 1 pk)) = Some pk)"

lemma list_frame:
  assumes "length s = a + k + b"
  shows "s = map ((!) s) [0..<a] @ take k (drop a s) @ map (\<lambda>i. s ! (a + k + i)) [0..<b]"
  using assms by (intro nth_equalityI) (auto simp: nth_append)

lemma upt_small: "[0..<1] = [0::nat]" "[0..<2] = [0::nat, 1]" "[0..<3] = [0::nat, 1, 2]"
  by (simp_all add: upt_rec numeral_eq_Suc)

lemma and_1_cases: "(0x04 OR (t AND 0x01) :: u8) = (if odd (unat t) then 5 else 4)"
proof -
  have "t AND 1 = (if odd (unat t) then 1 else 0)" 
    by (auto simp: and_one_eq word_unat_eq_iff unat_mod odd_iff_mod_2_eq_one)
  then show ?thesis by simp
qed

lemma Compress_special:
  assumes "Compress IsFullyValid script = Some c" and law: "ec_law IsFullyValid EC_Decompress"
  shows "c \<noteq> [] \<and> unat (hd c) < 6 \<and> length (tl c) = GetSpecialSize (unat (hd c))
     \<and> Decompress EC_Decompress (unat (hd c)) (tl c) = Some script"
proof -
  consider (keyid) k where "IsToKeyID script = Some k" "c = 0x00 # k"
    | (scriptid) k where "IsToScriptID script = Some k" "c = 0x01 # k"
    | (pubkey) pk where "IsToPubKey IsFullyValid script = Some pk"
        "c = (if pk ! 0 = 0x02 \<or> pk ! 0 = 0x03 then pk ! 0 else 0x04 OR (pk ! 64 AND 0x01)) # take 32 (drop 1 pk)"
        "pk ! 0 = 0x02 \<or> pk ! 0 = 0x03 \<or> pk ! 0 = 0x04"
    using assms(1) by (auto simp: Compress_def split: option.splits if_splits)
  then show ?thesis
  proof cases
    case keyid
    then have s: "length script = 3 + 20 + 2" and h: "script ! 0 = OP_DUP" "script ! 1 = OP_HASH160" "script ! 2 = 20"
        "script ! 23 = OP_EQUALVERIFY" "script ! 24 = OP_CHECKSIG" "k = take 20 (drop 3 script)"
      by (auto simp: IsToKeyID_def split: if_splits)
    from list_frame [OF s] h s keyid(2) show ?thesis
      by (simp add: upt_small Decompress_def GetSpecialSize_def)
  next
    case scriptid
    then have s: "length script = 2 + 20 + 1" and h: "script ! 0 = OP_HASH160" "script ! 1 = 20"
        "script ! 22 = OP_EQUAL" "k = take 20 (drop 2 script)"
      by (auto simp: IsToScriptID_def split: if_splits)
    from list_frame [OF s] h s scriptid(2) show ?thesis
      by (simp add: upt_small Decompress_def GetSpecialSize_def)
  next
    case pubkey
    show ?thesis
    proof (cases "length script = 35 \<and> script ! 0 = 33 \<and> script ! 34 = OP_CHECKSIG \<and> (script ! 1 = 0x02 \<or> script ! 1 = 0x03)")
      case True
      then have pk: "pk = take 33 (drop 1 script)" and s: "length script = 2 + 32 + 1"
        using pubkey(1) by (simp_all add: IsToPubKey_def)
      have p0: "pk ! 0 = script ! 1" and tl: "take 32 (drop 1 pk) = take 32 (drop 2 script)"
        using s by (simp_all add: pk drop_take numeral_2_eq_2)
      from list_frame [OF s] True pubkey(2) p0 tl s show ?thesis
        by (auto simp: upt_small Decompress_def GetSpecialSize_def)
    next
      case False
      then have h: "script ! 0 = 65" "script ! 66 = OP_CHECKSIG" "script ! 1 = 0x04" "IsFullyValid pk"
        and pk: "pk = take 65 (drop 1 script)" and s: "length script = 1 + 65 + 1"
        using pubkey(1) by (auto simp: IsToPubKey_def Let_def split: if_splits)
      have p: "pk ! 0 = 0x04" "length pk = 65" using s h(3) by (simp_all add: pk)
      then have c: "c = (if odd (unat (pk ! 64)) then 5 else 4) # take 32 (drop 1 pk)"
        using pubkey(2) by (simp add: and_1_cases)
      have "EC_Decompress ((if odd (unat (pk ! 64)) then 3 else 2) # take 32 (drop 1 pk)) = Some pk"
        using law p h(4) by (auto simp: ec_law_def)
      moreover have "script = [65] @ pk @ [OP_CHECKSIG]"
        using list_frame [OF s] h(1,2) by (simp add: upt_small pk)
      ultimately show ?thesis
        using p(2) unfolding c by (auto simp: Decompress_def GetSpecialSize_def)
    qed
  qed
qed

lemma ReadVarInt_byte:
  assumes "unat b < 128"
  shows "ReadVarInt (b # rest) = Inr (ucast b :: u32, rest)"
proof -
  have "WriteVarInt (ucast b :: u32) = [b]"
  proof -
    have "ucast b \<le> (0x7F :: u32)" using assms by (simp add: word_le_nat_alt unat_ucast_eq)
    moreover have "(ucast ((ucast b :: u32) AND 0x7F) :: u8) = b AND 0x7F"
      unfolding mask7 by (intro bit_word_eqI) (auto simp: bit_simps)
    moreover have "b AND 0x7F = b" using assms unat_and_0x7f [of b] by (simp add: word_unat_eq_iff)
    ultimately show ?thesis unfolding WriteVarInt_def by (subst varint_tmp.simps) simp
  qed
  then show ?thesis using ReadVarInt_WriteVarInt [of "ucast b :: u32" rest] by simp
qed

lemma script_compressor_roundtrip:
  assumes law: "ec_law IsFullyValid EC_Decompress" and len: "length script + nSpecialScripts < 2 ^ 32"
  shows "script_compressor_unserialize EC_Decompress old
           (script_compressor_serialize IsFullyValid script @ rest) = Inr (script, rest)
     \<and> length (script_compressor_serialize IsFullyValid script) = script_compressor_size IsFullyValid script"
proof (cases "Compress IsFullyValid script")
  case None
  have "unat (of_nat (length script + nSpecialScripts) :: u32) = length script + nSpecialScripts"
    using len by (simp only: unsigned_of_nat take_bit_nat_eq_self) (simp add: take_bit_nat_eq_self)
  with None show ?thesis
    by (simp add: script_compressor_unserialize_def script_compressor_serialize_def script_compressor_size_def
        ReadVarInt_WriteVarInt length_WriteVarInt stream_read_def)
next
  case (Some c)
  note sp = Compress_special [OF Some law]
  then obtain h t where c: "c = h # t" by (cases c) auto
  have "unat (ucast h :: u32) = unat h" using unat_u8_lt [of h] by (simp add: unat_ucast_eq)
  with sp Some c show ?thesis
    by (simp add: script_compressor_unserialize_def script_compressor_serialize_def script_compressor_size_def
        ReadVarInt_byte stream_read_def nSpecialScripts_def)
qed

lemma txout_roundtrip:
  assumes "ec_law IsFullyValid EC_Decompress" and "length (scriptPubKey txout) + nSpecialScripts < 2 ^ 32"
    and "0 \<le> nValue txout" and "nValue txout < 2 ^ 60"
  shows "\<exists>bs. txout_compressor_serialize IsFullyValid txout = Some bs
     \<and> txout_compressor_unserialize EC_Decompress old (bs @ rest) = Inr (txout, rest)"
proof -
  let ?n = "word_of_int (nValue txout) :: u64"
  have u: "unat ?n = nat (nValue txout)"
    using assms(3,4) by (simp add: unsigned_of_int take_bit_int_eq_self nat_take_bit_eq)
  then have "unat ?n < 2 ^ 60" using assms(3,4) by (simp add: nat_less_iff)
  then obtain x where x: "CompressAmount ?n = Some x" "DecompressAmount x = ?n"
    using amount_roundtrip [of ?n] by blast
  have "sint ?n = nValue txout"
    using assms(3,4) by (simp add: signed_of_int signed_take_bit_int_eq_self)
  with x script_compressor_roundtrip [OF assms(1,2), of "scriptPubKey old" rest] show ?thesis
    by (simp add: txout_compressor_serialize_def txout_compressor_unserialize_def ReadVarInt_WriteVarInt)
qed

section \<open>Theorems\<close>

text \<open>
  An output written to the coin database reads back unchanged: for every amount up to
  \<open>2 ^ 60\<close> (the money limit is below \<open>2 ^ 51\<close>) and every script, through every special
  case, whatever object it is read into and whatever data follows, provided the elliptic-curve
  library decompresses the keys it calls fully valid; and the announced size is the length.
\<close>

theorem txout_compressor_roundtrip:
  assumes "ec_law IsFullyValid EC_Decompress" and "length (scriptPubKey txout) + nSpecialScripts < 2 ^ 32"
    and "0 \<le> nValue txout" and "nValue txout < 2 ^ 60"
  shows "(\<exists>bs. txout_compressor_serialize IsFullyValid txout = Some bs
       \<and> txout_compressor_unserialize EC_Decompress old (bs @ rest) = Inr (txout, rest))
     \<and> length (script_compressor_serialize IsFullyValid (scriptPubKey txout))
       = script_compressor_size IsFullyValid (scriptPubKey txout)"
  using txout_roundtrip [OF assms] script_compressor_roundtrip [OF assms(1,2)] by blast

definition ex_key :: bytes where "ex_key = 0x04 # replicate 63 7 @ [9]"

theorem txout_compressor_roundtrip_witness:
  "\<exists>bs. txout_compressor_serialize (\<lambda>pk. pk = ex_key) \<lparr>nValue = 50 * COIN, scriptPubKey = [65] @ ex_key @ [OP_CHECKSIG]\<rparr> = Some bs
     \<and> txout_compressor_unserialize (\<lambda>c. if c = 3 # replicate 32 7 then Some ex_key else None) CTxOut_SetNull (bs @ [1])
       = Inr (\<lparr>nValue = 50 * COIN, scriptPubKey = [65] @ ex_key @ [OP_CHECKSIG]\<rparr>, [1])"
  by (rule txout_compressor_roundtrip [THEN conjunct1])
    (simp_all add: ec_law_def nSpecialScripts_def COIN_def ex_key_def nth_append)

text \<open>
  Amount compression never fails its assertion and is inverted by decompression
  on every amount up to \<open>2 ^ 60\<close>.
\<close>

theorem CompressAmount_inverse:
  assumes "unat n < 2 ^ 60"
  shows "\<exists>x. CompressAmount n = Some x \<and> DecompressAmount x = n"
  using assms by (rule amount_roundtrip)

theorem CompressAmount_inverse_witness:
  "\<exists>x. CompressAmount 2100000000000000 = Some x \<and> DecompressAmount x = 2100000000000000"
  by (rule CompressAmount_inverse) simp

end
