(* ===== verification/Coins.thy ===== *)
theory Coins
  imports Compressor
begin

text \<open>
  Unspent outputs of a transaction (\<^verbatim>\<open>class CCoins\<close> of \<^verbatim>\<open>src/coins.h\<close> and
  \<^verbatim>\<open>src/coins.cpp\<close>), undo records (\<^verbatim>\<open>src/undo.h\<close>) and the encoding of both in
  the coin database.
\<close>

section \<open>Unspent outputs\<close>

record CCoins =
  fCoinBase :: bool
  fCoinStake :: bool
  coins_vout :: "CTxOut list"
  coins_nHeight :: int
  coins_nVersion :: int

definition CCoins_Clear :: CCoins where
  "CCoins_Clear = \<lparr>fCoinBase = False, fCoinStake = False, coins_vout = [], coins_nHeight = 0, coins_nVersion = 0\<rparr>"

fun pop_null :: "CTxOut list \<Rightarrow> CTxOut list" where
  "pop_null [] = []"
| "pop_null (txout # rest) = (if CTxOut_IsNull txout then pop_null rest else txout # rest)"

definition Cleanup :: "CCoins \<Rightarrow> CCoins" where
  "Cleanup c = c\<lparr>coins_vout := rev (pop_null (rev (coins_vout c)))\<rparr>"

definition ClearUnspendable :: "CCoins \<Rightarrow> CCoins" where
  "ClearUnspendable c =
     Cleanup (c\<lparr>coins_vout := map (\<lambda>txout. if IsUnspendable (scriptPubKey txout) then CTxOut_SetNull else txout)
                                (coins_vout c)\<rparr>)"

definition FromTx :: "CTransaction \<Rightarrow> int \<Rightarrow> CCoins" where
  "FromTx tx nHeightIn =
     ClearUnspendable \<lparr>fCoinBase = IsCoinBase tx, fCoinStake = IsCoinStake tx, coins_vout = vout tx,
       coins_nHeight = nHeightIn, coins_nVersion = tx_nVersion tx\<rparr>"

definition IsAvailable :: "CCoins \<Rightarrow> nat \<Rightarrow> bool" where
  "IsAvailable c nPos \<longleftrightarrow> nPos < length (coins_vout c) \<and> \<not> CTxOut_IsNull (coins_vout c ! nPos)"

definition IsPruned :: "CCoins \<Rightarrow> bool" where
  "IsPruned c \<longleftrightarrow> list_all CTxOut_IsNull (coins_vout c)"

definition CCoins_eq :: "CCoins \<Rightarrow> CCoins \<Rightarrow> bool" where
  "CCoins_eq a b \<longleftrightarrow> IsPruned a \<and> IsPruned b \<or> a = b"

section \<open>Undo records and spending\<close>

record CTxInUndo =
  undo_txout :: CTxOut
  undo_fCoinBase :: bool
  undo_fCoinStake :: bool
  undo_nHeight :: u32
  undo_nVersion :: int

definition CTxInUndo_of :: "CTxOut \<Rightarrow> CTxInUndo" where
  "CTxInUndo_of txout = \<lparr>undo_txout = txout, undo_fCoinBase = False, undo_fCoinStake = False,
     undo_nHeight = 0, undo_nVersion = 0\<rparr>"

definition Spend :: "CCoins \<Rightarrow> nat \<Rightarrow> (CCoins \<times> CTxInUndo) option" where
  "Spend c n =
     (if length (coins_vout c) \<le> n then None
      else if CTxOut_IsNull (coins_vout c ! n) then None
      else let undo = CTxInUndo_of (coins_vout c ! n);
               c = Cleanup (c\<lparr>coins_vout := (coins_vout c)[n := CTxOut_SetNull]\<rparr>)
           in Some (c, if length (coins_vout c) = 0
                       then undo\<lparr>undo_nHeight := word_of_int (coins_nHeight c), undo_fCoinBase := fCoinBase c,
                                 undo_fCoinStake := fCoinStake c, undo_nVersion := coins_nVersion c\<rparr>
                       else undo))"

section \<open>Database encoding\<close>

text \<open>
  \<^verbatim>\<open>CalcMaskSize\<close> over the outputs from the third on, eight at a time: the index of the
  last byte in use plus one, and the number of non-zero bytes.
\<close>

function mask_loop :: "nat \<Rightarrow> nat \<Rightarrow> nat \<Rightarrow> CTxOut list \<Rightarrow> nat \<times> nat" where
  "mask_loop b nLastUsedByte nNonzeroBytes xs =
     (if xs = [] then (nLastUsedByte, nNonzeroBytes)
      else if list_all CTxOut_IsNull (take 8 xs) then mask_loop (b + 1) nLastUsedByte nNonzeroBytes (drop 8 xs)
      else mask_loop (b + 1) (b + 1) (nNonzeroBytes + 1) (drop 8 xs))"
  by pat_completeness auto
termination by (relation "measure (\<lambda>(b, l, n, xs). length xs)") auto

declare mask_loop.simps [simp del]

definition CalcMaskSize :: "CCoins \<Rightarrow> nat \<times> nat" where
  "CalcMaskSize c = mask_loop 0 0 0 (drop 2 (coins_vout c))"

fun avail_loop :: "nat \<Rightarrow> u8 \<Rightarrow> CTxOut list \<Rightarrow> u8" where
  "avail_loop i chAvail [] = chAvail"
| "avail_loop i chAvail (txout # outs) =
     avail_loop (i + 1) (if CTxOut_IsNull txout then chAvail else chAvail OR push_bit i 1) outs"

definition avail_byte :: "CTxOut list \<Rightarrow> nat \<Rightarrow> u8" where
  "avail_byte outs b = avail_loop 0 0 (take 8 (drop (2 + b * 8) outs))"

text \<open>Signed integers under \<^verbatim>\<open>VARINT\<close>: a negative one takes the one-byte branch.\<close>

definition WriteVarInt_int :: "int \<Rightarrow> bytes" where
  "WriteVarInt_int n = (if n \<le> 0x7F then [word_of_int (n AND 0x7F)] else WriteVarInt (word_of_int n :: u32))"

definition ReadVarInt_int :: "int reader" where
  "ReadVarInt_int is = bindE (ReadVarInt is) (\<lambda>(n :: u32, is). Inr (sint n, is))"

definition coins_code :: "nat \<Rightarrow> CCoins \<Rightarrow> nat \<Rightarrow> u32" where
  "coins_code factor c nMaskCode =
     (let fFirst = IsAvailable c 0; fSecond = IsAvailable c 1
      in of_nat factor * (of_nat nMaskCode - (if fFirst \<or> fSecond then 0 else 1))
         + (if fCoinBase c then 1 else 0) + (if fCoinStake c then 2 else 0)
         + (if fFirst then 4 else 0) + (if fSecond then 8 else 0))"

fun ser_outputs :: "(bytes \<Rightarrow> bool) \<Rightarrow> CTxOut list \<Rightarrow> bytes option" where
  "ser_outputs IsFullyValid [] = Some []"
| "ser_outputs IsFullyValid (txout # outs) =
     (if CTxOut_IsNull txout then ser_outputs IsFullyValid outs
      else case txout_compressor_serialize IsFullyValid txout of
             None \<Rightarrow> None
           | Some s \<Rightarrow> map_option (\<lambda>r. s @ r) (ser_outputs IsFullyValid outs))"

text \<open>\<open>None\<close> is a failed assertion: nothing left to encode.\<close>

definition CCoins_Serialize :: "(bytes \<Rightarrow> bool) \<Rightarrow> CCoins \<Rightarrow> bytes option" where
  "CCoins_Serialize IsFullyValid c =
     (case CalcMaskSize c of (nMaskSize, nMaskCode) \<Rightarrow>
        if \<not> (IsAvailable c 0 \<or> IsAvailable c 1 \<or> nMaskCode \<noteq> 0) then None
        else map_option (\<lambda>outs. WriteVarInt_int (coins_nVersion c) @ WriteVarInt (coins_code 16 c nMaskCode)
               @ map (avail_byte (coins_vout c)) [0..<nMaskSize] @ outs @ WriteVarInt_int (coins_nHeight c))
             (ser_outputs IsFullyValid (coins_vout c)))"

definition CCoins_GetSerializeSize :: "(bytes \<Rightarrow> bool) \<Rightarrow> CCoins \<Rightarrow> nat option" where
  "CCoins_GetSerializeSize IsFullyValid c =
     (case CalcMaskSize c of (nMaskSize, nMaskCode) \<Rightarrow>
        if \<not> (IsAvailable c 0 \<or> IsAvailable c 1 \<or> nMaskCode \<noteq> 0) then None
        else map_option (\<lambda>outs. length (WriteVarInt_int (coins_nVersion c))
               + GetSizeOfVarInt (coins_code 8 c nMaskCode) + nMaskSize + length outs
               + length (WriteVarInt_int (coins_nHeight c)))
             (ser_outputs IsFullyValid (coins_vout c)))"

definition byte_bits :: "u8 \<Rightarrow> bool list" where
  "byte_bits chAvail = map (\<lambda>p. chAvail AND push_bit p 1 \<noteq> 0) [0..<8]"

fun read_avail :: "nat \<Rightarrow> bytes \<Rightarrow> stream_error + bool list \<times> bytes" where
  "read_avail 0 is = Inr ([], is)"
| "read_avail (Suc nMaskCode) [] = Inl EndOfData"
| "read_avail (Suc nMaskCode) (chAvail # is) =
     bindE (read_avail (if chAvail \<noteq> 0 then nMaskCode else Suc nMaskCode) is) (\<lambda>(vAvail, is).
       Inr (byte_bits chAvail @ vAvail, is))"

fun read_outputs :: "(bytes \<Rightarrow> bytes option) \<Rightarrow> bool list \<Rightarrow> CTxOut list reader" where
  "read_outputs EC_Decompress [] is = Inr ([], is)"
| "read_outputs EC_Decompress (f # vAvail) is =
     bindE (if f then txout_compressor_unserialize EC_Decompress CTxOut_SetNull is else Inr (CTxOut_SetNull, is))
       (\<lambda>(txout, is). bindE (read_outputs EC_Decompress vAvail is) (\<lambda>(outs, is). Inr (txout # outs, is)))"

definition CCoins_Unserialize :: "(bytes \<Rightarrow> bytes option) \<Rightarrow> CCoins reader" where
  "CCoins_Unserialize EC_Decompress is =
     bindE (ReadVarInt_int is) (\<lambda>(version, is).
     bindE (ReadVarInt is) (\<lambda>(nCode :: u32, is).
     bindE (read_avail (unat nCode div 16 + (if nCode AND 12 \<noteq> 0 then 0 else 1)) is) (\<lambda>(vAvail, is).
     bindE (read_outputs EC_Decompress ([nCode AND 4 \<noteq> 0, nCode AND 8 \<noteq> 0] @ vAvail) is) (\<lambda>(outs, is).
     bindE (ReadVarInt_int is) (\<lambda>(height, is).
       Inr (Cleanup \<lparr>fCoinBase = (nCode AND 1 \<noteq> 0), fCoinStake = (nCode AND 2 \<noteq> 0), coins_vout = outs,
              coins_nHeight = height, coins_nVersion = version\<rparr>, is))))))"

definition undo_code :: "CTxInUndo \<Rightarrow> u32" where
  "undo_code u = undo_nHeight u * 4 + (if undo_fCoinBase u then 2 else 0) + (if undo_fCoinStake u then 1 else 0)"

definition CTxInUndo_Serialize :: "(bytes \<Rightarrow> bool) \<Rightarrow> CTxInUndo \<Rightarrow> bytes option" where
  "CTxInUndo_Serialize IsFullyValid u =
     map_option (\<lambda>out. WriteVarInt (undo_code u)
         @ (if 0 < undo_nHeight u then WriteVarInt_int (undo_nVersion u) else []) @ out)
       (txout_compressor_serialize IsFullyValid (undo_txout u))"

definition CTxInUndo_Unserialize :: "(bytes \<Rightarrow> bytes option) \<Rightarrow> CTxInUndo \<Rightarrow> CTxInUndo reader" where
  "CTxInUndo_Unserialize EC_Decompress old is =
     bindE (ReadVarInt is) (\<lambda>(nCode :: u32, is).
     let height = drop_bit 2 nCode in
     bindE (if 0 < height then ReadVarInt_int is else Inr (undo_nVersion old, is)) (\<lambda>(version, is).
     bindE (txout_compressor_unserialize EC_Decompress (undo_txout old) is) (\<lambda>(txout, is).
       Inr (\<lparr>undo_txout = txout, undo_fCoinBase = (nCode AND 2 \<noteq> 0), undo_fCoinStake = (nCode AND 1 \<noteq> 0),
              undo_nHeight = height, undo_nVersion = version\<rparr>, is))))"

section \<open>Cleaning up\<close>

lemma pop_null_cases: "pop_null xs = [] \<or> (pop_null xs \<noteq> [] \<and> \<not> CTxOut_IsNull (hd (pop_null xs)))"
  by (induction xs) auto

lemma pop_null_id: "xs = [] \<or> \<not> CTxOut_IsNull (hd xs) \<Longrightarrow> pop_null xs = xs"
  by (cases xs) auto

lemma pop_null_append_null: "list_all CTxOut_IsNull xs \<Longrightarrow> pop_null (xs @ ys) = pop_null ys"
  by (induction xs) auto

lemma pop_null_nil_iff: "pop_null xs = [] \<longleftrightarrow> list_all CTxOut_IsNull xs"
  by (induction xs) auto

text \<open>A cleaned-up vector ends in an unspent output.\<close>

definition cleaned :: "CTxOut list \<Rightarrow> bool" where
  "cleaned outs \<longleftrightarrow> outs = [] \<or> \<not> CTxOut_IsNull (last outs)"

lemma cleaned_Cleanup [wf_intros]: "cleaned (coins_vout (Cleanup c))"
  using pop_null_cases [of "rev (coins_vout c)"] by (auto simp: cleaned_def Cleanup_def last_rev)

lemma Cleanup_cleaned: "cleaned (coins_vout c) \<Longrightarrow> Cleanup c = c"
  by (cases c) (auto simp: cleaned_def Cleanup_def pop_null_id hd_rev)

lemma Cleanup_pad:
  "cleaned outs \<Longrightarrow> list_all CTxOut_IsNull pad \<Longrightarrow>
     Cleanup (c\<lparr>coins_vout := outs @ pad\<rparr>) = c\<lparr>coins_vout := outs\<rparr>"
  by (auto simp: cleaned_def Cleanup_def pop_null_append_null pop_null_id hd_rev list_all_rev)

lemma IsPruned_Cleanup [simp]: "IsPruned (Cleanup c) = IsPruned c"
proof -
  have "list_all CTxOut_IsNull (pop_null xs) = list_all CTxOut_IsNull xs" for xs
    by (induction xs) auto
  then show ?thesis by (simp add: IsPruned_def Cleanup_def list_all_rev)
qed

lemma IsPruned_cleaned: "cleaned (coins_vout c) \<Longrightarrow> IsPruned c \<longleftrightarrow> coins_vout c = []"
  by (auto simp: cleaned_def IsPruned_def list_all_iff dest: last_in_set)

lemma pop_null_nth:
  "i < length xs \<Longrightarrow> \<not> CTxOut_IsNull (xs ! i) \<Longrightarrow>
     length xs - length (pop_null xs) \<le> i \<and> pop_null xs ! (i - (length xs - length (pop_null xs))) = xs ! i"
proof (induction xs arbitrary: i)
  case (Cons x xs)
  have "length (pop_null xs) \<le> length xs" by (induction xs) auto
  with Cons show ?case by (cases i) (auto simp: Suc_diff_le)
qed simp

lemma Cleanup_fields [simp]:
  "fCoinBase (Cleanup c) = fCoinBase c" "fCoinStake (Cleanup c) = fCoinStake c"
  "coins_nHeight (Cleanup c) = coins_nHeight c" "coins_nVersion (Cleanup c) = coins_nVersion c"
  by (simp_all add: Cleanup_def)

section \<open>The database encoding is inverted\<close>

abbreviation spendable :: "CTxOut list \<Rightarrow> bool list" where
  "spendable outs \<equiv> map (\<lambda>txout. \<not> CTxOut_IsNull txout) outs"

function mask_bytes :: "CTxOut list \<Rightarrow> bytes" where
  "mask_bytes xs = (if xs = [] then [] else avail_loop 0 0 (take 8 xs) # mask_bytes (drop 8 xs))"
  by pat_completeness auto
termination by (relation "measure length") auto

declare mask_bytes.simps [simp del]

lemma mask_bytes_simps [simp]:
  "mask_bytes [] = []"
  "xs \<noteq> [] \<Longrightarrow> mask_bytes xs = avail_loop 0 0 (take 8 xs) # mask_bytes (drop 8 xs)"
  by (subst mask_bytes.simps, simp)+

lemma bit_avail_loop:
  "bit (avail_loop i ch outs) j \<longleftrightarrow> bit ch j \<or> j < 8 \<and> i \<le> j \<and> j < i + length outs \<and> \<not> CTxOut_IsNull (outs ! (j - i))"
proof (induction i ch outs rule: avail_loop.induct)
  case (2 i ch txout outs)
  show ?case
    using 2 by (cases "j = i") (auto simp: bit_or_iff bit_exp_iff nth_Cons' dest: bit_imp_le_length)
qed auto

lemma avail_loop_0: "avail_loop 0 0 outs = 0 \<longleftrightarrow> list_all CTxOut_IsNull outs" if "length outs \<le> 8"
proof -
  have "avail_loop 0 0 outs = 0 \<longleftrightarrow> (\<forall>j. \<not> bit (avail_loop 0 0 outs) j)"
    by (metis bit_0_eq bit_eqI bot_apply bot_bool_def)
  also have "\<dots> \<longleftrightarrow> list_all CTxOut_IsNull outs"
    using that by (auto simp: bit_avail_loop list_all_length)
  finally show ?thesis .
qed

lemma and_push_bit_1: "(x :: 'a::len word) AND push_bit p 1 \<noteq> 0 \<longleftrightarrow> bit x p"
proof
  assume "x AND push_bit p 1 \<noteq> 0"
  then obtain i where "bit (x AND push_bit p 1) i" by (metis bit_0_eq bit_eqI bot_apply bot_bool_def)
  then show "bit x p" by (auto simp: bit_and_iff bit_exp_iff)
next
  assume "bit x p"
  then have "bit (x AND push_bit p 1) p" by (simp add: bit_and_iff bit_exp_iff bit_imp_le_length)
  then show "x AND push_bit p 1 \<noteq> 0" by auto
qed

lemma avail_bits:
  assumes "length outs \<le> 8"
  shows "byte_bits (avail_loop 0 0 outs)
     = spendable outs @ replicate (8 - length outs) False"
  unfolding byte_bits_def and_push_bit_1 using assms by (intro nth_equalityI) (auto simp: bit_avail_loop nth_append)

abbreviation nonzero_bytes :: "bytes \<Rightarrow> nat" where
  "nonzero_bytes ms \<equiv> length (filter (\<lambda>m. m \<noteq> 0) ms)"

lemma read_avail_mask:
  assumes "ms = [] \<or> last ms \<noteq> 0"
  shows "read_avail (nonzero_bytes ms) (ms @ rest)
     = Inr (concat (map byte_bits ms), rest)"
  using assms
proof (induction ms)
  case (Cons m ms)
  show ?case
  proof (cases "m = 0")
    case True
    with Cons.prems have ne: "ms \<noteq> []" "last ms \<noteq> 0" by (auto split: if_splits)
    then have "last ms \<in> set (filter (\<lambda>m. m \<noteq> 0) ms)" by simp
    then have "0 < nonzero_bytes ms" by (rule length_pos_if_in_set)
    then obtain k where k: "nonzero_bytes ms = Suc k" by (cases "nonzero_bytes ms") auto
    have "read_avail (Suc k) (ms @ rest)
       = Inr (concat (map byte_bits ms), rest)"
      using Cons.IH ne k by simp
    then show ?thesis using True k by simp
  next
    case False
    then show ?thesis using Cons by (cases "ms = []") simp_all
  qed
qed simp

lemma mask_bytes_last:
  assumes "xs \<noteq> []" "\<not> CTxOut_IsNull (last xs)"
  shows "last (mask_bytes xs) \<noteq> 0"
  using assms
proof (induction xs rule: mask_bytes.induct)
  case (1 xs)
  show ?case
  proof (cases "length xs \<le> 8")
    case True
    then show ?thesis using 1(2,3) avail_loop_0 [of xs] last_in_set [of xs] by (auto simp: list_all_iff)
  next
    case False
    then have "drop 8 xs \<noteq> []" "last (drop 8 xs) = last xs" by simp_all
    with 1 show ?thesis by (simp)
  qed
qed

lemma mask_loop_cleaned:
  assumes "cleaned xs"
  shows "mask_loop b l n xs = (if xs = [] then l else b + length (mask_bytes xs), n + nonzero_bytes (mask_bytes xs))"
  using assms
proof (induction b l n xs rule: mask_loop.induct)
  case (1 b l n xs)
  show ?case
  proof (cases "xs = []")
    case False
    let ?a = "list_all CTxOut_IsNull (take 8 xs)"
    have c: "cleaned (drop 8 xs)" using 1(3) False by (auto simp: cleaned_def)
    have more: "drop 8 xs \<noteq> []" if ?a
    proof
      assume "drop 8 xs = []"
      then have "take 8 xs = xs" by simp
      with that 1(3) False show False by (auto simp: cleaned_def list_all_iff dest: last_in_set)
    qed
    have z: "avail_loop 0 0 (take 8 xs) = 0 \<longleftrightarrow> ?a" by (rule avail_loop_0) simp
    show ?thesis
      using False 1(1,2) c more z by (subst mask_loop.simps) auto
  qed (simp add: mask_loop.simps)
qed

lemma avail_byte_mask: "b < length (mask_bytes (drop 2 outs)) \<Longrightarrow> avail_byte outs b = mask_bytes (drop 2 outs) ! b"
proof -
  have "b < length (mask_bytes xs) \<Longrightarrow> avail_loop 0 0 (take 8 (drop (8 * b) xs)) = mask_bytes xs ! b" for xs
  proof (induction b arbitrary: xs)
    case 0
    then show ?case by (cases "xs = []") auto
  next
    case (Suc b)
    then have ne: "xs \<noteq> []" by auto
    moreover have "drop (8 * Suc b) xs = drop (8 * b) (drop 8 xs)" by (simp add: add.commute)
    ultimately show ?case using Suc.IH [of "drop 8 xs"] Suc.prems by (simp del: drop_drop)
  qed
  moreover have "drop (2 + b * 8) outs = drop (8 * b) (drop 2 outs)" by (simp add: ac_simps)
  ultimately show "b < length (mask_bytes (drop 2 outs)) \<Longrightarrow> avail_byte outs b = mask_bytes (drop 2 outs) ! b"
    unfolding avail_byte_def by metis
qed

lemma mask_bytes_bits:
  "\<exists>k. concat (map byte_bits (mask_bytes xs))
       = spendable xs @ replicate k False"
proof (induction xs rule: mask_bytes.induct)
  case (1 xs)
  show ?case
  proof (cases "length xs \<le> 8")
    case True
    then show ?thesis using avail_bits [of xs] by (cases "xs = []") auto
  next
    case False
    then obtain k where "concat (map byte_bits (mask_bytes (drop 8 xs)))
       = spendable (drop 8 xs) @ replicate k False" using 1 by force
    moreover have "spendable (take 8 xs) @ spendable (drop 8 xs) = spendable xs"
      by (metis append_take_drop_id map_append)
    ultimately show ?thesis
    proof -
      assume a: "concat (map byte_bits (mask_bytes (drop 8 xs))) = spendable (drop 8 xs) @ replicate k False"
        and b: "spendable (take 8 xs) @ spendable (drop 8 xs) = spendable xs"
      have "xs \<noteq> []" using False by auto
      then have "mask_bytes xs = avail_loop 0 0 (take 8 xs) # mask_bytes (drop 8 xs)" by (rule mask_bytes_simps)
      then have "concat (map byte_bits (mask_bytes xs))
          = byte_bits (avail_loop 0 0 (take 8 xs)) @ concat (map byte_bits (mask_bytes (drop 8 xs)))"
        by (simp only: list.map concat.simps)
      also have "byte_bits (avail_loop 0 0 (take 8 xs)) = spendable (take 8 xs)"
        using avail_bits [of "take 8 xs"] False by simp
      finally show ?thesis unfolding a append_assoc [symmetric] b by blast
    qed
  qed
qed

definition wf_output :: "CTxOut \<Rightarrow> bool" where
  "wf_output txout \<longleftrightarrow>
     (if CTxOut_IsNull txout then txout = CTxOut_SetNull
      else 0 \<le> nValue txout \<and> nValue txout < 2 ^ 60 \<and> length (scriptPubKey txout) + nSpecialScripts < 2 ^ 32)"

lemma read_outputs_ser:
  assumes "list_all wf_output outs" and law: "ec_law IsFullyValid EC_Decompress"
  shows "\<exists>s. ser_outputs IsFullyValid outs = Some s
     \<and> (\<forall>rest. read_outputs EC_Decompress (spendable outs) (s @ rest) = Inr (outs, rest))"
  using assms(1)
proof (induction outs)
  case (Cons txout outs)
  then obtain s where s: "ser_outputs IsFullyValid outs = Some s"
    "\<And>rest. read_outputs EC_Decompress (spendable outs) (s @ rest) = Inr (outs, rest)" by auto
  show ?case
  proof (cases "CTxOut_IsNull txout")
    case True
    with Cons.prems s show ?thesis by (simp add: wf_output_def)
  next
    case False
    with Cons.prems obtain t where t: "txout_compressor_serialize IsFullyValid txout = Some t"
      "\<And>rest. txout_compressor_unserialize EC_Decompress CTxOut_SetNull (t @ rest) = Inr (txout, rest)"
      using txout_roundtrip [OF law, of txout CTxOut_SetNull] by (simp add: wf_output_def) (metis option.inject)
    with s False show ?thesis by simp
  qed
qed simp

lemma ser_outputs_pad:
  "list_all CTxOut_IsNull pad \<Longrightarrow> ser_outputs IsFullyValid (outs @ pad) = ser_outputs IsFullyValid outs"
proof (induction outs)
  case Nil
  then show ?case by (induction pad) auto
qed (auto split: option.splits)

lemma small_flags:
  fixes n :: u32
  assumes "unat n = 16 * m + (if b0 then 1 else 0) + (if b1 then 2 else 0) + (if b2 then 4 else 0) + (if b3 then 8 else 0)"
  shows "n AND 1 \<noteq> 0 \<longleftrightarrow> b0" "n AND 2 \<noteq> 0 \<longleftrightarrow> b1" "n AND 4 \<noteq> 0 \<longleftrightarrow> b2" "n AND 8 \<noteq> 0 \<longleftrightarrow> b3"
    "n AND 12 \<noteq> 0 \<longleftrightarrow> b2 \<or> b3" "unat n div 16 = m"
proof -
  have b: "bit n i \<longleftrightarrow> odd (unat n div 2 ^ i)" for i
    using bit_unat [of n i] by (simp only: bit_iff_odd)
  have f: "n AND 1 \<noteq> 0 \<longleftrightarrow> bit n 0" "n AND 2 \<noteq> 0 \<longleftrightarrow> bit n 1" "n AND 4 \<noteq> 0 \<longleftrightarrow> bit n 2" "n AND 8 \<noteq> 0 \<longleftrightarrow> bit n 3"
    using and_push_bit_1 [of n 0] and_push_bit_1 [of n 1] and_push_bit_1 [of n 2] and_push_bit_1 [of n 3] by simp_all
  have p: "(2::nat) ^ 0 = 1" "(2::nat) ^ 1 = 2" "(2::nat) ^ 2 = 4" "(2::nat) ^ 3 = 8" by simp_all
  show "n AND 1 \<noteq> 0 \<longleftrightarrow> b0" unfolding f b assms p
    by (cases b0; cases b1; cases b2; cases b3; simp only: if_True if_False simp_thms; presburger)
  show "n AND 2 \<noteq> 0 \<longleftrightarrow> b1" unfolding f b assms p
    by (cases b0; cases b1; cases b2; cases b3; simp only: if_True if_False simp_thms; presburger)
  show g: "n AND 4 \<noteq> 0 \<longleftrightarrow> b2" unfolding f b assms p
    by (cases b0; cases b1; cases b2; cases b3; simp only: if_True if_False simp_thms; presburger)
  show h: "n AND 8 \<noteq> 0 \<longleftrightarrow> b3" unfolding f b assms p
    by (cases b0; cases b1; cases b2; cases b3; simp only: if_True if_False simp_thms; presburger)
  have "n AND 12 = (n AND 4) OR (n AND 8)"
    by (simp add: bit.conj_disj_distrib [symmetric])
  then show "n AND 12 \<noteq> 0 \<longleftrightarrow> b2 \<or> b3" using g h by (simp add: or_eq_0_iff)
  show "unat n div 16 = m" unfolding assms by (cases b0; cases b1; cases b2; cases b3; simp only: if_True if_False simp_thms; presburger)
qed

lemma VarInt_int_roundtrip:
  assumes "0 \<le> n" "n < 2 ^ 31"
  shows "ReadVarInt_int (WriteVarInt_int n @ rest) = Inr (n, rest)"
proof -
  have s: "sint (word_of_int n :: u32) = n"
    using assms by (simp add: signed_of_int signed_take_bit_int_eq_self)
  show ?thesis
  proof (cases "n \<le> 0x7F")
    case True
    have t: "n AND 0x7F = n"
    proof -
      have "n AND mask 7 = take_bit 7 n" by (rule take_bit_eq_mask [symmetric])
      also have "\<dots> = n" using assms(1) True by (intro take_bit_int_eq_self) simp_all
      finally show ?thesis by (simp add: mask_eq_exp_minus_1)
    qed
    have u: "unat (word_of_int n :: u8) = nat n"
      using True assms(1) by (simp add: unsigned_of_int take_bit_int_eq_self nat_take_bit_eq)
    then have "unat (word_of_int n :: u8) < 128" using True by simp
    moreover have "(ucast (word_of_int n :: u8) :: u32) = word_of_int n"
      using True assms u by (simp add: word_unat_eq_iff unat_ucast_eq unsigned_of_int take_bit_int_eq_self nat_take_bit_eq)
    ultimately show ?thesis
      using True s by (simp add: WriteVarInt_int_def ReadVarInt_int_def t ReadVarInt_byte)
  next
    case False
    then show ?thesis using s by (simp add: WriteVarInt_int_def ReadVarInt_int_def ReadVarInt_WriteVarInt)
  qed
qed

definition wf_coins :: "CCoins \<Rightarrow> bool" where
  "wf_coins c \<longleftrightarrow> cleaned (coins_vout c) \<and> coins_vout c \<noteq> [] \<and> list_all wf_output (coins_vout c)
     \<and> length (coins_vout c) < 2 ^ 27 \<and> 0 \<le> coins_nVersion c \<and> coins_nVersion c < 2 ^ 31
     \<and> 0 \<le> coins_nHeight c \<and> coins_nHeight c < 2 ^ 31"

lemma coins_code_value:
  assumes "k < 2 ^ 27" and "IsAvailable c 0 \<or> IsAvailable c 1 \<or> k \<noteq> 0"
  shows "unat (coins_code 16 c k) = 16 * (k - (if IsAvailable c 0 \<or> IsAvailable c 1 then 0 else 1))
     + (if fCoinBase c then 1 else 0) + (if fCoinStake c then 2 else 0)
     + (if IsAvailable c 0 then 4 else 0) + (if IsAvailable c 1 then 8 else 0)"
proof -
  let ?m = "k - (if IsAvailable c 0 \<or> IsAvailable c 1 then 0 else 1)"
  let ?n = "16 * ?m + (if fCoinBase c then 1 else 0) + (if fCoinStake c then 2 else 0)
     + (if IsAvailable c 0 then 4 else 0) + (if IsAvailable c 1 then 8 else 0)"
  have "(of_nat k :: u32) - (if IsAvailable c 0 \<or> IsAvailable c 1 then 0 else 1) = of_nat ?m"
    using assms(2) by (auto simp: of_nat_diff Suc_le_eq)
  then have "coins_code 16 c k = of_nat ?n"
    unfolding coins_code_def Let_def by (simp only: of_nat_add of_nat_mult of_nat_numeral) simp
  moreover have "16 * m + (if p then 1 else 0) + (if q then 2 else 0) + (if r then 4 else 0) + (if s then 8 else 0) \<le> 16 * k + 15"
    if "m \<le> k" for m :: nat and p q r s
    using that by auto
  from this [of ?m] have "?n \<le> 16 * k + 15" by simp
  then have "?n < 2 ^ 32" using assms(1) by simp
  ultimately show ?thesis by (simp only: of_nat_inverse) (simp add: of_nat_inverse)
qed

lemma length_mask_bytes: "length (mask_bytes xs) \<le> length xs"
proof (induction xs rule: mask_bytes.induct)
  case (1 xs)
  then show ?case by (cases xs) auto
qed

lemma CCoins_roundtrip:
  assumes wf: "wf_coins c" and law: "ec_law IsFullyValid EC_Decompress"
  shows "\<exists>bs. CCoins_Serialize IsFullyValid c = Some bs
     \<and> CCoins_Unserialize EC_Decompress (bs @ rest) = Inr (c, rest)"
proof -
  let ?v = "coins_vout c" and ?a = "IsAvailable c 0" and ?b = "IsAvailable c 1"
  define xs where "xs = drop 2 ?v"
  define ms where "ms = mask_bytes xs"
  define k where "k = nonzero_bytes ms"
  have cl: "cleaned ?v" "?v \<noteq> []" using wf by (simp_all add: wf_coins_def)
  then have cx: "cleaned xs" by (auto simp: cleaned_def xs_def)
  have ms: "ms = [] \<or> last ms \<noteq> 0"
    using cx mask_bytes_last [of xs] by (cases "xs = []") (auto simp: cleaned_def ms_def)
  have k_le: "k \<le> length ms" by (simp add: k_def)
  have calc: "CalcMaskSize c = (length ms, k)"
    using mask_loop_cleaned [OF cx, of 0 0 0] by (simp add: CalcMaskSize_def xs_def ms_def k_def)
  have avail: "?a \<or> ?b \<or> k \<noteq> 0"
  proof (cases "xs = []")
    case True
    then have "length ?v = 1 \<or> length ?v = 2" using cl(2) by (auto simp: xs_def Suc_le_eq le_Suc_eq numeral_2_eq_2)
    then show ?thesis using cl by (auto simp: cleaned_def IsAvailable_def last_conv_nth)
  next
    case False
    then have "ms \<noteq> []" by (simp add: ms_def)
    then have "last ms \<in> set (filter (\<lambda>m. m \<noteq> 0) ms)" using ms by simp
    then have "0 < k" unfolding k_def by (rule length_pos_if_in_set)
    then show ?thesis by simp
  qed
  have "k < 2 ^ 27"
    using k_le length_mask_bytes [of xs] wf by (auto simp: ms_def xs_def wf_coins_def)
  note code = small_flags [OF coins_code_value [OF this avail]]
  obtain j where j: "concat (map byte_bits ms) = spendable xs @ replicate j False"
    using mask_bytes_bits [of xs] by (auto simp: ms_def)
  have len: "length (map (avail_byte ?v) [0..<length ms]) = length ms" by simp
  have bytes: "map (avail_byte ?v) [0..<length ms] = ms"
    by (intro nth_equalityI) (simp_all add: avail_byte_mask ms_def xs_def)
  define pad where "pad = (if length ?v < 2 then replicate (2 - length ?v) CTxOut_SetNull else []) @ replicate j CTxOut_SetNull"
  have null: "CTxOut_IsNull CTxOut_SetNull" by (simp add: CTxOut_IsNull_def CTxOut_SetNull_def)
  have pad: "list_all CTxOut_IsNull pad" "list_all wf_output pad"
    by (auto simp: pad_def list_all_iff wf_output_def null)
  have flags: "[?a, ?b] @ spendable xs @ replicate j False = spendable (?v @ pad)"
  proof -
    have "?v = take 2 ?v @ xs" by (simp add: xs_def)
    then show ?thesis
      by (cases ?v; cases "tl ?v") (auto simp: IsAvailable_def pad_def null xs_def numeral_2_eq_2)
  qed
  obtain s where s: "ser_outputs IsFullyValid (?v @ pad) = Some s"
    "\<And>rest. read_outputs EC_Decompress (spendable (?v @ pad)) (s @ rest) = Inr (?v @ pad, rest)"
    using read_outputs_ser [OF _ law, of "?v @ pad"] wf pad(2) by (auto simp: wf_coins_def)
  have s': "ser_outputs IsFullyValid ?v = Some s" using s(1) ser_outputs_pad [OF pad(1)] by simp
  have clean: "Cleanup \<lparr>fCoinBase = fCoinBase c, fCoinStake = fCoinStake c, coins_vout = ?v @ pad,
      coins_nHeight = coins_nHeight c, coins_nVersion = coins_nVersion c\<rparr> = c"
    using Cleanup_pad [OF cl(1) pad(1), of c] by (cases c) (simp add: Cleanup_def)
  have k': "k - (if ?a \<or> ?b then 0 else 1) + (if ?a \<or> ?b then 0 else 1) = k" using avail by auto
  have v: "0 \<le> coins_nVersion c" "coins_nVersion c < 2 ^ 31" "0 \<le> coins_nHeight c" "coins_nHeight c < 2 ^ 31"
    using wf by (simp_all add: wf_coins_def)
  note rt = VarInt_int_roundtrip [OF v(1,2)] VarInt_int_roundtrip [OF v(3,4)] ReadVarInt_WriteVarInt
  have "read_avail k (ms @ rest) = Inr (spendable xs @ replicate j False, rest)" for rest
    using read_avail_mask [OF ms, of rest] j by (simp add: k_def)
  note avail_read = this
  let ?n = "coins_code 16 c k"
  have count: "unat ?n div 16 + (if ?n AND 12 \<noteq> 0 then 0 else 1) = k" using code k' by simp
  have fl: "[?n AND 4 \<noteq> 0, ?n AND 8 \<noteq> 0] @ spendable xs @ replicate j False = spendable (?v @ pad)"
    using code flags by simp
  have "CCoins_Serialize IsFullyValid c = Some (WriteVarInt_int (coins_nVersion c) @ WriteVarInt ?n @ ms @ s
      @ WriteVarInt_int (coins_nHeight c))"
    using avail by (simp add: CCoins_Serialize_def calc bytes s')
  moreover have "CCoins_Unserialize EC_Decompress ((WriteVarInt_int (coins_nVersion c) @ WriteVarInt ?n @ ms @ s
      @ WriteVarInt_int (coins_nHeight c)) @ rest) = Inr (c, rest)"
    unfolding CCoins_Unserialize_def append_assoc
    by (simp only: rt bindE_simps split_conv count avail_read fl s(2) code(1,2) clean)
  ultimately show ?thesis by blast
qed

lemma undo_roundtrip:
  assumes law: "ec_law IsFullyValid EC_Decompress" and out: "wf_output (undo_txout u)" "\<not> CTxOut_IsNull (undo_txout u)"
    and h: "unat (undo_nHeight u) < 2 ^ 30" and v: "0 \<le> undo_nVersion u" "undo_nVersion u < 2 ^ 31"
  shows "\<exists>bs. CTxInUndo_Serialize IsFullyValid u = Some bs
     \<and> CTxInUndo_Unserialize EC_Decompress old (bs @ rest)
         = Inr (if undo_nHeight u = 0 then u\<lparr>undo_nVersion := undo_nVersion old\<rparr> else u, rest)"
proof -
  obtain t where t: "txout_compressor_serialize IsFullyValid (undo_txout u) = Some t"
    "\<And>rest. txout_compressor_unserialize EC_Decompress (undo_txout old) (t @ rest) = Inr (undo_txout u, rest)"
    using txout_roundtrip [OF law, of "undo_txout u" "undo_txout old"] out
    by (simp add: wf_output_def) (metis option.inject)
  let ?f = "(if undo_fCoinBase u then 2 else 0) + (if undo_fCoinStake u then 1 else 0) :: nat"
  have code: "unat (undo_code u) = 4 * unat (undo_nHeight u) + ?f"
    using h by (simp add: undo_code_def unat_word_ariths)
  have q: "unat (undo_code u) = 16 * (unat (undo_nHeight u) div 4) + (if undo_fCoinStake u then 1 else 0)
     + (if undo_fCoinBase u then 2 else 0) + (if odd (unat (undo_nHeight u)) then 4 else 0)
     + (if odd (unat (undo_nHeight u) div 2) then 8 else 0)"
  proof -
    have "n = 4 * (n div 4) + (if odd n then 1 else 0) + (if odd (n div 2) then 2 else 0)" for n :: nat by presburger
    from this [of "unat (undo_nHeight u)"] show ?thesis unfolding code by auto
  qed
  note flags = small_flags(1,2) [OF q]
  have "unat (drop_bit 2 (undo_code u)) = unat (undo_nHeight u)"
    unfolding unat_drop_bit code by simp
  then have d: "drop_bit 2 (undo_code u) = undo_nHeight u" by (simp only: word_unat_eq_iff)
  show ?thesis
  proof (cases "undo_nHeight u = 0")
    case True
    then show ?thesis
      using t flags d by (cases u) (simp add: CTxInUndo_Serialize_def CTxInUndo_Unserialize_def ReadVarInt_WriteVarInt Let_def)
  next
    case False
    then have "0 < undo_nHeight u" by (simp add: word_gt_0)
    then show ?thesis
      using t flags d VarInt_int_roundtrip [OF v] False
      by (cases u) (simp add: CTxInUndo_Serialize_def CTxInUndo_Unserialize_def ReadVarInt_WriteVarInt Let_def)
  qed
qed

section \<open>Theorems\<close>

text \<open>
  C26. A transaction's unspent outputs written to the coin database read back exactly:
  flags, height, version and every output with the spent ones in between, for any coins that are
  not fully spent, have fewer than \<open>2 ^ 27\<close> outputs with amounts below \<open>2 ^ 60\<close>,
  and a non-negative version.
\<close>

theorem coins_database_roundtrip:
  assumes "wf_coins c" and "ec_law IsFullyValid EC_Decompress"
  shows "\<exists>bs. CCoins_Serialize IsFullyValid c = Some bs
     \<and> CCoins_Unserialize EC_Decompress (bs @ rest) = Inr (c, rest)"
  by (rule CCoins_roundtrip [OF assms])

definition ex_coins :: CCoins where
  "ex_coins = \<lparr>fCoinBase = False, fCoinStake = True,
     coins_vout = replicate 10 CTxOut_SetNull @ [\<lparr>nValue = 7 * COIN, scriptPubKey = [0x51]\<rparr>],
     coins_nHeight = 300, coins_nVersion = 1\<rparr>"

theorem coins_database_roundtrip_witness:
  "\<exists>bs. CCoins_Serialize (\<lambda>pk. pk = ex_key) ex_coins = Some bs
     \<and> CCoins_Unserialize (\<lambda>c. if c = 3 # replicate 32 7 then Some ex_key else None) (bs @ [9]) = Inr (ex_coins, [9])"
proof (rule coins_database_roundtrip)
  show "wf_coins ex_coins"
    by (simp add: wf_coins_def ex_coins_def cleaned_def wf_output_def CTxOut_IsNull_def CTxOut_SetNull_def
        COIN_def nSpecialScripts_def list_all_iff)
  show "ec_law (\<lambda>pk. pk = ex_key) (\<lambda>c. if c = 3 # replicate 32 7 then Some ex_key else None)"
    by (simp add: ec_law_def ex_key_def nth_append)
qed

text \<open>
  \<^verbatim>\<open>CCoins::GetSerializeSize\<close> multiplies the mask code by 8 where
  \<^verbatim>\<open>Serialize\<close> multiplies it by 16, so the announced size can be smaller than what is
  written: for coins whose first output and one output in each of the first eight mask bytes are
  unspent it is one byte short.
\<close>

definition ex_wide_coins :: CCoins where
  "ex_wide_coins = \<lparr>fCoinBase = False, fCoinStake = False,
     coins_vout = replicate 59 \<lparr>nValue = 1, scriptPubKey = []\<rparr>, coins_nHeight = 1, coins_nVersion = 1\<rparr>"

theorem coins_size_under_reported:
  "map_option length (CCoins_Serialize (\<lambda>_. False) ex_wide_coins) = Some 130
     \<and> CCoins_GetSerializeSize (\<lambda>_. False) ex_wide_coins = Some 129"
  by code_simp

end
