(* ===== verification/Coins_View.thy ===== *)
theory Coins_View
  imports Coins "HOL-Library.AList"
begin

text \<open>
  Views on the set of unspent outputs (\<^verbatim>\<open>src/coins.cpp\<close>, \<^verbatim>\<open>src/txdb.cpp\<close>):
  the virtual interface \<^verbatim>\<open>CCoinsView\<close>, the database view and the write-back cache
  \<^verbatim>\<open>CCoinsViewCache\<close> that is stacked on another view. A hash map is an association list,
  whose order is the order in which the code iterates over it. The locale \<open>readable_view\<close>
  is the contract of a view: it represents a map from transaction identifiers to coins; a
  \<open>coins_view\<close> can be written, too. A cache over a view that can be read can be written.
\<close>

section \<open>The interface\<close>

type_synonym txid = base_uint

record CCoinsCacheEntry =
  entry_coins :: CCoins
  entry_flags :: u8

type_synonym CCoinsMap = "(txid \<times> CCoinsCacheEntry) list"

definition DIRTY :: u8 where "DIRTY = 1"
definition FRESH :: u8 where "FRESH = 2"

abbreviation is_dirty :: "CCoinsCacheEntry \<Rightarrow> bool" where "is_dirty e \<equiv> entry_flags e AND DIRTY \<noteq> 0"
abbreviation is_fresh :: "CCoinsCacheEntry \<Rightarrow> bool" where "is_fresh e \<equiv> entry_flags e AND FRESH \<noteq> 0"

text \<open>
  The virtual methods of a view whose state has type \<open>'v\<close>. Reading may fill caches, so it
  returns the new state; a batch write fails (\<open>None\<close>) when an assertion does, and returns the
  flag of the code otherwise.
\<close>

record 'v CCoinsView =
  view_GetCoins :: "'v \<Rightarrow> txid \<Rightarrow> CCoins option \<times> 'v"
  view_GetBestBlock :: "'v \<Rightarrow> base_uint \<times> 'v"
  view_BatchWrite :: "'v \<Rightarrow> CCoinsMap \<Rightarrow> base_uint \<Rightarrow> ('v \<times> bool) option"

section \<open>The database view\<close>

record CCoinsViewDB =
  db_coins :: "(txid \<times> CCoins) list"
  db_best :: "base_uint option"

definition db_GetCoins :: "CCoinsViewDB \<Rightarrow> txid \<Rightarrow> CCoins option \<times> CCoinsViewDB" where
  "db_GetCoins db txid = (map_of (db_coins db) txid, db)"

definition db_GetBestBlock :: "CCoinsViewDB \<Rightarrow> base_uint \<times> CCoinsViewDB" where
  "db_GetBestBlock db = (case db_best db of None \<Rightarrow> uint256_of_u64 0 | Some hashBestChain \<Rightarrow> hashBestChain, db)"

definition BatchWriteCoins :: "(txid \<times> CCoins) list \<Rightarrow> txid \<Rightarrow> CCoins \<Rightarrow> (txid \<times> CCoins) list" where
  "BatchWriteCoins batch hash c = (if IsPruned c then AList.delete hash batch else AList.update hash c batch)"

fun db_write_loop :: "(txid \<times> CCoins) list \<Rightarrow> CCoinsMap \<Rightarrow> (txid \<times> CCoins) list" where
  "db_write_loop batch [] = batch"
| "db_write_loop batch ((k, e) # mapCoins) =
     db_write_loop (if is_dirty e then BatchWriteCoins batch k (entry_coins e) else batch) mapCoins"

definition db_BatchWrite :: "CCoinsViewDB \<Rightarrow> CCoinsMap \<Rightarrow> base_uint \<Rightarrow> (CCoinsViewDB \<times> bool) option" where
  "db_BatchWrite db mapCoins h =
     Some (\<lparr>db_coins = db_write_loop (db_coins db) mapCoins,
            db_best = (if h \<noteq> uint256_of_u64 0 then Some h else db_best db)\<rparr>, True)"

definition db_view :: "CCoinsViewDB CCoinsView" where
  "db_view = \<lparr>view_GetCoins = db_GetCoins, view_GetBestBlock = db_GetBestBlock, view_BatchWrite = db_BatchWrite\<rparr>"

section \<open>The cache\<close>

record 'v CCoinsViewCache =
  view_base :: 'v
  hashBlock :: base_uint
  cacheCoins :: CCoinsMap

definition new_cache :: "'v \<Rightarrow> 'v CCoinsViewCache" where
  "new_cache baseIn = \<lparr>view_base = baseIn, hashBlock = uint256_of_u64 0, cacheCoins = []\<rparr>"

definition FetchCoins :: "'v CCoinsView \<Rightarrow> 'v CCoinsViewCache \<Rightarrow> txid \<Rightarrow> CCoinsCacheEntry option \<times> 'v CCoinsViewCache" where
  "FetchCoins base c txid =
     (case map_of (cacheCoins c) txid of
        Some e \<Rightarrow> (Some e, c)
      | None \<Rightarrow> (case view_GetCoins base (view_base c) txid of
          (None, b) \<Rightarrow> (None, c\<lparr>view_base := b\<rparr>)
        | (Some tmp, b) \<Rightarrow>
            let e = \<lparr>entry_coins = tmp, entry_flags = (if IsPruned tmp then FRESH else 0)\<rparr>
            in (Some e, c\<lparr>view_base := b, cacheCoins := (txid, e) # cacheCoins c\<rparr>)))"

definition cache_GetCoins :: "'v CCoinsView \<Rightarrow> 'v CCoinsViewCache \<Rightarrow> txid \<Rightarrow> CCoins option \<times> 'v CCoinsViewCache" where
  "cache_GetCoins base c txid =
     (case FetchCoins base c txid of (e, c) \<Rightarrow> (map_option entry_coins e, c))"

definition AccessCoins :: "'v CCoinsView \<Rightarrow> 'v CCoinsViewCache \<Rightarrow> txid \<Rightarrow> CCoins option \<times> 'v CCoinsViewCache" where
  "AccessCoins base c txid =
     (case FetchCoins base c txid of (e, c) \<Rightarrow> (map_option entry_coins e, c))"

definition HaveCoins :: "'v CCoinsView \<Rightarrow> 'v CCoinsViewCache \<Rightarrow> txid \<Rightarrow> bool \<times> 'v CCoinsViewCache" where
  "HaveCoins base c txid =
     (case FetchCoins base c txid of (e, c) \<Rightarrow>
        (case e of None \<Rightarrow> False | Some e \<Rightarrow> coins_vout (entry_coins e) \<noteq> [], c))"

definition GetBestBlock :: "'v CCoinsView \<Rightarrow> 'v CCoinsViewCache \<Rightarrow> base_uint \<times> 'v CCoinsViewCache" where
  "GetBestBlock base c =
     (if hashBlock c = uint256_of_u64 0
      then case view_GetBestBlock base (view_base c) of (h, b) \<Rightarrow> (h, c\<lparr>view_base := b, hashBlock := h\<rparr>)
      else (hashBlock c, c))"

definition SetBestBlock :: "'v CCoinsViewCache \<Rightarrow> base_uint \<Rightarrow> 'v CCoinsViewCache" where
  "SetBestBlock c hashBlockIn = c\<lparr>hashBlock := hashBlockIn\<rparr>"

text \<open>
  \<^verbatim>\<open>ModifyCoins\<close> returns the entry and puts it in the cache as dirty;
  \<open>release_modifier\<close> is the destructor of \<^verbatim>\<open>CCoinsModifier\<close>. \<open>with_coins\<close> is a use
  of the modifier: the code never opens a second one before the first is destroyed, which is what
  the assertions on \<^verbatim>\<open>hasModifier\<close> demand.
\<close>

definition ModifyCoins :: "'v CCoinsView \<Rightarrow> 'v CCoinsViewCache \<Rightarrow> txid \<Rightarrow> CCoinsCacheEntry \<times> 'v CCoinsViewCache" where
  "ModifyCoins base c txid =
     (let (e, b) = (case map_of (cacheCoins c) txid of
            Some e \<Rightarrow> (e, view_base c)
          | None \<Rightarrow> (case view_GetCoins base (view_base c) txid of
              (None, b) \<Rightarrow> (\<lparr>entry_coins = CCoins_Clear, entry_flags = FRESH\<rparr>, b)
            | (Some coins, b) \<Rightarrow> (\<lparr>entry_coins = coins, entry_flags = (if IsPruned coins then FRESH else 0)\<rparr>, b)));
          e = e\<lparr>entry_flags := entry_flags e OR DIRTY\<rparr>
      in (e, c\<lparr>view_base := b, cacheCoins := AList.update txid e (cacheCoins c)\<rparr>))"

definition release_modifier :: "'v CCoinsViewCache \<Rightarrow> txid \<Rightarrow> CCoinsCacheEntry \<Rightarrow> 'v CCoinsViewCache" where
  "release_modifier c txid e =
     (let e = e\<lparr>entry_coins := Cleanup (entry_coins e)\<rparr>
      in if is_fresh e \<and> IsPruned (entry_coins e)
         then c\<lparr>cacheCoins := AList.delete txid (cacheCoins c)\<rparr>
         else c\<lparr>cacheCoins := AList.update txid e (cacheCoins c)\<rparr>)"

definition with_coins :: "'v CCoinsView \<Rightarrow> 'v CCoinsViewCache \<Rightarrow> txid \<Rightarrow> (CCoins \<Rightarrow> 'r \<times> CCoins) \<Rightarrow> 'r \<times> 'v CCoinsViewCache" where
  "with_coins base c txid f =
     (case ModifyCoins base c txid of (e, c) \<Rightarrow>
      case f (entry_coins e) of (r, coins) \<Rightarrow> (r, release_modifier c txid (e\<lparr>entry_coins := coins\<rparr>)))"

text \<open>
  \<^verbatim>\<open>BatchWrite\<close> into a cache, one entry at a time; \<open>None\<close> is the failed
  assertion that an entry unknown to the parent is fresh.
\<close>

definition batch_entry :: "CCoinsMap \<Rightarrow> txid \<times> CCoinsCacheEntry \<Rightarrow> CCoinsMap option" where
  "batch_entry us it =
     (let k = fst it; e = snd it
      in if \<not> is_dirty e then Some us
         else case map_of us k of
           None \<Rightarrow>
             if IsPruned (entry_coins e) then Some us
             else if is_fresh e then Some (AList.update k \<lparr>entry_coins = entry_coins e, entry_flags = DIRTY OR FRESH\<rparr> us)
             else None
         | Some itUs \<Rightarrow>
             if is_fresh itUs \<and> IsPruned (entry_coins e) then Some (AList.delete k us)
             else Some (AList.update k \<lparr>entry_coins = entry_coins e, entry_flags = entry_flags itUs OR DIRTY\<rparr> us))"

fun batch_loop :: "CCoinsMap \<Rightarrow> CCoinsMap \<Rightarrow> CCoinsMap option" where
  "batch_loop us [] = Some us"
| "batch_loop us (it # mapCoins) = (case batch_entry us it of None \<Rightarrow> None | Some us \<Rightarrow> batch_loop us mapCoins)"

definition cache_BatchWrite :: "'v CCoinsViewCache \<Rightarrow> CCoinsMap \<Rightarrow> base_uint \<Rightarrow> ('v CCoinsViewCache \<times> bool) option" where
  "cache_BatchWrite c mapCoins hashBlockIn =
     map_option (\<lambda>us. (c\<lparr>cacheCoins := us, hashBlock := hashBlockIn\<rparr>, True)) (batch_loop (cacheCoins c) mapCoins)"

definition Flush :: "'v CCoinsView \<Rightarrow> 'v CCoinsViewCache \<Rightarrow> ('v CCoinsViewCache \<times> bool) option" where
  "Flush base c =
     map_option (\<lambda>(b, fOk). (c\<lparr>view_base := b, cacheCoins := []\<rparr>, fOk))
       (view_BatchWrite base (view_base c) (cacheCoins c) (hashBlock c))"

definition cache_view :: "'v CCoinsView \<Rightarrow> 'v CCoinsViewCache CCoinsView" where
  "cache_view base = \<lparr>view_GetCoins = cache_GetCoins base, view_GetBestBlock = GetBestBlock base,
     view_BatchWrite = cache_BatchWrite\<rparr>"

section \<open>The contract\<close>

definition unpruned :: "CCoins \<Rightarrow> CCoins option" where
  "unpruned c = (if IsPruned c then None else Some c)"

definition unpruned_opt :: "CCoins option \<Rightarrow> CCoins option" where
  "unpruned_opt r = (case r of None \<Rightarrow> None | Some c \<Rightarrow> unpruned c)"

definition overlay :: "CCoinsMap \<Rightarrow> (txid \<rightharpoonup> CCoins) \<Rightarrow> txid \<rightharpoonup> CCoins" where
  "overlay m u k = (case map_of m k of
     Some e \<Rightarrow> if is_dirty e then unpruned (entry_coins e) else u k
   | None \<Rightarrow> u k)"

definition batch_ok :: "(txid \<rightharpoonup> CCoins) \<Rightarrow> (txid \<Rightarrow> bool) \<Rightarrow> CCoinsMap \<Rightarrow> bool" where
  "batch_ok u known m \<longleftrightarrow> distinct (map fst m)
     \<and> (\<forall>k e. map_of m k = Some e \<longrightarrow> (if is_fresh e then u k = None else known k))"

lemma flag_or:
  "(f OR DIRTY) AND DIRTY \<noteq> 0" "(f OR DIRTY) AND FRESH \<noteq> 0 \<longleftrightarrow> f AND FRESH \<noteq> 0"
  "(DIRTY OR FRESH) AND FRESH \<noteq> 0"
proof -
  have d: "(f OR 1) AND 1 = (1 :: u8)" by (simp add: bit_eq_iff bit_simps)
  show "(f OR DIRTY) AND DIRTY \<noteq> 0" using d by (simp add: DIRTY_def)
  have "(f OR 1) AND 2 = f AND (2 :: u8)" by (simp add: bit.conj_disj_distrib2)
  then show "(f OR DIRTY) AND FRESH \<noteq> 0 \<longleftrightarrow> f AND FRESH \<noteq> 0" by (simp add: DIRTY_def FRESH_def)
  show "(DIRTY OR FRESH) AND FRESH \<noteq> 0" by (simp add: DIRTY_def FRESH_def)
qed

lemma overlay_Cons:
  "k \<notin> fst ` set m \<Longrightarrow>
     overlay ((k, e) # m) u = overlay m (if is_dirty e then u(k := unpruned (entry_coins e)) else u)"
  by (auto simp: overlay_def fun_eq_iff dest: map_of_SomeD split: option.splits)
    (metis domI domIff fst_conv image_eqI map_of_SomeD option.distinct(1))+

text \<open>What a cache over a view represents, and its invariant, over the functions of the base.\<close>

definition cache_utxo :: "('v \<Rightarrow> txid \<rightharpoonup> CCoins) \<Rightarrow> 'v CCoinsViewCache \<Rightarrow> txid \<rightharpoonup> CCoins" where
  "cache_utxo utxo c k =
     (case map_of (cacheCoins c) k of Some e \<Rightarrow> unpruned (entry_coins e) | None \<Rightarrow> utxo (view_base c) k)"

definition cache_best :: "('v \<Rightarrow> base_uint) \<Rightarrow> 'v CCoinsViewCache \<Rightarrow> base_uint" where
  "cache_best best c = (if hashBlock c = uint256_of_u64 0 then best (view_base c) else hashBlock c)"

definition entry_ok :: "('v \<Rightarrow> txid \<rightharpoonup> CCoins) \<Rightarrow> ('v \<Rightarrow> txid \<Rightarrow> bool) \<Rightarrow> 'v \<Rightarrow> txid \<Rightarrow> CCoinsCacheEntry \<Rightarrow> bool" where
  "entry_ok utxo known b k e \<longleftrightarrow> (if is_fresh e then utxo b k = None else known b k)
     \<and> (\<not> is_dirty e \<longrightarrow> unpruned (entry_coins e) = utxo b k)"

definition cache_inv :: "('v \<Rightarrow> bool) \<Rightarrow> ('v \<Rightarrow> txid \<rightharpoonup> CCoins) \<Rightarrow> ('v \<Rightarrow> txid \<Rightarrow> bool) \<Rightarrow> 'v CCoinsViewCache \<Rightarrow> bool" where
  "cache_inv ok utxo known c \<longleftrightarrow> ok (view_base c) \<and> distinct (map fst (cacheCoins c))
     \<and> (\<forall>k e. map_of (cacheCoins c) k = Some e \<longrightarrow> entry_ok utxo known (view_base c) k e)"

definition cache_known :: "'v CCoinsViewCache \<Rightarrow> txid \<Rightarrow> bool" where
  "cache_known c k \<longleftrightarrow> map_of (cacheCoins c) k \<noteq> None"

text \<open>
  A view represents the map \<open>utxo v\<close> and the best block \<open>best v\<close>. \<open>known v k\<close> says
  that the view itself keeps an entry for \<open>k\<close>, which a child cache relies on when it hands
  back an entry that is not fresh.
\<close>

locale readable_view =
  fixes ops :: "'v CCoinsView" and inv :: "'v \<Rightarrow> bool" and utxo :: "'v \<Rightarrow> txid \<rightharpoonup> CCoins"
    and best :: "'v \<Rightarrow> base_uint" and known :: "'v \<Rightarrow> txid \<Rightarrow> bool"
  assumes get: "inv v \<Longrightarrow> view_GetCoins ops v k = (r, v') \<Longrightarrow>
      inv v' \<and> utxo v' = utxo v \<and> best v' = best v \<and> unpruned_opt r = utxo v k
      \<and> (utxo v k \<noteq> None \<longrightarrow> known v' k) \<and> (\<forall>j. known v j \<longrightarrow> known v' j)"
    and get_best: "inv v \<Longrightarrow> view_GetBestBlock ops v = (h, v') \<Longrightarrow>
      inv v' \<and> utxo v' = utxo v \<and> best v' = best v \<and> h = best v \<and> (\<forall>j. known v j \<longrightarrow> known v' j)"
begin

lemma entry_ok_mono:
  assumes "utxo b' = utxo b" and "\<forall>j. known b j \<longrightarrow> known b' j" and "(entry_ok utxo known) b k e"
  shows "(entry_ok utxo known) b' k e"
  using assms by (auto simp: entry_ok_def)

lemma cache_inv_base:
  assumes "(cache_inv inv utxo known) c" and "inv b" "utxo b = utxo (view_base c)" "\<forall>j. known (view_base c) j \<longrightarrow> known b j"
  shows "(cache_inv inv utxo known) (c\<lparr>view_base := b\<rparr>)"
  using assms entry_ok_mono [OF assms(3,4)] by (auto simp: cache_inv_def)

lemma fetched_entry_ok:
  assumes "unpruned_opt (Some tmp) = utxo b k" and "utxo b k \<noteq> None \<longrightarrow> known b k"
  shows "(entry_ok utxo known) b k \<lparr>entry_coins = tmp, entry_flags = (if IsPruned tmp then FRESH else 0)\<rparr>"
  using assms by (auto simp: entry_ok_def unpruned_opt_def unpruned_def FRESH_def split: if_splits)

lemma FetchCoins_spec:
  assumes "(cache_inv inv utxo known) c" and "FetchCoins ops c k = (e, c')"
  shows "(cache_inv inv utxo known) c' \<and> (cache_utxo utxo) c' = (cache_utxo utxo) c \<and> (cache_best best) c' = (cache_best best) c
     \<and> unpruned_opt (map_option entry_coins e) = (cache_utxo utxo) c k
     \<and> ((cache_utxo utxo) c k \<noteq> None \<longrightarrow> cache_known c' k) \<and> (\<forall>j. cache_known c j \<longrightarrow> cache_known c' j)"
proof (cases "map_of (cacheCoins c) k")
  case (Some e')
  then have "e = Some e'" "c' = c" using assms(2) by (simp_all add: FetchCoins_def)
  then show ?thesis
    using assms(1) Some by (simp add: cache_utxo_def unpruned_opt_def cache_known_def)
next
  case None
  obtain r b where g: "view_GetCoins ops (view_base c) k = (r, b)" by force
  have i: "inv (view_base c)" using assms(1) by (simp add: cache_inv_def)
  note gs = get [OF i g]
  then have base: "(cache_inv inv utxo known) (c\<lparr>view_base := b\<rparr>)" using assms(1) cache_inv_base by blast
  show ?thesis
  proof (cases r)
    case None
    then have "e = None" "c' = c\<lparr>view_base := b\<rparr>"
      using assms(2) g \<open>map_of (cacheCoins c) k = None\<close> by (auto simp: FetchCoins_def)
    then show ?thesis
      using gs base None \<open>map_of (cacheCoins c) k = None\<close>
      by (auto simp: cache_utxo_def cache_best_def unpruned_opt_def cache_known_def fun_eq_iff split: option.splits)
  next
    case (Some tmp)
    let ?e = "\<lparr>entry_coins = tmp, entry_flags = (if IsPruned tmp then FRESH else 0)\<rparr>"
    have e: "e = Some ?e" and c': "c' = c\<lparr>view_base := b, cacheCoins := (k, ?e) # cacheCoins c\<rparr>"
      using assms(2) g \<open>map_of (cacheCoins c) k = None\<close> Some by (auto simp: FetchCoins_def Let_def)
    have "(entry_ok utxo known) b k ?e" using fetched_entry_ok gs Some by metis
    then have "(cache_inv inv utxo known) c'"
      using base \<open>map_of (cacheCoins c) k = None\<close> unfolding c' cache_inv_def by (auto simp: map_of_eq_None_iff)
    moreover have "unpruned tmp = utxo (view_base c) k" using gs Some by (simp add: unpruned_opt_def)
    ultimately show ?thesis
      using gs \<open>map_of (cacheCoins c) k = None\<close> unfolding e c'
      by (auto simp: cache_utxo_def cache_best_def unpruned_opt_def cache_known_def fun_eq_iff split: option.splits)
  qed
qed

lemma GetBestBlock_spec:
  assumes "(cache_inv inv utxo known) c" and "GetBestBlock ops c = (h, c')"
  shows "(cache_inv inv utxo known) c' \<and> (cache_utxo utxo) c' = (cache_utxo utxo) c \<and> (cache_best best) c' = (cache_best best) c \<and> h = (cache_best best) c
     \<and> (\<forall>j. cache_known c j \<longrightarrow> cache_known c' j) \<and> hashBlock c' = h"
proof (cases "hashBlock c = uint256_of_u64 0")
  case True
  obtain h' b where g: "view_GetBestBlock ops (view_base c) = (h', b)" by force
  have i: "inv (view_base c)" using assms(1) by (simp add: cache_inv_def)
  note gs = get_best [OF i g]
  then have "(cache_inv inv utxo known) (c\<lparr>view_base := b\<rparr>)" using assms(1) cache_inv_base by blast
  then show ?thesis
    using assms(2) True g gs by (auto simp: GetBestBlock_def cache_utxo_def cache_best_def cache_known_def cache_inv_def fun_eq_iff split: option.splits)
qed (use assms in \<open>auto simp: GetBestBlock_def cache_best_def\<close>)

definition entries_utxo :: "'v \<Rightarrow> CCoinsMap \<Rightarrow> txid \<rightharpoonup> CCoins" where
  "entries_utxo b us k = (case map_of us k of Some e \<Rightarrow> unpruned (entry_coins e) | None \<Rightarrow> utxo b k)"

definition entries_inv :: "'v \<Rightarrow> CCoinsMap \<Rightarrow> bool" where
  "entries_inv b us \<longleftrightarrow> distinct (map fst us) \<and> (\<forall>k e. map_of us k = Some e \<longrightarrow> (entry_ok utxo known) b k e)"

lemma cache_inv_entries: "(cache_inv inv utxo known) c \<longleftrightarrow> inv (view_base c) \<and> entries_inv (view_base c) (cacheCoins c)"
  by (simp add: cache_inv_def entries_inv_def)

lemma cache_utxo_entries: "(cache_utxo utxo) c = entries_utxo (view_base c) (cacheCoins c)"
  by (simp add: fun_eq_iff cache_utxo_def entries_utxo_def)

lemma entries_update:
  assumes "entries_inv b us" and "(entry_ok utxo known) b k e"
  shows "entries_inv b (AList.update k e us)
     \<and> entries_utxo b (AList.update k e us) = (entries_utxo b us)(k := unpruned (entry_coins e))"
  using assms by (auto simp: entries_inv_def entries_utxo_def fun_eq_iff update_conv' distinct_update)

lemma entries_delete:
  assumes "entries_inv b us" and "utxo b k = None"
  shows "entries_inv b (AList.delete k us)
     \<and> entries_utxo b (AList.delete k us) = (entries_utxo b us)(k := None)"
  using assms by (auto simp: entries_inv_def entries_utxo_def fun_eq_iff delete_conv' distinct_delete)

lemma batch_entry_spec:
  assumes "entries_inv b us" and "if is_fresh e then entries_utxo b us k = None else map_of us k \<noteq> None"
  shows "\<exists>us'. batch_entry us (k, e) = Some us' \<and> entries_inv b us'
     \<and> entries_utxo b us' = (if is_dirty e then (entries_utxo b us)(k := unpruned (entry_coins e)) else entries_utxo b us)
     \<and> (\<forall>j. j \<noteq> k \<longrightarrow> map_of us' j = map_of us j)"
proof (cases "is_dirty e")
  case False
  then show ?thesis using assms(1) by (simp add: batch_entry_def)
next
  case dirty: True
  show ?thesis
  proof (cases "map_of us k")
    case None
    with assms(2) have fr: "is_fresh e" and u: "utxo b k = None" by (auto simp: entries_utxo_def split: if_splits)
    show ?thesis
    proof (cases "IsPruned (entry_coins e)")
      case True
      then have "(entries_utxo b us)(k := unpruned (entry_coins e)) = entries_utxo b us"
        using None u by (simp add: fun_eq_iff entries_utxo_def unpruned_def)
      with dirty None True assms(1) show ?thesis by (simp add: batch_entry_def)
    next
      case False
      let ?e = "\<lparr>entry_coins = entry_coins e, entry_flags = DIRTY OR FRESH\<rparr>"
      have "(entry_ok utxo known) b k ?e" using u flag_or(3) flag_or(1) [of FRESH] by (simp add: entry_ok_def or.commute)
      from entries_update [OF assms(1) this] dirty None False fr show ?thesis
        by (auto simp: batch_entry_def update_conv')
    qed
  next
    case (Some itUs)
    then have ok: "(entry_ok utxo known) b k itUs" using assms(1) by (simp add: entries_inv_def)
    show ?thesis
    proof (cases "is_fresh itUs \<and> IsPruned (entry_coins e)")
      case True
      then have "utxo b k = None" using ok by (simp add: entry_ok_def)
      from entries_delete [OF assms(1) this] dirty Some True show ?thesis
        by (auto simp: batch_entry_def delete_conv' unpruned_def)
    next
      case False
      let ?e = "\<lparr>entry_coins = entry_coins e, entry_flags = entry_flags itUs OR DIRTY\<rparr>"
      have "(entry_ok utxo known) b k ?e" using ok flag_or(1,2) [of "entry_flags itUs"] by (simp add: entry_ok_def)
      from entries_update [OF assms(1) this] dirty Some False show ?thesis
        by (auto simp: batch_entry_def update_conv')
    qed
  qed
qed

lemma batch_loop_spec:
  assumes "entries_inv b us" and "batch_ok (entries_utxo b us) (\<lambda>k. map_of us k \<noteq> None) m"
  shows "\<exists>us'. batch_loop us m = Some us' \<and> entries_inv b us' \<and> entries_utxo b us' = overlay m (entries_utxo b us)"
  using assms
proof (induction m arbitrary: us)
  case Nil
  then show ?case by (simp add: overlay_def fun_eq_iff)
next
  case (Cons it m)
  obtain k e where it: "it = (k, e)" by force
  have "if is_fresh e then entries_utxo b us k = None else map_of us k \<noteq> None"
    using Cons.prems(2) by (simp add: batch_ok_def it)
  from batch_entry_spec [OF Cons.prems(1) this] obtain us1 where us1: "batch_entry us (k, e) = Some us1" "entries_inv b us1"
    "entries_utxo b us1 = (if is_dirty e then (entries_utxo b us)(k := unpruned (entry_coins e)) else entries_utxo b us)"
    "\<forall>j. j \<noteq> k \<longrightarrow> map_of us1 j = map_of us j" by blast
  have nk: "k \<notin> fst ` set m" using Cons.prems(2) by (simp add: batch_ok_def it)
  have "if is_fresh e' then entries_utxo b us1 k' = None else map_of us1 k' \<noteq> None" if "map_of m k' = Some e'" for k' e'
  proof -
    have "k' \<noteq> k" using that nk by (metis fst_conv image_eqI map_of_SomeD)
    moreover have "map_of (it # m) k' = Some e'" using that calculation it by simp
    ultimately show ?thesis using Cons.prems(2) us1(3,4) by (auto simp: batch_ok_def)
  qed
  moreover have "distinct (map fst m)" using Cons.prems(2) by (simp add: batch_ok_def)
  ultimately have "batch_ok (entries_utxo b us1) (\<lambda>k. map_of us1 k \<noteq> None) m"
    unfolding batch_ok_def by blast
  from Cons.IH [OF us1(2) this] show ?case
    using us1 overlay_Cons [OF nk] by (auto simp: it)
qed

lemma ModifyCoins_spec:
  assumes "(cache_inv inv utxo known) c" and "ModifyCoins ops c k = (e, c')"
  shows "(cache_inv inv utxo known) c' \<and> map_of (cacheCoins c') k = Some e \<and> unpruned (entry_coins e) = (cache_utxo utxo) c k
     \<and> (entry_ok utxo known) (view_base c') k e \<and> is_dirty e \<and> (cache_utxo utxo) c' = (cache_utxo utxo) c
     \<and> hashBlock c' = hashBlock c \<and> best (view_base c') = best (view_base c)"
proof -
  let ?d = "\<lambda>e. e\<lparr>entry_flags := entry_flags e OR DIRTY\<rparr>"
  obtain e0 b where eb: "inv b" "utxo b = utxo (view_base c)" "best b = best (view_base c)"
      "\<forall>j. known (view_base c) j \<longrightarrow> known b j" "(entry_ok utxo known) b k e0" "unpruned (entry_coins e0) = (cache_utxo utxo) c k"
      "e = ?d e0" "c' = c\<lparr>view_base := b, cacheCoins := AList.update k (?d e0) (cacheCoins c)\<rparr>"
  proof (cases "map_of (cacheCoins c) k")
    case (Some e')
    then have "e = ?d e'" "c' = c\<lparr>view_base := view_base c, cacheCoins := AList.update k (?d e') (cacheCoins c)\<rparr>"
      using assms(2) by (auto simp: ModifyCoins_def Let_def)
    then show ?thesis
      using that [of "view_base c" e'] assms(1) Some by (auto simp: cache_inv_def cache_utxo_def)
  next
    case None
    obtain r b where g: "view_GetCoins ops (view_base c) k = (r, b)" by force
    have "inv (view_base c)" using assms(1) by (simp add: cache_inv_def)
    note gs = get [OF this g]
    show ?thesis
    proof (cases r)
      case None
      then have "utxo b k = None" using gs by (simp add: unpruned_opt_def)
      then have "(entry_ok utxo known) b k \<lparr>entry_coins = CCoins_Clear, entry_flags = FRESH\<rparr>"
        by (simp add: entry_ok_def FRESH_def unpruned_def IsPruned_def CCoins_Clear_def)
      with None gs g \<open>map_of (cacheCoins c) k = None\<close> show ?thesis
        using that [of b "\<lparr>entry_coins = CCoins_Clear, entry_flags = FRESH\<rparr>"] assms(2)
        by (auto simp: ModifyCoins_def Let_def cache_utxo_def unpruned_opt_def unpruned_def IsPruned_def CCoins_Clear_def)
    next
      case (Some tmp)
      let ?e = "\<lparr>entry_coins = tmp, entry_flags = (if IsPruned tmp then FRESH else 0)\<rparr>"
      have "(entry_ok utxo known) b k ?e" using fetched_entry_ok gs Some by metis
      with Some gs g \<open>map_of (cacheCoins c) k = None\<close> show ?thesis
        using that [of b ?e] assms(2) by (auto simp: ModifyCoins_def Let_def cache_utxo_def unpruned_opt_def)
    qed
  qed
  have ok: "(entry_ok utxo known) b k (?d e0)" using eb(5) flag_or(1,2) [of "entry_flags e0"] by (simp add: entry_ok_def)
  have "entries_inv b (cacheCoins c)"
    using assms(1) entry_ok_mono [OF eb(2,4)] by (auto simp: cache_inv_def entries_inv_def)
  from entries_update [OF this ok] have "(cache_inv inv utxo known) c'"
    "(cache_utxo utxo) c' = (entries_utxo b (cacheCoins c))(k := unpruned (entry_coins e0))"
    using eb(1) by (simp_all add: eb(8) cache_inv_entries cache_utxo_entries)
  moreover have "entries_utxo b (cacheCoins c) = (cache_utxo utxo) c"
    by (intro ext) (simp add: entries_utxo_def cache_utxo_def eb(2) split: option.split)
  ultimately show ?thesis
    using eb ok flag_or(1) [of "entry_flags e0"] by (auto simp: update_conv')
qed

lemma with_coins_spec:
  assumes "(cache_inv inv utxo known) c" and "with_coins ops c k f = (r, c')"
  shows "\<exists>c0. unpruned c0 = (cache_utxo utxo) c k \<and> r = fst (f c0) \<and> (cache_inv inv utxo known) c'
     \<and> (cache_utxo utxo) c' = ((cache_utxo utxo) c)(k := unpruned (Cleanup (snd (f c0))))
     \<and> hashBlock c' = hashBlock c \<and> (cache_best best) c' = (cache_best best) c"
proof -
  obtain e c1 where m: "ModifyCoins ops c k = (e, c1)" by force
  note ms = ModifyCoins_spec [OF assms(1) m]
  let ?e = "e\<lparr>entry_coins := Cleanup (snd (f (entry_coins e)))\<rparr>"
  have r: "r = fst (f (entry_coins e))" and c': "c' = (if is_fresh e \<and> IsPruned (entry_coins ?e)
      then c1\<lparr>cacheCoins := AList.delete k (cacheCoins c1)\<rparr> else c1\<lparr>cacheCoins := AList.update k ?e (cacheCoins c1)\<rparr>)"
    using assms(2) m by (auto simp: with_coins_def release_modifier_def Let_def split: prod.splits)
  have inv1: "inv (view_base c1)" "entries_inv (view_base c1) (cacheCoins c1)"
    using ms by (simp_all add: cache_inv_entries)
  have "(cache_inv inv utxo known) c' \<and> (cache_utxo utxo) c' = ((cache_utxo utxo) c1)(k := unpruned (entry_coins ?e))"
  proof (cases "is_fresh e \<and> IsPruned (entry_coins ?e)")
    case True
    then have "utxo (view_base c1) k = None" using ms by (simp add: entry_ok_def)
    from entries_delete [OF inv1(2) this] inv1(1) True show ?thesis
      by (simp add: c' cache_inv_entries cache_utxo_entries unpruned_def)
  next
    case False
    have "(entry_ok utxo known) (view_base c1) k ?e" using ms by (simp add: entry_ok_def)
    moreover have "c' = c1\<lparr>cacheCoins := AList.update k ?e (cacheCoins c1)\<rparr>" unfolding c' if_not_P [OF False] ..
    ultimately show ?thesis
      using entries_update [OF inv1(2), of k ?e] inv1(1) by (simp add: cache_inv_entries cache_utxo_entries)
  qed
  moreover have "hashBlock c' = hashBlock c1" "view_base c' = view_base c1" by (simp_all add: c')
  ultimately show ?thesis using ms r by (auto simp: cache_best_def)
qed

lemma cache_put:
  assumes "(cache_inv inv utxo known) c" and "batch_ok ((cache_utxo utxo) c) (cache_known c) m" and "h \<noteq> uint256_of_u64 0"
  shows "\<exists>c'. cache_BatchWrite c m h = Some (c', True) \<and> (cache_inv inv utxo known) c' \<and> (cache_utxo utxo) c' = overlay m ((cache_utxo utxo) c)
     \<and> (cache_best best) c' = h"
proof -
  have "batch_ok (entries_utxo (view_base c) (cacheCoins c)) (\<lambda>k. map_of (cacheCoins c) k \<noteq> None) m"
    using assms(2) by (simp only: cache_utxo_entries cache_known_def [abs_def])
  from batch_loop_spec [OF _ this] assms(1) obtain us' where "batch_loop (cacheCoins c) m = Some us'"
    "entries_inv (view_base c) us'" "entries_utxo (view_base c) us' = overlay m (entries_utxo (view_base c) (cacheCoins c))"
    by (auto simp: cache_inv_entries)
  with assms show ?thesis
    by (simp add: cache_BatchWrite_def cache_inv_entries cache_utxo_entries cache_best_def)
qed

lemma cache_get:
  assumes "(cache_inv inv utxo known) c" and "cache_GetCoins ops c k = (r, c')"
  shows "(cache_inv inv utxo known) c' \<and> (cache_utxo utxo) c' = (cache_utxo utxo) c \<and> (cache_best best) c' = (cache_best best) c
     \<and> unpruned_opt r = (cache_utxo utxo) c k
     \<and> ((cache_utxo utxo) c k \<noteq> None \<longrightarrow> cache_known c' k) \<and> (\<forall>j. cache_known c j \<longrightarrow> cache_known c' j)"
proof -
  obtain e where "FetchCoins ops c k = (e, c')" "r = map_option entry_coins e"
    using assms(2) by (auto simp: cache_GetCoins_def split: prod.splits)
  with FetchCoins_spec [OF assms(1)] show ?thesis by blast
qed

lemma new_cache_inv: "inv b \<Longrightarrow> (cache_inv inv utxo known) (new_cache b) \<and> (cache_utxo utxo) (new_cache b) = utxo b \<and> (cache_best best) (new_cache b) = best b"
  by (simp add: new_cache_def cache_inv_def cache_utxo_def [abs_def] cache_best_def)

end

text \<open>A view that can be written, too: the batch of a child replaces what it names.\<close>

locale coins_view = readable_view +
  assumes put: "inv v \<Longrightarrow> batch_ok (utxo v) (known v) m \<Longrightarrow> h \<noteq> uint256_of_u64 0 \<Longrightarrow>
      \<exists>v'. view_BatchWrite ops v m h = Some (v', True) \<and> inv v' \<and> utxo v' = overlay m (utxo v) \<and> best v' = h"
begin

lemma Flush_spec:
  assumes "(cache_inv inv utxo known) c" and "hashBlock c \<noteq> uint256_of_u64 0"
  shows "\<exists>c'. Flush ops c = Some (c', True) \<and> (cache_inv inv utxo known) c' \<and> (cache_utxo utxo) c' = (cache_utxo utxo) c
     \<and> utxo (view_base c') = (cache_utxo utxo) c \<and> best (view_base c') = hashBlock c \<and> hashBlock c' = hashBlock c"
proof -
  let ?b = "view_base c"
  have ok: "batch_ok (utxo ?b) (known ?b) (cacheCoins c)"
    using assms(1) unfolding cache_inv_def entry_ok_def batch_ok_def by blast
  have "inv ?b" using assms(1) by (simp add: cache_inv_def)
  from put [OF this ok assms(2)] obtain b' where b': "view_BatchWrite ops ?b (cacheCoins c) (hashBlock c) = Some (b', True)"
    "inv b'" "utxo b' = overlay (cacheCoins c) (utxo ?b)" "best b' = hashBlock c" by blast
  have "overlay (cacheCoins c) (utxo ?b) = (cache_utxo utxo) c"
    using assms(1) by (auto simp: fun_eq_iff overlay_def cache_utxo_def cache_inv_def entry_ok_def split: option.splits)
  with b' show ?thesis
    by (simp add: Flush_def cache_inv_def cache_utxo_def [abs_def] fun_eq_iff)
qed

end

context readable_view begin

text \<open>A cache over a view that can be read keeps the whole contract.\<close>

lemma cache_is_view: "coins_view (cache_view ops) (cache_inv inv utxo known) (cache_utxo utxo) (cache_best best) cache_known"
proof unfold_locales
  fix c k r c'
  assume "(cache_inv inv utxo known) c" "view_GetCoins (cache_view ops) c k = (r, c')"
  then show "(cache_inv inv utxo known) c' \<and> (cache_utxo utxo) c' = (cache_utxo utxo) c \<and> (cache_best best) c' = (cache_best best) c
     \<and> unpruned_opt r = (cache_utxo utxo) c k
     \<and> ((cache_utxo utxo) c k \<noteq> None \<longrightarrow> cache_known c' k) \<and> (\<forall>j. cache_known c j \<longrightarrow> cache_known c' j)"
    by (intro cache_get) (simp_all add: cache_view_def)
next
  fix c h c'
  assume "(cache_inv inv utxo known) c" "view_GetBestBlock (cache_view ops) c = (h, c')"
  then show "(cache_inv inv utxo known) c' \<and> (cache_utxo utxo) c' = (cache_utxo utxo) c \<and> (cache_best best) c' = (cache_best best) c \<and> h = (cache_best best) c
     \<and> (\<forall>j. cache_known c j \<longrightarrow> cache_known c' j)"
    using GetBestBlock_spec [of c h c'] by (simp add: cache_view_def)
next
  fix c m h
  assume "(cache_inv inv utxo known) c" "batch_ok ((cache_utxo utxo) c) (cache_known c) m" "h \<noteq> uint256_of_u64 0"
  from cache_put [OF this] show "\<exists>c'. view_BatchWrite (cache_view ops) c m h = Some (c', True) \<and> (cache_inv inv utxo known) c'
     \<and> (cache_utxo utxo) c' = overlay m ((cache_utxo utxo) c) \<and> (cache_best best) c' = h"
    by (simp add: cache_view_def)
qed

end

section \<open>The database keeps the contract\<close>

definition db_utxo :: "CCoinsViewDB \<Rightarrow> txid \<rightharpoonup> CCoins" where
  "db_utxo db = map_of (db_coins db)"

definition clean_alist :: "(txid \<times> CCoins) list \<Rightarrow> bool" where
  "clean_alist batch \<longleftrightarrow> distinct (map fst batch) \<and> (\<forall>k. unpruned_opt (map_of batch k) = map_of batch k)"

definition db_inv :: "CCoinsViewDB \<Rightarrow> bool" where "db_inv db \<longleftrightarrow> clean_alist (db_coins db)"

definition db_best_block :: "CCoinsViewDB \<Rightarrow> base_uint" where
  "db_best_block db = (case db_best db of None \<Rightarrow> uint256_of_u64 0 | Some h \<Rightarrow> h)"

lemma unpruned_opt_unpruned [simp]: "unpruned_opt (unpruned c) = unpruned c"
  by (simp add: unpruned_opt_def unpruned_def)

lemma BatchWriteCoins_spec:
  assumes "clean_alist batch"
  shows "clean_alist (BatchWriteCoins batch k c) \<and> map_of (BatchWriteCoins batch k c) = (map_of batch)(k := unpruned c)"
  using assms by (auto simp: clean_alist_def BatchWriteCoins_def unpruned_def unpruned_opt_def delete_conv' update_conv' distinct_delete distinct_update)

lemma db_write_loop_spec:
  assumes "clean_alist batch" and "distinct (map fst m)"
  shows "clean_alist (db_write_loop batch m) \<and> map_of (db_write_loop batch m) = overlay m (map_of batch)"
  using assms
proof (induction batch m rule: db_write_loop.induct)
  case (1 batch)
  then show ?case by (simp add: overlay_def fun_eq_iff)
next
  case (2 batch k e m)
  then have nk: "k \<notin> fst ` set m" by simp
  let ?b = "if is_dirty e then BatchWriteCoins batch k (entry_coins e) else batch"
  have "clean_alist ?b" "map_of ?b = (if is_dirty e then (map_of batch)(k := unpruned (entry_coins e)) else map_of batch)"
    using 2(2) BatchWriteCoins_spec [of batch k "entry_coins e"] by auto
  with 2(1) 2(3) show ?case unfolding db_write_loop.simps overlay_Cons [OF nk] by simp
qed

interpretation db: coins_view db_view db_inv db_utxo db_best_block "\<lambda>_ _. True"
proof
  fix db k r db'
  assume "db_inv db" "view_GetCoins db_view db k = (r, db')"
  then show "db_inv db' \<and> db_utxo db' = db_utxo db \<and> db_best_block db' = db_best_block db
     \<and> unpruned_opt r = db_utxo db k \<and> (db_utxo db k \<noteq> None \<longrightarrow> True) \<and> (\<forall>j. True \<longrightarrow> True)"
    by (auto simp: db_view_def db_GetCoins_def db_utxo_def db_inv_def clean_alist_def)
next
  fix db h db'
  assume "db_inv db" "view_GetBestBlock db_view db = (h, db')"
  then show "db_inv db' \<and> db_utxo db' = db_utxo db \<and> db_best_block db' = db_best_block db \<and> h = db_best_block db
     \<and> (\<forall>j. True \<longrightarrow> True)"
    by (auto simp: db_view_def db_GetBestBlock_def db_best_block_def)
next
  fix db m h
  assume a: "db_inv db" "batch_ok (db_utxo db) (\<lambda>_. True) m" "h \<noteq> uint256_of_u64 0"
  then have "clean_alist (db_coins db)" "distinct (map fst m)" by (simp_all add: db_inv_def batch_ok_def)
  note spec = db_write_loop_spec [OF this]
  with a(3) show "\<exists>db'. view_BatchWrite db_view db m h = Some (db', True) \<and> db_inv db' \<and> db_utxo db' = overlay m (db_utxo db)
     \<and> db_best_block db' = h"
    unfolding db_view_def db_BatchWrite_def db_inv_def db_utxo_def db_best_block_def by simp
qed

text \<open>The node's stack: \<^verbatim>\<open>pcoinsTip\<close> over the database, a working view over it.\<close>

type_synonym tip_cache = "CCoinsViewDB CCoinsViewCache"
type_synonym work_cache = "tip_cache CCoinsViewCache"

abbreviation tip_ops :: "tip_cache CCoinsView" where "tip_ops \<equiv> cache_view db_view"
abbreviation tip_utxo :: "tip_cache \<Rightarrow> txid \<rightharpoonup> CCoins" where "tip_utxo \<equiv> cache_utxo db_utxo"
abbreviation tip_best :: "tip_cache \<Rightarrow> base_uint" where "tip_best \<equiv> cache_best db_best_block"
abbreviation tip_inv :: "tip_cache \<Rightarrow> bool" where "tip_inv \<equiv> cache_inv db_inv db_utxo (\<lambda>_ _. True)"
abbreviation work_utxo :: "work_cache \<Rightarrow> txid \<rightharpoonup> CCoins" where "work_utxo \<equiv> cache_utxo tip_utxo"
abbreviation work_best :: "work_cache \<Rightarrow> base_uint" where "work_best \<equiv> cache_best tip_best"
abbreviation work_inv :: "work_cache \<Rightarrow> bool" where "work_inv \<equiv> cache_inv tip_inv tip_utxo cache_known"

interpretation tip: coins_view tip_ops tip_inv tip_utxo tip_best cache_known
  by (rule db.cache_is_view)

interpretation work: coins_view "cache_view tip_ops" work_inv work_utxo work_best cache_known
  by (rule tip.cache_is_view)

lemma SetBestBlock_fields [simp]:
  "view_base (SetBestBlock c h) = view_base c" "cacheCoins (SetBestBlock c h) = cacheCoins c"
  "hashBlock (SetBestBlock c h) = h"
  by (simp_all add: SetBestBlock_def)

lemma SetBestBlock_simps [simp]:
  "cache_inv i u kn (SetBestBlock c h) = cache_inv i u kn c" "cache_utxo u (SetBestBlock c h) = cache_utxo u c"
  by (simp_all add: cache_inv_def fun_eq_iff cache_utxo_def split: option.split)

lemma AccessCoins_eq: "AccessCoins = cache_GetCoins"
  by (simp add: fun_eq_iff AccessCoins_def cache_GetCoins_def)

section \<open>Theorems\<close>


definition ex_work :: work_cache where
  "ex_work = SetBestBlock (snd (with_coins tip_ops (new_cache (new_cache \<lparr>db_coins = [], db_best = None\<rparr>))
      (uint256_of_u64 1) (\<lambda>c. ((), ex_coins)))) (uint256_of_u64 5)"

lemma small_hash_nonzero: "n \<noteq> 0 \<Longrightarrow> uint256_of_u64 n \<noteq> uint256_of_u64 0"
  by (metis is_uint256_simps unat_0 uval_uint256_of_u64 word_unat_eq_iff)

lemma ex_work_inv: "work_inv ex_work"
proof -
  let ?db = "\<lparr>db_coins = [], db_best = None\<rparr>"
  have "db_inv ?db" by (simp add: db_inv_def clean_alist_def unpruned_opt_def)
  then have "work_inv (new_cache (new_cache ?db))" using db.new_cache_inv tip.new_cache_inv by blast
  from tip.with_coins_spec [OF this surjective_pairing, of "uint256_of_u64 1" "\<lambda>c. ((), ex_coins)"] show ?thesis
    by (auto simp: ex_work_def)
qed


text \<open>
  C28. A modification through \<^verbatim>\<open>ModifyCoins\<close> changes the represented map at its
  transaction only: the function sees the coins the view holds there (or fully spent ones), and
  the map is updated with the cleaned-up result, which disappears when it is fully spent; the
  invariant of the caches is kept.
\<close>

theorem modify_updates_one_entry:
  assumes "work_inv w" and "with_coins tip_ops w k f = (r, w')"
  shows "\<exists>c0. unpruned c0 = work_utxo w k \<and> r = fst (f c0) \<and> work_inv w'
     \<and> work_utxo w' = (work_utxo w)(k := unpruned (Cleanup (snd (f c0)))) \<and> work_best w' = work_best w"
  using tip.with_coins_spec [OF assms] by blast

theorem modify_updates_one_entry_witness:
  "\<exists>r w' c0. with_coins tip_ops ex_work (uint256_of_u64 1) (\<lambda>c. (7 :: nat, CCoins_Clear)) = (r, w')
     \<and> unpruned c0 = work_utxo ex_work (uint256_of_u64 1) \<and> work_utxo w' (uint256_of_u64 1) = None"
proof -
  have "unpruned (Cleanup CCoins_Clear) = None"
    unfolding unpruned_def IsPruned_Cleanup by (simp add: IsPruned_def CCoins_Clear_def)
  with modify_updates_one_entry [OF ex_work_inv surjective_pairing, of "uint256_of_u64 1" "\<lambda>c. (7 :: nat, CCoins_Clear)"]
  show ?thesis
    by (metis fun_upd_same snd_conv surjective_pairing)
qed

end
