(* ===== verification/Subsidy.thy ===== *)
theory Subsidy
  imports Block_Index
begin

text \<open>
  The block reward schedule and the masternode share of \<^verbatim>\<open>src/main.cpp\<close>
  (\<^verbatim>\<open>GetBlockValue\<close>, \<^verbatim>\<open>GetMasternodePayment\<close>), with the double
  arithmetic of the share modelled bit for bit.
\<close>

section \<open>The schedule\<close>

text \<open>
  \<^verbatim>\<open>GetBlockValue\<close> in source order. The fractional literals of the source
  (\<^verbatim>\<open>0.5 * COIN\<close> to \<^verbatim>\<open>11.5 * COIN\<close>) are products of doubles whose value is
  the exact multiple of a tenth of \<^verbatim>\<open>COIN\<close>, and are written as that multiple. The
  statements after the first \<^verbatim>\<open>return nSubsidy;\<close> are unreachable and contribute
  nothing.
\<close>

definition GetBlockValue :: "CChainParams \<Rightarrow> int \<Rightarrow> int" where
  "GetBlockValue params h =
     (if NetworkID params = TESTNET \<and> h < LAST_POW_BLOCK params \<and> 0 < h then 10 * COIN else
      if h = 0 then 250000 * COIN else
      if h = 5 then 50000 * COIN else
      if h < 10000 \<and> 0 < h then 1 * COIN else
      if h \<le> 19999 \<and> 10000 \<le> h then 5 * (COIN div 10) else
      if h \<le> 29999 \<and> 20000 \<le> h then 1 * (COIN div 10) else
      if h \<le> 39999 \<and> 30000 \<le> h then 1 * (COIN div 10) else
      if h \<le> 49999 \<and> 40000 \<le> h then 1 * COIN else
      if h \<le> 59999 \<and> 50000 \<le> h then 2 * COIN else
      if h \<le> 69999 \<and> 60000 \<le> h then 2 * COIN else
      if h \<le> 79999 \<and> 70000 \<le> h then 3 * COIN else
      if h \<le> 89999 \<and> 80000 \<le> h then 4 * COIN else
      if h \<le> 99999 \<and> 90000 \<le> h then 5 * COIN else
      if h \<le> 109999 \<and> 100000 \<le> h then 6 * COIN else
      if h \<le> 119999 \<and> 110000 \<le> h then 65 * (COIN div 10) else
      if h \<le> 129999 \<and> 120000 \<le> h then 7 * COIN else
      if h \<le> 139999 \<and> 130000 \<le> h then 75 * (COIN div 10) else
      if h \<le> 149999 \<and> 140000 \<le> h then 8 * COIN else
      if h \<le> 159999 \<and> 150000 \<le> h then 85 * (COIN div 10) else
      if h \<le> 169999 \<and> 160000 \<le> h then 9 * COIN else
      if h \<le> 179999 \<and> 170000 \<le> h then 95 * (COIN div 10) else
      if h \<le> 189999 \<and> 180000 \<le> h then 10 * COIN else
      if h \<le> 199999 \<and> 190000 \<le> h then 105 * (COIN div 10) else
      if h \<le> 209999 \<and> 200000 \<le> h then 11 * COIN else
      if h \<le> 219999 \<and> 210000 \<le> h then 115 * (COIN div 10) else
      if h \<le> 229999 \<and> 220000 \<le> h then 12 * COIN else
      if h \<le> 239999 \<and> 230000 \<le> h then 115 * (COIN div 10) else
      if h \<le> 249999 \<and> 240000 \<le> h then 11 * COIN else
      if h \<le> 259999 \<and> 250000 \<le> h then 105 * (COIN div 10) else
      if h \<le> 269999 \<and> 260000 \<le> h then 10 * COIN else
      if h \<le> 279999 \<and> 270000 \<le> h then 95 * (COIN div 10) else
      if h \<le> 289999 \<and> 280000 \<le> h then 9 * COIN else
      if h \<le> 299999 \<and> 290000 \<le> h then 85 * (COIN div 10) else
      if h \<le> 309999 \<and> 300000 \<le> h then 8 * COIN else
      if h \<le> 319999 \<and> 310000 \<le> h then 75 * (COIN div 10) else
      if h \<le> 329999 \<and> 320000 \<le> h then 74 * (COIN div 10) else
      if h \<le> 339999 \<and> 330000 \<le> h then 73 * (COIN div 10) else
      if h \<le> 349999 \<and> 340000 \<le> h then 72 * (COIN div 10) else
      if h \<le> 359999 \<and> 350000 \<le> h then 71 * (COIN div 10) else
      if h \<le> 369999 \<and> 360000 \<le> h then 7 * COIN else
      if h \<le> 379999 \<and> 370000 \<le> h then 69 * (COIN div 10) else
      if h \<le> 389999 \<and> 380000 \<le> h then 68 * (COIN div 10) else
      if h \<le> 399999 \<and> 390000 \<le> h then 67 * (COIN div 10) else
      if h \<le> 409999 \<and> 400000 \<le> h then 66 * (COIN div 10) else
      if h \<le> 419999 \<and> 410000 \<le> h then 65 * (COIN div 10) else
      if h \<le> 429999 \<and> 420000 \<le> h then 64 * (COIN div 10) else
      if h \<le> 439999 \<and> 430000 \<le> h then 63 * (COIN div 10) else
      if h \<le> 449999 \<and> 440000 \<le> h then 62 * (COIN div 10) else
      if h \<le> 459999 \<and> 450000 \<le> h then 61 * (COIN div 10) else
      if h \<le> 469999 \<and> 460000 \<le> h then 6 * COIN else
      if h \<le> 479999 \<and> 470000 \<le> h then 59 * (COIN div 10) else
      if h \<le> 489999 \<and> 480000 \<le> h then 58 * (COIN div 10) else
      if h \<le> 499999 \<and> 490000 \<le> h then 57 * (COIN div 10) else
      if h \<le> 509999 \<and> 500000 \<le> h then 56 * (COIN div 10) else
      if h \<le> 519999 \<and> 510000 \<le> h then 55 * (COIN div 10) else
      if 520000 \<le> h then 5 * COIN else
      5 * COIN)"

section \<open>The masternode share\<close>

text \<open>
  Multiplication of an integer by a double literal and conversion back to \<^verbatim>\<open>int64_t\<close>.
  \<open>rne53\<close> rounds to 53 significant bits, ties to even; a double factor is \<open>m / 2^53\<close>.
\<close>

fun bitlength :: "nat \<Rightarrow> nat" where
  "bitlength n = (if n = 0 then 0 else Suc (bitlength (n div 2)))"

declare bitlength.simps [simp del]

definition rne53 :: "nat \<Rightarrow> nat" where
  "rne53 n =
     (let k = bitlength n - 53
      in if k = 0 then n
         else let q = n div 2 ^ k; r = n mod 2 ^ k; half = 2 ^ (k - 1)
              in (if half < r \<or> r = half \<and> odd q then q + 1 else q) * 2 ^ k)"

definition double_scale :: "int \<Rightarrow> nat \<Rightarrow> int" where
  "double_scale v m = sgn v * int (rne53 (rne53 (nat \<bar>v\<bar>) * m) div 2 ^ 53)"

text \<open>The mantissas of the doubles nearest to 0.8 and 0.9, over \<open>2^53\<close>.\<close>

definition double_0_8 :: nat where "double_0_8 = 7205759403792794"
definition double_0_9 :: nat where "double_0_9 = 8106479329266893"

definition GetMasternodePayment :: "CChainParams \<Rightarrow> int \<Rightarrow> int \<Rightarrow> int \<Rightarrow> int" where
  "GetMasternodePayment params h blockValue nMasternodeCount =
     (if h < LAST_POW_BLOCK params \<or> blockValue = 0 then 0
      else if h \<le> 40000 then double_scale blockValue double_0_8
      else double_scale blockValue double_0_9)"

section \<open>Rounding\<close>

lemma bitlength_lt: "n < 2 ^ bitlength n"
proof (induction n rule: bitlength.induct)
  case (1 n)
  show ?case
  proof (cases "n = 0")
    case False
    then have "n div 2 < 2 ^ bitlength (n div 2)" by (rule 1)
    then have "n < 2 * 2 ^ bitlength (n div 2)" by linarith
    with False show ?thesis by (simp add: bitlength.simps [of n])
  qed simp
qed

lemma bitlength_le: "n < 2 ^ m \<Longrightarrow> bitlength n \<le> m"
proof (induction n arbitrary: m rule: bitlength.induct)
  case (1 n)
  show ?case
  proof (cases "n = 0")
    case True
    then show ?thesis by (simp add: bitlength.simps [of 0])
  next
    case False
    with "1.prems" obtain m' where m: "m = Suc m'" by (cases m) auto
    with "1.prems" have "n div 2 < 2 ^ m'" by auto
    with False "1.IH" m show ?thesis by (simp add: bitlength.simps [of n])
  qed
qed

lemma rne53_small: "n < 2 ^ 53 \<Longrightarrow> rne53 n = n"
  using bitlength_le [of n 53] by (simp add: rne53_def)

text \<open>Rounding keeps a lower bound that has no low bits, and errs by at most half a unit.\<close>

lemma rne53_bounds:
  assumes "n < 2 ^ (53 + j)" and "2 ^ j dvd a" and "a \<le> n"
  shows "a \<le> rne53 n" and "2 * rne53 n \<le> 2 * n + 2 ^ j"
proof -
  define k where "k = bitlength n - 53"
  have kj: "k \<le> j" using bitlength_le [OF assms(1)] by (simp add: k_def)
  define q r where "q = n div 2 ^ k" and "r = n mod 2 ^ k"
  have n: "n = q * 2 ^ k + r" unfolding q_def r_def by (rule div_mult_mod_eq [symmetric])
  have "2 ^ k dvd a" using assms(2) kj by (meson dvd_trans le_imp_power_dvd)
  then have "a = a div 2 ^ k * 2 ^ k" by simp
  also have "\<dots> \<le> q * 2 ^ k" unfolding q_def by (intro mult_le_mono1 div_le_mono assms(3))
  finally have a: "a \<le> q * 2 ^ k" .
  show "a \<le> rne53 n"
    using a assms(3) by (auto simp: rne53_def Let_def k_def [symmetric] q_def [symmetric])
  show "2 * rne53 n \<le> 2 * n + 2 ^ j"
  proof (cases "k = 0")
    case True
    then show ?thesis by (simp add: rne53_def Let_def k_def)
  next
    case False
    have half: "2 * 2 ^ (k - 1) = (2::nat) ^ k" using False by (cases k) simp_all
    have kj': "(2::nat) ^ k \<le> 2 ^ j" using kj by (rule power_increasing) simp
    have "rne53 n = (if 2 ^ (k - 1) < r \<or> r = 2 ^ (k - 1) \<and> odd q then q + 1 else q) * 2 ^ k"
      using False by (simp add: rne53_def Let_def k_def q_def r_def)
    then have "2 * rne53 n \<le> 2 * n + 2 ^ k" using n half by (auto simp: algebra_simps)
    with kj' show ?thesis by linarith
  qed
qed

text \<open>
  A double factor just above the fraction \<open>p / d\<close> computes the integer part of \<open>v p / d\<close> exactly
  for every amount below \<open>2^49\<close>.
\<close>

lemma double_scale_exact:
  assumes "0 \<le> v" and "v < 2 ^ 49" and "d * m = p * 2 ^ 53 + 2" and "0 < d" and "d \<le> 10" and "p \<le> d"
    and "m < 2 ^ 53"
  shows "double_scale v m = v * int p div int d"
proof -
  define w where "w = nat v"
  define P q where "P = w * m" and "q = w * p div d"
  have w: "w < 2 ^ 49" "v = int w" using assms(1,2) by (simp_all add: w_def)
  have Plt: "P < 2 ^ (53 + 49)"
  proof -
    have "P \<le> w * 2 ^ 53" unfolding P_def using assms(7) by (intro mult_le_mono2) simp
    also have "\<dots> < 2 ^ 49 * 2 ^ 53" using w(1) by simp
    finally show ?thesis by (simp add: power_add)
  qed
  have dP: "d * P = w * p * 2 ^ 53 + 2 * w"
  proof -
    have "d * P = w * (d * m)" by (simp add: P_def)
    then show ?thesis by (simp add: assms(3) algebra_simps)
  qed
  have q: "d * q \<le> w * p" "w * p < d * (q + 1)"
    using assms(4) by (simp_all add: q_def dividend_less_times_div)
  have "d * (q * 2 ^ 53) \<le> d * P" unfolding dP using mult_le_mono1 [OF q(1), of "2 ^ 53"] by simp
  then have lo: "q * 2 ^ 53 \<le> P" using assms(4) by simp
  have "(2::nat) ^ 49 dvd q * 2 ^ 53" by (intro dvd_mult le_imp_power_dvd) simp
  note b = rne53_bounds [OF Plt this lo]
  have "2 * (d * rne53 P) \<le> 2 * (d * P) + d * 2 ^ 49"
    using mult_le_mono2 [OF b(2), of d] by (simp add: algebra_simps)
  also have "\<dots> \<le> 2 * (w * p * 2 ^ 53) + (4 * w + 10 * 2 ^ 49)"
    unfolding dP using assms(5) by simp
  also have "\<dots> < 2 * (w * p * 2 ^ 53) + 2 * 2 ^ 53" using w(1) by simp
  also have "\<dots> = 2 * ((w * p + 1) * 2 ^ 53)" by (simp add: algebra_simps)
  also have "\<dots> \<le> 2 * (d * (q + 1) * 2 ^ 53)" using q(2) by (intro mult_le_mono) simp_all
  finally have "2 * d * rne53 P < 2 * d * ((q + 1) * 2 ^ 53)" by (simp only: mult.assoc)
  then have "rne53 P < (q + 1) * 2 ^ 53" by (rule mult_less_cancel1 [THEN iffD1, THEN conjunct2])
  with b(1) have "rne53 P div 2 ^ 53 = q" by (intro div_nat_eqI) (simp_all add: mult.commute)
  moreover have "rne53 w = w" using w(1) by (intro rne53_small) simp
  ultimately have "double_scale v m = sgn v * int q" using w(2) by (simp add: double_scale_def P_def)
  then show ?thesis using w(2) by (cases "w = 0") (simp_all add: q_def zdiv_int)
qed

text \<open>
  The masternode share: for every block value that can occur the double arithmetic gives
  exactly the integer part of four fifths of the value up to height 40000 and of nine tenths
  above it; nothing is paid before the last proof-of-work block, and the share never exceeds
  the value.
\<close>

theorem masternode_share_exact:
  assumes "0 \<le> v" and "v < 2 ^ 49"
  shows "GetMasternodePayment params h v n =
           (if h < LAST_POW_BLOCK params then 0 else if h \<le> 40000 then v * 4 div 5 else v * 9 div 10)
       \<and> 0 \<le> GetMasternodePayment params h v n \<and> GetMasternodePayment params h v n \<le> v"
proof -
  have "double_scale v double_0_8 = v * int 4 div int 5" "double_scale v double_0_9 = v * int 9 div int 10"
    by (rule double_scale_exact [OF assms]; simp add: double_0_8_def double_0_9_def)+
  then have *: "GetMasternodePayment params h v n =
           (if h < LAST_POW_BLOCK params then 0 else if h \<le> 40000 then v * 4 div 5 else v * 9 div 10)"
    by (simp add: GetMasternodePayment_def)
  then show ?thesis unfolding * using assms(1) by auto
qed

theorem masternode_share_exact_witness:
  "GetMasternodePayment CMainParams 50000 (2 * COIN) 10 = 180000000"
  using masternode_share_exact [of "2 * COIN" CMainParams 50000 10] by (simp add: COIN_def CMainParams_def)

section \<open>Emission\<close>

lemma GetBlockValue_nonneg: "0 \<le> GetBlockValue params h"
  unfolding GetBlockValue_def COIN_def by simp

lemma GetBlockValue_max: "GetBlockValue params h \<le> 250000 * COIN"
  unfolding GetBlockValue_def COIN_def by simp

lemma GetBlockValue_tail: "520000 \<le> h \<Longrightarrow> GetBlockValue params h = 5 * COIN \<or> NetworkID params = TESTNET \<and> GetBlockValue params h = 10 * COIN"
  unfolding GetBlockValue_def by simp

definition emission :: "CChainParams \<Rightarrow> nat \<Rightarrow> int" where
  "emission params H = (\<Sum>h = 0..H. GetBlockValue params (int h))"

lemma emission_lower:
  "5 * COIN * (int H - 519999) \<le> emission CMainParams H"
proof (cases "520000 \<le> H")
  case True
  have tail: "GetBlockValue CMainParams (int h) = 5 * COIN" if "520000 \<le> h" for h
    using GetBlockValue_tail [of "int h" CMainParams] that by (simp add: CMainParams_def)
  have "5 * COIN * (int H - 519999) = (\<Sum>h = 520000..H. 5 * COIN)" using True by simp
  also have "\<dots> = (\<Sum>h = 520000..H. GetBlockValue CMainParams (int h))"
    by (rule sum.cong) (simp_all add: tail)
  also have "\<dots> \<le> emission CMainParams H"
    unfolding emission_def by (rule sum_mono2) (simp_all add: GetBlockValue_nonneg)
  finally show ?thesis .
next
  case False
  have "0 \<le> emission CMainParams H" unfolding emission_def by (intro sum_nonneg GetBlockValue_nonneg)
  moreover have "5 * COIN * (int H - 519999) \<le> 0" using False by (intro mult_nonneg_nonpos) (simp_all add: COIN_def)
  ultimately show ?thesis by linarith
qed

text \<open>
  C35. The supply cap is not enforced by the reward schedule: the statements that would clamp
  the subsidy at \<^verbatim>\<open>MaxMoneyOut\<close> come after the return, so every block from height 520000 on
  creates five coins, and the coins created up to height 4720000 exceed the 21 million of
  \<^verbatim>\<open>MaxMoneyOut\<close>.
\<close>

theorem supply_cap_not_enforced:
  "(\<forall>h. 520000 \<le> h \<longrightarrow> GetBlockValue CMainParams h = 5 * COIN)
   \<and> MaxMoneyOut CMainParams < emission CMainParams 4720000"
proof (intro conjI allI impI)
  show "GetBlockValue CMainParams h = 5 * COIN" if "520000 \<le> h" for h
    using GetBlockValue_tail [OF that, of CMainParams] by (simp add: CMainParams_def)
  show "MaxMoneyOut CMainParams < emission CMainParams 4720000"
    using emission_lower [of 4720000] by (simp add: CMainParams_def COIN_def)
qed

theorem supply_cap_not_enforced_witness:
  "GetBlockValue CMainParams 600000 = 5 * COIN \<and> MaxMoneyOut CMainParams < emission CMainParams 4720000"
  using supply_cap_not_enforced by simp

text \<open>
  Every subsidy is positive and below \<open>2^49\<close> satoshis, so the masternode share of any
  subsidy is exact and the rest is left to the staker.
\<close>

theorem subsidy_range:
  "0 < GetBlockValue params h \<and> GetBlockValue params h \<le> 250000 * COIN \<and> 250000 * COIN < 2 ^ 49"
  unfolding GetBlockValue_def COIN_def by simp

end
