(* ===== verification/Connect.thy ===== *)
theory Connect
  imports Coins_View Subsidy
begin

text \<open>
  Connecting a block (\<^verbatim>\<open>CheckInputs\<close>, \<^verbatim>\<open>UpdateCoins\<close> and
  \<^verbatim>\<open>ConnectBlock\<close> of \<^verbatim>\<open>src/main.cpp\<close>), the transaction level reads of the
  coin cache (\<^verbatim>\<open>src/coins.cpp\<close>), checkpoints (\<^verbatim>\<open>src/checkpoints.cpp\<close>) and the
  overmint check (\<^verbatim>\<open>src/masternode-payments.cpp\<close>). An outcome of type \<open>fault + 'a\<close>
  is an exception, a failed assertion or an undefined read; inside it \<open>Inl st\<close> is the
  \<^verbatim>\<open>return false\<close> of the code with the validation state it leaves.
\<close>

section \<open>Validation state\<close>

datatype mode_state = MODE_VALID | MODE_INVALID | MODE_ERROR

record CValidationState =
  vs_mode :: mode_state
  vs_nDoS :: nat
  strRejectReason :: string
  chRejectCode :: nat
  corruptionPossible :: bool

definition state_valid :: CValidationState where
  "state_valid = \<lparr>vs_mode = MODE_VALID, vs_nDoS = 0, strRejectReason = '''', chRejectCode = 0, corruptionPossible = False\<rparr>"

definition state_DoS :: "CValidationState \<Rightarrow> nat \<Rightarrow> nat \<Rightarrow> string \<Rightarrow> bool \<Rightarrow> CValidationState" where
  "state_DoS st level chRejectCodeIn strRejectReasonIn corruptionIn =
     (let st = st\<lparr>chRejectCode := chRejectCodeIn, strRejectReason := strRejectReasonIn, corruptionPossible := corruptionIn\<rparr>
      in if vs_mode st = MODE_ERROR then st else st\<lparr>vs_nDoS := vs_nDoS st + level, vs_mode := MODE_INVALID\<rparr>)"

definition state_Invalid :: "CValidationState \<Rightarrow> nat \<Rightarrow> string \<Rightarrow> CValidationState" where
  "state_Invalid st code reason = state_DoS st 0 code reason False"

definition state_Error :: "CValidationState \<Rightarrow> string \<Rightarrow> CValidationState" where
  "state_Error st reason =
     (let st = (if vs_mode st = MODE_VALID then st\<lparr>strRejectReason := reason\<rparr> else st) in st\<lparr>vs_mode := MODE_ERROR\<rparr>)"

datatype fault = Threw value_error | Threw_uint uint_error | AssertFalse | NullRead | OutOfRange

lemma bindE_check: "bindE m (\<lambda>r. case r of Inl st \<Rightarrow> Inr (Inl st) | Inr x \<Rightarrow> f x) = Inr (Inr y)
    \<longleftrightarrow> (\<exists>x. m = Inr (Inr x) \<and> f x = Inr (Inr y))"
  by (auto simp: bindE_def split: sum.splits)

section \<open>Checkpoints\<close>

type_synonym MapCheckpoints = "(int \<times> base_uint) list"

text \<open>The 256-bit constant written as a hexadecimal literal.\<close>

definition uint256_lit :: "nat \<Rightarrow> base_uint" where
  "uint256_lit v = map (\<lambda>i. of_nat (v div 2 ^ (32 * i))) [0..<8]"

definition mapCheckpoints :: MapCheckpoints where
  "mapCheckpoints =
    [(0, uint256_lit 0x00000b684592eca69dd056de0b68509587bbef1f5b5189144b1ad408f4af2fe8),
     (12488, uint256_lit 0x41feeeefb37b2fd376db33e1348252721bbd937df41acd893f49fd1f769d85ba),
     (55573, uint256_lit 0x0b48d6b10654251f4460d65d60ddd5cf92339dda2e6350518912a3ebaa958643),
     (137453, uint256_lit 0xca6d7be5a11aec01c215d2f75f4a3adf1b63a616b61a9b31730a67594dbdb00d),
     (1007480, uint256_lit 0x38e9459e2c621615ff2f7dbd810df307b94a7bd4645dab9ea2bdc47006326cd5)]"

definition mapCheckpointsTestnet :: MapCheckpoints where
  "mapCheckpointsTestnet = [(0, uint256_lit 0x000006b786ee9e022948360467e4d6375c7600464f237008dc854a48967eb901)]"

definition Checkpoints_CheckBlock :: "bool \<Rightarrow> MapCheckpoints \<Rightarrow> int \<Rightarrow> base_uint \<Rightarrow> bool \<Rightarrow> bool" where
  "Checkpoints_CheckBlock fEnabled checkpoints h hash fMatchesCheckpoint =
     (if \<not> fEnabled then True
      else case map_of checkpoints h of None \<Rightarrow> \<not> fMatchesCheckpoint | Some i \<Rightarrow> hash = i)"

definition GetTotalBlocksEstimate :: "bool \<Rightarrow> MapCheckpoints \<Rightarrow> int" where
  "GetTotalBlocksEstimate fEnabled checkpoints = (if \<not> fEnabled then 0 else fst (last checkpoints))"

fun last_checkpoint_loop :: "(base_uint \<Rightarrow> CBlockIndex option) \<Rightarrow> MapCheckpoints \<Rightarrow> CBlockIndex option" where
  "last_checkpoint_loop mapBlockIndex [] = None"
| "last_checkpoint_loop mapBlockIndex (i # cs) =
     (case mapBlockIndex (snd i) of Some t \<Rightarrow> Some t | None \<Rightarrow> last_checkpoint_loop mapBlockIndex cs)"

definition GetLastCheckpoint :: "bool \<Rightarrow> MapCheckpoints \<Rightarrow> (base_uint \<Rightarrow> CBlockIndex option) \<Rightarrow> CBlockIndex option" where
  "GetLastCheckpoint fEnabled checkpoints mapBlockIndex =
     (if \<not> fEnabled then None else last_checkpoint_loop mapBlockIndex (rev checkpoints))"

section \<open>Spending and adding coins\<close>

definition spend_input :: "'v CCoinsView \<Rightarrow> 'v CCoinsViewCache \<Rightarrow> COutPoint \<Rightarrow> CTxInUndo option \<times> 'v CCoinsViewCache" where
  "spend_input base inputs p = with_coins base inputs (op_hash p)
     (\<lambda>coins. case Spend coins (unat (op_n p)) of None \<Rightarrow> (None, coins) | Some (coins, undo) \<Rightarrow> (Some undo, coins))"

fun spend_inputs :: "'v CCoinsView \<Rightarrow> 'v CCoinsViewCache \<Rightarrow> CTxIn list \<Rightarrow> (CTxInUndo list \<times> 'v CCoinsViewCache) option" where
  "spend_inputs base inputs [] = Some ([], inputs)"
| "spend_inputs base inputs (txin # vins) =
     (case spend_input base inputs (prevout txin) of
        (None, inputs) \<Rightarrow> None
      | (Some undo, inputs) \<Rightarrow> (case spend_inputs base inputs vins of
          None \<Rightarrow> None | Some (undos, inputs) \<Rightarrow> Some (undo # undos, inputs)))"

text \<open>\<^verbatim>\<open>UpdateCoins\<close>; \<open>None\<close> is the failed assertion that every input could be spent.\<close>

definition UpdateCoins :: "'v CCoinsView \<Rightarrow> CTransaction \<Rightarrow> 'v CCoinsViewCache \<Rightarrow> int \<Rightarrow> (CTxInUndo list \<times> 'v CCoinsViewCache) option" where
  "UpdateCoins base tx inputs h =
     (case (if IsCoinBase tx then Some ([], inputs) else spend_inputs base inputs (vin tx)) of
        None \<Rightarrow> None
      | Some (txundo, inputs) \<Rightarrow> Some (txundo, snd (with_coins base inputs (tx_hash tx) (\<lambda>coins. ((), FromTx tx h)))))"

section \<open>Reading inputs\<close>

fun have_inputs_loop :: "'v CCoinsView \<Rightarrow> 'v CCoinsViewCache \<Rightarrow> CTxIn list \<Rightarrow> bool \<times> 'v CCoinsViewCache" where
  "have_inputs_loop base view [] = (True, view)"
| "have_inputs_loop base view (txin # vins) =
     (case AccessCoins base view (op_hash (prevout txin)) of
        (None, view) \<Rightarrow> (False, view)
      | (Some coins, view) \<Rightarrow> if \<not> IsAvailable coins (unat (op_n (prevout txin))) then (False, view)
                             else have_inputs_loop base view vins)"

definition HaveInputs :: "'v CCoinsView \<Rightarrow> 'v CCoinsViewCache \<Rightarrow> CTransaction \<Rightarrow> bool \<times> 'v CCoinsViewCache" where
  "HaveInputs base view tx = (if \<not> IsCoinBase tx then have_inputs_loop base view (vin tx) else (True, view))"

definition GetOutputFor :: "'v CCoinsView \<Rightarrow> 'v CCoinsViewCache \<Rightarrow> CTxIn \<Rightarrow> fault + CTxOut \<times> 'v CCoinsViewCache" where
  "GetOutputFor base view input =
     (case AccessCoins base view (op_hash (prevout input)) of
        (None, view) \<Rightarrow> Inl AssertFalse
      | (Some coins, view) \<Rightarrow> if IsAvailable coins (unat (op_n (prevout input)))
          then Inr (coins_vout coins ! unat (op_n (prevout input)), view) else Inl AssertFalse)"

fun value_in_loop :: "'v CCoinsView \<Rightarrow> 'v CCoinsViewCache \<Rightarrow> int \<Rightarrow> CTxIn list \<Rightarrow> fault + int \<times> 'v CCoinsViewCache" where
  "value_in_loop base view nResult [] = Inr (nResult, view)"
| "value_in_loop base view nResult (txin # vins) =
     bindE (GetOutputFor base view txin) (\<lambda>(out, view). value_in_loop base view (add64 nResult (nValue out)) vins)"

definition GetValueIn :: "'v CCoinsView \<Rightarrow> 'v CCoinsViewCache \<Rightarrow> CTransaction \<Rightarrow> fault + int \<times> 'v CCoinsViewCache" where
  "GetValueIn base view tx = (if IsCoinBase tx then Inr (0, view) else value_in_loop base view 0 (vin tx))"

definition GetLegacySigOpCount :: "CTransaction \<Rightarrow> u32" where
  "GetLegacySigOpCount tx =
     foldl (+) (foldl (+) 0 (map (\<lambda>txin. of_nat (GetSigOpCount False (scriptSig txin))) (vin tx)))
       (map (\<lambda>txout. of_nat (GetSigOpCount False (scriptPubKey txout))) (vout tx))"

fun p2sh_sigop_loop :: "'v CCoinsView \<Rightarrow> 'v CCoinsViewCache \<Rightarrow> u32 \<Rightarrow> CTxIn list \<Rightarrow> fault + u32 \<times> 'v CCoinsViewCache" where
  "p2sh_sigop_loop base inputs nSigOps [] = Inr (nSigOps, inputs)"
| "p2sh_sigop_loop base inputs nSigOps (txin # vins) =
     bindE (GetOutputFor base inputs txin) (\<lambda>(out, inputs).
       p2sh_sigop_loop base inputs
         (if IsPayToScriptHash (scriptPubKey out)
          then nSigOps + of_nat (GetSigOpCountP2SH (scriptPubKey out) (scriptSig txin)) else nSigOps) vins)"

definition GetP2SHSigOpCount :: "'v CCoinsView \<Rightarrow> CTransaction \<Rightarrow> 'v CCoinsViewCache \<Rightarrow> fault + u32 \<times> 'v CCoinsViewCache" where
  "GetP2SHSigOpCount base tx inputs = (if IsCoinBase tx then Inr (0, inputs) else p2sh_sigop_loop base inputs 0 (vin tx))"


section \<open>Checking inputs\<close>

definition SCRIPT_VERIFY_P2SH :: u32 where "SCRIPT_VERIFY_P2SH = push_bit 0 1"
definition SCRIPT_VERIFY_STRICTENC :: u32 where "SCRIPT_VERIFY_STRICTENC = push_bit 1 1"
definition SCRIPT_VERIFY_DERSIG :: u32 where "SCRIPT_VERIFY_DERSIG = push_bit 2 1"
definition SCRIPT_VERIFY_NULLDUMMY :: u32 where "SCRIPT_VERIFY_NULLDUMMY = push_bit 4 1"
definition SCRIPT_VERIFY_MINIMALDATA :: u32 where "SCRIPT_VERIFY_MINIMALDATA = push_bit 6 1"
definition SCRIPT_VERIFY_DISCOURAGE_UPGRADABLE_NOPS :: u32 where
  "SCRIPT_VERIFY_DISCOURAGE_UPGRADABLE_NOPS = push_bit 7 1"

definition MANDATORY_SCRIPT_VERIFY_FLAGS :: u32 where
  "MANDATORY_SCRIPT_VERIFY_FLAGS = SCRIPT_VERIFY_P2SH"

definition STANDARD_SCRIPT_VERIFY_FLAGS :: u32 where
  "STANDARD_SCRIPT_VERIFY_FLAGS = MANDATORY_SCRIPT_VERIFY_FLAGS OR SCRIPT_VERIFY_DERSIG OR SCRIPT_VERIFY_STRICTENC
     OR SCRIPT_VERIFY_MINIMALDATA OR SCRIPT_VERIFY_NULLDUMMY OR SCRIPT_VERIFY_DISCOURAGE_UPGRADABLE_NOPS"

definition STANDARD_NOT_MANDATORY_VERIFY_FLAGS :: u32 where
  "STANDARD_NOT_MANDATORY_VERIFY_FLAGS = STANDARD_SCRIPT_VERIFY_FLAGS AND NOT MANDATORY_SCRIPT_VERIFY_FLAGS"

definition REJECT_NONSTANDARD :: nat where "REJECT_NONSTANDARD = 0x40"

text \<open>
  What the checks read besides the view. \<open>env_VerifyScript\<close> stands for
  \<^verbatim>\<open>VerifyScript\<close> with the signature checker of a transaction: the script error as a
  string, or \<open>None\<close> for success. \<open>env_CheckBlock\<close> stands for the context-free checks of
  a block, \<open>env_GetHash\<close> for the header hash.
\<close>

record connect_env =
  env_params :: CChainParams
  env_fEnabled :: bool
  env_checkpoints :: MapCheckpoints
  env_mapBlockIndex :: "base_uint \<Rightarrow> CBlockIndex option"
  env_vChain :: "CBlockIndex list"
  env_nScriptCheckThreads :: int
  env_fTxIndex :: bool
  env_VerifyScript :: "bytes \<Rightarrow> bytes \<Rightarrow> u32 \<Rightarrow> CTransaction \<Rightarrow> nat \<Rightarrow> string option"
  env_GetHash :: "CBlockHeader \<Rightarrow> base_uint"
  env_HashGenesisBlock :: base_uint
  env_CheckBlock :: "CBlock \<Rightarrow> CValidationState \<Rightarrow> bool \<Rightarrow> bool \<Rightarrow> fault + (CValidationState + CValidationState)"
  env_IsSynced :: bool
  env_superblocks :: bool
  env_IsBudgetPaymentBlock :: "int \<Rightarrow> bool"
  env_FindUndoPos :: "CValidationState \<Rightarrow> int \<Rightarrow> CTxInUndo list list \<Rightarrow> CValidationState + u32"
  env_WriteUndo :: "CTxInUndo list list \<Rightarrow> base_uint \<Rightarrow> bool"
  env_WriteTxIndex :: "(base_uint \<times> CDiskBlockPos \<times> nat) list \<Rightarrow> bool"

text \<open>A deferred script check (\<^verbatim>\<open>CScriptCheck\<close>) and its run.\<close>

record CScriptCheck =
  chk_scriptPubKey :: bytes
  chk_tx :: CTransaction
  chk_nIn :: nat
  chk_nFlags :: u32

definition CScriptCheck_run :: "connect_env \<Rightarrow> CScriptCheck \<Rightarrow> string option" where
  "CScriptCheck_run env check =
     env_VerifyScript env (scriptSig (vin (chk_tx check) ! chk_nIn check)) (chk_scriptPubKey check)
       (chk_nFlags check) (chk_tx check) (chk_nIn check)"

fun input_values_loop :: "connect_env \<Rightarrow> 'v CCoinsView \<Rightarrow> int \<Rightarrow> CValidationState \<Rightarrow> 'v CCoinsViewCache \<Rightarrow> int \<Rightarrow> CTxIn list
    \<Rightarrow> fault + (CValidationState + int) \<times> 'v CCoinsViewCache" where
  "input_values_loop env base nSpendHeight st inputs nValueIn [] = Inr (Inr nValueIn, inputs)"
| "input_values_loop env base nSpendHeight st inputs nValueIn (txin # vins) =
     (case AccessCoins base inputs (op_hash (prevout txin)) of
        (None, inputs) \<Rightarrow> Inl AssertFalse
      | (Some coins, inputs) \<Rightarrow>
          if (fCoinBase coins \<or> fCoinStake coins)
             \<and> nSpendHeight - coins_nHeight coins < COINBASE_MATURITY (env_params env)
          then Inr (Inl (state_Invalid st REJECT_INVALID ''bad-txns-premature-spend-of-coinbase''), inputs)
          else if length (coins_vout coins) \<le> unat (op_n (prevout txin)) then Inl OutOfRange
          else let v = nValue (coins_vout coins ! unat (op_n (prevout txin)));
                   nValueIn = add64 nValueIn v
               in if \<not> MoneyRange (env_params env) v \<or> \<not> MoneyRange (env_params env) nValueIn
                  then Inr (Inl (state_DoS st 100 REJECT_INVALID ''bad-txns-inputvalues-outofrange'' False), inputs)
                  else input_values_loop env base nSpendHeight st inputs nValueIn vins)"

fun script_checks_loop :: "connect_env \<Rightarrow> 'v CCoinsView \<Rightarrow> CTransaction \<Rightarrow> u32 \<Rightarrow> bool \<Rightarrow> CValidationState
    \<Rightarrow> 'v CCoinsViewCache \<Rightarrow> CScriptCheck list \<Rightarrow> nat \<Rightarrow> CTxIn list
    \<Rightarrow> fault + (CValidationState + CScriptCheck list) \<times> 'v CCoinsViewCache" where
  "script_checks_loop env base tx flags pvChecks st inputs checks i [] = Inr (Inr checks, inputs)"
| "script_checks_loop env base tx flags pvChecks st inputs checks i (txin # vins) =
     (case AccessCoins base inputs (op_hash (prevout txin)) of
        (None, inputs) \<Rightarrow> Inl AssertFalse
      | (Some coins, inputs) \<Rightarrow>
          if length (coins_vout coins) \<le> unat (op_n (prevout txin)) then Inl OutOfRange
          else let check = \<lparr>chk_scriptPubKey = scriptPubKey (coins_vout coins ! unat (op_n (prevout txin))),
                            chk_tx = tx, chk_nIn = i, chk_nFlags = flags\<rparr>
               in if pvChecks
                  then script_checks_loop env base tx flags pvChecks st inputs (checks @ [check]) (i + 1) vins
                  else (case CScriptCheck_run env check of
                      None \<Rightarrow> script_checks_loop env base tx flags pvChecks st inputs checks (i + 1) vins
                    | Some err \<Rightarrow>
                        if flags AND STANDARD_NOT_MANDATORY_VERIFY_FLAGS \<noteq> 0
                           \<and> CScriptCheck_run env (check\<lparr>chk_nFlags := flags AND NOT STANDARD_NOT_MANDATORY_VERIFY_FLAGS\<rparr>) = None
                        then Inr (Inl (state_Invalid st REJECT_NONSTANDARD ''non-mandatory-script-verify-flag (No error)''), inputs)
                        else Inr (Inl (state_DoS st 100 REJECT_INVALID
                               (''mandatory-script-verify-flag-failed ('' @ err @ '')'') False), inputs)))"

text \<open>The amount checks after the loop over the inputs; \<^verbatim>\<open>nFees\<close> starts at zero.\<close>

definition check_fee :: "connect_env \<Rightarrow> CTransaction \<Rightarrow> CValidationState \<Rightarrow> int \<Rightarrow> fault + (CValidationState + unit)" where
  "check_fee env tx st nValueIn =
     (if IsCoinStake tx then Inr (Inr ())
      else case GetValueOut tx of
        Inl e \<Rightarrow> Inl (Threw e)
      | Inr valueOut \<Rightarrow>
          if nValueIn < valueOut then Inr (Inl (state_DoS st 100 REJECT_INVALID ''bad-txns-in-belowout'' False))
          else let nTxFee = wrap64 (nValueIn - valueOut) in
            if nTxFee < 0 then Inr (Inl (state_DoS st 100 REJECT_INVALID ''bad-txns-fee-negative'' False))
            else if \<not> MoneyRange (env_params env) (add64 0 nTxFee)
                 then Inr (Inl (state_DoS st 100 REJECT_INVALID ''bad-txns-fee-outofrange'' False))
            else Inr (Inr ()))"

text \<open>
  \<^verbatim>\<open>CheckInputs\<close>; \<open>pvChecks\<close> says that the caller passed a vector for the script
  checks, which is returned.
\<close>

definition CheckInputs :: "connect_env \<Rightarrow> 'v CCoinsView \<Rightarrow> CTransaction \<Rightarrow> CValidationState \<Rightarrow> 'v CCoinsViewCache
    \<Rightarrow> bool \<Rightarrow> u32 \<Rightarrow> bool \<Rightarrow> fault + (CValidationState + CScriptCheck list) \<times> 'v CCoinsViewCache" where
  "CheckInputs env base tx st inputs fScriptChecks flags pvChecks =
     (if IsCoinBase tx then Inr (Inr [], inputs)
      else case HaveInputs base inputs tx of (have, inputs) \<Rightarrow>
        if \<not> have then Inr (Inl (state_Invalid st 0 ''''), inputs)
        else case GetBestBlock base inputs of (h, inputs) \<Rightarrow>
        case env_mapBlockIndex env h of
          None \<Rightarrow> Inl NullRead
        | Some pindexPrev \<Rightarrow>
            bindE (input_values_loop env base (nHeight pindexPrev + 1) st inputs 0 (vin tx)) (\<lambda>(r, inputs).
            case r of Inl st \<Rightarrow> Inr (Inl st, inputs)
            | Inr nValueIn \<Rightarrow> bindE (check_fee env tx st nValueIn) (\<lambda>r.
                case r of Inl st \<Rightarrow> Inr (Inl st, inputs)
                | Inr _ \<Rightarrow> if fScriptChecks
                    then script_checks_loop env base tx flags pvChecks st inputs [] 0 (vin tx)
                    else Inr (Inr [], inputs))))"


section \<open>Connecting a block\<close>

definition MAX_BLOCK_SIGOPS :: u32 where "MAX_BLOCK_SIGOPS = of_nat (MAX_BLOCK_SIZE div 50)"
definition SOFT_FORK_VERSION_110 :: int where "SOFT_FORK_VERSION_110 = 250000"

definition GetBudgetPaymentCycleBlocks :: "CChainParams \<Rightarrow> int" where
  "GetBudgetPaymentCycleBlocks params = (if NetworkID params = MAIN then 43200 else 144)"

text \<open>
  \<^verbatim>\<open>IsBlockValueValid\<close>. The tip's hash pointer is never null; \<^verbatim>\<open>%\<close> has
  non-negative operands.
\<close>

definition IsBlockValueValid :: "connect_env \<Rightarrow> CBlock \<Rightarrow> int \<Rightarrow> int \<Rightarrow> bool" where
  "IsBlockValueValid env block nExpectedValue nMinted =
     (if env_vChain env = [] then True
      else let pindexPrev = last (env_vChain env);
               hashPrev = hashPrevBlock (block_header block);
               h = (if phashBlock pindexPrev = Some hashPrev then nHeight pindexPrev + 1
                    else case env_mapBlockIndex env hashPrev of Some mi \<Rightarrow> nHeight mi + 1 | None \<Rightarrow> 0)
           in if \<not> env_IsSynced env
              then if h mod GetBudgetPaymentCycleBlocks (env_params env) < 100 then True else \<not> nExpectedValue < nMinted
              else if \<not> env_superblocks env then nMinted \<le> nExpectedValue
              else if env_IsBudgetPaymentBlock env h then True
              else \<not> nExpectedValue < nMinted)"

text \<open>The local variables of \<^verbatim>\<open>ConnectBlock\<close> that its loop over the transactions updates.\<close>

record 'v connect_vars =
  cv_state :: CValidationState
  cv_view :: "'v CCoinsViewCache"
  cv_nSigOps :: u32
  cv_nFees :: int
  cv_nValueOut :: int
  cv_nValueIn :: int
  cv_vtxundo :: "CTxInUndo list list"
  cv_vPos :: "(base_uint \<times> CDiskBlockPos \<times> nat) list"
  cv_nTxOffset :: nat
  cv_queue :: "CScriptCheck list"

text \<open>The part of an iteration for a transaction with inputs: input presence, fees and \<^verbatim>\<open>CheckInputs\<close>.\<close>

definition connect_inputs :: "connect_env \<Rightarrow> 'v CCoinsView \<Rightarrow> CBlockIndex \<Rightarrow> bool \<Rightarrow> CTransaction \<Rightarrow> 'v connect_vars
    \<Rightarrow> fault + (CValidationState + 'v connect_vars)" where
  "connect_inputs env base pindex fScriptChecks tx cv =
     (case HaveInputs base (cv_view cv) tx of (have, view) \<Rightarrow>
        if \<not> have
        then Inr (Inl (state_DoS (cv_state cv) 100 REJECT_INVALID ''bad-txns-inputs-missingorspent'' False))
        else bindE (GetP2SHSigOpCount base tx view) (\<lambda>(n, view).
          let nSigOps = cv_nSigOps cv + n
          in if MAX_BLOCK_SIGOPS < nSigOps then Inr (Inl (state_DoS (cv_state cv) 100 REJECT_INVALID ''bad-blk-sigops'' False))
          else bindE (if IsCoinStake tx then Inr (cv_nFees cv, view)
                      else bindE (GetValueIn base view tx) (\<lambda>(valueIn, view).
                        case GetValueOut tx of
                          Inl e \<Rightarrow> Inl (Threw e)
                        | Inr valueOut \<Rightarrow> Inr (add64 (cv_nFees cv) (wrap64 (valueIn - valueOut)), view))) (\<lambda>(nFees, view).
          bindE (GetValueIn base view tx) (\<lambda>(valueIn, view).
          bindE (CheckInputs env base tx (cv_state cv) view fScriptChecks (SCRIPT_VERIFY_P2SH OR SCRIPT_VERIFY_DERSIG)
                   (env_nScriptCheckThreads env \<noteq> 0)) (\<lambda>(r, view).
          let cv = cv\<lparr>cv_view := view, cv_nSigOps := nSigOps, cv_nFees := nFees,
                      cv_nValueIn := add64 (cv_nValueIn cv) valueIn\<rparr>
          in case r of
               Inr vChecks \<Rightarrow> Inr (Inr (if fScriptChecks \<and> env_nScriptCheckThreads env \<noteq> 0
                                         then cv\<lparr>cv_queue := cv_queue cv @ vChecks\<rparr> else cv))
             | Inl st \<Rightarrow>
                 (case phashBlock pindex of
                    None \<Rightarrow> Inl NullRead
                  | Some h \<Rightarrow> if Checkpoints_CheckBlock (env_fEnabled env) (env_checkpoints env) (nHeight pindex) h False
                              then Inr (Inr (cv\<lparr>cv_state := st\<rparr>)) else Inr (Inl st)))))))"

definition connect_tx :: "connect_env \<Rightarrow> 'v CCoinsView \<Rightarrow> CBlockIndex \<Rightarrow> bool \<Rightarrow> nat \<Rightarrow> CTransaction \<Rightarrow> 'v connect_vars
    \<Rightarrow> fault + (CValidationState + 'v connect_vars)" where
  "connect_tx env base pindex fScriptChecks i tx cv =
     (let cv = cv\<lparr>cv_nSigOps := cv_nSigOps cv + GetLegacySigOpCount tx\<rparr>
      in if MAX_BLOCK_SIGOPS < cv_nSigOps cv
         then Inr (Inl (state_DoS (cv_state cv) 100 REJECT_INVALID ''bad-blk-sigops'' False))
         else bindE (if IsCoinBase tx then Inr (Inr cv) else connect_inputs env base pindex fScriptChecks tx cv) (\<lambda>r.
           case r of Inl st \<Rightarrow> Inr (Inl st)
           | Inr cv \<Rightarrow> (case GetValueOut tx of
               Inl e \<Rightarrow> Inl (Threw e)
             | Inr valueOut \<Rightarrow> (case UpdateCoins base tx (cv_view cv) (nHeight pindex) of
                 None \<Rightarrow> Inl AssertFalse
               | Some (txundo, view) \<Rightarrow>
                   Inr (Inr (cv\<lparr>cv_nValueOut := add64 (cv_nValueOut cv) valueOut, cv_view := view,
                      cv_vtxundo := (if i = 0 then cv_vtxundo cv else cv_vtxundo cv @ [txundo]),
                      cv_vPos := cv_vPos cv @ [(tx_hash tx, GetBlockPos pindex, cv_nTxOffset cv)],
                      cv_nTxOffset := cv_nTxOffset cv + length (ser_tx tx)\<rparr>))))))"

fun connect_txs :: "connect_env \<Rightarrow> 'v CCoinsView \<Rightarrow> CBlockIndex \<Rightarrow> bool \<Rightarrow> nat \<Rightarrow> CTransaction list \<Rightarrow> 'v connect_vars
    \<Rightarrow> fault + (CValidationState + 'v connect_vars)" where
  "connect_txs env base pindex fScriptChecks i [] cv = Inr (Inr cv)"
| "connect_txs env base pindex fScriptChecks i (tx # txs) cv =
     bindE (connect_tx env base pindex fScriptChecks i tx cv) (\<lambda>r.
       case r of Inl st \<Rightarrow> Inr (Inl st) | Inr cv \<Rightarrow> connect_txs env base pindex fScriptChecks (i + 1) txs cv)"

fun bip30_loop :: "'v CCoinsView \<Rightarrow> 'v CCoinsViewCache \<Rightarrow> CTransaction list \<Rightarrow> bool \<times> 'v CCoinsViewCache" where
  "bip30_loop base view [] = (True, view)"
| "bip30_loop base view (tx # txs) =
     (case AccessCoins base view (tx_hash tx) of (coins, view) \<Rightarrow>
        if coins \<noteq> None \<and> \<not> IsPruned (the coins) then (False, view) else bip30_loop base view txs)"

text \<open>
  What a connected block leaves: the validation state, the view, the index entry (money supply,
  mint, undo position, status), the undo data, the positions for the transaction index and
  whether the entry is put in the set of dirty entries. A block that is only checked
  (\<^verbatim>\<open>fJustCheck\<close>) and the genesis block return early. On an empty block, which
  \<^verbatim>\<open>CheckBlock\<close> rejects, \<^verbatim>\<open>reserve(vtx.size() - 1)\<close> throws
  \<^verbatim>\<open>std::length_error\<close>: the fault \<open>OutOfRange\<close>.
\<close>

record 'v connected =
  con_state :: CValidationState
  con_view :: "'v CCoinsViewCache"
  con_pindex :: CBlockIndex
  con_blockundo :: "CTxInUndo list list"
  con_vPos :: "(base_uint \<times> CDiskBlockPos \<times> nat) list"
  con_dirty :: bool

definition BLOCK_VALID_SCRIPTS :: u32 where "BLOCK_VALID_SCRIPTS = 5"

text \<open>Writing the undo data and raising the validity of the entry.\<close>

definition write_undo :: "connect_env \<Rightarrow> CBlockIndex \<Rightarrow> pprev_chain \<Rightarrow> CTxInUndo list list \<Rightarrow> CValidationState
    \<Rightarrow> fault + (CValidationState + CBlockIndex \<times> bool)" where
  "write_undo env pindex pprev blockundo st =
     (case IsValid pindex BLOCK_VALID_SCRIPTS of
        None \<Rightarrow> Inl AssertFalse
      | Some valid \<Rightarrow>
          if CDiskBlockPos_IsNull (GetUndoPos pindex) \<or> \<not> valid
          then bindE (if CDiskBlockPos_IsNull (GetUndoPos pindex)
                 then (case env_FindUndoPos env st (nFile pindex) blockundo of
                     Inl st \<Rightarrow> Inr (Inl st)
                   | Inr pos \<Rightarrow> (case pprev of
                       [] \<Rightarrow> Inl NullRead
                     | p # _ \<Rightarrow> (case GetBlockHash p of
                         None \<Rightarrow> Inl NullRead
                       | Some hashPrev \<Rightarrow> if \<not> env_WriteUndo env blockundo hashPrev
                           then Inr (Inl (state_Error st ''Failed to write undo data''))
                           else Inr (Inr (pindex\<lparr>nUndoPos := pos, nStatus := nStatus pindex OR BLOCK_HAVE_UNDO\<rparr>)))))
                 else Inr (Inr pindex)) (\<lambda>r.
               case r of Inl st \<Rightarrow> Inr (Inl st)
               | Inr pindex \<Rightarrow> (case RaiseValidity pindex BLOCK_VALID_SCRIPTS of
                   None \<Rightarrow> Inl AssertFalse
                 | Some (pindex, _) \<Rightarrow> Inr (Inr (pindex, True))))
          else Inr (Inr (pindex, False)))"

text \<open>The part after the loop over the transactions.\<close>

definition connect_finish :: "connect_env \<Rightarrow> CBlock \<Rightarrow> CBlockIndex \<Rightarrow> pprev_chain \<Rightarrow> bool \<Rightarrow> 'v connect_vars
    \<Rightarrow> fault + (CValidationState + 'v connected)" where
  "connect_finish env block pindex pprev fJustCheck cv =
     (let nMoneySupplyPrev = (case pprev of [] \<Rightarrow> 0 | p # _ \<Rightarrow> nMoneySupply p);
          supply = wrap64 (add64 nMoneySupplyPrev (cv_nValueOut cv) - cv_nValueIn cv);
          mint = add64 (wrap64 (supply - nMoneySupplyPrev)) (cv_nFees cv);
          pindex = pindex\<lparr>nMoneySupply := supply, nMint := mint\<rparr>
      in case pprev of [] \<Rightarrow> Inl NullRead
      | p # _ \<Rightarrow>
        let nExpectedMint = GetBlockValue (env_params env) (nHeight p);
            nExpectedMint = (if CBlock_IsProofOfWork block \<or> NetworkID (env_params env) \<noteq> MAIN
                                \<or> SOFT_FORK_VERSION_110 \<le> int (length (env_vChain env)) - 1
                             then add64 nExpectedMint (cv_nFees cv) else nExpectedMint)
        in if \<not> IsBlockValueValid env block nExpectedMint (nMint pindex)
           then Inr (Inl (state_DoS (cv_state cv) 100 REJECT_INVALID ''bad-cb-amount'' False))
           else if list_ex (\<lambda>check. CScriptCheck_run env check \<noteq> None) (cv_queue cv)
           then Inr (Inl (state_DoS (cv_state cv) 100 0 '''' False))
           else if fJustCheck
           then Inr (Inr \<lparr>con_state = cv_state cv, con_view = cv_view cv, con_pindex = pindex,
                          con_blockundo = cv_vtxundo cv, con_vPos = cv_vPos cv, con_dirty = False\<rparr>)
           else bindE (write_undo env pindex pprev (cv_vtxundo cv) (cv_state cv)) (\<lambda>r.
             case r of Inl st \<Rightarrow> Inr (Inl st)
             | Inr (pindex, dirty) \<Rightarrow>
                 if env_fTxIndex env \<and> \<not> env_WriteTxIndex env (cv_vPos cv)
                 then Inr (Inl (state_Error (cv_state cv) ''Failed to write transaction index''))
                 else (case GetBlockHash pindex of
                     None \<Rightarrow> Inl NullRead
                   | Some h \<Rightarrow> Inr (Inr \<lparr>con_state = cv_state cv, con_view = SetBestBlock (cv_view cv) h, con_pindex = pindex,
                        con_blockundo = cv_vtxundo cv, con_vPos = cv_vPos cv, con_dirty = dirty\<rparr>))))"

definition connect_init :: "CBlock \<Rightarrow> CValidationState \<Rightarrow> 'v CCoinsViewCache \<Rightarrow> 'v connect_vars" where
  "connect_init block st view = \<lparr>cv_state = st, cv_view = view, cv_nSigOps = 0, cv_nFees = 0, cv_nValueOut = 0,
     cv_nValueIn = 0, cv_vtxundo = [], cv_vPos = [],
     cv_nTxOffset = GetSizeOfCompactSize (of_nat (length (vtx block))), cv_queue = []\<rparr>"

definition ConnectBlock :: "connect_env \<Rightarrow> 'v CCoinsView \<Rightarrow> CBlock \<Rightarrow> CValidationState \<Rightarrow> CBlockIndex \<Rightarrow> pprev_chain
    \<Rightarrow> 'v CCoinsViewCache \<Rightarrow> bool \<Rightarrow> bool \<Rightarrow> fault + (CValidationState + 'v connected)" where
  "ConnectBlock env base block st pindex pprev view fJustCheck fAlreadyChecked =
     bindE (if fAlreadyChecked then Inr (Inr st) else env_CheckBlock env block st (\<not> fJustCheck) (\<not> fJustCheck)) (\<lambda>r.
      case r of Inl st \<Rightarrow> Inr (Inl st)
      | Inr st \<Rightarrow>
        case (case pprev of [] \<Rightarrow> Some (uint256_of_u64 0) | p # _ \<Rightarrow> GetBlockHash p) of
          None \<Rightarrow> Inl NullRead
        | Some hashPrevBlock' \<Rightarrow>
        case GetBestBlock base view of (best, view) \<Rightarrow>
        if hashPrevBlock' \<noteq> best then Inl AssertFalse
        else if env_GetHash env (block_header block) = env_HashGenesisBlock env
        then (case GetBlockHash pindex of
                None \<Rightarrow> Inl NullRead
              | Some h \<Rightarrow> Inr (Inr \<lparr>con_state = st, con_view = SetBestBlock view h, con_pindex = pindex,
                            con_blockundo = [], con_vPos = [], con_dirty = False\<rparr>))
        else if nHeight pindex \<le> LAST_POW_BLOCK (env_params env) \<and> CBlock_IsProofOfStake block
        then Inr (Inl (state_DoS st 100 REJECT_INVALID ''PoS-early'' False))
        else if LAST_POW_BLOCK (env_params env) < nHeight pindex \<and> CBlock_IsProofOfWork block
        then Inr (Inl (state_DoS st 100 REJECT_INVALID ''PoW-ended'' False))
        else let fScriptChecks = GetTotalBlocksEstimate (env_fEnabled env) (env_checkpoints env) \<le> nHeight pindex;
                 (fresh, view) = (if phashBlock pindex = None then bip30_loop base view (vtx block) else (True, view))
             in if \<not> fresh then Inr (Inl (state_DoS st 100 REJECT_INVALID ''bad-txns-BIP30'' False))
                else if vtx block = [] then Inl OutOfRange
                else bindE (connect_txs env base pindex fScriptChecks 0 (vtx block) (connect_init block st view)) (\<lambda>r.
                  case r of Inl st \<Rightarrow> Inr (Inl st)
                  | Inr cv \<Rightarrow> connect_finish env block pindex pprev fJustCheck cv))"

end
