(* ===== verification/Pow.thy ===== *)
theory Pow
  imports Block_Index
begin

text \<open>
  Difficulty retargeting and proof-of-work checks (\<^verbatim>\<open>src/pow.cpp\<close>) and the per-block
  trust score of \<^verbatim>\<open>src/chain.cpp\<close>, over the limb routines of \<open>Uint256\<close>.
\<close>

section \<open>The interface to the big integers\<close>

text \<open>
  What the retargeting code relies on: a representation of the numbers below \<open>2 ^ width\<close>, a
  wrapping product with a 32-bit factor, a wrapping sum, a quotient that fails only on a zero
  divisor, and a three-way comparison.
\<close>

locale fixed_uint =
  fixes wf :: "'u \<Rightarrow> bool" and val :: "'u \<Rightarrow> nat" and width :: nat
    and of64 :: "u64 \<Rightarrow> 'u" and plus_u :: "'u \<Rightarrow> 'u \<Rightarrow> 'u" and times32 :: "'u \<Rightarrow> u32 \<Rightarrow> 'u"
    and quot :: "'u \<Rightarrow> 'u \<Rightarrow> uint_error + 'u" and cmp :: "'u \<Rightarrow> 'u \<Rightarrow> int"
  assumes val_lt: "wf a \<Longrightarrow> val a < 2 ^ width"
    and wf_of64: "wf (of64 n)"
    and val_of64: "val (of64 n) = unat n"
    and wf_plus: "wf a \<Longrightarrow> wf b \<Longrightarrow> wf (plus_u a b)"
    and val_plus: "wf a \<Longrightarrow> wf b \<Longrightarrow> val (plus_u a b) = (val a + val b) mod 2 ^ width"
    and wf_times32: "wf a \<Longrightarrow> wf (times32 a k)"
    and val_times32: "wf a \<Longrightarrow> val (times32 a k) = (val a * unat k) mod 2 ^ width"
    and quot_zero: "val b = 0 \<Longrightarrow> quot a b = Inl DivisionByZero"
    and quot_ok: "wf a \<Longrightarrow> wf b \<Longrightarrow> val b \<noteq> 0 \<Longrightarrow> \<exists>q. quot a b = Inr q \<and> wf q \<and> val q = val a div val b"
    and cmp_sgn: "wf a \<Longrightarrow> wf b \<Longrightarrow> cmp a b = (if val a < val b then - 1 else if val b < val a then 1 else 0)"
begin

lemma quot_by_const:
  assumes "wf a" and "n \<noteq> 0"
  obtains q where "quot a (of64 n) = Inr q" and "wf q" and "val q = val a div unat n"
  using quot_ok [OF assms(1) wf_of64] assms(2) by (auto simp: val_of64 unat_eq_zero)

lemma scale:
  assumes "wf a" and "n \<noteq> 0" and "val a * unat k < 2 ^ width"
  obtains q where "quot (times32 a k) (of64 n) = Inr q" and "wf q" and "val q = val a * unat k div unat n"
  using quot_by_const [OF wf_times32 [OF assms(1)] assms(2), of k] assms(1,3) by (auto simp: val_times32)

lemma average_step:
  assumes "wf a" "wf x" and "n \<noteq> 0" and "val a * unat k + val x < 2 ^ width"
  obtains q where "quot (plus_u (times32 a k) x) (of64 n) = Inr q" and "wf q"
    and "val q = (val a * unat k + val x) div unat n"
proof -
  have "val a * unat k < 2 ^ width" using assms(4) by linarith
  then have "val (plus_u (times32 a k) x) = val a * unat k + val x"
    using assms by (simp add: val_plus wf_times32 val_times32)
  moreover have "wf (plus_u (times32 a k) x)" using assms by (simp add: wf_plus wf_times32)
  ultimately show ?thesis using quot_by_const [OF _ assms(3)] that by metis
qed

lemma cmp_gt: "wf a \<Longrightarrow> wf b \<Longrightarrow> 0 < cmp a b \<longleftrightarrow> val b < val a"
  by (simp add: cmp_sgn)

lemma cmp_le: "wf a \<Longrightarrow> wf b \<Longrightarrow> cmp a b \<le> 0 \<longleftrightarrow> val a \<le> val b"
  by (simp add: cmp_sgn)

end

interpretation u256: fixed_uint is_uint256 uval 256 uint256_of_u64 add mul32 udiv CompareTo
proof unfold_locales
  show "uval a < 2 ^ 256" if "is_uint256 a" for a
    using uval_lt [of a] that by (simp add: is_uint256_def)
  show "is_uint256 (uint256_of_u64 n)" "uval (uint256_of_u64 n) = unat n" for n by simp_all
  show "is_uint256 (add a b)" "uval (add a b) = (uval a + uval b) mod 2 ^ 256"
    if "is_uint256 a" "is_uint256 b" for a b
    using that by (simp_all add: is_uint256_def uval_add)
  show "is_uint256 (mul32 a k)" "uval (mul32 a k) = (uval a * unat k) mod 2 ^ 256"
    if "is_uint256 a" for a k
    using that by (simp_all add: is_uint256_def uval_mul32)
  show "udiv a b = Inl DivisionByZero" if "uval b = 0" for a b
    using that by (rule udiv_by_zero)
  show "\<exists>q. udiv a b = Inr q \<and> is_uint256 q \<and> uval q = uval a div uval b"
    if "is_uint256 a" "is_uint256 b" "uval b \<noteq> 0" for a b
    using udiv_Inr [of a b] that by (auto simp: is_uint256_def)
  show "CompareTo a b = (if uval a < uval b then - 1 else if uval b < uval a then 1 else 0)"
    if "is_uint256 a" "is_uint256 b" for a b
    using that by (simp add: is_uint256_def CompareTo_correct)
qed

section \<open>Retargeting\<close>

text \<open>
  Failures of \<^verbatim>\<open>GetNextWorkRequired\<close>: a \<^verbatim>\<open>uint_error\<close> thrown by a division, a
  read through a null \<^verbatim>\<open>pprev\<close>, a failed assertion of \<^verbatim>\<open>GetCompact\<close>.
\<close>

datatype pow_error = UintError uint_error | NullDeref | AssertFailed

definition compact_or_fail :: "base_uint \<Rightarrow> pow_error + u32" where
  "compact_or_fail bn = (case GetCompact bn False of None \<Rightarrow> Inl AssertFailed | Some c \<Rightarrow> Inr c)"

definition quot_or_fail :: "base_uint \<Rightarrow> base_uint \<Rightarrow> pow_error + base_uint" where
  "quot_or_fail a b = (case udiv a b of Inl e \<Rightarrow> Inl (UintError e) | Inr q \<Rightarrow> Inr q)"

text \<open>The proof-of-stake branch. A 64-bit signed factor selects \<^verbatim>\<open>operator*=(uint32_t)\<close>.\<close>

definition bnTargetLimit :: base_uint where
  "bnTargetLimit = shr uint256_max 24"

definition pos_retarget :: "u32 \<Rightarrow> int \<Rightarrow> pow_error + base_uint" where
  "pos_retarget nCompact nActualSpacing0 =
     (let nTargetSpacing = 60; nTargetTimespan = 60 * 40;
          nActualSpacing = (if nActualSpacing0 < 0 then 1 else nActualSpacing0);
          bnNew = fst (SetCompact nCompact);
          nInterval = nTargetTimespan div nTargetSpacing;
          bnNew = mul32 bnNew (word_of_int ((nInterval - 1) * nTargetSpacing + nActualSpacing + nActualSpacing))
      in case quot_or_fail bnNew (uint256_of_u64 (word_of_int ((nInterval + 1) * nTargetSpacing))) of
           Inl e \<Rightarrow> Inl e
         | Inr bnNew \<Rightarrow>
             Inr (if CompareTo bnNew (uint256_of_u64 0) \<le> 0 \<or> 0 < CompareTo bnNew bnTargetLimit
                  then bnTargetLimit else bnNew))"

text \<open>The state of the Dark Gravity Wave loop.\<close>

record dgw =
  PastDifficultyAverage :: base_uint
  PastDifficultyAveragePrev :: base_uint
  nActualTimespan :: int
  LastBlockTime :: int
  CountBlocks :: nat

definition dgw_init :: dgw where
  "dgw_init = \<lparr>PastDifficultyAverage = uint256_of_u64 0, PastDifficultyAveragePrev = uint256_of_u64 0,
     nActualTimespan = 0, LastBlockTime = 0, CountBlocks = 0\<rparr>"

definition PastBlocksMin :: nat where "PastBlocksMin = 24"
definition PastBlocksMax :: nat where "PastBlocksMax = 24"

definition dgw_average :: "dgw \<Rightarrow> CBlockIndex \<Rightarrow> pow_error + dgw" where
  "dgw_average s b =
     (if CountBlocks s \<le> PastBlocksMin
      then (case (if CountBlocks s = 1 then Inr (fst (SetCompact (nBits b)))
                  else quot_or_fail
                         (add (mul32 (PastDifficultyAveragePrev s) (of_nat (CountBlocks s))) (fst (SetCompact (nBits b))))
                         (uint256_of_u64 (of_nat (CountBlocks s + 1)))) of
              Inl e \<Rightarrow> Inl e
            | Inr avg \<Rightarrow> Inr (s\<lparr>PastDifficultyAverage := avg, PastDifficultyAveragePrev := avg\<rparr>))
      else Inr s)"

definition dgw_times :: "dgw \<Rightarrow> CBlockIndex \<Rightarrow> dgw" where
  "dgw_times s b =
     (let s = (if 0 < LastBlockTime s
               then s\<lparr>nActualTimespan := nActualTimespan s + (LastBlockTime s - GetBlockTime b)\<rparr> else s)
      in s\<lparr>LastBlockTime := GetBlockTime b\<rparr>)"

fun dgw_loop :: "nat \<Rightarrow> dgw \<Rightarrow> pprev_chain \<Rightarrow> pow_error + dgw" where
  "dgw_loop i s [] = Inr s"
| "dgw_loop i s (b # pprev) =
     (if \<not> 0 < nHeight b then Inr s
      else if PastBlocksMax < i then Inr s
      else case dgw_average (s\<lparr>CountBlocks := CountBlocks s + 1\<rparr>) b of
             Inl e \<Rightarrow> Inl e
           | Inr s \<Rightarrow> (if pprev = [] then Inr (dgw_times s b) else dgw_loop (i + 1) (dgw_times s b) pprev))"

text \<open>C++ integer division truncates; the operands here are never negative.\<close>

definition dgw_retarget :: "CChainParams \<Rightarrow> dgw \<Rightarrow> pow_error + base_uint" where
  "dgw_retarget params s =
     (let nTargetTimespan = int (CountBlocks s) * TargetSpacing params;
          t = nActualTimespan s;
          t = (if t < nTargetTimespan div 3 then nTargetTimespan div 3 else t);
          t = (if nTargetTimespan * 3 < t then nTargetTimespan * 3 else t);
          bnNew = mul32 (PastDifficultyAverage s) (word_of_int t)
      in case quot_or_fail bnNew (uint256_of_u64 (word_of_int nTargetTimespan)) of
           Inl e \<Rightarrow> Inl e
         | Inr bnNew \<Rightarrow> Inr (if 0 < CompareTo bnNew (ProofOfWorkLimit params) then ProofOfWorkLimit params else bnNew))"

definition GetNextWorkRequired :: "CChainParams \<Rightarrow> pprev_chain \<Rightarrow> pow_error + u32" where
  "GetNextWorkRequired params pindexLast =
     (case pindexLast of
        [] \<Rightarrow> compact_or_fail (ProofOfWorkLimit params)
      | b # pprev \<Rightarrow>
          if nHeight b = 0 \<or> nHeight b < int PastBlocksMin then compact_or_fail (ProofOfWorkLimit params)
          else if LAST_POW_BLOCK params < nHeight b then
            (case pprev of
               [] \<Rightarrow> Inl NullDeref
             | p # _ \<Rightarrow>
                 (let nActualSpacing = (if nHeight b \<noteq> 0 then GetBlockTime b - GetBlockTime p else 0)
                  in case pos_retarget (nBits b) nActualSpacing of
                       Inl e \<Rightarrow> Inl e | Inr bnNew \<Rightarrow> compact_or_fail bnNew))
          else
            (case dgw_loop 1 dgw_init pindexLast of
               Inl e \<Rightarrow> Inl e
             | Inr s \<Rightarrow> (case dgw_retarget params s of Inl e \<Rightarrow> Inl e | Inr bnNew \<Rightarrow> compact_or_fail bnNew)))"

definition CheckProofOfWork :: "CChainParams \<Rightarrow> base_uint \<Rightarrow> u32 \<Rightarrow> bool" where
  "CheckProofOfWork params hash nCompact =
     (if SkipProofOfWorkCheck params then True
      else let (bnTarget, fNegative, fOverflow) = SetCompact nCompact
           in if fNegative \<or> EqualTo bnTarget 0 \<or> fOverflow \<or> 0 < CompareTo bnTarget (ProofOfWorkLimit params)
              then False
              else if 0 < CompareTo hash bnTarget then False
              else True)"

definition GetBlockProof :: "u32 \<Rightarrow> uint_error + base_uint" where
  "GetBlockProof nCompact =
     (let (bnTarget, fNegative, fOverflow) = SetCompact nCompact
      in if fNegative \<or> fOverflow \<or> EqualTo bnTarget 0 then Inr (uint256_of_u64 0)
         else case udiv (bnot bnTarget) (add bnTarget (uint256_of_u64 1)) of
                Inl e \<Rightarrow> Inl e | Inr q \<Rightarrow> Inr (add q (uint256_of_u64 1)))"

definition GetBlockTrust :: "CBlockIndex \<Rightarrow> uint_error + base_uint" where
  "GetBlockTrust b =
     (let bnTarget = fst (SetCompact (nBits b))
      in if CompareTo bnTarget (uint256_of_u64 0) \<le> 0 then Inr (uint256_of_u64 0)
         else if IsProofOfStake b
         then udiv (shl (uint256_of_u64 1) 256) (add bnTarget (uint256_of_u64 1))
         else case udiv (shr uint256_max 20) (add bnTarget (uint256_of_u64 1)) of
                Inl e \<Rightarrow> Inl e
              | Inr bnPoWTrust \<Rightarrow>
                  Inr (if 0 < CompareTo bnPoWTrust (uint256_of_u64 1) then bnPoWTrust else uint256_of_u64 1))"

section \<open>Proof-of-work checks and block proofs\<close>

lemma EqualTo_0: "is_uint256 a \<Longrightarrow> EqualTo a 0 \<longleftrightarrow> uval a = 0"
proof -
  assume "is_uint256 a"
  then obtain x y zs where a: "a = x # y # zs"
    by (auto simp: is_uint256_def numeral_eq_Suc length_Suc_conv)
  have z: "list_all (\<lambda>x. x = 0) zs \<longleftrightarrow> uval zs = 0"
    using IsNull_iff [of zs] by (simp add: IsNull_def)
  have "(ucast w :: u64) = 0 \<longleftrightarrow> w = 0" for w :: u32
    by (metis unat_0_iff unat_ucast_32_64)
  then show ?thesis by (auto simp: EqualTo_def a z unat_eq_zero)
qed

lemma SetCompact_wf [simp]: "is_uint256 (fst (SetCompact c))"
  by (rule SetCompact_value(2))

lemma case_SetCompact:
  "(case SetCompact c of (t, n, v) \<Rightarrow> f t n v) = f (fst (SetCompact c)) (fst (snd (SetCompact c))) (snd (snd (SetCompact c)))"
  by (simp add: case_prod_beta)

definition target_of :: "u32 \<Rightarrow> nat" where
  "target_of c = uval (fst (SetCompact c))"

definition valid_target :: "CChainParams \<Rightarrow> u32 \<Rightarrow> bool" where
  "valid_target params c \<longleftrightarrow> snd (SetCompact c) = (False, False) \<and> 0 < target_of c
     \<and> target_of c \<le> uval (ProofOfWorkLimit params)"

text \<open>
  \<^verbatim>\<open>CheckProofOfWork\<close> accepts a hash exactly when the compact word decodes to a
  positive target within the proof-of-work limit, without sign or overflow, and the hash does
  not exceed it.
\<close>

theorem CheckProofOfWork_iff:
  assumes "is_uint256 hash" and "is_uint256 (ProofOfWorkLimit params)" and "\<not> SkipProofOfWorkCheck params"
  shows "CheckProofOfWork params hash c \<longleftrightarrow> valid_target params c \<and> uval hash \<le> target_of c"
  using assms
  by (auto simp: CheckProofOfWork_def valid_target_def target_of_def case_SetCompact EqualTo_0
      u256.cmp_gt prod_eq_iff)

lemma uval_bnot256: "is_uint256 a \<Longrightarrow> uval (bnot a) = 2 ^ 256 - 1 - uval a"
  by (simp add: uval_bnot is_uint256_def)

lemma is_uint256_bnot: "is_uint256 a \<Longrightarrow> is_uint256 (bnot a)"
  by (simp add: is_uint256_def)

text \<open>The identity of the comment in \<^verbatim>\<open>GetBlockProof\<close>.\<close>

lemma proof_identity:
  fixes t n :: nat
  assumes "t < n"
  shows "(n - 1 - t) div (t + 1) + 1 = n div (t + 1)"
proof -
  have "n = (n - 1 - t) + (t + 1)" using assms by simp
  then have "n div (t + 1) = ((n - 1 - t) + (t + 1)) div (t + 1)" by (rule arg_cong)
  also have "\<dots> = (n - 1 - t) div (t + 1) + 1" by (rule div_add_self2) simp
  finally show ?thesis by simp
qed

text \<open>A decoded target is never the all-ones value, so \<^verbatim>\<open>bnTarget + 1\<close> does not wrap.\<close>

lemma target_of_lt: "target_of c + 1 < 2 ^ 256"
proof -
  define e m where "e = unat c div 16777216" and "m = unat c mod 8388608"
  have v: "target_of c = (if e \<le> 3 then m div 256 ^ (3 - e) else (m * 256 ^ (e - 3)) mod 2 ^ 256)"
    using SetCompact_value(1) [of c] by (simp add: target_of_def e_def m_def)
  show ?thesis
  proof (cases "e \<le> 3")
    case True
    have "m div 256 ^ (3 - e) \<le> m" by (rule div_le_dividend)
    also have "m < 8388608" by (simp add: m_def)
    finally have "target_of c < 8388608" using True v by simp
    then show ?thesis by simp
  next
    case False
    then have "even (m * 256 ^ (e - 3))" by simp
    then have "even (target_of c)" using False v by (simp add: dvd_mod_iff)
    moreover have "target_of c < 2 ^ 256" using u256.val_lt by (simp add: target_of_def)
    ultimately show ?thesis by (cases "target_of c = 2 ^ 256 - 1") simp_all
  qed
qed

lemma target_plus_one:
  "is_uint256 (add (fst (SetCompact c)) (uint256_of_u64 1))"
  "uval (add (fst (SetCompact c)) (uint256_of_u64 1)) = target_of c + 1"
  using target_of_lt [of c]
  by (simp_all add: u256.wf_plus u256.val_plus target_of_def)

lemma proof_no_wrap:
  assumes "0 < (t::nat)"
  shows "2 ^ 256 div (t + 1) < (2 ^ 256 :: nat)"
  using assms by (intro div_less_dividend) simp_all

text \<open>
  The work credited to a block is \<open>2^256 div (target + 1)\<close>: the expression
  \<^verbatim>\<open>~target / (target + 1) + 1\<close> computes it in 256 bits without a wrap and without a
  division by zero; a compact word that is negative, overflows or is zero counts nothing.
\<close>

lemma GetBlockProof_value:
  "\<exists>w. GetBlockProof c = Inr w \<and> is_uint256 w \<and>
     uval w = (if snd (SetCompact c) = (False, False) \<and> target_of c \<noteq> 0
               then 2 ^ 256 div (target_of c + 1) else 0)"
proof (cases "snd (SetCompact c) = (False, False) \<and> target_of c \<noteq> 0")
  case False
  then have "GetBlockProof c = Inr (uint256_of_u64 0)"
    by (auto simp: GetBlockProof_def case_SetCompact EqualTo_0 target_of_def prod_eq_iff)
  with False show ?thesis by simp
next
  case True
  define t where "t = fst (SetCompact c)"
  have t: "uval t = target_of c" by (simp add: t_def target_of_def)
  obtain q where q: "udiv (bnot t) (add t (uint256_of_u64 1)) = Inr q" "is_uint256 q"
    "uval q = uval (bnot t) div (target_of c + 1)"
    using u256.quot_ok [of "bnot t" "add t (uint256_of_u64 1)"] target_plus_one [of c]
    by (auto simp: t_def is_uint256_bnot)
  have "is_uint256 t" by (simp add: t_def)
  then have "uval (bnot t) = 2 ^ 256 - 1 - target_of c" "target_of c < 2 ^ 256"
    by (simp_all only: uval_bnot256 u256.val_lt t [symmetric])
  then have uq: "uval q + 1 = 2 ^ 256 div (target_of c + 1)"
    using proof_identity [of "target_of c" "2 ^ 256"] by (simp only: q(3))
  have "GetBlockProof c = Inr (add q (uint256_of_u64 1))"
    using True q(1) by (simp add: GetBlockProof_def case_SetCompact EqualTo_0 target_of_def t_def)
  moreover have "uval (add q (uint256_of_u64 1)) = 2 ^ 256 div (target_of c + 1)"
    using uq proof_no_wrap [of "target_of c"] True q(2) by (simp add: u256.val_plus)
  ultimately show ?thesis using True q(2) by (simp add: u256.wf_plus)
qed

text \<open>
  \<^verbatim>\<open>CBlockIndex::GetBlockTrust\<close> gives every proof-of-stake block the trust score
  zero: \<^verbatim>\<open>uint256(1) << 256\<close> shifts the bit out of the 256-bit value, so the dividend is
  zero whatever the target is.
\<close>

theorem GetBlockTrust_stake_zero:
  assumes "IsProofOfStake b"
  shows "\<exists>w. GetBlockTrust b = Inr w \<and> uval w = 0"
proof (cases "uval (fst (SetCompact (nBits b))) = 0")
  case True
  then show ?thesis by (simp add: GetBlockTrust_def Let_def u256.cmp_le)
next
  case False
  have one: "uval (shl (uint256_of_u64 1) 256) = 0"
    by (simp add: uval_shl is_uint256_simps(1) [unfolded is_uint256_def])
  obtain q where "udiv (shl (uint256_of_u64 1) 256) (add (fst (SetCompact (nBits b))) (uint256_of_u64 1)) = Inr q"
    "uval q = 0"
    using u256.quot_ok [of "shl (uint256_of_u64 1) 256"] target_plus_one [of "nBits b"] one by fastforce
  with False assms show ?thesis by (simp add: GetBlockTrust_def Let_def u256.cmp_le)
qed

section \<open>Retargeting stays within the limits\<close>

text \<open>
  A \<^verbatim>\<open>pprev\<close> walk of a block index: heights fall by one down to the genesis block,
  whose height is zero.
\<close>

fun linked :: "pprev_chain \<Rightarrow> bool" where
  "linked [] = True"
| "linked [b] = (nHeight b = 0)"
| "linked (b # p # ch) = (nHeight b = nHeight p + 1 \<and> linked (p # ch))"

lemma linked_height: "linked (b # ch) \<Longrightarrow> nHeight b = int (length ch)"
  by (induction ch arbitrary: b) auto

lemma compact_or_fail_ok:
  assumes "is_uint256 bn"
  obtains c where "compact_or_fail bn = Inr c" "snd (SetCompact c) = (False, False)"
    "target_of c \<le> uval bn" "uval bn = 0 \<or> 0 < target_of c"
proof -
  define n where "n = (bits bn + 7) div 8"
  obtain c where c: "GetCompact bn False = Some c" "snd (SetCompact c) = (False, False)"
    "uval (fst (SetCompact c)) = compact_value (compact_parts (uval bn) n)"
    using compact_roundtrip [OF assms] by (auto simp: n_def)
  have v: "uval bn < 256 ^ n" "0 < n \<Longrightarrow> 256 ^ (n - 1) \<le> uval bn"
    using bits_bytes(1) [OF assms] nbytes_ge [of bn] by (simp_all add: n_def)
  have t: "target_of c \<le> uval bn" "(uval bn - target_of c) * 32768 \<le> target_of c"
    using compact_value_precision [OF v] by (simp_all add: target_of_def c(3))
  then have "uval bn = 0 \<or> 0 < target_of c" by (cases "target_of c = 0") simp_all
  with t(1) c show ?thesis by (intro that [of c]) (simp_all add: compact_or_fail_def)
qed

lemma bnTargetLimit_value: "is_uint256 bnTargetLimit" "uval bnTargetLimit = 2 ^ 232 - 1"
  by (simp_all add: bnTargetLimit_def uval_shr uint256_max_value)

lemma quot_or_fail_ok:
  assumes "is_uint256 a" and "n \<noteq> 0"
  obtains q where "quot_or_fail a (uint256_of_u64 n) = Inr q" "is_uint256 q" "uval q = uval a div unat n"
proof -
  obtain q where "udiv a (uint256_of_u64 n) = Inr q" "is_uint256 q" "uval q = uval a div unat n"
    by (rule u256.quot_by_const [OF assms])
  then show ?thesis by (intro that [of q]) (simp_all add: quot_or_fail_def)
qed

definition pos_factor :: "int \<Rightarrow> u32" where
  "pos_factor s = word_of_int (2340 + 2 * (if s < 0 then 1 else s))"

lemma pos_retarget_ok:
  obtains r q where "pos_retarget c s = Inr r" "is_uint256 r"
    and "uval q = (target_of c * unat (pos_factor s)) mod 2 ^ 256 div 2460"
    and "uval r = (if uval q = 0 \<or> uval bnTargetLimit < uval q then uval bnTargetLimit else uval q)"
proof -
  define k where "k = pos_factor s"
  define a where "a = mul32 (fst (SetCompact c)) k"
  have a: "is_uint256 a" "uval a = (target_of c * unat k) mod 2 ^ 256"
    unfolding a_def target_of_def by (rule u256.wf_times32 u256.val_times32, simp)+
  obtain q where q: "quot_or_fail a (uint256_of_u64 2460) = Inr q" "is_uint256 q" "uval q = uval a div unat (2460::u64)"
    using quot_or_fail_ok [OF a(1), of 2460] by auto
  define r where "r = (if CompareTo q (uint256_of_u64 0) \<le> 0 \<or> 0 < CompareTo q bnTargetLimit then bnTargetLimit else q)"
  have cond: "CompareTo q (uint256_of_u64 0) \<le> 0 \<longleftrightarrow> uval q = 0" "0 < CompareTo q bnTargetLimit \<longleftrightarrow> uval bnTargetLimit < uval q"
    using q(2) bnTargetLimit_value(1) by (simp_all add: u256.cmp_gt u256.cmp_le)
  have fac: "word_of_int ((60 * 40 div 60 - 1) * 60 + (if s < 0 then 1 else s) + (if s < 0 then 1 else s)) = k"
    by (simp add: k_def pos_factor_def)
  have dv: "word_of_int ((60 * 40 div 60 + 1) * 60) = (2460 :: u64)" by simp
  show ?thesis
  proof (rule that [of r q])
    show "pos_retarget c s = Inr r"
      by (simp only: pos_retarget_def Let_def fac dv a_def [symmetric] q(1) sum.case r_def)
    show "is_uint256 r" using q(2) bnTargetLimit_value(1) by (simp add: r_def)
    have "unat (2460::u64) = 2460" by simp
    then show "uval q = (target_of c * unat (pos_factor s)) mod 2 ^ 256 div 2460"
      by (simp only: q(3) a(2) k_def)
    show "uval r = (if uval q = 0 \<or> uval bnTargetLimit < uval q then uval bnTargetLimit else uval q)"
      by (simp add: r_def cond)
  qed
qed

lemma pos_retarget_range:
  obtains r where "pos_retarget c s = Inr r" "is_uint256 r" "0 < uval r" "uval r \<le> uval bnTargetLimit"
proof -
  have pos: "0 < uval bnTargetLimit" by (simp add: bnTargetLimit_value(2))
  obtain r q where "pos_retarget c s = Inr r" "is_uint256 r"
    "uval r = (if uval q = 0 \<or> uval bnTargetLimit < uval q then uval bnTargetLimit else uval q)"
    by (rule pos_retarget_ok)
  with pos show ?thesis by (intro that [of r]) (auto simp only: not_less split: if_splits)
qed

lemma pos_factor_value:
  assumes "s < 2 ^ 22"
  shows "unat (pos_factor s) = 2340 + 2 * nat (if s < 0 then 1 else s)"
    and "unat (pos_factor s) \<le> 8390948"
proof -
  define z where "z = 2340 + 2 * (if s < 0 then 1 else s)"
  have z: "0 \<le> z" "z < 2 ^ 32" "z \<le> 8390948" using assms by (auto simp: z_def)
  have z2: "nat z = 2340 + 2 * nat (if s < 0 then 1 else s)"
    by (auto simp: z_def nat_add_distrib nat_mult_distrib)
  have "uint (pos_factor s) = z" using z(1,2) by (simp add: pos_factor_def z_def [symmetric] uint_word_of_int)
  then have u: "unat (pos_factor s) = nat z" by (simp add: unat_eq_nat_uint)
  show "unat (pos_factor s) = 2340 + 2 * nat (if s < 0 then 1 else s)" using u z2 by simp
  show "unat (pos_factor s) \<le> 8390948" using u z(3) by (simp add: nat_le_iff)
qed

text \<open>
  C21. The proof-of-stake retarget. While the previous target is within the limit and the block
  spacing is below \<open>2^22\<close> seconds, no 256-bit product wraps and no factor is cut to 32 bits: the new target is
  \<open>T (2340 + 2 s) div 2460\<close>, where a negative spacing counts as one second, and the limit
  \<open>2^232 - 1\<close> when that is zero or above the limit.
\<close>

theorem pos_retarget_formula:
  assumes "target_of c \<le> 2 ^ 232 - 1" and "s < 2 ^ 22"
  shows "\<exists>r. pos_retarget c s = Inr r \<and> is_uint256 r \<and>
     uval r = (let f = target_of c * (2340 + 2 * nat (if s < 0 then 1 else s)) div 2460
               in if f = 0 \<or> 2 ^ 232 - 1 < f then 2 ^ 232 - 1 else f)"
proof -
  obtain r q where r: "pos_retarget c s = Inr r" "is_uint256 r"
    "uval q = (target_of c * unat (pos_factor s)) mod 2 ^ 256 div 2460"
    "uval r = (if uval q = 0 \<or> uval bnTargetLimit < uval q then uval bnTargetLimit else uval q)"
    by (rule pos_retarget_ok)
  have "target_of c * unat (pos_factor s) \<le> (2 ^ 232 - 1) * 8390948"
    using assms(1) pos_factor_value(2) [OF assms(2)] by (rule mult_le_mono)
  also have "\<dots> < 2 ^ 256" by simp
  finally have "(target_of c * unat (pos_factor s)) mod 2 ^ 256 = target_of c * unat (pos_factor s)"
    by (rule mod_less)
  then have "uval q = target_of c * (2340 + 2 * nat (if s < 0 then 1 else s)) div 2460"
    by (simp only: r(3) pos_factor_value(1) [OF assms(2)])
  with r show ?thesis by (intro exI [of _ r]) (simp only: bnTargetLimit_value(2) Let_def)
qed

subsection \<open>The Dark Gravity Wave average\<close>

definition avg_ok :: "nat \<Rightarrow> nat \<Rightarrow> dgw \<Rightarrow> bool" where
  "avg_ok lo hi s \<longleftrightarrow> is_uint256 (PastDifficultyAverage s)
     \<and> PastDifficultyAveragePrev s = PastDifficultyAverage s
     \<and> lo \<le> uval (PastDifficultyAverage s) \<and> uval (PastDifficultyAverage s) \<le> hi"

lemma average_between:
  fixes a x n lo hi :: nat
  assumes "lo \<le> a" "a \<le> hi" "lo \<le> x" "x \<le> hi"
  shows "lo \<le> (a * n + x) div (n + 1)" and "(a * n + x) div (n + 1) \<le> hi"
proof -
  have "lo * (n + 1) \<le> a * n + x" unfolding add_mult_distrib2 mult_1_right using mult_le_mono1 [OF assms(1)] assms(3) by (rule add_mono)
  then have "lo * (n + 1) div (n + 1) \<le> (a * n + x) div (n + 1)" by (rule div_le_mono)
  then show "lo \<le> (a * n + x) div (n + 1)" by (simp only: nonzero_mult_div_cancel_right)
  have "a * n + x \<le> hi * (n + 1)" unfolding add_mult_distrib2 mult_1_right using mult_le_mono1 [OF assms(2)] assms(4) by (rule add_mono)
  then have "(a * n + x) div (n + 1) \<le> hi * (n + 1) div (n + 1)" by (rule div_le_mono)
  then show "(a * n + x) div (n + 1) \<le> hi" by (simp only: nonzero_mult_div_cancel_right)
qed

lemma dgw_average_ok:
  assumes "CountBlocks s = Suc n" "n < 24" "n = 0 \<or> avg_ok lo hi s"
    and "lo \<le> target_of (nBits b)" "target_of (nBits b) \<le> hi" "hi * 32 < 2 ^ 256"
  obtains s' where "dgw_average s b = Inr s'" "avg_ok lo hi s'" "CountBlocks s' = Suc n"
proof (cases "n = 0")
  case True
  show ?thesis
    by (rule that [of "s\<lparr>PastDifficultyAverage := fst (SetCompact (nBits b)), PastDifficultyAveragePrev := fst (SetCompact (nBits b))\<rparr>"])
      (use assms True in \<open>simp_all add: dgw_average_def PastBlocksMin_def avg_ok_def target_of_def\<close>)
next
  case False
  define a x where "a = PastDifficultyAverage s" and "x = fst (SetCompact (nBits b))"
  have av: "is_uint256 a" "lo \<le> uval a" "uval a \<le> hi" "PastDifficultyAveragePrev s = a"
    using assms(3) False by (auto simp: avg_ok_def a_def)
  have x: "is_uint256 x" "lo \<le> uval x" "uval x \<le> hi"
    using assms(4,5) by (simp_all add: x_def target_of_def)
  define k :: u32 where "k = of_nat (Suc n)"
  define m :: u64 where "m = of_nat (Suc n + 1)"
  have km: "unat k = Suc n" "unat m = Suc n + 1"
    using assms(2) by (simp_all add: k_def m_def unat_of_nat del: of_nat_Suc of_nat_add)
  have "m \<noteq> 0" using km(2) by auto
  have "uval a * unat k + uval x \<le> hi * 24 + hi"
    using av(3) x(3) km(1) assms(2) by (intro add_le_mono mult_le_mono) simp_all
  also have "\<dots> \<le> hi * 32" by simp
  also have "\<dots> < 2 ^ 256" by (rule assms(6))
  finally obtain q where q: "udiv (add (mul32 a k) x) (uint256_of_u64 m) = Inr q" "is_uint256 q"
    "uval q = (uval a * unat k + uval x) div unat m"
    by (rule u256.average_step [OF av(1) x(1) \<open>m \<noteq> 0\<close>])
  have uq: "lo \<le> uval q" "uval q \<le> hi"
    unfolding q(3) km by (rule average_between [OF av(2,3) x(2,3)])+
  show ?thesis
    by (rule that [of "s\<lparr>PastDifficultyAverage := q, PastDifficultyAveragePrev := q\<rparr>"])
      (use False assms(1,2) q uq in \<open>simp_all only: dgw_average_def avg_ok_def quot_or_fail_def PastBlocksMin_def
          av(4) x_def [symmetric] k_def [symmetric] m_def [symmetric] sum.case dgw.simps, simp_all\<close>)
qed

lemma dgw_times_simps [simp]:
  "PastDifficultyAverage (dgw_times s b) = PastDifficultyAverage s"
  "PastDifficultyAveragePrev (dgw_times s b) = PastDifficultyAveragePrev s"
  "CountBlocks (dgw_times s b) = CountBlocks s"
  by (simp_all add: dgw_times_def Let_def)

lemma dgw_loop_ok:
  assumes "CountBlocks s + n = 24" "i = CountBlocks s + 1" "n < length ch"
    and "CountBlocks s = 0 \<or> avg_ok lo hi s" "hi * 32 < 2 ^ 256"
    and "\<forall>b \<in> set (take n ch). 0 < nHeight b \<and> lo \<le> target_of (nBits b) \<and> target_of (nBits b) \<le> hi"
  shows "\<exists>s'. dgw_loop i s ch = Inr s' \<and> CountBlocks s' = 24 \<and> (CountBlocks s + n = 0 \<or> avg_ok lo hi s')"
  using assms
proof (induction n arbitrary: s i ch)
  case 0
  then obtain b pprev where "ch = b # pprev" by (cases ch) simp_all
  with 0 show ?case by (simp add: PastBlocksMax_def)
next
  case (Suc n)
  then obtain b p pprev where ch: "ch = b # p # pprev"
    by (metis Suc_less_eq length_Suc_conv less_Suc_eq_0_disj list.exhaust list.size(3) not_less_zero Suc_lessD)
  have avg: "CountBlocks (s\<lparr>CountBlocks := CountBlocks s + 1\<rparr>) = Suc (CountBlocks s)" by simp
  have avg0: "CountBlocks s = 0 \<or> avg_ok lo hi (s\<lparr>CountBlocks := CountBlocks s + 1\<rparr>)"
    using Suc.prems(4) by (auto simp: avg_ok_def)
  obtain s' where s': "dgw_average (s\<lparr>CountBlocks := CountBlocks s + 1\<rparr>) b = Inr s'" "avg_ok lo hi s'"
    "CountBlocks s' = Suc (CountBlocks s)"
    by (rule dgw_average_ok [OF avg, where b = b]) (use Suc.prems(1,5,6) ch avg0 in auto)
  have "\<exists>r. dgw_loop (i + 1) (dgw_times s' b) (p # pprev) = Inr r \<and> CountBlocks r = 24
      \<and> (CountBlocks (dgw_times s' b) + n = 0 \<or> avg_ok lo hi r)"
    by (rule Suc.IH) (use Suc.prems s' ch in \<open>auto simp: avg_ok_def\<close>)
  with Suc.prems s' ch show ?case by (auto simp: PastBlocksMax_def)
qed

lemma dgw_retarget_ok:
  assumes "CountBlocks s = 24" "avg_ok lo hi s" "0 < TargetSpacing params" "TargetSpacing params \<le> 2 ^ 20"
    and "is_uint256 (ProofOfWorkLimit params)" "hi * (72 * nat (TargetSpacing params)) < 2 ^ 256"
  obtains r where "dgw_retarget params s = Inr r" "is_uint256 r" "uval r \<le> uval (ProofOfWorkLimit params)"
    "min (lo div 3) (uval (ProofOfWorkLimit params)) \<le> uval r" "uval r \<le> 3 * hi"
proof -
  define L sp a where "L = ProofOfWorkLimit params" and "sp = nat (TargetSpacing params)" and "a = PastDifficultyAverage s"
  define tt where "tt = int (CountBlocks s) * TargetSpacing params"
  define t where "t = (let u = (if nActualTimespan s < tt div 3 then tt div 3 else nActualTimespan s)
                       in if tt * 3 < u then tt * 3 else u)"
  have tt: "tt = int (24 * sp)" "0 < sp" "sp \<le> 1048576"
    using assms(1,3,4) by (simp_all add: tt_def sp_def nat_le_iff)
  have t: "int (8 * sp) \<le> t" "t \<le> int (72 * sp)" using tt by (auto simp: t_def Let_def)
  define k :: u32 where "k = word_of_int t"
  define m :: u64 where "m = word_of_int tt"
  have "uint k = t" using t tt by (simp add: k_def uint_word_of_int)
  then have k: "8 * sp \<le> unat k" "unat k \<le> 72 * sp" using t by (simp_all add: unat_eq_nat_uint)
  have "0 \<le> tt" "tt < 2 ^ 64" using tt by simp_all
  then have "uint m = tt" unfolding m_def uint_word_of_int by simp
  then have m: "unat m = 24 * sp" using tt(1) by (simp add: unat_eq_nat_uint)
  have m0: "m \<noteq> 0" using m tt(2) by auto
  have a: "is_uint256 a" "lo \<le> uval a" "uval a \<le> hi" using assms(2) by (simp_all add: avg_ok_def a_def)
  have "uval a * unat k \<le> hi * (72 * sp)" using a(3) k(2) by (rule mult_le_mono)
  also have "\<dots> < 2 ^ 256" using assms(6) by (simp only: sp_def)
  finally obtain q where q: "udiv (mul32 a k) (uint256_of_u64 m) = Inr q" "is_uint256 q"
    "uval q = uval a * unat k div unat m"
    by (rule u256.scale [OF a(1) m0])
  have lo: "lo div 3 \<le> uval q"
  proof -
    have "lo * (8 * sp) \<le> uval a * unat k" using a(2) k(1) by (rule mult_le_mono)
    then have "lo * (8 * sp) div (24 * sp) \<le> uval q" unfolding q(3) m by (rule div_le_mono)
    moreover have "lo * (8 * sp) div (24 * sp) = lo div 3"
      using div_mult_mult2 [of "8 * sp" lo 3] tt(2) by simp
    ultimately show ?thesis by simp
  qed
  have hi: "uval q \<le> 3 * hi"
  proof -
    have "uval a * unat k \<le> hi * (72 * sp)" using a(3) k(2) by (rule mult_le_mono)
    then have "uval q \<le> hi * (72 * sp) div (24 * sp)" unfolding q(3) m by (rule div_le_mono)
    also have "hi * (72 * sp) = 3 * hi * (24 * sp)" by simp
    finally show ?thesis using tt(2) by simp
  qed
  define r where "r = (if 0 < CompareTo q L then L else q)"
  have cmp: "0 < CompareTo q L \<longleftrightarrow> uval L < uval q" using q(2) assms(5) by (simp add: u256.cmp_gt L_def)
  have "dgw_retarget params s = Inr r"
    by (simp only: dgw_retarget_def Let_def tt_def [symmetric] t_def [unfolded Let_def, symmetric] k_def [symmetric]
        m_def [symmetric] a_def [symmetric] quot_or_fail_def q(1) sum.case r_def L_def)
  moreover have "is_uint256 r" using q(2) assms(5) by (simp add: r_def L_def)
  moreover have "uval r = min (uval L) (uval q)" by (simp add: r_def cmp min_def)
  ultimately show ?thesis using lo hi that [of r] unfolding L_def by (simp add: min.coboundedI2)
qed

lemma linked_tail_heights:
  assumes "linked ch" "n < length ch" "b \<in> set (take n ch)"
  shows "0 < nHeight b"
  using assms
proof (induction ch arbitrary: n rule: linked.induct)
  case (3 c p ch)
  then show ?case using linked_height [of c "p # ch"] by (cases n) auto
qed simp_all

lemma linked_length: "linked (b # ch) \<Longrightarrow> 24 \<le> nHeight b \<Longrightarrow> 24 < length (b # ch)"
  using linked_height by fastforce

lemma dgw_chain_ok:
  assumes "linked ch" "24 < length ch"
    and "\<forall>b \<in> set (take 24 ch). lo \<le> target_of (nBits b) \<and> target_of (nBits b) \<le> hi"
    and "hi * (72 * nat (TargetSpacing params)) < 2 ^ 256"
    and "0 < TargetSpacing params"
  obtains s where "dgw_loop 1 dgw_init ch = Inr s" "CountBlocks s = 24" "avg_ok lo hi s"
proof -
  have "hi * 32 \<le> hi * (72 * nat (TargetSpacing params))" using assms(5) by (intro mult_le_mono) simp_all
  then have "hi * 32 < 2 ^ 256" using assms(4) by (rule le_less_trans)
  moreover have "\<forall>b \<in> set (take 24 ch). 0 < nHeight b \<and> lo \<le> target_of (nBits b) \<and> target_of (nBits b) \<le> hi"
    using assms(1-3) linked_tail_heights by blast
  ultimately show ?thesis
    using that dgw_loop_ok [of dgw_init 24 1 ch lo hi] assms(2) by (auto simp: dgw_init_def)
qed

text \<open>
  C34. The Dark Gravity Wave: when all of the last 24 targets lie between \<open>lo\<close> and \<open>hi\<close>, so does
  their running average, and the new target lies between a third of \<open>lo\<close> and three times
  \<open>hi\<close>, cut at the proof-of-work limit, whatever the block times are.
\<close>

theorem dgw_bounded:
  assumes "linked ch" "24 < length ch"
    and "\<forall>b \<in> set (take 24 ch). lo \<le> target_of (nBits b) \<and> target_of (nBits b) \<le> hi"
    and "hi * (72 * nat (TargetSpacing params)) < 2 ^ 256"
    and "0 < TargetSpacing params" "TargetSpacing params \<le> 2 ^ 20" "is_uint256 (ProofOfWorkLimit params)"
  shows "\<exists>s r. dgw_loop 1 dgw_init ch = Inr s \<and> CountBlocks s = 24
     \<and> lo \<le> uval (PastDifficultyAverage s) \<and> uval (PastDifficultyAverage s) \<le> hi
     \<and> dgw_retarget params s = Inr r
     \<and> min (lo div 3) (uval (ProofOfWorkLimit params)) \<le> uval r
     \<and> uval r \<le> min (3 * hi) (uval (ProofOfWorkLimit params))"
proof -
  obtain s where s: "dgw_loop 1 dgw_init ch = Inr s" "CountBlocks s = 24" "avg_ok lo hi s"
    by (rule dgw_chain_ok [OF assms(1-5)])
  show ?thesis
    by (rule dgw_retarget_ok [OF s(2,3) assms(5-7,4)]) (use s in \<open>auto simp: avg_ok_def\<close>)
qed

text \<open>
  C20. On a linked index the retargeting returns: no division by zero, no null read, no failed
  assertion. The returned word has no sign and no overflow and its target is within the limit
  of its phase; a proof-of-stake target is also positive. In the proof-of-work phase this
  needs that the stored targets leave room for the product with the clamped timespan, which
  targets up to the main-net limit \<open>2^240 - 1\<close> do at a spacing of 60 seconds.
\<close>

theorem next_work_in_range:
  assumes "linked ch" "is_uint256 (ProofOfWorkLimit params)" "0 < TargetSpacing params" "TargetSpacing params \<le> 2 ^ 20"
    and "\<forall>b \<in> set ch. target_of (nBits b) * (72 * nat (TargetSpacing params)) < 2 ^ 256"
  defines "pos \<equiv> ch \<noteq> [] \<and> 24 \<le> nHeight (hd ch) \<and> LAST_POW_BLOCK params < nHeight (hd ch)"
  shows "\<exists>c. GetNextWorkRequired params ch = Inr c \<and> snd (SetCompact c) = (False, False)
     \<and> target_of c \<le> (if pos then 2 ^ 232 - 1 else uval (ProofOfWorkLimit params))
     \<and> (pos \<longrightarrow> 0 < target_of c)"
proof (cases "ch = [] \<or> nHeight (hd ch) < 24")
  case True
  obtain c where "compact_or_fail (ProofOfWorkLimit params) = Inr c" "snd (SetCompact c) = (False, False)"
    "target_of c \<le> uval (ProofOfWorkLimit params)"
    by (rule compact_or_fail_ok [OF assms(2)])
  with True show ?thesis
    by (intro exI [of _ c]) (auto simp: GetNextWorkRequired_def pos_def PastBlocksMin_def split: list.split)
next
  case False
  then obtain b p pprev where ch: "ch = b # p # pprev"
    using linked_length assms(1) by (cases ch; cases "tl ch") auto
  have h: "24 \<le> nHeight b" using False ch by simp
  show ?thesis
  proof (cases "LAST_POW_BLOCK params < nHeight b")
    case True
    obtain r where r: "pos_retarget (nBits b) (GetBlockTime b - GetBlockTime p) = Inr r" "is_uint256 r"
      "0 < uval r" "uval r \<le> uval bnTargetLimit"
      by (rule pos_retarget_range)
    obtain c where c: "compact_or_fail r = Inr c" "snd (SetCompact c) = (False, False)"
      "target_of c \<le> uval r" "uval r = 0 \<or> 0 < target_of c"
      by (rule compact_or_fail_ok [OF r(2)])
    have "GetNextWorkRequired params ch = Inr c"
      using h True r(1) c(1) by (simp add: GetNextWorkRequired_def ch PastBlocksMin_def)
    moreover have "target_of c \<le> 2 ^ 232 - 1" "pos"
      using c(3) r(4) h True by (simp_all only: bnTargetLimit_value(2) pos_def ch) simp_all
    ultimately show ?thesis using c r(3) by (intro exI [of _ c]) simp
  next
    case False
    have len: "24 < length ch" using linked_length [of b "p # pprev"] assms(1) h ch by simp
    define hi where "hi = Max ((\<lambda>b. target_of (nBits b)) ` set ch)"
    have "hi \<in> (\<lambda>b. target_of (nBits b)) ` set ch" unfolding hi_def by (rule Max_in) (simp_all add: ch)
    then have hi: "hi * (72 * nat (TargetSpacing params)) < 2 ^ 256" using assms(5) by (elim imageE) blast
    have "\<forall>b \<in> set (take 24 ch). 0 \<le> target_of (nBits b) \<and> target_of (nBits b) \<le> hi"
      unfolding hi_def by (auto dest: in_set_takeD)
    then obtain s where s: "dgw_loop 1 dgw_init ch = Inr s" "CountBlocks s = 24" "avg_ok 0 hi s"
      by (rule dgw_chain_ok [OF assms(1) len _ hi assms(3)])
    obtain r where r: "dgw_retarget params s = Inr r" "is_uint256 r" "uval r \<le> uval (ProofOfWorkLimit params)"
      by (rule dgw_retarget_ok [OF s(2,3) assms(3,4,2) hi])
    obtain c where c: "compact_or_fail r = Inr c" "snd (SetCompact c) = (False, False)" "target_of c \<le> uval r"
      by (rule compact_or_fail_ok [OF r(2)])
    have "GetNextWorkRequired params ch = Inr c"
      using h False r(1) c(1) s(1) by (simp add: GetNextWorkRequired_def ch PastBlocksMin_def)
    with c r(3) False show ?thesis by (intro exI [of _ c]) (simp add: pos_def ch)
  qed
qed

section \<open>Concrete instances\<close>

definition ex_block :: "int \<Rightarrow> CBlockIndex" where
  "ex_block h = \<lparr>nHeight = h, nTime = of_int (1543178982 + 60 * h), nBits = 0x1d00ffff, nFlags = 1, nStatus = 0,
     nVersion = 4, phashBlock = Some (uint256_of_u64 0), hashProofOfStake = uint256_of_u64 0, nStakeModifier = 0,
     nStakeModifierChecksum = 0, nMint = 0, nMoneySupply = 0, nChainWork = uint256_of_u64 0, nTx = 1, nChainTx = 1, nSequenceId = 0,
     nFile = 0, nDataPos = 0, nUndoPos = 0\<rparr>"

fun ex_chain :: "nat \<Rightarrow> pprev_chain" where
  "ex_chain 0 = [ex_block 0]"
| "ex_chain (Suc n) = ex_block (int (Suc n)) # ex_chain n"

lemma ex_chain_linked: "linked (ex_chain n)" "hd (ex_chain n) = ex_block (int n)" "ex_chain n \<noteq> []"
    "length (ex_chain n) = Suc n"
proof -
  show 2: "hd (ex_chain n) = ex_block (int n)" "ex_chain n \<noteq> []" for n by (cases n; simp)+
  show "linked (ex_chain n)"
  proof (induction n)
    case (Suc n)
    then show ?case using 2 [of n] by (cases "ex_chain n") (auto simp: ex_block_def)
  qed (simp add: ex_block_def)
  show "length (ex_chain n) = Suc n" by (induction n) simp_all
qed

lemma ex_target: "target_of 0x1d00ffff = 65535 * 256 ^ 26" 
  unfolding target_of_def SetCompact_value(1) by simp

lemma ex_chain_target: "b \<in> set (ex_chain n) \<Longrightarrow> target_of (nBits b) = 65535 * 256 ^ 26"
  by (induction n) (auto simp: ex_block_def ex_target)

theorem CheckProofOfWork_iff_witness:
  "CheckProofOfWork CMainParams (uint256_of_u64 5) 0x1d00ffff"
proof -
  have "snd (SetCompact 0x1d00ffff) = (False, False)" by (simp add: SetCompact_def Let_def)
  then have "valid_target CMainParams 0x1d00ffff \<and> uval (uint256_of_u64 5) \<le> target_of 0x1d00ffff"
    by (simp add: valid_target_def ex_target ProofOfWorkLimit_main(1))
  then show ?thesis
    using CheckProofOfWork_iff [of "uint256_of_u64 5" CMainParams "0x1d00ffff"] ProofOfWorkLimit_main(2)
    by (simp add: CMainParams_def)
qed

theorem GetBlockTrust_stake_zero_witness:
  "\<exists>w. GetBlockTrust (ex_block 300) = Inr w \<and> uval w = 0"
  by (rule GetBlockTrust_stake_zero) (simp add: ex_block_def IsProofOfStake_def BLOCK_PROOF_OF_STAKE_def)

theorem pos_retarget_formula_witness:
  "\<exists>r. pos_retarget 0x1d00ffff 90 = Inr r \<and> is_uint256 r \<and> uval r = 65535 * 256 ^ 26 * 2520 div 2460"
  using pos_retarget_formula [of "0x1d00ffff" 90] by (simp add: ex_target)

theorem dgw_bounded_witness:
  "\<exists>s r. dgw_loop 1 dgw_init (ex_chain 30) = Inr s \<and> CountBlocks s = 24
     \<and> uval (PastDifficultyAverage s) = 65535 * 256 ^ 26 \<and> dgw_retarget CMainParams s = Inr r
     \<and> 65535 * 256 ^ 26 div 3 \<le> uval r"
proof -
  have sp: "TargetSpacing CMainParams = 60" by (simp add: CMainParams_def)
  have "\<exists>s r. dgw_loop 1 dgw_init (ex_chain 30) = Inr s \<and> CountBlocks s = 24
     \<and> 65535 * 256 ^ 26 \<le> uval (PastDifficultyAverage s) \<and> uval (PastDifficultyAverage s) \<le> 65535 * 256 ^ 26
     \<and> dgw_retarget CMainParams s = Inr r
     \<and> min (65535 * 256 ^ 26 div 3) (uval (ProofOfWorkLimit CMainParams)) \<le> uval r
     \<and> uval r \<le> min (3 * (65535 * 256 ^ 26)) (uval (ProofOfWorkLimit CMainParams))"
  proof (rule dgw_bounded)
    show "\<forall>b \<in> set (take 24 (ex_chain 30)). 65535 * 256 ^ 26 \<le> target_of (nBits b) \<and> target_of (nBits b) \<le> 65535 * 256 ^ 26"
      using ex_chain_target by (auto dest!: in_set_takeD simp only:)
  qed (simp_all only: ex_chain_linked ProofOfWorkLimit_main(2) sp, simp_all)
  then show ?thesis by (auto simp: ProofOfWorkLimit_main(1))
qed

theorem next_work_in_range_witness:
  "\<exists>c. GetNextWorkRequired CMainParams (ex_chain 300) = Inr c \<and> snd (SetCompact c) = (False, False)
     \<and> 0 < target_of c \<and> target_of c \<le> 2 ^ 232 - 1"
proof -
  have sp: "TargetSpacing CMainParams = 60" "LAST_POW_BLOCK CMainParams = 200" by (simp_all add: CMainParams_def)
  have "\<forall>b \<in> set (ex_chain 300). target_of (nBits b) * (72 * nat (TargetSpacing CMainParams)) < 2 ^ 256"
    using ex_chain_target by (simp add: sp)
  then show ?thesis
    using next_work_in_range [of "ex_chain 300" CMainParams] ex_chain_linked [of 300] ProofOfWorkLimit_main(2) sp
    by (auto simp: ex_block_def)
qed

end
