(* ===== verification/Disconnect.thy ===== *)
theory Disconnect
  imports Connect Pow
begin

text \<open>
  Disconnecting a block (\<^verbatim>\<open>DisconnectBlock\<close> of \<^verbatim>\<open>src/main.cpp\<close>), the
  specification of connecting and disconnecting on the represented map of coins, and the proof
  that the cache routines refine it and that disconnecting undoes connecting.
\<close>

section \<open>The code\<close>

text \<open>One flag \<^verbatim>\<open>fClean\<close> collects the mismatches; they do not stop the loop.\<close>

definition outs_match :: "CTransaction \<Rightarrow> int \<Rightarrow> CCoins \<Rightarrow> bool \<times> CCoins" where
  "outs_match tx h outs =
     (let outs = ClearUnspendable outs;
          outsBlock = FromTx tx h;
          outs = (if coins_nVersion outsBlock < 0 then outs\<lparr>coins_nVersion := coins_nVersion outsBlock\<rparr> else outs)
      in (CCoins_eq outs outsBlock, CCoins_Clear))"

definition resize_null :: "nat \<Rightarrow> CTxOut list \<Rightarrow> CTxOut list" where
  "resize_null n outs = outs @ replicate (n - length outs) CTxOut_SetNull"

definition restore_coins :: "nat \<Rightarrow> CTxInUndo \<Rightarrow> CCoins \<Rightarrow> bool \<times> CCoins" where
  "restore_coins n undo coins =
     (let (clean1, coins) = (if undo_nHeight undo \<noteq> 0
            then (IsPruned coins, CCoins_Clear\<lparr>fCoinBase := undo_fCoinBase undo, coins_nHeight := sint (undo_nHeight undo),
                                    coins_nVersion := undo_nVersion undo\<rparr>)
            else (\<not> IsPruned coins, coins));
          clean2 = (\<not> IsAvailable coins n);
          outs = (if length (coins_vout coins) < n + 1 then resize_null (n + 1) (coins_vout coins) else coins_vout coins)
      in (clean1 \<and> clean2, coins\<lparr>coins_vout := outs[n := undo_txout undo]\<rparr>))"

fun restore_inputs :: "'v CCoinsView \<Rightarrow> 'v CCoinsViewCache \<Rightarrow> bool \<Rightarrow> (COutPoint \<times> CTxInUndo) list \<Rightarrow> bool \<times> 'v CCoinsViewCache" where
  "restore_inputs base view fClean [] = (fClean, view)"
| "restore_inputs base view fClean ((out, undo) # todo) =
     (case with_coins base view (op_hash out) (restore_coins (unat (op_n out)) undo) of (clean, view) \<Rightarrow>
        restore_inputs base view (fClean \<and> clean) todo)"

text \<open>
  One iteration; \<open>None\<close> is the \<^verbatim>\<open>return error\<close> for undo data of the wrong size.
  \<open>txundo\<close> is \<^verbatim>\<open>vtxundo[i - 1]\<close>, which exists except for \<open>i = 0\<close>, where
  a transaction that is not a coinbase makes the code read out of bounds.
\<close>

definition disconnect_tx :: "'v CCoinsView \<Rightarrow> int \<Rightarrow> CTransaction \<Rightarrow> CTxInUndo list option \<Rightarrow> bool \<Rightarrow> 'v CCoinsViewCache
    \<Rightarrow> fault + (bool \<times> 'v CCoinsViewCache) option" where
  "disconnect_tx base h tx txundo fClean view =
     (case with_coins base view (tx_hash tx) (outs_match tx h) of (clean, view) \<Rightarrow>
        let fClean = (fClean \<and> clean)
        in if IsCoinBase tx then Inr (Some (fClean, view))
           else case txundo of
             None \<Rightarrow> Inl OutOfRange
           | Some vprevout \<Rightarrow>
               if length vprevout \<noteq> length (vin tx) then Inr None
               else Inr (Some (restore_inputs base view fClean (rev (zip (map prevout (vin tx)) vprevout)))))"

fun disconnect_txs :: "'v CCoinsView \<Rightarrow> int \<Rightarrow> (CTransaction \<times> CTxInUndo list option) list \<Rightarrow> bool \<Rightarrow> 'v CCoinsViewCache
    \<Rightarrow> fault + (bool \<times> 'v CCoinsViewCache) option" where
  "disconnect_txs base h [] fClean view = Inr (Some (fClean, view))"
| "disconnect_txs base h ((tx, txundo) # todo) fClean view =
     bindE (disconnect_tx base h tx txundo fClean view) (\<lambda>r.
       case r of None \<Rightarrow> Inr None | Some (fClean, view) \<Rightarrow> disconnect_txs base h todo fClean view)"

text \<open>
  \<^verbatim>\<open>DisconnectBlock\<close>. \<open>readUndo\<close> is the undo data read from the files at the
  position of the entry, for the hash of its predecessor. The result is \<^verbatim>\<open>fClean\<close> and
  the view; \<open>None\<close> is \<^verbatim>\<open>return error\<close>. The caller decides what an unclean result means:
  it is a success when it passed \<^verbatim>\<open>pfClean\<close> and a failure otherwise.
\<close>

definition DisconnectBlock :: "'v CCoinsView \<Rightarrow> CBlock \<Rightarrow> CBlockIndex \<Rightarrow> pprev_chain
    \<Rightarrow> (CDiskBlockPos \<Rightarrow> base_uint \<Rightarrow> CTxInUndo list list option) \<Rightarrow> 'v CCoinsViewCache
    \<Rightarrow> fault + (bool \<times> 'v CCoinsViewCache) option" where
  "DisconnectBlock base block pindex pprev readUndo view =
     (case GetBlockHash pindex of
        None \<Rightarrow> Inl NullRead
      | Some hash \<Rightarrow> case GetBestBlock base view of (best, view) \<Rightarrow>
        if hash \<noteq> best then Inl AssertFalse
        else if CDiskBlockPos_IsNull (GetUndoPos pindex) then Inr None
        else case pprev of
          [] \<Rightarrow> Inl NullRead
        | p # _ \<Rightarrow> (case GetBlockHash p of
            None \<Rightarrow> Inl NullRead
          | Some hashPrev \<Rightarrow> (case readUndo (GetUndoPos pindex) hashPrev of
              None \<Rightarrow> Inr None
            | Some vtxundo \<Rightarrow>
                if length vtxundo + 1 \<noteq> length (vtx block) then Inr None
                else bindE (disconnect_txs base (nHeight pindex) (rev (zip (vtx block) (None # map Some vtxundo))) True view)
                  (\<lambda>r. case r of None \<Rightarrow> Inr None
                   | Some (fClean, view) \<Rightarrow> Inr (Some (fClean, SetBestBlock view hashPrev))))))"

definition DisconnectBlock_ok :: "bool \<Rightarrow> bool \<Rightarrow> bool" where
  "DisconnectBlock_ok pfClean fClean \<longleftrightarrow> (if pfClean then True else fClean)"

section \<open>The map of coins\<close>

text \<open>What connecting and disconnecting do to the map of unspent outputs.\<close>

type_synonym utxo_map = "txid \<rightharpoonup> CCoins"

definition utxo_spend :: "utxo_map \<Rightarrow> COutPoint \<Rightarrow> (CTxInUndo \<times> utxo_map) option" where
  "utxo_spend u p = (case u (op_hash p) of None \<Rightarrow> None
     | Some c \<Rightarrow> (case Spend c (unat (op_n p)) of None \<Rightarrow> None
         | Some (c', undo) \<Rightarrow> Some (undo, u(op_hash p := unpruned c'))))"

fun utxo_spends :: "utxo_map \<Rightarrow> CTxIn list \<Rightarrow> (CTxInUndo list \<times> utxo_map) option" where
  "utxo_spends u [] = Some ([], u)"
| "utxo_spends u (txin # vins) =
     (case utxo_spend u (prevout txin) of None \<Rightarrow> None
      | Some (undo, u) \<Rightarrow> map_option (\<lambda>(undos, u). (undo # undos, u)) (utxo_spends u vins))"

definition utxo_update :: "utxo_map \<Rightarrow> CTransaction \<Rightarrow> int \<Rightarrow> (CTxInUndo list \<times> utxo_map) option" where
  "utxo_update u tx h =
     map_option (\<lambda>(undos, u). (undos, u(tx_hash tx := unpruned (FromTx tx h))))
       (if IsCoinBase tx then Some ([], u) else utxo_spends u (vin tx))"


section \<open>Restoring what was spent\<close>

definition forget_stake :: "CCoins \<Rightarrow> CCoins" where
  "forget_stake c = c\<lparr>fCoinStake := False\<rparr>"

text \<open>What the coins of a view look like: cleaned up, spent outputs are the null output, a real height.\<close>

definition wf_unspent :: "CCoins \<Rightarrow> bool" where
  "wf_unspent c \<longleftrightarrow> cleaned (coins_vout c) \<and> coins_vout c \<noteq> []
     \<and> (\<forall>out \<in> set (coins_vout c). CTxOut_IsNull out \<longrightarrow> out = CTxOut_SetNull)
     \<and> 0 < coins_nHeight c \<and> coins_nHeight c < 2 ^ 31"

lemma SetNull_null [simp]: "CTxOut_IsNull CTxOut_SetNull"
  by (simp add: CTxOut_IsNull_def CTxOut_SetNull_def)

lemma pop_null_split:
  assumes "\<forall>out \<in> set xs. CTxOut_IsNull out \<longrightarrow> out = CTxOut_SetNull"
  shows "xs = replicate (length xs - length (pop_null xs)) CTxOut_SetNull @ pop_null xs"
  using assms
proof (induction xs)
  case (Cons x xs)
  have "length (pop_null xs) \<le> length xs" by (induction xs) auto
  with Cons show ?case by (auto simp: Suc_diff_le)
qed simp

lemma resize_popped:
  assumes "\<forall>out \<in> set xs. CTxOut_IsNull out \<longrightarrow> out = CTxOut_SetNull"
  shows "resize_null (length xs) (rev (pop_null (rev xs))) = xs"
proof -
  have "rev xs = replicate (length xs - length (pop_null (rev xs))) CTxOut_SetNull @ pop_null (rev xs)"
    using pop_null_split [of "rev xs"] assms by simp
  then have "rev (rev xs) = rev (replicate (length xs - length (pop_null (rev xs))) CTxOut_SetNull @ pop_null (rev xs))"
    by (rule arg_cong)
  then show ?thesis by (simp add: resize_null_def)
qed

text \<open>The outputs after spending position \<open>n\<close>, resized as the restoring code does.\<close>

lemma restored_outputs:
  assumes "cleaned outs" and "\<forall>out \<in> set outs. CTxOut_IsNull out \<longrightarrow> out = CTxOut_SetNull" and "n < length outs"
    and "\<not> CTxOut_IsNull (outs ! n)"
  defines "outs' \<equiv> rev (pop_null (rev (outs[n := CTxOut_SetNull])))"
  shows "(if length outs' < n + 1 then resize_null (n + 1) outs' else outs')[n := outs ! n] = outs"
    and "n < length outs' \<Longrightarrow> outs' ! n = CTxOut_SetNull"
proof -
  have nulls: "\<forall>out \<in> set (outs[n := CTxOut_SetNull]). CTxOut_IsNull out \<longrightarrow> out = CTxOut_SetNull"
    using assms(2) set_update_subset_insert [of outs n CTxOut_SetNull] by blast
  have "(if length outs' < n + 1 then resize_null (n + 1) outs' else outs') = outs[n := CTxOut_SetNull]
     \<and> (n < length outs' \<longrightarrow> outs' ! n = CTxOut_SetNull)"
  proof (cases "n + 1 = length outs")
    case True
    have ne: "outs[n := CTxOut_SetNull] \<noteq> []" using assms(3) by auto
    have "length outs - 1 = n" using True by simp
    then have "last (outs[n := CTxOut_SetNull]) = CTxOut_SetNull" using assms(3) ne by (simp add: last_conv_nth)
    with ne have "rev (outs[n := CTxOut_SetNull]) = CTxOut_SetNull # rev (butlast (outs[n := CTxOut_SetNull]))"
      by (metis append_butlast_last_id rev_eq_Cons_iff rev_rev_ident)
    then have "outs' = rev (pop_null (rev (butlast (outs[n := CTxOut_SetNull]))))"
      unfolding outs'_def by (simp only: pop_null.simps SetNull_null if_True)
    moreover have "length (pop_null xs) \<le> length xs" for xs by (induction xs) auto
    ultimately have "length outs' < n + 1" using True by (metis One_nat_def add_diff_cancel_right' length_butlast length_list_update
      length_rev less_Suc_eq_le add.commute plus_1_eq_Suc)
    moreover have "resize_null (n + 1) outs' = outs[n := CTxOut_SetNull]"
      using resize_popped [OF nulls] True by (simp add: outs'_def)
    ultimately show ?thesis by simp
  next
    case False
    then have l: "n < length outs - 1" "outs \<noteq> []" using assms(3) by auto
    then have "last (outs[n := CTxOut_SetNull]) = last outs" by (simp add: last_conv_nth)
    then have "\<not> CTxOut_IsNull (hd (rev (outs[n := CTxOut_SetNull])))"
      using assms(1) l by (simp add: cleaned_def hd_rev)
    then have "outs' = outs[n := CTxOut_SetNull]" by (simp add: outs'_def pop_null_id)
    moreover have "\<not> length outs < n + 1" using assms(3) by simp
    ultimately show ?thesis using assms(3) by simp
  qed
  then show "(if length outs' < n + 1 then resize_null (n + 1) outs' else outs')[n := outs ! n] = outs"
    and "n < length outs' \<Longrightarrow> outs' ! n = CTxOut_SetNull" by simp_all
qed

lemma height_word: "0 < h \<Longrightarrow> h < 2 ^ 31 \<Longrightarrow> (word_of_int h :: u32) \<noteq> 0 \<and> sint (word_of_int h :: u32) = h"
proof -
  assume h: "0 < h" "h < 2 ^ 31"
  then have s: "sint (word_of_int h :: u32) = h"
    by (simp add: signed_of_int signed_take_bit_int_eq_self)
  then show ?thesis using h by (metis less_irrefl signed_0)
qed

text \<open>
  Restoring an output into what spending it left gives back the coins, except that a coinstake
  all of whose outputs had been spent is no longer marked as one.
\<close>

lemma restore_Spend:
  assumes "wf_unspent c" and "Spend c n = Some (c', undo)"
  shows "IsPruned c' \<Longrightarrow> IsPruned d \<Longrightarrow> restore_coins n undo d = (True, forget_stake c)"
    and "\<not> IsPruned c' \<Longrightarrow> restore_coins n undo (c'\<lparr>fCoinStake := s\<rparr>) = (True, c\<lparr>fCoinStake := s\<rparr>)"
proof -
  let ?outs = "coins_vout c"
  define outs' where "outs' = rev (pop_null (rev (?outs[n := CTxOut_SetNull])))"
  have n: "n < length ?outs" "\<not> CTxOut_IsNull (?outs ! n)" using assms(2) by (auto simp: Spend_def split: if_splits)
  have c': "c' = c\<lparr>coins_vout := outs'\<rparr>"
    using assms(2) n by (auto simp: Spend_def Let_def Cleanup_def outs'_def)
  have wf: "cleaned ?outs" "\<forall>out \<in> set ?outs. CTxOut_IsNull out \<longrightarrow> out = CTxOut_SetNull"
    "0 < coins_nHeight c" "coins_nHeight c < 2 ^ 31" using assms(1) by (simp_all add: wf_unspent_def)
  note h = height_word [OF wf(3,4)]
  note ro = restored_outputs [OF wf(1,2) n, folded outs'_def]
  have cl: "cleaned outs'" using cleaned_Cleanup [of "c\<lparr>coins_vout := ?outs[n := CTxOut_SetNull]\<rparr>"]
    by (simp add: Cleanup_def outs'_def)
  then have pr: "IsPruned c' \<longleftrightarrow> outs' = []" using IsPruned_cleaned [of c'] by (simp add: c')
  have undo: "undo = (if outs' = [] then \<lparr>undo_txout = ?outs ! n, undo_fCoinBase = fCoinBase c, undo_fCoinStake = fCoinStake c,
      undo_nHeight = word_of_int (coins_nHeight c), undo_nVersion = coins_nVersion c\<rparr> else CTxInUndo_of (?outs ! n))"
    using assms(2) n by (auto simp: Spend_def Let_def Cleanup_def outs'_def CTxInUndo_of_def split: if_splits)
  {
    assume "IsPruned c'" "IsPruned d"
    then have e: "outs' = []" using pr by simp
    show "restore_coins n undo d = (True, forget_stake c)"
      using ro(1) h \<open>IsPruned d\<close> unfolding e undo
      by (cases c) (simp add: restore_coins_def CCoins_Clear_def IsAvailable_def forget_stake_def)
  next
    assume np: "\<not> IsPruned c'"
    then have e: "outs' \<noteq> []" using pr by simp
    have "\<not> IsPruned (c'\<lparr>fCoinStake := s\<rparr>)" using np by (simp add: IsPruned_def)
    moreover have "\<not> IsAvailable (c'\<lparr>fCoinStake := s\<rparr>) n" using ro(2) by (auto simp: IsAvailable_def c')
    ultimately show "restore_coins n undo (c'\<lparr>fCoinStake := s\<rparr>) = (True, c\<lparr>fCoinStake := s\<rparr>)"
      using ro(1) e unfolding undo
      by (cases c) (simp add: restore_coins_def CTxInUndo_of_def c' split: if_splits)
  }
qed


section \<open>The cache routines refine the map\<close>

definition view_rep :: "('c \<Rightarrow> bool) \<Rightarrow> ('c \<Rightarrow> utxo_map) \<Rightarrow> ('c \<Rightarrow> base_uint) \<Rightarrow> 'c \<Rightarrow> utxo_map \<Rightarrow> base_uint \<Rightarrow> bool" where
  "view_rep I U B c u h \<longleftrightarrow> I c \<and> U c = u \<and> B c = h"

lemma Spend_cleaned: "Spend c n = Some (c', undo) \<Longrightarrow> cleaned (coins_vout c')"
  using cleaned_Cleanup [of "c\<lparr>coins_vout := (coins_vout c)[n := CTxOut_SetNull]\<rparr>"]
  by (auto simp: Spend_def Let_def split: if_splits)

lemma Spend_pruned: "IsPruned c \<Longrightarrow> Spend c n = None"
  by (auto simp: Spend_def IsPruned_def list_all_length)

lemma unpruned_cases: "unpruned c = r \<Longrightarrow> (r = None \<and> IsPruned c) \<or> (r = Some c \<and> \<not> IsPruned c)"
  by (auto simp: unpruned_def split: if_splits)

lemma utxo_spends_length: "utxo_spends u vins = Some (undos, u') \<Longrightarrow> length undos = length vins"
  by (induction vins arbitrary: u undos u') (auto split: option.splits)

context readable_view begin

abbreviation rep :: "'v CCoinsViewCache \<Rightarrow> utxo_map \<Rightarrow> base_uint \<Rightarrow> bool" where
  "rep \<equiv> view_rep (cache_inv inv utxo known) (cache_utxo utxo) (cache_best best)"

lemma rep_with_coins:
  assumes "rep c u h"
  shows "\<exists>c0 c'. with_coins ops c k f = (fst (f c0), c') \<and> unpruned c0 = u k
     \<and> rep c' (u(k := unpruned (Cleanup (snd (f c0))))) h"
proof -
  obtain r c' where w: "with_coins ops c k f = (r, c')" by force
  with with_coins_spec [OF _ w] assms show ?thesis by (auto simp: view_rep_def)
qed

lemma rep_AccessCoins:
  assumes "rep c u h"
  shows "\<exists>r c'. AccessCoins ops c k = (r, c') \<and> unpruned_opt r = u k \<and> rep c' u h"
proof -
  obtain e c' where w: "FetchCoins ops c k = (e, c')" by force
  with FetchCoins_spec [OF _ w] assms show ?thesis by (auto simp: view_rep_def AccessCoins_def)
qed

lemma rep_GetBestBlock:
  assumes "rep c u h"
  shows "\<exists>c'. GetBestBlock ops c = (h, c') \<and> rep c' u h"
proof -
  obtain r c' where w: "GetBestBlock ops c = (r, c')" by force
  with GetBestBlock_spec [OF _ w] assms show ?thesis by (auto simp: view_rep_def)
qed

lemma rep_SetBestBlock: "rep c u h \<Longrightarrow> h' \<noteq> uint256_of_u64 0 \<Longrightarrow> rep (SetBestBlock c h') u h'"
  by (simp add: view_rep_def cache_best_def)

lemma rep_spend_input:
  assumes "rep c u h"
  shows "case utxo_spend u p of None \<Rightarrow> fst (spend_input ops c p) = None
    | Some (undo, u') \<Rightarrow> \<exists>c'. spend_input ops c p = (Some undo, c') \<and> rep c' u' h"
proof -
  let ?f = "\<lambda>coins. case Spend coins (unat (op_n p)) of None \<Rightarrow> (None, coins) | Some (coins, undo) \<Rightarrow> (Some undo, coins)"
  obtain c0 c' where w: "with_coins ops c (op_hash p) ?f = (fst (?f c0), c')" "unpruned c0 = u (op_hash p)"
    "rep c' (u(op_hash p := unpruned (Cleanup (snd (?f c0))))) h"
    using rep_with_coins [OF assms] by blast
  show ?thesis
  proof (cases "Spend c0 (unat (op_n p))")
    case None
    then have "utxo_spend u p = None" using unpruned_cases [OF w(2)] by (auto simp: utxo_spend_def)
    with None w(1) show ?thesis by (simp add: spend_input_def)
  next
    case (Some r)
    obtain c1 undo where r: "r = (c1, undo)" by force
    have "\<not> IsPruned c0" using Some Spend_pruned by force
    then have u: "u (op_hash p) = Some c0" using unpruned_cases [OF w(2)] by auto
    have "Cleanup c1 = c1" using Spend_cleaned Cleanup_cleaned Some r by blast
    with w Some r u show ?thesis by (simp add: utxo_spend_def spend_input_def)
  qed
qed

lemma rep_spend_inputs:
  assumes "rep c u h"
  shows "case utxo_spends u vins of None \<Rightarrow> spend_inputs ops c vins = None
    | Some (undos, u') \<Rightarrow> \<exists>c'. spend_inputs ops c vins = Some (undos, c') \<and> rep c' u' h"
  using assms
proof (induction vins arbitrary: c u)
  case (Cons txin vins)
  show ?case
  proof (cases "utxo_spend u (prevout txin)")
    case None
    with rep_spend_input [OF Cons.prems, of "prevout txin"] show ?thesis by (auto split: prod.splits)
  next
    case (Some r)
    obtain undo u1 where r: "r = (undo, u1)" by force
    obtain c1 where c1: "spend_input ops c (prevout txin) = (Some undo, c1)" "rep c1 u1 h"
      using rep_spend_input [OF Cons.prems, of "prevout txin"] Some r by auto
    with Cons.IH [OF c1(2)] Some r show ?thesis by (auto split: option.splits)
  qed
qed simp

lemma rep_UpdateCoins:
  assumes "rep c u h"
  shows "case utxo_update u tx n of None \<Rightarrow> UpdateCoins ops tx c n = None
    | Some (undos, u') \<Rightarrow> \<exists>c'. UpdateCoins ops tx c n = Some (undos, c') \<and> rep c' u' h"
proof -
  have add: "\<exists>c'. with_coins ops c1 (tx_hash tx) (\<lambda>coins. ((), FromTx tx n)) = ((), c')
      \<and> rep c' (u1(tx_hash tx := unpruned (FromTx tx n))) h" if "rep c1 u1 h" for c1 u1
  proof -
    have "Cleanup (FromTx tx n) = FromTx tx n"
      by (simp add: FromTx_def ClearUnspendable_def Cleanup_cleaned cleaned_Cleanup)
    with rep_with_coins [OF that, of "tx_hash tx" "\<lambda>coins. ((), FromTx tx n)"] show ?thesis by auto
  qed
  show ?thesis
  proof (cases "IsCoinBase tx")
    case True
    with add [OF assms] show ?thesis by (auto simp: utxo_update_def UpdateCoins_def)
  next
    case False
    show ?thesis
    proof (cases "utxo_spends u (vin tx)")
      case None
      with rep_spend_inputs [OF assms, of "vin tx"] False show ?thesis by (simp add: utxo_update_def UpdateCoins_def)
    next
      case (Some r)
      obtain undos u1 where r: "r = (undos, u1)" by force
      obtain c1 where c1: "spend_inputs ops c (vin tx) = Some (undos, c1)" "rep c1 u1 h"
        using rep_spend_inputs [OF assms, of "vin tx"] Some r by auto
      with add [OF c1(2)] Some r False show ?thesis by (auto simp: utxo_update_def UpdateCoins_def)
    qed
  qed
qed

end


section \<open>Disconnecting simulates going back\<close>

text \<open>
  \<open>v\<close> holds the coins of \<open>u\<close>, except that entries outside \<open>K\<close> may have lost the
  coinstake mark.
\<close>

definition stake_lost :: "txid set \<Rightarrow> utxo_map \<Rightarrow> utxo_map \<Rightarrow> bool" where
  "stake_lost K v u \<longleftrightarrow> (\<forall>k. v k = u k \<or> (k \<notin> K \<and> v k = map_option forget_stake (u k)))"

definition wf_utxo :: "utxo_map \<Rightarrow> bool" where
  "wf_utxo u \<longleftrightarrow> (\<forall>k c. u k = Some c \<longrightarrow> wf_unspent c)"

lemma stake_lost_refl: "stake_lost K u u"
  by (simp add: stake_lost_def)

lemma stake_lost_upd:
  "stake_lost K v u \<Longrightarrow> r = s \<or> (k \<notin> K \<and> r = map_option forget_stake s) \<Longrightarrow> stake_lost K (v(k := r)) (u(k := s))"
  by (simp add: stake_lost_def)

lemma forget_stake_simps [simp]:
  "coins_vout (forget_stake c) = coins_vout c" "IsPruned (forget_stake c) = IsPruned c" "fCoinStake (forget_stake c) = False"
  by (simp_all add: forget_stake_def IsPruned_def)

lemma wf_unspent_forget [simp]: "wf_unspent (forget_stake c) = wf_unspent c"
  by (simp add: wf_unspent_def forget_stake_def)

lemma wf_unspent_simps: "wf_unspent c \<Longrightarrow> Cleanup c = c \<and> unpruned c = Some c"
  by (simp add: wf_unspent_def Cleanup_cleaned unpruned_def IsPruned_cleaned)

lemma unpruned_eq: "unpruned c = Some c' \<Longrightarrow> c = c' \<and> \<not> IsPruned c"
  by (auto simp: unpruned_def split: if_splits)

lemma wf_unspent_Spend: "wf_unspent c \<Longrightarrow> Spend c n = Some (c', undo) \<Longrightarrow> \<not> IsPruned c' \<Longrightarrow> wf_unspent c'"
proof -
  assume a: "wf_unspent c" "Spend c n = Some (c', undo)" "\<not> IsPruned c'"
  let ?xs = "(coins_vout c)[n := CTxOut_SetNull]"
  have c': "c' = c\<lparr>coins_vout := rev (pop_null (rev ?xs))\<rparr>" using a(2) by (auto simp: Spend_def Let_def Cleanup_def split: if_splits)
  have "set (pop_null xs) \<subseteq> set xs" for xs by (induction xs) auto
  then have "set (coins_vout c') \<subseteq> insert CTxOut_SetNull (set (coins_vout c))"
    using set_update_subset_insert [of "coins_vout c" n CTxOut_SetNull] by (fastforce simp: c')
  with a(1) have n: "\<forall>out \<in> set (coins_vout c'). CTxOut_IsNull out \<longrightarrow> out = CTxOut_SetNull" by (auto simp: wf_unspent_def)
  have "cleaned (coins_vout c')" using a(2) Spend_cleaned by blast
  moreover have "coins_vout c' \<noteq> []" using a(3) by (auto simp: IsPruned_def)
  moreover have "coins_nHeight c' = coins_nHeight c" by (simp add: c')
  ultimately show "wf_unspent c'" using n a(1) by (simp add: wf_unspent_def)
qed

lemma wf_utxo_spend: "wf_utxo u \<Longrightarrow> utxo_spend u p = Some (undo, u') \<Longrightarrow> wf_utxo u'"
  by (auto simp: wf_utxo_def utxo_spend_def split: option.splits) (metis unpruned_eq wf_unspent_Spend)+

lemma utxo_spends_props:
  "utxo_spends u vins = Some (undos, u') \<Longrightarrow> wf_utxo u \<Longrightarrow> wf_utxo u' \<and> (\<forall>k. u k = None \<longrightarrow> u' k = None)"
proof (induction vins arbitrary: u undos)
  case (Cons txin vins)
  then obtain undo u1 undos1 where "utxo_spend u (prevout txin) = Some (undo, u1)" "utxo_spends u1 vins = Some (undos1, u')"
    by (auto split: option.splits)
  moreover from this(1) have "\<forall>k. u k = None \<longrightarrow> u1 k = None" by (auto simp: utxo_spend_def split: option.splits)
  ultimately show ?case using Cons.IH Cons.prems(2) wf_utxo_spend by meson
qed simp

lemma ClearUnspendable_FromTx:
  "ClearUnspendable (FromTx tx h) = FromTx tx h" "Cleanup (FromTx tx h) = FromTx tx h"
  "fCoinStake (FromTx tx h) = IsCoinStake tx" "coins_nVersion (FromTx tx h) = tx_nVersion tx" "coins_nHeight (FromTx tx h) = h"
  "\<forall>out \<in> set (coins_vout (FromTx tx h)). out = CTxOut_SetNull \<or> out \<in> set (vout tx)"
proof -
  let ?f = "\<lambda>txout. if IsUnspendable (scriptPubKey txout) then CTxOut_SetNull else txout"
  have f: "?f (?f out) = ?f out" for out by (simp add: CTxOut_SetNull_def IsUnspendable_def)
  define xs where "xs = coins_vout (FromTx tx h)"
  have set: "set (pop_null xs) \<subseteq> set xs" for xs by (induction xs) auto
  have xs: "xs = rev (pop_null (rev (map ?f (vout tx))))" by (simp add: xs_def FromTx_def ClearUnspendable_def Cleanup_def)
  then have "set xs \<subseteq> ?f ` set (vout tx)" using set [of "rev (map ?f (vout tx))"] by simp
  then show outs: "\<forall>out \<in> set (coins_vout (FromTx tx h)). out = CTxOut_SetNull \<or> out \<in> set (vout tx)"
    unfolding xs_def [symmetric] by auto
  have "map ?f xs = xs" using \<open>set xs \<subseteq> ?f ` set (vout tx)\<close> f by (auto intro!: map_idI)
  moreover show cl: "Cleanup (FromTx tx h) = FromTx tx h"
    by (simp add: FromTx_def ClearUnspendable_def Cleanup_cleaned cleaned_Cleanup)
  ultimately show "ClearUnspendable (FromTx tx h) = FromTx tx h"
    by (simp add: ClearUnspendable_def xs_def)
qed (simp_all add: FromTx_def ClearUnspendable_def)

lemma wf_unspent_FromTx:
  assumes "\<forall>out \<in> set (vout tx). 0 \<le> nValue out" and "0 < h" and "h < 2 ^ 31" and "\<not> IsPruned (FromTx tx h)"
  shows "wf_unspent (FromTx tx h)"
proof -
  have "\<forall>out \<in> set (coins_vout (FromTx tx h)). CTxOut_IsNull out \<longrightarrow> out = CTxOut_SetNull"
    using ClearUnspendable_FromTx(6) [of tx h] assms(1) by (force simp: CTxOut_IsNull_def)
  moreover have "cleaned (coins_vout (FromTx tx h))" using cleaned_Cleanup [of "FromTx tx h"] ClearUnspendable_FromTx(2) [of tx h] by simp
  moreover have "coins_vout (FromTx tx h) \<noteq> []" using assms(4) by (auto simp: IsPruned_def)
  ultimately show ?thesis using assms ClearUnspendable_FromTx(5) by (simp add: wf_unspent_def)
qed

text \<open>The check of the outputs passes and clears them.\<close>

lemma outs_match_clean:
  assumes "unpruned c0 = r" and "r = unpruned (FromTx tx h) \<or> (k \<notin> K \<and> r = map_option forget_stake (unpruned (FromTx tx h)))"
    and "IsCoinStake tx \<Longrightarrow> k \<in> K"
  shows "outs_match tx h c0 = (True, CCoins_Clear)"
proof (cases "IsPruned (FromTx tx h)")
  case True
  then have "IsPruned c0" using assms(1,2) unpruned_cases [of c0] by (auto simp: unpruned_def split: if_splits)
  then have "IsPruned (ClearUnspendable c0)"
    unfolding ClearUnspendable_def IsPruned_Cleanup by (auto simp: IsPruned_def list_all_iff)
  with True show ?thesis by (simp add: outs_match_def CCoins_eq_def IsPruned_def Let_def)
next
  case False
  have "r = Some (FromTx tx h)"
  proof (cases "IsCoinStake tx")
    case True
    then show ?thesis using assms(2,3) False by (simp add: unpruned_def)
  next
    case nostake: False
    have "forget_stake (FromTx tx h) = FromTx tx h"
      using ClearUnspendable_FromTx(3) [of tx h] nostake by (cases "FromTx tx h") (simp add: forget_stake_def)
    then show ?thesis using assms(2) False by (auto simp: unpruned_def)
  qed
  then have "c0 = FromTx tx h" using assms(1) unpruned_eq by metis
  then show ?thesis using ClearUnspendable_FromTx(1) [of tx h]
    by (simp add: outs_match_def CCoins_eq_def)
qed


context readable_view begin

lemma restore_input_sim:
  assumes "utxo_spend u p = Some (undo, u')" and "wf_utxo u" and "rep view v h" and "stake_lost K v u'" and "op_hash p \<notin> K"
  shows "\<exists>view' v'. with_coins ops view (op_hash p) (restore_coins (unat (op_n p)) undo) = (True, view')
     \<and> rep view' v' h \<and> stake_lost K v' u"
proof -
  let ?k = "op_hash p" and ?f = "restore_coins (unat (op_n p)) undo"
  obtain c c' where c: "u ?k = Some c" "Spend c (unat (op_n p)) = Some (c', undo)" "u' = u(?k := unpruned c')"
    using assms(1) by (auto simp: utxo_spend_def split: option.splits)
  have wf: "wf_unspent c" using assms(2) c(1) by (simp add: wf_utxo_def)
  obtain c0 view' where w: "with_coins ops view ?k ?f = (fst (?f c0), view')" "unpruned c0 = v ?k"
    "rep view' (v(?k := unpruned (Cleanup (snd (?f c0))))) h"
    using rep_with_coins [OF assms(3)] by blast
  have v: "v ?k = unpruned c' \<or> v ?k = map_option forget_stake (unpruned c')"
    using assms(4) c(3) by (auto simp: stake_lost_def dest: spec [of _ ?k])
  have r: "?f c0 = (True, c) \<or> ?f c0 = (True, forget_stake c)"
  proof (cases "IsPruned c'")
    case True
    then have "IsPruned c0" using v unpruned_cases [OF w(2)] by (auto simp: unpruned_def)
    then show ?thesis using restore_Spend(1) [OF wf c(2) True] by simp
  next
    case False
    then have "c0 = c'\<lparr>fCoinStake := fCoinStake c'\<rparr> \<or> c0 = c'\<lparr>fCoinStake := False\<rparr>"
      using v unpruned_cases [OF w(2)] by (auto simp: unpruned_def forget_stake_def)
    moreover have "c\<lparr>fCoinStake := fCoinStake c'\<rparr> = c" using c(2) by (auto simp: Spend_def Let_def split: if_splits)
    ultimately show ?thesis using restore_Spend(2) [OF wf c(2) False] unfolding forget_stake_def by metis
  qed
  then have "fst (?f c0) = True" and
    s: "unpruned (Cleanup (snd (?f c0))) = Some c \<or> unpruned (Cleanup (snd (?f c0))) = Some (forget_stake c)"
    using wf_unspent_simps [OF wf] wf_unspent_simps [of "forget_stake c"] wf by auto
  moreover have "stake_lost K (v(?k := unpruned (Cleanup (snd (?f c0))))) (u'(?k := u ?k))"
    by (rule stake_lost_upd [OF assms(4)]) (use s assms(5) c(1) in auto)
  moreover have "u'(?k := u ?k) = u" by (simp add: c(3))
  ultimately show ?thesis using w by (metis (full_types))
qed

lemma restore_inputs_append:
  "restore_inputs base view fClean (xs @ ys) =
     (case restore_inputs base view fClean xs of (fClean, view) \<Rightarrow> restore_inputs base view fClean ys)"
  by (induction base view fClean xs rule: restore_inputs.induct) (auto split: prod.splits)

lemma restore_inputs_sim:
  assumes "utxo_spends u vins = Some (undos, u')" and "wf_utxo u" and "rep view v h" and "stake_lost K v u'"
    and "\<forall>txin \<in> set vins. op_hash (prevout txin) \<notin> K"
  shows "\<exists>view' v'. restore_inputs ops view fClean (rev (zip (map prevout vins) undos)) = (fClean, view')
     \<and> rep view' v' h \<and> stake_lost K v' u"
  using assms
proof (induction vins arbitrary: u undos)
  case (Cons txin vins)
  obtain undo u1 undos1 where s: "utxo_spend u (prevout txin) = Some (undo, u1)" "utxo_spends u1 vins = Some (undos1, u')"
    "undos = undo # undos1"
    using Cons.prems(1) by (auto split: option.splits)
  have "wf_utxo u1" using wf_utxo_spend Cons.prems(2) s(1) by blast
  then obtain view1 v1 where 1: "restore_inputs ops view fClean (rev (zip (map prevout vins) undos1)) = (fClean, view1)"
    "rep view1 v1 h" "stake_lost K v1 u1"
    using Cons.IH [OF s(2)] Cons.prems by auto
  with restore_input_sim [OF s(1) Cons.prems(2) 1(2,3)] Cons.prems(5) show ?case
    by (auto simp: s(3) restore_inputs_append)
qed auto

lemma disconnect_tx_sim:
  assumes "utxo_update u tx n = Some (undos, u')" and "wf_utxo u" and "rep view v h" and "stake_lost K v u'"
    and "IsCoinBase tx \<or> txundo = Some undos" and "u (tx_hash tx) = None" and "IsCoinStake tx \<Longrightarrow> tx_hash tx \<in> K"
    and "\<not> IsCoinBase tx \<Longrightarrow> \<forall>txin \<in> set (vin tx). op_hash (prevout txin) \<notin> K"
  shows "\<exists>view' v'. disconnect_tx ops n tx txundo fClean view = Inr (Some (fClean, view')) \<and> rep view' v' h \<and> stake_lost K v' u"
proof -
  let ?k = "tx_hash tx"
  obtain u1 where u1: "u' = u1(?k := unpruned (FromTx tx n))"
    "if IsCoinBase tx then undos = [] \<and> u1 = u else utxo_spends u (vin tx) = Some (undos, u1)"
    using assms(1) by (auto simp: utxo_update_def split: if_splits)
  then have none: "u1 ?k = None" using assms(2,6) utxo_spends_props by (auto split: if_splits)
  obtain c0 view1 where w: "with_coins ops view ?k (outs_match tx n) = (fst (outs_match tx n c0), view1)" "unpruned c0 = v ?k"
    "rep view1 (v(?k := unpruned (Cleanup (snd (outs_match tx n c0))))) h"
    using rep_with_coins [OF assms(3)] by blast
  have "v ?k = unpruned (FromTx tx n) \<or> (?k \<notin> K \<and> v ?k = map_option forget_stake (unpruned (FromTx tx n)))"
    using assms(4) unfolding stake_lost_def u1(1) by (metis fun_upd_same)
  from outs_match_clean [OF w(2) this assms(7)] have m: "outs_match tx n c0 = (True, CCoins_Clear)" by simp
  have cl: "unpruned (Cleanup CCoins_Clear) = None" unfolding unpruned_def IsPruned_Cleanup by (simp add: IsPruned_def CCoins_Clear_def)
  have r1: "rep view1 (v(?k := None)) h" using w(3) unfolding m snd_conv cl .
  have "stake_lost K (v(?k := None)) (u'(?k := None))" by (rule stake_lost_upd [OF assms(4)]) simp
  moreover have "u'(?k := None) = u1" using none u1(1) by auto
  ultimately have s1: "stake_lost K (v(?k := None)) u1" by simp
  show ?thesis
  proof (cases "IsCoinBase tx")
    case True
    with w(1) m r1 s1 u1(2) show ?thesis by (auto simp: disconnect_tx_def)
  next
    case False
    with u1(2) have sp: "utxo_spends u (vin tx) = Some (undos, u1)" by simp
    from restore_inputs_sim [OF sp assms(2) r1 s1, of fClean] False assms(8) obtain view' v' where
      "restore_inputs ops view1 fClean (rev (zip (map prevout (vin tx)) undos)) = (fClean, view')" "rep view' v' h" "stake_lost K v' u"
      by blast
    with False w(1) m assms(5) utxo_spends_length [OF sp] show ?thesis by (auto simp: disconnect_tx_def)
  qed
qed

end


section \<open>Whole blocks\<close>

fun utxo_updates :: "utxo_map \<Rightarrow> CTransaction list \<Rightarrow> int \<Rightarrow> (CTxInUndo list list \<times> utxo_map) option" where
  "utxo_updates u [] h = Some ([], u)"
| "utxo_updates u (tx # txs) h =
     (case utxo_update u tx h of None \<Rightarrow> None
      | Some (undo, u) \<Rightarrow> map_option (\<lambda>(undos, u). (undo # undos, u)) (utxo_updates u txs h))"

text \<open>The coinstakes of a block, and the condition that the block does not spend its own coinstake.\<close>

definition stake_ids :: "CTransaction list \<Rightarrow> txid set" where
  "stake_ids txs = {tx_hash tx |tx. tx \<in> set txs \<and> IsCoinStake tx}"

definition spends_outside :: "txid set \<Rightarrow> CTransaction list \<Rightarrow> bool" where
  "spends_outside K txs \<longleftrightarrow> (\<forall>tx \<in> set txs. \<not> IsCoinBase tx \<longrightarrow> (\<forall>txin \<in> set (vin tx). op_hash (prevout txin) \<notin> K))"

definition outputs_nonneg :: "CTransaction list \<Rightarrow> bool" where
  "outputs_nonneg txs \<longleftrightarrow> (\<forall>tx \<in> set txs. \<forall>out \<in> set (vout tx). 0 \<le> nValue out)"

lemma utxo_update_props:
  assumes "utxo_update u tx h = Some (undo, u')" and "wf_utxo u" and "\<forall>out \<in> set (vout tx). 0 \<le> nValue out"
    and "0 < h" and "h < 2 ^ 31"
  shows "wf_utxo u' \<and> (\<forall>k. k \<noteq> tx_hash tx \<longrightarrow> u k = None \<longrightarrow> u' k = None)"
proof -
  obtain u1 where u1: "u' = u1(tx_hash tx := unpruned (FromTx tx h))" "wf_utxo u1" "\<forall>k. u k = None \<longrightarrow> u1 k = None"
    using assms(1,2) utxo_spends_props [of u "vin tx"] by (auto simp: utxo_update_def split: if_splits)
  have "unpruned (FromTx tx h) = Some c \<Longrightarrow> wf_unspent c" for c
    using wf_unspent_FromTx [OF assms(3-5)] unpruned_eq [of "FromTx tx h" c] by auto
  with u1 show ?thesis by (auto simp: wf_utxo_def)
qed

lemma disconnect_txs_append:
  "disconnect_txs base h (xs @ ys) fClean view =
     bindE (disconnect_txs base h xs fClean view) (\<lambda>r. case r of None \<Rightarrow> Inr None
       | Some (fClean, view) \<Rightarrow> disconnect_txs base h ys fClean view)"
proof (induction base h xs fClean view rule: disconnect_txs.induct)
  case (2 base h tx txundo todo fClean view)
  then show ?case
    by (cases "disconnect_tx base h tx txundo fClean view") (auto split: option.splits)
qed simp

context readable_view begin

lemma disconnect_txs_sim:
  assumes "utxo_updates u txs n = Some (undos, u')" and "wf_utxo u" and "rep view v h" and "stake_lost K v u'"
    and "list_all2 (\<lambda>(tx, undo) txundo. IsCoinBase tx \<or> txundo = Some undo) (zip txs undos) us"
    and "distinct (map tx_hash txs)" and "\<forall>tx \<in> set txs. u (tx_hash tx) = None" and "stake_ids txs \<subseteq> K"
    and "spends_outside K txs" and "outputs_nonneg txs" and "0 < n" and "n < 2 ^ 31"
  shows "\<exists>view' v'. disconnect_txs ops n (rev (zip txs us)) fClean view = Inr (Some (fClean, view'))
     \<and> rep view' v' h \<and> stake_lost K v' u"
  using assms
proof (induction txs arbitrary: u undos us)
  case (Cons tx txs)
  obtain undo u1 undos1 where s: "utxo_update u tx n = Some (undo, u1)" "utxo_updates u1 txs n = Some (undos1, u')"
    "undos = undo # undos1"
    using Cons.prems(1) by (auto split: option.splits)
  obtain txundo us1 where us: "us = txundo # us1" "IsCoinBase tx \<or> txundo = Some undo"
    "list_all2 (\<lambda>(tx, undo) txundo. IsCoinBase tx \<or> txundo = Some undo) (zip txs undos1) us1"
    using Cons.prems(5) s(3) by (cases us) auto
  note p = utxo_update_props [OF s(1) Cons.prems(2) _ Cons.prems(11,12)]
  have nn: "\<forall>out \<in> set (vout tx). 0 \<le> nValue out" using Cons.prems(10) by (simp add: outputs_nonneg_def)
  note p = p [OF nn]
  have "u1 (tx_hash tx') = None" if "tx' \<in> set txs" for tx'
  proof -
    have "tx_hash tx' \<noteq> tx_hash tx" using Cons.prems(6) that by (metis distinct.simps(2) image_eqI list.set_map list.simps(9))
    moreover have "u (tx_hash tx') = None" using Cons.prems(7) that by simp
    ultimately show ?thesis using p by blast
  qed
  then have "wf_utxo u1" "\<forall>tx' \<in> set txs. u1 (tx_hash tx') = None" using p by blast+
  have ids: "stake_ids txs \<subseteq> K" using Cons.prems(8) by (auto simp: stake_ids_def)
  have out: "spends_outside K txs" and nn1: "outputs_nonneg txs"
    using Cons.prems(9,10) by (simp_all add: spends_outside_def outputs_nonneg_def)
  obtain view1 v1 where 1: "disconnect_txs ops n (rev (zip txs us1)) fClean view = Inr (Some (fClean, view1))"
    "rep view1 v1 h" "stake_lost K v1 u1"
    using Cons.IH [OF s(2) \<open>wf_utxo u1\<close> Cons.prems(3,4) us(3) _ _ ids out nn1 Cons.prems(11,12)] Cons.prems(6) \<open>\<forall>tx' \<in> set txs. u1 (tx_hash tx') = None\<close>
    by auto
  obtain view' v' where 2: "disconnect_tx ops n tx txundo fClean view1 = Inr (Some (fClean, view'))" "rep view' v' h" "stake_lost K v' u"
    using disconnect_tx_sim [OF s(1) Cons.prems(2) 1(2,3) us(2), of fClean] Cons.prems(7-9)
    by (auto simp: stake_ids_def spends_outside_def)
  then show ?case using 1(1) by (auto simp: us(1) disconnect_txs_append)
qed auto

text \<open>Reading does not change what a view represents.\<close>

lemma rep_have_inputs: "rep view u h \<Longrightarrow> have_inputs_loop ops view vins = (b, view') \<Longrightarrow> rep view' u h"
proof (induction vins arbitrary: view)
  case (Cons txin vins)
  obtain r view1 where a: "AccessCoins ops view (op_hash (prevout txin)) = (r, view1)" "rep view1 u h"
    using rep_AccessCoins [OF Cons.prems(1)] by blast
  with Cons show ?case by (cases r) (auto split: if_splits)
qed simp

lemma rep_GetOutputFor: "rep view u h \<Longrightarrow> GetOutputFor ops view txin = Inr (out, view') \<Longrightarrow> rep view' u h"
  using rep_AccessCoins [of view u h "op_hash (prevout txin)"] by (auto simp: GetOutputFor_def split: option.splits if_splits)

lemma rep_value_in_loop: "rep view u h \<Longrightarrow> value_in_loop ops view n vins = Inr (r, view') \<Longrightarrow> rep view' u h"
  by (induction vins arbitrary: view n) (auto simp: bindE_Inr_pair dest: rep_GetOutputFor)

lemma rep_GetValueIn: "rep view u h \<Longrightarrow> GetValueIn ops view tx = Inr (r, view') \<Longrightarrow> rep view' u h"
  by (auto simp: GetValueIn_def dest: rep_value_in_loop split: if_splits)

lemma rep_p2sh_loop: "rep view u h \<Longrightarrow> p2sh_sigop_loop ops view n vins = Inr (r, view') \<Longrightarrow> rep view' u h"
  by (induction vins arbitrary: view n) (auto simp: bindE_Inr_pair dest: rep_GetOutputFor)

lemma rep_input_values: "rep view u h \<Longrightarrow> input_values_loop env ops d st view n vins = Inr (r, view') \<Longrightarrow> rep view' u h"
proof (induction vins arbitrary: view n)
  case (Cons txin vins)
  obtain a view1 where a: "AccessCoins ops view (op_hash (prevout txin)) = (a, view1)" "rep view1 u h"
    using rep_AccessCoins [OF Cons.prems(1)] by blast
  with Cons show ?case by (cases a) (auto simp: Let_def split: if_splits)
qed simp

lemma rep_script_checks: "rep view u h \<Longrightarrow> script_checks_loop env ops tx flags pv st view checks i vins = Inr (r, view') \<Longrightarrow> rep view' u h"
proof (induction vins arbitrary: view checks i)
  case (Cons txin vins)
  obtain a view1 where a: "AccessCoins ops view (op_hash (prevout txin)) = (a, view1)" "rep view1 u h"
    using rep_AccessCoins [OF Cons.prems(1)] by blast
  with Cons show ?case by (cases a) (auto simp: Let_def split: if_splits option.splits)
qed simp

lemma rep_CheckInputs:
  assumes "rep view u h" and "CheckInputs env ops tx st view fS flags pv = Inr (r, view')"
  shows "rep view' u h"
proof (cases "IsCoinBase tx")
  case True
  with assms show ?thesis by (simp add: CheckInputs_def)
next
  case False
  obtain b view1 where 1: "HaveInputs ops view tx = (b, view1)" by force
  then have r1: "rep view1 u h" using assms(1) rep_have_inputs by (auto simp: HaveInputs_def False)
  obtain view2 where 2: "GetBestBlock ops view1 = (h, view2)" "rep view2 u h" using rep_GetBestBlock [OF r1] by blast
  consider "\<not> b" | "b" "env_mapBlockIndex env h = None" | p where "b" "env_mapBlockIndex env h = Some p" by blast
  then show ?thesis
  proof cases
    case 1
    with \<open>HaveInputs ops view tx = (b, view1)\<close> False r1 assms(2) show ?thesis by (simp add: CheckInputs_def)
  next
    case 2
    with \<open>HaveInputs ops view tx = (b, view1)\<close> \<open>GetBestBlock ops view1 = (h, view2)\<close> False assms(2)
    show ?thesis by (simp add: CheckInputs_def)
  next
    case (3 p)
    obtain v view3 where v: "input_values_loop env ops (nHeight p + 1) st view2 0 (vin tx) = Inr (v, view3)"
      and rest: "(case v of Inl st \<Rightarrow> Inr (Inl st, view3)
          | Inr nValueIn \<Rightarrow> bindE (check_fee env tx st nValueIn) (\<lambda>r. case r of Inl st \<Rightarrow> Inr (Inl st, view3)
              | Inr _ \<Rightarrow> if fS then script_checks_loop env ops tx flags pv st view3 [] 0 (vin tx) else Inr (Inr [], view3))) = Inr (r, view')"
      using assms(2) False \<open>HaveInputs ops view tx = (b, view1)\<close> \<open>GetBestBlock ops view1 = (h, view2)\<close> 3
      by (auto simp: CheckInputs_def bindE_Inr_pair)
    have r3: "rep view3 u h" using rep_input_values [OF 2(2) v] .
    show ?thesis
    proof (cases v)
      case (Inr nValueIn)
      then obtain w :: "CValidationState + unit" where w: "(case w of Inl st \<Rightarrow> Inr (Inl st, view3)
              | Inr _ \<Rightarrow> if fS then script_checks_loop env ops tx flags pv st view3 [] 0 (vin tx) else Inr (Inr [], view3)) = Inr (r, view')"
        using rest unfolding Inr sum.case(2) bindE_Inr by blast
      then show ?thesis using r3 rep_script_checks [OF r3] by (cases w) (auto split: if_splits)
    qed (use r3 rest in simp)
  qed
qed

end


context readable_view begin

lemma rep_GetP2SH: "rep view u h \<Longrightarrow> GetP2SHSigOpCount ops tx view = Inr (r, view') \<Longrightarrow> rep view' u h"
  by (auto simp: GetP2SHSigOpCount_def dest: rep_p2sh_loop split: if_splits)

lemma rep_HaveInputs: "rep view u h \<Longrightarrow> HaveInputs ops view tx = (b, view') \<Longrightarrow> rep view' u h"
  by (auto simp: HaveInputs_def dest: rep_have_inputs split: if_splits)

lemma rep_connect_inputs:
  assumes "rep (cv_view cv) u h" and "connect_inputs env ops pindex fS tx cv = Inr (Inr cv')"
  shows "rep (cv_view cv') u h \<and> cv_vtxundo cv' = cv_vtxundo cv"
proof -
  obtain b view1 where 1: "HaveInputs ops (cv_view cv) tx = (b, view1)" by force
  note r1 = rep_HaveInputs [OF assms(1) 1]
  have b using assms(2) 1 by (simp add: connect_inputs_def split: if_splits)
  then obtain n view2 where 2: "GetP2SHSigOpCount ops tx view1 = Inr (n, view2)"
    using assms(2) 1 by (cases "GetP2SHSigOpCount ops tx view1") (auto simp: connect_inputs_def)
  note r2 = rep_GetP2SH [OF r1 2]
  have n: "\<not> MAX_BLOCK_SIGOPS < cv_nSigOps cv + n"
    using assms(2) 1 2 \<open>b\<close> by (auto simp: connect_inputs_def Let_def split: if_splits)
  let ?fees = "if IsCoinStake tx then Inr (cv_nFees cv, view2)
                      else bindE (GetValueIn ops view2 tx) (\<lambda>(valueIn, view).
                        case GetValueOut tx of
                          Inl e \<Rightarrow> Inl (Threw e)
                        | Inr valueOut \<Rightarrow> Inr (add64 (cv_nFees cv) (wrap64 (valueIn - valueOut)), view))"
  obtain fees view3 where 3: "?fees = Inr (fees, view3)"
    using assms(2) 1 2 \<open>b\<close> n by (cases ?fees) (auto simp: connect_inputs_def Let_def)
  have r3: "rep view3 u h"
    using 3 r2 rep_GetValueIn [OF r2] by (cases "GetValueOut tx") (auto simp: bindE_Inr_pair split: if_splits)
  obtain valueIn view4 where 4: "GetValueIn ops view3 tx = Inr (valueIn, view4)"
    using assms(2) 1 2 \<open>b\<close> n 3 by (cases "GetValueIn ops view3 tx") (auto simp: connect_inputs_def Let_def)
  note r4 = rep_GetValueIn [OF r3 4]
  let ?check = "CheckInputs env ops tx (cv_state cv) view4 fS (SCRIPT_VERIFY_P2SH OR SCRIPT_VERIFY_DERSIG) (env_nScriptCheckThreads env \<noteq> 0)"
  obtain r view5 where 5: "?check = Inr (r, view5)"
    using assms(2) 1 2 \<open>b\<close> n 3 4 by (cases ?check) (auto simp: connect_inputs_def Let_def)
  note r5 = rep_CheckInputs [OF r4 5]
  show ?thesis
    using assms(2) 1 2 \<open>b\<close> n 3 4 5 r5
    by (cases r) (auto simp: connect_inputs_def Let_def split: if_splits option.splits)
qed

lemma connect_tx_spec:
  assumes "rep (cv_view cv) u h" and "connect_tx env ops pindex fS i tx cv = Inr (Inr cv')"
  shows "\<exists>undo u'. utxo_update u tx (nHeight pindex) = Some (undo, u') \<and> rep (cv_view cv') u' h
     \<and> cv_vtxundo cv' = (if i = 0 then cv_vtxundo cv else cv_vtxundo cv @ [undo]) \<and> (\<exists>v. GetValueOut tx = Inr v)"
proof -
  let ?cv = "cv\<lparr>cv_nSigOps := cv_nSigOps cv + GetLegacySigOpCount tx\<rparr>"
  let ?ins = "if IsCoinBase tx then Inr (Inr ?cv) else connect_inputs env ops pindex fS tx ?cv"
  have s: "\<not> MAX_BLOCK_SIGOPS < cv_nSigOps cv + GetLegacySigOpCount tx"
    using assms(2) by (auto simp: connect_tx_def Let_def split: if_splits)
  obtain r where r: "?ins = Inr r" using assms(2) s by (cases ?ins) (auto simp: connect_tx_def Let_def)
  obtain cv1 where cv1: "r = Inr cv1" using assms(2) s r by (cases r) (auto simp: connect_tx_def Let_def)
  have r1: "rep (cv_view cv1) u h \<and> cv_vtxundo cv1 = cv_vtxundo cv"
    using r cv1 assms(1) rep_connect_inputs [of ?cv u h env pindex fS tx cv1] by (auto split: if_splits)
  obtain v where v: "GetValueOut tx = Inr v"
    using assms(2) s r cv1 by (cases "GetValueOut tx") (auto simp: connect_tx_def Let_def)
  obtain undo view where up: "UpdateCoins ops tx (cv_view cv1) (nHeight pindex) = Some (undo, view)"
    using assms(2) s r cv1 v by (cases "UpdateCoins ops tx (cv_view cv1) (nHeight pindex)") (auto simp: connect_tx_def Let_def)
  then have "cv_view cv' = view" "cv_vtxundo cv' = (if i = 0 then cv_vtxundo cv1 else cv_vtxundo cv1 @ [undo])"
    using assms(2) s r cv1 v by (auto simp: connect_tx_def Let_def)
  moreover obtain u' where "utxo_update u tx (nHeight pindex) = Some (undo, u')" "rep view u' h"
    using rep_UpdateCoins [of "cv_view cv1" u h tx "nHeight pindex"] r1 up by (auto split: option.splits)
  ultimately show ?thesis using r1 v by auto
qed

lemma connect_txs_spec:
  assumes "rep (cv_view cv) u h" and "connect_txs env ops pindex fS i txs cv = Inr (Inr cv')"
  shows "\<exists>undos u'. utxo_updates u txs (nHeight pindex) = Some (undos, u') \<and> rep (cv_view cv') u' h
     \<and> cv_vtxundo cv' = cv_vtxundo cv @ (if i = 0 then tl undos else undos) \<and> (\<forall>tx \<in> set txs. \<exists>v. GetValueOut tx = Inr v)"
  using assms
proof (induction txs arbitrary: cv u i)
  case (Cons tx txs)
  obtain r where r: "connect_tx env ops pindex fS i tx cv = Inr r"
    using Cons.prems(2) by (cases "connect_tx env ops pindex fS i tx cv") auto
  then obtain cv1 where cv1: "r = Inr cv1" using Cons.prems(2) by (cases r) auto
  obtain undo u1 where 1: "utxo_update u tx (nHeight pindex) = Some (undo, u1)" "rep (cv_view cv1) u1 h"
    "cv_vtxundo cv1 = (if i = 0 then cv_vtxundo cv else cv_vtxundo cv @ [undo])" "\<exists>v. GetValueOut tx = Inr v"
    using connect_tx_spec [OF Cons.prems(1), of env pindex fS i tx cv1] r cv1 by blast
  have "connect_txs env ops pindex fS (i + 1) txs cv1 = Inr (Inr cv')" using Cons.prems(2) r cv1 by simp
  from Cons.IH [OF 1(2) this] 1 show ?case by (cases "i = 0") auto
qed simp

end

lemma value_out_nonneg: "value_out_loop n outs = Inr v \<Longrightarrow> \<forall>out \<in> set outs. 0 \<le> nValue out"
  by (induction outs arbitrary: n) (auto split: if_splits)


lemma undo_bit: "x AND BLOCK_HAVE_UNDO \<noteq> 0 \<longleftrightarrow> bit x 4"
  using and_push_bit_1 [of x 4] by (simp add: BLOCK_HAVE_UNDO_def)

lemma RaiseValidity_fields:
  assumes "RaiseValidity b n = Some (b', r)"
  shows "phashBlock b' = phashBlock b" "nHeight b' = nHeight b"
    "CDiskBlockPos_IsNull (GetUndoPos b) \<or> GetUndoPos b' = GetUndoPos b"
proof -
  have m: "bit (x AND NOT BLOCK_VALID_MASK OR y) 4" if "bit x 4" for x y :: u32
    using that by (simp add: bit_simps BLOCK_VALID_MASK_def)
  show "phashBlock b' = phashBlock b" "nHeight b' = nHeight b"
    using assms by (auto simp: RaiseValidity_def split: if_splits)
  show "CDiskBlockPos_IsNull (GetUndoPos b) \<or> GetUndoPos b' = GetUndoPos b"
    using assms m [of "nStatus b"] unfolding RaiseValidity_def GetUndoPos_def undo_bit
    by (auto simp: CDiskBlockPos_IsNull_def CDiskBlockPos_SetNull_def split: if_splits)
qed

lemma write_undo_spec:
  assumes "write_undo env pindex pprev undo st = Inr (Inr (pindex', dirty))"
  shows "phashBlock pindex' = phashBlock pindex" "nHeight pindex' = nHeight pindex"
    "nFile pindex \<noteq> - 1 \<Longrightarrow> \<not> CDiskBlockPos_IsNull (GetUndoPos pindex')"
proof -
  obtain valid where v: "IsValid pindex BLOCK_VALID_SCRIPTS = Some valid" using assms by (auto simp: write_undo_def split: option.splits)
  have "phashBlock pindex' = phashBlock pindex \<and> nHeight pindex' = nHeight pindex
     \<and> (nFile pindex \<noteq> - 1 \<longrightarrow> \<not> CDiskBlockPos_IsNull (GetUndoPos pindex'))"
  proof (cases "CDiskBlockPos_IsNull (GetUndoPos pindex) \<or> \<not> valid")
    case False
    with assms v show ?thesis by (auto simp: write_undo_def)
  next
    case True
    then obtain p r where p: "RaiseValidity p BLOCK_VALID_SCRIPTS = Some (pindex', r)"
      "p = pindex \<and> \<not> CDiskBlockPos_IsNull (GetUndoPos pindex)
        \<or> (\<exists>pos. p = pindex\<lparr>nUndoPos := pos, nStatus := nStatus pindex OR BLOCK_HAVE_UNDO\<rparr>)"
      using assms v by (auto simp: write_undo_def bindE_check split: option.splits sum.splits list.splits if_splits)
    have "bit (nStatus pindex OR BLOCK_HAVE_UNDO) 4" by (simp add: bit_simps BLOCK_HAVE_UNDO_def)
    then have "phashBlock p = phashBlock pindex" "nHeight p = nHeight pindex"
      "nFile pindex \<noteq> - 1 \<Longrightarrow> \<not> CDiskBlockPos_IsNull (GetUndoPos p)"
      using p(2) unfolding GetUndoPos_def undo_bit by (auto simp: CDiskBlockPos_IsNull_def)
    with RaiseValidity_fields [OF p(1)] show ?thesis by auto
  qed
  then show "phashBlock pindex' = phashBlock pindex" "nHeight pindex' = nHeight pindex"
    "nFile pindex \<noteq> - 1 \<Longrightarrow> \<not> CDiskBlockPos_IsNull (GetUndoPos pindex')" by blast+
qed

lemma connect_finish_spec:
  assumes "connect_finish env block pindex pprev False cv = Inr (Inr con)" and "phashBlock pindex = Some hash"
  shows "con_view con = SetBestBlock (cv_view cv) hash \<and> con_blockundo con = cv_vtxundo cv
     \<and> phashBlock (con_pindex con) = Some hash \<and> nHeight (con_pindex con) = nHeight pindex
     \<and> (nFile pindex \<noteq> - 1 \<longrightarrow> \<not> CDiskBlockPos_IsNull (GetUndoPos (con_pindex con)))"
proof -
  obtain pindex1 pindex' dirty where w: "write_undo env pindex1 pprev (cv_vtxundo cv) (cv_state cv) = Inr (Inr (pindex', dirty))"
    and p1: "phashBlock pindex1 = Some hash" "nHeight pindex1 = nHeight pindex" "nFile pindex1 = nFile pindex"
    and c: "con = \<lparr>con_state = cv_state cv, con_view = SetBestBlock (cv_view cv) (the (GetBlockHash pindex')), con_pindex = pindex',
                        con_blockundo = cv_vtxundo cv, con_vPos = cv_vPos cv, con_dirty = dirty\<rparr>"
    using assms by (auto simp: connect_finish_def Let_def bindE_check split: list.splits if_splits option.splits)
  with write_undo_spec [OF w] show ?thesis by (simp add: GetBlockHash_def)
qed


context readable_view begin

lemma rep_bip30: "rep view u h \<Longrightarrow> bip30_loop ops view txs = (b, view') \<Longrightarrow> rep view' u h"
proof (induction txs arbitrary: view)
  case (Cons tx txs)
  obtain r view1 where a: "AccessCoins ops view (tx_hash tx) = (r, view1)" "rep view1 u h"
    using rep_AccessCoins [OF Cons.prems(1)] by blast
  with Cons show ?case by (auto split: if_splits)
qed simp

text \<open>What a successful \<^verbatim>\<open>ConnectBlock\<close> that is not a mere check has done.\<close>

lemma ConnectBlock_spec:
  assumes "ConnectBlock env ops block st pindex (p # pprev) view False fAlreadyChecked = Inr (Inr con)"
    and "rep view u h" and "env_GetHash env (block_header block) \<noteq> env_HashGenesisBlock env"
    and "phashBlock pindex = Some hash" and "hash \<noteq> uint256_of_u64 0"
  shows "\<exists>undos u'. GetBlockHash p = Some h \<and> utxo_updates u (vtx block) (nHeight pindex) = Some (undos, u')
     \<and> rep (con_view con) u' hash \<and> con_blockundo con = tl undos \<and> outputs_nonneg (vtx block) \<and> vtx block \<noteq> []
     \<and> phashBlock (con_pindex con) = Some hash \<and> nHeight (con_pindex con) = nHeight pindex
     \<and> (nFile pindex \<noteq> - 1 \<longrightarrow> \<not> CDiskBlockPos_IsNull (GetUndoPos (con_pindex con)))"
proof -
  obtain view1 where 1: "GetBestBlock ops view = (h, view1)" "rep view1 u h" using rep_GetBestBlock [OF assms(2)] by blast
  let ?fS = "GetTotalBlocksEstimate (env_fEnabled env) (env_checkpoints env) \<le> nHeight pindex"
  from assms 1 obtain st1 cv where c: "GetBlockHash p = Some h" "vtx block \<noteq> []"
    "connect_txs env ops pindex ?fS 0 (vtx block) (connect_init block st1 view1) = Inr (Inr cv)"
    "connect_finish env block pindex (p # pprev) False cv = Inr (Inr con)"
    by (auto simp: ConnectBlock_def bindE_check Let_def split: sum.splits option.splits if_splits)
  have "rep (cv_view (connect_init block st1 view1)) u h" using 1(2) by (simp add: connect_init_def)
  from connect_txs_spec [OF this c(3)] obtain undos u' where s: "utxo_updates u (vtx block) (nHeight pindex) = Some (undos, u')"
    "rep (cv_view cv) u' h" "cv_vtxundo cv = tl undos" "\<forall>tx \<in> set (vtx block). \<exists>v. GetValueOut tx = Inr v"
    by (auto simp: connect_init_def)
  have "outputs_nonneg (vtx block)" using s(4) value_out_nonneg unfolding outputs_nonneg_def GetValueOut_def by blast
  with connect_finish_spec [OF c(4) assms(4)] c(1,2) s rep_SetBestBlock [OF s(2) assms(5)] show ?thesis by auto
qed

lemma utxo_updates_length: "utxo_updates u txs n = Some (undos, u') \<Longrightarrow> length undos = length txs"
  by (induction txs arbitrary: u undos) (auto split: option.splits)

lemma all_undone: "length undos = length txs \<Longrightarrow>
    list_all2 (\<lambda>(tx, undo) txundo. IsCoinBase tx \<or> txundo = Some undo) (zip txs undos) (map Some undos)"
  by (induction undos txs rule: list_induct2) auto

lemma disconnect_connect:
  assumes "ConnectBlock env ops block st pindex (p # pprev) view False fAlreadyChecked = Inr (Inr con)"
    and "rep view u h" and "env_GetHash env (block_header block) \<noteq> env_HashGenesisBlock env"
    and "phashBlock pindex = Some hash" and "hash \<noteq> uint256_of_u64 0" and "h \<noteq> uint256_of_u64 0" and "nFile pindex \<noteq> - 1"
    and "wf_utxo u" and "0 < nHeight pindex" and "nHeight pindex < 2 ^ 31"
    and "IsCoinBase (hd (vtx block))" and "distinct (map tx_hash (vtx block))"
    and "\<forall>tx \<in> set (vtx block). u (tx_hash tx) = None" and "spends_outside (stake_ids (vtx block)) (vtx block)"
    and "readUndo (GetUndoPos (con_pindex con)) h = Some (con_blockundo con)"
  shows "\<exists>view'. DisconnectBlock ops block (con_pindex con) (p # pprev) readUndo (con_view con) = Inr (Some (True, view'))
     \<and> (\<exists>u'. rep view' u' h \<and> stake_lost (stake_ids (vtx block)) u' u)"
proof -
  obtain undos u' where c: "GetBlockHash p = Some h" "utxo_updates u (vtx block) (nHeight pindex) = Some (undos, u')"
    "rep (con_view con) u' hash" "con_blockundo con = tl undos" "outputs_nonneg (vtx block)" "vtx block \<noteq> []"
    "phashBlock (con_pindex con) = Some hash" "nHeight (con_pindex con) = nHeight pindex"
    "\<not> CDiskBlockPos_IsNull (GetUndoPos (con_pindex con))"
    using ConnectBlock_spec [OF assms(1-5)] assms(7) by blast
  let ?K = "stake_ids (vtx block)"
  obtain view1 where v1: "GetBestBlock ops (con_view con) = (hash, view1)" "rep view1 u' hash"
    using rep_GetBestBlock [OF c(3)] by blast
  have l: "length undos = length (vtx block)" using utxo_updates_length [OF c(2)] .
  have us: "list_all2 (\<lambda>(tx, undo) txundo. IsCoinBase tx \<or> txundo = Some undo) (zip (vtx block) undos) (None # map Some (tl undos))"
    using assms(11) c(6) l by (cases "vtx block"; cases undos) (auto intro: all_undone)
  obtain view2 v2 where d: "disconnect_txs ops (nHeight pindex) (rev (zip (vtx block) (None # map Some (tl undos)))) True view1
      = Inr (Some (True, view2))" "rep view2 v2 hash" "stake_lost ?K v2 u"
    using disconnect_txs_sim [OF c(2) assms(8) v1(2) stake_lost_refl us assms(12,13) subset_refl assms(14) c(5) assms(9,10), of True]
    by blast
  have "length (tl undos) + 1 = length (vtx block)" using l c(6) by (cases "vtx block"; cases undos) auto
  then have "DisconnectBlock ops block (con_pindex con) (p # pprev) readUndo (con_view con) = Inr (Some (True, SetBestBlock view2 h))"
    using c v1(1) d(1) assms(15) by (simp add: DisconnectBlock_def GetBlockHash_def)
  with rep_SetBestBlock [OF d(2) assms(6)] d(3) show ?thesis by blast
qed

end

section \<open>A concrete block\<close>

definition ex_prev :: CBlockIndex where
  "ex_prev = (ex_block 99)\<lparr>phashBlock := Some (uint256_of_u64 5)\<rparr>"

definition ex_new :: CBlockIndex where
  "ex_new = (ex_block 100)\<lparr>phashBlock := Some (uint256_of_u64 6)\<rparr>"

text \<open>A database holding one coinbase of the previous block, and the views over it.\<close>

definition ex_reward :: CCoins where
  "ex_reward = \<lparr>fCoinBase = True, fCoinStake = False, coins_vout = [\<lparr>nValue = 50, scriptPubKey = []\<rparr>],
     coins_nHeight = 99, coins_nVersion = 1\<rparr>"

definition ex_db :: CCoinsViewDB where
  "ex_db = \<lparr>db_coins = [(uint256_of_u64 1, ex_reward)], db_best = Some (uint256_of_u64 5)\<rparr>"

definition ex_view :: work_cache where "ex_view = new_cache (new_cache ex_db)"

definition ex_env :: connect_env where
  "ex_env = \<lparr>env_params = CMainParams, env_fEnabled = True, env_checkpoints = mapCheckpoints,
     env_mapBlockIndex = (\<lambda>h. if h = uint256_of_u64 5 then Some ex_prev else None), env_vChain = [ex_prev],
     env_nScriptCheckThreads = 0, env_fTxIndex = False, env_VerifyScript = (\<lambda>_ _ _ _ _. Some ''invalid''),
     env_GetHash = (\<lambda>_. uint256_of_u64 6), env_HashGenesisBlock = uint256_of_u64 0,
     env_CheckBlock = (\<lambda>_ st _ _. Inr (Inr st)), env_IsSynced = True, env_superblocks = False,
     env_IsBudgetPaymentBlock = (\<lambda>_. False), env_FindUndoPos = (\<lambda>_ _ _. Inr 7),
     env_WriteUndo = (\<lambda>_ _. True), env_WriteTxIndex = (\<lambda>_. True)\<rparr>"

definition ex_spend :: CTransaction where
  "ex_spend = \<lparr>tx_hash = uint256_of_u64 3, tx_nVersion = 1,
     vin = [\<lparr>prevout = \<lparr>op_hash = uint256_of_u64 1, op_n = 0\<rparr>, scriptSig = [], nSequence = 0\<rparr>],
     vout = [\<lparr>nValue = 40, scriptPubKey = []\<rparr>], nLockTime = 0\<rparr>"

definition ex_mint :: CTransaction where
  "ex_mint = \<lparr>tx_hash = uint256_of_u64 2, tx_nVersion = 1,
     vin = [\<lparr>prevout = COutPoint_SetNull, scriptSig = [], nSequence = 0\<rparr>],
     vout = [\<lparr>nValue = 100, scriptPubKey = []\<rparr>], nLockTime = 0\<rparr>"

definition ex_pow_block :: CBlock where
  "ex_pow_block = \<lparr>block_header = \<lparr>hdr_nVersion = 4, hashPrevBlock = uint256_of_u64 5, hashMerkleRoot = uint256_of_u64 0,
     hdr_nTime = 0, hdr_nBits = 0, nNonce = 0\<rparr>, vtx = [ex_mint, ex_spend], vchBlockSig = []\<rparr>"

definition ex_connect :: "fault + (CValidationState + tip_cache connected)" where
  "ex_connect = ConnectBlock ex_env tip_ops ex_pow_block state_valid ex_new [ex_prev] ex_view False True"


declare uint256_of_u64_inj [simp]

lemma CMainParams_fields:
  "NetworkID CMainParams = MAIN" "LAST_POW_BLOCK CMainParams = 200" "COINBASE_MATURITY CMainParams = 21"
  by (simp_all add: CMainParams_def)

lemmas view_access_defs = AccessCoins_def FetchCoins_def cache_GetCoins_def cache_view_def db_view_def db_GetCoins_def
  GetBestBlock_def db_GetBestBlock_def

lemma ex_get: "GetBestBlock tip_ops ex_view = (uint256_of_u64 5, ex_view\<lparr>view_base := (new_cache ex_db)\<lparr>hashBlock := uint256_of_u64 5\<rparr>, hashBlock := uint256_of_u64 5\<rparr>)"
  by (simp add: view_access_defs ex_view_def new_cache_def ex_db_def)

definition ex_view1 :: work_cache where "ex_view1 = ex_view\<lparr>view_base := (new_cache ex_db)\<lparr>hashBlock := uint256_of_u64 5\<rparr>, hashBlock := uint256_of_u64 5\<rparr>"

lemma ex_cb: "IsCoinBase ex_mint" "\<not> IsCoinBase ex_spend" "\<not> IsCoinStake ex_spend" "\<not> IsCoinStake ex_mint"
   by (simp_all add: IsCoinBase_def IsCoinStake_def ex_mint_def ex_spend_def COutPoint_IsNull_def COutPoint_SetNull_def IsNull_def uint256_of_u64_def base_uint_of_u64_def list_all_iff)

lemma ex_sig: "GetLegacySigOpCount ex_mint = 0" "GetLegacySigOpCount ex_spend = 0"
   by (simp_all add: GetLegacySigOpCount_def GetSigOpCount_def sigop_loop.simps ex_mint_def ex_spend_def)
lemma ex_out: "GetValueOut ex_mint = Inr 100" "GetValueOut ex_spend = Inr 40"
   by (simp_all add: GetValueOut_def ex_mint_def ex_spend_def add64_def wrap64_def)
lemma ex_from: "FromTx ex_mint h = \<lparr>fCoinBase = True, fCoinStake = False, coins_vout = [\<lparr>nValue = 100, scriptPubKey = []\<rparr>], coins_nHeight = h, coins_nVersion = 1\<rparr>"
 "FromTx ex_spend h = \<lparr>fCoinBase = False, fCoinStake = False, coins_vout = [\<lparr>nValue = 40, scriptPubKey = []\<rparr>], coins_nHeight = h, coins_nVersion = 1\<rparr>"
 using ex_cb  by (simp_all add: FromTx_def ClearUnspendable_def IsUnspendable_def Cleanup_def CTxOut_IsNull_def ex_mint_def ex_spend_def)
lemma flag_values:  "FRESH OR DIRTY = 3" "(3::u8) AND FRESH = 2" "DIRTY AND FRESH = 0" by (simp_all add: FRESH_def DIRTY_def)
lemma ex_ids: "tx_hash ex_mint = uint256_of_u64 2" "tx_hash ex_spend = uint256_of_u64 3" by (simp_all add: ex_mint_def ex_spend_def)

lemmas ex_defs = with_coins_def ModifyCoins_def view_access_defs release_modifier_def flag_values ex_from Cleanup_def CTxOut_IsNull_def IsPruned_def ex_ids ex_cb
  ex_view_def new_cache_def ex_db_def

definition ex_view2 :: work_cache where
  "ex_view2 = ex_view1\<lparr>cacheCoins := [(uint256_of_u64 2, \<lparr>entry_coins = FromTx ex_mint 100, entry_flags = 3\<rparr>)]\<rparr>"

lemma add64_small: "add64 0 100 = 100" "add64 0 50 = 50" "add64 100 40 = 140" "wrap64 (50 - 40) = 10" "wrap64 10 = 10" "add64 0 10 = 10" by (simp_all add: add64_def wrap64_def)
lemma ex_heights: "nHeight ex_new = 100" "nHeight ex_prev = 99" "phashBlock ex_new = Some (uint256_of_u64 6)"
  by (simp_all add: ex_new_def ex_prev_def ex_block_def)
lemma ex_step1: "\<exists>cv. connect_tx ex_env tip_ops ex_new False 0 ex_mint (connect_init ex_pow_block state_valid ex_view1) = Inr (Inr cv)
   \<and> cv_view cv = ex_view2 \<and> cv_state cv = state_valid \<and> cv_nSigOps cv = 0 \<and> cv_nFees cv = 0 \<and> cv_nValueOut cv = 100 \<and> cv_nValueIn cv = 0
   \<and> cv_queue cv = []"
   by (simp add: connect_tx_def ex_sig ex_out UpdateCoins_def ex_view1_def ex_view2_def ex_defs connect_init_def Let_def ex_heights add64_small)

lemma ex_env_fields: "env_params ex_env = CMainParams" "env_fEnabled ex_env" "env_checkpoints ex_env = mapCheckpoints"
  "env_mapBlockIndex ex_env (uint256_of_u64 5) = Some ex_prev" "env_vChain ex_env = [ex_prev]" "env_nScriptCheckThreads ex_env = 0"
  by (simp_all add: ex_env_def)

lemma ex_checkpoint: "Checkpoints_CheckBlock True mapCheckpoints 100 h False"
  by (simp add: Checkpoints_CheckBlock_def mapCheckpoints_def)

lemma ex_p2sh: "\<not> IsPayToScriptHash []" by (simp add: IsPayToScriptHash_def)
lemma ex_spend_vin: "vin ex_spend =  [\<lparr>prevout = \<lparr>op_hash = uint256_of_u64 1, op_n = 0\<rparr>, scriptSig = [], nSequence = 0\<rparr>]" by (simp add: ex_spend_def)

lemma ex_step2:
  assumes "cv_view cv = ex_view2" "cv_state cv = state_valid" "cv_nSigOps cv = 0" "cv_nFees cv = 0" "cv_nValueOut cv = 100" "cv_nValueIn cv = 0"
     "cv_queue cv = []"
  shows "\<exists>cv'. connect_tx ex_env tip_ops ex_new False 1 ex_spend cv = Inr (Inr cv') \<and> cv_queue cv' = [] \<and> cv_nFees cv' = 10
     \<and> cv_nValueOut cv' = 140 \<and> cv_nValueIn cv' = 50
     \<and> cv_state cv' = state_Invalid state_valid REJECT_INVALID ''bad-txns-premature-spend-of-coinbase''"
  using assms
  by (simp add: connect_tx_def connect_inputs_def HaveInputs_def GetP2SHSigOpCount_def GetValueIn_def CheckInputs_def GetOutputFor_def
     ex_sig ex_out UpdateCoins_def spend_input_def Spend_def ex_view1_def ex_view2_def ex_defs Let_def ex_heights add64_small ex_env_fields
     CMainParams_fields IsAvailable_def ex_p2sh ex_spend_vin ex_reward_def ex_checkpoint CTxOut_SetNull_def MAX_BLOCK_SIGOPS_def MAX_BLOCK_SIZE_def)


lemma ex_value: "IsBlockValueValid ex_env ex_pow_block (add64 (GetBlockValue CMainParams 99) 10) 100"
  by (simp add: IsBlockValueValid_def ex_env_def ex_prev_def ex_pow_block_def GetBlockValue_def CMainParams_fields COIN_def add64_def wrap64_def)

lemma ex_pow: "CBlock_IsProofOfWork ex_pow_block" "\<not> CBlock_IsProofOfStake ex_pow_block"
  using ex_cb by (simp_all add: CBlock_IsProofOfWork_def CBlock_IsProofOfStake_def ex_pow_block_def)

lemma ex_supply: "wrap64 (add64 0 140 - 50) = 90" "add64 (wrap64 90) 10 = 100"
  by (simp_all add: add64_def wrap64_def)

lemma ex_write_undo: "\<exists>p. write_undo ex_env (ex_new\<lparr>nMoneySupply := a, nMint := b\<rparr>) [ex_prev] undo st = Inr (Inr (p, True)) \<and> phashBlock p = Some (uint256_of_u64 6)"
  by (simp add: write_undo_def IsValid_def RaiseValidity_def BLOCK_VALID_SCRIPTS_def BLOCK_VALID_MASK_def BLOCK_FAILED_MASK_def
     CDiskBlockPos_IsNull_def CDiskBlockPos_SetNull_def GetUndoPos_def BLOCK_HAVE_UNDO_def ex_new_def ex_block_def ex_env_def GetBlockHash_def ex_prev_def)

lemma ex_finish:
  assumes "cv_queue cv = []" "cv_nFees cv = 10" "cv_nValueOut cv = 140" "cv_nValueIn cv = 50"
  shows "\<exists>con. connect_finish ex_env ex_pow_block ex_new [ex_prev] False cv = Inr (Inr con) \<and> con_state con = cv_state cv"
proof -
  obtain p where w: "write_undo ex_env (ex_new\<lparr>nMoneySupply := 90, nMint := 100\<rparr>) [ex_prev] (cv_vtxundo cv) (cv_state cv) = Inr (Inr (p, True))"
     "phashBlock p = Some (uint256_of_u64 6)" using ex_write_undo by blast
  have "nMoneySupply ex_prev = 0" "env_fTxIndex ex_env = False" by (simp_all add: ex_prev_def ex_block_def ex_env_def)
  with assms w show ?thesis
    using ex_value by (simp add: connect_finish_def Let_def ex_supply ex_env_fields ex_pow ex_heights GetBlockHash_def)
qed

lemma ex_connects:
  "\<exists>con. ex_connect = Inr (Inr con) \<and> con_state con = state_Invalid state_valid REJECT_INVALID ''bad-txns-premature-spend-of-coinbase''"
proof -
  obtain cv1 where 1: "connect_tx ex_env tip_ops ex_new False 0 ex_mint (connect_init ex_pow_block state_valid ex_view1) = Inr (Inr cv1)"
    "cv_view cv1 = ex_view2" "cv_state cv1 = state_valid" "cv_nSigOps cv1 = 0" "cv_nFees cv1 = 0" "cv_nValueOut cv1 = 100"
    "cv_nValueIn cv1 = 0" "cv_queue cv1 = []" using ex_step1 by blast
  obtain cv2 where 2: "connect_tx ex_env tip_ops ex_new False 1 ex_spend cv1 = Inr (Inr cv2)" "cv_queue cv2 = []" "cv_nFees cv2 = 10"
    "cv_nValueOut cv2 = 140" "cv_nValueIn cv2 = 50"
    "cv_state cv2 = state_Invalid state_valid REJECT_INVALID ''bad-txns-premature-spend-of-coinbase''"
    using ex_step2 [OF 1(2-8)] by blast
  obtain con where 3: "connect_finish ex_env ex_pow_block ex_new [ex_prev] False cv2 = Inr (Inr con)" "con_state con = cv_state cv2"
    using ex_finish [OF 2(2-5)] by blast
  have 4: "GetTotalBlocksEstimate True mapCheckpoints = 1007480" by (simp add: GetTotalBlocksEstimate_def mapCheckpoints_def)
  have 5: "connect_txs ex_env tip_ops ex_new False 0 (vtx ex_pow_block) (connect_init ex_pow_block state_valid ex_view1) = Inr (Inr cv2)"
    using 1(1) 2(1) by (simp add: ex_pow_block_def)
  have "vtx ex_pow_block \<noteq> []" "env_GetHash ex_env (block_header ex_pow_block) \<noteq> env_HashGenesisBlock ex_env"
    "GetBlockHash ex_prev = Some (uint256_of_u64 5)"
    by (simp_all add: ex_pow_block_def ex_env_def GetBlockHash_def ex_prev_def)
  then show ?thesis using 3 2(6) 5
    by (simp add: ex_connect_def ConnectBlock_def ex_get [folded ex_view1_def] ex_heights ex_env_fields CMainParams_fields ex_pow 4)
qed

section \<open>Theorems\<close>


lemma ex_utxo: "work_utxo ex_view = [uint256_of_u64 1 \<mapsto> ex_reward]" "work_inv ex_view" "work_best ex_view = uint256_of_u64 5"
proof -
  have r: "\<not> IsPruned ex_reward" by (simp add: ex_reward_def IsPruned_def CTxOut_IsNull_def)
  then have "db_inv ex_db" by (simp add: db_inv_def ex_db_def clean_alist_def unpruned_opt_def unpruned_def)
  then have "tip_inv (new_cache ex_db)" "tip_utxo (new_cache ex_db) = db_utxo ex_db" "tip_best (new_cache ex_db) = db_best_block ex_db"
    using db.new_cache_inv by blast+
  with tip.new_cache_inv have "work_inv ex_view" "work_utxo ex_view = db_utxo ex_db" "work_best ex_view = db_best_block ex_db"
    unfolding ex_view_def by metis+
  then show "work_utxo ex_view = [uint256_of_u64 1 \<mapsto> ex_reward]" "work_inv ex_view" "work_best ex_view = uint256_of_u64 5"
    by (auto simp: db_utxo_def ex_db_def db_best_block_def)
qed


text \<open>
  Restoring the last output of a transaction loses its coinstake mark: the undo record keeps
  \<^verbatim>\<open>fCoinStake\<close>, but \<^verbatim>\<open>DisconnectBlock\<close> does not copy it back.
\<close>

theorem restore_drops_coinstake:
  assumes "wf_unspent c" and "Spend c n = Some (c', undo)" and "IsPruned c'"
  shows "undo_fCoinStake undo = fCoinStake c \<and> restore_coins n undo c' = (True, c\<lparr>fCoinStake := False\<rparr>)"
proof
  have "coins_vout c' = []" using assms(2,3) Spend_cleaned IsPruned_cleaned by blast
  then show "undo_fCoinStake undo = fCoinStake c"
    using assms(2) by (auto simp: Spend_def Let_def split: if_splits)
  show "restore_coins n undo c' = (True, c\<lparr>fCoinStake := False\<rparr>)"
    using restore_Spend(1) [OF assms(1,2,3,3)] by (simp add: forget_stake_def)
qed

theorem restore_drops_coinstake_witness:
  "\<exists>c' undo. Spend (ex_reward\<lparr>fCoinStake := True\<rparr>) 0 = Some (c', undo) \<and> restore_coins 0 undo c' = (True, ex_reward)"
proof -
  let ?c = "ex_reward\<lparr>fCoinStake := True\<rparr>"
  obtain c' undo where s: "Spend ?c 0 = Some (c', undo)" "IsPruned c'"
    by (simp add: ex_reward_def Spend_def Let_def Cleanup_def CTxOut_IsNull_def CTxOut_SetNull_def IsPruned_def)
  have "wf_unspent ?c" by (simp add: wf_unspent_def ex_reward_def cleaned_def CTxOut_IsNull_def)
  from restore_drops_coinstake [OF this s] s(1) show ?thesis by (simp add: ex_reward_def)
qed


end
