(* ===== verification/Merkle.thy ===== *)
theory Merkle
  imports Transaction
begin

text \<open>
  Merkle trees of blocks (\<^verbatim>\<open>src/primitives/block.cpp\<close>) and partial trees for filtered
  blocks (\<^verbatim>\<open>src/merkleblock.cpp\<close>). The double SHA-256 of two concatenated hashes is the
  parameter \<open>H\<close>. Sizes and indices are naturals: a block has far fewer than \<open>2^31\<close>
  transactions.
\<close>

section \<open>Trees of blocks\<close>

type_synonym hash2 = "base_uint \<Rightarrow> base_uint \<Rightarrow> base_uint"

text \<open>\<^verbatim>\<open>vMerkleTree\<close> with the offset \<open>j\<close> of the current level of \<open>nSize\<close> nodes.\<close>

function build_level :: "hash2 \<Rightarrow> nat \<Rightarrow> nat \<Rightarrow> nat \<Rightarrow> base_uint list \<Rightarrow> bool \<Rightarrow> base_uint list \<times> bool" where
  "build_level H j nSize i tree mutated =
     (if i < nSize
      then let i2 = min (i + 1) (nSize - 1);
               mutated = (mutated \<or> (i2 = i + 1 \<and> i2 + 1 = nSize \<and> tree ! (j + i) = tree ! (j + i2)))
           in build_level H j nSize (i + 2) (tree @ [H (tree ! (j + i)) (tree ! (j + i2))]) mutated
      else (tree, mutated))"
  by pat_completeness auto
termination by (relation "measure (\<lambda>(H, j, nSize, i, tree, mutated). nSize - i)") auto

function build_levels :: "hash2 \<Rightarrow> nat \<Rightarrow> nat \<Rightarrow> base_uint list \<Rightarrow> bool \<Rightarrow> base_uint list \<times> bool" where
  "build_levels H j nSize tree mutated =
     (if 1 < nSize
      then case build_level H j nSize 0 tree mutated of (tree, mutated) \<Rightarrow>
             build_levels H (j + nSize) ((nSize + 1) div 2) tree mutated
      else (tree, mutated))"
  by pat_completeness auto
termination by (relation "measure (\<lambda>(H, j, nSize, tree, mutated). nSize)") auto

declare build_level.simps [simp del] build_levels.simps [simp del]

text \<open>The tree, the root and the flag \<^verbatim>\<open>fMutated\<close>.\<close>

definition BuildMerkleTree :: "hash2 \<Rightarrow> base_uint list \<Rightarrow> base_uint list \<times> base_uint \<times> bool" where
  "BuildMerkleTree H txids =
     (case build_levels H 0 (length txids) txids False of (vMerkleTree, mutated) \<Rightarrow>
        (vMerkleTree, if vMerkleTree = [] then uint256_of_u64 0 else last vMerkleTree, mutated))"

function branch_loop :: "base_uint list \<Rightarrow> nat \<Rightarrow> nat \<Rightarrow> nat \<Rightarrow> base_uint list" where
  "branch_loop tree j nSize nIndex =
     (if 1 < nSize
      then tree ! (j + min (nIndex XOR 1) (nSize - 1))
           # branch_loop tree (j + nSize) ((nSize + 1) div 2) (nIndex div 2)
      else [])"
  by pat_completeness auto
termination by (relation "measure (\<lambda>(tree, j, nSize, nIndex). nSize)") auto

declare branch_loop.simps [simp del]

definition GetMerkleBranch :: "hash2 \<Rightarrow> base_uint list \<Rightarrow> base_uint list \<Rightarrow> nat \<Rightarrow> base_uint list" where
  "GetMerkleBranch H txids vMerkleTree nIndex =
     (let tree = (if vMerkleTree = [] then fst (BuildMerkleTree H txids) else vMerkleTree)
      in branch_loop tree 0 (length txids) nIndex)"

fun fold_branch :: "hash2 \<Rightarrow> base_uint \<Rightarrow> base_uint list \<Rightarrow> int \<Rightarrow> base_uint" where
  "fold_branch H hash [] nIndex = hash"
| "fold_branch H hash (it # vMerkleBranch) nIndex =
     fold_branch H (if nIndex AND 1 \<noteq> 0 then H it hash else H hash it) vMerkleBranch (nIndex div 2)"

definition CheckMerkleBranch :: "hash2 \<Rightarrow> base_uint \<Rightarrow> base_uint list \<Rightarrow> int \<Rightarrow> base_uint" where
  "CheckMerkleBranch H hash vMerkleBranch nIndex =
     (if nIndex = - 1 then uint256_of_u64 0 else fold_branch H hash vMerkleBranch nIndex)"

section \<open>Partial trees\<close>

record CPartialMerkleTree =
  nTransactions :: nat
  vBits :: "bool list"
  vHash :: "base_uint list"
  fBad :: bool

definition CalcTreeWidth :: "nat \<Rightarrow> nat \<Rightarrow> nat" where
  "CalcTreeWidth n height = (n + 2 ^ height - 1) div 2 ^ height"

fun CalcHash :: "hash2 \<Rightarrow> base_uint list \<Rightarrow> nat \<Rightarrow> nat \<Rightarrow> base_uint" where
  "CalcHash H vTxid 0 pos = vTxid ! pos"
| "CalcHash H vTxid (Suc height) pos =
     (let left = CalcHash H vTxid height (pos * 2);
          right = (if pos * 2 + 1 < CalcTreeWidth (length vTxid) height then CalcHash H vTxid height (pos * 2 + 1) else left)
      in H left right)"

definition parent_of_match :: "bool list \<Rightarrow> nat \<Rightarrow> nat \<Rightarrow> nat \<Rightarrow> bool" where
  "parent_of_match vMatch n height pos = list_ex (\<lambda>p. vMatch ! p) [pos * 2 ^ height ..< min ((pos + 1) * 2 ^ height) n]"

fun TraverseAndBuild :: "hash2 \<Rightarrow> base_uint list \<Rightarrow> bool list \<Rightarrow> nat \<Rightarrow> nat \<Rightarrow> CPartialMerkleTree \<Rightarrow> CPartialMerkleTree" where
  "TraverseAndBuild H vTxid vMatch 0 pos t =
     t\<lparr>vBits := vBits t @ [parent_of_match vMatch (nTransactions t) 0 pos],
       vHash := vHash t @ [CalcHash H vTxid 0 pos]\<rparr>"
| "TraverseAndBuild H vTxid vMatch (Suc height) pos t =
     (let fParentOfMatch = parent_of_match vMatch (nTransactions t) (Suc height) pos;
          t = t\<lparr>vBits := vBits t @ [fParentOfMatch]\<rparr>
      in if \<not> fParentOfMatch then t\<lparr>vHash := vHash t @ [CalcHash H vTxid (Suc height) pos]\<rparr>
         else let t = TraverseAndBuild H vTxid vMatch height (pos * 2) t
              in if pos * 2 + 1 < CalcTreeWidth (nTransactions t) height
                 then TraverseAndBuild H vTxid vMatch height (pos * 2 + 1) t else t)"

text \<open>The loop that computes the height of the tree.\<close>

lemma CalcTreeWidth_Suc: "CalcTreeWidth n (Suc h) = (CalcTreeWidth n h + 1) div 2"
proof -
  have "(n + 2 * 2 ^ h - 1) div (2 ^ h * 2) = ((n + 2 * 2 ^ h - 1) div 2 ^ h) div 2"
    by (rule div_mult2_eq)
  moreover have "(n + 2 * 2 ^ h - 1) = (n + 2 ^ h - 1) + 1 * 2 ^ h" by simp
  then have "(n + 2 * 2 ^ h - 1) div 2 ^ h = (n + 2 ^ h - 1) div 2 ^ h + 1"
    by (metis div_mult_self1 add.commute power_not_zero zero_neq_numeral)
  ultimately show ?thesis by (simp add: CalcTreeWidth_def mult.commute)
qed

function height_loop :: "nat \<Rightarrow> nat \<Rightarrow> nat" where
  "height_loop n h = (if 1 < CalcTreeWidth n h then height_loop n (h + 1) else h)"
  by pat_completeness auto
termination by (relation "measure (\<lambda>(n, h). CalcTreeWidth n h)") (auto simp: CalcTreeWidth_Suc)

declare height_loop.simps [simp del]

definition CPartialMerkleTree_build :: "hash2 \<Rightarrow> base_uint list \<Rightarrow> bool list \<Rightarrow> CPartialMerkleTree" where
  "CPartialMerkleTree_build H vTxid vMatch =
     TraverseAndBuild H vTxid vMatch (height_loop (length vTxid) 0) 0
       \<lparr>nTransactions = length vTxid, vBits = [], vHash = [], fBad = False\<rparr>"

text \<open>The variables the extraction updates.\<close>

record extract_state =
  nBitsUsed :: nat
  nHashUsed :: nat
  xMatch :: "base_uint list"
  xBad :: bool

definition take_hash :: "CPartialMerkleTree \<Rightarrow> bool \<Rightarrow> extract_state \<Rightarrow> base_uint \<times> extract_state" where
  "take_hash t fMatchedLeaf s =
     (if length (vHash t) \<le> nHashUsed s then (uint256_of_u64 0, s\<lparr>xBad := True\<rparr>)
      else let hash = vHash t ! nHashUsed s;
               s = s\<lparr>nHashUsed := nHashUsed s + 1\<rparr>
           in (hash, if fMatchedLeaf then s\<lparr>xMatch := xMatch s @ [hash]\<rparr> else s))"

fun TraverseAndExtract :: "hash2 \<Rightarrow> CPartialMerkleTree \<Rightarrow> nat \<Rightarrow> nat \<Rightarrow> extract_state \<Rightarrow> base_uint \<times> extract_state" where
  "TraverseAndExtract H t 0 pos s =
     (if length (vBits t) \<le> nBitsUsed s then (uint256_of_u64 0, s\<lparr>xBad := True\<rparr>)
      else take_hash t (vBits t ! nBitsUsed s) (s\<lparr>nBitsUsed := nBitsUsed s + 1\<rparr>))"
| "TraverseAndExtract H t (Suc height) pos s =
     (if length (vBits t) \<le> nBitsUsed s then (uint256_of_u64 0, s\<lparr>xBad := True\<rparr>)
      else if \<not> vBits t ! nBitsUsed s then take_hash t False (s\<lparr>nBitsUsed := nBitsUsed s + 1\<rparr>)
      else case TraverseAndExtract H t height (pos * 2) (s\<lparr>nBitsUsed := nBitsUsed s + 1\<rparr>) of (left, s) \<Rightarrow>
           if pos * 2 + 1 < CalcTreeWidth (nTransactions t) height
           then case TraverseAndExtract H t height (pos * 2 + 1) s of (right, s) \<Rightarrow> (H left right, s)
           else (H left left, s))"

definition ExtractMatches :: "hash2 \<Rightarrow> CPartialMerkleTree \<Rightarrow> base_uint \<times> base_uint list" where
  "ExtractMatches H t =
     (if nTransactions t = 0 then (uint256_of_u64 0, [])
      else if MAX_BLOCK_SIZE div 60 < nTransactions t then (uint256_of_u64 0, [])
      else if nTransactions t < length (vHash t) then (uint256_of_u64 0, [])
      else if length (vBits t) < length (vHash t) then (uint256_of_u64 0, [])
      else case TraverseAndExtract H t (height_loop (nTransactions t) 0) 0
                  \<lparr>nBitsUsed = 0, nHashUsed = 0, xMatch = [], xBad = fBad t\<rparr> of (root, s) \<Rightarrow>
           if xBad s then (uint256_of_u64 0, xMatch s)
           else if (nBitsUsed s + 7) div 8 \<noteq> (length (vBits t) + 7) div 8 then (uint256_of_u64 0, xMatch s)
           else if nHashUsed s \<noteq> length (vHash t) then (uint256_of_u64 0, xMatch s)
           else (root, xMatch s))"

section \<open>Levels\<close>

text \<open>The reference: the next level pairs up the hashes, the last one with itself when it is alone.\<close>

fun pair_up :: "hash2 \<Rightarrow> base_uint list \<Rightarrow> base_uint list" where
  "pair_up H [] = []"
| "pair_up H [a] = [H a a]"
| "pair_up H (a # b # xs) = H a b # pair_up H xs"

lemma length_pair_up [simp]: "length (pair_up H xs) = (length xs + 1) div 2"
  by (induction H xs rule: pair_up.induct) auto

function merkle_levels :: "hash2 \<Rightarrow> base_uint list \<Rightarrow> base_uint list list" where
  "merkle_levels H xs = (if length xs \<le> 1 then [xs] else xs # merkle_levels H (pair_up H xs))"
  by pat_completeness auto
termination by (relation "measure (\<lambda>(H, xs). length xs)") auto

declare merkle_levels.simps [simp del]

text \<open>A level of even length whose last two hashes are equal.\<close>

definition twin_end :: "base_uint list \<Rightarrow> bool" where
  "twin_end xs \<longleftrightarrow> 2 \<le> length xs \<and> even (length xs) \<and> xs ! (length xs - 2) = xs ! (length xs - 1)"

lemma pair_up_nth:
  "i < (length xs + 1) div 2 \<Longrightarrow> pair_up H xs ! i = H (xs ! (2 * i)) (xs ! min (2 * i + 1) (length xs - 1))"
proof (induction H xs arbitrary: i rule: pair_up.induct)
  case (3 H a b xs)
  show ?case
  proof (cases i)
    case (Suc k)
    with 3(2) have "k < (length xs + 1) div 2" by simp
    moreover from this have "xs \<noteq> []" by auto
    ultimately show ?thesis using 3(1) [of k] Suc
      by (cases "2 * k + 1 \<le> length xs - 1") (auto simp: min_def nth_Cons split: nat.split)
  qed simp
qed simp_all


text \<open>The inner loop appends the next level, the outer loop the levels above.\<close>

lemma build_level_spec:
  assumes "length tree \<ge> j + n" and "take n (drop j tree) = xs" and "even i" and "i \<le> n + 1" and "n = length xs"
  shows "build_level H j n i tree m =
    (tree @ drop (i div 2) (pair_up H xs), m \<or> (i < n \<and> twin_end xs))"
  using assms
proof (induction H j n i tree m rule: build_level.induct)
  case (1 H j n i tree m)
  have nth: "tree ! (j + k) = xs ! k" if "k < n" for k
  proof -
    have "xs ! k = drop j tree ! k" using "1.prems"(2) that by (metis nth_take)
    also have "\<dots> = tree ! (j + k)" using "1.prems"(1) by (simp add: nth_drop)
    finally show ?thesis ..
  qed
  show ?case
  proof (cases "i < n")
    case False
    then have "(n + 1) div 2 \<le> i div 2" using "1.prems"(3) by presburger
    then show ?thesis using False "1.prems"(5) by (subst build_level.simps) simp
  next
    case True
    let ?i2 = "min (i + 1) (n - 1)"
    let ?tree = "tree @ [H (tree ! (j + i)) (tree ! (j + ?i2))]"
    let ?m = "m \<or> (?i2 = i + 1 \<and> ?i2 + 1 = n \<and> tree ! (j + i) = tree ! (j + ?i2))"
    have i2: "?i2 < n" using True by simp
    have lt: "i div 2 < (n + 1) div 2" using True by presburger
    have hd: "H (tree ! (j + i)) (tree ! (j + ?i2)) = pair_up H xs ! (i div 2)"
      using pair_up_nth [of "i div 2" xs H] lt "1.prems"(3,5) nth [OF True] nth [OF i2] by simp
    have tw: "?i2 = i + 1 \<and> ?i2 + 1 = n \<and> tree ! (j + i) = tree ! (j + ?i2) \<longleftrightarrow> i + 2 = n \<and> twin_end xs"
    proof (cases "i + 2 = n")
      case e: True
      have "even (length xs)" using e "1.prems"(3,5) by presburger
      moreover have "?i2 = i + 1" "length xs - 2 = i" "length xs - 1 = i + 1" "2 \<le> length xs"
        using e "1.prems"(3,5) by auto
      ultimately show ?thesis using nth [OF True] nth [OF i2] e by (simp add: twin_end_def)
    qed auto
    have "take n (drop j ?tree) = xs" "length ?tree \<ge> j + n" using "1.prems"(1,2) by auto
    from "1.IH" [OF True refl refl this(2,1) _ _ "1.prems"(5)] True "1.prems"(3)
    have ih: "build_level H j n (i + 2) ?tree ?m = (?tree @ drop ((i + 2) div 2) (pair_up H xs), ?m \<or> (i + 2 < n \<and> twin_end xs))"
      by simp
    have "pair_up H xs ! (i div 2) # drop ((i + 2) div 2) (pair_up H xs) = drop (i div 2) (pair_up H xs)"
      using lt "1.prems"(5) by (simp add: Cons_nth_drop_Suc)
    moreover have "?m \<or> (i + 2 < n \<and> twin_end xs) \<longleftrightarrow> m \<or> (i < n \<and> twin_end xs)"
      using True "1.prems"(3,5) unfolding tw by (auto simp: twin_end_def) presburger+
    ultimately show ?thesis using True ih hd by (subst build_level.simps) (simp add: Let_def)
  qed
qed

lemma build_levels_spec:
  assumes "length tree = j + n" and "drop j tree = xs"
  shows "build_levels H j n tree m =
    (tree @ concat (tl (merkle_levels H xs)), m \<or> list_ex twin_end (merkle_levels H xs))"
  using assms
proof (induction H j n tree m arbitrary: xs rule: build_levels.induct)
  case (1 H j n tree m)
  have n: "n = length xs" using "1.prems" by auto
  show ?case
  proof (cases "1 < n")
    case False
    then show ?thesis using n by (subst build_levels.simps, subst (1 2) merkle_levels.simps) (auto simp: twin_end_def)
  next
    case True
    have l: "build_level H j n 0 tree m = (tree @ pair_up H xs, m \<or> twin_end xs)"
      using build_level_spec [of j n tree xs 0 H m] "1.prems" n True by (auto simp: twin_end_def)
    have "build_levels H (j + n) ((n + 1) div 2) (tree @ pair_up H xs) (m \<or> twin_end xs)
        = ((tree @ pair_up H xs) @ concat (tl (merkle_levels H (pair_up H xs))), (m \<or> twin_end xs) \<or> list_ex twin_end (merkle_levels H (pair_up H xs)))"
      using "1.prems" n True by (intro "1.IH" [OF True l [symmetric]]) auto
    moreover have "merkle_levels H xs = xs # merkle_levels H (pair_up H xs)" using True n by (subst merkle_levels.simps) simp
    moreover have "merkle_levels H ys = ys # tl (merkle_levels H ys)" for ys by (subst (1 2) merkle_levels.simps) simp
    then have "pair_up H xs @ concat (tl (merkle_levels H (pair_up H xs))) = concat (merkle_levels H (pair_up H xs))"
      by (metis concat.simps(2))
    ultimately show ?thesis using True l by (subst build_levels.simps) simp
  qed
qed

lemma merkle_levels_Cons: "merkle_levels H xs = xs # tl (merkle_levels H xs)"
  by (subst (1 2) merkle_levels.simps) simp

lemma merkle_levels_last: "xs \<noteq> [] \<Longrightarrow> length (last (merkle_levels H xs)) = 1"
proof (induction H xs rule: merkle_levels.induct)
  case (1 H xs)
  show ?case
  proof (cases "length xs \<le> 1")
    case True
    with "1.prems" show ?thesis by (subst merkle_levels.simps) (cases xs; auto)
  next
    case False
    have "0 < (length xs + 1) div 2" using False by presburger
    then have "pair_up H xs \<noteq> []" by (metis length_pair_up length_greater_0_conv)
    moreover have "merkle_levels H xs = xs # merkle_levels H (pair_up H xs)" using False by (subst merkle_levels.simps) simp
    moreover have "merkle_levels H (pair_up H xs) \<noteq> []" by (metis list.discI merkle_levels_Cons)
    ultimately show ?thesis using "1.IH" [OF False] by simp
  qed
qed

definition merkle_root :: "hash2 \<Rightarrow> base_uint list \<Rightarrow> base_uint" where
  "merkle_root H xs = (if xs = [] then uint256_of_u64 0 else hd (last (merkle_levels H xs)))"

lemma BuildMerkleTree_spec:
  "BuildMerkleTree H txids = (concat (merkle_levels H txids), merkle_root H txids, list_ex twin_end (merkle_levels H txids))"
proof -
  have c: "concat (merkle_levels H txids) = txids @ concat (tl (merkle_levels H txids))"
    by (metis concat.simps(2) merkle_levels_Cons)
  have last: "last (concat (merkle_levels H txids)) = merkle_root H txids" if ne: "txids \<noteq> []"
  proof -
    have "merkle_levels H txids = butlast (merkle_levels H txids) @ [last (merkle_levels H txids)]"
      by (metis append_butlast_last_id list.discI merkle_levels_Cons)
    then have "concat (merkle_levels H txids) = concat (butlast (merkle_levels H txids)) @ last (merkle_levels H txids)"
      by (metis append_Nil2 concat.simps concat_append)
    moreover obtain r where "last (merkle_levels H txids) = [r]"
      using merkle_levels_last [OF ne, of H] by (metis One_nat_def length_0_conv length_Suc_conv)
    ultimately show ?thesis using ne by (simp add: merkle_root_def)
  qed
  have "merkle_levels H [] = [[]]" by (subst merkle_levels.simps) simp
  then have nil: "concat (merkle_levels H txids) = [] \<longleftrightarrow> txids = []" using c by auto
  have b: "build_levels H 0 (length txids) txids False = (concat (merkle_levels H txids), list_ex twin_end (merkle_levels H txids))"
    using build_levels_spec [of txids 0 "length txids" txids H False] c by simp
  show ?thesis
  proof (cases "txids = []")
    case True
    then show ?thesis using b nil by (simp add: BuildMerkleTree_def merkle_root_def del: concat_eq_Nil_conv)
  next
    case False
    then show ?thesis using b nil last by (simp add: BuildMerkleTree_def del: concat_eq_Nil_conv)
  qed
qed


section \<open>Branches\<close>

lemma xor_1_nat: "(i :: nat) XOR 1 = (if even i then i + 1 else i - 1)"
  using xor_one_eq [of i] by (cases "even i") (simp_all only: of_bool_def if_True if_False not_not simp_thms add_0_right minus_nat.diff_0)

lemma and_1_int: "int i AND 1 \<noteq> 0 \<longleftrightarrow> odd i"
  by (simp add: and_one_eq odd_iff_mod_2_eq_one) presburger

lemma merkle_levels_step: "1 < length xs \<Longrightarrow> merkle_levels H xs = xs # merkle_levels H (pair_up H xs)"
  by (subst merkle_levels.simps) simp

lemma last_merkle_levels_step: "1 < length xs \<Longrightarrow> last (merkle_levels H xs) = last (merkle_levels H (pair_up H xs))"
  by (subst merkle_levels_step, assumption) (simp add: last_ConsR, metis list.discI merkle_levels_Cons)

lemma branch_spec:
  assumes "drop j tree = concat (merkle_levels H xs)" and "i < length xs"
  shows "fold_branch H (xs ! i) (branch_loop tree j (length xs) i) (int i) = hd (last (merkle_levels H xs))"
  using assms
proof (induction H xs arbitrary: j i rule: merkle_levels.induct)
  case (1 H xs)
  show ?case
  proof (cases "length xs \<le> 1")
    case True
    then obtain x where "xs = [x]" "i = 0" using "1.prems"(2) by (cases xs) auto
    moreover have "merkle_levels H xs = [xs]" using True by (subst merkle_levels.simps) simp
    moreover have "branch_loop tree j (length xs) i = []" using True by (subst branch_loop.simps) simp
    ultimately show ?thesis by simp
  next
    case False
    then have l: "1 < length xs" by simp
    have d: "drop j tree = xs @ concat (merkle_levels H (pair_up H xs))" using "1.prems"(1) merkle_levels_step [OF l] by simp
    let ?k = "min (i XOR 1) (length xs - 1)"
    have k: "?k < length xs" using l by simp
    have "drop j tree \<noteq> []" using d l by auto
    then have "tree ! (j + ?k) = drop j tree ! ?k" by (metis drop_all linorder_le_cases nth_drop)
    also have "\<dots> = xs ! ?k" using k by (simp add: d nth_append)
    finally have b: "tree ! (j + ?k) = xs ! ?k" .
    have i2: "i div 2 < (length xs + 1) div 2" using "1.prems"(2) by presburger
    have p: "pair_up H xs ! (i div 2) = (if odd i then H (xs ! ?k) (xs ! i) else H (xs ! i) (xs ! ?k))"
    proof (cases "even i")
      case True
      then show ?thesis using pair_up_nth [OF i2, of H] unfolding xor_1_nat by simp
    next
      case odd: False
      then have "2 * (i div 2) = i - 1" "2 * (i div 2) + 1 = i" by presburger+
      then show ?thesis using pair_up_nth [OF i2, of H] odd "1.prems"(2) unfolding xor_1_nat by (simp add: min_absorb1)
    qed
    have "drop (j + length xs) tree = concat (merkle_levels H (pair_up H xs))" using d by (metis append_eq_conv_conj add.commute drop_drop)
    from "1.IH" [OF False this, of "i div 2"] i2
    have "fold_branch H (pair_up H xs ! (i div 2)) (branch_loop tree (j + length xs) ((length xs + 1) div 2) (i div 2)) (int i div 2)
        = hd (last (merkle_levels H xs))"
      using last_merkle_levels_step [OF l, of H] by (simp add: zdiv_int)
    moreover have "branch_loop tree j (length xs) i
        = xs ! ?k # branch_loop tree (j + length xs) ((length xs + 1) div 2) (i div 2)"
      using l unfolding b [symmetric] by (subst branch_loop.simps) simp
    ultimately show ?thesis unfolding p by (simp only: fold_branch.simps and_1_int split: if_splits)
  qed
qed

section \<open>Partial trees follow the levels\<close>

abbreviation level :: "hash2 \<Rightarrow> base_uint list \<Rightarrow> nat \<Rightarrow> base_uint list" where
  "level H xs h \<equiv> (pair_up H ^^ h) xs"

lemma length_level: "length (level H xs h) = CalcTreeWidth (length xs) h"
  by (induction h) (simp_all add: CalcTreeWidth_Suc CalcTreeWidth_def [of _ 0])

lemma CalcHash_level: "pos < CalcTreeWidth (length xs) h \<Longrightarrow> CalcHash H xs h pos = level H xs h ! pos"
proof (induction h arbitrary: pos)
  case (Suc h)
  let ?w = "CalcTreeWidth (length xs) h"
  have w: "pos < (?w + 1) div 2" using Suc.prems by (simp add: CalcTreeWidth_Suc)
  then have "pos * 2 < ?w" by linarith
  show ?case
  proof (cases "pos * 2 + 1 < ?w")
    case False
    then have "?w = pos * 2 + 1" using \<open>pos * 2 < ?w\<close> by linarith
    with Suc.IH [of "pos * 2"] pair_up_nth [of pos "level H xs h" H] w show ?thesis
      by (simp add: Let_def length_level mult.commute)
  qed (use Suc.IH [of "pos * 2"] Suc.IH [of "pos * 2 + 1"] pair_up_nth [of pos "level H xs h" H] w in
      \<open>auto simp: Let_def length_level mult.commute min_def\<close>)
qed simp

lemma height_root:
  assumes "xs \<noteq> []"
  shows "last (merkle_levels H (level H xs h)) = level H xs (height_loop (length xs) h)"
proof (induction "length xs" h rule: height_loop.induct)
  case (1 h)
  show ?case
  proof (cases "1 < CalcTreeWidth (length xs) h")
    case True
    then have "1 < length (level H xs h)" by (simp add: length_level)
    then have "last (merkle_levels H (level H xs h)) = last (merkle_levels H (level H xs (h + 1)))"
      using last_merkle_levels_step [of "level H xs h" H] by simp
    with 1 [OF True] True show ?thesis by (subst height_loop.simps) simp
  next
    case False
    then have "merkle_levels H (level H xs h) = [level H xs h]" by (subst merkle_levels.simps) (simp add: length_level)
    with False show ?thesis by (subst height_loop.simps) simp
  qed
qed

lemma CalcTreeWidth_pos: "0 < n \<Longrightarrow> 0 < CalcTreeWidth n h"
  by (induction h) (simp_all add: CalcTreeWidth_Suc CalcTreeWidth_def [of _ 0])

lemma CalcHash_root: "xs \<noteq> [] \<Longrightarrow> CalcHash H xs (height_loop (length xs) 0) 0 = merkle_root H xs"
proof -
  assume xs: "xs \<noteq> []"
  let ?h = "height_loop (length xs) 0"
  have "CalcHash H xs ?h 0 = level H xs ?h ! 0" using xs by (intro CalcHash_level CalcTreeWidth_pos) simp
  also have "\<dots> = last (merkle_levels H xs) ! 0" using height_root [OF xs, of H 0] by simp
  also have "\<dots> = merkle_root H xs" using merkle_levels_last [OF xs, of H] xs
    by (cases "last (merkle_levels H xs)") (simp_all add: merkle_root_def)
  finally show ?thesis .
qed


lemma CalcTreeWidth_less: "pos < CalcTreeWidth n h \<longleftrightarrow> pos * 2 ^ h < n"
proof -
  have "pos < CalcTreeWidth n h \<longleftrightarrow> (pos + 1) * 2 ^ h \<le> n + 2 ^ h - 1"
    using less_eq_div_iff_mult_less_eq [of "2 ^ h" "pos + 1" "n + 2 ^ h - 1"] by (simp add: CalcTreeWidth_def Suc_le_eq)
  also have "\<dots> \<longleftrightarrow> pos * 2 ^ h < n"
  proof -
    have "0 < (2 :: nat) ^ h" by simp
    then show ?thesis by (simp only: add_mult_distrib mult_1) linarith
  qed
  finally show ?thesis .
qed

text \<open>The matched transactions of the subtree at \<open>pos\<close>.\<close>

definition subtree :: "nat \<Rightarrow> nat \<Rightarrow> nat \<Rightarrow> nat list" where
  "subtree n h pos = [pos * 2 ^ h ..< min ((pos + 1) * 2 ^ h) n]"

definition matched :: "base_uint list \<Rightarrow> bool list \<Rightarrow> nat list \<Rightarrow> base_uint list" where
  "matched xs m ps = map ((!) xs) (filter ((!) m) ps)"

lemma subtree_split:
  "subtree n (Suc h) pos = subtree n h (pos * 2) @ (if pos * 2 + 1 < CalcTreeWidth n h then subtree n h (pos * 2 + 1) else [])"
proof (cases "pos * 2 + 1 < CalcTreeWidth n h")
  case True
  then have l: "(pos * 2 + 1) * 2 ^ h < n" by (simp only: CalcTreeWidth_less)
  have "pos * 2 ^ Suc h = pos * 2 * 2 ^ h" "(pos + 1) * 2 ^ Suc h = (pos * 2 + 1 + 1) * 2 ^ h" by simp_all
  moreover have "pos * 2 * 2 ^ h \<le> (pos * 2 + 1) * 2 ^ h" "(pos * 2 + 1) * 2 ^ h \<le> (pos * 2 + 1 + 1) * 2 ^ h" by simp_all
  ultimately show ?thesis using True l unfolding subtree_def
    by (simp only: if_True min.absorb1 less_imp_le) (metis min.bounded_iff less_imp_le upt_add_eq_append le_add_diff_inverse)
next
  case False
  then have l: "n \<le> (pos * 2 + 1) * 2 ^ h" unfolding CalcTreeWidth_less by simp
  then have "n \<le> (pos + 1) * 2 ^ Suc h" by (simp add: algebra_simps)
  with l False show ?thesis by (simp add: subtree_def mult.assoc min_absorb2)
qed

lemma parent_of_match_iff: "parent_of_match m n h pos \<longleftrightarrow> matched xs m (subtree n h pos) \<noteq> []"
  by (auto simp: parent_of_match_def matched_def subtree_def list_ex_iff filter_empty_conv)

lemma subtree_nonempty: "pos * 2 ^ h < n \<Longrightarrow> 0 < length (subtree n h pos)"
  by (simp add: subtree_def)

text \<open>What building a subtree appends, and that extracting from it gives it back.\<close>

definition extracts :: "hash2 \<Rightarrow> base_uint list \<Rightarrow> bool list \<Rightarrow> nat \<Rightarrow> nat \<Rightarrow> bool list \<Rightarrow> base_uint list \<Rightarrow> bool" where
  "extracts H xs m h pos bs hs \<longleftrightarrow>
     (\<forall>t s. nTransactions t = length xs \<longrightarrow> take (length bs) (drop (nBitsUsed s) (vBits t)) = bs
        \<longrightarrow> take (length hs) (drop (nHashUsed s) (vHash t)) = hs
        \<longrightarrow> TraverseAndExtract H t h pos s = (CalcHash H xs h pos,
              s\<lparr>nBitsUsed := nBitsUsed s + length bs, nHashUsed := nHashUsed s + length hs,
                xMatch := xMatch s @ matched xs m (subtree (length xs) h pos)\<rparr>))"

lemma take_drop_Cons: "take (length (x # ys)) (drop k zs) = x # ys \<Longrightarrow> k < length zs \<and> zs ! k = x \<and> take (length ys) (drop (k + 1) zs) = ys"
  by (metis Cons_nth_drop_Suc One_nat_def add.commute drop_all length_Cons linorder_not_le list.discI list.inject plus_1_eq_Suc take_Nil take_Suc_Cons)

lemma take_drop_append:
  assumes "take (length (xs @ ys)) (drop k zs) = xs @ ys"
  shows "take (length xs) (drop k zs) = xs \<and> take (length ys) (drop (k + length xs) zs) = ys"
proof
  have "take (length xs) (take (length (xs @ ys)) (drop k zs)) = xs" unfolding assms by simp
  then show "take (length xs) (drop k zs) = xs" by (simp add: take_take min_def)
  have "drop (length xs) (take (length (xs @ ys)) (drop k zs)) = ys" unfolding assms by simp
  then show "take (length ys) (drop (k + length xs) zs) = ys" by (simp add: drop_take drop_drop add.commute)
qed

lemma build_extracts:
  assumes "pos * 2 ^ h < length xs" and "nTransactions t = length xs" and "length m = length xs"
  shows "\<exists>bs hs. TraverseAndBuild H xs m h pos t = t\<lparr>vBits := vBits t @ bs, vHash := vHash t @ hs\<rparr>
     \<and> length hs \<le> length bs \<and> length hs \<le> length (subtree (length xs) h pos) \<and> extracts H xs m h pos bs hs"
  using assms
proof (induction h arbitrary: pos t)
  case 0
  have s: "subtree (length xs) 0 pos = [pos]" using 0 by (simp add: subtree_def)
  have e: "extracts H xs m 0 pos [m ! pos] [xs ! pos]"
    unfolding extracts_def s
  proof (intro allI impI)
    fix t :: CPartialMerkleTree and s :: extract_state
    assume "take (length [m ! pos]) (drop (nBitsUsed s) (vBits t)) = [m ! pos]" "take (length [xs ! pos]) (drop (nHashUsed s) (vHash t)) = [xs ! pos]"
    from this [THEN take_drop_Cons] show "TraverseAndExtract H t 0 pos s = (CalcHash H xs 0 pos,
              s\<lparr>nBitsUsed := nBitsUsed s + length [m ! pos], nHashUsed := nHashUsed s + length [xs ! pos],
                xMatch := xMatch s @ matched xs m [pos]\<rparr>)"
      by (cases s) (auto simp: take_hash_def matched_def Let_def)
  qed
  have "parent_of_match m (nTransactions t) 0 pos = m ! pos" using 0 by (simp add: parent_of_match_def)
  with e s show ?case by (intro exI [of _ "[m ! pos]"] exI [of _ "[xs ! pos]"]) simp
next
  case (Suc h)
  let ?n = "length xs"
  let ?par = "parent_of_match m ?n (Suc h) pos"
  let ?hash = "CalcHash H xs (Suc h) pos"
  note par = parent_of_match_iff [of m ?n "Suc h" pos xs]
  show ?case
  proof (cases ?par)
    case False
    have "extracts H xs m (Suc h) pos [False] [?hash]"
      unfolding extracts_def
    proof (intro allI impI)
      fix t :: CPartialMerkleTree and s :: extract_state
      assume "take (length [False]) (drop (nBitsUsed s) (vBits t)) = [False]" "take (length [?hash]) (drop (nHashUsed s) (vHash t)) = [?hash]"
      from this [THEN take_drop_Cons] show "TraverseAndExtract H t (Suc h) pos s = (?hash,
              s\<lparr>nBitsUsed := nBitsUsed s + length [False], nHashUsed := nHashUsed s + length [?hash],
                xMatch := xMatch s @ matched xs m (subtree ?n (Suc h) pos)\<rparr>)"
        using par False by (cases s) (auto simp: take_hash_def Let_def simp del: CalcHash.simps)
    qed
    moreover have "Suc 0 \<le> length (subtree ?n (Suc h) pos)" using subtree_nonempty [OF Suc.prems(1)] by (simp only: Suc_le_eq)
    ultimately show ?thesis using False Suc.prems(2)
      by (intro exI [of _ "[False]"] exI [of _ "[?hash]"]) (auto simp: Let_def simp del: CalcHash.simps)
  next
    case True
    let ?t = "t\<lparr>vBits := vBits t @ [True]\<rparr>"
    have p: "pos * 2 * 2 ^ h < ?n" using Suc.prems(1) by (simp add: mult.assoc)
    obtain b1 h1 where 1: "TraverseAndBuild H xs m h (pos * 2) ?t = ?t\<lparr>vBits := vBits ?t @ b1, vHash := vHash ?t @ h1\<rparr>"
      "length h1 \<le> length b1" "length h1 \<le> length (subtree ?n h (pos * 2))" "extracts H xs m h (pos * 2) b1 h1"
      using Suc.IH [OF p, of ?t] Suc.prems by auto
    show ?thesis
    proof (cases "pos * 2 + 1 < CalcTreeWidth ?n h")
      case right: False
      have "extracts H xs m (Suc h) pos (True # b1) h1"
        unfolding extracts_def
      proof (intro allI impI)
        fix t :: CPartialMerkleTree and s :: extract_state
        assume t: "nTransactions t = length xs" and b: "take (length (True # b1)) (drop (nBitsUsed s) (vBits t)) = True # b1"
          and hh: "take (length h1) (drop (nHashUsed s) (vHash t)) = h1"
        note b' = take_drop_Cons [OF b]
        from 1(4) [unfolded extracts_def, rule_format, of t "s\<lparr>nBitsUsed := nBitsUsed s + 1\<rparr>"] t b' hh
        show "TraverseAndExtract H t (Suc h) pos s = (?hash,
              s\<lparr>nBitsUsed := nBitsUsed s + length (True # b1), nHashUsed := nHashUsed s + length h1,
                xMatch := xMatch s @ matched xs m (subtree ?n (Suc h) pos)\<rparr>)"
          using right by (cases s) (simp add: subtree_split Let_def)
      qed
      then show ?thesis using 1 True right Suc.prems(2)
        by (intro exI [of _ "True # b1"] exI [of _ h1]) (auto simp: Let_def subtree_split)
    next
      case right: True
      let ?t1 = "?t\<lparr>vBits := vBits ?t @ b1, vHash := vHash ?t @ h1\<rparr>"
      have "(pos * 2 + 1) * 2 ^ h < ?n" using right by (simp only: CalcTreeWidth_less)
      then obtain b2 h2 where 2: "TraverseAndBuild H xs m h (pos * 2 + 1) ?t1 = ?t1\<lparr>vBits := vBits ?t1 @ b2, vHash := vHash ?t1 @ h2\<rparr>"
        "length h2 \<le> length b2" "length h2 \<le> length (subtree ?n h (pos * 2 + 1))" "extracts H xs m h (pos * 2 + 1) b2 h2"
        using Suc.IH [of "pos * 2 + 1" ?t1] Suc.prems by auto
      have "extracts H xs m (Suc h) pos (True # b1 @ b2) (h1 @ h2)"
        unfolding extracts_def
      proof (intro allI impI)
        fix t :: CPartialMerkleTree and s :: extract_state
        assume t: "nTransactions t = length xs" and b: "take (length (True # b1 @ b2)) (drop (nBitsUsed s) (vBits t)) = True # b1 @ b2"
          and hh: "take (length (h1 @ h2)) (drop (nHashUsed s) (vHash t)) = h1 @ h2"
        note b' = take_drop_Cons [OF b] and hh' = take_drop_append [OF hh]
        note bb = take_drop_append [OF conjunct2 [OF conjunct2 [OF b']]]
        from 1(4) [unfolded extracts_def, rule_format, of t "s\<lparr>nBitsUsed := nBitsUsed s + 1\<rparr>"] t b' hh' bb
        have l: "TraverseAndExtract H t h (pos * 2) (s\<lparr>nBitsUsed := nBitsUsed s + 1\<rparr>) = (CalcHash H xs h (pos * 2),
            s\<lparr>nBitsUsed := nBitsUsed s + 1 + length b1, nHashUsed := nHashUsed s + length h1,
              xMatch := xMatch s @ matched xs m (subtree ?n h (pos * 2))\<rparr>)" (is "_ = (_, ?s1)") by (cases s) simp
        from 2(4) [unfolded extracts_def, rule_format, of t ?s1] t b' hh' bb
        have r: "TraverseAndExtract H t h (pos * 2 + 1) ?s1 = (CalcHash H xs h (pos * 2 + 1),
            s\<lparr>nBitsUsed := nBitsUsed s + 1 + length b1 + length b2, nHashUsed := nHashUsed s + length h1 + length h2,
              xMatch := xMatch s @ matched xs m (subtree ?n h (pos * 2)) @ matched xs m (subtree ?n h (pos * 2 + 1))\<rparr>)"
          by (cases s) simp
        show "TraverseAndExtract H t (Suc h) pos s = (?hash,
              s\<lparr>nBitsUsed := nBitsUsed s + length (True # b1 @ b2), nHashUsed := nHashUsed s + length (h1 @ h2),
                xMatch := xMatch s @ matched xs m (subtree ?n (Suc h) pos)\<rparr>)"
          using right t b' l r by (cases s) (simp add: subtree_split Let_def matched_def add.assoc)
      qed
      then show ?thesis using 1 2 True right Suc.prems(2)
        by (intro exI [of _ "True # b1 @ b2"] exI [of _ "h1 @ h2"]) (auto simp: Let_def subtree_split)
    qed
  qed
qed


section \<open>What a root commits to\<close>

fun level_pairs :: "base_uint list \<Rightarrow> (base_uint \<times> base_uint) list" where
  "level_pairs [] = []"
| "level_pairs [a] = [(a, a)]"
| "level_pairs (a # b # xs) = (a, b) # level_pairs xs"

lemma pair_up_pairs: "pair_up H xs = map (\<lambda>(a, b). H a b) (level_pairs xs)"
  by (induction H xs rule: pair_up.induct) auto

text \<open>The pairs that are hashed to compute a root.\<close>

definition hashed :: "hash2 \<Rightarrow> base_uint list \<Rightarrow> (base_uint \<times> base_uint) set" where
  "hashed H xs = set (concat (map level_pairs (butlast (merkle_levels H xs))))"

lemma hashed_step: "1 < length xs \<Longrightarrow> hashed H xs = set (level_pairs xs) \<union> hashed H (pair_up H xs)"
  by (subst hashed_def, subst merkle_levels_step, assumption)
    (metis (no_types, lifting) butlast.simps(2) concat.simps(2) hashed_def list.distinct(1) list.simps(9) merkle_levels_Cons set_append)

lemma twin_end_Cons: "twin_end xs \<Longrightarrow> twin_end (a # b # xs)"
proof -
  assume t: "twin_end xs"
  then obtain n where n: "length xs = n + 2" by (metis twin_end_def add.commute le_Suc_ex)
  with t have "even n" "xs ! n = xs ! (n + 1)" by (auto simp: twin_end_def)
  with n show "twin_end (a # b # xs)" by (simp add: twin_end_def)
qed

lemma level_pairs_nil [simp]: "level_pairs xs = [] \<longleftrightarrow> xs = []" "[] = level_pairs xs \<longleftrightarrow> xs = []"
  by (cases xs rule: level_pairs.cases; simp)+

lemma level_pairs_inject:
  "level_pairs xs = level_pairs ys \<Longrightarrow> \<not> twin_end xs \<Longrightarrow> \<not> twin_end ys \<Longrightarrow> xs = ys"
proof (induction xs arbitrary: ys rule: level_pairs.induct)
  case 1
  then show ?case by simp
next
  case (2 a)
  then show ?case by (cases ys rule: level_pairs.cases) (auto simp: twin_end_def)
next
  case (3 a b xs)
  show ?case
  proof (cases ys rule: level_pairs.cases)
    case (3 c d zs)
    with "3.prems" "3.IH" [of zs] twin_end_Cons show ?thesis by auto
  next
    case (2 c)
    with "3.prems" show ?thesis by (auto simp: twin_end_def)
  qed (use "3.prems"(1) in auto)
qed

text \<open>
  Lists whose trees have the same depth and the same root: the first elements agree, and the lists
  do unless one of them is mutated.
\<close>

lemma levels_inject:
  assumes "inj_on (\<lambda>(a, b). H a b) A"
    and "length (merkle_levels H xs) = length (merkle_levels H ys)" and "xs \<noteq> []" and "ys \<noteq> []"
    and "last (merkle_levels H xs) = last (merkle_levels H ys)" and "hashed H xs \<subseteq> A" and "hashed H ys \<subseteq> A"
  shows "hd xs = hd ys \<and> (\<not> list_ex twin_end (merkle_levels H xs) \<longrightarrow> \<not> list_ex twin_end (merkle_levels H ys) \<longrightarrow> xs = ys)"
  using assms
proof (induction H xs arbitrary: ys rule: merkle_levels.induct)
  case (1 H xs)
  have one: "length (merkle_levels H zs) = 1 \<longleftrightarrow> length zs \<le> 1" for zs
  proof (cases "length zs \<le> 1")
    case True
    then show ?thesis by (subst merkle_levels.simps) simp
  next
    case False
    moreover have "merkle_levels H (pair_up H zs) \<noteq> []" by (metis list.discI merkle_levels_Cons)
    ultimately show ?thesis using merkle_levels_step [of zs H] by simp
  qed
  show ?case
  proof (cases "length xs \<le> 1")
    case True
    then have "length ys \<le> 1" using "1.prems"(2) one by metis
    then have "merkle_levels H xs = [xs]" "merkle_levels H ys = [ys]" using True by (subst merkle_levels.simps; simp)+
    then show ?thesis using "1.prems"(5) by simp
  next
    case False
    then have "\<not> length ys \<le> 1" using "1.prems"(2) one by metis
    then have l: "1 < length xs" "1 < length ys" using False by simp_all
    note sx = merkle_levels_step [OF l(1), of H] and sy = merkle_levels_step [OF l(2), of H]
    have ne: "pair_up H xs \<noteq> []" "pair_up H ys \<noteq> []" using l by (cases xs rule: level_pairs.cases; cases ys rule: level_pairs.cases; simp)+
    have sub: "set (level_pairs xs) \<subseteq> A" "set (level_pairs ys) \<subseteq> A" "hashed H (pair_up H xs) \<subseteq> A" "hashed H (pair_up H ys) \<subseteq> A"
      using "1.prems"(6,7) hashed_step [OF l(1), of H] hashed_step [OF l(2), of H] by auto
    have ih: "hd (pair_up H xs) = hd (pair_up H ys)
        \<and> (\<not> list_ex twin_end (merkle_levels H (pair_up H xs)) \<longrightarrow> \<not> list_ex twin_end (merkle_levels H (pair_up H ys)) \<longrightarrow> pair_up H xs = pair_up H ys)"
      using "1.prems"(2,5) sx sy last_merkle_levels_step [OF l(1), of H] last_merkle_levels_step [OF l(2), of H]
      by (intro "1.IH" [OF False "1.prems"(1) _ ne _ sub(3,4)]) simp_all
    obtain a b xs' c d ys' where xy: "xs = a # b # xs'" "ys = c # d # ys'"
      using l by (cases xs rule: level_pairs.cases; cases ys rule: level_pairs.cases) auto
    have "(a, b) = (c, d)" using inj_onD [OF "1.prems"(1), of "(a, b)" "(c, d)"] ih sub(1,2) xy by auto
    moreover have "xs = ys" if t: "\<not> list_ex twin_end (merkle_levels H xs)" "\<not> list_ex twin_end (merkle_levels H ys)"
    proof -
      have "map (\<lambda>(a, b). H a b) (level_pairs xs) = map (\<lambda>(a, b). H a b) (level_pairs ys)"
        using ih t sx sy by (simp add: pair_up_pairs)
      then have "level_pairs xs = level_pairs ys"
        using map_inj_on [of "\<lambda>(a, b). H a b" "level_pairs xs" "level_pairs ys"] "1.prems"(1) sub(1,2) by (meson Un_least inj_on_subset)
      then show ?thesis using level_pairs_inject t sx sy by simp
    qed
    ultimately show ?thesis using xy by auto
  qed
qed

lemma merkle_levels_level: "e < length (merkle_levels H xs) \<Longrightarrow> merkle_levels H (level H xs e) = drop e (merkle_levels H xs)"
proof (induction e)
  case (Suc e)
  then have d: "merkle_levels H (level H xs e) = drop e (merkle_levels H xs)" by simp
  have "1 < length (level H xs e)"
  proof (rule ccontr)
    assume "\<not> 1 < length (level H xs e)"
    then have "merkle_levels H (level H xs e) = [level H xs e]" by (subst merkle_levels.simps) simp
    with d Suc.prems show False by (metis One_nat_def length_Cons length_drop less_diff_conv list.size(3) nat_less_le not_less_eq add.commute plus_1_eq_Suc zero_less_diff Suc_lessD)
  qed
  from merkle_levels_step [OF this, of H] d have "drop e (merkle_levels H xs) = level H xs e # merkle_levels H (level H xs (Suc e))" by simp
  then show ?case by (metis drop_Suc list.sel(3) tl_drop)
qed simp

lemma root_in_hashed:
  assumes "inj_on (\<lambda>(a, b). H a b) A" and "hashed H xs \<subseteq> A" and "hashed H ys \<subseteq> A" and "xs \<noteq> []" and "ys \<noteq> []"
    and "length (merkle_levels H xs) < length (merkle_levels H ys)" and "last (merkle_levels H xs) = last (merkle_levels H ys)"
  shows "hd xs \<in> (\<lambda>(a, b). H a b) ` A"
proof -
  define e where "e = length (merkle_levels H ys) - length (merkle_levels H xs)"
  have lx: "0 < length (merkle_levels H xs)" by (subst merkle_levels_Cons) simp
  have e: "0 < e" "e < length (merkle_levels H ys)" using assms(6) lx unfolding e_def by linarith+
  define zs where "zs = level H ys (e - 1)"
  have dz: "merkle_levels H zs = drop (e - 1) (merkle_levels H ys)" using e by (simp add: zs_def merkle_levels_level)
  have z: "level H ys e = pair_up H zs" using e by (cases e) (simp_all add: zs_def)
  have d: "merkle_levels H (pair_up H zs) = drop e (merkle_levels H ys)" using e z merkle_levels_level [of e H ys] by simp
  have "1 < length (merkle_levels H zs)" using e by (simp add: dz)
  then have l: "1 < length zs" by (subst (asm) merkle_levels.simps) (simp split: if_splits)
  have "set (butlast (drop (e - 1) (merkle_levels H ys))) \<subseteq> set (butlast (merkle_levels H ys))"
    by (metis butlast_drop set_drop_subset)
  then have "hashed H zs \<subseteq> hashed H ys" unfolding hashed_def dz by auto
  then have hz: "set (level_pairs zs) \<subseteq> A" "hashed H (pair_up H zs) \<subseteq> A" using assms(3) hashed_step [OF l, of H] by auto
  obtain a b zs' where zs: "zs = a # b # zs'" using l by (cases zs rule: level_pairs.cases) auto
  have "length (merkle_levels H xs) = length (merkle_levels H (pair_up H zs))" using d assms(6) by (simp add: e_def)
  moreover have "last (merkle_levels H xs) = last (merkle_levels H (pair_up H zs))" using assms(7) d e(2) by simp
  ultimately have "hd xs = hd (pair_up H zs)" using levels_inject [OF assms(1) _ assms(4) _ _ assms(2) hz(2)] zs by simp
  then show ?thesis using zs hz(1) by force
qed


section \<open>Theorems\<close>

text \<open>
  C24. The flat array of \<^verbatim>\<open>BuildMerkleTree\<close> is the concatenation of the levels that pairing
  up produces, the root is the last level, and \<^verbatim>\<open>fMutated\<close> is set exactly when a level of
  even length ends in two equal hashes.
\<close>

theorem merkle_tree_is_levels:
  "BuildMerkleTree H txids = (concat (merkle_levels H txids), merkle_root H txids, list_ex twin_end (merkle_levels H txids))"
  by (rule BuildMerkleTree_spec)

text \<open>
  The branch of every transaction, computed from a built tree or from scratch, checks to the
  root of the block.
\<close>

theorem merkle_branch_checks:
  assumes "i < length txids" and "tree = [] \<or> tree = fst (BuildMerkleTree H txids)"
  shows "CheckMerkleBranch H (txids ! i) (GetMerkleBranch H txids tree i) (int i) = fst (snd (BuildMerkleTree H txids))"
proof -
  have "txids \<noteq> []" using assms(1) by auto
  moreover have "GetMerkleBranch H txids tree i = branch_loop (concat (merkle_levels H txids)) 0 (length txids) i"
    using assms(2) by (auto simp: GetMerkleBranch_def BuildMerkleTree_spec)
  ultimately show ?thesis
    using branch_spec [of 0 "concat (merkle_levels H txids)" H txids i] assms(1)
    by (simp add: CheckMerkleBranch_def BuildMerkleTree_spec merkle_root_def)
qed

abbreviation ex_hash :: hash2 where "ex_hash a b \<equiv> a @ b @ [0]"

theorem merkle_branch_checks_witness:
  "CheckMerkleBranch ex_hash [7] (GetMerkleBranch ex_hash [[5], [6], [7]] [] 2) 2 = fst (snd (BuildMerkleTree ex_hash [[5], [6], [7]]))"
  using merkle_branch_checks [of 2 "[[5], [6], [7]]" "[]" ex_hash] by simp

text \<open>
  C25. The root commits to the transactions: two different lists with the same root are possible
  only if hashing one of them meets a collision, if a transaction identifier is itself the hash of
  a pair, or if \<^verbatim>\<open>fMutated\<close> is set for one of the lists (the duplication of CVE-2012-2459).
\<close>

theorem merkle_root_commits:
  assumes "fst (snd (BuildMerkleTree H xs)) = fst (snd (BuildMerkleTree H ys))" and "xs \<noteq> ys" and "xs \<noteq> []" and "ys \<noteq> []"
    and "inj_on (\<lambda>(a, b). H a b) (hashed H xs \<union> hashed H ys)"
    and "(set xs \<union> set ys) \<inter> (\<lambda>(a, b). H a b) ` (hashed H xs \<union> hashed H ys) = {}"
  shows "snd (snd (BuildMerkleTree H xs)) \<or> snd (snd (BuildMerkleTree H ys))"
proof -
  let ?A = "hashed H xs \<union> hashed H ys"
  have "\<exists>r. last (merkle_levels H zs) = [r]" if "zs \<noteq> []" for zs
    using merkle_levels_last [OF that, of H] by (metis One_nat_def length_0_conv length_Suc_conv)
  with assms(1,3,4) have root: "last (merkle_levels H xs) = last (merkle_levels H ys)"
    by (metis BuildMerkleTree_spec fst_conv snd_conv list.sel(1) merkle_root_def)
  have hd: "hd xs \<notin> (\<lambda>(a, b). H a b) ` ?A" "hd ys \<notin> (\<lambda>(a, b). H a b) ` ?A"
    using assms(3,4,6) by (cases xs; cases ys; auto)+
  have "length (merkle_levels H xs) = length (merkle_levels H ys)"
    using root_in_hashed [OF assms(5) _ _ assms(3,4) _ root] root_in_hashed [OF assms(5) _ _ assms(4,3) _ root [symmetric]] hd
    by (metis Un_upper1 Un_upper2 linorder_neqE_nat)
  from levels_inject [OF assms(5) this assms(3,4) root] assms(2) show ?thesis by (auto simp: BuildMerkleTree_spec)
qed

theorem merkle_root_commits_witness:
  "fst (snd (BuildMerkleTree ex_hash [[5], [6], [7]])) = fst (snd (BuildMerkleTree ex_hash [[5], [6], [7], [7]]))
     \<and> (snd (snd (BuildMerkleTree ex_hash [[5], [6], [7]])) \<or> snd (snd (BuildMerkleTree ex_hash [[5], [6], [7], [7]])))"
proof -
  let ?xs = "[[5], [6], [7]] :: base_uint list" and ?ys = "[[5], [6], [7], [7]] :: base_uint list"
  have l: "merkle_levels ex_hash ?xs = [?xs, [[5, 6, 0], [7, 7, 0]], [[5, 6, 0, 7, 7, 0, 0]]]"
    "merkle_levels ex_hash ?ys = [?ys, [[5, 6, 0], [7, 7, 0]], [[5, 6, 0, 7, 7, 0, 0]]]"
    by (simp_all add: merkle_levels.simps)
  then have h: "hashed ex_hash ?xs \<union> hashed ex_hash ?ys = {([5], [6]), ([7], [7]), ([5, 6, 0], [7, 7, 0])}"
    by (auto simp: hashed_def)
  have r: "fst (snd (BuildMerkleTree ex_hash ?xs)) = fst (snd (BuildMerkleTree ex_hash ?ys))"
    by (simp add: BuildMerkleTree_spec merkle_root_def l)
  with merkle_root_commits [OF r] show ?thesis unfolding h by simp
qed

text \<open>
  C17. Extracting from a partial tree that was built for a block gives the root of the block and
  exactly the transactions that were marked, in order.
\<close>

theorem partial_tree_roundtrip:
  assumes "txids \<noteq> []" and "length txids \<le> MAX_BLOCK_SIZE div 60" and "length m = length txids"
  shows "ExtractMatches H (CPartialMerkleTree_build H txids m)
    = (fst (snd (BuildMerkleTree H txids)), map fst (filter snd (zip txids m)))"
proof -
  let ?n = "length txids" and ?h = "height_loop (length txids) 0"
  let ?t0 = "\<lparr>nTransactions = length txids, vBits = [], vHash = [], fBad = False\<rparr>"
  have "0 * 2 ^ ?h < ?n" using assms(1) by simp
  from build_extracts [OF this, of ?t0 m H] assms(3) obtain bs hs where
    b: "TraverseAndBuild H txids m ?h 0 ?t0 = ?t0\<lparr>vBits := bs, vHash := hs\<rparr>"
      "length hs \<le> length bs" "length hs \<le> length (subtree ?n ?h 0)" "extracts H txids m ?h 0 bs hs" by auto
  let ?t = "?t0\<lparr>vBits := bs, vHash := hs\<rparr>" and ?s = "\<lparr>nBitsUsed = 0, nHashUsed = 0, xMatch = [], xBad = False\<rparr>"
  have "length (level H txids ?h) = 1" using merkle_levels_last [OF assms(1), of H] height_root [OF assms(1), of H 0] by simp
  then have w: "?n \<le> 2 ^ ?h" using CalcTreeWidth_less [of 1 ?n ?h] by (simp add: length_level)
  then have s: "subtree ?n ?h 0 = [0..<?n]" by (simp add: subtree_def min_absorb2)
  have "matched txids m [0..<?n] = map fst (filter snd (zip txids m))"
  proof -
    have "zip txids m = map (\<lambda>p. (txids ! p, m ! p)) [0..<?n]" using assms(3) by (intro nth_equalityI) auto
    then show ?thesis by (simp add: matched_def filter_map comp_def)
  qed
  with b(4) [unfolded extracts_def, rule_format, of ?t ?s] s
  have "TraverseAndExtract H ?t ?h 0 ?s = (CalcHash H txids ?h 0,
      \<lparr>nBitsUsed = length bs, nHashUsed = length hs, xMatch = map fst (filter snd (zip txids m)), xBad = False\<rparr>)" by simp
  then show ?thesis
    using assms(1,2) b(1-3) s CalcHash_root [OF assms(1), of H]
    by (simp add: ExtractMatches_def CPartialMerkleTree_build_def BuildMerkleTree_spec)
qed

theorem partial_tree_roundtrip_witness:
  "ExtractMatches ex_hash (CPartialMerkleTree_build ex_hash [[5], [6], [7]] [False, True, True])
    = (fst (snd (BuildMerkleTree ex_hash [[5], [6], [7]])), [[6], [7]])"
  using partial_tree_roundtrip [of "[[5], [6], [7]]" "[False, True, True]" ex_hash] by (simp add: MAX_BLOCK_SIZE_def)

end
