(* ===== verification/Chain.thy ===== *)
theory Chain
  imports Connect Pow
begin

text \<open>
  The tree of block index entries and the active chain (\<^verbatim>\<open>src/chain.h\<close>,
  \<^verbatim>\<open>src/chain.cpp\<close>, \<^verbatim>\<open>CBlockIndex::GetAncestor\<close> and the searches of
  \<^verbatim>\<open>src/main.cpp\<close>). Entries live in a store; a pointer is a natural number and
  \<open>None\<close> is \<^verbatim>\<open>NULL\<close>. A loop that follows \<^verbatim>\<open>pprev\<close> ends because the tree is well
  formed, which its definition does not know: it is a partial function whose outer \<open>None\<close>
  is "does not return".
\<close>

section \<open>The store\<close>

type_synonym ptr = nat

text \<open>
  \<^verbatim>\<open>CBlockIndex\<close> with its pointers. The scalar fields that the consensus routines of
  \<open>Block_Index\<close> and \<open>Pow\<close> read are \<open>blk\<close>.
\<close>

record CBlockNode =
  blk :: CBlockIndex
  pprev :: "ptr option"
  pskip :: "ptr option"
  pnext :: "ptr option"
  bnChainTrust :: base_uint
  prevoutStake :: COutPoint
  nStakeTime :: u32
  idx_hashMerkleRoot :: base_uint
  idx_nNonce :: u32

type_synonym block_store = "ptr \<rightharpoonup> CBlockNode"

section \<open>Skipping back\<close>

definition InvertLowestOne :: "nat \<Rightarrow> nat" where
  "InvertLowestOne n = n AND (n - 1)"

definition GetSkipHeight :: "nat \<Rightarrow> nat" where
  "GetSkipHeight height =
     (if height < 2 then 0
      else if height AND 1 \<noteq> 0 then InvertLowestOne (InvertLowestOne (height - 1)) + 1
      else InvertLowestOne height)"

lemma InvertLowestOne_le: "InvertLowestOne n \<le> n - 1"
proof -
  have "int (n AND (n - 1)) \<le> int (n - 1)" unfolding of_nat_and_eq by (rule AND_upper2) simp
  then show ?thesis by (simp add: InvertLowestOne_def)
qed

lemma GetSkipHeight_less: "0 < h \<Longrightarrow> GetSkipHeight h < h"
  using InvertLowestOne_le [of h] InvertLowestOne_le [of "h - 1"] InvertLowestOne_le [of "InvertLowestOne (h - 1)"]
  by (auto simp: GetSkipHeight_def)

text \<open>The walk of \<^verbatim>\<open>GetAncestor\<close> from the entry \<open>pindexWalk\<close> at \<open>heightWalk\<close>.\<close>

function ancestor_loop :: "block_store \<Rightarrow> nat \<Rightarrow> ptr option \<Rightarrow> nat \<Rightarrow> fault + ptr option" where
  "ancestor_loop st height pindexWalk heightWalk =
     (if height < heightWalk
      then let heightSkip = GetSkipHeight heightWalk;
               heightSkipPrev = GetSkipHeight (heightWalk - 1)
           in (case Option.bind pindexWalk st of
                 None \<Rightarrow> Inl NullRead
               | Some b \<Rightarrow>
                   if heightSkip = height
                      \<or> (height < heightSkip \<and> \<not> (heightSkipPrev + 2 < heightSkip \<and> height \<le> heightSkipPrev))
                   then ancestor_loop st height (pskip b) heightSkip
                   else ancestor_loop st height (pprev b) (heightWalk - 1))
      else Inr pindexWalk)"
  by pat_completeness auto
termination by (relation "measure (\<lambda>(st, height, p, w). w)") (auto intro: GetSkipHeight_less)

declare ancestor_loop.simps [simp del]

definition GetAncestor :: "block_store \<Rightarrow> ptr \<Rightarrow> int \<Rightarrow> fault + ptr option" where
  "GetAncestor st p height =
     (case st p of
        None \<Rightarrow> Inl NullRead
      | Some b \<Rightarrow> if nHeight (blk b) < height \<or> height < 0 then Inr None
                  else ancestor_loop st (nat height) (Some p) (nat (nHeight (blk b))))"

definition BuildSkip :: "block_store \<Rightarrow> ptr \<Rightarrow> fault + block_store" where
  "BuildSkip st p =
     (case st p of
        None \<Rightarrow> Inl NullRead
      | Some b \<Rightarrow> (case pprev b of
          None \<Rightarrow> Inr st
        | Some q \<Rightarrow> bindE (GetAncestor st q (int (GetSkipHeight (nat (nHeight (blk b))))))
                      (\<lambda>a. Inr (st(p \<mapsto> b\<lparr>pskip := a\<rparr>)))))"

section \<open>The active chain\<close>

type_synonym vchain = "ptr option list"

definition Genesis :: "vchain \<Rightarrow> ptr option" where
  "Genesis vChain = (if 0 < length vChain then vChain ! 0 else None)"

partial_function (option) tip_stake_loop :: "block_store \<Rightarrow> ptr option \<Rightarrow> (fault + ptr option) option" where
  "tip_stake_loop st pindex =
     (case pindex of
        None \<Rightarrow> Some (Inr None)
      | Some p \<Rightarrow> (case st p of
          None \<Rightarrow> Some (Inl NullRead)
        | Some b \<Rightarrow> if pprev b \<noteq> None \<and> \<not> IsProofOfStake (blk b) then tip_stake_loop st (pprev b)
                    else Some (Inr pindex)))"

definition Tip :: "block_store \<Rightarrow> vchain \<Rightarrow> bool \<Rightarrow> (fault + ptr option) option" where
  "Tip st vChain fProofOfStake =
     (if vChain = [] then Some (Inr None)
      else let pindex = vChain ! (length vChain - 1)
           in if fProofOfStake then tip_stake_loop st pindex else Some (Inr pindex))"

definition at_height :: "vchain \<Rightarrow> int \<Rightarrow> ptr option" where
  "at_height vChain height = (if height < 0 \<or> int (length vChain) \<le> height then None else vChain ! nat height)"

definition Contains :: "block_store \<Rightarrow> vchain \<Rightarrow> ptr \<Rightarrow> fault + bool" where
  "Contains st vChain p =
     (case st p of None \<Rightarrow> Inl NullRead | Some b \<Rightarrow> Inr (at_height vChain (nHeight (blk b)) = Some p))"

definition Next :: "block_store \<Rightarrow> vchain \<Rightarrow> ptr \<Rightarrow> fault + ptr option" where
  "Next st vChain p =
     (case st p of
        None \<Rightarrow> Inl NullRead
      | Some b \<Rightarrow> Inr (if at_height vChain (nHeight (blk b)) = Some p then at_height vChain (nHeight (blk b) + 1) else None))"

definition Height :: "vchain \<Rightarrow> int" where
  "Height vChain = int (length vChain) - 1"

text \<open>\<^verbatim>\<open>SetTip\<close>: resizing, then filling downwards until an entry is already there.\<close>

partial_function (option) set_tip_loop :: "block_store \<Rightarrow> ptr option \<Rightarrow> vchain \<Rightarrow> (fault + vchain) option" where
  "set_tip_loop st pindex vChain =
     (case pindex of
        None \<Rightarrow> Some (Inr vChain)
      | Some p \<Rightarrow> (case st p of
          None \<Rightarrow> Some (Inl NullRead)
        | Some b \<Rightarrow>
            if nHeight (blk b) < 0 \<or> int (length vChain) \<le> nHeight (blk b) then Some (Inl OutOfRange)
            else if vChain ! nat (nHeight (blk b)) = Some p then Some (Inr vChain)
            else set_tip_loop st (pprev b) (vChain[nat (nHeight (blk b)) := Some p])))"

definition SetTip :: "block_store \<Rightarrow> vchain \<Rightarrow> ptr option \<Rightarrow> (fault + vchain) option" where
  "SetTip st vChain pindex =
     (case pindex of
        None \<Rightarrow> Some (Inr [])
      | Some p \<Rightarrow> (case st p of
          None \<Rightarrow> Some (Inl NullRead)
        | Some b \<Rightarrow> let n = nat (nHeight (blk b) + 1)
                    in set_tip_loop st pindex (take n vChain @ replicate (n - length vChain) None)))"

text \<open>
  \<^verbatim>\<open>GetLocator\<close>, the loop: the hashes collected so far and the step. A block of the chain is
  looked up by index, any other through the skip list.
\<close>

partial_function (option) locator_loop :: "block_store \<Rightarrow> vchain \<Rightarrow> ptr option \<Rightarrow> int \<Rightarrow> base_uint list \<Rightarrow> (fault + base_uint list) option" where
  "locator_loop st vChain pindex nStep vHave =
     (case pindex of
        None \<Rightarrow> Some (Inr vHave)
      | Some p \<Rightarrow> (case st p of
          None \<Rightarrow> Some (Inl NullRead)
        | Some b \<Rightarrow> (case GetBlockHash (blk b) of
            None \<Rightarrow> Some (Inl NullRead)
          | Some hash \<Rightarrow>
              let vHave = vHave @ [hash]
              in if nHeight (blk b) = 0 then Some (Inr vHave)
                 else let height = max (nHeight (blk b) - nStep) 0
                      in (case (if at_height vChain (nHeight (blk b)) = Some p then Inr (at_height vChain height)
                                else GetAncestor st p height) of
                            Inl e \<Rightarrow> Some (Inl e)
                          | Inr pindex \<Rightarrow> locator_loop st vChain pindex (if 10 < length vHave then nStep * 2 else nStep) vHave))))"

definition GetLocator :: "block_store \<Rightarrow> vchain \<Rightarrow> ptr option \<Rightarrow> (fault + base_uint list) option" where
  "GetLocator st vChain pindex =
     (case pindex of
        Some p \<Rightarrow> locator_loop st vChain (Some p) 1 []
      | None \<Rightarrow> locator_loop st vChain (if vChain = [] then None else vChain ! (length vChain - 1)) 1 [])"

partial_function (option) fork_loop :: "block_store \<Rightarrow> vchain \<Rightarrow> ptr option \<Rightarrow> (fault + ptr option) option" where
  "fork_loop st vChain pindex =
     (case pindex of
        None \<Rightarrow> Some (Inr None)
      | Some p \<Rightarrow> (case st p of
          None \<Rightarrow> Some (Inl NullRead)
        | Some b \<Rightarrow> if at_height vChain (nHeight (blk b)) = Some p then Some (Inr pindex)
                    else fork_loop st vChain (pprev b)))"

definition FindFork :: "block_store \<Rightarrow> vchain \<Rightarrow> ptr \<Rightarrow> (fault + ptr option) option" where
  "FindFork st vChain p =
     (case st p of
        None \<Rightarrow> Some (Inl NullRead)
      | Some b \<Rightarrow> (case (if Height vChain < nHeight (blk b) then GetAncestor st p (Height vChain) else Inr (Some p)) of
          Inl e \<Rightarrow> Some (Inl e)
        | Inr pindex \<Rightarrow> fork_loop st vChain pindex))"

fun find_in_locator :: "block_store \<Rightarrow> vchain \<Rightarrow> (base_uint \<rightharpoonup> ptr) \<Rightarrow> base_uint list \<Rightarrow> fault + ptr option" where
  "find_in_locator st vChain mapBlockIndex [] = Inr (Genesis vChain)"
| "find_in_locator st vChain mapBlockIndex (hash # vHave) =
     (case mapBlockIndex hash of
        None \<Rightarrow> find_in_locator st vChain mapBlockIndex vHave
      | Some p \<Rightarrow> bindE (Contains st vChain p) (\<lambda>c.
          if c then Inr (Some p) else find_in_locator st vChain mapBlockIndex vHave))"

text \<open>\<^verbatim>\<open>LastCommonAncestor\<close> of two entries; the assertion is that they meet.\<close>

partial_function (option) common_loop :: "block_store \<Rightarrow> ptr option \<Rightarrow> ptr option \<Rightarrow> (fault + ptr option) option" where
  "common_loop st pa pb =
     (if pa = pb then Some (Inr pa)
      else case (pa, pb) of
        (Some a, Some b) \<Rightarrow> (case (st a, st b) of
          (Some na, Some nb) \<Rightarrow> common_loop st (pprev na) (pprev nb)
        | _ \<Rightarrow> Some (Inl NullRead))
      | _ \<Rightarrow> Some (Inl AssertFalse))"

definition LastCommonAncestor :: "block_store \<Rightarrow> ptr \<Rightarrow> ptr \<Rightarrow> (fault + ptr option) option" where
  "LastCommonAncestor st pa pb =
     (case (st pa, st pb) of
        (Some na, Some nb) \<Rightarrow>
          let ha = nHeight (blk na); hb = nHeight (blk nb)
          in (case (if hb < ha then GetAncestor st pa hb else Inr (Some pa)) of
                Inl e \<Rightarrow> Some (Inl e)
              | Inr a \<Rightarrow> (case (if ha < hb then GetAncestor st pb ha else Inr (Some pb)) of
                  Inl e \<Rightarrow> Some (Inl e)
                | Inr b \<Rightarrow> common_loop st a b))
      | _ \<Rightarrow> Some (Inl NullRead))"


section \<open>The reference walk and the invariant of the tree\<close>

fun up :: "block_store \<Rightarrow> nat \<Rightarrow> ptr \<Rightarrow> ptr option" where
  "up st 0 p = Some p"
| "up st (Suc n) p = (case st p of None \<Rightarrow> None | Some b \<Rightarrow> (case pprev b of None \<Rightarrow> None | Some q \<Rightarrow> up st n q))"

abbreviation hgt :: "CBlockNode \<Rightarrow> nat" where "hgt b \<equiv> nat (nHeight (blk b))"

text \<open>
  A node has a height, a predecessor one lower unless it is at height zero, and a skip pointer
  to its ancestor at \<^verbatim>\<open>GetSkipHeight\<close>.
\<close>

definition wf_node :: "block_store \<Rightarrow> ptr \<Rightarrow> CBlockNode \<Rightarrow> bool" where
  "wf_node st p b \<longleftrightarrow> 0 \<le> nHeight (blk b)
     \<and> (case pprev b of None \<Rightarrow> nHeight (blk b) = 0 | Some q \<Rightarrow> \<exists>b'. st q = Some b' \<and> nHeight (blk b) = nHeight (blk b') + 1)
     \<and> (0 < nHeight (blk b) \<longrightarrow> pskip b = up st (hgt b - GetSkipHeight (hgt b)) p)"

definition wf_store :: "block_store \<Rightarrow> bool" where
  "wf_store st \<longleftrightarrow> (\<forall>p b. st p = Some b \<longrightarrow> wf_node st p b)"

lemma wf_storeD: "wf_store st \<Longrightarrow> st p = Some b \<Longrightarrow> wf_node st p b"
  by (simp add: wf_store_def)

lemma wf_parent:
  assumes "wf_store st" and "st p = Some b" and "0 < hgt b"
  obtains q b' where "pprev b = Some q" "st q = Some b'" "hgt b = Suc (hgt b')"
proof -
  have w: "wf_node st p b" using assms(1,2) by (rule wf_storeD)
  then obtain q b' where q: "pprev b = Some q" "st q = Some b'" "nHeight (blk b) = nHeight (blk b') + 1"
    using assms(3) by (auto simp: wf_node_def split: option.splits)
  moreover have "0 \<le> nHeight (blk b')" using wf_storeD [OF assms(1) q(2)] by (simp add: wf_node_def)
  ultimately show ?thesis using that by simp
qed

lemma wf_root: "wf_store st \<Longrightarrow> st p = Some b \<Longrightarrow> hgt b = 0 \<Longrightarrow> pprev b = None"
  using wf_storeD [of st p b] by (auto simp: wf_node_def split: option.splits dest: wf_storeD)

lemma up_exists:
  "wf_store st \<Longrightarrow> st p = Some b \<Longrightarrow> n \<le> hgt b \<Longrightarrow> \<exists>q b'. up st n p = Some q \<and> st q = Some b' \<and> hgt b' = hgt b - n"
proof (induction n arbitrary: p b)
  case (Suc n)
  have "0 < hgt b" using Suc.prems(3) by linarith
  then obtain q b' where q: "pprev b = Some q" "st q = Some b'" "hgt b = Suc (hgt b')"
    by (rule wf_parent [OF Suc.prems(1,2)])
  then show ?case using Suc.IH [OF Suc.prems(1) q(2)] Suc.prems by simp
qed auto

lemma up_add: "up st (m + n) p = Option.bind (up st m p) (up st n)"
  by (induction st m p rule: up.induct) (auto split: option.splits)

lemma up_Suc: "up st n p = Some q \<Longrightarrow> st q = Some b \<Longrightarrow> up st (Suc n) p = pprev b"
  using up_add [of st n 1 p] by (auto split: option.splits)

lemma up_height:
  assumes "wf_store st" and "st p = Some b" and "n \<le> hgt b" and "up st n p = Some q"
  shows "\<exists>b'. st q = Some b' \<and> hgt b' = hgt b - n \<and> nHeight (blk b') = nHeight (blk b) - int n"
proof -
  obtain b' where "st q = Some b'" "hgt b' = hgt b - n" using up_exists [OF assms(1-3)] assms(4) by auto
  moreover have "0 \<le> nHeight (blk b)" "0 \<le> nHeight (blk b')"
    using wf_storeD [OF assms(1)] assms(2) calculation(1) by (auto simp: wf_node_def)
  ultimately show ?thesis using assms(3) by auto
qed

lemma up_map_le:
  "wf_store st \<Longrightarrow> st \<subseteq>\<^sub>m st' \<Longrightarrow> q \<in> dom st \<Longrightarrow> up st' n q = up st n q"
proof (induction n arbitrary: q)
  case (Suc n)
  then obtain c where c: "st q = Some c" by auto
  then have "st' q = Some c" using Suc.prems(2) by (metis domI map_le_def)
  moreover have "r \<in> dom st" if "pprev c = Some r" for r
    using wf_storeD [OF Suc.prems(1) c] that by (auto simp: wf_node_def)
  ultimately show ?case using Suc c by (auto split: option.split)
qed simp

text \<open>The loop on a store that extends a well-formed one follows the parent walk of the latter.\<close>

lemma ancestor_loop_spec:
  assumes "wf_store st" and "st \<subseteq>\<^sub>m st'" and "st p = Some b" and "w \<le> hgt b" and "height \<le> w"
  shows "ancestor_loop st' height (up st (hgt b - w) p) w = Inr (up st (hgt b - height) p)"
  using assms(4,5)
proof (induction w rule: less_induct)
  case (less w)
  show ?case
  proof (cases "height < w")
    case False
    then have "w = height" using less.prems by simp
    then show ?thesis by (subst ancestor_loop.simps) simp
  next
    case True
    obtain q b' where q: "up st (hgt b - w) p = Some q" "st q = Some b'" "hgt b' = w"
      using up_exists [OF assms(1,3), of "hgt b - w"] less.prems by auto
    have q': "st' q = Some b'" using q(2) assms(2) by (metis domI map_le_def)
    have w: "wf_node st q b'" using wf_storeD [OF assms(1) q(2)] .
    have sk: "GetSkipHeight w < w" using GetSkipHeight_less True by simp
    have "0 < nHeight (blk b')" using q(3) True by simp
    then have "pskip b' = up st (w - GetSkipHeight w) q" using w q(3) by (simp add: wf_node_def)
    also have "\<dots> = up st (hgt b - w + (w - GetSkipHeight w)) p" using up_add [of st "hgt b - w"] q(1) by simp
    finally have s: "pskip b' = up st (hgt b - GetSkipHeight w) p" using sk less.prems by simp
    have "pprev b' = up st (Suc (hgt b - w)) p" using up_Suc [OF q(1,2)] by simp
    then have pr: "pprev b' = up st (hgt b - (w - 1)) p" using True less.prems by (simp add: Suc_diff_le)
    let ?h = "GetSkipHeight w" and ?hp = "GetSkipHeight (w - 1)"
    show ?thesis
    proof (cases "?h = height \<or> (height < ?h \<and> \<not> (?hp + 2 < ?h \<and> height \<le> ?hp))")
      case follow: True
      then have "ancestor_loop st' height (pskip b') ?h = Inr (up st (hgt b - height) p)"
        unfolding s using less.IH [OF sk] sk less.prems by auto
      then show ?thesis using True follow q(1) q' by (subst ancestor_loop.simps) (simp add: Let_def)
    next
      case step: False
      have "ancestor_loop st' height (pprev b') (w - 1) = Inr (up st (hgt b - height) p)"
        unfolding pr using less.IH [of "w - 1"] True less.prems by auto
      then show ?thesis using True step q(1) q' by (subst ancestor_loop.simps) (auto simp: Let_def)
    qed
  qed
qed

lemma GetAncestor_le:
  assumes "wf_store st" and "st \<subseteq>\<^sub>m st'" and "st p = Some b"
  shows "GetAncestor st' p height = Inr (if 0 \<le> height \<and> height \<le> nHeight (blk b) then up st (hgt b - nat height) p else None)"
proof -
  have "st' p = Some b" using assms(2,3) by (metis domI map_le_def)
  then show ?thesis using ancestor_loop_spec [OF assms, of "hgt b" "nat height"] wf_storeD [OF assms(1,3)]
    by (auto simp: GetAncestor_def wf_node_def)
qed

lemmas GetAncestor_up = GetAncestor_le [OF _ map_le_refl]

section \<open>Growing the tree\<close>

lemma wf_node_map_le:
  assumes "wf_store st" and "st \<subseteq>\<^sub>m st'" and "st p = Some b"
  shows "wf_node st' p b"
proof -
  have "up st' n p = up st n p" for n using up_map_le [OF assms(1,2)] assms(3) by auto
  moreover have "st' q = Some c" if "st q = Some c" for q c using assms(2) that by (metis domI map_le_def)
  ultimately show ?thesis using wf_storeD [OF assms(1,3)] by (auto simp: wf_node_def split: option.splits)
qed

text \<open>A new entry below \<open>q\<close>, before and after its skip pointer is built.\<close>

lemma BuildSkip_wf:
  assumes "wf_store st" and "st p = None" and "st q = Some parent"
    and "pprev b = Some q" and "nHeight (blk b) = nHeight (blk parent) + 1"
  shows "\<exists>a. BuildSkip (st(p \<mapsto> b)) p = Inr (st(p \<mapsto> b\<lparr>pskip := a\<rparr>)) \<and> wf_store (st(p \<mapsto> b\<lparr>pskip := a\<rparr>))"
proof -
  let ?h = "Suc (hgt parent)"
  have h0: "0 \<le> nHeight (blk parent)" using wf_storeD [OF assms(1,3)] by (simp add: wf_node_def)
  have hb: "hgt b = ?h" using h0 assms(5) by (simp add: nat_add_distrib)
  have sk: "GetSkipHeight ?h \<le> hgt parent" using GetSkipHeight_less [of ?h] by simp
  define a where "a = up st (hgt parent - GetSkipHeight ?h) q"
  have le: "st \<subseteq>\<^sub>m st(p \<mapsto> c)" for c using assms(2) by (auto simp: map_le_def)
  have "GetAncestor (st(p \<mapsto> b)) q (int (GetSkipHeight ?h)) = Inr a"
    using GetAncestor_le [OF assms(1) le assms(3)] sk h0 by (simp add: a_def le_nat_iff)
  then have build: "BuildSkip (st(p \<mapsto> b)) p = Inr (st(p \<mapsto> b\<lparr>pskip := a\<rparr>))"
    using hb assms(4) by (simp add: BuildSkip_def)
  let ?st = "st(p \<mapsto> b\<lparr>pskip := a\<rparr>)"
  have "a = up ?st (?h - GetSkipHeight ?h) p"
  proof -
    have e: "?h - GetSkipHeight ?h = Suc (hgt parent - GetSkipHeight ?h)" using sk by (simp add: Suc_diff_le)
    have "up ?st n q = up st n q" for n using up_map_le [OF assms(1) le] assms(3) by auto
    then show ?thesis unfolding e using assms(4) by (simp add: a_def)
  qed
  then have "wf_node ?st p (b\<lparr>pskip := a\<rparr>)"
    using h0 hb assms(2-5) by (auto simp: wf_node_def)
  moreover have "wf_node ?st k c" if "k \<noteq> p" "?st k = Some c" for k c
    using wf_node_map_le [OF assms(1) le] that by auto
  ultimately have "wf_store ?st" by (auto simp: wf_store_def)
  with build show ?thesis by blast
qed

text \<open>Changing fields that are neither a height nor a pointer up keeps the tree.\<close>

lemma wf_store_update:
  assumes "wf_store st" and "st p = Some b" and "pprev c = pprev b" and "pskip c = pskip b" and "nHeight (blk c) = nHeight (blk b)"
  shows "wf_store (st(p \<mapsto> c))"
proof -
  have u: "up (st(p \<mapsto> c)) n q = up st n q" for n q
    by (induction n arbitrary: q) (use assms(2,3) in \<open>auto split: option.splits\<close>)
  have "wf_node (st(p \<mapsto> c)) k d" if k: "(st(p \<mapsto> c)) k = Some d" for k d
  proof -
    obtain d' where d': "st k = Some d'" "pprev d = pprev d'" "pskip d = pskip d'" "nHeight (blk d) = nHeight (blk d')"
      using k assms(2-5) by (cases "k = p") auto
    then show ?thesis using wf_storeD [OF assms(1) d'(1)] assms(2,5) u
      by (auto simp: wf_node_def split: option.splits)
  qed
  then show ?thesis by (simp add: wf_store_def)
qed

section \<open>The active chain is the path to its tip\<close>

definition path :: "block_store \<Rightarrow> ptr \<Rightarrow> nat \<Rightarrow> vchain" where
  "path st p h = map (\<lambda>i. up st (h - i) p) [0..<Suc h]"

definition chain_ok :: "block_store \<Rightarrow> vchain \<Rightarrow> bool" where
  "chain_ok st vChain \<longleftrightarrow> vChain = [] \<or> (\<exists>p b. st p = Some b \<and> vChain = path st p (hgt b))"

lemma length_path [simp]: "length (path st p h) = Suc h"
  by (simp add: path_def)

lemma path_nth [simp]: "i \<le> h \<Longrightarrow> path st p h ! i = up st (h - i) p"
  unfolding path_def by (subst nth_map) (auto simp del: upt_Suc)

lemma path_eqI: "length v = Suc h \<Longrightarrow> (\<And>i. i \<le> h \<Longrightarrow> v ! i = up st (h - i) p) \<Longrightarrow> v = path st p h"
  by (rule nth_equalityI) auto

lemma path_nonempty [simp]: "path st p h \<noteq> []"
  using length_path [of st p h] by force

text \<open>An entry of the vector has its own ancestors below it.\<close>

definition coherent :: "block_store \<Rightarrow> vchain \<Rightarrow> nat \<Rightarrow> bool" where
  "coherent st vChain n \<longleftrightarrow> (\<forall>i<n. \<forall>r. vChain ! i = Some r \<longrightarrow> (\<forall>j\<le>i. vChain ! j = up st (i - j) r))"

lemma coherent_resize:
  assumes "chain_ok st v"
  shows "coherent st (take n v @ replicate (n - length v) None) n"
proof (cases "v = []")
  case True
  then show ?thesis by (simp add: coherent_def)
next
  case False
  then obtain p b where v: "v = path st p (hgt b)" using assms by (auto simp: chain_ok_def)
  have e: "(take n v @ replicate (n - length v) None) ! i = (if i \<le> hgt b then up st (hgt b - i) p else None)" if "i < n" for i
    using that by (auto simp: v nth_append)
  have "up st (hgt b - j) p = up st (i - j) r" if "i \<le> hgt b" "j \<le> i" "up st (hgt b - i) p = Some r" for i j r
    using up_add [of st "hgt b - i" "i - j" p] that by simp
  then show ?thesis unfolding coherent_def by (auto simp: e split: if_splits)
qed

lemma set_tip_loop_path:
  assumes "wf_store st" and "st p = Some b"
  shows "length v = Suc (hgt b) \<Longrightarrow> w \<le> hgt b \<Longrightarrow> coherent st v (Suc w)
    \<Longrightarrow> (\<And>i. w < i \<Longrightarrow> i \<le> hgt b \<Longrightarrow> v ! i = up st (hgt b - i) p)
    \<Longrightarrow> set_tip_loop st (up st (hgt b - w) p) v = Some (Inr (path st p (hgt b)))"
proof (induction w arbitrary: v)
  case 0
  obtain q b' where q: "up st (hgt b) p = Some q" "st q = Some b'" "hgt b' = 0"
    using up_exists [OF assms, of "hgt b"] by auto
  have "0 \<le> nHeight (blk b')" using wf_storeD [OF assms(1) q(2)] by (simp add: wf_node_def)
  then have "nHeight (blk b') = 0" using q(3) by simp
  moreover have "v[0 := Some q] = path st p (hgt b)"
    using 0 q(1) by (intro path_eqI) (auto simp: nth_list_update)
  moreover have "v ! 0 = Some q \<Longrightarrow> v[0 := Some q] = v" by (metis list_update_id)
  ultimately show ?case using q wf_root [OF assms(1) q(2,3)] 0(1)
    by (auto simp: set_tip_loop.simps)
next
  case (Suc k)
  obtain q b' where q: "up st (hgt b - Suc k) p = Some q" "st q = Some b'" "hgt b' = Suc k"
    using up_exists [OF assms, of "hgt b - Suc k"] Suc.prems(2) by auto
  have h: "nHeight (blk b') = int (Suc k)" using q(3) by linarith
  have hb: "int (Suc k) \<le> nHeight (blk b)" using Suc.prems(2) by linarith
  have pr: "pprev b' = up st (hgt b - k) p"
    using up_Suc [OF q(1,2)] Suc.prems(2) by (simp add: Suc_diff_Suc)
  show ?case
  proof (cases "v ! Suc k = Some q")
    case True
    have "v ! j = up st (hgt b - j) p" if "j \<le> hgt b" for j
    proof (cases "Suc k < j")
      case False
      then have "v ! j = up st (Suc k - j) q" using Suc.prems(3) True by (auto simp: coherent_def)
      also have "\<dots> = up st (hgt b - j) p"
        using up_add [of st "hgt b - Suc k" "Suc k - j" p] q(1) False Suc.prems(2) by simp
      finally show ?thesis .
    qed (use Suc.prems(4) that in auto)
    then have "v = path st p (hgt b)" using Suc.prems(1) by (intro path_eqI)
    then show ?thesis using q True h hb Suc.prems by (simp add: set_tip_loop.simps)
  next
    case False
    have "set_tip_loop st (up st (hgt b - k) p) (v[Suc k := Some q]) = Some (Inr (path st p (hgt b)))"
    proof (rule Suc.IH)
      show "coherent st (v[Suc k := Some q]) (Suc k)"
        using Suc.prems(3) by (auto simp: coherent_def nth_list_update)
      show "(v[Suc k := Some q]) ! i = up st (hgt b - i) p" if "k < i" "i \<le> hgt b" for i
        using Suc.prems(1,2,4) q(1) that by (cases "i = Suc k") auto
    qed (use Suc.prems in auto)
    then show ?thesis using q False h hb Suc.prems pr by (subst set_tip_loop.simps) (simp add: nat_add_distrib)
  qed
qed

lemma SetTip_path_lemma:
  assumes "wf_store st" and "chain_ok st v" and "st p = Some b"
  shows "SetTip st v (Some p) = Some (Inr (path st p (hgt b)))"
proof -
  let ?n = "Suc (hgt b)"
  have n: "nat (nHeight (blk b) + 1) = ?n"
    using wf_storeD [OF assms(1,3)] by (simp add: wf_node_def nat_add_distrib)
  have "set_tip_loop st (up st (hgt b - hgt b) p) (take ?n v @ replicate (?n - length v) None) = Some (Inr (path st p (hgt b)))"
    using coherent_resize [OF assms(2), of ?n] by (intro set_tip_loop_path [OF assms(1,3)]) auto
  then show ?thesis using assms(3) by (simp add: SetTip_def Let_def n)
qed

section \<open>Locators\<close>

text \<open>The heights a locator names, from a height down to the genesis block.\<close>

function locator_heights :: "nat \<Rightarrow> nat \<Rightarrow> nat \<Rightarrow> nat list" where
  "locator_heights h n step =
     h # (if h = 0 \<or> step = 0 then [] else locator_heights (h - step) (Suc n) (if 10 < Suc n then 2 * step else step))"
  by pat_completeness auto
termination by (relation "measure (\<lambda>(h, n, step). h)") auto

declare locator_heights.simps [simp del]

definition hash_at :: "block_store \<Rightarrow> ptr \<Rightarrow> nat \<Rightarrow> base_uint" where
  "hash_at st p n = the (GetBlockHash (blk (the (st (the (up st n p))))))"

lemma at_height_path: "at_height (path st p h) (int n) = (if n \<le> h then up st (h - n) p else None)"
  by (simp add: at_height_def)

lemma chain_member:
  assumes "wf_store st" and "chain_ok st v" and "st q = Some b" and "at_height v (nHeight (blk b)) = Some q" and "m \<le> hgt b"
  shows "at_height v (int m) = up st (hgt b - m) q"
proof -
  have h0: "0 \<le> nHeight (blk b)" using wf_storeD [OF assms(1,3)] by (simp add: wf_node_def)
  have "v \<noteq> []" using assms(4) by (auto simp: at_height_def split: if_splits)
  then obtain p c where v: "st p = Some c" "v = path st p (hgt c)" using assms(2) by (auto simp: chain_ok_def)
  have h: "hgt b \<le> hgt c" and "up st (hgt c - hgt b) p = Some q"
    using assms(4) h0 at_height_path [of st p "hgt c" "hgt b"] by (auto simp: v(2) split: if_splits)
  then show ?thesis
    using up_add [of st "hgt c - hgt b" "hgt b - m" p] assms(5) unfolding v(2) at_height_path by simp
qed

lemma locator_loop_heights:
  assumes "wf_store st" and "chain_ok st v" and "\<And>q c. st q = Some c \<Longrightarrow> GetBlockHash (blk c) \<noteq> None" and "st p = Some b"
  shows "h \<le> hgt b \<Longrightarrow> n = length vHave \<Longrightarrow> 0 < step
    \<Longrightarrow> locator_loop st v (up st (hgt b - h) p) (int step) vHave
      = Some (Inr (vHave @ map (\<lambda>k. hash_at st p (hgt b - k)) (locator_heights h n step)))"
proof (induction h n step arbitrary: vHave rule: locator_heights.induct)
  case (1 h n step)
  obtain q c where q: "up st (hgt b - h) p = Some q" "st q = Some c" "hgt c = h"
    using up_exists [OF assms(1,4), of "hgt b - h"] 1(2) by auto
  have "0 \<le> nHeight (blk c)" using wf_storeD [OF assms(1) q(2)] by (simp add: wf_node_def)
  then have h: "nHeight (blk c) = int h" using q(3) by simp
  obtain hash where hash: "GetBlockHash (blk c) = Some hash" using assms(3) q(2) by auto
  then have hh: "hash = hash_at st p (hgt b - h)" using q by (simp add: hash_at_def)
  show ?case
  proof (cases "h = 0")
    case True
    then show ?thesis using q h hash hh by (simp add: locator_loop.simps locator_heights.simps)
  next
    case False
    have e: "up st (h - (h - step)) q = up st (hgt b - (h - step)) p"
      using up_add [of st "hgt b - h" "h - (h - step)" p] q(1) 1(2) by simp
    have m: "max (int h - int step) 0 = int (h - step)" by simp
    have a: "(if at_height v (nHeight (blk c)) = Some q then Inr (at_height v (int (h - step))) else GetAncestor st q (int (h - step)))
        = Inr (up st (hgt b - (h - step)) p)"
      using chain_member [OF assms(1,2) q(2), of "h - step"] GetAncestor_up [OF assms(1) q(2)] q(3) h e by simp
    have "locator_loop st v (up st (hgt b - h) p) (int step) vHave
        = locator_loop st v (up st (hgt b - (h - step)) p) (int (if 10 < Suc n then 2 * step else step)) (vHave @ [hash])"
      using False q(1,2) h hash 1(3) a by (subst locator_loop.simps) (simp add: Let_def m mult.commute)
    also have "\<dots> = Some (Inr ((vHave @ [hash]) @ map (\<lambda>k. hash_at st p (hgt b - k))
        (locator_heights (h - step) (Suc n) (if 10 < Suc n then 2 * step else step))))"
      using 1 False by (intro 1(1)) auto
    finally show ?thesis using False 1(4) hh by (subst locator_heights.simps) simp
  qed
qed

text \<open>Ten blocks one by one, then the gaps double.\<close>

lemma locator_heights_late:
  "10 \<le> n \<Longrightarrow> 0 < step \<Longrightarrow> h \<le> step * (2 ^ k - 1) \<Longrightarrow> length (locator_heights h n step) \<le> Suc k"
proof (induction k arbitrary: h n step)
  case 0
  then show ?case by (subst locator_heights.simps) simp
next
  case (Suc k)
  have "h - step \<le> 2 * step * (2 ^ k - 1)" using Suc.prems(3) by (simp add: algebra_simps)
  then have "length (locator_heights (h - step) (Suc n) (2 * step)) \<le> Suc k" using Suc.prems by (intro Suc.IH) auto
  then show ?case using Suc.prems(1) by (subst locator_heights.simps) simp
qed

lemma locator_heights_length:
  "n \<le> 10 \<Longrightarrow> h \<le> 2 ^ k - 1 + (10 - n) \<Longrightarrow> length (locator_heights h n 1) \<le> Suc k + (10 - n)"
proof (induction "10 - n" arbitrary: h n)
  case 0
  then show ?case using locator_heights_late [of n 1 h k] by simp
next
  case (Suc d)
  then have "length (locator_heights (h - 1) (Suc n) 1) \<le> Suc k + (10 - Suc n)" by (intro Suc.hyps) auto
  then show ?case using Suc.hyps(2) by (subst locator_heights.simps) auto
qed

lemma locator_heights_bound: "h < 2 ^ 30 \<Longrightarrow> length (locator_heights h 0 1) \<le> 41"
  using locator_heights_length [of 0 h 30] by simp

section \<open>Where two branches meet\<close>

lemma wf_height:
  assumes "wf_store st" and "st p = Some b"
  obtains n where "nHeight (blk b) = int n"
  using wf_storeD [OF assms] nonneg_int_cases by (auto simp: wf_node_def)

lemma set_path: "set (path st p h) = (\<lambda>m. up st m p) ` {0..h}"
proof -
  have "set (path st p h) = (\<lambda>i. up st (h - i) p) ` {0..h}" by (simp add: path_def atLeastLessThanSuc_atLeastAtMost del: upt_Suc)
  also have "\<dots> = (\<lambda>m. up st m p) ` ((\<lambda>i. h - i) ` {0..h})" by (simp add: image_image)
  also have "(\<lambda>i. h - i) ` {0..h} = {0..h}"
  proof -
    have "x \<in> (\<lambda>i. h - i) ` {0..h}" if "x \<le> h" for x using that by (intro image_eqI [of _ _ "h - x"]) auto
    then show ?thesis by auto
  qed
  finally show ?thesis .
qed

definition meeting :: "block_store \<Rightarrow> ptr \<Rightarrow> nat \<Rightarrow> vchain \<Rightarrow> nat \<Rightarrow> ptr option" where
  "meeting st p h v m = Option.bind (List.find (\<lambda>x. x \<in> set v) (map (\<lambda>i. up st i p) [m..<Suc h])) id"

lemma meeting_step: "m \<le> h \<Longrightarrow> meeting st p h v m = (if up st m p \<in> set v then up st m p else meeting st p h v (Suc m))"
  by (simp add: meeting_def upt_conv_Cons [of m "Suc h"] del: upt_Suc)

lemma meeting_end: "h < m \<Longrightarrow> meeting st p h v m = None"
  by (simp add: meeting_def)

lemma meeting_skip: "(\<And>i. i < m \<Longrightarrow> up st i p \<notin> set v) \<Longrightarrow> m \<le> Suc h \<Longrightarrow> meeting st p h v 0 = meeting st p h v m"
proof (induction m)
  case (Suc m)
  then show ?case using meeting_step [of m h st p v] by simp
qed simp

lemma on_path:
  assumes "wf_store st" and "st p = Some b" and "st t = Some c" and "m \<le> hgt b"
  shows "up st m p \<in> set (path st t (hgt c)) \<longleftrightarrow> hgt b - m \<le> hgt c \<and> up st m p = up st (hgt c - (hgt b - m)) t"
proof
  assume "up st m p \<in> set (path st t (hgt c))"
  then obtain k where k: "k \<le> hgt c" "up st m p = up st k t" by (auto simp: set_path)
  obtain q d where q: "up st m p = Some q" "st q = Some d" "hgt d = hgt b - m" using up_exists [OF assms(1,2,4)] by auto
  obtain d' where "st q = Some d'" "hgt d' = hgt c - k" using up_exists [OF assms(1,3) k(1)] k(2) q(1) by auto
  then have "hgt b - m = hgt c - k" using q by simp
  then show "hgt b - m \<le> hgt c \<and> up st m p = up st (hgt c - (hgt b - m)) t" using k by simp
qed (auto simp: set_path)

lemma at_height_member:
  assumes "wf_store st" and "st t = Some c" and "st q = Some d"
  shows "at_height (path st t (hgt c)) (nHeight (blk d)) = Some q \<longleftrightarrow> Some q \<in> set (path st t (hgt c))"
proof -
  have "nHeight (blk d) = int (hgt d)" using wf_storeD [OF assms(1,3)] by (simp add: wf_node_def)
  then show ?thesis using on_path [OF assms(1,3,2), of 0] at_height_path [of st t "hgt c" "hgt d"] by auto
qed

lemma fork_loop_meeting:
  assumes "wf_store st" and "st p = Some b" and "st t = Some c"
  shows "w \<le> hgt b \<Longrightarrow> fork_loop st (path st t (hgt c)) (up st (hgt b - w) p) = Some (Inr (meeting st p (hgt b) (path st t (hgt c)) (hgt b - w)))"
proof (induction w)
  case 0
  obtain q d where q: "up st (hgt b) p = Some q" "st q = Some d" "hgt d = 0" using up_exists [OF assms(1,2), of "hgt b"] by auto
  then show ?case using at_height_member [OF assms(1,3) q(2)] wf_root [OF assms(1) q(2,3)]
    by (auto simp: meeting_step meeting_end fork_loop.simps)
next
  case (Suc w)
  obtain q d where q: "up st (hgt b - Suc w) p = Some q" "st q = Some d" using up_exists [OF assms(1,2), of "hgt b - Suc w"] by auto
  have e: "Suc (hgt b - Suc w) = hgt b - w" using Suc.prems by (simp add: Suc_diff_Suc)
  have pr: "pprev d = up st (hgt b - w) p" using up_Suc [OF q] e by simp
  show ?case using at_height_member [OF assms(1,3) q(2)] q pr Suc e
    by (subst fork_loop.simps) (auto simp: meeting_step)
qed

lemma FindFork_meeting:
  assumes "wf_store st" and "st p = Some b" and "st t = Some c"
  shows "FindFork st (path st t (hgt c)) p = Some (Inr (meeting st p (hgt b) (path st t (hgt c)) 0))"
proof -
  obtain n m where h [simp]: "nHeight (blk b) = int n" "nHeight (blk c) = int m"
    using wf_height [OF assms(1,2)] wf_height [OF assms(1,3)] by metis
  have far: "up st i p \<notin> set (path st t m)" if "i < n - m" for i
    using on_path [OF assms, of i] that by auto
  show ?thesis
  proof (cases "m < n")
    case True
    then have "GetAncestor st p (int m) = Inr (up st (n - m) p)"
      by (simp add: GetAncestor_up [OF assms(1,2)])
    then show ?thesis
      using True fork_loop_meeting [OF assms, of m] meeting_skip [OF far, of "n - m" n] assms(2)
      by (simp add: FindFork_def Height_def)
  next
    case False
    then show ?thesis using fork_loop_meeting [OF assms, of n] assms(2) by (simp add: FindFork_def Height_def)
  qed
qed

lemma common_loop_meeting:
  assumes "wf_store st" and "st p = Some b" and "st t = Some c"
  shows "w \<le> hgt b \<Longrightarrow> w \<le> hgt c \<Longrightarrow> common_loop st (up st (hgt b - w) p) (up st (hgt c - w) t)
    = Some (Inr (meeting st p (hgt b) (path st t (hgt c)) (hgt b - w)))"
proof (induction w)
  case 0
  obtain q d where q: "up st (hgt b) p = Some q" "st q = Some d" "hgt d = 0" using up_exists [OF assms(1,2), of "hgt b"] by auto
  obtain q' d' where q': "up st (hgt c) t = Some q'" "st q' = Some d'" "hgt d' = 0" using up_exists [OF assms(1,3), of "hgt c"] by auto
  have "common_loop st None None = Some (Inr None)" by (simp add: common_loop.simps)
  then show ?case using on_path [OF assms, of "hgt b"] q q' wf_root [OF assms(1) q(2,3)] wf_root [OF assms(1) q'(2,3)]
    by (subst common_loop.simps) (auto simp: meeting_step meeting_end)
next
  case (Suc w)
  obtain q d where q: "up st (hgt b - Suc w) p = Some q" "st q = Some d" using up_exists [OF assms(1,2), of "hgt b - Suc w"] by auto
  obtain q' d' where q': "up st (hgt c - Suc w) t = Some q'" "st q' = Some d'" using up_exists [OF assms(1,3), of "hgt c - Suc w"] by auto
  have e: "Suc (hgt b - Suc w) = hgt b - w" "Suc (hgt c - Suc w) = hgt c - w" using Suc.prems by (auto simp: Suc_diff_Suc)
  have pr: "pprev d = up st (hgt b - w) p" "pprev d' = up st (hgt c - w) t" using up_Suc [OF q] up_Suc [OF q'] e by auto
  show ?case using on_path [OF assms, of "hgt b - Suc w"] q q' pr Suc e
    by (subst common_loop.simps) (auto simp: meeting_step)
qed

lemma LastCommonAncestor_meeting:
  assumes "wf_store st" and "st p = Some b" and "st t = Some c"
  shows "LastCommonAncestor st p t = Some (Inr (meeting st p (hgt b) (path st t (hgt c)) 0))"
proof -
  obtain n m where h [simp]: "nHeight (blk b) = int n" "nHeight (blk c) = int m"
    using wf_height [OF assms(1,2)] wf_height [OF assms(1,3)] by metis
  have far: "up st i p \<notin> set (path st t m)" if "i < n - m" for i
    using on_path [OF assms, of i] that by auto
  have a: "(if int m < int n then GetAncestor st p (int m) else Inr (Some p)) = Inr (up st (n - min n m) p)"
    by (simp add: GetAncestor_up [OF assms(1,2)] min_def)
  have t: "(if int n < int m then GetAncestor st t (int n) else Inr (Some t)) = Inr (up st (m - min n m) t)"
    by (simp add: GetAncestor_up [OF assms(1,3)] min_def)
  have "LastCommonAncestor st p t = common_loop st (up st (n - min n m) p) (up st (m - min n m) t)"
    using assms(2,3) unfolding LastCommonAncestor_def by (simp only: option.case prod.case Let_def h a t sum.case)
  also have "\<dots> = Some (Inr (meeting st p n (path st t m) (n - min n m)))"
    using common_loop_meeting [OF assms, of "min n m"] by simp
  also have "meeting st p n (path st t m) (n - min n m) = meeting st p n (path st t m) 0"
  proof (cases "m \<le> n")
    case True
    then show ?thesis using meeting_skip [OF far, of "n - m" n] by simp
  qed simp
  finally show ?thesis by simp
qed

lemma meeting_first:
  assumes "m \<le> h" and "k \<le> m" and "up st m p \<in> set v"
  shows "\<exists>i\<le>m. k \<le> i \<and> meeting st p h v k = up st i p \<and> meeting st p h v k \<in> set v"
  using assms(2)
proof (induction k rule: inc_induct)
  case base
  then show ?case using meeting_step [OF assms(1), of st p v] assms(3) by auto
next
  case (step k)
  show ?case
  proof (cases "up st k p \<in> set v")
    case True
    then show ?thesis using meeting_step [of k h st p v] assms(1) step.hyps by (intro exI [of _ k]) auto
  next
    case False
    then show ?thesis using meeting_step [of k h st p v] assms(1) step.hyps step.IH Suc_leD by fastforce
  qed
qed

lemma meeting_member: "meeting st p h v k = Some q \<Longrightarrow> Some q \<in> set v"
  by (auto simp: meeting_def bind_eq_Some_conv find_Some_iff)

section \<open>The properties\<close>

definition ex_index :: "int \<Rightarrow> nat \<Rightarrow> CBlockIndex" where
  "ex_index h n = ex_block h\<lparr>phashBlock := Some (uint256_of_u64 (word_of_nat n))\<rparr>"

definition ex_node :: "CBlockIndex \<Rightarrow> ptr option \<Rightarrow> ptr option \<Rightarrow> CBlockNode" where
  "ex_node b p s = \<lparr>blk = b, pprev = p, pskip = s, pnext = None, bnChainTrust = uint256_of_u64 0,
     prevoutStake = COutPoint_SetNull, nStakeTime = 0, idx_hashMerkleRoot = uint256_of_u64 0, idx_nNonce = 0\<rparr>"

lemma ex_node_simps [simp]: "blk (ex_node b p s) = b" "pprev (ex_node b p s) = p" "pskip (ex_node b p s) = s"
  by (simp_all add: ex_node_def)

text \<open>A genesis block 0, a chain 1, 2, 3 on it and a rival 4 of block 2.\<close>

definition ex_store :: block_store where
  "ex_store = [0 \<mapsto> ex_node (ex_index 0 0) None None,
     1 \<mapsto> ex_node (ex_index 1 1) (Some 0) (Some 0),
     2 \<mapsto> ex_node (ex_index 2 2) (Some 1) (Some 0),
     3 \<mapsto> ex_node (ex_index 3 3) (Some 2) (Some 1),
     4 \<mapsto> ex_node (ex_index 2 4) (Some 1) (Some 0)]"

lemma ex_skip: "GetSkipHeight (Suc 0) = 0" "GetSkipHeight 2 = 0" "GetSkipHeight 3 = 1"
  by (simp_all add: GetSkipHeight_def InvertLowestOne_def)

lemma ex_index_height [simp]: "nHeight (ex_index h n) = h" "GetBlockHash (ex_index h n) = Some (uint256_of_u64 (word_of_nat n))"
  by (simp_all add: ex_index_def ex_block_def GetBlockHash_def)

lemma ex_store_simps [simp]: "ex_store 0 = Some (ex_node (ex_index 0 0) None None)"
  "ex_store (Suc 0) = Some (ex_node (ex_index 1 1) (Some 0) (Some 0))"
  "ex_store 2 = Some (ex_node (ex_index 2 2) (Some 1) (Some 0))"
  by (simp_all add: ex_store_def)

lemma ex_store_at [simp]: "ex_store 3 = Some (ex_node (ex_index 3 3) (Some 2) (Some 1))"
  "ex_store 4 = Some (ex_node (ex_index 2 4) (Some 1) (Some 0))"
  by (simp_all add: ex_store_def)

lemma ex_up: "up ex_store 2 3 = Some 1" "up ex_store (Suc 0) 3 = Some 2" "up ex_store 3 3 = Some 0"
  "up ex_store (Suc 0) 4 = Some 1" "up ex_store 2 4 = Some 0" "up ex_store 2 2 = Some 0"
  by (simp_all add: eval_nat_numeral ex_store_def)

lemma ex_store_cases: "ex_store p = Some b \<Longrightarrow> p = 0 \<or> p = Suc 0 \<or> p = 2 \<or> p = 3 \<or> p = 4"
  by (auto simp: ex_store_def split: if_splits)

lemma ex_store_wf: "wf_store ex_store"
proof -
  have "wf_node ex_store p b" if "ex_store p = Some b" for p b
    using ex_store_cases [OF that] that by (auto simp: wf_node_def ex_skip ex_up)
  then show ?thesis by (simp add: wf_store_def)
qed

lemma ex_path: "path ex_store 3 3 = [Some 0, Some 1, Some 2, Some 3]" "path ex_store 4 2 = [Some 0, Some 1, Some 4]"
  by (simp_all add: path_def upt_rec ex_up)

text \<open>
  C11. Skip list against parent walk: on a well-formed tree \<^verbatim>\<open>GetAncestor\<close> meets no null
  pointer and returns, for every entry and every integer height, exactly the entry that walking
  \<^verbatim>\<open>pprev\<close> reaches at that height, which has that height, and \<^verbatim>\<open>NULL\<close>
  for a negative height or one above the entry.
\<close>

theorem GetAncestor_walks_parents:
  assumes "wf_store st" and "st p = Some b"
  shows "GetAncestor st p height =
      Inr (if 0 \<le> height \<and> height \<le> nHeight (blk b) then up st (nat (nHeight (blk b) - height)) p else None)
    \<and> (0 \<le> height \<and> height \<le> nHeight (blk b)
        \<longrightarrow> (\<exists>q c. GetAncestor st p height = Inr (Some q) \<and> st q = Some c \<and> nHeight (blk c) = height))"
proof -
  obtain n where n: "nHeight (blk b) = int n" using wf_height [OF assms] .
  have "nat (int n - height) = n - nat height" if "0 \<le> height" using that by linarith
  moreover have "\<exists>q c. up st (n - nat height) p = Some q \<and> st q = Some c \<and> nHeight (blk c) = height" if "0 \<le> height" "height \<le> int n"
    using up_exists [OF assms, of "n - nat height"] up_height [OF assms, of "n - nat height"] n that by fastforce
  ultimately show ?thesis by (auto simp: GetAncestor_up [OF assms] n)
qed

theorem GetAncestor_walks_parents_witness: "GetAncestor ex_store 3 1 = Inr (Some 1)"
  using GetAncestor_walks_parents [OF ex_store_wf ex_store_at(1), of 1] by (simp add: ex_up)

text \<open>
  C8. \<^verbatim>\<open>SetTip\<close> ends and leaves the active chain equal to the path from the genesis
  block to the new tip, whatever branch the chain was on before: the early stop at the first
  entry already in place never leaves a block of the old branch behind.
\<close>

theorem SetTip_yields_path:
  assumes "wf_store st" and "chain_ok st v" and "st p = Some b"
  shows "SetTip st v (Some p) = Some (Inr (path st p (nat (nHeight (blk b)))))
    \<and> chain_ok st (path st p (nat (nHeight (blk b)))) \<and> SetTip st v None = Some (Inr [])"
  using SetTip_path_lemma [OF assms] assms(3) by (auto simp: chain_ok_def SetTip_def)

theorem SetTip_yields_path_witness:
  "SetTip ex_store [Some 0, Some 1, Some 2, Some 3] (Some 4) = Some (Inr [Some 0, Some 1, Some 4])"
proof -
  have "chain_ok ex_store (path ex_store 3 (hgt (ex_node (ex_index 3 3) (Some 2) (Some 1))))"
    using ex_store_at(1) unfolding chain_ok_def by blast
  then show ?thesis using SetTip_yields_path [OF ex_store_wf _ ex_store_at(2)] by (simp add: ex_path)
qed

text \<open>
  \<^verbatim>\<open>GetLocator\<close> of an entry, on or off the active chain, ends and lists the
  hashes of its ancestors at the heights of the reference sequence: ten steps of one, then
  doubling steps, down to the genesis block. Below height \<open>2 ^ 30\<close> it has at most 41 hashes.
\<close>

theorem locator_exact:
  assumes "wf_store st" and "chain_ok st v" and "\<And>q c. st q = Some c \<Longrightarrow> GetBlockHash (blk c) \<noteq> None"
    and "st p = Some b" and "nHeight (blk b) < 2 ^ 30"
  shows "GetLocator st v (Some p)
      = Some (Inr (map (\<lambda>k. hash_at st p (nat (nHeight (blk b)) - k)) (locator_heights (nat (nHeight (blk b))) 0 1)))
    \<and> length (locator_heights (nat (nHeight (blk b))) 0 1) \<le> 41"
proof -
  obtain n where n: "nHeight (blk b) = int n" using wf_height [OF assms(1,4)] .
  then have "n < 2 ^ 30" using assms(5) by (metis of_nat_less_iff of_nat_numeral of_nat_power)
  then show ?thesis using locator_loop_heights [OF assms(1,2) _ assms(4), of n 0 "[]" 1] assms(3) locator_heights_bound [of n] n
    by (simp add: GetLocator_def)
qed

theorem locator_exact_witness:
  "GetLocator ex_store [] (Some 3) = Some (Inr (map (\<lambda>n. uint256_of_u64 n) [3, 2, 1, 0]))"
proof -
  have "GetBlockHash (blk c) \<noteq> None" if "ex_store q = Some c" for q c
    using that by (auto simp: ex_store_def split: if_splits)
  then show ?thesis using locator_exact [OF ex_store_wf _ _ ex_store_at(1), of "[]"]
    by (simp add: chain_ok_def locator_heights.simps hash_at_def ex_up)
qed

text \<open>
  \<^verbatim>\<open>FindFork\<close> of an entry on the active chain and \<^verbatim>\<open>LastCommonAncestor\<close>
  of the entry and the tip both end, meet no null pointer, never fail the assertion and return
  the same entry: the first block of the walk to the genesis block that is on the chain, if any.
\<close>

theorem fork_is_last_common_ancestor:
  assumes "wf_store st" and "st p = Some b" and "st t = Some c"
  shows "\<exists>r. FindFork st (path st t (nat (nHeight (blk c)))) p = Some (Inr r)
    \<and> LastCommonAncestor st p t = Some (Inr r)
    \<and> (r \<noteq> None \<longrightarrow> r \<in> set (path st t (nat (nHeight (blk c)))))
    \<and> (\<forall>m\<le>nat (nHeight (blk b)). up st m p \<in> set (path st t (nat (nHeight (blk c)))) \<longrightarrow> (\<exists>i\<le>m. r = up st i p))"
proof -
  let ?v = "path st t (hgt c)"
  have "\<exists>i\<le>m. meeting st p (hgt b) ?v 0 = up st i p" if "m \<le> hgt b" "up st m p \<in> set ?v" for m
    using meeting_first [OF that(1) _ that(2), of 0] by auto
  then show ?thesis using FindFork_meeting [OF assms] LastCommonAncestor_meeting [OF assms]
      meeting_member [of st p "hgt b" ?v 0] by auto
qed

theorem fork_is_last_common_ancestor_witness:
  "\<exists>r. FindFork ex_store [Some 0, Some 1, Some 2, Some 3] 4 = Some (Inr r) \<and> LastCommonAncestor ex_store 4 3 = Some (Inr r) \<and> r \<noteq> None"
proof -
  obtain r where "FindFork ex_store (path ex_store 3 3) 4 = Some (Inr r)" "LastCommonAncestor ex_store 4 3 = Some (Inr r)"
      and "\<forall>m\<le>2. up ex_store m 4 \<in> set (path ex_store 3 3) \<longrightarrow> (\<exists>i\<le>m. r = up ex_store i 4)"
    using fork_is_last_common_ancestor [OF ex_store_wf ex_store_at(2,1)] by auto
  moreover from this(3) have "\<exists>i\<le>1. r = up ex_store i 4" by (simp add: ex_path ex_up)
  ultimately show ?thesis by (auto simp: ex_path ex_up le_Suc_eq)
qed

end
