(* ===== verification/Kernel.thy ===== *)
theory Kernel
  imports Chain "HOL-Library.Product_Lexorder"
begin

text \<open>
  The proof-of-stake kernel (\<^verbatim>\<open>src/kernel.cpp\<close>): stake modifiers, the kernel hash and
  its target, and \<^verbatim>\<open>AddToBlockIndex\<close> of \<^verbatim>\<open>src/main.cpp\<close>, which links a
  block into the tree and gives it its modifier. The hash functions, the script verifier, the
  transaction index and the block files are the fields of an environment. An outcome of type
  \<open>(fault + 'a) option\<close> is \<open>None\<close> when the code does not return.
\<close>

record kernel_env =
  kernel_Hash :: "bytes \<Rightarrow> base_uint"
  kernel_params :: CChainParams
  kernel_GetHash :: "CBlockHeader \<Rightarrow> base_uint"
  kernel_HashGenesisBlock :: base_uint
  address_of_literal :: u64
  kernel_GetTransaction :: "base_uint \<Rightarrow> (CTransaction \<times> base_uint) option"
  kernel_VerifyScript :: "bytes \<Rightarrow> bytes \<Rightarrow> u32 \<Rightarrow> CTransaction \<Rightarrow> nat \<Rightarrow> bool"
  kernel_ReadBlock :: "CDiskBlockPos \<Rightarrow> CBlock option"

type_synonym BlockMap = "base_uint \<rightharpoonup> ptr"

section \<open>Selection intervals\<close>

definition fTestNet :: bool where "fTestNet = False"
definition MODIFIER_INTERVAL :: u32 where "MODIFIER_INTERVAL = 60"
definition MODIFIER_INTERVAL_TESTNET :: u32 where "MODIFIER_INTERVAL_TESTNET = 60"
definition MODIFIER_INTERVAL_RATIO :: int where "MODIFIER_INTERVAL_RATIO = 3"
definition nStakeMinAge :: u32 where "nStakeMinAge = 60 * 60"
definition mapStakeModifierCheckpoints :: "(int \<times> u32) list" where "mapStakeModifierCheckpoints = [(0, 0xfd11f4e7)]"

definition getIntervalVersion :: "bool \<Rightarrow> u32" where
  "getIntervalVersion testNet = (if testNet then MODIFIER_INTERVAL_TESTNET else MODIFIER_INTERVAL)"

abbreviation interval :: int where "interval \<equiv> int (unat (getIntervalVersion fTestNet))"

definition GetWeight :: "int \<Rightarrow> int \<Rightarrow> int" where
  "GetWeight nIntervalBeginning nIntervalEnd = nIntervalEnd - nIntervalBeginning - int (unat nStakeMinAge)"

definition GetStakeModifierSelectionIntervalSection :: "int \<Rightarrow> fault + int" where
  "GetStakeModifierSelectionIntervalSection nSection =
     (if 0 \<le> nSection \<and> nSection < 64
      then Inr (int (unat (getIntervalVersion fTestNet * 63 div word_of_int (63 + (63 - nSection) * (MODIFIER_INTERVAL_RATIO - 1)))))
      else Inl AssertFalse)"

fun selection_interval_loop :: "int list \<Rightarrow> int \<Rightarrow> fault + int" where
  "selection_interval_loop [] nSelectionInterval = Inr nSelectionInterval"
| "selection_interval_loop (nSection # ns) nSelectionInterval =
     bindE (GetStakeModifierSelectionIntervalSection nSection) (\<lambda>a. selection_interval_loop ns (nSelectionInterval + a))"

definition GetStakeModifierSelectionInterval :: "fault + int" where
  "GetStakeModifierSelectionInterval = selection_interval_loop [0..63] 0"

section \<open>The last generated modifier\<close>

partial_function (option) last_modifier_loop :: "block_store \<Rightarrow> ptr \<Rightarrow> (fault + CBlockNode) option" where
  "last_modifier_loop st p =
     (case st p of
        None \<Rightarrow> Some (Inl NullRead)
      | Some b \<Rightarrow> (case pprev b of
          None \<Rightarrow> Some (Inr b)
        | Some q \<Rightarrow> if GeneratedStakeModifier (blk b) then Some (Inr b) else last_modifier_loop st q))"

text \<open>The inner option is the Boolean of the code with the values it hands back.\<close>

definition GetLastStakeModifier :: "block_store \<Rightarrow> ptr option \<Rightarrow> (fault + (u64 \<times> int) option) option" where
  "GetLastStakeModifier st pindex =
     (case pindex of
        None \<Rightarrow> Some (Inr None)
      | Some p \<Rightarrow> map_option (\<lambda>r. bindE r (\<lambda>b.
          Inr (if GeneratedStakeModifier (blk b) then Some (nStakeModifier (blk b), GetBlockTime (blk b)) else None)))
            (last_modifier_loop st p))"

section \<open>Selecting blocks\<close>

definition deref_hash :: "CBlockIndex \<Rightarrow> fault + base_uint" where
  "deref_hash b = (case GetBlockHash b of None \<Rightarrow> Inl NullRead | Some h \<Rightarrow> Inr h)"

definition selection_hash :: "kernel_env \<Rightarrow> bool \<Rightarrow> u64 \<Rightarrow> CBlockIndex \<Rightarrow> base_uint \<Rightarrow> base_uint" where
  "selection_hash env fModifierV2 nStakeModifierPrev b hash =
     (let hashProof = (if fModifierV2 then hash else if IsProofOfStake b then uint256_of_u64 0 else hash);
          hashSelection = kernel_Hash env (ser_limbs hashProof @ le_bytes 8 (unat nStakeModifierPrev))
      in if IsProofOfStake b then shr hashSelection 32 else hashSelection)"

text \<open>
  The loop of \<^verbatim>\<open>SelectBlockFromCandidates\<close>. \<open>fFirst\<close> is \<open>None\<close> before the first
  block is seen and then the modifier version; \<open>best\<close> holds \<open>hashBest\<close> and the block selected
  so far. The result is \<open>None\<close> for the error return, else the selected block.
\<close>

fun select_loop :: "kernel_env \<Rightarrow> block_store \<Rightarrow> BlockMap \<Rightarrow> base_uint set \<Rightarrow> int \<Rightarrow> u64
    \<Rightarrow> bool option \<Rightarrow> (base_uint \<times> ptr) option \<Rightarrow> (int \<times> base_uint) list \<Rightarrow> fault + (base_uint \<times> ptr) option option" where
  "select_loop env st mapBlockIndex selected stop prev fFirst best [] = Inr (Some best)"
| "select_loop env st mapBlockIndex selected stop prev fFirst best (item # items) =
     (case mapBlockIndex (snd item) of
        None \<Rightarrow> Inr None
      | Some p \<Rightarrow> (case st p of
          None \<Rightarrow> Inl NullRead
        | Some b \<Rightarrow>
            if best \<noteq> None \<and> stop < GetBlockTime (blk b) then Inr (Some best)
            else let fModifierV2 = (case fFirst of None \<Rightarrow> ModifierUpgradeBlock (kernel_params env) \<le> nHeight (blk b) | Some v \<Rightarrow> v)
                 in bindE (deref_hash (blk b)) (\<lambda>hash.
                      if hash \<in> selected
                      then select_loop env st mapBlockIndex selected stop prev (Some fModifierV2) best items
                      else let hashSelection = selection_hash env fModifierV2 prev (blk b) hash;
                               best = (case best of
                                 None \<Rightarrow> Some (hashSelection, p)
                               | Some (hashBest, pBest) \<Rightarrow>
                                   if uint256_lt hashSelection hashBest then Some (hashSelection, p) else best)
                           in select_loop env st mapBlockIndex selected stop prev (Some fModifierV2) best items)))"

definition SelectBlockFromCandidates :: "kernel_env \<Rightarrow> block_store \<Rightarrow> BlockMap \<Rightarrow> (int \<times> base_uint) list \<Rightarrow> base_uint set
    \<Rightarrow> int \<Rightarrow> u64 \<Rightarrow> fault + ptr option" where
  "SelectBlockFromCandidates env st mapBlockIndex vSortedByTimestamp mapSelectedBlocks nSelectionIntervalStop nStakeModifierPrev =
     bindE (select_loop env st mapBlockIndex mapSelectedBlocks nSelectionIntervalStop nStakeModifierPrev None None vSortedByTimestamp)
       (\<lambda>r. Inr (Option.bind r (map_option snd)))"

section \<open>The next modifier\<close>

text \<open>Candidate blocks, newest first, and the rounds; the result of the rounds is \<open>None\<close> when one fails.\<close>

partial_function (option) candidate_loop :: "block_store \<Rightarrow> int \<Rightarrow> ptr option \<Rightarrow> (int \<times> base_uint) list \<Rightarrow> (fault + (int \<times> base_uint) list) option" where
  "candidate_loop st start pindex v =
     (case pindex of
        None \<Rightarrow> Some (Inr v)
      | Some p \<Rightarrow> (case st p of
          None \<Rightarrow> Some (Inl NullRead)
        | Some b \<Rightarrow>
            if start \<le> GetBlockTime (blk b)
            then (case deref_hash (blk b) of
                    Inl e \<Rightarrow> Some (Inl e)
                  | Inr hash \<Rightarrow> candidate_loop st start (pprev b) (v @ [(GetBlockTime (blk b), hash)]))
            else Some (Inr v)))"

fun modifier_rounds :: "kernel_env \<Rightarrow> block_store \<Rightarrow> BlockMap \<Rightarrow> (int \<times> base_uint) list \<Rightarrow> u64 \<Rightarrow> nat list
    \<Rightarrow> int \<Rightarrow> base_uint set \<Rightarrow> u64 \<Rightarrow> fault + u64 option" where
  "modifier_rounds env st mapBlockIndex v prev [] stop selected new = Inr (Some new)"
| "modifier_rounds env st mapBlockIndex v prev (nRound # rounds) stop selected new =
     bindE (GetStakeModifierSelectionIntervalSection (int nRound)) (\<lambda>a.
     bindE (SelectBlockFromCandidates env st mapBlockIndex v selected (stop + a) prev) (\<lambda>r.
       case r of
         None \<Rightarrow> Inr None
       | Some p \<Rightarrow> (case st p of
           None \<Rightarrow> Inl NullRead
         | Some b \<Rightarrow> bindE (deref_hash (blk b)) (\<lambda>hash.
             case GetStakeEntropyBit (blk b) of
               None \<Rightarrow> Inl NullRead
             | Some nEntropyBit \<Rightarrow> modifier_rounds env st mapBlockIndex v prev rounds (stop + a) (insert hash selected)
                 (new OR push_bit nRound nEntropyBit)))))"

text \<open>The Boolean returned, with the two output arguments as they are at that point.\<close>

definition ComputeNextStakeModifier :: "kernel_env \<Rightarrow> block_store \<Rightarrow> BlockMap \<Rightarrow> ptr option \<Rightarrow> (fault + bool \<times> u64 \<times> bool) option" where
  "ComputeNextStakeModifier env st mapBlockIndex pindexPrev =
     (case pindexPrev of
        None \<Rightarrow> Some (Inr (True, 0, True))
      | Some p \<Rightarrow> (case st p of
          None \<Rightarrow> Some (Inl NullRead)
        | Some b \<Rightarrow>
            if nHeight (blk b) = 0 then Some (Inr (True, address_of_literal env, True))
            else (case GetLastStakeModifier st pindexPrev of
                None \<Rightarrow> None
              | Some (Inl e) \<Rightarrow> Some (Inl e)
              | Some (Inr None) \<Rightarrow> Some (Inr (False, 0, False))
              | Some (Inr (Some (modifier, nModifierTime))) \<Rightarrow>
                  if GetBlockTime (blk b) div interval \<le> nModifierTime div interval
                  then Some (Inr (True, modifier, False))
                  else (case GetStakeModifierSelectionInterval of
                      Inl e \<Rightarrow> Some (Inl e)
                    | Inr nSelectionInterval \<Rightarrow>
                        let nSelectionIntervalStart = (GetBlockTime (blk b) div interval) * interval - nSelectionInterval
                        in (case candidate_loop st nSelectionIntervalStart pindexPrev [] of
                              None \<Rightarrow> None
                            | Some (Inl e) \<Rightarrow> Some (Inl e)
                            | Some (Inr v) \<Rightarrow>
                                let vSortedByTimestamp = sort_key (\<lambda>(t, h). (t, uval h)) (rev v)
                                in Some (bindE (modifier_rounds env st mapBlockIndex vSortedByTimestamp modifier
                                       [0..<min 64 (length vSortedByTimestamp)] nSelectionIntervalStart {} 0) (\<lambda>r.
                                     Inr (case r of None \<Rightarrow> (False, modifier, False) | Some m \<Rightarrow> (True, m, True)))))))))"

section \<open>The modifier of a kernel\<close>

partial_function (option) kernel_modifier_loop :: "block_store \<Rightarrow> vchain \<Rightarrow> int \<Rightarrow> ptr \<Rightarrow> ptr option \<Rightarrow> int \<Rightarrow> int
    \<Rightarrow> (fault + (u64 \<times> int \<times> int) option) option" where
  "kernel_modifier_loop st vChain until pindex pindexNext nStakeModifierHeight nStakeModifierTime =
     (if nStakeModifierTime < until
      then (case pindexNext of
          None \<Rightarrow> Some (Inr None)
        | Some p \<Rightarrow> (case st p of
            None \<Rightarrow> Some (Inl NullRead)
          | Some b \<Rightarrow> kernel_modifier_loop st vChain until p (at_height vChain (nHeight (blk b) + 1))
              (if GeneratedStakeModifier (blk b) then nHeight (blk b) else nStakeModifierHeight)
              (if GeneratedStakeModifier (blk b) then GetBlockTime (blk b) else nStakeModifierTime)))
      else (case st pindex of
          None \<Rightarrow> Some (Inl NullRead)
        | Some b \<Rightarrow> Some (Inr (Some (nStakeModifier (blk b), nStakeModifierHeight, nStakeModifierTime)))))"

definition GetKernelStakeModifier :: "block_store \<Rightarrow> BlockMap \<Rightarrow> vchain \<Rightarrow> base_uint \<Rightarrow> (fault + (u64 \<times> int \<times> int) option) option" where
  "GetKernelStakeModifier st mapBlockIndex vChain hashBlockFrom =
     (case mapBlockIndex hashBlockFrom of
        None \<Rightarrow> Some (Inr None)
      | Some p \<Rightarrow> (case st p of
          None \<Rightarrow> Some (Inl NullRead)
        | Some b \<Rightarrow> (case GetStakeModifierSelectionInterval of
            Inl e \<Rightarrow> Some (Inl e)
          | Inr nStakeModifierSelectionInterval \<Rightarrow>
              kernel_modifier_loop st vChain (GetBlockTime (blk b) + nStakeModifierSelectionInterval) p
                (at_height vChain (nHeight (blk b) + 1)) (nHeight (blk b)) (GetBlockTime (blk b)))))"

section \<open>The kernel hash\<close>

definition stakeHash :: "kernel_env \<Rightarrow> u32 \<Rightarrow> bytes \<Rightarrow> u32 \<Rightarrow> base_uint \<Rightarrow> u32 \<Rightarrow> base_uint" where
  "stakeHash env nTimeTx ss prevoutIndex prevoutHash nTimeBlockFrom =
     kernel_Hash env (ss @ ser_u32 nTimeBlockFrom @ ser_u32 prevoutIndex @ ser_limbs prevoutHash @ ser_u32 nTimeTx)"

definition stakeTargetHit :: "base_uint \<Rightarrow> int \<Rightarrow> base_uint \<Rightarrow> uint_error + bool" where
  "stakeTargetHit hashProof nValueIn bnTargetPerCoinDay =
     bindE (udiv (uint256_of_u64 (word_of_int nValueIn)) (uint256_of_u64 100)) (\<lambda>bnCoinDayWeight.
       Inr (uint256_lt hashProof (mul bnCoinDayWeight bnTargetPerCoinDay)))"

definition lift_uint :: "uint_error + 'a \<Rightarrow> fault + 'a" where
  "lift_uint r = (case r of Inl e \<Rightarrow> Inl (Threw_uint e) | Inr x \<Rightarrow> Inr x)"

text \<open>
  The search of the staking thread, while another thread may move the active chain:
  \<open>chainActive (Suc i)\<close> is the chain that iteration \<open>i\<close> sees. The result is the time found and the last kernel hash computed.
\<close>

fun kernel_search :: "kernel_env \<Rightarrow> (nat \<Rightarrow> vchain) \<Rightarrow> int \<Rightarrow> bytes \<Rightarrow> COutPoint \<Rightarrow> int \<Rightarrow> base_uint \<Rightarrow> u32 \<Rightarrow> u32 \<Rightarrow> u32
    \<Rightarrow> nat list \<Rightarrow> base_uint \<Rightarrow> fault + u32 option \<times> base_uint" where
  "kernel_search env chainActive nHeightStart ss out nValueIn target nTimeBlockFrom nTimeTx nHashDrift [] hashProof = Inr (None, hashProof)"
| "kernel_search env chainActive nHeightStart ss out nValueIn target nTimeBlockFrom nTimeTx nHashDrift (i # is) hashProof =
     (if Height (chainActive (Suc i)) \<noteq> nHeightStart then Inr (None, hashProof)
      else let nTryTime = nTimeTx + nHashDrift - of_nat i;
               hashProof = stakeHash env nTryTime ss (op_n out) (op_hash out) nTimeBlockFrom
           in bindE (lift_uint (stakeTargetHit hashProof nValueIn target)) (\<lambda>hit.
                if hit then Inr (Some nTryTime, hashProof)
                else kernel_search env chainActive nHeightStart ss out nValueIn target nTimeBlockFrom nTimeTx nHashDrift is hashProof))"

text \<open>
  \<^verbatim>\<open>CheckStakeKernelHash\<close>, on the active chain \<open>chainActive 0\<close>: the Boolean, \<open>nTimeTx\<close>, the kernel hash (\<open>None\<close> where
  the code leaves the caller's), and the block height that \<^verbatim>\<open>mapHashedBlocks\<close> is reset to.
\<close>

type_synonym kernel_result = "bool \<times> u32 \<times> base_uint option \<times> int option"

definition CheckStakeKernelHash :: "kernel_env \<Rightarrow> block_store \<Rightarrow> BlockMap \<Rightarrow> (nat \<Rightarrow> vchain) \<Rightarrow> u32 \<Rightarrow> CBlock \<Rightarrow> CTransaction
    \<Rightarrow> COutPoint \<Rightarrow> u32 \<Rightarrow> u32 \<Rightarrow> bool \<Rightarrow> base_uint \<Rightarrow> (fault + kernel_result) option" where
  "CheckStakeKernelHash env st mapBlockIndex chainActive nBitsIn blockFrom txPrev out nTimeTx nHashDrift fCheck hash0 =
     (if length (vout txPrev) \<le> unat (op_n out) then Some (Inl OutOfRange)
      else let nValueIn = nValue (vout txPrev ! unat (op_n out));
               nTimeBlockFrom = hdr_nTime (block_header blockFrom)
           in if nTimeTx < nTimeBlockFrom then Some (Inr (False, nTimeTx, None, None))
              else let bnTargetPerCoinDay = fst (SetCompact nBitsIn)
                   in (case GetKernelStakeModifier st mapBlockIndex (chainActive 0) (kernel_GetHash env (block_header blockFrom)) of
                         None \<Rightarrow> None
                       | Some (Inl e) \<Rightarrow> Some (Inl e)
                       | Some (Inr None) \<Rightarrow> Some (Inr (False, nTimeTx, None, None))
                       | Some (Inr (Some (modifier, _, _))) \<Rightarrow>
                           let ss = le_bytes 8 (unat modifier)
                           in Some (if fCheck
                                then (let hashProof = stakeHash env nTimeTx ss (op_n out) (op_hash out) nTimeBlockFrom
                                      in bindE (lift_uint (stakeTargetHit hashProof nValueIn bnTargetPerCoinDay))
                                           (\<lambda>hit. Inr (hit, nTimeTx, Some hashProof, None)))
                                else bindE (kernel_search env chainActive (Height (chainActive 0)) ss out nValueIn bnTargetPerCoinDay nTimeBlockFrom nTimeTx nHashDrift
                                       [0..<unat nHashDrift] hash0) (\<lambda>(found, hashProof).
                                     case Option.bind (at_height (chainActive (Suc (unat nHashDrift))) (Height (chainActive (Suc (unat nHashDrift))))) st of
                                       None \<Rightarrow> Inl NullRead
                                     | Some tip \<Rightarrow> Inr (found \<noteq> None, (case found of None \<Rightarrow> nTimeTx | Some t \<Rightarrow> t),
                                         Some hashProof, Some (nHeight (blk tip)))))))"

definition CheckProofOfStake :: "kernel_env \<Rightarrow> block_store \<Rightarrow> BlockMap \<Rightarrow> vchain \<Rightarrow> CBlock \<Rightarrow> (fault + bool \<times> base_uint option) option" where
  "CheckProofOfStake env st mapBlockIndex vChain block =
     (if length (vtx block) \<le> 1 then Some (Inl OutOfRange)
      else let tx = vtx block ! 1
           in if \<not> IsCoinStake tx then Some (Inr (False, None))
              else let txin = vin tx ! 0
                   in (case kernel_GetTransaction env (op_hash (prevout txin)) of
                         None \<Rightarrow> Some (Inr (False, None))
                       | Some (txPrev, hashFrom) \<Rightarrow>
                           if length (vout txPrev) \<le> unat (op_n (prevout txin)) then Some (Inl OutOfRange)
                           else if \<not> kernel_VerifyScript env (scriptSig txin) (scriptPubKey (vout txPrev ! unat (op_n (prevout txin))))
                                       STANDARD_SCRIPT_VERIFY_FLAGS tx 0 then Some (Inr (False, None))
                           else (case map_option st (mapBlockIndex hashFrom) of
                                   None \<Rightarrow> Some (Inr (False, None))
                                 | Some None \<Rightarrow> Some (Inl NullRead)
                                 | Some (Some b) \<Rightarrow> (case kernel_ReadBlock env (GetBlockPos (blk b)) of
                                     None \<Rightarrow> Some (Inr (False, None))
                                   | Some blockprev \<Rightarrow>
                                       map_option (\<lambda>r. bindE r (\<lambda>(hit, _, hash, _). Inr (hit, hash)))
                                         (CheckStakeKernelHash env st mapBlockIndex (\<lambda>_. vChain) (hdr_nBits (block_header block)) blockprev txPrev
                                            (prevout txin) (hdr_nTime (block_header block)) 0 True (uint256_of_u64 0))))))"

definition CheckCoinStakeTimestamp :: "int \<Rightarrow> int \<Rightarrow> bool" where
  "CheckCoinStakeTimestamp nTimeBlock nTimeTx \<longleftrightarrow> nTimeBlock = nTimeTx"

definition GetStakeModifierChecksum :: "kernel_env \<Rightarrow> block_store \<Rightarrow> CBlockNode \<Rightarrow> fault + u32" where
  "GetStakeModifierChecksum env st b =
     (if pprev b = None \<and> GetBlockHash (blk b) \<noteq> Some (kernel_HashGenesisBlock env)
      then (if GetBlockHash (blk b) = None then Inl NullRead else Inl AssertFalse)
      else bindE (case pprev b of None \<Rightarrow> Inr [] | Some q \<Rightarrow> (case st q of None \<Rightarrow> Inl NullRead | Some c \<Rightarrow> Inr (ser_u32 (nStakeModifierChecksum (blk c)))))
         (\<lambda>ss. Inr (ucast (Get64 0 (shr (kernel_Hash env (ss @ ser_u32 (nFlags (blk b)) @ ser_limbs (hashProofOfStake (blk b))
                  @ le_bytes 8 (unat (nStakeModifier (blk b))))) (256 - 32))))))"

definition CheckStakeModifierCheckpoints :: "int \<Rightarrow> u32 \<Rightarrow> bool" where
  "CheckStakeModifierCheckpoints h checksum =
     (if fTestNet then True
      else case map_of mapStakeModifierCheckpoints h of Some c \<Rightarrow> checksum = c | None \<Rightarrow> True)"

section \<open>Adding a block to the tree\<close>

record index_state =
  entries :: block_store
  mapBlockIndex :: BlockMap
  setStakeSeen :: "(COutPoint \<times> u32) set"
  mapProofOfStake :: "base_uint \<rightharpoonup> base_uint"
  pindexBestHeader :: "ptr option"
  setDirtyBlockIndex :: "ptr set"

definition BLOCK_VALID_TREE :: u32 where "BLOCK_VALID_TREE = 2"

text \<open>The constructor from a block; \<^verbatim>\<open>pnext\<close> is not initialised, \<open>uninit\<close> is what it holds.\<close>

definition CBlockIndex_of :: "CBlock \<Rightarrow> ptr option \<Rightarrow> CBlockNode" where
  "CBlockIndex_of block uninit =
     (let hdr = block_header block; stake = CBlock_IsProofOfStake block
      in \<lparr>blk = \<lparr>nHeight = 0, nTime = hdr_nTime hdr, nBits = hdr_nBits hdr, nFlags = (if stake then 0 OR BLOCK_PROOF_OF_STAKE else 0),
            nStatus = 0, nVersion = hdr_nVersion hdr, phashBlock = None, hashProofOfStake = uint256_of_u64 0,
            nStakeModifier = 0, nStakeModifierChecksum = 0, nMint = 0, nMoneySupply = 0, nChainWork = uint256_of_u64 0,
            nTx = 0, nChainTx = 0, nSequenceId = 0, nFile = 0, nDataPos = 0, nUndoPos = 0\<rparr>,
          pprev = None, pskip = None, pnext = uninit, bnChainTrust = uint256_of_u64 0,
          prevoutStake = (if stake then prevout (vin (vtx block ! 1) ! 0) else COutPoint_SetNull),
          nStakeTime = (if stake then hdr_nTime hdr else 0),
          idx_hashMerkleRoot = hashMerkleRoot hdr, idx_nNonce = nNonce hdr\<rparr>)"

text \<open>
  What \<^verbatim>\<open>AddToBlockIndex\<close> does with a block whose predecessor \<open>q\<close> is known: height,
  skip pointer and successor, then trust score, entropy bit, proof hash, stake modifier and its
  checksum.
\<close>

definition proof_hashes :: "index_state \<Rightarrow> base_uint \<Rightarrow> CBlockNode \<Rightarrow> base_uint \<rightharpoonup> base_uint" where
  "proof_hashes s hash b =
     (if IsProofOfStake (blk b) \<and> mapProofOfStake s hash = None
      then (mapProofOfStake s)(hash \<mapsto> uint256_of_u64 0) else mapProofOfStake s)"

definition stake_proof :: "index_state \<Rightarrow> base_uint \<Rightarrow> CBlockNode \<Rightarrow> CBlockNode" where
  "stake_proof s hash b =
     (if IsProofOfStake (blk b) then b\<lparr>blk := (blk b)\<lparr>hashProofOfStake := the (proof_hashes s hash b hash)\<rparr>\<rparr> else b)"

definition stake_fields :: "kernel_env \<Rightarrow> index_state \<Rightarrow> base_uint \<Rightarrow> ptr \<Rightarrow> ptr \<Rightarrow> block_store \<Rightarrow> CBlockNode \<Rightarrow> CBlockNode
    \<Rightarrow> (fault + index_state) option" where
  "stake_fields env s hash p q st prev b =
     (case (lift_uint (GetBlockTrust (blk b)), GetStakeEntropyBit (blk b)) of
        (Inl e, _) \<Rightarrow> Some (Inl e)
      | (_, None) \<Rightarrow> Some (Inl NullRead)
      | (Inr trust, Some nEntropyBit) \<Rightarrow>
          let b = b\<lparr>bnChainTrust := add (bnChainTrust prev) trust, blk := fst (SetStakeEntropyBit (blk b) (unat nEntropyBit))\<rparr>;
              proofs = proof_hashes s hash b;
              b = stake_proof s hash b;
              st = st(p \<mapsto> b)
          in (case ComputeNextStakeModifier env st (mapBlockIndex s) (Some q) of
                None \<Rightarrow> None
              | Some (Inl e) \<Rightarrow> Some (Inl e)
              | Some (Inr (ok, modifier, fGenerated)) \<Rightarrow>
                  let b = b\<lparr>blk := SetStakeModifier (blk b) modifier fGenerated\<rparr>
                  in Some (bindE (GetStakeModifierChecksum env st b) (\<lambda>checksum.
                       Inr (s\<lparr>entries := st(p \<mapsto> b\<lparr>blk := (blk b)\<lparr>nStakeModifierChecksum := checksum\<rparr>\<rparr>), mapProofOfStake := proofs\<rparr>)))))"

definition link_block :: "kernel_env \<Rightarrow> index_state \<Rightarrow> base_uint \<Rightarrow> ptr \<Rightarrow> ptr \<Rightarrow> (fault + index_state) option" where
  "link_block env s hash p q =
     (case (entries s p, entries s q) of
        (Some new, Some prev) \<Rightarrow>
          (case BuildSkip ((entries s)(p \<mapsto> new\<lparr>pprev := Some q, blk := (blk new)\<lparr>nHeight := nHeight (blk prev) + 1\<rparr>\<rparr>)) p of
             Inl e \<Rightarrow> Some (Inl e)
           | Inr st \<Rightarrow> (case st q of
               None \<Rightarrow> Some (Inl NullRead)
             | Some c \<Rightarrow> let st = st(q \<mapsto> c\<lparr>pnext := Some p\<rparr>)
                         in (case st p of None \<Rightarrow> Some (Inl NullRead) | Some b \<Rightarrow> stake_fields env s hash p q st c b)))
      | _ \<Rightarrow> Some (Inl NullRead))"

definition update_best_header :: "index_state \<Rightarrow> block_store \<Rightarrow> ptr \<Rightarrow> base_uint \<Rightarrow> fault + ptr option" where
  "update_best_header s st p work =
     (case pindexBestHeader s of
        None \<Rightarrow> Inr (Some p)
      | Some h \<Rightarrow> (case st h of None \<Rightarrow> Inl NullRead
          | Some c \<Rightarrow> Inr (if uint256_lt (nChainWork (blk c)) work then Some p else Some h)))"

text \<open>The end: total work, validity, best header, the successor of the predecessor.\<close>

definition finish_block :: "index_state \<Rightarrow> ptr \<Rightarrow> fault + index_state" where
  "finish_block s p =
     (case entries s p of
        None \<Rightarrow> Inl NullRead
      | Some b \<Rightarrow>
          bindE (case pprev b of None \<Rightarrow> Inr (uint256_of_u64 0)
                 | Some q \<Rightarrow> (case entries s q of None \<Rightarrow> Inl NullRead | Some c \<Rightarrow> Inr (nChainWork (blk c)))) (\<lambda>work.
          bindE (lift_uint (GetBlockProof (nBits (blk b)))) (\<lambda>proof.
          (case RaiseValidity ((blk b)\<lparr>nChainWork := add work proof\<rparr>) BLOCK_VALID_TREE of
             None \<Rightarrow> Inl AssertFalse
           | Some (bi, _) \<Rightarrow>
               bindE (update_best_header s ((entries s)(p \<mapsto> b\<lparr>blk := bi\<rparr>)) p (nChainWork bi)) (\<lambda>best.
               bindE (if nHeight bi \<noteq> 0
                      then (case pprev b of None \<Rightarrow> Inl NullRead
                            | Some q \<Rightarrow> (case ((entries s)(p \<mapsto> b\<lparr>blk := bi\<rparr>)) q of None \<Rightarrow> Inl NullRead
                                | Some c \<Rightarrow> Inr ((entries s)(p \<mapsto> b\<lparr>blk := bi\<rparr>, q \<mapsto> c\<lparr>pnext := Some p\<rparr>))))
                      else Inr ((entries s)(p \<mapsto> b\<lparr>blk := bi\<rparr>))) (\<lambda>st.
               Inr (s\<lparr>entries := st, pindexBestHeader := best, setDirtyBlockIndex := insert p (setDirtyBlockIndex s)\<rparr>)))))))"

text \<open>\<open>p\<close> is the address that \<^verbatim>\<open>new\<close> returns.\<close>

definition AddToBlockIndex :: "kernel_env \<Rightarrow> index_state \<Rightarrow> CBlock \<Rightarrow> ptr \<Rightarrow> ptr option \<Rightarrow> (fault + ptr \<times> index_state) option" where
  "AddToBlockIndex env s block p uninit =
     (let hash = kernel_GetHash env (block_header block)
      in case mapBlockIndex s hash of
           Some it \<Rightarrow> Some (Inr (it, s))
         | None \<Rightarrow>
             let b = CBlockIndex_of block uninit;
                 seen = (if IsProofOfStake (blk b) then insert (prevoutStake b, nStakeTime b) (setStakeSeen s) else setStakeSeen s);
                 b = b\<lparr>blk := (blk b)\<lparr>nSequenceId := 0, phashBlock := Some hash\<rparr>\<rparr>;
                 s = s\<lparr>entries := (entries s)(p \<mapsto> b), mapBlockIndex := (mapBlockIndex s)(hash \<mapsto> p), setStakeSeen := seen\<rparr>
             in (case (case mapBlockIndex s (hashPrevBlock (block_header block)) of
                         None \<Rightarrow> Some (Inr s)
                       | Some q \<Rightarrow> link_block env s hash p q) of
                   None \<Rightarrow> None
                 | Some r \<Rightarrow> Some (bindE r (\<lambda>s. bindE (finish_block s p) (\<lambda>s. Inr (p, s))))))"

section \<open>The selection interval\<close>

lemma interval_value [simp]: "unat (getIntervalVersion fTestNet) = 60"
  by (simp add: getIntervalVersion_def fTestNet_def MODIFIER_INTERVAL_def)

lemma section_value:
  assumes "0 \<le> n" and "n < 64"
  shows "GetStakeModifierSelectionIntervalSection n = Inr (3780 div (189 - 2 * n))"
proof -
  have d: "63 + (63 - n) * (MODIFIER_INTERVAL_RATIO - 1) = 189 - 2 * n"
    by (simp add: MODIFIER_INTERVAL_RATIO_def)
  have "uint (word_of_int (189 - 2 * n) :: u32) = 189 - 2 * n" using assms unfolding uint_word_of_int by simp
  then have "int (unat (getIntervalVersion fTestNet * 63 div word_of_int (189 - 2 * n) :: u32)) = 3780 div (189 - 2 * n)"
    by (simp only: uint_nat [symmetric] uint_div) (simp add: getIntervalVersion_def fTestNet_def MODIFIER_INTERVAL_def)
  then show ?thesis using assms by (simp only: GetStakeModifierSelectionIntervalSection_def d) simp
qed

lemma GetStakeModifierSelectionInterval_value: "GetStakeModifierSelectionInterval = Inr 2087"
  by (simp add: GetStakeModifierSelectionInterval_def upto_rec1 section_value)

section \<open>Walking back\<close>

definition indexed :: "block_store \<Rightarrow> BlockMap \<Rightarrow> bool" where
  "indexed st m \<longleftrightarrow> (\<forall>h p. m h = Some p \<longrightarrow> (\<exists>b. st p = Some b \<and> phashBlock (blk b) = Some h))
     \<and> (\<forall>p b. st p = Some b \<longrightarrow> (\<exists>h. phashBlock (blk b) = Some h \<and> m h = Some p))"

lemma indexed_node: "indexed st m \<Longrightarrow> st p = Some b \<Longrightarrow> \<exists>h. phashBlock (blk b) = Some h \<and> m h = Some p"
  by (simp add: indexed_def)

lemma indexed_lookup: "indexed st m \<Longrightarrow> m h = Some p \<Longrightarrow> \<exists>b. st p = Some b \<and> phashBlock (blk b) = Some h"
  unfolding indexed_def by blast

text \<open>Some block on the way back generated a modifier.\<close>

definition has_modifier :: "block_store \<Rightarrow> ptr \<Rightarrow> bool" where
  "has_modifier st p \<longleftrightarrow> (\<exists>n r c. up st n p = Some r \<and> st r = Some c \<and> GeneratedStakeModifier (blk c))"

lemma last_modifier_loop_first:
  assumes "wf_store st"
  shows "up st n p = Some r \<Longrightarrow> st r = Some c \<Longrightarrow> GeneratedStakeModifier (blk c)
    \<Longrightarrow> \<exists>i\<le>n. \<exists>r' c'. up st i p = Some r' \<and> st r' = Some c' \<and> GeneratedStakeModifier (blk c')
        \<and> last_modifier_loop st p = Some (Inr c')
        \<and> (\<forall>j<i. \<forall>r'' c''. up st j p = Some r'' \<longrightarrow> st r'' = Some c'' \<longrightarrow> \<not> GeneratedStakeModifier (blk c''))"
proof (induction n arbitrary: p)
  case 0
  then show ?case by (intro exI [of _ 0]) (auto simp: last_modifier_loop.simps split: option.split)
next
  case (Suc n)
  then obtain b q where b: "st p = Some b" "pprev b = Some q" "up st n q = Some r" by (auto split: option.splits)
  show ?case
  proof (cases "GeneratedStakeModifier (blk b)")
    case True
    then show ?thesis using b by (intro exI [of _ 0]) (auto simp: last_modifier_loop.simps)
  next
    case False
    obtain i r' c' where i: "i \<le> n" "up st i q = Some r'" "st r' = Some c'" "GeneratedStakeModifier (blk c')"
        "last_modifier_loop st q = Some (Inr c')"
        "\<forall>j<i. \<forall>r'' c''. up st j q = Some r'' \<longrightarrow> st r'' = Some c'' \<longrightarrow> \<not> GeneratedStakeModifier (blk c'')"
      using Suc.IH [OF b(3) Suc.prems(2,3)] by blast
    have "\<forall>j<Suc i. \<forall>r'' c''. up st j p = Some r'' \<longrightarrow> st r'' = Some c'' \<longrightarrow> \<not> GeneratedStakeModifier (blk c'')"
    proof (intro allI impI)
      fix j r'' c'' assume "j < Suc i" "up st j p = Some r''" "st r'' = Some c''"
      then show "\<not> GeneratedStakeModifier (blk c'')" using b False i(6) by (cases j) auto
    qed
    then show ?thesis using i b False by (intro exI [of _ "Suc i"] conjI exI [of _ r'] exI [of _ c'])
        (auto simp: last_modifier_loop.simps [of st p])
  qed
qed

text \<open>The entries from \<open>p\<close> down to its root, for \<open>p\<close> at height \<open>n\<close>.\<close>

fun lineage :: "block_store \<Rightarrow> nat \<Rightarrow> ptr \<Rightarrow> ptr list" where
  "lineage st 0 p = [p]"
| "lineage st (Suc n) p = p # (case Option.bind (st p) pprev of None \<Rightarrow> [] | Some q \<Rightarrow> lineage st n q)"

abbreviation time_of :: "block_store \<Rightarrow> ptr \<Rightarrow> int" where
  "time_of st p \<equiv> GetBlockTime (blk (the (st p)))"

abbreviation hash_of :: "block_store \<Rightarrow> ptr \<Rightarrow> base_uint" where
  "hash_of st p \<equiv> the (phashBlock (blk (the (st p))))"

lemma lineage_entries:
  assumes "wf_store st"
  shows "st p = Some b \<Longrightarrow> hgt b = n \<Longrightarrow> distinct (lineage st n p) \<and> (\<forall>q\<in>set (lineage st n p). \<exists>c. st q = Some c \<and> hgt c \<le> n)"
proof (induction n arbitrary: p b)
  case (Suc n)
  have "0 < hgt b" using Suc.prems(2) by simp
  then obtain q c where q: "pprev b = Some q" "st q = Some c" "hgt b = Suc (hgt c)"
    by (rule wf_parent [OF assms Suc.prems(1)])
  then have "distinct (lineage st n q) \<and> (\<forall>r\<in>set (lineage st n q). \<exists>c. st r = Some c \<and> hgt c \<le> n)"
    using Suc.IH [OF q(2)] Suc.prems by simp
  then show ?case using Suc.prems q(1) by fastforce
qed auto

definition candidates :: "block_store \<Rightarrow> int \<Rightarrow> nat \<Rightarrow> ptr \<Rightarrow> ptr list" where
  "candidates st start n p = takeWhile (\<lambda>q. start \<le> time_of st q) (lineage st n p)"

lemma deref_hash_indexed: "indexed st m \<Longrightarrow> st p = Some b \<Longrightarrow> deref_hash (blk b) = Inr (hash_of st p)"
  using indexed_node [of st m p b] by (auto simp: deref_hash_def GetBlockHash_def)

lemma candidate_loop_lineage:
  assumes "wf_store st" and "indexed st m"
  shows "st p = Some b \<Longrightarrow> hgt b = n
    \<Longrightarrow> candidate_loop st start (Some p) v = Some (Inr (v @ map (\<lambda>q. (time_of st q, hash_of st q)) (candidates st start n p)))"
proof (induction n arbitrary: p b v)
  case 0
  have "pprev b = None" using wf_root [OF assms(1) 0] .
  moreover have "candidate_loop st start None w = Some (Inr w)" for w by (simp add: candidate_loop.simps)
  ultimately show ?case using 0 deref_hash_indexed [OF assms(2) 0(1)]
    by (subst candidate_loop.simps) (simp add: candidates_def)
next
  case (Suc n)
  have "0 < hgt b" using Suc.prems(2) by simp
  then obtain q c where q: "pprev b = Some q" "st q = Some c" "hgt b = Suc (hgt c)"
    by (rule wf_parent [OF assms(1) Suc.prems(1)])
  then show ?case using Suc.IH [OF q(2)] Suc.prems deref_hash_indexed [OF assms(2) Suc.prems(1)]
    by (subst candidate_loop.simps) (simp add: candidates_def)
qed

section \<open>The rounds\<close>

definition listed :: "block_store \<Rightarrow> BlockMap \<Rightarrow> (int \<times> base_uint) list \<Rightarrow> bool" where
  "listed st m items \<longleftrightarrow> (\<forall>item\<in>set items. \<exists>p b. m (snd item) = Some p \<and> st p = Some b \<and> phashBlock (blk b) = Some (snd item))"

lemma select_loop_ok:
  "listed st m items \<Longrightarrow> \<exists>best'. select_loop env st m selected stop prev fFirst best items = Inr (Some best')
     \<and> (best \<noteq> None \<or> (\<exists>item\<in>set items. snd item \<notin> selected) \<longrightarrow> best' \<noteq> None)
     \<and> (\<forall>x q. best' = Some (x, q) \<longrightarrow> best = Some (x, q) \<or> (\<exists>item\<in>set items. snd item \<notin> selected \<and> m (snd item) = Some q))"
proof (induction items arbitrary: fFirst best)
  case (Cons item items)
  obtain p b where p: "m (snd item) = Some p" "st p = Some b" "phashBlock (blk b) = Some (snd item)"
    using Cons.prems by (auto simp: listed_def)
  have d: "deref_hash (blk b) = Inr (snd item)" by (simp add: deref_hash_def GetBlockHash_def p(3))
  have l: "listed st m items" using Cons.prems by (simp add: listed_def)
  let ?v = "case fFirst of None \<Rightarrow> ModifierUpgradeBlock (kernel_params env) \<le> nHeight (blk b) | Some v \<Rightarrow> v"
  let ?h = "selection_hash env ?v prev (blk b) (snd item)"
  let ?best = "case best of None \<Rightarrow> Some (?h, p) | Some (hashBest, pBest) \<Rightarrow> if uint256_lt ?h hashBest then Some (?h, p) else best"
  show ?case
  proof (cases "best \<noteq> None \<and> stop < GetBlockTime (blk b)")
    case True
    then show ?thesis using p by auto
  next
    case go: False
    show ?thesis
    proof (cases "snd item \<in> selected")
      case True
      then show ?thesis using Cons.IH [OF l, of "Some ?v" best] go p d by (auto simp: Let_def)
    next
      case False
      have n: "?best \<noteq> None" by (auto split: option.split)
      have m: "best = Some (x, q) \<or> q = p" if "?best = Some (x, q)" for x q
        using that by (auto split: option.splits if_splits)
      have e: "select_loop env st m selected stop prev fFirst best (item # items)
          = select_loop env st m selected stop prev (Some ?v) ?best items"
        using go False p d by (cases best) (auto simp: Let_def)
      obtain best' where b': "select_loop env st m selected stop prev (Some ?v) ?best items = Inr (Some best')" "best' \<noteq> None"
          "\<forall>x q. best' = Some (x, q) \<longrightarrow> ?best = Some (x, q) \<or> (\<exists>item\<in>set items. snd item \<notin> selected \<and> m (snd item) = Some q)"
        using Cons.IH [OF l, of "Some ?v" ?best] n by blast
      have "\<forall>x q. best' = Some (x, q) \<longrightarrow> best = Some (x, q) \<or> (\<exists>item\<in>set (item # items). snd item \<notin> selected \<and> m (snd item) = Some q)"
        using b'(3) m False p(1) by (metis list.set_intros(1,2))
      then show ?thesis unfolding e using b'(1,2) by blast
    qed
  qed
qed simp

lemma Select_ok:
  assumes "listed st m items" and "item \<in> set items" and "snd item \<notin> selected"
  shows "\<exists>p item'. SelectBlockFromCandidates env st m items selected stop prev = Inr (Some p)
    \<and> item' \<in> set items \<and> snd item' \<notin> selected \<and> m (snd item') = Some p"
proof -
  obtain best where "select_loop env st m selected stop prev None None items = Inr (Some best)" "best \<noteq> None"
      "\<forall>x q. best = Some (x, q) \<longrightarrow> (\<exists>item\<in>set items. snd item \<notin> selected \<and> m (snd item) = Some q)"
    using select_loop_ok [OF assms(1), of env selected stop prev None None] assms(2,3) by auto
  moreover from this obtain x q where "best = Some (x, q)" by auto
  ultimately show ?thesis by (simp add: SelectBlockFromCandidates_def del: split_paired_Ex) blast
qed

definition entropy_bit :: "block_store \<Rightarrow> ptr \<Rightarrow> bool" where
  "entropy_bit st p \<longleftrightarrow> bit (Get64 0 (hash_of st p)) 0"

lemma hash_of_inj:
  assumes "indexed st m" and "p \<in> dom st" and "q \<in> dom st" and "hash_of st p = hash_of st q"
  shows "p = q"
proof -
  obtain b c where "st p = Some b" "st q = Some c" using assms(2,3) by auto
  then show ?thesis using indexed_node [OF assms(1), of p b] indexed_node [OF assms(1), of q c] assms(4) by auto
qed

lemma listed_candidates:
  assumes "indexed st m" and "set cs \<subseteq> dom st" and "set items = (\<lambda>q. (time_of st q, hash_of st q)) ` set cs"
  shows "listed st m items"
proof -
  have "\<exists>p b. m (hash_of st q) = Some p \<and> st p = Some b \<and> phashBlock (blk b) = Some (hash_of st q)" if "q \<in> set cs" for q
  proof -
    have "q \<in> dom st" using assms(2) that by auto
    then obtain b where "st q = Some b" by auto
    then show ?thesis using indexed_node [OF assms(1), of q b] by auto
  qed
  then show ?thesis using assms(3) by (auto simp: listed_def)
qed

lemma modifier_rounds_ok:
  assumes idx: "indexed st m" and cs: "distinct cs" "set cs \<subseteq> dom st"
    and items: "set items = (\<lambda>q. (time_of st q, hash_of st q)) ` set cs"
    and n: "n \<le> 64" "n \<le> length cs"
  shows "distinct ps \<Longrightarrow> set ps \<subseteq> set cs \<Longrightarrow> length ps = k \<Longrightarrow> k \<le> n \<Longrightarrow>
    \<exists>qs m'. modifier_rounds env st m items prev [k..<n] stop (hash_of st ` set ps) new = Inr (Some m')
      \<and> length qs = n - k \<and> distinct (ps @ qs) \<and> set qs \<subseteq> set cs
      \<and> (\<forall>i<64. bit m' i \<longleftrightarrow> bit new i \<or> (k \<le> i \<and> i < n \<and> entropy_bit st ((ps @ qs) ! i)))"
proof (induction "n - k" arbitrary: k ps stop new)
  case 0
  then show ?case by (intro exI [of _ "[]"]) auto
next
  case (Suc d)
  have kn: "k < n" using Suc.hyps(2) by simp
  have "card (set ps) < card (set cs)" using Suc.prems(1,3) cs(1) kn n(2) by (simp add: distinct_card)
  then obtain q0 where q0: "q0 \<in> set cs" "q0 \<notin> set ps" by (metis card_mono finite_set leD subsetI)
  have fresh: "hash_of st q \<in> hash_of st ` set ps \<longleftrightarrow> q \<in> set ps" if "q \<in> set cs" for q
    using that Suc.prems(2) cs(2) hash_of_inj [OF idx] by (auto simp: image_iff) blast
  let ?item = "(time_of st q0, hash_of st q0)"
  have "?item \<in> set items" using items q0(1) by simp
  moreover have "snd ?item \<notin> hash_of st ` set ps" using fresh [OF q0(1)] q0(2) by simp
  ultimately obtain p item where p: "SelectBlockFromCandidates env st m items (hash_of st ` set ps) (stop + 3780 div (189 - 2 * int k)) prev = Inr (Some p)"
      "item \<in> set items" "snd item \<notin> hash_of st ` set ps" "m (snd item) = Some p"
    using Select_ok [OF listed_candidates [OF idx cs(2) items]] by blast
  obtain q where q: "q \<in> set cs" "item = (time_of st q, hash_of st q)" using p(2) items by auto
  obtain b where b: "st q = Some b" using q(1) cs(2) by auto
  have pq: "p = q" using p(4) q(2) indexed_node [OF idx b] b by auto
  have q_new: "q \<notin> set ps" using p(3) q fresh by simp
  have e: "GetStakeEntropyBit (blk b) = Some (Get64 0 (hash_of st q) AND 1)"
    using indexed_node [OF idx b] b by (auto simp: GetStakeEntropyBit_def GetBlockHash_def)
  let ?new = "new OR push_bit k (Get64 0 (hash_of st q) AND 1)"
  have ins: "insert (hash_of st q) (hash_of st ` set ps) = hash_of st ` set (ps @ [q])" by auto
  obtain qs m' where ih: "modifier_rounds env st m items prev [Suc k..<n] (stop + 3780 div (189 - 2 * int k)) (hash_of st ` set (ps @ [q])) ?new = Inr (Some m')"
      "length qs = n - Suc k" "distinct ((ps @ [q]) @ qs)" "set qs \<subseteq> set cs"
      "\<forall>i<64. bit m' i \<longleftrightarrow> bit ?new i \<or> (Suc k \<le> i \<and> i < n \<and> entropy_bit st (((ps @ [q]) @ qs) ! i))"
  proof -
    have "d = n - Suc k" "distinct (ps @ [q])" "set (ps @ [q]) \<subseteq> set cs" "length (ps @ [q]) = Suc k" "Suc k \<le> n"
      using Suc.hyps(2) Suc.prems q(1) q_new kn by auto
    then show ?thesis using Suc.hyps(1) [of "Suc k" "ps @ [q]" "stop + 3780 div (189 - 2 * int k)" ?new] that by blast
  qed
  have new: "bit ?new i \<longleftrightarrow> bit new i \<or> (i = k \<and> entropy_bit st q)" if "i < 64" for i
    using that by (auto simp: bit_simps entropy_bit_def)
  have "modifier_rounds env st m items prev [k..<n] stop (hash_of st ` set ps) new = Inr (Some m')"
    using p(1) kn n(1) b e deref_hash_indexed [OF idx b] ih(1) pq
    by (subst upt_conv_Cons) (simp_all add: section_value ins)
  moreover have "bit m' i \<longleftrightarrow> bit new i \<or> (k \<le> i \<and> i < n \<and> entropy_bit st ((ps @ q # qs) ! i))" if "i < 64" for i
    using ih(5) new [OF that] that kn Suc.prems(3) by (cases "i = k") (auto simp: nth_append)
  ultimately show ?case using ih(2,3,4) q(1) kn
    by (intro exI [of _ "q # qs"] exI [of _ m']) auto
qed

section \<open>The next modifier\<close>

text \<open>What a generated modifier is: one entropy bit of each of up to 64 distinct candidates.\<close>

definition modifier_of :: "block_store \<Rightarrow> ptr list \<Rightarrow> u64 \<Rightarrow> bool" where
  "modifier_of st qs m \<longleftrightarrow> (\<forall>i<64. bit m i \<longleftrightarrow> i < length qs \<and> entropy_bit st (qs ! i))"

lemma ComputeNextStakeModifier_ok:
  assumes "wf_store st" and "indexed st m" and "st p = Some b" and "0 < nHeight (blk b)" and "has_modifier st p"
  shows "\<exists>c cs. (\<exists>i r. up st i p = Some r \<and> st r = Some c \<and> GeneratedStakeModifier (blk c)
            \<and> (\<forall>j<i. \<forall>r' c'. up st j p = Some r' \<longrightarrow> st r' = Some c' \<longrightarrow> \<not> GeneratedStakeModifier (blk c')))
       \<and> cs = candidates st (GetBlockTime (blk b) div 60 * 60 - 2087) (nat (nHeight (blk b))) p \<and> distinct cs
       \<and> (if GetBlockTime (blk b) div 60 \<le> GetBlockTime (blk c) div 60
          then ComputeNextStakeModifier env st m (Some p) = Some (Inr (True, nStakeModifier (blk c), False))
          else \<exists>qs m'. ComputeNextStakeModifier env st m (Some p) = Some (Inr (True, m', True))
             \<and> length qs = min 64 (length cs) \<and> distinct qs \<and> set qs \<subseteq> set cs \<and> modifier_of st qs m')"
proof -
  obtain n r c0 where "up st n p = Some r" "st r = Some c0" "GeneratedStakeModifier (blk c0)"
    using assms(5) by (auto simp: has_modifier_def)
  then obtain i r' c where c: "up st i p = Some r'" "st r' = Some c" "GeneratedStakeModifier (blk c)" "last_modifier_loop st p = Some (Inr c)"
      "\<forall>j<i. \<forall>r'' c''. up st j p = Some r'' \<longrightarrow> st r'' = Some c'' \<longrightarrow> \<not> GeneratedStakeModifier (blk c'')"
    using last_modifier_loop_first [OF assms(1)] by blast
  let ?start = "GetBlockTime (blk b) div 60 * 60 - 2087"
  define cs where "cs = candidates st ?start (nat (nHeight (blk b))) p"
  have lin: "distinct (lineage st (hgt b) p)" "set (lineage st (hgt b) p) \<subseteq> dom st"
    using lineage_entries [OF assms(1,3)] by auto
  have cs: "distinct cs" "set cs \<subseteq> dom st"
    using lin set_takeWhileD by (force simp: cs_def candidates_def)+
  let ?v = "map (\<lambda>q. (time_of st q, hash_of st q)) cs"
  let ?items = "sort_key (\<lambda>(t, h). (t, uval h)) (rev ?v)"
  have last: "GetLastStakeModifier st (Some p) = Some (Inr (Some (nStakeModifier (blk c), GetBlockTime (blk c))))"
    using c(3,4) by (simp add: GetLastStakeModifier_def)
  have cand: "candidate_loop st ?start (Some p) [] = Some (Inr ?v)"
    using candidate_loop_lineage [OF assms(1,2,3) refl] by (simp add: cs_def)
  obtain qs m' where q: "modifier_rounds env st m ?items (nStakeModifier (blk c)) [0..<min 64 (length cs)] ?start {} 0 = Inr (Some m')"
      "length qs = min 64 (length cs)" "distinct qs" "set qs \<subseteq> set cs"
      "\<forall>i<64. bit m' i \<longleftrightarrow> i < min 64 (length cs) \<and> entropy_bit st (qs ! i)"
    using modifier_rounds_ok [OF assms(2) cs, of ?items "min 64 (length cs)" "[]" 0 env "nStakeModifier (blk c)" ?start 0] by auto
  have "modifier_of st qs m'" using q(2,5) by (simp add: modifier_of_def)
  then have "if GetBlockTime (blk b) div 60 \<le> GetBlockTime (blk c) div 60
      then ComputeNextStakeModifier env st m (Some p) = Some (Inr (True, nStakeModifier (blk c), False))
      else \<exists>qs m'. ComputeNextStakeModifier env st m (Some p) = Some (Inr (True, m', True))
         \<and> length qs = min 64 (length cs) \<and> distinct qs \<and> set qs \<subseteq> set cs \<and> modifier_of st qs m'"
    using assms(3,4) last cand q(1-4)
    by (auto simp: ComputeNextStakeModifier_def GetStakeModifierSelectionInterval_value Let_def)
  then show ?thesis using c cs(1) cs_def by blast
qed

section \<open>The invariant of the block tree\<close>

definition parent_work :: "block_store \<Rightarrow> CBlockNode \<Rightarrow> nat" where
  "parent_work st b = (case pprev b of None \<Rightarrow> 0 | Some q \<Rightarrow> uval (nChainWork (blk (the (st q)))))"

definition block_work :: "u32 \<Rightarrow> nat" where
  "block_work c = (if snd (SetCompact c) = (False, False) \<and> target_of c \<noteq> 0 then 2 ^ 256 div (target_of c + 1) else 0)"

definition work_ok :: "block_store \<Rightarrow> CBlockNode \<Rightarrow> bool" where
  "work_ok st b \<longleftrightarrow> is_uint256 (nChainWork (blk b))
     \<and> uval (nChainWork (blk b)) = (parent_work st b + block_work (nBits (blk b))) mod 2 ^ 256"

text \<open>
  Everything but the work of \<open>p\<close>, a leaf, and the best header among the others: the state in
  which \<^verbatim>\<open>AddToBlockIndex\<close> reaches its end.
\<close>

definition index_but :: "index_state \<Rightarrow> ptr \<Rightarrow> bool" where
  "index_but s p \<longleftrightarrow> wf_store (entries s) \<and> indexed (entries s) (mapBlockIndex s)
     \<and> (\<forall>q b. entries s q = Some b \<longrightarrow> q \<noteq> p \<longrightarrow> work_ok (entries s) b)
     \<and> (\<forall>q b. entries s q = Some b \<longrightarrow> pprev b \<noteq> Some p)
     \<and> (\<forall>q b. entries s q = Some b \<longrightarrow> nHeight (blk b) = 1 \<longrightarrow> GeneratedStakeModifier (blk b))
     \<and> (case pindexBestHeader s of None \<Rightarrow> \<forall>q. q \<noteq> p \<longrightarrow> entries s q = None
        | Some h \<Rightarrow> h \<noteq> p \<and> (\<exists>b. entries s h = Some b
            \<and> (\<forall>q c. entries s q = Some c \<longrightarrow> q \<noteq> p \<longrightarrow> uval (nChainWork (blk c)) \<le> uval (nChainWork (blk b)))))"

definition index_ok :: "index_state \<Rightarrow> bool" where
  "index_ok s \<longleftrightarrow> wf_store (entries s) \<and> indexed (entries s) (mapBlockIndex s)
     \<and> (\<forall>q b. entries s q = Some b \<longrightarrow> work_ok (entries s) b)
     \<and> (\<forall>q b. entries s q = Some b \<longrightarrow> nHeight (blk b) = 1 \<longrightarrow> GeneratedStakeModifier (blk b))
     \<and> (case pindexBestHeader s of None \<Rightarrow> entries s = Map.empty
        | Some h \<Rightarrow> (\<exists>b. entries s h = Some b
            \<and> (\<forall>q c. entries s q = Some c \<longrightarrow> uval (nChainWork (blk c)) \<le> uval (nChainWork (blk b)))))"

text \<open>Changes of an entry that the invariant does not see.\<close>

definition same_entry :: "CBlockNode \<Rightarrow> CBlockNode \<Rightarrow> bool" where
  "same_entry b c \<longleftrightarrow> pprev c = pprev b \<and> pskip c = pskip b \<and> nHeight (blk c) = nHeight (blk b)
     \<and> phashBlock (blk c) = phashBlock (blk b)"

lemma wf_store_same: "wf_store st \<Longrightarrow> st p = Some b \<Longrightarrow> same_entry b c \<Longrightarrow> wf_store (st(p \<mapsto> c))"
  by (rule wf_store_update) (auto simp: same_entry_def)

lemma indexed_same:
  assumes "indexed st m" and "st p = Some b" and "same_entry b c"
  shows "indexed (st(p \<mapsto> c)) m"
proof -
  have "\<exists>d. (st(p \<mapsto> c)) q = Some d \<and> phashBlock (blk d) = Some h" if mh: "m h = Some q" for h q
  proof -
    obtain b' where "st q = Some b'" "phashBlock (blk b') = Some h" using assms(1) mh unfolding indexed_def by blast
    then show ?thesis using assms(2,3) by (cases "q = p") (auto simp: same_entry_def)
  qed
  moreover have "\<exists>h. phashBlock (blk d) = Some h \<and> m h = Some q" if "(st(p \<mapsto> c)) q = Some d" for q d
    using assms that by (cases "q = p") (auto simp: indexed_def same_entry_def)
  ultimately show ?thesis unfolding indexed_def by blast
qed

lemma has_modifierI:
  assumes "wf_store st" and "st q = Some b" and "0 < nHeight (blk b)"
    and "\<forall>r c. st r = Some c \<longrightarrow> nHeight (blk c) = 1 \<longrightarrow> GeneratedStakeModifier (blk c)"
  shows "has_modifier st q"
proof -
  obtain n where n: "nHeight (blk b) = int n" using wf_height [OF assms(1,2)] .
  then have n1: "n - 1 \<le> hgt b" "0 < n" using assms(3) by simp_all
  then obtain r where r: "up st (n - 1) q = Some r" using up_exists [OF assms(1,2) n1(1)] by auto
  obtain c where "st r = Some c" "nHeight (blk c) = nHeight (blk b) - int (n - 1)"
    using up_height [OF assms(1,2) n1(1) r] by auto
  then have "st r = Some c" "GeneratedStakeModifier (blk c)" using n n1(2) assms(4) by simp_all
  then show ?thesis using r unfolding has_modifier_def by blast
qed

lemma GetBlockTrust_returns: "\<exists>w. GetBlockTrust b = Inr w"
proof -
  have "udiv x (add (fst (SetCompact (nBits b))) (uint256_of_u64 1)) \<noteq> Inl e" if "is_uint256 x" for x e
    using u256.quot_ok [OF that target_plus_one(1) [of "nBits b"]] target_plus_one(2) [of "nBits b"] by auto
  moreover have "is_uint256 (shl (uint256_of_u64 1) 256)" "is_uint256 (shr uint256_max 20)"
    using uint256_max_value(2) is_uint256_simps(1) [of 1] by (simp_all add: is_uint256_def)
  ultimately show ?thesis by (cases "udiv (shl (uint256_of_u64 1) 256) (add (fst (SetCompact (nBits b))) (uint256_of_u64 1))";
      cases "udiv (shr uint256_max 20) (add (fst (SetCompact (nBits b))) (uint256_of_u64 1))")
      (auto simp: GetBlockTrust_def Let_def)
qed

lemma RaiseValidity_tree: "\<exists>x r. RaiseValidity b BLOCK_VALID_TREE = Some (b\<lparr>nStatus := x\<rparr>, r)"
proof -
  have "BLOCK_VALID_TREE AND NOT BLOCK_VALID_MASK = 0" by (simp add: BLOCK_VALID_TREE_def BLOCK_VALID_MASK_eq)
  then have "RaiseValidity b BLOCK_VALID_TREE = Some (b\<lparr>nStatus := nStatus b\<rparr>, False)
      \<or> RaiseValidity b BLOCK_VALID_TREE = Some (b\<lparr>nStatus := (nStatus b AND NOT BLOCK_VALID_MASK) OR BLOCK_VALID_TREE\<rparr>, True)"
    by (simp add: RaiseValidity_def)
  then show ?thesis by blast
qed

text \<open>A store whose entries other than \<open>p\<close> keep their predecessor, target and work.\<close>

definition same_works :: "ptr \<Rightarrow> block_store \<Rightarrow> block_store \<Rightarrow> bool" where
  "same_works p st st' \<longleftrightarrow> (\<forall>q. q \<noteq> p \<longrightarrow> (case (st q, st' q) of
      (None, None) \<Rightarrow> True
    | (Some c, Some d) \<Rightarrow> pprev d = pprev c \<and> nBits (blk d) = nBits (blk c) \<and> nChainWork (blk d) = nChainWork (blk c)
        \<and> nHeight (blk d) = nHeight (blk c) \<and> nFlags (blk d) = nFlags (blk c)
    | _ \<Rightarrow> False))"

lemma same_worksD:
  assumes "same_works p st st'" and "q \<noteq> p" and "st' q = Some d"
  obtains c where "st q = Some c" "pprev d = pprev c" "nBits (blk d) = nBits (blk c)" "nChainWork (blk d) = nChainWork (blk c)"
    "nHeight (blk d) = nHeight (blk c)" "nFlags (blk d) = nFlags (blk c)"
proof -
  have "case (st q, st' q) of (None, None) \<Rightarrow> True
    | (Some c, Some d) \<Rightarrow> pprev d = pprev c \<and> nBits (blk d) = nBits (blk c) \<and> nChainWork (blk d) = nChainWork (blk c)
        \<and> nHeight (blk d) = nHeight (blk c) \<and> nFlags (blk d) = nFlags (blk c)
    | _ \<Rightarrow> False" using assms(1,2) unfolding same_works_def by blast
  then show ?thesis using assms(3) that by (auto split: option.splits)
qed

lemma same_works_work:
  assumes "same_works p st st'" and "q \<noteq> p" and "q \<in> dom st"
  shows "q \<in> dom st' \<and> nChainWork (blk (the (st' q))) = nChainWork (blk (the (st q)))"
proof -
  have "case (st q, st' q) of (None, None) \<Rightarrow> True
    | (Some c, Some d) \<Rightarrow> pprev d = pprev c \<and> nBits (blk d) = nBits (blk c) \<and> nChainWork (blk d) = nChainWork (blk c)
        \<and> nHeight (blk d) = nHeight (blk c) \<and> nFlags (blk d) = nFlags (blk c)
    | _ \<Rightarrow> False" using assms(1,2) unfolding same_works_def by blast
  then show ?thesis using assms(3) by (auto split: option.splits)
qed

lemma wf_pprev: "wf_store st \<Longrightarrow> st q = Some c \<Longrightarrow> pprev c = Some r \<Longrightarrow> r \<in> dom st"
  using wf_storeD [of st q c] by (auto simp: wf_node_def)

lemma work_ok_same:
  assumes "same_works p st st'" and "wf_store st" and "st q = Some c" and "pprev c \<noteq> Some p" and "work_ok st c"
    and "pprev d = pprev c" "nBits (blk d) = nBits (blk c)" "nChainWork (blk d) = nChainWork (blk c)"
  shows "work_ok st' d"
proof -
  have "parent_work st' d = parent_work st c"
    using same_works_work [OF assms(1)] wf_pprev [OF assms(2,3)] assms(4,6) by (auto simp: parent_work_def split: option.split)
  then show ?thesis using assms(5,7,8) by (simp add: work_ok_def)
qed

lemma index_ok_same:
  assumes "index_but s p" and "entries s p = Some b" and "same_works p (entries s) (entries s')"
    and "wf_store (entries s')" and "indexed (entries s') (mapBlockIndex s')"
    and "entries s' p = Some b'" and "work_ok (entries s') b'" and "nHeight (blk b') = nHeight (blk b)" and "nFlags (blk b') = nFlags (blk b)"
    and best: "pindexBestHeader s' = (case pindexBestHeader s of None \<Rightarrow> Some p
      | Some h \<Rightarrow> if uval (nChainWork (blk (the (entries s h)))) < uval (nChainWork (blk b')) then Some p else Some h)"
  shows "index_ok s'"
proof -
  have wf: "wf_store (entries s)" and leaf: "\<And>q c. entries s q = Some c \<Longrightarrow> pprev c \<noteq> Some p"
    and works: "\<And>q c. entries s q = Some c \<Longrightarrow> q \<noteq> p \<Longrightarrow> work_ok (entries s) c"
    and gen: "\<And>q c. entries s q = Some c \<Longrightarrow> nHeight (blk c) = 1 \<Longrightarrow> GeneratedStakeModifier (blk c)"
    using assms(1) by (auto simp: index_but_def)
  have old: "\<exists>c. entries s q = Some c \<and> pprev d = pprev c \<and> nBits (blk d) = nBits (blk c) \<and> nChainWork (blk d) = nChainWork (blk c)
      \<and> nHeight (blk d) = nHeight (blk c) \<and> nFlags (blk d) = nFlags (blk c)" if "entries s' q = Some d" "q \<noteq> p" for q d
    using same_worksD [OF assms(3) that(2,1)] by metis
  have w: "work_ok (entries s') d" if d: "entries s' q = Some d" for q d
  proof (cases "q = p")
    case False
    then obtain c where "entries s q = Some c" "pprev d = pprev c" "nBits (blk d) = nBits (blk c)" "nChainWork (blk d) = nChainWork (blk c)"
      using old [OF d False] by auto
    then show ?thesis using work_ok_same [OF assms(3) wf] leaf works False by metis
  qed (use assms(6,7) d in auto)
  have g: "GeneratedStakeModifier (blk d)" if "entries s' q = Some d" "nHeight (blk d) = 1" for q d
  proof (cases "q = p")
    case True
    then show ?thesis using gen [OF assms(2)] assms(6,8,9) that by (simp add: GeneratedStakeModifier_def)
  next
    case False
    then show ?thesis using old [OF that(1) False] gen that(2) by (auto simp: GeneratedStakeModifier_def)
  qed
  have "case pindexBestHeader s' of None \<Rightarrow> entries s' = Map.empty
      | Some h \<Rightarrow> \<exists>d. entries s' h = Some d \<and> (\<forall>q c. entries s' q = Some c \<longrightarrow> uval (nChainWork (blk c)) \<le> uval (nChainWork (blk d)))"
  proof (cases "pindexBestHeader s")
    case None
    then have none: "entries s q = None" if "q \<noteq> p" for q using assms(1) that by (simp add: index_but_def)
    have only: "c = b'" if "entries s' q = Some c" for q c
    proof (cases "q = p")
      case False
      then show ?thesis using old [OF that False] none by auto
    qed (use that assms(6) in simp)
    have "pindexBestHeader s' = Some p" using best None by simp
    moreover have "uval (nChainWork (blk c)) \<le> uval (nChainWork (blk b'))" if "entries s' q = Some c" for q c
      using only [OF that] by simp
    ultimately show ?thesis using assms(6) by simp
  next
    case (Some h)
    then obtain e where e: "h \<noteq> p" "entries s h = Some e"
        "\<And>q c. entries s q = Some c \<Longrightarrow> q \<noteq> p \<Longrightarrow> uval (nChainWork (blk c)) \<le> uval (nChainWork (blk e))"
      using assms(1) unfolding index_but_def by auto
    have le: "uval (nChainWork (blk c)) \<le> uval (nChainWork (blk e))" if "entries s' q = Some c" "q \<noteq> p" for q c
      using old [OF that] e(3) [OF _ that(2)] by metis
    have sw: "h \<in> dom (entries s')" "nChainWork (blk (the (entries s' h))) = nChainWork (blk (the (entries s h)))"
      using same_works_work [OF assms(3) e(1)] e(2) by blast+
    from sw(1) obtain e' where "entries s' h = Some e'" by blast
    with sw(2) e(2) have e': "entries s' h = Some e'" "nChainWork (blk e') = nChainWork (blk e)" by simp_all
    show ?thesis
    proof (cases "uval (nChainWork (blk e)) < uval (nChainWork (blk b'))")
      case True
      have "uval (nChainWork (blk c)) \<le> uval (nChainWork (blk b'))" if "entries s' q = Some c" for q c
        using le [OF that] True assms(6) that by (cases "q = p") auto
      then show ?thesis using best Some True e(2) assms(6) by simp
    next
      case False
      have "uval (nChainWork (blk c)) \<le> uval (nChainWork (blk e'))" if "entries s' q = Some c" for q c
        using le [OF that] False assms(6) e'(2) that by (cases "q = p") auto
      then show ?thesis using best Some False e(2) e'(1) by simp
    qed
  qed
  then show ?thesis using assms(4,5) w g unfolding index_ok_def by blast
qed

lemma finish_block_ok:
  assumes "index_but s p" and "entries s p = Some b"
  shows "\<exists>s' b'. finish_block s p = Inr s' \<and> index_ok s' \<and> mapBlockIndex s' = mapBlockIndex s
    \<and> entries s' p = Some b' \<and> same_entry b b' \<and> blk b' = (blk b)\<lparr>nChainWork := nChainWork (blk b'), nStatus := nStatus (blk b')\<rparr>
    \<and> (\<forall>q. q \<noteq> p \<longrightarrow> Some q \<noteq> pprev b \<longrightarrow> entries s' q = entries s q)"
proof -
  let ?st = "entries s"
  have wf: "wf_store ?st" and idx: "indexed ?st (mapBlockIndex s)" and leaf: "pprev b \<noteq> Some p"
    and works: "\<And>q c. ?st q = Some c \<Longrightarrow> q \<noteq> p \<Longrightarrow> work_ok ?st c"
    using assms by (auto simp: index_but_def)
  obtain pr where pr: "GetBlockProof (nBits (blk b)) = Inr pr" "is_uint256 pr" "uval pr = block_work (nBits (blk b))"
    using GetBlockProof_value [of "nBits (blk b)"] by (auto simp: block_work_def)
  define w where "w = (case pprev b of None \<Rightarrow> uint256_of_u64 0 | Some q \<Rightarrow> nChainWork (blk (the (?st q))))"
  have w: "is_uint256 w" "uval w = parent_work ?st b"
  proof -
    have "is_uint256 (nChainWork (blk c))" if "pprev b = Some q" "?st q = Some c" for q c
      using works [OF that(2)] that(1) leaf by (auto simp: work_ok_def)
    then show "is_uint256 w" "uval w = parent_work ?st b"
      using wf_pprev [OF wf assms(2)] by (auto simp: w_def parent_work_def split: option.split)
  qed
  obtain x r where x: "RaiseValidity ((blk b)\<lparr>nChainWork := add w pr\<rparr>) BLOCK_VALID_TREE = Some ((blk b)\<lparr>nChainWork := add w pr, nStatus := x\<rparr>, r)"
    using RaiseValidity_tree by blast
  define b' where "b' = b\<lparr>blk := (blk b)\<lparr>nChainWork := add w pr, nStatus := x\<rparr>\<rparr>"
  have sb: "same_entry b b'" by (simp add: same_entry_def b'_def)
  have wb: "is_uint256 (nChainWork (blk b'))" "uval (nChainWork (blk b')) = (parent_work ?st b + block_work (nBits (blk b))) mod 2 ^ 256"
    using w pr by (simp_all add: b'_def u256.wf_plus u256.val_plus)
  define best where "best = (case pindexBestHeader s of None \<Rightarrow> Some p
      | Some h \<Rightarrow> if uval (nChainWork (blk (the (?st h)))) < uval (nChainWork (blk b')) then Some p else Some h)"
  have pb: "update_best_header s (?st(p \<mapsto> b')) p (add w pr) = Inr best"
  proof (cases "pindexBestHeader s")
    case (Some h)
    then obtain e where e: "h \<noteq> p" "?st h = Some e" using assms(1) by (auto simp: index_but_def)
    then have "is_uint256 (nChainWork (blk e))" using works by (auto simp: work_ok_def)
    then show ?thesis using Some e wb(1) by (simp add: best_def uint256_lt_iff update_best_header_def b'_def)
  qed (simp add: best_def update_best_header_def)
  have fin: "\<exists>s' b''. finish_block s p = Inr s' \<and> index_ok s' \<and> mapBlockIndex s' = mapBlockIndex s
    \<and> entries s' p = Some b'' \<and> b'' = b' \<and> (\<forall>q. q \<noteq> p \<longrightarrow> Some q \<noteq> pprev b \<longrightarrow> entries s' q = ?st q)"
    if st': "wf_store st'" "indexed st' (mapBlockIndex s)" "same_works p ?st st'" "st' p = Some b'"
      "\<forall>q. q \<noteq> p \<longrightarrow> Some q \<noteq> pprev b \<longrightarrow> st' q = ?st q"
      "finish_block s p = Inr (s\<lparr>entries := st', pindexBestHeader := best, setDirtyBlockIndex := insert p (setDirtyBlockIndex s)\<rparr>)" for st'
  proof -
    have "parent_work st' b' = parent_work ?st b"
      using same_works_work [OF st'(3)] wf_pprev [OF wf assms(2)] leaf by (auto simp: parent_work_def b'_def split: option.split)
    then have "work_ok st' b'" using wb by (simp add: work_ok_def b'_def)
    then have "index_ok (s\<lparr>entries := st', pindexBestHeader := best, setDirtyBlockIndex := insert p (setDirtyBlockIndex s)\<rparr>)"
      using index_ok_same [OF assms(1,2), of "s\<lparr>entries := st', pindexBestHeader := best, setDirtyBlockIndex := insert p (setDirtyBlockIndex s)\<rparr>" b'] st'
      by (simp add: best_def b'_def)
    then show ?thesis using st' by simp
  qed
  have final: "?thesis" if "\<exists>s' b''. finish_block s p = Inr s' \<and> index_ok s' \<and> mapBlockIndex s' = mapBlockIndex s
    \<and> entries s' p = Some b'' \<and> b'' = b' \<and> (\<forall>q. q \<noteq> p \<longrightarrow> Some q \<noteq> pprev b \<longrightarrow> entries s' q = ?st q)"
    using that sb by (auto simp: b'_def)
  have wf1: "wf_store (?st(p \<mapsto> b'))" "indexed (?st(p \<mapsto> b')) (mapBlockIndex s)"
    using wf_store_same [OF wf assms(2) sb] indexed_same [OF idx assms(2) sb] by auto
  show ?thesis
  proof (cases "pprev b")
    case None
    then have h: "nHeight (blk b) = 0" using wf_storeD [OF wf assms(2)] by (simp add: wf_node_def)
    have "same_works p ?st (?st(p \<mapsto> b'))" by (auto simp: same_works_def split: option.split)
    moreover have "finish_block s p = Inr (s\<lparr>entries := ?st(p \<mapsto> b'), pindexBestHeader := best, setDirtyBlockIndex := insert p (setDirtyBlockIndex s)\<rparr>)"
    proof -
      have w0: "w = uint256_of_u64 0" using None by (simp add: w_def)
      show ?thesis using None assms(2) pr(1) x [unfolded w0] pb [unfolded b'_def w0] h
        by (simp add: finish_block_def lift_uint_def b'_def w0)
    qed
    ultimately show ?thesis by (intro final fin [OF wf1]) auto
  next
    case (Some q)
    then obtain c where c: "?st q = Some c" "q \<noteq> p" "nHeight (blk b) = nHeight (blk c) + 1"
      using wf_storeD [OF wf assms(2)] leaf by (auto simp: wf_node_def)
    have h: "nHeight (blk b) \<noteq> 0" using c(3) wf_storeD [OF wf c(1)] by (simp add: wf_node_def)
    let ?c = "c\<lparr>pnext := Some p\<rparr>"
    have c': "(?st(p \<mapsto> b')) q = Some c" "same_entry c ?c" using c(1,2) by (auto simp: same_entry_def)
    have sw: "same_works p ?st (?st(p \<mapsto> b', q \<mapsto> ?c))" using c by (auto simp: same_works_def split: option.split)
    have run: "finish_block s p = Inr (s\<lparr>entries := ?st(p \<mapsto> b', q \<mapsto> ?c), pindexBestHeader := best, setDirtyBlockIndex := insert p (setDirtyBlockIndex s)\<rparr>)"
    proof -
      have w0: "w = nChainWork (blk c)" using Some c(1) by (simp add: w_def)
      show ?thesis using Some assms(2) pr(1) x [unfolded w0] pb [unfolded b'_def w0] h c
        by (simp add: finish_block_def lift_uint_def b'_def w0)
    qed
    have "(?st(p \<mapsto> b', q \<mapsto> ?c)) p = Some b'" "\<forall>r. r \<noteq> p \<longrightarrow> Some r \<noteq> pprev b \<longrightarrow> (?st(p \<mapsto> b', q \<mapsto> ?c)) r = ?st r"
      using c(2) Some by auto
    then show ?thesis by (rule final [OF fin [OF wf_store_same [OF wf1(1) c'] indexed_same [OF wf1(2) c'] sw _ _ run]])
  qed
qed

lemma same_entry_trans: "same_entry a b \<Longrightarrow> same_entry b c \<Longrightarrow> same_entry a c"
  by (simp add: same_entry_def)

lemma SetStakeEntropyBit_same [simp]:
  "nHeight (fst (SetStakeEntropyBit b n)) = nHeight b" "phashBlock (fst (SetStakeEntropyBit b n)) = phashBlock b"
  by (simp_all add: SetStakeEntropyBit_def)

lemma SetStakeModifier_same [simp]:
  "nHeight (SetStakeModifier b m g) = nHeight b" "phashBlock (SetStakeModifier b m g) = phashBlock b"
  by (simp_all add: SetStakeModifier_def Let_def)

lemma SetStakeModifier_generated: "GeneratedStakeModifier (SetStakeModifier b m True)"
proof -
  have "bit ((nFlags b OR BLOCK_STAKE_MODIFIER) AND BLOCK_STAKE_MODIFIER) 2"
    by (simp add: bit_simps BLOCK_STAKE_MODIFIER_def)
  then have "(nFlags b OR BLOCK_STAKE_MODIFIER) AND BLOCK_STAKE_MODIFIER \<noteq> 0" by (metis bit_0_eq bot_apply bot_bool_def)
  then show ?thesis by (simp add: GeneratedStakeModifier_def SetStakeModifier_def Let_def)
qed

lemma link_block_ok:
  assumes "wf_store st" and "st p = None" and "st q = Some prev" and "entries s = st(p \<mapsto> b0)"
    and "indexed (entries s) (mapBlockIndex s)"
    and gen: "\<forall>r c. st r = Some c \<longrightarrow> nHeight (blk c) = 1 \<longrightarrow> GeneratedStakeModifier (blk c)"
  shows "\<exists>b proofs. link_block env s hash p q = Some (Inr (s\<lparr>entries := st(p \<mapsto> b, q \<mapsto> prev\<lparr>pnext := Some p\<rparr>), mapProofOfStake := proofs\<rparr>))
    \<and> wf_store (st(p \<mapsto> b, q \<mapsto> prev\<lparr>pnext := Some p\<rparr>)) \<and> indexed (st(p \<mapsto> b, q \<mapsto> prev\<lparr>pnext := Some p\<rparr>)) (mapBlockIndex s)
    \<and> pprev b = Some q \<and> nHeight (blk b) = nHeight (blk prev) + 1
    \<and> (nHeight (blk b) = 1 \<longrightarrow> GeneratedStakeModifier (blk b))"
proof -
  have qp: "q \<noteq> p" using assms(2,3) by auto
  let ?m = "mapBlockIndex s"
  define prev' where "prev' = prev\<lparr>pnext := Some p\<rparr>"
  define b1 where "b1 = b0\<lparr>pprev := Some q, blk := (blk b0)\<lparr>nHeight := nHeight (blk prev) + 1\<rparr>\<rparr>"
  have b1: "pprev b1 = Some q" "nHeight (blk b1) = nHeight (blk prev) + 1" "phashBlock (blk b1) = phashBlock (blk b0)"
    by (simp_all add: b1_def)
  obtain a where a: "BuildSkip (st(p \<mapsto> b1)) p = Inr (st(p \<mapsto> b1\<lparr>pskip := a\<rparr>))" "wf_store (st(p \<mapsto> b1\<lparr>pskip := a\<rparr>))"
    using BuildSkip_wf [OF assms(1-3) b1(1,2)] by blast
  define b2 where "b2 = b1\<lparr>pskip := a\<rparr>"
  have b2: "pprev b2 = Some q" "nHeight (blk b2) = nHeight (blk prev) + 1" "phashBlock (blk b2) = phashBlock (blk b0)"
    by (simp_all add: b2_def b1)
  define S where "S = (\<lambda>b. st(p \<mapsto> b, q \<mapsto> prev'))"
  have idx1: "indexed (st(p \<mapsto> b2)) ?m"
  proof -
    have "indexed (st(p \<mapsto> b0)) ?m" using assms(4,5) by simp
    then show ?thesis using b2(3) unfolding indexed_def by (auto split: if_splits)
  qed
  have c: "(st(p \<mapsto> b2)) q = Some prev" "same_entry prev prev'" using assms(3) qp by (simp_all add: same_entry_def prev'_def)
  have wf2: "wf_store (S b2)" and idx2: "indexed (S b2) ?m"
    using wf_store_same [OF a(2) [folded b2_def] c] indexed_same [OF idx1 c] by (simp_all only: S_def)
  have Sp: "S b p = Some b" "S b q = Some prev'" "(S b)(p \<mapsto> b') = S b'" for b b'
    using qp by (auto simp: S_def fun_eq_iff)
  have keep: "wf_store (S b)" "indexed (S b) ?m" if "same_entry b2 b" for b
    using wf_store_same [OF wf2 Sp(1) that] indexed_same [OF idx2 Sp(1) that] by (simp_all add: Sp(3))
  obtain trust where trust: "GetBlockTrust (blk b2) = Inr trust" using GetBlockTrust_returns by blast
  have "\<exists>h. phashBlock (blk b2) = Some h" using indexed_node [OF idx2 Sp(1)] by blast
  then obtain e where e: "GetStakeEntropyBit (blk b2) = Some e" by (auto simp: GetStakeEntropyBit_def GetBlockHash_def)
  define b3 where "b3 = b2\<lparr>bnChainTrust := add (bnChainTrust prev) trust, blk := fst (SetStakeEntropyBit (blk b2) (unat e))\<rparr>"
  define proofs where "proofs = proof_hashes s hash b3"
  define b4 where "b4 = stake_proof s hash b3"
  have s4: "same_entry b2 b4" by (simp add: same_entry_def b4_def b3_def stake_proof_def)
  obtain ok modifier fGen where next_mod: "ComputeNextStakeModifier env (S b4) ?m (Some q) = Some (Inr (ok, modifier, fGen))"
      "nHeight (blk prev) = 0 \<longrightarrow> fGen"
  proof (cases "nHeight (blk prev) = 0")
    case True
    then show ?thesis using that Sp(2) [of b4] by (simp add: ComputeNextStakeModifier_def prev'_def)
  next
    case False
    moreover have "0 \<le> nHeight (blk prev)" using wf_storeD [OF assms(1,3)] by (simp add: wf_node_def)
    ultimately have h: "0 < nHeight (blk prev')" by (simp add: prev'_def)
    have "GeneratedStakeModifier (blk d)" if d: "S b4 r = Some d" "nHeight (blk d) = 1" for r d
    proof (cases "r = p")
      case True
      then show ?thesis using d Sp(1) [of b4] s4 b2(2) h by (simp add: same_entry_def prev'_def)
    next
      case False
      then show ?thesis using d gen assms(3) by (auto simp: S_def prev'_def split: if_splits)
    qed
    then have "has_modifier (S b4) q" using has_modifierI [OF keep(1) [OF s4] Sp(2) h] by blast
    then have "\<exists>ok modifier fGen. ComputeNextStakeModifier env (S b4) ?m (Some q) = Some (Inr (ok, modifier, fGen))"
      using ComputeNextStakeModifier_ok [OF keep [OF s4] Sp(2) h, of env] by (auto split: if_splits)
    then show ?thesis using that False by blast
  qed
  define b5 where "b5 = b4\<lparr>blk := SetStakeModifier (blk b4) modifier fGen\<rparr>"
  have p5: "pprev b5 = Some q" using s4 b2(1) by (simp add: b5_def same_entry_def)
  obtain checksum where ck: "GetStakeModifierChecksum env (S b4) b5 = Inr checksum"
    using p5 Sp(2) [of b4] by (simp add: GetStakeModifierChecksum_def)
  define b6 where "b6 = b5\<lparr>blk := (blk b5)\<lparr>nStakeModifierChecksum := checksum\<rparr>\<rparr>"
  have s6: "same_entry b2 b6" using s4 by (simp add: same_entry_def b6_def b5_def)
  have "(st(p \<mapsto> b0))(p \<mapsto> b0\<lparr>pprev := Some q, blk := (blk b0)\<lparr>nHeight := nHeight (blk prev) + 1\<rparr>\<rparr>) = st(p \<mapsto> b1)"
    by (simp add: b1_def)
  then have "link_block env s hash p q = stake_fields env s hash p q (S b2) prev b2"
    using assms(3) qp a(1) c(1) Sp(1) [of b2] unfolding link_block_def assms(4)
    by (simp add: S_def prev'_def b2_def)
  also have "\<dots> = Some (Inr (s\<lparr>entries := S b6, mapProofOfStake := proofs\<rparr>))"
    unfolding stake_fields_def trust e lift_uint_def
    by (simp only: prod.case sum.case option.case Let_def b3_def [symmetric] proofs_def [symmetric] b4_def [symmetric] Sp(3)
        next_mod(1) b5_def [symmetric] ck bindE_simps b6_def [symmetric])
  finally have "link_block env s hash p q = Some (Inr (s\<lparr>entries := S b6, mapProofOfStake := proofs\<rparr>))" .
  moreover have "GeneratedStakeModifier (blk b6)" if "nHeight (blk b6) = 1"
  proof -
    have "nHeight (blk prev) = 0" using that s6 b2(2) by (simp add: same_entry_def)
    then have "GeneratedStakeModifier (blk b5)" using next_mod(2) SetStakeModifier_generated by (simp add: b5_def)
    then show ?thesis by (simp add: b6_def GeneratedStakeModifier_def)
  qed
  ultimately show ?thesis using keep [OF s6] s6 b2 unfolding S_def prev'_def same_entry_def by auto
qed

lemma index_butI:
  assumes ok: "index_ok s" and "entries s p = None" and sw: "same_works p (entries s) (entries s')"
    and "wf_store (entries s')" and "indexed (entries s') (mapBlockIndex s')"
    and b: "entries s' p = Some b" "pprev b \<noteq> Some p" "nHeight (blk b) = 1 \<longrightarrow> GeneratedStakeModifier (blk b)"
    and "pindexBestHeader s' = pindexBestHeader s"
  shows "index_but s' p"
proof -
  have wf: "wf_store (entries s)" using ok by (simp add: index_ok_def)
  have leaf: "pprev c \<noteq> Some p" if "entries s q = Some c" for q c
    using wf_pprev [OF wf that, of p] assms(2) by auto
  have old: "\<exists>c. entries s q = Some c \<and> pprev d = pprev c \<and> nBits (blk d) = nBits (blk c) \<and> nChainWork (blk d) = nChainWork (blk c)
      \<and> nHeight (blk d) = nHeight (blk c) \<and> nFlags (blk d) = nFlags (blk c)" if "entries s' q = Some d" "q \<noteq> p" for q d
    using same_worksD [OF sw that(2,1)] by metis
  have "work_ok (entries s') d" if d: "entries s' q = Some d" "q \<noteq> p" for q d
  proof -
    obtain c where c: "entries s q = Some c" "pprev d = pprev c" "nBits (blk d) = nBits (blk c)" "nChainWork (blk d) = nChainWork (blk c)"
      using old [OF d] by auto
    have "work_ok (entries s) c" using ok c(1) unfolding index_ok_def by blast
    then show ?thesis by (rule work_ok_same [OF sw wf c(1) leaf [OF c(1)] _ c(2-4)])
  qed
  moreover have "pprev d \<noteq> Some p" if d: "entries s' q = Some d" for q d
  proof (cases "q = p")
    case False
    then show ?thesis using old [OF d] leaf by metis
  qed (use b d in auto)
  moreover have "GeneratedStakeModifier (blk d)" if d: "entries s' q = Some d" "nHeight (blk d) = 1" for q d
  proof (cases "q = p")
    case False
    then show ?thesis using old [OF d(1)] d(2) ok unfolding index_ok_def GeneratedStakeModifier_def by metis
  qed (use b d in auto)
  moreover have "case pindexBestHeader s' of None \<Rightarrow> \<forall>q. q \<noteq> p \<longrightarrow> entries s' q = None
      | Some h \<Rightarrow> h \<noteq> p \<and> (\<exists>d. entries s' h = Some d
          \<and> (\<forall>q c. entries s' q = Some c \<longrightarrow> q \<noteq> p \<longrightarrow> uval (nChainWork (blk c)) \<le> uval (nChainWork (blk d))))"
  proof (cases "pindexBestHeader s")
    case None
    then have "entries s = Map.empty" using ok by (simp add: index_ok_def)
    then have "entries s' q = None" if "q \<noteq> p" for q using old [OF _ that] by fastforce
    then show ?thesis using None assms(9) by simp
  next
    case (Some h)
    then obtain e where e: "entries s h = Some e" "\<And>q c. entries s q = Some c \<Longrightarrow> uval (nChainWork (blk c)) \<le> uval (nChainWork (blk e))"
      using ok by (auto simp: index_ok_def)
    have hp: "h \<noteq> p" using e(1) assms(2) by auto
    have sw': "h \<in> dom (entries s')" "nChainWork (blk (the (entries s' h))) = nChainWork (blk (the (entries s h)))"
      using same_works_work [OF sw hp] e(1) by blast+
    from sw'(1) obtain e' where "entries s' h = Some e'" by blast
    with sw'(2) e(1) have e': "entries s' h = Some e'" "nChainWork (blk e') = nChainWork (blk e)" by simp_all
    have "uval (nChainWork (blk c)) \<le> uval (nChainWork (blk e'))" if "entries s' q = Some c" "q \<noteq> p" for q c
      using old [OF that] e(2) e'(2) by metis
    then show ?thesis using Some assms(9) hp e'(1) by simp
  qed
  ultimately show ?thesis using assms(4,5) unfolding index_but_def by blast
qed

lemma wf_store_root:
  assumes "wf_store st" and "st p = None" and "pprev b = None" and "nHeight (blk b) = 0"
  shows "wf_store (st(p \<mapsto> b))"
proof -
  have le: "st \<subseteq>\<^sub>m st(p \<mapsto> b)" using assms(2) by (auto simp: map_le_def)
  have "wf_node (st(p \<mapsto> b)) q c" if "(st(p \<mapsto> b)) q = Some c" for q c
    using wf_node_map_le [OF assms(1) le] that assms(3,4) by (cases "q = p") (auto simp: wf_node_def)
  then show ?thesis by (simp add: wf_store_def)
qed

lemma indexed_new:
  assumes "indexed st m" and "st p = None" and "m h = None" and "phashBlock (blk b) = Some h"
  shows "indexed (st(p \<mapsto> b)) (m(h \<mapsto> p))"
proof -
  have "\<exists>c. (st(p \<mapsto> b)) q = Some c \<and> phashBlock (blk c) = Some k" if mk: "(m(h \<mapsto> p)) k = Some q" for k q
  proof (cases "k = h")
    case False
    then have "m k = Some q" using mk by simp
    then obtain c where "st q = Some c" "phashBlock (blk c) = Some k" using indexed_lookup [OF assms(1)] by blast
    then show ?thesis using assms(2) by auto
  qed (use mk assms(4) in auto)
  moreover have "\<exists>k. phashBlock (blk c) = Some k \<and> (m(h \<mapsto> p)) k = Some q" if c: "(st(p \<mapsto> b)) q = Some c" for q c
  proof (cases "q = p")
    case False
    then obtain k where "phashBlock (blk c) = Some k" "m k = Some q" using c indexed_node [OF assms(1)] by auto
    then show ?thesis using assms(3) by auto
  qed (use c assms(4) in auto)
  ultimately show ?thesis unfolding indexed_def by blast
qed

lemma AddToBlockIndex_ok:
  assumes ok: "index_ok s" and p: "entries s p = None"
    and acyclic: "hashPrevBlock (block_header block) \<noteq> kernel_GetHash env (block_header block)"
    and new: "mapBlockIndex s (kernel_GetHash env (block_header block)) = None"
  shows "\<exists>s' b. AddToBlockIndex env s block p uninit = Some (Inr (p, s')) \<and> index_ok s'
    \<and> mapBlockIndex s' = (mapBlockIndex s)(kernel_GetHash env (block_header block) \<mapsto> p)
    \<and> entries s' p = Some b \<and> pprev b = mapBlockIndex s (hashPrevBlock (block_header block))
    \<and> nHeight (blk b) = (case mapBlockIndex s (hashPrevBlock (block_header block)) of None \<Rightarrow> 0
        | Some q \<Rightarrow> nHeight (blk (the (entries s q))) + 1)"
proof -
  let ?hash = "kernel_GetHash env (block_header block)" and ?prev = "hashPrevBlock (block_header block)"
  define b0 where "b0 = (CBlockIndex_of block uninit)\<lparr>blk := (blk (CBlockIndex_of block uninit))\<lparr>nSequenceId := 0, phashBlock := Some ?hash\<rparr>\<rparr>"
  have b0: "pprev b0 = None" "nHeight (blk b0) = 0" "phashBlock (blk b0) = Some ?hash"
    by (simp_all add: b0_def CBlockIndex_of_def Let_def)
  define seen where "seen = (if IsProofOfStake (blk (CBlockIndex_of block uninit))
    then insert (prevoutStake (CBlockIndex_of block uninit), nStakeTime (CBlockIndex_of block uninit)) (setStakeSeen s) else setStakeSeen s)"
  define s1 where "s1 = s\<lparr>entries := (entries s)(p \<mapsto> b0), mapBlockIndex := (mapBlockIndex s)(?hash \<mapsto> p), setStakeSeen := seen\<rparr>"
  have wf: "wf_store (entries s)" and idx: "indexed (entries s) (mapBlockIndex s)" using ok by (simp_all add: index_ok_def)
  have wf1: "wf_store (entries s1)" and idx1: "indexed (entries s1) (mapBlockIndex s1)"
    using wf_store_root [OF wf p b0(1,2)] indexed_new [OF idx p new b0(3)] by (simp_all add: s1_def)
  have run: "AddToBlockIndex env s block p uninit
      = (case (case mapBlockIndex s ?prev of None \<Rightarrow> Some (Inr s1) | Some q \<Rightarrow> link_block env s1 ?hash p q) of
           None \<Rightarrow> None | Some r \<Rightarrow> Some (bindE r (\<lambda>s. bindE (finish_block s p) (\<lambda>s. Inr (p, s)))))"
  proof -
    have "mapBlockIndex s1 ?prev = mapBlockIndex s ?prev" using acyclic by (simp add: s1_def)
    then show ?thesis unfolding AddToBlockIndex_def Let_def new
      by (simp only: option.case seen_def [symmetric] b0_def [symmetric] s1_def [symmetric])
  qed
  have fin: ?thesis if s2: "AddToBlockIndex env s block p uninit = Some (bindE (finish_block s2 p) (\<lambda>s. Inr (p, s)))"
      "index_but s2 p" "entries s2 p = Some b" "mapBlockIndex s2 = (mapBlockIndex s)(?hash \<mapsto> p)" "pprev b = mapBlockIndex s ?prev"
      "nHeight (blk b) = (case mapBlockIndex s ?prev of None \<Rightarrow> 0 | Some q \<Rightarrow> nHeight (blk (the (entries s q))) + 1)" for s2 b
    using finish_block_ok [OF s2(2,3)] s2 by (auto simp: same_entry_def)
  show ?thesis
  proof (cases "mapBlockIndex s ?prev")
    case None
    have "same_works p (entries s) (entries s1)" by (auto simp: same_works_def s1_def split: option.split)
    then have "index_but s1 p" using index_butI [OF ok p _ wf1 idx1] b0 by (auto simp: s1_def)
    then show ?thesis using fin [of s1 b0] run None b0 by (simp add: s1_def)
  next
    case (Some q)
    then obtain prev where prev: "entries s q = Some prev" using idx unfolding indexed_def by blast
    have qp: "q \<noteq> p" using prev p by auto
    have gen: "\<forall>r c. entries s r = Some c \<longrightarrow> nHeight (blk c) = 1 \<longrightarrow> GeneratedStakeModifier (blk c)"
      using ok by (simp add: index_ok_def)
    have e1: "entries s1 = (entries s)(p \<mapsto> b0)" by (simp add: s1_def)
    obtain b proofs where l: "link_block env s1 ?hash p q
          = Some (Inr (s1\<lparr>entries := (entries s)(p \<mapsto> b, q \<mapsto> prev\<lparr>pnext := Some p\<rparr>), mapProofOfStake := proofs\<rparr>))"
        "wf_store ((entries s)(p \<mapsto> b, q \<mapsto> prev\<lparr>pnext := Some p\<rparr>))"
        "indexed ((entries s)(p \<mapsto> b, q \<mapsto> prev\<lparr>pnext := Some p\<rparr>)) (mapBlockIndex s1)"
        "pprev b = Some q" "nHeight (blk b) = nHeight (blk prev) + 1" "nHeight (blk b) = 1 \<longrightarrow> GeneratedStakeModifier (blk b)"
      using link_block_ok [OF wf p prev e1 idx1 gen] by metis
    let ?s2 = "s1\<lparr>entries := (entries s)(p \<mapsto> b, q \<mapsto> prev\<lparr>pnext := Some p\<rparr>), mapProofOfStake := proofs\<rparr>"
    have "same_works p (entries s) ((entries s)(p \<mapsto> b, q \<mapsto> prev\<lparr>pnext := Some p\<rparr>))"
      using prev by (auto simp: same_works_def split: option.split)
    then have "index_but ?s2 p"
      using index_butI [OF ok p, of ?s2 b] l(2-6) qp by (simp add: s1_def del: fun_upd_apply) (simp add: s1_def)
    then show ?thesis using fin [of ?s2 b] run Some l(1,4,5) prev qp by (simp add: s1_def)
  qed
qed

section \<open>The modifier of a kernel\<close>

text \<open>The block at height \<open>m\<close> of the branch that ends in \<open>t\<close> at height \<open>h\<close>.\<close>

definition chain_block :: "block_store \<Rightarrow> ptr \<Rightarrow> nat \<Rightarrow> nat \<Rightarrow> CBlockIndex" where
  "chain_block st t h m = blk (the (st (the (up st (h - m) t))))"

lemma kernel_modifier_loop_find:
  assumes "wf_store st" and "st t = Some c"
  shows "tm < until \<Longrightarrow>
    kernel_modifier_loop st (path st t (hgt c)) until p (at_height (path st t (hgt c)) (int n)) hm tm
      = Some (Inr (map_option (\<lambda>m. (nStakeModifier (chain_block st t (hgt c) m), int m, GetBlockTime (chain_block st t (hgt c) m)))
          (List.find (\<lambda>m. GeneratedStakeModifier (chain_block st t (hgt c) m) \<and> until \<le> GetBlockTime (chain_block st t (hgt c) m)) [n..<Suc (hgt c)])))"
proof (induction "Suc (hgt c) - n" arbitrary: n p hm tm)
  case 0
  then have "[n..<Suc (hgt c)] = []" by simp
  moreover have "at_height (path st t (hgt c)) (int n) = None" using 0 by (simp only: at_height_path) simp
  ultimately show ?case using 0 by (subst kernel_modifier_loop.simps) (simp del: upt_Suc)
next
  case (Suc k)
  then have n: "n \<le> hgt c" by simp
  obtain q b where q: "up st (hgt c - n) t = Some q" "st q = Some b" "hgt b = n" using up_exists [OF assms, of "hgt c - n"] n by auto
  obtain k' where "nHeight (blk b) = int k'" using wf_height [OF assms(1) q(2)] .
  then have h: "nHeight (blk b) = int n" using q(3) by simp
  have at: "at_height (path st t (hgt c)) (int n) = Some q" using n q(1) by (simp only: at_height_path) simp
  have up: "[n..<Suc (hgt c)] = n # [Suc n..<Suc (hgt c)]" using n by (simp only: upt_conv_Cons)
  have cb: "chain_block st t (hgt c) n = blk b" using q(1,2) by (simp add: chain_block_def)
  have h1: "nHeight (blk b) + 1 = int (Suc n)" using h by simp
  show ?case
  proof (cases "GeneratedStakeModifier (blk b) \<and> until \<le> GetBlockTime (blk b)")
    case True
    then show ?thesis using Suc.prems at q h cb unfolding up
      by (subst kernel_modifier_loop.simps, simp only: option.case if_True, subst kernel_modifier_loop.simps) simp
  next
    case False
    let ?hm = "if GeneratedStakeModifier (blk b) then nHeight (blk b) else hm"
      and ?tm = "if GeneratedStakeModifier (blk b) then GetBlockTime (blk b) else tm"
    have "k = Suc (hgt c) - Suc n" "?tm < until" using Suc.hyps(2) Suc.prems False by auto
    then have ih: "kernel_modifier_loop st (path st t (hgt c)) until q (at_height (path st t (hgt c)) (int (Suc n))) ?hm ?tm
      = Some (Inr (map_option (\<lambda>m. (nStakeModifier (chain_block st t (hgt c) m), int m, GetBlockTime (chain_block st t (hgt c) m)))
          (List.find (\<lambda>m. GeneratedStakeModifier (chain_block st t (hgt c) m) \<and> until \<le> GetBlockTime (chain_block st t (hgt c) m)) [Suc n..<Suc (hgt c)])))"
      by (rule Suc.hyps(1))
    have "kernel_modifier_loop st (path st t (hgt c)) until p (Some q) hm tm
        = kernel_modifier_loop st (path st t (hgt c)) until q (at_height (path st t (hgt c)) (int (Suc n))) ?hm ?tm"
      using Suc.prems q(2) unfolding h1 [symmetric] by (subst kernel_modifier_loop.simps) simp
    moreover have "\<not> (GeneratedStakeModifier (chain_block st t (hgt c) n) \<and> until \<le> GetBlockTime (chain_block st t (hgt c) n))"
      using False cb by simp
    ultimately show ?thesis unfolding at up ih by (simp only: find.simps if_False)
  qed
qed

section \<open>The kernel target\<close>

lemma stakeTargetHit_value:
  assumes "is_uint256 hash" and "is_uint256 target" and "0 \<le> v" and "v < 2 ^ 63"
  shows "stakeTargetHit hash v target = Inr (uval hash < (nat v div 100 * uval target) mod 2 ^ 256)"
proof -
  have "unat (word_of_int v :: u64) = nat v" using assms(3,4) by (simp add: unat_eq_nat_uint uint_word_of_int)
  then have v: "uval (uint256_of_u64 (word_of_int v)) = nat v" by simp
  obtain q where q: "udiv (uint256_of_u64 (word_of_int v)) (uint256_of_u64 100) = Inr q" "is_uint256 q" "uval q = nat v div 100"
    using u256.quot_ok [of "uint256_of_u64 (word_of_int v)" "uint256_of_u64 100"] v by auto
  have "length q = 8" "length target = 8" using q(2) assms(2) by (simp_all add: is_uint256_def)
  then have "is_uint256 (mul q target)" "uval (mul q target) = (nat v div 100 * uval target) mod 2 ^ 256"
    using q(3) by (simp_all add: is_uint256_def uval_mul)
  then show ?thesis using q(1) assms(1) by (simp add: stakeTargetHit_def uint256_lt_iff)
qed

section \<open>The properties\<close>

text \<open>
  C2. \<^verbatim>\<open>AddToBlockIndex\<close> ends, meets no null pointer and fails no assertion, and
  keeps the invariant of the block tree: heights, parents and skip pointers, the map from hashes
  to entries, the accumulated work of every entry, the stake modifier of every entry at height
  one, and a best header of maximal work. A block known already changes nothing; a new one gets
  the entry of its predecessor's hash as parent.
\<close>

theorem AddToBlockIndex_keeps_index:
  assumes "index_ok s" and "entries s p = None"
    and "hashPrevBlock (block_header block) \<noteq> kernel_GetHash env (block_header block)"
  shows "\<exists>p' s'. AddToBlockIndex env s block p uninit = Some (Inr (p', s')) \<and> index_ok s'
    \<and> mapBlockIndex s' (kernel_GetHash env (block_header block)) = Some p'
    \<and> (if mapBlockIndex s (kernel_GetHash env (block_header block)) = None
       then p' = p \<and> (\<exists>b. entries s' p = Some b \<and> pprev b = mapBlockIndex s (hashPrevBlock (block_header block)))
       else s' = s)"
proof (cases "mapBlockIndex s (kernel_GetHash env (block_header block))")
  case None
  obtain s' b where "AddToBlockIndex env s block p uninit = Some (Inr (p, s'))" "index_ok s'"
      "mapBlockIndex s' = (mapBlockIndex s)(kernel_GetHash env (block_header block) \<mapsto> p)"
      "entries s' p = Some b" "pprev b = mapBlockIndex s (hashPrevBlock (block_header block))"
    using AddToBlockIndex_ok [OF assms None, of uninit] by blast
  then show ?thesis using None by (intro exI [of _ p] exI [of _ s']) auto
next
  case (Some it)
  then have "AddToBlockIndex env s block p uninit = Some (Inr (it, s))" by (simp add: AddToBlockIndex_def Let_def)
  then show ?thesis using Some assms(1) by simp
qed

text \<open>
  C27. On such a tree \<^verbatim>\<open>ComputeNextStakeModifier\<close> ends and succeeds above the genesis
  block. Within the minute of the last generated modifier it hands that on; otherwise the new
  modifier takes bit \<open>i\<close> from the entropy bit of the block selected in round \<open>i\<close>, the up to 64
  selected blocks are distinct and come from the 2087 seconds before the minute of the previous
  block, and the bits above are zero.
\<close>

theorem stake_modifier_exact:
  assumes "index_ok s" and "entries s p = Some b" and "0 < nHeight (blk b)"
  shows "\<exists>c cs. (\<exists>i r. up (entries s) i p = Some r \<and> entries s r = Some c \<and> GeneratedStakeModifier (blk c)
            \<and> (\<forall>j<i. \<forall>r' c'. up (entries s) j p = Some r' \<longrightarrow> entries s r' = Some c' \<longrightarrow> \<not> GeneratedStakeModifier (blk c')))
       \<and> cs = candidates (entries s) (GetBlockTime (blk b) div 60 * 60 - 2087) (nat (nHeight (blk b))) p \<and> distinct cs
       \<and> (if GetBlockTime (blk b) div 60 \<le> GetBlockTime (blk c) div 60
          then ComputeNextStakeModifier env (entries s) (mapBlockIndex s) (Some p) = Some (Inr (True, nStakeModifier (blk c), False))
          else \<exists>qs m'. ComputeNextStakeModifier env (entries s) (mapBlockIndex s) (Some p) = Some (Inr (True, m', True))
             \<and> length qs = min 64 (length cs) \<and> distinct qs \<and> set qs \<subseteq> set cs \<and> modifier_of (entries s) qs m')"
proof -
  have ok: "wf_store (entries s)" "indexed (entries s) (mapBlockIndex s)"
      "\<forall>q b. entries s q = Some b \<longrightarrow> nHeight (blk b) = 1 \<longrightarrow> GeneratedStakeModifier (blk b)"
    using assms(1) by (simp_all add: index_ok_def)
  show ?thesis
    by (rule ComputeNextStakeModifier_ok [OF ok(1,2) assms(2,3) has_modifierI [OF ok(1) assms(2,3) ok(3)]])
qed

text \<open>
  The modifier of a kernel: on an active chain that ends in \<open>t\<close>,
  \<^verbatim>\<open>GetKernelStakeModifier\<close> ends and returns the modifier, height and time of the first
  chain block above the height of the origin that generated a modifier and is at least 2087
  seconds younger than the origin, and fails when there is none; the origin need not be on the
  chain.
\<close>

theorem kernel_modifier_exact:
  assumes "wf_store st" and "st t = Some c" and "mapBlock h = Some p" and "st p = Some b"
  shows "GetKernelStakeModifier st mapBlock (path st t (nat (nHeight (blk c)))) h
    = Some (Inr (map_option (\<lambda>m. let x = chain_block st t (nat (nHeight (blk c))) m in (nStakeModifier x, int m, GetBlockTime x))
        (List.find (\<lambda>m. let x = chain_block st t (nat (nHeight (blk c))) m
                        in GeneratedStakeModifier x \<and> GetBlockTime (blk b) + 2087 \<le> GetBlockTime x)
          [nat (nHeight (blk b)) + 1..<nat (nHeight (blk c)) + 1])))"
proof -
  obtain n where n: "nHeight (blk b) = int n" using wf_height [OF assms(1,4)] .
  have "nHeight (blk b) + 1 = int (Suc n)" using n by simp
  then show ?thesis using assms(3,4) kernel_modifier_loop_find [OF assms(1,2), of "GetBlockTime (blk b)" "GetBlockTime (blk b) + 2087" p "Suc n"] n
    by (simp add: GetKernelStakeModifier_def GetStakeModifierSelectionInterval_value Let_def add.commute [of "int n" 1] del: upt_Suc)
qed

text \<open>
  C36. The kernel target wraps: at the easiest target the network allows a kernel hash that
  10 coins meet is missed by 16.777473 coins, because the product of weight and target is
  taken modulo \<open>2 ^ 256\<close>.
\<close>

theorem larger_stake_misses:
  "target_of 0x1e00ffff \<le> uval bnTargetLimit \<and> (\<exists>hash. is_uint256 hash
    \<and> stakeTargetHit hash (10 * COIN) (fst (SetCompact 0x1e00ffff)) = Inr True
    \<and> stakeTargetHit hash 1677747300 (fst (SetCompact 0x1e00ffff)) = Inr False)"
proof -
  define hash where "hash = shl (uint256_of_u64 1) 255"
  have l: "length (uint256_of_u64 1) = 8" using is_uint256_simps(1) [of 1] by (simp only: is_uint256_def)
  have h: "is_uint256 hash" "uval hash = 2 ^ 255" by (simp_all add: hash_def is_uint256_def l uval_shl)
  have t: "target_of 0x1e00ffff = 65535 * 256 ^ 27" unfolding target_of_def SetCompact_value(1) by simp
  have "uval hash < (nat (10 * COIN) div 100 * target_of 0x1e00ffff) mod 2 ^ 256" by (simp add: t h(2) COIN_def)
  moreover have "\<not> uval hash < (nat 1677747300 div 100 * target_of 0x1e00ffff) mod 2 ^ 256" by (simp add: t h(2))
  ultimately have "stakeTargetHit hash (10 * COIN) (fst (SetCompact 0x1e00ffff)) = Inr True"
      "stakeTargetHit hash 1677747300 (fst (SetCompact 0x1e00ffff)) = Inr False"
    using h(1) stakeTargetHit_value [of hash "fst (SetCompact 0x1e00ffff)"] by (simp_all add: target_of_def COIN_def)
  moreover have "target_of 0x1e00ffff \<le> uval bnTargetLimit" by (simp add: t bnTargetLimit_value)
  ultimately show ?thesis using h(1) by blast
qed

section \<open>Concrete instances\<close>

definition ex_kernel :: kernel_env where
  "ex_kernel = \<lparr>kernel_Hash = (\<lambda>bs. uint256_of_u64 (of_nat (le_nat bs))), kernel_params = CMainParams,
     kernel_GetHash = (\<lambda>hdr. uint256_of_u64 (ucast (nNonce hdr))), kernel_HashGenesisBlock = uint256_of_u64 1,
     address_of_literal = 4096, kernel_GetTransaction = (\<lambda>_. None), kernel_VerifyScript = (\<lambda>_ _ _ _ _. True),
     kernel_ReadBlock = (\<lambda>_. None)\<rparr>"

text \<open>A block with a nonce for a hash.\<close>

definition ex_linked_block :: "u32 \<Rightarrow> u64 \<Rightarrow> CBlock" where
  "ex_linked_block n prev = \<lparr>block_header = \<lparr>hdr_nVersion = 4, hashPrevBlock = uint256_of_u64 prev, hashMerkleRoot = uint256_of_u64 0,
     hdr_nTime = 1543178982 + 60 * n, hdr_nBits = 0x1d00ffff, nNonce = n\<rparr>, vtx = [], vchBlockSig = []\<rparr>"

definition empty_index :: index_state where
  "empty_index = \<lparr>entries = Map.empty, mapBlockIndex = Map.empty, setStakeSeen = {}, mapProofOfStake = Map.empty,
     pindexBestHeader = None, setDirtyBlockIndex = {}\<rparr>"

lemma empty_index_ok: "index_ok empty_index"
  by (simp add: index_ok_def empty_index_def wf_store_def indexed_def)

lemma ex_hash: "kernel_GetHash ex_kernel (block_header (ex_linked_block n prev)) = uint256_of_u64 (ucast n)"
    "hashPrevBlock (block_header (ex_linked_block n prev)) = uint256_of_u64 prev"
  by (simp_all add: ex_kernel_def ex_linked_block_def)

theorem AddToBlockIndex_keeps_index_witness:
  "\<exists>s'. AddToBlockIndex ex_kernel empty_index (ex_linked_block 1 0) 7 None = Some (Inr (7, s')) \<and> index_ok s'"
  using AddToBlockIndex_keeps_index [OF empty_index_ok, of 7 "ex_linked_block 1 0" ex_kernel None]
  by (auto simp: ex_hash uint256_of_u64_inj empty_index_def)

text \<open>A genesis block and its successor, at the addresses 7 and 8.\<close>

lemma ex_two_blocks:
  "\<exists>s b. index_ok s \<and> entries s 8 = Some b \<and> nHeight (blk b) = 1"
proof -
  obtain s b where s: "index_ok s" "mapBlockIndex s = [uint256_of_u64 1 \<mapsto> 7]" "entries s 7 = Some b" "nHeight (blk b) = 0"
    using AddToBlockIndex_ok [OF empty_index_ok, of 7 "ex_linked_block 1 0" ex_kernel None]
    by (auto simp: ex_hash uint256_of_u64_inj empty_index_def)
  have "entries s 8 = None"
  proof (rule ccontr)
    assume "entries s 8 \<noteq> None"
    then obtain c where "entries s 8 = Some c" by blast
    then show False using s(1,2) indexed_node [of "entries s" "mapBlockIndex s" 8 c] by (auto simp: index_ok_def split: if_splits)
  qed
  then show ?thesis
    using AddToBlockIndex_ok [OF s(1), of 8 "ex_linked_block 2 1" ex_kernel None] s(2-4)
    by (auto simp: ex_hash uint256_of_u64_inj)
qed

theorem stake_modifier_exact_witness:
  "\<exists>s m' g. index_ok s \<and> ComputeNextStakeModifier ex_kernel (entries s) (mapBlockIndex s) (Some 8) = Some (Inr (True, m', g))"
proof -
  obtain s b where s: "index_ok s" "entries s 8 = Some b" "nHeight (blk b) = 1" using ex_two_blocks by blast
  then have "\<exists>m' g. ComputeNextStakeModifier ex_kernel (entries s) (mapBlockIndex s) (Some 8) = Some (Inr (True, m', g))"
    using stake_modifier_exact [OF s(1,2), of ex_kernel] by (auto split: if_splits)
  then show ?thesis using s(1) by blast
qed

theorem kernel_modifier_exact_witness:
  "GetKernelStakeModifier ex_store [uint256_of_u64 1 \<mapsto> 1] (path ex_store 3 3) (uint256_of_u64 1) = Some (Inr None)"
proof -
  have "path ex_store 3 (nat (nHeight (blk (ex_node (ex_index 3 3) (Some 2) (Some 1))))) = path ex_store 3 3" by simp
  moreover have "chain_block ex_store 3 3 (Suc (Suc 0)) = ex_index 2 2" "chain_block ex_store 3 3 (Suc (Suc (Suc 0))) = ex_index 3 3"
    by (simp_all add: chain_block_def ex_up)
  moreover have "\<not> GeneratedStakeModifier (ex_index h n)" for h n
    by (simp add: ex_index_def ex_block_def GeneratedStakeModifier_def BLOCK_STAKE_MODIFIER_def)
  ultimately show ?thesis
    using kernel_modifier_exact [OF ex_store_wf ex_store_at(1), of "[uint256_of_u64 1 \<mapsto> 1]" "uint256_of_u64 1" 1 "ex_node (ex_index 1 1) (Some 0) (Some 0)"]
    by (simp add: upt_rec Let_def)
qed

end
