(* ===== verification/Interpreter.thy ===== *)
theory Interpreter
  imports Connect "HOL-Library.Sublist"
begin

text \<open>
  The script interpreter (\<^verbatim>\<open>src/script/interpreter.cpp\<close>): signature and key encodings,
  \<^verbatim>\<open>EvalScript\<close>, the signature hash and \<^verbatim>\<open>VerifyScript\<close>. A stack is the list
  of its elements from the top. Every access that the code can throw on is an error value:
  \<open>Exn\<close> is an exception or a failed assertion, \<open>Err\<close> a \<^verbatim>\<open>set_error\<close>; the hash
  functions and the curve are the fields of an environment.
\<close>

section \<open>Errors\<close>

datatype ScriptError =
    SCRIPT_ERR_OK | SCRIPT_ERR_UNKNOWN_ERROR | SCRIPT_ERR_EVAL_FALSE | SCRIPT_ERR_OP_RETURN
  | SCRIPT_ERR_SCRIPT_SIZE | SCRIPT_ERR_PUSH_SIZE | SCRIPT_ERR_OP_COUNT | SCRIPT_ERR_STACK_SIZE
  | SCRIPT_ERR_SIG_COUNT | SCRIPT_ERR_PUBKEY_COUNT
  | SCRIPT_ERR_VERIFY | SCRIPT_ERR_EQUALVERIFY | SCRIPT_ERR_CHECKMULTISIGVERIFY | SCRIPT_ERR_CHECKSIGVERIFY
  | SCRIPT_ERR_NUMEQUALVERIFY
  | SCRIPT_ERR_BAD_OPCODE | SCRIPT_ERR_DISABLED_OPCODE | SCRIPT_ERR_INVALID_STACK_OPERATION
  | SCRIPT_ERR_INVALID_ALTSTACK_OPERATION | SCRIPT_ERR_UNBALANCED_CONDITIONAL
  | SCRIPT_ERR_SIG_HASHTYPE | SCRIPT_ERR_SIG_DER | SCRIPT_ERR_MINIMALDATA | SCRIPT_ERR_SIG_PUSHONLY
  | SCRIPT_ERR_SIG_HIGH_S | SCRIPT_ERR_SIG_NULLDUMMY | SCRIPT_ERR_PUBKEYTYPE
  | SCRIPT_ERR_DISCOURAGE_UPGRADABLE_NOPS | SCRIPT_ERR_ERROR_COUNT

fun ScriptErrorString :: "ScriptError \<Rightarrow> string" where
  "ScriptErrorString SCRIPT_ERR_OK = ''No error''"
| "ScriptErrorString SCRIPT_ERR_EVAL_FALSE = ''Script evaluated without error but finished with a false/empty top stack element''"
| "ScriptErrorString SCRIPT_ERR_VERIFY = ''Script failed an OP_VERIFY operation''"
| "ScriptErrorString SCRIPT_ERR_EQUALVERIFY = ''Script failed an OP_EQUALVERIFY operation''"
| "ScriptErrorString SCRIPT_ERR_CHECKMULTISIGVERIFY = ''Script failed an OP_CHECKMULTISIGVERIFY operation''"
| "ScriptErrorString SCRIPT_ERR_CHECKSIGVERIFY = ''Script failed an OP_CHECKSIGVERIFY operation''"
| "ScriptErrorString SCRIPT_ERR_NUMEQUALVERIFY = ''Script failed an OP_NUMEQUALVERIFY operation''"
| "ScriptErrorString SCRIPT_ERR_SCRIPT_SIZE = ''Script is too big''"
| "ScriptErrorString SCRIPT_ERR_PUSH_SIZE = ''Push value size limit exceeded''"
| "ScriptErrorString SCRIPT_ERR_OP_COUNT = ''Operation limit exceeded''"
| "ScriptErrorString SCRIPT_ERR_STACK_SIZE = ''Stack size limit exceeded''"
| "ScriptErrorString SCRIPT_ERR_SIG_COUNT = ''Signature count negative or greater than pubkey count''"
| "ScriptErrorString SCRIPT_ERR_PUBKEY_COUNT = ''Pubkey count negative or limit exceeded''"
| "ScriptErrorString SCRIPT_ERR_BAD_OPCODE = ''Opcode missing or not understood''"
| "ScriptErrorString SCRIPT_ERR_DISABLED_OPCODE = ''Attempted to use a disabled opcode''"
| "ScriptErrorString SCRIPT_ERR_INVALID_STACK_OPERATION = ''Operation not valid with the current stack size''"
| "ScriptErrorString SCRIPT_ERR_INVALID_ALTSTACK_OPERATION = ''Operation not valid with the current altstack size''"
| "ScriptErrorString SCRIPT_ERR_OP_RETURN = ''OP_RETURN was encountered''"
| "ScriptErrorString SCRIPT_ERR_UNBALANCED_CONDITIONAL = ''Invalid OP_IF construction''"
| "ScriptErrorString SCRIPT_ERR_SIG_HASHTYPE = ''Signature hash type missing or not understood''"
| "ScriptErrorString SCRIPT_ERR_SIG_DER = ''Non-canonical DER signature''"
| "ScriptErrorString SCRIPT_ERR_MINIMALDATA = ''Data push larger than necessary''"
| "ScriptErrorString SCRIPT_ERR_SIG_PUSHONLY = ''Only non-push operators allowed in signatures''"
| "ScriptErrorString SCRIPT_ERR_SIG_HIGH_S = ''Non-canonical signature: S value is unnecessarily high''"
| "ScriptErrorString SCRIPT_ERR_SIG_NULLDUMMY = ''Dummy CHECKMULTISIG argument must be zero''"
| "ScriptErrorString SCRIPT_ERR_DISCOURAGE_UPGRADABLE_NOPS = ''NOPx reserved for soft-fork upgrades''"
| "ScriptErrorString SCRIPT_ERR_PUBKEYTYPE = ''Public key is neither compressed or uncompressed''"
| "ScriptErrorString SCRIPT_ERR_UNKNOWN_ERROR = ''unknown error''"
| "ScriptErrorString SCRIPT_ERR_ERROR_COUNT = ''unknown error''"

datatype script_exn = AtRange | StackEmpty | NumAssert | NumError scriptnum_error

datatype eval_error = Err ScriptError | Exn script_exn

section \<open>Encodings of signatures and keys\<close>

definition SCRIPT_VERIFY_LOW_S :: u32 where "SCRIPT_VERIFY_LOW_S = 8"
definition SCRIPT_VERIFY_SIGPUSHONLY :: u32 where "SCRIPT_VERIFY_SIGPUSHONLY = 32"

definition SIGHASH_ALL :: u8 where "SIGHASH_ALL = 1"
definition SIGHASH_NONE :: u8 where "SIGHASH_NONE = 2"
definition SIGHASH_SINGLE :: u8 where "SIGHASH_SINGLE = 3"
definition SIGHASH_ANYONECANPAY :: u8 where "SIGHASH_ANYONECANPAY = 0x80"

fun CastToBool :: "bytes \<Rightarrow> bool" where
  "CastToBool [] = False"
| "CastToBool (b # bs) = (if b \<noteq> 0 then \<not> (bs = [] \<and> b = 0x80) else CastToBool bs)"

definition IsCompressedOrUncompressedPubKey :: "bytes \<Rightarrow> bool" where
  "IsCompressedOrUncompressedPubKey vchPubKey =
     (if length vchPubKey < 33 then False
      else if vchPubKey ! 0 = 0x04 then length vchPubKey = 65
      else if vchPubKey ! 0 = 0x02 \<or> vchPubKey ! 0 = 0x03 then length vchPubKey = 33
      else False)"

definition IsValidSignatureEncoding :: "bytes \<Rightarrow> bool" where
  "IsValidSignatureEncoding sig =
     (if length sig < 9 then False
      else if 73 < length sig then False
      else if sig ! 0 \<noteq> 0x30 then False
      else if unat (sig ! 1) \<noteq> length sig - 3 then False
      else let lenR = unat (sig ! 3)
           in if length sig \<le> 5 + lenR then False
              else let lenS = unat (sig ! (5 + lenR))
                   in if lenR + lenS + 7 \<noteq> length sig then False
                      else if sig ! 2 \<noteq> 0x02 then False
                      else if lenR = 0 then False
                      else if sig ! 4 AND 0x80 \<noteq> 0 then False
                      else if 1 < lenR \<and> sig ! 4 = 0 \<and> \<not> sig ! 5 AND 0x80 \<noteq> 0 then False
                      else if sig ! (lenR + 4) \<noteq> 0x02 then False
                      else if lenS = 0 then False
                      else if sig ! (lenR + 6) AND 0x80 \<noteq> 0 then False
                      else if 1 < lenS \<and> sig ! (lenR + 6) = 0 \<and> \<not> sig ! (lenR + 7) AND 0x80 \<noteq> 0 then False
                      else True)"

record eval_env =
  ev_RIPEMD160 :: "bytes \<Rightarrow> bytes"
  ev_SHA1 :: "bytes \<Rightarrow> bytes"
  ev_SHA256 :: "bytes \<Rightarrow> bytes"
  ev_CheckLowS :: "bytes \<Rightarrow> bool"
  ev_CheckSig :: "bytes \<Rightarrow> bytes \<Rightarrow> bytes \<Rightarrow> bool"

definition IsLowDERSignature :: "eval_env \<Rightarrow> bytes \<Rightarrow> ScriptError + unit" where
  "IsLowDERSignature env vchSig =
     (if \<not> IsValidSignatureEncoding vchSig then Inl SCRIPT_ERR_SIG_DER
      else if \<not> ev_CheckLowS env (butlast vchSig) then Inl SCRIPT_ERR_SIG_HIGH_S
      else Inr ())"

definition IsDefinedHashtypeSignature :: "bytes \<Rightarrow> bool" where
  "IsDefinedHashtypeSignature vchSig =
     (if vchSig = [] then False
      else let nHashType = last vchSig AND NOT SIGHASH_ANYONECANPAY
           in \<not> (nHashType < SIGHASH_ALL \<or> SIGHASH_SINGLE < nHashType))"

definition CheckSignatureEncoding :: "eval_env \<Rightarrow> bytes \<Rightarrow> u32 \<Rightarrow> ScriptError + unit" where
  "CheckSignatureEncoding env vchSig flags =
     (if vchSig = [] then Inr ()
      else if flags AND (SCRIPT_VERIFY_DERSIG OR SCRIPT_VERIFY_LOW_S OR SCRIPT_VERIFY_STRICTENC) \<noteq> 0
              \<and> \<not> IsValidSignatureEncoding vchSig then Inl SCRIPT_ERR_SIG_DER
      else bindE (if flags AND SCRIPT_VERIFY_LOW_S \<noteq> 0 then IsLowDERSignature env vchSig else Inr ()) (\<lambda>_.
        if flags AND SCRIPT_VERIFY_STRICTENC \<noteq> 0 \<and> \<not> IsDefinedHashtypeSignature vchSig then Inl SCRIPT_ERR_SIG_HASHTYPE
        else Inr ()))"

definition CheckPubKeyEncoding :: "bytes \<Rightarrow> u32 \<Rightarrow> ScriptError + unit" where
  "CheckPubKeyEncoding vchPubKey flags =
     (if flags AND SCRIPT_VERIFY_STRICTENC \<noteq> 0 \<and> \<not> IsCompressedOrUncompressedPubKey vchPubKey then Inl SCRIPT_ERR_PUBKEYTYPE
      else Inr ())"

definition CheckMinimalPush :: "bytes \<Rightarrow> opcodetype \<Rightarrow> bool" where
  "CheckMinimalPush data opcode =
     (if data = [] then opcode = OP_0
      else if length data = 1 \<and> 1 \<le> data ! 0 \<and> data ! 0 \<le> 16 then opcode = OP_1 + (data ! 0 - 1)
      else if length data = 1 \<and> data ! 0 = 0x81 then opcode = OP_1NEGATE
      else if length data \<le> 75 then unat opcode = length data
      else if length data \<le> 255 then opcode = OP_PUSHDATA1
      else if length data \<le> 65535 then opcode = OP_PUSHDATA2
      else True)"

section \<open>The machine\<close>

record eval_state =
  stk :: "bytes list"
  altstk :: "bytes list"
  vfExec :: "bool list"
  nOpCount :: int
  pbegincodehash :: bytes

text \<open>\<open>stacktop k\<close> is \<^verbatim>\<open>stacktop(-k)\<close>.\<close>

definition stacktop :: "nat \<Rightarrow> bytes list \<Rightarrow> eval_error + bytes" where
  "stacktop k s = (if 1 \<le> k \<and> k \<le> length s then Inr (s ! (k - 1)) else Inl (Exn AtRange))"

definition popstack :: "bytes list \<Rightarrow> eval_error + bytes list" where
  "popstack s = (case s of [] \<Rightarrow> Inl (Exn StackEmpty) | x # xs \<Rightarrow> Inr xs)"

fun popstacks :: "nat \<Rightarrow> bytes list \<Rightarrow> eval_error + bytes list" where
  "popstacks 0 s = Inr s"
| "popstacks (Suc n) s = bindE (popstack s) (popstacks n)"

definition number :: "bytes \<Rightarrow> bool \<Rightarrow> eval_error + int" where
  "number b fRequireMinimal = (case CScriptNum b fRequireMinimal of Inl e \<Rightarrow> Inl (Exn (NumError e)) | Inr n \<Rightarrow> Inr n)"

definition in_int64 :: "int \<Rightarrow> eval_error + int" where
  "in_int64 n = (if - (2 ^ 63) \<le> n \<and> n < 2 ^ 63 then Inr n else Inl (Exn NumAssert))"

definition vchTrue :: bytes where "vchTrue = [1]"
definition vchFalse :: bytes where "vchFalse = []"

definition bool_vch :: "bool \<Rightarrow> bytes" where "bool_vch b = (if b then vchTrue else vchFalse)"
definition of_bool_num :: "bool \<Rightarrow> int" where "of_bool_num b = (if b then 1 else 0)"

definition need :: "nat \<Rightarrow> bytes list \<Rightarrow> ScriptError \<Rightarrow> eval_error + unit" where
  "need n s e = (if length s < n then Inl (Err e) else Inr ())"

definition push :: "bytes \<Rightarrow> eval_state \<Rightarrow> eval_error + eval_state" where
  "push v s = Inr (s\<lparr>stk := v # stk s\<rparr>)"

definition set_stk :: "eval_state \<Rightarrow> bytes list \<Rightarrow> eval_error + eval_state" where
  "set_stk s st = Inr (s\<lparr>stk := st\<rparr>)"

text \<open>\<^verbatim>\<open>stack.erase(stack.end()-k)\<close> and \<^verbatim>\<open>swap(stacktop(-i), stacktop(-j))\<close>.\<close>

definition erase_at :: "nat \<Rightarrow> bytes list \<Rightarrow> eval_error + bytes list" where
  "erase_at k s = (if 1 \<le> k \<and> k \<le> length s then Inr (take (k - 1) s @ drop k s) else Inl (Exn AtRange))"

definition swap_top :: "nat \<Rightarrow> nat \<Rightarrow> bytes list \<Rightarrow> eval_error + bytes list" where
  "swap_top i j s = bindE (stacktop i s) (\<lambda>a. bindE (stacktop j s) (\<lambda>b. Inr (s[i - 1 := b, j - 1 := a])))"

section \<open>Control\<close>

definition exec_if :: "bool \<Rightarrow> opcodetype \<Rightarrow> eval_state \<Rightarrow> eval_error + eval_state" where
  "exec_if fExec opcode s =
     bindE (if fExec
            then bindE (need 1 (stk s) SCRIPT_ERR_UNBALANCED_CONDITIONAL) (\<lambda>_.
                 bindE (stacktop 1 (stk s)) (\<lambda>vch.
                 bindE (popstack (stk s)) (\<lambda>st.
                 Inr (if opcode = OP_NOTIF then \<not> CastToBool vch else CastToBool vch, st))))
            else Inr (False, stk s)) (\<lambda>(fValue, st).
     Inr (s\<lparr>stk := st, vfExec := fValue # vfExec s\<rparr>))"

definition exec_else :: "eval_state \<Rightarrow> eval_error + eval_state" where
  "exec_else s = (case vfExec s of [] \<Rightarrow> Inl (Err SCRIPT_ERR_UNBALANCED_CONDITIONAL) | f # fs \<Rightarrow> Inr (s\<lparr>vfExec := (\<not> f) # fs\<rparr>))"

definition exec_endif :: "eval_state \<Rightarrow> eval_error + eval_state" where
  "exec_endif s = (case vfExec s of [] \<Rightarrow> Inl (Err SCRIPT_ERR_UNBALANCED_CONDITIONAL) | f # fs \<Rightarrow> Inr (s\<lparr>vfExec := fs\<rparr>))"

definition exec_verify :: "eval_state \<Rightarrow> eval_error + eval_state" where
  "exec_verify s =
     bindE (need 1 (stk s) SCRIPT_ERR_INVALID_STACK_OPERATION) (\<lambda>_.
     bindE (stacktop 1 (stk s)) (\<lambda>vch.
     if CastToBool vch then bindE (popstack (stk s)) (set_stk s) else Inl (Err SCRIPT_ERR_VERIFY)))"

section \<open>Stack operations\<close>

definition exec_altstack :: "opcodetype \<Rightarrow> eval_state \<Rightarrow> eval_error + eval_state" where
  "exec_altstack opcode s =
     (if opcode = OP_TOALTSTACK
      then bindE (need 1 (stk s) SCRIPT_ERR_INVALID_STACK_OPERATION) (\<lambda>_.
           bindE (stacktop 1 (stk s)) (\<lambda>v. bindE (popstack (stk s)) (\<lambda>st.
           Inr (s\<lparr>stk := st, altstk := v # altstk s\<rparr>))))
      else bindE (need 1 (altstk s) SCRIPT_ERR_INVALID_ALTSTACK_OPERATION) (\<lambda>_.
           bindE (stacktop 1 (altstk s)) (\<lambda>v. bindE (popstack (altstk s)) (\<lambda>st.
           Inr (s\<lparr>stk := v # stk s, altstk := st\<rparr>)))))"

definition exec_pick_roll :: "bool \<Rightarrow> opcodetype \<Rightarrow> eval_state \<Rightarrow> eval_error + eval_state" where
  "exec_pick_roll fRequireMinimal opcode s =
     bindE (stacktop 1 (stk s)) (\<lambda>v. bindE (number v fRequireMinimal) (\<lambda>bn.
     bindE (popstack (stk s)) (\<lambda>st.
       let n = getint bn
       in if n < 0 \<or> int (length st) \<le> n then Inl (Err SCRIPT_ERR_INVALID_STACK_OPERATION)
          else bindE (stacktop (nat n + 1) st) (\<lambda>vch.
               bindE (if opcode = OP_ROLL then erase_at (nat n + 1) st else Inr st) (\<lambda>st.
               set_stk s (vch # st))))))"

text \<open>How many elements an operation of this group needs.\<close>

definition stack_need :: "opcodetype \<Rightarrow> nat" where
  "stack_need opcode =
     (if opcode = OP_2DROP \<or> opcode = OP_2DUP \<or> opcode = OP_NIP \<or> opcode = OP_OVER \<or> opcode = OP_PICK \<or> opcode = OP_ROLL
         \<or> opcode = OP_SWAP \<or> opcode = OP_TUCK then 2
      else if opcode = OP_3DUP \<or> opcode = OP_ROT then 3
      else if opcode = OP_2OVER \<or> opcode = OP_2SWAP then 4
      else if opcode = OP_2ROT then 6
      else if opcode = OP_DEPTH then 0 else 1)"

definition exec_stack :: "bool \<Rightarrow> opcodetype \<Rightarrow> eval_state \<Rightarrow> eval_error + eval_state" where
  "exec_stack fRequireMinimal opcode s =
     (let st = stk s
      in bindE (need (stack_need opcode) st SCRIPT_ERR_INVALID_STACK_OPERATION) (\<lambda>_.
         if opcode = OP_2DROP then bindE (popstacks 2 st) (set_stk s)
         else if opcode = OP_2DUP
         then bindE (stacktop 2 st) (\<lambda>v1. bindE (stacktop 1 st) (\<lambda>v2. set_stk s (v2 # v1 # st)))
         else if opcode = OP_3DUP
         then bindE (stacktop 3 st) (\<lambda>v1. bindE (stacktop 2 st) (\<lambda>v2. bindE (stacktop 1 st) (\<lambda>v3. set_stk s (v3 # v2 # v1 # st))))
         else if opcode = OP_2OVER
         then bindE (stacktop 4 st) (\<lambda>v1. bindE (stacktop 3 st) (\<lambda>v2. set_stk s (v2 # v1 # st)))
         else if opcode = OP_2ROT
         then bindE (stacktop 6 st) (\<lambda>v1. bindE (stacktop 5 st) (\<lambda>v2. set_stk s (v2 # v1 # take 4 st @ drop 6 st)))
         else if opcode = OP_2SWAP then bindE (swap_top 4 2 st) (\<lambda>st. bindE (swap_top 3 1 st) (set_stk s))
         else if opcode = OP_IFDUP
         then bindE (stacktop 1 st) (\<lambda>v. set_stk s (if CastToBool v then v # st else st))
         else if opcode = OP_DEPTH then set_stk s (serialize (int (length st)) # st)
         else if opcode = OP_DROP then bindE (popstack st) (set_stk s)
         else if opcode = OP_DUP then bindE (stacktop 1 st) (\<lambda>v. set_stk s (v # st))
         else if opcode = OP_NIP then bindE (erase_at 2 st) (set_stk s)
         else if opcode = OP_OVER then bindE (stacktop 2 st) (\<lambda>v. set_stk s (v # st))
         else if opcode = OP_PICK \<or> opcode = OP_ROLL then exec_pick_roll fRequireMinimal opcode s
         else if opcode = OP_ROT then bindE (swap_top 3 2 st) (\<lambda>st. bindE (swap_top 2 1 st) (set_stk s))
         else if opcode = OP_SWAP then bindE (swap_top 2 1 st) (set_stk s)
         else if opcode = OP_TUCK then bindE (stacktop 1 st) (\<lambda>v. set_stk s (take 2 st @ [v] @ drop 2 st))
         else \<comment> \<open>\<^verbatim>\<open>OP_SIZE\<close>\<close> bindE (stacktop 1 st) (\<lambda>v. set_stk s (serialize (int (length v)) # st))))"

definition exec_equal :: "opcodetype \<Rightarrow> eval_state \<Rightarrow> eval_error + eval_state" where
  "exec_equal opcode s =
     bindE (need 2 (stk s) SCRIPT_ERR_INVALID_STACK_OPERATION) (\<lambda>_.
     bindE (stacktop 2 (stk s)) (\<lambda>vch1. bindE (stacktop 1 (stk s)) (\<lambda>vch2.
     bindE (popstacks 2 (stk s)) (\<lambda>st.
       let fEqual = (vch1 = vch2); st = bool_vch fEqual # st
       in if opcode = OP_EQUALVERIFY
          then if fEqual then bindE (popstack st) (set_stk s) else Inl (Err SCRIPT_ERR_EQUALVERIFY)
          else set_stk s st))))"

section \<open>Numbers\<close>

definition unary_num :: "opcodetype \<Rightarrow> int \<Rightarrow> eval_error + int" where
  "unary_num opcode bn =
     (if opcode = OP_1ADD then in_int64 (bn + 1)
      else if opcode = OP_1SUB then in_int64 (bn - 1)
      else if opcode = OP_NEGATE then in_int64 (- bn)
      else if opcode = OP_ABS then if bn < 0 then in_int64 (- bn) else Inr bn
      else if opcode = OP_NOT then Inr (of_bool_num (bn = 0))
      else Inr (of_bool_num (bn \<noteq> 0)))"

definition binary_num :: "opcodetype \<Rightarrow> int \<Rightarrow> int \<Rightarrow> eval_error + int" where
  "binary_num opcode bn1 bn2 =
     (if opcode = OP_ADD then in_int64 (bn1 + bn2)
      else if opcode = OP_SUB then in_int64 (bn1 - bn2)
      else if opcode = OP_BOOLAND then Inr (of_bool_num (bn1 \<noteq> 0 \<and> bn2 \<noteq> 0))
      else if opcode = OP_BOOLOR then Inr (of_bool_num (bn1 \<noteq> 0 \<or> bn2 \<noteq> 0))
      else if opcode = OP_NUMEQUAL \<or> opcode = OP_NUMEQUALVERIFY then Inr (of_bool_num (bn1 = bn2))
      else if opcode = OP_NUMNOTEQUAL then Inr (of_bool_num (bn1 \<noteq> bn2))
      else if opcode = OP_LESSTHAN then Inr (of_bool_num (bn1 < bn2))
      else if opcode = OP_GREATERTHAN then Inr (of_bool_num (bn2 < bn1))
      else if opcode = OP_LESSTHANOREQUAL then Inr (of_bool_num (bn1 \<le> bn2))
      else if opcode = OP_GREATERTHANOREQUAL then Inr (of_bool_num (bn2 \<le> bn1))
      else if opcode = OP_MIN then Inr (if bn1 < bn2 then bn1 else bn2)
      else Inr (if bn2 < bn1 then bn1 else bn2))"

definition exec_unary :: "bool \<Rightarrow> opcodetype \<Rightarrow> eval_state \<Rightarrow> eval_error + eval_state" where
  "exec_unary fRequireMinimal opcode s =
     bindE (need 1 (stk s) SCRIPT_ERR_INVALID_STACK_OPERATION) (\<lambda>_.
     bindE (stacktop 1 (stk s)) (\<lambda>v. bindE (number v fRequireMinimal) (\<lambda>bn.
     bindE (unary_num opcode bn) (\<lambda>bn. bindE (popstack (stk s)) (\<lambda>st. set_stk s (serialize bn # st))))))"

definition exec_binary :: "bool \<Rightarrow> opcodetype \<Rightarrow> eval_state \<Rightarrow> eval_error + eval_state" where
  "exec_binary fRequireMinimal opcode s =
     bindE (need 2 (stk s) SCRIPT_ERR_INVALID_STACK_OPERATION) (\<lambda>_.
     bindE (stacktop 2 (stk s)) (\<lambda>v1. bindE (number v1 fRequireMinimal) (\<lambda>bn1.
     bindE (stacktop 1 (stk s)) (\<lambda>v2. bindE (number v2 fRequireMinimal) (\<lambda>bn2.
     bindE (binary_num opcode bn1 bn2) (\<lambda>bn. bindE (popstacks 2 (stk s)) (\<lambda>st.
       let st = serialize bn # st
       in if opcode = OP_NUMEQUALVERIFY
          then bindE (stacktop 1 st) (\<lambda>v.
               if CastToBool v then bindE (popstack st) (set_stk s) else Inl (Err SCRIPT_ERR_NUMEQUALVERIFY))
          else set_stk s st)))))))"

definition exec_within :: "bool \<Rightarrow> eval_state \<Rightarrow> eval_error + eval_state" where
  "exec_within fRequireMinimal s =
     bindE (need 3 (stk s) SCRIPT_ERR_INVALID_STACK_OPERATION) (\<lambda>_.
     bindE (stacktop 3 (stk s)) (\<lambda>v1. bindE (number v1 fRequireMinimal) (\<lambda>bn1.
     bindE (stacktop 2 (stk s)) (\<lambda>v2. bindE (number v2 fRequireMinimal) (\<lambda>bn2.
     bindE (stacktop 1 (stk s)) (\<lambda>v3. bindE (number v3 fRequireMinimal) (\<lambda>bn3.
     bindE (popstacks 3 (stk s)) (\<lambda>st. set_stk s (bool_vch (bn2 \<le> bn1 \<and> bn1 < bn3) # st)))))))))"

section \<open>Hashes and signatures\<close>

definition CHash160 :: "eval_env \<Rightarrow> bytes \<Rightarrow> bytes" where "CHash160 env b = ev_RIPEMD160 env (ev_SHA256 env b)"
definition CHash256 :: "eval_env \<Rightarrow> bytes \<Rightarrow> bytes" where "CHash256 env b = ev_SHA256 env (ev_SHA256 env b)"

definition hash_op :: "eval_env \<Rightarrow> opcodetype \<Rightarrow> bytes \<Rightarrow> bytes" where
  "hash_op env opcode v =
     (if opcode = OP_RIPEMD160 then ev_RIPEMD160 env v
      else if opcode = OP_SHA1 then ev_SHA1 env v
      else if opcode = OP_SHA256 then ev_SHA256 env v
      else if opcode = OP_HASH160 then CHash160 env v
      else CHash256 env v)"

definition exec_hash :: "eval_env \<Rightarrow> opcodetype \<Rightarrow> eval_state \<Rightarrow> eval_error + eval_state" where
  "exec_hash env opcode s =
     bindE (need 1 (stk s) SCRIPT_ERR_INVALID_STACK_OPERATION) (\<lambda>_.
     bindE (stacktop 1 (stk s)) (\<lambda>v. bindE (popstack (stk s)) (\<lambda>st. set_stk s (hash_op env opcode v # st))))"

definition lift_err :: "ScriptError + 'a \<Rightarrow> eval_error + 'a" where
  "lift_err r = (case r of Inl e \<Rightarrow> Inl (Err e) | Inr x \<Rightarrow> Inr x)"

definition check_encodings :: "eval_env \<Rightarrow> u32 \<Rightarrow> bytes \<Rightarrow> bytes \<Rightarrow> eval_error + unit" where
  "check_encodings env flags vchSig vchPubKey =
     bindE (lift_err (CheckSignatureEncoding env vchSig flags)) (\<lambda>_. lift_err (CheckPubKeyEncoding vchPubKey flags))"

definition exec_checksig :: "eval_env \<Rightarrow> u32 \<Rightarrow> opcodetype \<Rightarrow> eval_state \<Rightarrow> eval_error + eval_state" where
  "exec_checksig env flags opcode s =
     bindE (need 2 (stk s) SCRIPT_ERR_INVALID_STACK_OPERATION) (\<lambda>_.
     bindE (stacktop 2 (stk s)) (\<lambda>vchSig. bindE (stacktop 1 (stk s)) (\<lambda>vchPubKey.
       let scriptCode = snd (FindAndDelete (pbegincodehash s) (push_data vchSig))
       in bindE (check_encodings env flags vchSig vchPubKey) (\<lambda>_.
          let fSuccess = ev_CheckSig env vchSig vchPubKey scriptCode
          in bindE (popstacks 2 (stk s)) (\<lambda>st.
             if opcode = OP_CHECKSIGVERIFY
             then if fSuccess then set_stk s st else Inl (Err SCRIPT_ERR_CHECKSIGVERIFY)
             else set_stk s (bool_vch fSuccess # st))))))"

fun delete_sigs :: "bytes list \<Rightarrow> nat \<Rightarrow> nat \<Rightarrow> bytes \<Rightarrow> eval_error + bytes" where
  "delete_sigs st isig 0 scriptCode = Inr scriptCode"
| "delete_sigs st isig (Suc n) scriptCode =
     bindE (stacktop isig st) (\<lambda>vchSig. delete_sigs st (isig + 1) n (snd (FindAndDelete scriptCode (push_data vchSig))))"

text \<open>The loop over keys and signatures; the result is \<open>fSuccess\<close>.\<close>

function multisig_loop :: "eval_env \<Rightarrow> u32 \<Rightarrow> bytes \<Rightarrow> bytes list \<Rightarrow> nat \<Rightarrow> int \<Rightarrow> nat \<Rightarrow> int \<Rightarrow> eval_error + bool" where
  "multisig_loop env flags scriptCode st isig nSigsCount ikey nKeysCount =
     (if nSigsCount \<le> 0 then Inr True
      else bindE (stacktop isig st) (\<lambda>vchSig. bindE (stacktop ikey st) (\<lambda>vchPubKey.
           bindE (check_encodings env flags vchSig vchPubKey) (\<lambda>_.
             let fOk = ev_CheckSig env vchSig vchPubKey scriptCode;
                 isig = (if fOk then isig + 1 else isig);
                 nSigsCount = (if fOk then nSigsCount - 1 else nSigsCount)
             in if nKeysCount - 1 < nSigsCount then Inr False
                else multisig_loop env flags scriptCode st isig nSigsCount (ikey + 1) (nKeysCount - 1)))))"
  by pat_completeness auto
termination
  by (relation "measure (\<lambda>(e, f, c, st, is, ns, ik, nk). nat nk)") (auto split: if_splits)

declare multisig_loop.simps [simp del]

text \<open>
  The part behind the checks of the two counts: \<open>i\<close> counts the arguments, \<open>ikey\<close> and
  \<open>isig\<close> are the positions of the first key and the first signature.
\<close>

definition multisig_check :: "eval_env \<Rightarrow> u32 \<Rightarrow> opcodetype \<Rightarrow> eval_state \<Rightarrow> nat \<Rightarrow> nat \<Rightarrow> nat \<Rightarrow> int \<Rightarrow> int \<Rightarrow> eval_error + eval_state" where
  "multisig_check env flags opcode s i ikey isig nKeysCount nSigsCount =
     bindE (need i (stk s) SCRIPT_ERR_INVALID_STACK_OPERATION) (\<lambda>_.
     bindE (delete_sigs (stk s) isig (nat nSigsCount) (pbegincodehash s)) (\<lambda>scriptCode.
     bindE (multisig_loop env flags scriptCode (stk s) isig nSigsCount ikey nKeysCount) (\<lambda>fSuccess.
     bindE (popstacks (i - 1) (stk s)) (\<lambda>st.
     bindE (need 1 st SCRIPT_ERR_INVALID_STACK_OPERATION) (\<lambda>_.
     bindE (stacktop 1 st) (\<lambda>dummy.
       if flags AND SCRIPT_VERIFY_NULLDUMMY \<noteq> 0 \<and> length dummy \<noteq> 0 then Inl (Err SCRIPT_ERR_SIG_NULLDUMMY)
       else bindE (popstack st) (\<lambda>st.
            if opcode = OP_CHECKMULTISIGVERIFY
            then if fSuccess then set_stk s st else Inl (Err SCRIPT_ERR_CHECKMULTISIGVERIFY)
            else set_stk s (bool_vch fSuccess # st))))))))"

definition exec_multisig :: "eval_env \<Rightarrow> u32 \<Rightarrow> bool \<Rightarrow> opcodetype \<Rightarrow> eval_state \<Rightarrow> eval_error + eval_state" where
  "exec_multisig env flags fRequireMinimal opcode s =
     bindE (need 1 (stk s) SCRIPT_ERR_INVALID_STACK_OPERATION) (\<lambda>_.
     bindE (stacktop 1 (stk s)) (\<lambda>v. bindE (number v fRequireMinimal) (\<lambda>bn.
       let nKeysCount = getint bn
       in if nKeysCount < 0 \<or> 20 < nKeysCount then Inl (Err SCRIPT_ERR_PUBKEY_COUNT)
          else let s = s\<lparr>nOpCount := nOpCount s + nKeysCount\<rparr>
               in if 201 < nOpCount s then Inl (Err SCRIPT_ERR_OP_COUNT)
                  else let ikey = 2; i = 2 + nat nKeysCount
                       in bindE (need i (stk s) SCRIPT_ERR_INVALID_STACK_OPERATION) (\<lambda>_.
                          bindE (stacktop i (stk s)) (\<lambda>v. bindE (number v fRequireMinimal) (\<lambda>bn.
                            let nSigsCount = getint bn
                            in if nSigsCount < 0 \<or> nKeysCount < nSigsCount then Inl (Err SCRIPT_ERR_SIG_COUNT)
                               else multisig_check env flags opcode s (i + 1 + nat nSigsCount) ikey (i + 1) nKeysCount nSigsCount))))))"

section \<open>One instruction\<close>

definition disabled :: "opcodetype \<Rightarrow> bool" where
  "disabled opcode \<longleftrightarrow> opcode = OP_CAT \<or> opcode = OP_SUBSTR \<or> opcode = OP_LEFT \<or> opcode = OP_RIGHT \<or> opcode = OP_INVERT
     \<or> opcode = OP_AND \<or> opcode = OP_OR \<or> opcode = OP_XOR \<or> opcode = OP_2MUL \<or> opcode = OP_2DIV \<or> opcode = OP_MUL
     \<or> opcode = OP_DIV \<or> opcode = OP_MOD \<or> opcode = OP_LSHIFT \<or> opcode = OP_RSHIFT"

text \<open>The switch; \<open>pc\<close> is the iterator behind the instruction.\<close>

definition exec_op :: "eval_env \<Rightarrow> u32 \<Rightarrow> bool \<Rightarrow> bytes \<Rightarrow> opcodetype \<Rightarrow> eval_state \<Rightarrow> eval_error + eval_state" where
  "exec_op env flags fExec pc opcode s =
     (let fRequireMinimal = (flags AND SCRIPT_VERIFY_MINIMALDATA \<noteq> 0)
      in if opcode = OP_1NEGATE \<or> (OP_1 \<le> opcode \<and> opcode \<le> OP_16)
         then push (serialize (uint opcode - (uint OP_1 - 1))) s
         else if opcode = OP_NOP then Inr s
         else if OP_NOP1 \<le> opcode \<and> opcode \<le> OP_NOP10
         then if flags AND SCRIPT_VERIFY_DISCOURAGE_UPGRADABLE_NOPS \<noteq> 0 then Inl (Err SCRIPT_ERR_DISCOURAGE_UPGRADABLE_NOPS) else Inr s
         else if opcode = OP_IF \<or> opcode = OP_NOTIF then exec_if fExec opcode s
         else if opcode = OP_ELSE then exec_else s
         else if opcode = OP_ENDIF then exec_endif s
         else if opcode = OP_VERIFY then exec_verify s
         else if opcode = OP_RETURN then Inl (Err SCRIPT_ERR_OP_RETURN)
         else if opcode = OP_TOALTSTACK \<or> opcode = OP_FROMALTSTACK then exec_altstack opcode s
         else if OP_2DROP \<le> opcode \<and> opcode \<le> OP_TUCK \<or> opcode = OP_SIZE then exec_stack fRequireMinimal opcode s
         else if opcode = OP_EQUAL \<or> opcode = OP_EQUALVERIFY then exec_equal opcode s
         else if opcode = OP_1ADD \<or> opcode = OP_1SUB \<or> OP_NEGATE \<le> opcode \<and> opcode \<le> OP_0NOTEQUAL then exec_unary fRequireMinimal opcode s
         else if opcode = OP_ADD \<or> opcode = OP_SUB \<or> OP_BOOLAND \<le> opcode \<and> opcode \<le> OP_MAX then exec_binary fRequireMinimal opcode s
         else if opcode = OP_WITHIN then exec_within fRequireMinimal s
         else if OP_RIPEMD160 \<le> opcode \<and> opcode \<le> OP_HASH256 then exec_hash env opcode s
         else if opcode = OP_CODESEPARATOR then Inr (s\<lparr>pbegincodehash := pc\<rparr>)
         else if opcode = OP_CHECKSIG \<or> opcode = OP_CHECKSIGVERIFY then exec_checksig env flags opcode s
         else if opcode = OP_CHECKMULTISIG \<or> opcode = OP_CHECKMULTISIGVERIFY then exec_multisig env flags fRequireMinimal opcode s
         else Inl (Err SCRIPT_ERR_BAD_OPCODE))"

definition MAX_SCRIPT_ELEMENT_SIZE :: nat where "MAX_SCRIPT_ELEMENT_SIZE = 520"

text \<open>The body of the loop on the instruction that \<^verbatim>\<open>GetOp\<close> decoded.\<close>

definition exec_instruction :: "eval_env \<Rightarrow> u32 \<Rightarrow> opcodetype \<Rightarrow> bytes \<Rightarrow> bytes \<Rightarrow> eval_state \<Rightarrow> eval_error + eval_state" where
  "exec_instruction env flags opcode vchPushValue pc s =
     (let fExec = (\<forall>f\<in>set (vfExec s). f)
      in if MAX_SCRIPT_ELEMENT_SIZE < length vchPushValue then Inl (Err SCRIPT_ERR_PUSH_SIZE)
         else let s = (if OP_16 < opcode then s\<lparr>nOpCount := nOpCount s + 1\<rparr> else s)
              in if OP_16 < opcode \<and> 201 < nOpCount s then Inl (Err SCRIPT_ERR_OP_COUNT)
                 else if disabled opcode then Inl (Err SCRIPT_ERR_DISABLED_OPCODE)
                 else bindE (if fExec \<and> opcode \<le> OP_PUSHDATA4
                             then if flags AND SCRIPT_VERIFY_MINIMALDATA \<noteq> 0 \<and> \<not> CheckMinimalPush vchPushValue opcode
                                  then Inl (Err SCRIPT_ERR_MINIMALDATA) else push vchPushValue s
                             else if fExec \<or> OP_IF \<le> opcode \<and> opcode \<le> OP_ENDIF then exec_op env flags fExec pc opcode s
                             else Inr s) (\<lambda>s.
                      if 1000 < length (stk s) + length (altstk s) then Inl (Err SCRIPT_ERR_STACK_SIZE) else Inr s))"

function eval_loop :: "eval_env \<Rightarrow> u32 \<Rightarrow> bytes \<Rightarrow> eval_state \<Rightarrow> eval_error + eval_state" where
  "eval_loop env flags pc s =
     (if pc = [] then Inr s
      else case GetOp pc of (ok, opcode, vchPushValue, pc') \<Rightarrow>
        if \<not> ok then Inl (Err SCRIPT_ERR_BAD_OPCODE)
        else bindE (exec_instruction env flags opcode vchPushValue pc' s) (eval_loop env flags pc'))"
  by pat_completeness auto
termination by (relation "measure (\<lambda>(e, f, pc, s). length pc)") (auto dest: GetOp_progress [OF sym])

declare eval_loop.simps [simp del]

text \<open>
  \<^verbatim>\<open>EvalScript\<close>: the loop, the handler that turns every exception into one error, and the
  check that no conditional is open. A failure leaves the stack undefined for the callers, which
  all drop it.
\<close>

definition eval_start :: "bytes \<Rightarrow> bytes list \<Rightarrow> eval_state" where
  "eval_start script stack = \<lparr>stk = stack, altstk = [], vfExec = [], nOpCount = 0, pbegincodehash = script\<rparr>"

definition EvalScript :: "eval_env \<Rightarrow> bytes list \<Rightarrow> bytes \<Rightarrow> u32 \<Rightarrow> ScriptError + bytes list" where
  "EvalScript env stack script flags =
     (if 10000 < length script then Inl SCRIPT_ERR_SCRIPT_SIZE
      else case eval_loop env flags script (eval_start script stack) of
             Inl (Exn e) \<Rightarrow> Inl SCRIPT_ERR_UNKNOWN_ERROR
           | Inl (Err e) \<Rightarrow> Inl e
           | Inr s \<Rightarrow> if vfExec s \<noteq> [] then Inl SCRIPT_ERR_UNBALANCED_CONDITIONAL else Inr (stk s))"

section \<open>Verifying an input\<close>

text \<open>An outcome \<open>None\<close> is the failed assertion that the copied stack is not empty.\<close>

definition VerifyScript :: "eval_env \<Rightarrow> bytes \<Rightarrow> bytes \<Rightarrow> u32 \<Rightarrow> (ScriptError + unit) option" where
  "VerifyScript env scriptSig' scriptPubKey' flags =
     (if flags AND SCRIPT_VERIFY_SIGPUSHONLY \<noteq> 0 \<and> \<not> IsPushOnly scriptSig' then Some (Inl SCRIPT_ERR_SIG_PUSHONLY)
      else case EvalScript env [] scriptSig' flags of
             Inl e \<Rightarrow> Some (Inl e)
           | Inr stackCopy \<Rightarrow> (case EvalScript env stackCopy scriptPubKey' flags of
               Inl e \<Rightarrow> Some (Inl e)
             | Inr [] \<Rightarrow> Some (Inl SCRIPT_ERR_EVAL_FALSE)
             | Inr (v # st) \<Rightarrow>
                 if \<not> CastToBool v then Some (Inl SCRIPT_ERR_EVAL_FALSE)
                 else if flags AND SCRIPT_VERIFY_P2SH \<noteq> 0 \<and> IsPayToScriptHash scriptPubKey'
                 then if \<not> IsPushOnly scriptSig' then Some (Inl SCRIPT_ERR_SIG_PUSHONLY)
                      else (case stackCopy of
                              [] \<Rightarrow> None
                            | pubKey2 # stackCopy \<Rightarrow> (case EvalScript env stackCopy pubKey2 flags of
                                Inl e \<Rightarrow> Some (Inl e)
                              | Inr [] \<Rightarrow> Some (Inl SCRIPT_ERR_EVAL_FALSE)
                              | Inr (v # st) \<Rightarrow> Some (if CastToBool v then Inr () else Inl SCRIPT_ERR_EVAL_FALSE)))
                 else Some (Inr ())))"

section \<open>The signature hash\<close>

function count_separators :: "bytes \<Rightarrow> nat" where
  "count_separators pc =
     (case GetOp pc of (ok, opcode, v, pc') \<Rightarrow>
        if pc \<noteq> [] \<and> ok then (if opcode = OP_CODESEPARATOR then 1 else 0) + count_separators pc' else 0)"
  by pat_completeness auto
termination by (relation "measure length") (auto dest: GetOp_progress [OF sym])

text \<open>The bytes from \<open>begin\<close> on are still to be written when the iterator is at \<open>pc\<close>.\<close>

function write_code :: "bytes \<Rightarrow> bytes \<Rightarrow> bytes \<Rightarrow> bytes" where
  "write_code out itBegin pc =
     (case GetOp pc of (ok, opcode, v, pc') \<Rightarrow>
        if pc \<noteq> [] \<and> ok
        then if opcode = OP_CODESEPARATOR
             then write_code (out @ take (length itBegin - length pc' - 1) itBegin) pc' pc'
             else write_code out itBegin pc'
        else out @ (if itBegin \<noteq> [] then take (length itBegin - length pc') itBegin else []))"
  by pat_completeness auto
termination by (relation "measure (\<lambda>(out, b, pc). length pc)") (auto dest: GetOp_progress [OF sym])

declare count_separators.simps [simp del] write_code.simps [simp del]

definition SerializeScriptCode :: "bytes \<Rightarrow> bytes" where
  "SerializeScriptCode scriptCode =
     WriteCompactSize (of_nat (length scriptCode - count_separators scriptCode)) @ write_code [] scriptCode scriptCode"

definition fAnyoneCanPay :: "int \<Rightarrow> bool" where "fAnyoneCanPay nHashType \<longleftrightarrow> nHashType AND 0x80 \<noteq> 0"
definition fHashSingle :: "int \<Rightarrow> bool" where "fHashSingle nHashType \<longleftrightarrow> nHashType AND 0x1f = 3"
definition fHashNone :: "int \<Rightarrow> bool" where "fHashNone nHashType \<longleftrightarrow> nHashType AND 0x1f = 2"

definition SerializeInput :: "CTransaction \<Rightarrow> bytes \<Rightarrow> nat \<Rightarrow> int \<Rightarrow> nat \<Rightarrow> bytes" where
  "SerializeInput txTo scriptCode nIn nHashType nInput0 =
     (let nInput = (if fAnyoneCanPay nHashType then nIn else nInput0); txin = vin txTo ! nInput
      in ser_outpoint (prevout txin)
         @ (if nInput \<noteq> nIn then ser_blob [] else SerializeScriptCode scriptCode)
         @ (if nInput \<noteq> nIn \<and> (fHashSingle nHashType \<or> fHashNone nHashType) then ser_int 4 0 else ser_u32 (nSequence txin)))"

definition SerializeOutput :: "CTransaction \<Rightarrow> nat \<Rightarrow> int \<Rightarrow> nat \<Rightarrow> bytes" where
  "SerializeOutput txTo nIn nHashType nOutput =
     ser_txout (if fHashSingle nHashType \<and> nOutput \<noteq> nIn then CTxOut_SetNull else vout txTo ! nOutput)"

definition SerializeForSignature :: "CTransaction \<Rightarrow> bytes \<Rightarrow> nat \<Rightarrow> int \<Rightarrow> bytes" where
  "SerializeForSignature txTo scriptCode nIn nHashType =
     (let nInputs = (if fAnyoneCanPay nHashType then 1 else length (vin txTo));
          nOutputs = (if fHashNone nHashType then 0 else if fHashSingle nHashType then nIn + 1 else length (vout txTo))
      in ser_int 4 (tx_nVersion txTo)
         @ WriteCompactSize (of_nat nInputs) @ concat (map (SerializeInput txTo scriptCode nIn nHashType) [0..<nInputs])
         @ WriteCompactSize (of_nat nOutputs) @ concat (map (SerializeOutput txTo nIn nHashType) [0..<nOutputs])
         @ ser_u32 (nLockTime txTo))"

definition SignatureHash :: "(bytes \<Rightarrow> base_uint) \<Rightarrow> bytes \<Rightarrow> CTransaction \<Rightarrow> nat \<Rightarrow> int \<Rightarrow> base_uint" where
  "SignatureHash Hash scriptCode txTo nIn nHashType =
     (if length (vin txTo) \<le> nIn then uint256_of_u64 1
      else if fHashSingle nHashType \<and> length (vout txTo) \<le> nIn then uint256_of_u64 1
      else Hash (SerializeForSignature txTo scriptCode nIn nHashType @ ser_int 4 nHashType))"

text \<open>The key constructor keeps the bytes or invalidates the key; \<open>Verify\<close> is the curve.\<close>

definition CPubKey_GetLen :: "u8 \<Rightarrow> nat" where
  "CPubKey_GetLen chHeader =
     (if chHeader = 2 \<or> chHeader = 3 then 33 else if chHeader = 4 \<or> chHeader = 6 \<or> chHeader = 7 then 65 else 0)"

definition CPubKey_Set :: "bytes \<Rightarrow> bytes" where
  "CPubKey_Set v =
     (let len = (if v = [] then 0 else CPubKey_GetLen (v ! 0)) in if len \<noteq> 0 \<and> len = length v then v else [0xFF])"

definition CPubKey_IsValid :: "bytes \<Rightarrow> bool" where
  "CPubKey_IsValid key \<longleftrightarrow> 0 < CPubKey_GetLen (key ! 0)"

definition TransactionSignatureChecker_CheckSig ::
    "(bytes \<Rightarrow> base_uint) \<Rightarrow> (bytes \<Rightarrow> base_uint \<Rightarrow> bytes \<Rightarrow> bool) \<Rightarrow> CTransaction \<Rightarrow> nat \<Rightarrow> bytes \<Rightarrow> bytes \<Rightarrow> bytes \<Rightarrow> bool" where
  "TransactionSignatureChecker_CheckSig Hash Verify txTo nIn vchSigIn vchPubKey scriptCode =
     (let pubkey = CPubKey_Set vchPubKey
      in if \<not> CPubKey_IsValid pubkey then False
         else if vchSigIn = [] then False
         else let nHashType = uint (last vchSigIn); vchSig = butlast vchSigIn
              in Verify pubkey (SignatureHash Hash scriptCode txTo nIn nHashType) vchSig)"

section \<open>No access out of range\<close>

text \<open>The only exceptions are those of the number decoder.\<close>

definition safe :: "eval_error + 'a \<Rightarrow> bool" where
  "safe r \<longleftrightarrow> (\<forall>e. r = Inl (Exn e) \<longrightarrow> (\<exists>ne. e = NumError ne))"

lemma safe_simps [simp]: "safe (Inr x)" "safe (Inl (Err e))" "safe (Inl (Exn (NumError ne)))"
  by (simp_all add: safe_def)

lemma safe_bindE: "safe m \<Longrightarrow> (\<And>x. m = Inr x \<Longrightarrow> safe (f x)) \<Longrightarrow> safe (bindE m f)"
  by (cases m) (simp_all add: safe_def)

lemma need_Inr [simp]: "need n st e = Inr u \<longleftrightarrow> n \<le> length st"
  by (auto simp: need_def)

lemma safe_need [simp]: "safe (need n st e)"
  by (simp add: need_def)

lemma safe_stacktop: "1 \<le> k \<Longrightarrow> k \<le> length st \<Longrightarrow> safe (stacktop k st)"
  by (simp add: stacktop_def)

lemma safe_popstacks: "n \<le> length st \<Longrightarrow> safe (popstacks n st)"
  by (induction n st rule: popstacks.induct) (auto simp: popstack_def split: list.splits)

lemma popstacks_drop: "n \<le> length st \<Longrightarrow> popstacks n st = Inr (drop n st)"
  by (induction n arbitrary: st) (auto simp: popstack_def neq_Nil_conv Suc_le_length_iff)

lemma popstack_tl: "st \<noteq> [] \<Longrightarrow> popstack st = Inr (tl st)"
  by (cases st) (simp_all add: popstack_def)

lemma safe_number: "safe (number v m)"
  by (simp add: number_def split: sum.split)

lemma safe_set_stk [simp]: "safe (set_stk s st)" "safe (push v s)"
  by (simp_all add: set_stk_def push_def)

lemma safe_lift_err [simp]: "safe (lift_err r)"
  by (cases r) (simp_all add: lift_err_def)

lemma safe_check_encodings: "safe (check_encodings env flags sig key)"
  unfolding check_encodings_def by (intro safe_bindE) simp_all

lemma safe_erase_at: "1 \<le> k \<Longrightarrow> k \<le> length st \<Longrightarrow> safe (erase_at k st)"
  by (simp add: erase_at_def)

lemma safe_swap_top: "1 \<le> i \<Longrightarrow> i \<le> length st \<Longrightarrow> 1 \<le> j \<Longrightarrow> j \<le> length st \<Longrightarrow> safe (swap_top i j st)"
  by (simp add: swap_top_def stacktop_def)

lemma swap_top_length: "swap_top i j st = Inr st' \<Longrightarrow> length st' = length st"
  by (auto simp: swap_top_def stacktop_def split: if_splits)

lemma number_bound: "number v m = Inr n \<Longrightarrow> \<bar>n\<bar> < 2 ^ 31"
proof -
  assume "number v m = Inr n"
  then have n: "length v \<le> 4" "n = set_vch v"
    by (auto simp: number_def CScriptNum_def nMaxNumSize_def split: sum.splits if_splits)
  show "\<bar>n\<bar> < 2 ^ 31"
  proof (cases v rule: rev_cases)
    case Nil
    then show ?thesis by (simp add: n(2) set_vch_def)
  next
    case (snoc xs t)
    have "le_nat xs + 256 ^ length xs * (unat t mod 128) < 256 ^ length xs * 128"
      by (rule mod_mult_add_lt) (use le_nat_lt [of xs] in simp_all)
    also have "\<dots> \<le> 256 ^ 3 * 128" using n(1) snoc by (intro mult_le_mono1 power_increasing) simp_all
    finally have "le_nat xs + 256 ^ length xs * (unat t mod 128) < 2 ^ 31" by simp
    then show ?thesis unfolding n(2) snoc set_vch_abs by (metis of_nat_less_iff of_nat_numeral of_nat_power)
  qed
qed

lemma in_int64_ok: "- (2 ^ 33) \<le> n \<Longrightarrow> n \<le> 2 ^ 33 \<Longrightarrow> in_int64 n = Inr n"
  by (simp add: in_int64_def)

lemma unary_num_ok:
  assumes "\<bar>n\<bar> < 2 ^ 31"
  shows "\<exists>r. unary_num opcode n = Inr r"
proof -
  have "in_int64 (n + 1) = Inr (n + 1)" "in_int64 (n - 1) = Inr (n - 1)" "in_int64 (- n) = Inr (- n)"
    using assms by (simp_all add: in_int64_ok)
  then show ?thesis by (simp add: unary_num_def)
qed

lemma binary_num_ok:
  assumes "\<bar>a\<bar> < 2 ^ 31" and "\<bar>b\<bar> < 2 ^ 31"
  shows "\<exists>r. binary_num opcode a b = Inr r"
proof -
  have "in_int64 (a + b) = Inr (a + b)" "in_int64 (a - b) = Inr (a - b)"
    using assms by (simp_all add: in_int64_ok)
  then show ?thesis by (simp add: binary_num_def)
qed

lemma need_length: "need n st e = Inr u \<Longrightarrow> n \<le> length st"
  by simp

lemma length_ge_2: "2 \<le> length st \<Longrightarrow> \<exists>a b st'. st = a # b # st'"
  by (auto simp: numeral_2_eq_2 Suc_le_length_iff)

lemma length_ge_1: "1 \<le> length st \<Longrightarrow> \<exists>a st'. st = a # st'"
  by (auto simp: Suc_le_length_iff)

lemma safe_if: "(c \<Longrightarrow> safe a) \<Longrightarrow> (\<not> c \<Longrightarrow> safe b) \<Longrightarrow> safe (if c then a else b)"
  by simp

lemma safe_popstack: "1 \<le> length st \<Longrightarrow> safe (popstack st)"
  by (auto simp: popstack_def split: list.split)

lemma popstack_Inr: "popstack st = Inr st' \<longleftrightarrow> (\<exists>v. st = v # st')"
  by (cases st) (auto simp: popstack_def)

lemma safe_unary_num: "number v m = Inr n \<Longrightarrow> safe (unary_num opcode n)"
  using number_bound [of v m n] unary_num_ok [of n opcode] by auto

lemma safe_binary_num: "number v m = Inr a \<Longrightarrow> number w m = Inr b \<Longrightarrow> safe (binary_num opcode a b)"
  using number_bound [of v m a] number_bound [of w m b] binary_num_ok [of a b opcode] by auto

lemmas safe_intros = safe_bindE safe_if safe_need safe_stacktop safe_popstack safe_popstacks safe_number safe_erase_at
  safe_swap_top safe_check_encodings safe_unary_num safe_binary_num

lemma safe_exec_if: "safe (exec_if fExec opcode s)"
  unfolding exec_if_def by (auto intro!: safe_intros split: prod.split)

lemma safe_exec_verify: "safe (exec_verify s)"
  unfolding exec_verify_def by (auto intro!: safe_intros)

lemma safe_exec_altstack: "safe (exec_altstack opcode s)"
  unfolding exec_altstack_def by (auto intro!: safe_intros)

lemma safe_exec_pick_roll: "2 \<le> length (stk s) \<Longrightarrow> safe (exec_pick_roll m opcode s)"
  unfolding exec_pick_roll_def Let_def by (auto intro!: safe_intros simp: popstack_Inr)

lemma safe_exec_stack: "safe (exec_stack m opcode s)"
  unfolding exec_stack_def Let_def
  by (intro safe_bindE safe_if safe_need; auto intro!: safe_intros safe_exec_pick_roll simp: stack_need_def swap_top_length)

lemma safe_exec_equal: "safe (exec_equal opcode s)"
  unfolding exec_equal_def Let_def by (auto intro!: safe_intros)

lemma safe_exec_unary: "safe (exec_unary m opcode s)"
  unfolding exec_unary_def by (auto intro!: safe_intros)

lemma safe_exec_binary: "safe (exec_binary m opcode s)"
  unfolding exec_binary_def Let_def by (auto intro!: safe_intros)

lemma safe_exec_within: "safe (exec_within m s)"
  unfolding exec_within_def by (auto intro!: safe_intros)

lemma safe_exec_hash: "safe (exec_hash env opcode s)"
  unfolding exec_hash_def by (auto intro!: safe_intros)

lemma safe_exec_checksig: "safe (exec_checksig env flags opcode s)"
  unfolding exec_checksig_def Let_def by (auto intro!: safe_intros)

lemma safe_delete_sigs: "1 \<le> isig \<Longrightarrow> isig + n \<le> Suc (length st) \<Longrightarrow> safe (delete_sigs st isig n code)"
  by (induction st isig n code rule: delete_sigs.induct) (auto intro!: safe_intros)

lemma safe_multisig_loop:
  "1 \<le> isig \<Longrightarrow> 1 \<le> ikey \<Longrightarrow> nSigs \<le> nKeys \<Longrightarrow> isig + nat nSigs \<le> Suc (length st) \<Longrightarrow> ikey + nat nKeys \<le> Suc (length st)
   \<Longrightarrow> safe (multisig_loop env flags code st isig nSigs ikey nKeys)"
proof (induction env flags code st isig nSigs ikey nKeys rule: multisig_loop.induct)
  case (1 env flags code st isig nSigs ikey nKeys)
  show ?case
  proof (cases "nSigs \<le> 0")
    case True
    then show ?thesis by (subst multisig_loop.simps) simp
  next
    case False
    show ?thesis
      using False 1(2-) by (subst multisig_loop.simps) (auto intro!: safe_intros 1(1) simp: Let_def nat_diff_distrib)
  qed
qed

lemma safe_multisig_check:
  assumes "1 \<le> ikey" and "nSigs \<le> nKeys" and "0 \<le> nSigs" and "1 \<le> isig" and "i = isig + nat nSigs" and "ikey + nat nKeys \<le> isig"
  shows "safe (multisig_check env flags opcode s i ikey isig nKeys nSigs)"
  using assms unfolding multisig_check_def
  by (auto intro!: safe_intros safe_delete_sigs safe_multisig_loop)

lemma safe_exec_multisig: "safe (exec_multisig env flags m opcode s)"
proof -
  have check: "\<not> (n < 0 \<or> k < n) \<Longrightarrow> safe (multisig_check env flags opcode s' (2 + nat k + 1 + nat n) 2 (2 + nat k + 1) k n)" for s' k n
    by (intro safe_multisig_check) auto
  have one: "(1::nat) \<le> 2 + n" for n by simp
  show ?thesis
    unfolding exec_multisig_def Let_def
    by (intro safe_bindE safe_if safe_need safe_number safe_stacktop safe_simps(2) check one order_refl) (simp_all only: need_Inr not_False_eq_True)
qed

lemma safe_exec_else: "safe (exec_else s)" "safe (exec_endif s)"
  by (simp_all add: exec_else_def exec_endif_def split: list.split)

lemma safe_exec_op: "safe (exec_op env flags fExec pc opcode s)"
  unfolding exec_op_def Let_def
  by (intro safe_if safe_simps safe_set_stk safe_exec_if safe_exec_else safe_exec_verify safe_exec_altstack safe_exec_stack
      safe_exec_equal safe_exec_unary safe_exec_binary safe_exec_within safe_exec_hash safe_exec_checksig safe_exec_multisig)

lemma safe_exec_instruction: "safe (exec_instruction env flags opcode v pc s)"
  unfolding exec_instruction_def Let_def
  by (intro safe_if safe_bindE safe_simps safe_set_stk safe_exec_op)

lemma safe_eval_loop: "safe (eval_loop env flags pc s)"
proof (induction env flags pc s rule: eval_loop.induct)
  case (1 env flags pc s)
  show ?case
    by (subst eval_loop.simps) (auto intro!: safe_bindE safe_if 1 safe_exec_instruction split: prod.split)
qed

text \<open>An empty stack fails the hash of a pay-to-script-hash output, so the assertion holds.\<close>

lemma EvalScript_p2sh_empty:
  assumes "IsPayToScriptHash script"
  shows "EvalScript env [] script flags = Inl SCRIPT_ERR_INVALID_STACK_OPERATION"
proof -
  obtain rest where script: "script = OP_HASH160 # rest" "length script = 23"
    using assms by (cases script) (auto simp: IsPayToScriptHash_def)
  have "exec_hash env OP_HASH160 (s\<lparr>stk := []\<rparr>) = Inl (Err SCRIPT_ERR_INVALID_STACK_OPERATION)" for s
    by (simp add: exec_hash_def need_def)
  then have "exec_instruction env flags OP_HASH160 [] rest (eval_start script []) = Inl (Err SCRIPT_ERR_INVALID_STACK_OPERATION)"
    by (simp add: exec_instruction_def eval_start_def disabled_def exec_op_def MAX_SCRIPT_ELEMENT_SIZE_def exec_hash_def need_def)
  then have "eval_loop env flags script (eval_start script []) = Inl (Err SCRIPT_ERR_INVALID_STACK_OPERATION)"
    using script(1) by (subst eval_loop.simps) simp
  then show ?thesis using script(2) by (simp add: EvalScript_def)
qed

section \<open>Limits\<close>

definition small :: "bytes \<Rightarrow> bool" where "small v \<longleftrightarrow> length v \<le> MAX_SCRIPT_ELEMENT_SIZE"

definition smalls :: "eval_state \<Rightarrow> bool" where
  "smalls s \<longleftrightarrow> (\<forall>v\<in>set (stk s). small v) \<and> (\<forall>v\<in>set (altstk s). small v)"

text \<open>What the code relies on: the digests are short.\<close>

definition short_digests :: "eval_env \<Rightarrow> bool" where
  "short_digests env \<longleftrightarrow> (\<forall>b. length (ev_RIPEMD160 env b) = 20 \<and> length (ev_SHA1 env b) = 20 \<and> length (ev_SHA256 env b) = 32)"

lemma length_abs_bytes: "n < 256 ^ k \<Longrightarrow> length (abs_bytes n) \<le> k"
proof (induction k arbitrary: n)
  case 0
  then show ?case by (simp add: abs_bytes.simps)
next
  case (Suc k)
  have "n div 256 < 256 ^ k" using Suc.prems by (simp add: less_mult_imp_div_less mult.commute)
  then show ?case using Suc.IH [of "n div 256"] by (subst abs_bytes.simps) simp
qed

lemma small_serialize: "\<bar>n\<bar> < 2 ^ 64 \<Longrightarrow> small (serialize n)"
proof -
  assume "\<bar>n\<bar> < 2 ^ 64"
  then have "nat \<bar>n\<bar> < 256 ^ 8" by simp
  then have "length (abs_bytes (nat \<bar>n\<bar>)) \<le> 8" by (rule length_abs_bytes)
  then show ?thesis by (auto simp: serialize_def Let_def small_def MAX_SCRIPT_ELEMENT_SIZE_def)
qed

lemma stacktop_Inr: "stacktop k st = Inr v \<longleftrightarrow> 1 \<le> k \<and> k \<le> length st \<and> v = st ! (k - 1)"
  by (auto simp: stacktop_def)

lemma popstacks_Inr: "popstacks n st = Inr st' \<longleftrightarrow> n \<le> length st \<and> st' = drop n st"
proof (induction n arbitrary: st)
  case (Suc n)
  then show ?case by (cases st) (auto simp: popstack_def)
qed auto

lemma set_stk_Inr: "set_stk s st = Inr s' \<longleftrightarrow> s' = s\<lparr>stk := st\<rparr>"
  by (auto simp: set_stk_def)

lemma erase_at_Inr: "erase_at k st = Inr st' \<longleftrightarrow> 1 \<le> k \<and> k \<le> length st \<and> st' = take (k - 1) st @ drop k st"
  by (auto simp: erase_at_def)

lemma swap_top_Inr: "swap_top i j st = Inr st' \<longleftrightarrow> 1 \<le> i \<and> i \<le> length st \<and> 1 \<le> j \<and> j \<le> length st \<and> st' = st[i - 1 := st ! (j - 1), j - 1 := st ! (i - 1)]"
  by (auto simp: swap_top_def stacktop_def)

lemma small_bool [simp]: "small (bool_vch b)"
  by (simp add: small_def bool_vch_def vchTrue_def vchFalse_def MAX_SCRIPT_ELEMENT_SIZE_def)

lemma small_swap: "\<forall>v\<in>set st. small v \<Longrightarrow> swap_top i j st = Inr st' \<Longrightarrow> \<forall>v\<in>set st'. small v"
proof -
  assume st: "\<forall>v\<in>set st. small v" and "swap_top i j st = Inr st'"
  then have e: "st' = st[i - 1 := st ! (j - 1), j - 1 := st ! (i - 1)]" and l: "i - 1 < length st" "j - 1 < length st"
    by (auto simp: swap_top_Inr)
  have "set st' \<subseteq> insert (st ! (i - 1)) (set (st[i - 1 := st ! (j - 1)]))" unfolding e by (rule set_update_subset_insert)
  also have "\<dots> \<subseteq> insert (st ! (i - 1)) (insert (st ! (j - 1)) (set st))" using set_update_subset_insert by (intro insert_mono)
  finally show "\<forall>v\<in>set st'. small v" using st l nth_mem by blast
qed

lemmas exec_Inr = bindE_Inr need_Inr stacktop_Inr popstack_Inr popstacks_Inr set_stk_Inr erase_at_Inr

lemma unary_num_bound: "number v m = Inr n \<Longrightarrow> unary_num opcode n = Inr r \<Longrightarrow> \<bar>r\<bar> < 2 ^ 64"
  using number_bound [of v m n] by (auto simp: unary_num_def in_int64_def of_bool_num_def split: if_splits)

lemma binary_num_bound: "number v m = Inr a \<Longrightarrow> number w m = Inr b \<Longrightarrow> binary_num opcode a b = Inr r \<Longrightarrow> \<bar>r\<bar> < 2 ^ 64"
  using number_bound [of v m a] number_bound [of w m b] by (auto simp: binary_num_def in_int64_def of_bool_num_def split: if_splits)

lemma small_unary: "number v m = Inr n \<Longrightarrow> unary_num opcode n = Inr r \<Longrightarrow> small (serialize r)"
  by (blast intro: small_serialize unary_num_bound)

lemma small_binary: "binary_num opcode a b = Inr r \<Longrightarrow> number v m = Inr a \<Longrightarrow> number w m = Inr b \<Longrightarrow> small (serialize r)"
  by (blast intro: small_serialize binary_num_bound)

lemma small_drop: "\<forall>v\<in>set st. small v \<Longrightarrow> \<forall>v\<in>set (drop n st). small v"
  by (meson in_set_dropD)

lemma small_nth: "\<forall>v\<in>set st. small v \<Longrightarrow> k < length st \<Longrightarrow> small (st ! k)"
  by simp

lemma smalls_exec_if: "smalls s \<Longrightarrow> exec_if fExec opcode s = Inr s' \<Longrightarrow> smalls s'"
  by (auto simp: exec_if_def exec_Inr smalls_def split: if_splits)

lemma smalls_exec_else: "smalls s \<Longrightarrow> exec_else s = Inr s' \<Longrightarrow> smalls s'" "smalls s \<Longrightarrow> exec_endif s = Inr s' \<Longrightarrow> smalls s'"
  by (auto simp: exec_else_def exec_endif_def smalls_def split: list.splits)

lemma smalls_exec_verify: "smalls s \<Longrightarrow> exec_verify s = Inr s' \<Longrightarrow> smalls s'"
  by (auto simp: exec_verify_def exec_Inr smalls_def split: if_splits)

lemma smalls_exec_altstack: "smalls s \<Longrightarrow> exec_altstack opcode s = Inr s' \<Longrightarrow> smalls s'"
  by (auto simp: exec_altstack_def exec_Inr smalls_def split: if_splits)

lemma smalls_exec_pick_roll: "smalls s \<Longrightarrow> exec_pick_roll m opcode s = Inr s' \<Longrightarrow> smalls s'"
  by (auto simp: exec_pick_roll_def Let_def exec_Inr smalls_def split: if_splits dest!: in_set_takeD in_set_dropD)

lemma smalls_exec_equal: "smalls s \<Longrightarrow> exec_equal opcode s = Inr s' \<Longrightarrow> smalls s'"
  by (auto simp: exec_equal_def Let_def exec_Inr smalls_def split: if_splits dest!: in_set_dropD)

lemma smalls_exec_unary: "smalls s \<Longrightarrow> exec_unary m opcode s = Inr s' \<Longrightarrow> smalls s'"
  by (auto simp: exec_unary_def exec_Inr smalls_def dest: small_unary)

lemma smalls_exec_binary: "smalls s \<Longrightarrow> exec_binary m opcode s = Inr s' \<Longrightarrow> smalls s'"
  by (auto simp: exec_binary_def Let_def exec_Inr smalls_def split: if_splits dest!: in_set_dropD dest: small_binary)

lemma smalls_exec_within: "smalls s \<Longrightarrow> exec_within m s = Inr s' \<Longrightarrow> smalls s'"
  by (auto simp: exec_within_def exec_Inr smalls_def dest!: in_set_dropD)

lemma smalls_exec_hash:
  assumes "short_digests env"
  shows "smalls s \<Longrightarrow> exec_hash env opcode s = Inr s' \<Longrightarrow> smalls s'"
  using assms
  by (auto simp: exec_hash_def exec_Inr smalls_def hash_op_def CHash160_def CHash256_def short_digests_def small_def MAX_SCRIPT_ELEMENT_SIZE_def split: if_splits)

lemma smalls_exec_checksig: "smalls s \<Longrightarrow> exec_checksig env flags opcode s = Inr s' \<Longrightarrow> smalls s'"
  by (auto simp: exec_checksig_def Let_def exec_Inr smalls_def split: if_splits dest!: in_set_dropD)

definition ensures :: "('a \<Rightarrow> bool) \<Rightarrow> eval_error + 'a \<Rightarrow> bool" where
  "ensures P m \<longleftrightarrow> (\<forall>x. m = Inr x \<longrightarrow> P x)"

lemma ensures_intros:
  "(\<And>x. m = Inr x \<Longrightarrow> ensures P (f x)) \<Longrightarrow> ensures P (bindE m f)"
  "(c \<Longrightarrow> ensures P a) \<Longrightarrow> (\<not> c \<Longrightarrow> ensures P b) \<Longrightarrow> ensures P (if c then a else b)"
  "ensures P (Inl e)" "P x \<Longrightarrow> ensures P (Inr x)" "P (s\<lparr>stk := st\<rparr>) \<Longrightarrow> ensures P (set_stk s st)"
  by (auto simp: ensures_def set_stk_def bindE_Inr)

lemma smalls_multisig_check:
  assumes "smalls s"
  shows "ensures smalls (multisig_check env flags opcode s i ikey isig nKeys nSigs)"
proof -
  have small: "smalls (s\<lparr>stk := st1\<rparr>)" "smalls (s\<lparr>stk := bool_vch f # st1\<rparr>)"
    if "popstacks (i - 1) (stk s) = Inr st0" "popstack st0 = Inr st1" for st0 st1 f
  proof -
    have "set st1 \<subseteq> set (stk s)" using that set_drop_subset [of "i - 1" "stk s"] by (auto simp: popstacks_Inr popstack_Inr)
    then show "smalls (s\<lparr>stk := st1\<rparr>)" "smalls (s\<lparr>stk := bool_vch f # st1\<rparr>)" using assms by (auto simp: smalls_def)
  qed
  show ?thesis unfolding multisig_check_def by (intro ensures_intros small) assumption+
qed

lemma smalls_exec_multisig:
  assumes "smalls s"
  shows "ensures smalls (exec_multisig env flags m opcode s)"
proof -
  have "smalls (s\<lparr>nOpCount := k\<rparr>)" for k using assms by (simp add: smalls_def)
  then show ?thesis unfolding exec_multisig_def Let_def by (intro ensures_intros smalls_multisig_check)
qed

definition limited :: "eval_state \<Rightarrow> bool" where
  "limited s \<longleftrightarrow> smalls s \<and> length (stk s) + length (altstk s) \<le> 1000"

lemma smalls_stk: "smalls s \<Longrightarrow> \<forall>v\<in>set st. small v \<Longrightarrow> smalls (s\<lparr>stk := st\<rparr>)"
  by (simp add: smalls_def)

lemma small_length: "n \<le> 1000 \<Longrightarrow> small (serialize (int n))"
  by (rule small_serialize) simp

lemma smalls_exec_stack:
  assumes "limited s"
  shows "ensures smalls (exec_stack m opcode s)"
proof -
  have s: "smalls s" "\<forall>v\<in>set (stk s). small v" "length (stk s) \<le> 1000" using assms by (simp_all add: limited_def smalls_def)
  have top: "small v" if "stacktop k (stk s) = Inr v" for k v using that s(2) by (auto simp: stacktop_Inr)
  have size: "small (serialize (int (length v)))" if "stacktop k (stk s) = Inr v" for k v
    using top [OF that] by (intro small_length) (simp add: small_def MAX_SCRIPT_ELEMENT_SIZE_def)
  have pick: "ensures smalls (exec_pick_roll m opcode s)" using s(1) smalls_exec_pick_roll by (simp add: ensures_def)
  show ?thesis
    unfolding exec_stack_def Let_def
    by (intro ensures_intros pick smalls_stk [OF s(1)])
      (auto simp: popstacks_Inr popstack_Inr erase_at_Inr s small_length dest: top size small_swap [OF s(2)] small_swap
        dest!: in_set_takeD in_set_dropD split: if_splits)
qed

lemma smalls_exec_op:
  assumes "short_digests env" and "limited s"
  shows "ensures smalls (exec_op env flags fExec pc opcode s)"
proof -
  have s: "smalls s" using assms(2) by (simp add: limited_def)
  have step: "ensures smalls r" if "\<And>s'. r = Inr s' \<Longrightarrow> smalls s'" for r using that by (simp add: ensures_def)
  have p: "ensures smalls (push (serialize (uint opcode - (uint OP_1 - 1))) s)"
  proof (rule step)
    have "uint opcode < 256" using unsigned_less [of opcode, where ?'a = int] by simp
    moreover have "0 \<le> uint opcode" "uint (OP_1 :: u8) = 81" "(2 :: int) ^ 64 = 18446744073709551616" by simp_all
    ultimately have "\<bar>uint opcode - (uint OP_1 - 1)\<bar> < 2 ^ 64" by linarith
    then show "smalls s'" if "push (serialize (uint opcode - (uint OP_1 - 1))) s = Inr s'" for s'
      using that s small_serialize by (auto simp: push_def smalls_def)
  qed
  have c: "smalls (s\<lparr>pbegincodehash := pc\<rparr>)" using s by (simp add: smalls_def)
  note others = smalls_exec_if [OF s] smalls_exec_else [OF s] smalls_exec_verify [OF s] smalls_exec_altstack [OF s]
    smalls_exec_equal [OF s] smalls_exec_unary [OF s] smalls_exec_binary [OF s] smalls_exec_within [OF s]
    smalls_exec_hash [OF assms(1) s] smalls_exec_checksig [OF s]
  show ?thesis
    unfolding exec_op_def Let_def
    by (intro ensures_intros(2-4) p s c smalls_exec_multisig [OF s] smalls_exec_stack [OF assms(2)])
      (rule step, erule others)+
qed

lemma limited_exec_instruction:
  assumes "short_digests env" and "limited s"
  shows "ensures limited (exec_instruction env flags opcode v pc s)"
proof -
  let ?s = "if OP_16 < opcode then s\<lparr>nOpCount := nOpCount s + 1\<rparr> else s"
  have s: "limited ?s" using assms(2) by (simp add: limited_def smalls_def)
  then have sm: "smalls ?s" unfolding limited_def by blast
  let ?m = "if (\<forall>f\<in>set (vfExec s). f) \<and> opcode \<le> OP_PUSHDATA4
      then if flags AND SCRIPT_VERIFY_MINIMALDATA \<noteq> 0 \<and> \<not> CheckMinimalPush v opcode then Inl (Err SCRIPT_ERR_MINIMALDATA) else push v ?s
      else if (\<forall>f\<in>set (vfExec s). f) \<or> OP_IF \<le> opcode \<and> opcode \<le> OP_ENDIF
           then exec_op env flags (\<forall>f\<in>set (vfExec s). f) pc opcode ?s else Inr ?s"
  have m: "ensures smalls ?m" if "\<not> MAX_SCRIPT_ELEMENT_SIZE < length v"
  proof -
    have "smalls (?s\<lparr>stk := v # stk ?s\<rparr>)" using sm that by (auto simp: smalls_def small_def)
    then show ?thesis unfolding push_def by (intro ensures_intros(2-4) smalls_exec_op assms(1) s sm)
  qed
  show ?thesis
    unfolding exec_instruction_def Let_def
    by (intro ensures_intros(1-4)) (use m in \<open>simp_all add: ensures_def limited_def\<close>)
qed

lemma limited_eval_loop: "short_digests env \<Longrightarrow> limited s \<Longrightarrow> ensures limited (eval_loop env flags pc s)"
proof (induction env flags pc s rule: eval_loop.induct)
  case (1 env flags pc s)
  show ?case
  proof (cases "pc = []")
    case True
    then show ?thesis using 1(3) by (subst eval_loop.simps) (simp add: ensures_def)
  next
    case False
    obtain ok opcode v pc' where op: "GetOp pc = (ok, opcode, v, pc')" by (metis prod_cases4)
    have "ensures limited (eval_loop env flags pc' s')" if ok and "exec_instruction env flags opcode v pc' s = Inr s'" for s'
      using limited_exec_instruction [OF 1(2,3), of flags opcode v pc'] that False op
      by (intro 1(1) [OF False] 1(2)) (auto simp: ensures_def)
    then show ?thesis
      using False by (subst eval_loop.simps) (auto simp: op intro!: ensures_intros)
  qed
qed

text \<open>
  C30. A script that \<^verbatim>\<open>EvalScript\<close> accepts leaves a stack of at most 1000 elements of
  at most 520 bytes each, when it started from such a stack, whatever the instructions were.
\<close>

theorem EvalScript_limits:
  assumes "short_digests env" and "length stack \<le> 1000" and "\<forall>v\<in>set stack. length v \<le> 520"
    and "EvalScript env stack script flags = Inr stack'"
  shows "length stack' \<le> 1000 \<and> (\<forall>v\<in>set stack'. length v \<le> 520)"
proof -
  have "limited (eval_start script stack)"
    using assms(2,3) by (simp add: limited_def smalls_def eval_start_def small_def MAX_SCRIPT_ELEMENT_SIZE_def)
  with assms(1) have "ensures limited (eval_loop env flags script (eval_start script stack))" by (rule limited_eval_loop)
  moreover obtain s where "eval_loop env flags script (eval_start script stack) = Inr s" "stack' = stk s"
    using assms(4) by (auto simp: EvalScript_def split: if_splits sum.splits eval_error.splits)
  ultimately have "limited s" "stack' = stk s" by (simp_all add: ensures_def)
  then show ?thesis
    by (simp add: limited_def smalls_def small_def MAX_SCRIPT_ELEMENT_SIZE_def)
qed

definition zero_env :: eval_env where
  "zero_env = \<lparr>ev_RIPEMD160 = \<lambda>b. replicate 20 0, ev_SHA1 = \<lambda>b. replicate 20 0, ev_SHA256 = \<lambda>b. replicate 32 0,
     ev_CheckLowS = \<lambda>b. True, ev_CheckSig = \<lambda>s k c. True\<rparr>"

theorem EvalScript_limits_witness:
  "EvalScript zero_env [] [OP_1] 0 = Inr [[1]] \<and> length [[1 :: u8]] \<le> 1000"
proof -
  have "EvalScript zero_env [] [OP_1] 0 = Inr [[1]]"
    by (simp add: EvalScript_def eval_start_def eval_loop.simps [of _ _ "[OP_1]"] eval_loop.simps [of _ _ "[]"]
      exec_instruction_def exec_op_def disabled_def push_def serialize_def abs_bytes.simps MAX_SCRIPT_ELEMENT_SIZE_def)
  then show ?thesis using EvalScript_limits [of zero_env "[]" "[OP_1]" 0 "[[1]]"] by (simp add: short_digests_def zero_env_def)
qed


section \<open>Standard payments\<close>

text \<open>\<^verbatim>\<open>CScriptVisitor\<close> of \<^verbatim>\<open>script/standard.cpp\<close> on a key and on a script id.\<close>

definition script_for_key :: "bytes \<Rightarrow> bytes" where
  "script_for_key keyID = [OP_DUP, OP_HASH160] @ push_data keyID @ [OP_EQUALVERIFY, OP_CHECKSIG]"

definition script_for_script :: "bytes \<Rightarrow> bytes" where
  "script_for_script scriptID = [OP_HASH160] @ push_data scriptID @ [OP_EQUAL]"

text \<open>\<^verbatim>\<open>GetScriptForMultisig\<close>; \<open>None\<close> is the failed assertion of \<^verbatim>\<open>EncodeOP_N\<close>.\<close>

definition GetScriptForMultisig :: "int \<Rightarrow> bytes list \<Rightarrow> bytes option" where
  "GetScriptForMultisig nRequired keys =
     (case EncodeOP_N nRequired of
        None \<Rightarrow> None
      | Some required \<Rightarrow> (case EncodeOP_N (int (length keys)) of
          None \<Rightarrow> None
        | Some total_keys \<Rightarrow> Some ([required] @ concat (map push_data keys) @ [total_keys, OP_CHECKMULTISIG])))"

lemma push_data_short: "length d < 76 \<Longrightarrow> push_data d = of_nat (length d) # d"
  by (simp add: push_data_def)

lemma unat_len [simp]: "n < 76 \<Longrightarrow> unat (of_nat n :: u8) = n"
  by (simp add: unsigned_of_nat take_bit_nat_eq_self)

lemma GetOp_short: "length d < 76 \<Longrightarrow> GetOp (of_nat (length d) # d @ rest) = (True, of_nat (length d), d, rest)"
  by (simp add: push_size_def word_less_nat_alt word_le_nat_alt)

lemma eval_loop_push:
  assumes "2 \<le> length d" and "length d < 76" and "\<forall>f\<in>set (vfExec s). f" and "length (stk s) + length (altstk s) < 1000"
  shows "eval_loop env flags (push_data d @ rest) s = eval_loop env flags rest (s\<lparr>stk := d # stk s\<rparr>)"
proof -
  have op: "(of_nat (length d) :: u8) \<le> OP_PUSHDATA4" "\<not> OP_16 < (of_nat (length d) :: u8)" "\<not> disabled (of_nat (length d))"
    using assms(2) by (auto simp: word_le_nat_alt word_less_nat_alt disabled_def word_unat_eq_iff)
  have "CheckMinimalPush d (of_nat (length d))" using assms(1,2) by (auto simp: CheckMinimalPush_def)
  then have "exec_instruction env flags (of_nat (length d)) d rest s = Inr (s\<lparr>stk := d # stk s\<rparr>)"
    using assms(1,2,4) op unfolding exec_instruction_def Let_def push_def MAX_SCRIPT_ELEMENT_SIZE_def eqTrueI [OF assms(3)] by simp
  then show ?thesis using assms(2) by (subst eval_loop.simps) (simp add: push_data_short GetOp_short del: GetOp.simps)
qed

lemma eval_loop_op:
  assumes "OP_16 < opcode" and "\<not> disabled opcode" and "\<forall>f\<in>set (vfExec s). f" and "nOpCount s < 201"
  shows "eval_loop env flags (opcode # rest) s =
     bindE (exec_op env flags True rest opcode (s\<lparr>nOpCount := nOpCount s + 1\<rparr>)) (\<lambda>s.
       if 1000 < length (stk s) + length (altstk s) then Inl (Err SCRIPT_ERR_STACK_SIZE) else eval_loop env flags rest s)"
proof -
  have op: "\<not> opcode \<le> OP_PUSHDATA4" using assms(1) by (auto simp: word_less_nat_alt word_le_nat_alt)
  have "exec_instruction env flags opcode [] rest s =
    bindE (exec_op env flags True rest opcode (s\<lparr>nOpCount := nOpCount s + 1\<rparr>)) (\<lambda>s.
       if 1000 < length (stk s) + length (altstk s) then Inl (Err SCRIPT_ERR_STACK_SIZE) else Inr s)"
    using assms(1,2,4) op unfolding exec_instruction_def Let_def eqTrueI [OF assms(3)] by simp
  moreover have "bindE (bindE m f) g = bindE m (\<lambda>x. bindE (f x) g)" for m :: "eval_error + eval_state" and f g :: "eval_state \<Rightarrow> eval_error + eval_state"
    by (cases m) simp_all
  ultimately show ?thesis using op
    by (subst eval_loop.simps) (auto simp: if_distrib [of "\<lambda>m. bindE m _"] intro!: arg_cong2 [where f = bindE])
qed

lemma find_step:
  assumes "GetOp pc = (True, opcode, v, pc')" and "pc \<noteq> []" and "b \<noteq> []" and "hd pc \<noteq> hd b"
  shows "find_and_delete_loop b n passed pc = find_and_delete_loop b n (passed @ take (length pc - length pc') pc) pc'"
proof -
  have "take (length b) pc \<noteq> b" using assms(2-4) by (metis hd_take length_greater_0_conv)
  then have "erase_loop b n pc = (n, pc)" by (subst erase_loop.simps) simp
  then show ?thesis by (subst find_and_delete_loop.simps) (simp add: assms(1))
qed

lemma find_op:
  assumes "OP_PUSHDATA4 < opcode" and "b \<noteq> []" and "opcode \<noteq> hd b"
  shows "find_and_delete_loop b n passed (opcode # rest) = find_and_delete_loop b n (passed @ [opcode]) rest"
proof -
  have "\<not> opcode \<le> OP_PUSHDATA4" using assms(1) by (simp add: not_le)
  then have "GetOp (opcode # rest) = (True, opcode, [], rest)" by simp
  from find_step [OF this _ assms(2)] assms(3) show ?thesis by simp
qed

lemma find_push:
  assumes "length d < 76" and "b \<noteq> []" and "of_nat (length d) \<noteq> hd b"
  shows "find_and_delete_loop b n passed (push_data d @ rest) = find_and_delete_loop b n (passed @ push_data d) rest"
  using find_step [of "of_nat (length d) # d @ rest" "of_nat (length d)" d rest b n passed] assms
  by (simp add: GetOp_short push_data_short del: GetOp.simps)

lemma find_end: "b \<noteq> [] \<Longrightarrow> find_and_delete_loop b n passed [] = (n, passed)"
  by (subst find_and_delete_loop.simps) (simp add: erase_loop.simps)

text \<open>A signature that is no push of 20 bytes does not occur in the script of a key.\<close>

lemma FindAndDelete_script_for_key:
  assumes "length h = 20" and "20 < length sig" and "length sig < 76"
  shows "FindAndDelete (script_for_key h) (push_data sig) = (0, script_for_key h)"
proof -
  let ?b = "push_data sig"
  have b: "?b \<noteq> []" "hd ?b = of_nat (length sig)" using assms by (simp_all add: push_data_short)
  have "unat (hd ?b) = length sig" using assms(3) b(2) by simp
  then have ne: "x \<noteq> hd ?b" if "unat x \<le> 20 \<or> 76 \<le> unat x" for x using that assms(2,3) by auto
  have push: "of_nat (length h) \<noteq> hd ?b" by (rule ne) (simp add: assms(1))
  have "find_and_delete_loop ?b 0 [] (script_for_key h) = (0, script_for_key h)"
    using find_push [OF _ b(1) push] assms(1)
    by (simp add: script_for_key_def find_op [OF _ b(1)] find_end [OF b(1)] ne)
  then show ?thesis using b(1) by (simp add: FindAndDelete_def)
qed

lemma EvalScript_two_pushes:
  assumes "2 \<le> length a" and "length a < 76" and "2 \<le> length b" and "length b < 76"
  shows "EvalScript env [] (push_data a @ push_data b) flags = Inr [b, a]"
proof -
  have "eval_loop env flags (push_data a @ push_data b @ []) (eval_start script []) = Inr ((eval_start script [])\<lparr>stk := [b, a]\<rparr>)" for script
    using assms by (simp add: eval_loop_push eval_start_def del: append_Nil2) (simp add: eval_loop.simps)
  moreover have "length (push_data a @ push_data b) \<le> 10000" using assms by (simp add: push_data_short)
  ultimately show ?thesis by (simp add: EvalScript_def eval_start_def)
qed

lemma EvalScript_key:
  assumes "length h = 20" and "CHash160 env key = h'" and "20 < length sig" and "length sig < 76"
  shows "EvalScript env [key, sig] (script_for_key h) flags =
     (if h' \<noteq> h then Inl SCRIPT_ERR_EQUALVERIFY
      else bindE (CheckSignatureEncoding env sig flags) (\<lambda>_. bindE (CheckPubKeyEncoding key flags) (\<lambda>_.
             Inr [bool_vch (ev_CheckSig env sig key (script_for_key h))])))"
proof -
  let ?s = "script_for_key h"
  have s: "?s = OP_DUP # OP_HASH160 # push_data h @ [OP_EQUALVERIFY, OP_CHECKSIG]" by (simp add: script_for_key_def)
  have "eval_loop env flags ?s (eval_start ?s [key, sig]) =
    (if h' \<noteq> h then Inl (Err SCRIPT_ERR_EQUALVERIFY)
     else bindE (check_encodings env flags sig key) (\<lambda>_. 
       Inr ((eval_start ?s [bool_vch (ev_CheckSig env sig key ?s)])\<lparr>nOpCount := 4\<rparr>)))"
    unfolding s
    by (cases "check_encodings env flags sig key"; simp add: eval_loop_op eval_loop_push eval_start_def disabled_def assms(1,2) exec_op_def exec_stack_def exec_hash_def exec_equal_def
      exec_checksig_def need_def stacktop_def popstack_def popstacks_drop set_stk_def stack_need_def hash_op_def
      FindAndDelete_script_for_key [OF assms(1,3,4), unfolded s] eval_loop.simps [of env flags "[]"])
  moreover have "length ?s \<le> 10000" using assms(1) by (simp add: s push_data_short)
  ultimately show ?thesis
    by (auto simp: EvalScript_def check_encodings_def lift_err_def eval_start_def split: sum.splits)
qed

text \<open>
  C10. A pay-to-public-key-hash input: with the two pushes \<open>sig key\<close> against the script of
  a key id, verification is exactly the comparison of the key's hash, then the checks of the
  signature's and the key's encoding, then the signature check over the whole output script; the
  first that fails names the error, and under any flags nothing else can fail.
\<close>

theorem VerifyScript_key_hash:
  assumes "length h = 20" and "20 < length sig" and "length sig < 76" and "2 \<le> length key" and "length key < 76"
  shows "VerifyScript env (push_data sig @ push_data key) (script_for_key h) flags =
     Some (if CHash160 env key \<noteq> h then Inl SCRIPT_ERR_EQUALVERIFY
           else bindE (CheckSignatureEncoding env sig flags) (\<lambda>_. bindE (CheckPubKeyEncoding key flags) (\<lambda>_.
                if ev_CheckSig env sig key (script_for_key h) then Inr () else Inl SCRIPT_ERR_EVAL_FALSE)))"
proof -
  let ?c = "bindE (CheckSignatureEncoding env sig flags) (\<lambda>_. CheckPubKeyEncoding key flags)"
  have "IsPushOnly (push_data sig @ push_data key)"
    using assms IsPushOnly_push [of sig "push_data key"] IsPushOnly_push [of key "[]"] by (simp add: IsPushOnly.simps [of "[]"])
  moreover have "\<not> IsPayToScriptHash (script_for_key h)" by (simp add: IsPayToScriptHash_def script_for_key_def)
  moreover have "EvalScript env [] (push_data sig @ push_data key) flags = Inr [key, sig]"
    using assms by (intro EvalScript_two_pushes) simp_all
  moreover note EvalScript_key [OF assms(1) refl assms(2,3), of env key flags]
  ultimately show ?thesis
    by (cases "CheckSignatureEncoding env sig flags"; cases "CheckPubKeyEncoding key flags")
      (simp_all add: VerifyScript_def bool_vch_def vchTrue_def vchFalse_def)
qed

theorem VerifyScript_key_hash_witness:
  "VerifyScript zero_env (push_data (replicate 21 1) @ push_data (replicate 33 2)) (script_for_key (replicate 20 0)) 0 = Some (Inr ())"
  using VerifyScript_key_hash [of "replicate 20 0" "replicate 21 1" "replicate 33 2" zero_env 0]
  by (simp add: zero_env_def CHash160_def CheckSignatureEncoding_def CheckPubKeyEncoding_def)

section \<open>Multiple signatures\<close>

text \<open>Signatures match keys greedily, in order.\<close>

fun greedy :: "('s \<Rightarrow> 'k \<Rightarrow> bool) \<Rightarrow> 's list \<Rightarrow> 'k list \<Rightarrow> bool" where
  "greedy ok [] ks = True"
| "greedy ok (s # ss) [] = False"
| "greedy ok (s # ss) (k # ks) = (if ok s k then greedy ok ss ks else greedy ok (s # ss) ks)"

lemma greedy_length: "greedy ok ss ks \<Longrightarrow> length ss \<le> length ks"
  by (induction ok ss ks rule: greedy.induct) (auto split: if_splits)

lemma greedy_matching: "greedy ok ss ks \<longleftrightarrow> (\<exists>ms. subseq ms ks \<and> list_all2 ok ss ms)"
proof (induction ok ss ks rule: greedy.induct)
  case (3 ok s ss k ks)
  show ?case
  proof (cases "ok s k")
    case True
    have "(\<exists>ms. subseq ms (k # ks) \<and> list_all2 ok (s # ss) ms) \<longleftrightarrow> (\<exists>ms. subseq ms ks \<and> list_all2 ok ss ms)"
    proof
      assume "\<exists>ms. subseq ms (k # ks) \<and> list_all2 ok (s # ss) ms"
      then obtain m ms where "subseq (m # ms) (k # ks)" "list_all2 ok ss ms" by (auto simp: list_all2_Cons1)
      then show "\<exists>ms. subseq ms ks \<and> list_all2 ok ss ms" by (auto split: if_splits dest: subseq_Cons')
    next
      assume "\<exists>ms. subseq ms ks \<and> list_all2 ok ss ms"
      then obtain ms where "subseq ms ks" "list_all2 ok ss ms" by blast
      then have "subseq (k # ms) (k # ks) \<and> list_all2 ok (s # ss) (k # ms)" using True by simp
      then show "\<exists>ms. subseq ms (k # ks) \<and> list_all2 ok (s # ss) ms" by blast
    qed
    then show ?thesis using True 3 by simp
  next
    case False
    then have "subseq ms (k # ks) \<and> list_all2 ok (s # ss) ms \<longleftrightarrow> subseq ms ks \<and> list_all2 ok (s # ss) ms" for ms
      by (cases ms) auto
    then show ?thesis using False 3 by simp
  qed
qed (auto dest: list_emb_Nil2)

lemma stacktop_take:
  assumes "take (length (y # xs)) (drop (k - 1) st) = y # xs" and "1 \<le> k"
  shows "take (length xs) (drop k st) = xs \<and> stacktop k st = Inr y"
proof -
  have l: "k - 1 < length st" using assms(1) by (metis drop_all list.distinct(1) not_le take_Nil)
  then have "drop (k - 1) st = st ! (k - 1) # drop k st" using assms(2) Cons_nth_drop_Suc [OF l] by simp
  then show ?thesis using assms l by (simp add: stacktop_def)
qed

lemma delete_sigs_fold:
  "take (length sigs) (drop (isig - 1) st) = sigs \<Longrightarrow> 1 \<le> isig
   \<Longrightarrow> delete_sigs st isig (length sigs) code = Inr (fold (\<lambda>sig c. snd (FindAndDelete c (push_data sig))) sigs code)"
proof (induction sigs arbitrary: isig code)
  case (Cons sig sigs)
  then show ?case using stacktop_take [of sig sigs isig st] by (simp del: take_Suc_Cons)
qed simp

lemma multisig_loop_greedy:
  assumes "take (length sigs) (drop (isig - 1) st) = sigs" and "take (length keys) (drop (ikey - 1) st) = keys"
    and "1 \<le> isig" and "1 \<le> ikey" and "length sigs \<le> length keys"
    and "\<forall>sig\<in>set sigs. CheckSignatureEncoding env sig flags = Inr ()" and "\<forall>key\<in>set keys. CheckPubKeyEncoding key flags = Inr ()"
  shows "multisig_loop env flags code st isig (int (length sigs)) ikey (int (length keys))
    = Inr (greedy (\<lambda>sig key. ev_CheckSig env sig key code) sigs keys)"
  using assms
proof (induction keys arbitrary: sigs isig ikey)
  case Nil
  then show ?case by (subst multisig_loop.simps) simp
next
  case (Cons key keys)
  show ?case
  proof (cases sigs)
    case Nil
    then show ?thesis by (subst multisig_loop.simps) simp
  next
    case (Cons sig ss)
    let ?ok = "\<lambda>sig key. ev_CheckSig env sig key code"
    have sigs: "stacktop isig st = Inr sig" "take (length ss) (drop isig st) = ss"
      using stacktop_take [of sig ss isig st] Cons.prems(1,3) Cons by auto
    have keys: "stacktop ikey st = Inr key" "take (length keys) (drop ikey st) = keys"
      using stacktop_take [of key keys ikey st] Cons.prems(2,4) by auto
    have enc: "check_encodings env flags sig key = Inr ()"
      using Cons.prems(6,7) Cons by (simp add: check_encodings_def lift_err_def)
    have unfold: "multisig_loop env flags code st isig (int (length sigs)) ikey (int (length (key # keys))) =
        (if length keys < length (if ?ok sig key then ss else sigs) then Inr False
         else multisig_loop env flags code st (if ?ok sig key then isig + 1 else isig) (int (length (if ?ok sig key then ss else sigs)))
           (ikey + 1) (int (length keys)))"
      by (subst multisig_loop.simps) (simp add: sigs keys enc Cons Let_def)
    have IH: "multisig_loop env flags code st isig' (int (length sigs')) (ikey + 1) (int (length keys)) = Inr (greedy ?ok sigs' keys)"
      if "sigs' = (if ?ok sig key then ss else sigs)" "isig' = (if ?ok sig key then isig + 1 else isig)" "\<not> length keys < length sigs'" for sigs' isig'
      using that Cons.prems sigs keys Cons by (intro Cons.IH) (auto split: if_splits)
    have "greedy ?ok sigs (key # keys) = greedy ?ok (if ?ok sig key then ss else sigs) keys" using Cons by simp
    then show ?thesis unfolding unfold using IH [OF refl refl] greedy_length [of ?ok "if ?ok sig key then ss else sigs" keys]
      by (cases "length keys < length (if ?ok sig key then ss else sigs)") auto
  qed
qed


lemma number_serialize: "\<bar>n\<bar> < 2 ^ 31 \<Longrightarrow> number (serialize n) m = Inr n"
proof -
  assume n: "\<bar>n\<bar> < 2 ^ 31"
  have "CScriptNum (serialize n) True = Inr n" using CScriptNum_minimal_iff n by blast
  then have "CScriptNum (serialize n) m = Inr n" by (auto simp: CScriptNum_def split: if_splits)
  then show ?thesis by (simp add: number_def)
qed

text \<open>
  C9. \<^verbatim>\<open>OP_CHECKMULTISIG\<close> on a well-formed stack (the count and the keys, the count and
  the signatures, the extra element) whose encodings pass: the loop with its early exit leaves true
  exactly when the signatures match some of the keys in order, each checked against the script with
  every signature removed; it consumes its arguments and the extra element and counts the keys as
  operations.
\<close>

theorem CHECKMULTISIG_matching:
  assumes "length keys \<le> 20" and "length sigs \<le> length keys" and "nOpCount s + int (length keys) \<le> 201"
    and "\<forall>sig\<in>set sigs. CheckSignatureEncoding env sig flags = Inr ()" and "\<forall>key\<in>set keys. CheckPubKeyEncoding key flags = Inr ()"
    and "stk s = serialize (int (length keys)) # keys @ serialize (int (length sigs)) # sigs @ [] # rest"
  shows "exec_multisig env flags m OP_CHECKMULTISIG s = Inr (s\<lparr>nOpCount := nOpCount s + int (length keys),
     stk := bool_vch (\<exists>ms. subseq ms keys \<and> list_all2 (\<lambda>sig key. ev_CheckSig env sig key
              (fold (\<lambda>sig c. snd (FindAndDelete c (push_data sig))) sigs (pbegincodehash s))) sigs ms) # rest\<rparr>)"
proof -
  let ?code = "fold (\<lambda>sig c. snd (FindAndDelete c (push_data sig))) sigs (pbegincodehash s)"
  let ?st = "stk s" and ?isig = "2 + length keys + 1"
  have n: "getint (int k) = int k" "number (serialize (int k)) m = Inr (int k)" if "k \<le> 20" for k
    using that by (simp_all add: getint_def number_serialize)
  have sub: "take (length sigs) (drop (?isig - 1) ?st) = sigs" "take (length keys) (drop (2 - 1) ?st) = keys"
    unfolding assms(6) by simp_all
  have pos: "(1::nat) \<le> ?isig" "(1::nat) \<le> 2" by simp_all
  have drop: "popstacks (?isig + length sigs - 1) ?st = Inr ([] # rest)" unfolding assms(6) by (subst popstacks_drop) simp_all
  have top: "stacktop 1 ?st = Inr (serialize (int (length keys)))" "stacktop (2 + length keys) ?st = Inr (serialize (int (length sigs)))"
    unfolding assms(6) by (simp_all add: stacktop_def nth_append)
  have len: "need k ?st e = Inr ()" if "k \<le> ?isig + length sigs" for k e using that unfolding assms(6) by (simp add: need_def)
  have check: "multisig_check env flags OP_CHECKMULTISIG (s\<lparr>nOpCount := k\<rparr>) (?isig + length sigs) 2 ?isig (int (length keys)) (int (length sigs))
    = Inr (s\<lparr>nOpCount := k, stk := bool_vch (greedy (\<lambda>sig key. ev_CheckSig env sig key ?code) sigs keys) # rest\<rparr>)" for k
    using delete_sigs_fold [OF sub(1) pos(1)] multisig_loop_greedy [OF sub pos assms(2,4,5)] len drop
    by (simp add: multisig_check_def need_def stacktop_def popstack_def set_stk_def)
  show ?thesis
    unfolding greedy_matching [symmetric] exec_multisig_def Let_def
    using assms(1-3) by (simp add: top [simplified] top len n check [simplified])
qed

theorem CHECKMULTISIG_matching_witness:
  "exec_multisig zero_env 0 True OP_CHECKMULTISIG (eval_start [] [[2], [9], [8], [1], [5], [], [7]])
   = Inr ((eval_start [] [[1], [7]])\<lparr>nOpCount := 2\<rparr>)"
proof -
  have n: "serialize 2 = [2]" "serialize 1 = [1]" by (simp_all add: serialize_def abs_bytes.simps)
  have "subseq [[9]] [[9], [8 :: u8]]" by simp
  then have m: "\<exists>ms. subseq ms [[9], [8 :: u8]] \<and> list_all2 (\<lambda>sig key. True) [[5 :: u8]] ms" by (intro exI [of _ "[[9]]"]) simp
  show ?thesis
    using CHECKMULTISIG_matching [of "[[9], [8]]" "[[5]]" "eval_start [] [[2], [9], [8], [1], [5], [], [7]]" zero_env 0 "[[7]]" True] m
    by (simp add: n eval_start_def zero_env_def CheckSignatureEncoding_def CheckPubKeyEncoding_def bool_vch_def vchTrue_def)
qed

end
