(* ===== verification/Mempool.thy ===== *)
theory Mempool
  imports Connect Complex_Main
begin

text \<open>
  The memory pool (\<^verbatim>\<open>src/txmempool.cpp\<close>): the maps of transactions and of the
  outputs they spend, the operations that add and remove, the pool as a view of coins, and its
  self-check. An ordered map is the association list in the order
  of its keys. The pointer \<^verbatim>\<open>ptx\<close> of a \<^verbatim>\<open>CInPoint\<close> points into a node of
  \<^verbatim>\<open>mapTx\<close>, so it is the key of that node; reading it after the node was erased is the
  fault \<open>NullRead\<close>. A \<^verbatim>\<open>double\<close> is the real number it stands for, and the
  rounding of the hardware is an argument \<open>rnd\<close>.
\<close>

section \<open>Ordered maps\<close>

fun map_ins :: "('k \<Rightarrow> 'k \<Rightarrow> bool) \<Rightarrow> 'k \<Rightarrow> 'v \<Rightarrow> ('k \<times> 'v) list \<Rightarrow> ('k \<times> 'v) list" where
  "map_ins lt k v [] = [(k, v)]"
| "map_ins lt k v ((k', v') # m) = (if lt k k' then (k, v) # (k', v') # m else (k', v') # map_ins lt k v m)"

text \<open>\<^verbatim>\<open>m[k] = v\<close>\<close>

definition map_set :: "('k \<Rightarrow> 'k \<Rightarrow> bool) \<Rightarrow> 'k \<Rightarrow> 'v \<Rightarrow> ('k \<times> 'v) list \<Rightarrow> ('k \<times> 'v) list" where
  "map_set lt k v m = (if k \<in> fst ` set m then AList.update k v m else map_ins lt k v m)"

definition outpoint_lt :: "COutPoint \<Rightarrow> COutPoint \<Rightarrow> bool" where
  "outpoint_lt a b \<longleftrightarrow> uint256_lt (op_hash a) (op_hash b) \<or> op_hash a = op_hash b \<and> op_n a < op_n b"

section \<open>The pool\<close>

record CTxMemPoolEntry =
  me_tx :: CTransaction
  me_nFee :: int
  me_nTxSize :: nat
  me_nModSize :: nat
  me_nTime :: int
  me_dPriority :: real
  me_nHeight :: u32

definition CTxMemPoolEntry_of :: "CTransaction \<Rightarrow> int \<Rightarrow> int \<Rightarrow> real \<Rightarrow> u32 \<Rightarrow> CTxMemPoolEntry" where
  "CTxMemPoolEntry_of tx nFee nTime0 priority h =
     (let nTxSize = length (ser_tx tx)
      in \<lparr>me_tx = tx, me_nFee = nFee, me_nTxSize = nTxSize, me_nModSize = CalculateModifiedSize tx nTxSize,
          me_nTime = nTime0, me_dPriority = priority, me_nHeight = h\<rparr>)"

text \<open>The priority of an entry at a height; the heights are subtracted as unsigned integers.\<close>

definition entry_GetPriority :: "(real \<Rightarrow> real) \<Rightarrow> CTxMemPoolEntry \<Rightarrow> u32 \<Rightarrow> value_error + real" where
  "entry_GetPriority rnd e currentHeight =
     bindE (GetValueOut (me_tx e)) (\<lambda>valueOut.
       let nValueIn = add64 valueOut (me_nFee e);
           deltaPriority = rnd (rnd (real (unat (currentHeight - me_nHeight e)) * rnd (real_of_int nValueIn)) / real (me_nModSize e))
       in Inr (rnd (me_dPriority e + deltaPriority)))"

definition AllowFree :: "real \<Rightarrow> bool" where "AllowFree priority \<longleftrightarrow> priority > real_of_int (COIN * 1440 div 250)"

record CInPoint =
  ip_ptx :: txid
  ip_n :: u32

record CTxMemPool =
  fSanityCheck :: bool
  mapTx :: "(txid \<times> CTxMemPoolEntry) list"
  mapNextTx :: "(COutPoint \<times> CInPoint) list"
  mapDeltas :: "(txid \<times> real \<times> int) list"
  nTransactionsUpdated :: u32
  totalTxSize :: u64

definition CTxMemPool_new :: CTxMemPool where
  "CTxMemPool_new = \<lparr>fSanityCheck = False, mapTx = [], mapNextTx = [], mapDeltas = [], nTransactionsUpdated = 0, totalTxSize = 0\<rparr>"

definition pool_exists :: "CTxMemPool \<Rightarrow> txid \<Rightarrow> bool" where
  "pool_exists pool hash \<longleftrightarrow> map_of (mapTx pool) hash \<noteq> None"

definition pool_lookup :: "CTxMemPool \<Rightarrow> txid \<Rightarrow> CTransaction option" where
  "pool_lookup pool hash = map_option me_tx (map_of (mapTx pool) hash)"

definition queryHashes :: "CTxMemPool \<Rightarrow> txid list" where
  "queryHashes pool = map fst (mapTx pool)"

fun mark_spent :: "txid \<Rightarrow> nat \<Rightarrow> CTxIn list \<Rightarrow> (COutPoint \<times> CInPoint) list \<Rightarrow> (COutPoint \<times> CInPoint) list" where
  "mark_spent hash i [] next = next"
| "mark_spent hash i (txin # vins) next =
     mark_spent hash (i + 1) vins (map_set outpoint_lt (prevout txin) \<lparr>ip_ptx = hash, ip_n = of_nat i\<rparr> next)"

definition addUnchecked :: "CTxMemPool \<Rightarrow> txid \<Rightarrow> CTxMemPoolEntry \<Rightarrow> CTxMemPool" where
  "addUnchecked pool hash entry =
     pool\<lparr>mapTx := map_set uint256_lt hash entry (mapTx pool),
          mapNextTx := mark_spent hash 0 (vin (me_tx entry)) (mapNextTx pool),
          nTransactionsUpdated := nTransactionsUpdated pool + 1,
          totalTxSize := totalTxSize pool + of_nat (me_nTxSize entry)\<rparr>"

section \<open>Removing\<close>

text \<open>The hashes of the transactions that spend the outputs \<open>i, i + 1, \<dots>\<close> of \<open>hash\<close>.\<close>

definition deref_ptx :: "CTxMemPool \<Rightarrow> CInPoint \<Rightarrow> fault + CTransaction" where
  "deref_ptx pool p = (case map_of (mapTx pool) (ip_ptx p) of None \<Rightarrow> Inl NullRead | Some e \<Rightarrow> Inr (me_tx e))"

fun child_hashes :: "CTxMemPool \<Rightarrow> txid \<Rightarrow> nat \<Rightarrow> CTxOut list \<Rightarrow> fault + txid list" where
  "child_hashes pool hash i [] = Inr []"
| "child_hashes pool hash i (txout # vouts) =
     (case map_of (mapNextTx pool) \<lparr>op_hash = hash, op_n = of_nat i\<rparr> of
        None \<Rightarrow> child_hashes pool hash (i + 1) vouts
      | Some p \<Rightarrow> bindE (deref_ptx pool p) (\<lambda>tx. bindE (child_hashes pool hash (i + 1) vouts) (\<lambda>hs. Inr (tx_hash tx # hs))))"

lemma length_delete: "map_of m k = Some v \<Longrightarrow> length (AList.delete k m) < length m"
  by (induction m) (auto simp: AList.delete_eq less_Suc_eq_le split: if_splits)

text \<open>Erasing one transaction.\<close>

definition erase_tx :: "CTxMemPool \<Rightarrow> txid \<Rightarrow> CTxMemPoolEntry \<Rightarrow> CTxMemPool" where
  "erase_tx pool hash e =
     pool\<lparr>mapNextTx := foldl (\<lambda>next txin. AList.delete (prevout txin) next) (mapNextTx pool) (vin (me_tx e)),
          totalTxSize := totalTxSize pool - of_nat (me_nTxSize e),
          mapTx := AList.delete hash (mapTx pool),
          nTransactionsUpdated := nTransactionsUpdated pool + 1\<rparr>"

function remove_loop :: "CTxMemPool \<Rightarrow> CTransaction list \<Rightarrow> bool \<Rightarrow> txid list \<Rightarrow> fault + CTxMemPool \<times> CTransaction list" where
  "remove_loop pool removed fRecursive [] = Inr (pool, removed)"
| "remove_loop pool removed fRecursive (hash # txToRemove) =
     (case map_of (mapTx pool) hash of
        None \<Rightarrow> remove_loop pool removed fRecursive txToRemove
      | Some e \<Rightarrow>
          bindE (if fRecursive then child_hashes pool hash 0 (vout (me_tx e)) else Inr []) (\<lambda>hs.
            remove_loop (erase_tx pool hash e) (removed @ [me_tx e]) fRecursive (txToRemove @ hs)))"
  by pat_completeness auto
termination
  by (relation "measures [\<lambda>(pool, r, f, q). length (mapTx pool), \<lambda>(pool, r, f, q). length q]")
    (auto simp: erase_tx_def length_delete)

definition remove_start :: "CTxMemPool \<Rightarrow> CTransaction \<Rightarrow> bool \<Rightarrow> fault + txid list" where
  "remove_start pool origTx fRecursive =
     (if fRecursive \<and> \<not> pool_exists pool (tx_hash origTx)
      then bindE (child_hashes pool (tx_hash origTx) 0 (vout origTx)) (\<lambda>hs. Inr (tx_hash origTx # hs))
      else Inr [tx_hash origTx])"

definition pool_remove :: "CTxMemPool \<Rightarrow> CTransaction \<Rightarrow> CTransaction list \<Rightarrow> bool \<Rightarrow> fault + CTxMemPool \<times> CTransaction list" where
  "pool_remove pool origTx removed fRecursive =
     bindE (remove_start pool origTx fRecursive) (remove_loop pool removed fRecursive)"

fun conflicts_loop :: "CTxMemPool \<Rightarrow> CTransaction \<Rightarrow> CTransaction list \<Rightarrow> CTxIn list \<Rightarrow> fault + CTxMemPool \<times> CTransaction list" where
  "conflicts_loop pool tx removed [] = Inr (pool, removed)"
| "conflicts_loop pool tx removed (txin # vins) =
     (case map_of (mapNextTx pool) (prevout txin) of
        None \<Rightarrow> conflicts_loop pool tx removed vins
      | Some p \<Rightarrow> bindE (deref_ptx pool p) (\<lambda>txConflict.
          if tx_hash txConflict \<noteq> tx_hash tx
          then bindE (pool_remove pool txConflict removed True) (\<lambda>(pool, removed). conflicts_loop pool tx removed vins)
          else conflicts_loop pool tx removed vins))"

definition removeConflicts :: "CTxMemPool \<Rightarrow> CTransaction \<Rightarrow> CTransaction list \<Rightarrow> fault + CTxMemPool \<times> CTransaction list" where
  "removeConflicts pool tx removed = conflicts_loop pool tx removed (vin tx)"

definition ClearPrioritisation :: "CTxMemPool \<Rightarrow> txid \<Rightarrow> CTxMemPool" where
  "ClearPrioritisation pool hash = pool\<lparr>mapDeltas := AList.delete hash (mapDeltas pool)\<rparr>"

text \<open>\<^verbatim>\<open>removeForBlock\<close> without the fee estimator, which only reads the entries.\<close>

fun block_loop :: "CTxMemPool \<Rightarrow> CTransaction list \<Rightarrow> CTransaction list \<Rightarrow> fault + CTxMemPool \<times> CTransaction list" where
  "block_loop pool conflicts [] = Inr (pool, conflicts)"
| "block_loop pool conflicts (tx # txs) =
     bindE (pool_remove pool tx [] False) (\<lambda>(pool, dummy).
     bindE (removeConflicts pool tx conflicts) (\<lambda>(pool, conflicts).
       block_loop (ClearPrioritisation pool (tx_hash tx)) conflicts txs))"

definition removeForBlock :: "CTxMemPool \<Rightarrow> CTransaction list \<Rightarrow> CTransaction list \<Rightarrow> fault + CTxMemPool \<times> CTransaction list" where
  "removeForBlock pool txs conflicts = block_loop pool conflicts txs"

definition pool_clear :: "CTxMemPool \<Rightarrow> CTxMemPool" where
  "pool_clear pool = pool\<lparr>mapTx := [], mapNextTx := [], totalTxSize := 0, nTransactionsUpdated := nTransactionsUpdated pool + 1\<rparr>"

definition AddTransactionsUpdated :: "CTxMemPool \<Rightarrow> u32 \<Rightarrow> CTxMemPool" where
  "AddTransactionsUpdated pool n = pool\<lparr>nTransactionsUpdated := nTransactionsUpdated pool + n\<rparr>"

definition PrioritiseTransaction :: "(real \<Rightarrow> real) \<Rightarrow> CTxMemPool \<Rightarrow> txid \<Rightarrow> real \<Rightarrow> int \<Rightarrow> CTxMemPool" where
  "PrioritiseTransaction rnd pool hash dPriorityDelta nFeeDelta =
     (let (p, f) = (case map_of (mapDeltas pool) hash of None \<Rightarrow> (0, 0) | Some d \<Rightarrow> d)
      in pool\<lparr>mapDeltas := map_set uint256_lt hash (rnd (p + dPriorityDelta), add64 f nFeeDelta) (mapDeltas pool)\<rparr>)"

definition ApplyDeltas :: "(real \<Rightarrow> real) \<Rightarrow> CTxMemPool \<Rightarrow> txid \<Rightarrow> real \<times> int \<Rightarrow> real \<times> int" where
  "ApplyDeltas rnd pool hash = (\<lambda>(dPriorityDelta, nFeeDelta).
     case map_of (mapDeltas pool) hash of
       None \<Rightarrow> (dPriorityDelta, nFeeDelta)
     | Some (p, f) \<Rightarrow> (rnd (dPriorityDelta + p), add64 nFeeDelta f))"

section \<open>The pool and the coins\<close>

text \<open>\<^verbatim>\<open>pruneSpent\<close> spends what the pool spends of one transaction.\<close>

fun prune_loop :: "txid \<Rightarrow> (COutPoint \<times> CInPoint) list \<Rightarrow> CCoins \<Rightarrow> CCoins" where
  "prune_loop hashTx [] coins = coins"
| "prune_loop hashTx ((p, ip) # next) coins =
     (if op_hash p = hashTx
      then prune_loop hashTx next (case Spend coins (unat (op_n p)) of None \<Rightarrow> coins | Some (coins, undo) \<Rightarrow> coins)
      else coins)"

definition pruneSpent :: "CTxMemPool \<Rightarrow> txid \<Rightarrow> CCoins \<Rightarrow> CCoins" where
  "pruneSpent pool hashTx coins =
     prune_loop hashTx (dropWhile (\<lambda>(p, ip). outpoint_lt p \<lparr>op_hash = hashTx, op_n = 0\<rparr>) (mapNextTx pool)) coins"

definition MEMPOOL_HEIGHT :: int where "MEMPOOL_HEIGHT = 0x7FFFFFFF"

definition mempool_GetCoins :: "CTxMemPool \<Rightarrow> 'v CCoinsView \<Rightarrow> 'v \<Rightarrow> txid \<Rightarrow> CCoins option \<times> 'v" where
  "mempool_GetCoins pool base v txid =
     (case pool_lookup pool txid of
        Some tx \<Rightarrow> (Some (FromTx tx MEMPOOL_HEIGHT), v)
      | None \<Rightarrow> (case view_GetCoins base v txid of
          (Some coins, v) \<Rightarrow> (if IsPruned coins then None else Some coins, v)
        | (None, v) \<Rightarrow> (None, v)))"

definition mempool_view :: "CTxMemPool \<Rightarrow> 'v CCoinsView \<Rightarrow> 'v CCoinsView" where
  "mempool_view pool base = base\<lparr>view_GetCoins := mempool_GetCoins pool base\<rparr>"

text \<open>
  \<^verbatim>\<open>removeCoinbaseSpends\<close>: the first loop collects the transactions, the second removes
  them. The heights are subtracted as unsigned integers.
\<close>

fun immature_input :: "CChainParams \<Rightarrow> CTxMemPool \<Rightarrow> 'v CCoinsView \<Rightarrow> u32 \<Rightarrow> 'v CCoinsViewCache \<Rightarrow> CTxIn list
    \<Rightarrow> fault + bool \<times> 'v CCoinsViewCache" where
  "immature_input params pool base h pcoins [] = Inr (False, pcoins)"
| "immature_input params pool base h pcoins (txin # vins) =
     (if pool_exists pool (op_hash (prevout txin)) then immature_input params pool base h pcoins vins
      else case AccessCoins base pcoins (op_hash (prevout txin)) of
        (None, pcoins) \<Rightarrow> if fSanityCheck pool then Inl AssertFalse else Inr (True, pcoins)
      | (Some coins, pcoins) \<Rightarrow>
          if (fCoinBase coins \<or> fCoinStake coins)
             \<and> h - word_of_int (coins_nHeight coins) < word_of_int (COINBASE_MATURITY params)
          then Inr (True, pcoins) else immature_input params pool base h pcoins vins)"

fun immature_loop :: "CChainParams \<Rightarrow> CTxMemPool \<Rightarrow> 'v CCoinsView \<Rightarrow> u32 \<Rightarrow> 'v CCoinsViewCache
    \<Rightarrow> (txid \<times> CTxMemPoolEntry) list \<Rightarrow> fault + CTransaction list \<times> 'v CCoinsViewCache" where
  "immature_loop params pool base h pcoins [] = Inr ([], pcoins)"
| "immature_loop params pool base h pcoins ((hash, e) # m) =
     bindE (immature_input params pool base h pcoins (vin (me_tx e))) (\<lambda>(immature, pcoins).
     bindE (immature_loop params pool base h pcoins m) (\<lambda>(txs, pcoins).
       Inr (if immature then me_tx e # txs else txs, pcoins)))"

fun remove_all_txs :: "CTxMemPool \<Rightarrow> CTransaction list \<Rightarrow> fault + CTxMemPool" where
  "remove_all_txs pool [] = Inr pool"
| "remove_all_txs pool (tx # txs) = bindE (pool_remove pool tx [] True) (\<lambda>(pool, removed). remove_all_txs pool txs)"

definition removeCoinbaseSpends :: "CChainParams \<Rightarrow> CTxMemPool \<Rightarrow> 'v CCoinsView \<Rightarrow> 'v CCoinsViewCache \<Rightarrow> u32
    \<Rightarrow> fault + CTxMemPool \<times> 'v CCoinsViewCache" where
  "removeCoinbaseSpends params pool base pcoins nMemPoolHeight =
     bindE (immature_loop params pool base nMemPoolHeight pcoins (mapTx pool)) (\<lambda>(txs, pcoins).
     bindE (remove_all_txs pool txs) (\<lambda>pool. Inr (pool, pcoins)))"

section \<open>The pool as a view\<close>

text \<open>
  The coins that the pool and a view under it represent together. Reading through the pool leaves
  what the view below represents unchanged: its map and best block are the parameters of the
  invariant.
\<close>

definition pool_utxo :: "CTxMemPool \<Rightarrow> (txid \<rightharpoonup> CCoins) \<Rightarrow> txid \<rightharpoonup> CCoins" where
  "pool_utxo pool u k = (case pool_lookup pool k of Some tx \<Rightarrow> unpruned (FromTx tx MEMPOOL_HEIGHT) | None \<Rightarrow> u k)"

context readable_view begin

lemma mempool_is_view:
  "readable_view (mempool_view pool ops) (\<lambda>v. inv v \<and> utxo v = u \<and> best v = h) (\<lambda>_. pool_utxo pool u) (\<lambda>_. h) (\<lambda>_ _. True)"
proof unfold_locales
  fix v k r v'
  assume v: "inv v \<and> utxo v = u \<and> best v = h" and g: "view_GetCoins (mempool_view pool ops) v k = (r, v')"
  have "inv v' \<and> utxo v' = u \<and> best v' = h \<and> unpruned_opt r = pool_utxo pool u k"
  proof (cases "pool_lookup pool k")
    case None
    obtain c w where w: "view_GetCoins ops v k = (c, w)" by force
    have "inv w \<and> utxo w = u \<and> best w = h \<and> unpruned_opt c = u k" using get [OF _ w] v by blast
    then show ?thesis using None w g
      by (auto simp: mempool_view_def mempool_GetCoins_def pool_utxo_def unpruned_opt_def unpruned_def split: option.splits if_splits)
  next
    case (Some tx)
    then show ?thesis using v g by (auto simp: mempool_view_def mempool_GetCoins_def pool_utxo_def unpruned_opt_def)
  qed
  then show "(inv v' \<and> utxo v' = u \<and> best v' = h) \<and> pool_utxo pool u = pool_utxo pool u \<and> h = h
     \<and> unpruned_opt r = pool_utxo pool u k \<and> (pool_utxo pool u k \<noteq> None \<longrightarrow> True) \<and> (\<forall>j. True \<longrightarrow> True)" by simp
next
  fix v h' v'
  assume v: "inv v \<and> utxo v = u \<and> best v = h" and g: "view_GetBestBlock (mempool_view pool ops) v = (h', v')"
  then have "inv v' \<and> utxo v' = utxo v \<and> best v' = best v \<and> h' = best v" using get_best [of v h' v'] by (simp add: mempool_view_def)
  then show "(inv v' \<and> utxo v' = u \<and> best v' = h) \<and> pool_utxo pool u = pool_utxo pool u \<and> h = h \<and> h' = h \<and> (\<forall>j. True \<longrightarrow> True)"
    using v by simp
qed

end

interpretation mem: readable_view "mempool_view pool tip_ops" "\<lambda>v. tip_inv v \<and> tip_utxo v = u \<and> tip_best v = h"
    "\<lambda>_. pool_utxo pool u" "\<lambda>_. h" "\<lambda>_ _. True" for pool u h
  by (rule tip.mempool_is_view)

section \<open>The self-check\<close>

text \<open>
  \<^verbatim>\<open>check\<close> works on a cache over the tip cache; direct reads of the tip go to the base of
  that cache. A failed assertion is \<open>AssertFalse\<close>.
\<close>

type_synonym 'v tip_duplicate = "'v CCoinsViewCache CCoinsViewCache"

definition tip_AccessCoins :: "'v CCoinsView \<Rightarrow> 'v tip_duplicate \<Rightarrow> txid \<Rightarrow> CCoins option \<times> 'v tip_duplicate" where
  "tip_AccessCoins base dup k = (case AccessCoins base (view_base dup) k of (r, pcoins) \<Rightarrow> (r, dup\<lparr>view_base := pcoins\<rparr>))"

fun check_inputs_loop :: "CTxMemPool \<Rightarrow> 'v CCoinsView \<Rightarrow> txid \<Rightarrow> nat \<Rightarrow> CTxIn list \<Rightarrow> bool \<Rightarrow> 'v tip_duplicate
    \<Rightarrow> fault + bool \<times> 'v tip_duplicate" where
  "check_inputs_loop pool base hash i [] fDependsWait dup = Inr (fDependsWait, dup)"
| "check_inputs_loop pool base hash i (txin # vins) fDependsWait dup =
     bindE (case map_of (mapTx pool) (op_hash (prevout txin)) of
         Some e2 \<Rightarrow>
           if unat (op_n (prevout txin)) < length (vout (me_tx e2))
              \<and> \<not> CTxOut_IsNull (vout (me_tx e2) ! unat (op_n (prevout txin)))
           then Inr (True, dup) else Inl AssertFalse
       | None \<Rightarrow> (case tip_AccessCoins base dup (op_hash (prevout txin)) of
           (None, dup) \<Rightarrow> Inl AssertFalse
         | (Some coins, dup) \<Rightarrow> if IsAvailable coins (unat (op_n (prevout txin))) then Inr (fDependsWait, dup) else Inl AssertFalse))
       (\<lambda>(fDependsWait, dup).
       case map_of (mapNextTx pool) (prevout txin) of
         None \<Rightarrow> Inl AssertFalse
       | Some it3 \<Rightarrow> if ip_ptx it3 = hash \<and> ip_n it3 = of_nat i
                     then check_inputs_loop pool base hash (i + 1) vins fDependsWait dup else Inl AssertFalse)"

definition check_apply :: "connect_env \<Rightarrow> 'v CCoinsView \<Rightarrow> CTransaction \<Rightarrow> 'v tip_duplicate \<Rightarrow> fault + 'v tip_duplicate" where
  "check_apply env base tx dup =
     bindE (CheckInputs env (cache_view base) tx state_valid dup False 0 False) (\<lambda>(r, dup).
       case r of
         Inl st \<Rightarrow> Inl AssertFalse
       | Inr checks \<Rightarrow> (case UpdateCoins (cache_view base) tx dup 1000000 of
           None \<Rightarrow> Inl AssertFalse | Some (undo, dup) \<Rightarrow> Inr dup))"

fun check_entries :: "connect_env \<Rightarrow> CTxMemPool \<Rightarrow> 'v CCoinsView \<Rightarrow> (txid \<times> CTxMemPoolEntry) list \<Rightarrow> u64
    \<Rightarrow> CTxMemPoolEntry list \<Rightarrow> 'v tip_duplicate \<Rightarrow> fault + u64 \<times> CTxMemPoolEntry list \<times> 'v tip_duplicate" where
  "check_entries env pool base [] checkTotal waiting dup = Inr (checkTotal, waiting, dup)"
| "check_entries env pool base ((hash, e) # m) checkTotal waiting dup =
     bindE (check_inputs_loop pool base hash 0 (vin (me_tx e)) False dup) (\<lambda>(fDependsWait, dup).
       if fDependsWait
       then check_entries env pool base m (checkTotal + of_nat (me_nTxSize e)) (waiting @ [e]) dup
       else bindE (check_apply env base (me_tx e) dup)
              (check_entries env pool base m (checkTotal + of_nat (me_nTxSize e)) waiting))"

function check_waiting :: "connect_env \<Rightarrow> 'v CCoinsView \<Rightarrow> nat \<Rightarrow> CTxMemPoolEntry list \<Rightarrow> 'v tip_duplicate \<Rightarrow> fault + 'v tip_duplicate" where
  "check_waiting env base steps [] dup = Inr dup"
| "check_waiting env base steps (e # waiting) dup =
     (case HaveInputs (cache_view base) dup (me_tx e) of (have, dup) \<Rightarrow>
        if \<not> have
        then if steps + 1 < length (waiting @ [e]) then check_waiting env base (steps + 1) (waiting @ [e]) dup else Inl AssertFalse
        else bindE (check_apply env base (me_tx e) dup) (check_waiting env base 0 waiting))"
  by pat_completeness auto
termination
  by (relation "measures [\<lambda>(env, base, steps, w, d). length w, \<lambda>(env, base, steps, w, d). length w - steps]") auto

fun check_next :: "CTxMemPool \<Rightarrow> (COutPoint \<times> CInPoint) list \<Rightarrow> fault + unit" where
  "check_next pool [] = Inr ()"
| "check_next pool ((p, ip) # next) =
     bindE (deref_ptx pool ip) (\<lambda>tx.
       case map_of (mapTx pool) (tx_hash tx) of
         None \<Rightarrow> Inl AssertFalse
       | Some it2 \<Rightarrow>
           if tx_hash tx = ip_ptx ip \<and> unat (ip_n ip) < length (vin tx) \<and> p = prevout (vin tx ! unat (ip_n ip))
           then check_next pool next else Inl AssertFalse)"

definition pool_check :: "connect_env \<Rightarrow> CTxMemPool \<Rightarrow> 'v CCoinsView \<Rightarrow> 'v CCoinsViewCache \<Rightarrow> fault + 'v CCoinsViewCache" where
  "pool_check env pool base pcoins =
     (if \<not> fSanityCheck pool then Inr pcoins
      else bindE (check_entries env pool base (mapTx pool) 0 [] (new_cache pcoins)) (\<lambda>(checkTotal, waiting, dup).
           bindE (check_waiting env base 0 waiting dup) (\<lambda>dup.
           bindE (check_next pool (mapNextTx pool)) (\<lambda>u.
             if totalTxSize pool = checkTotal then Inr (view_base dup) else Inl AssertFalse))))"

section \<open>Consistency\<close>

lemma map_of_map_ins: "k \<notin> fst ` set m \<Longrightarrow> map_of (map_ins lt k v m) = (map_of m)(k \<mapsto> v)"
  by (induction lt k v m rule: map_ins.induct) auto

lemma keys_map_ins: "fst ` set (map_ins lt k v m) = insert k (fst ` set m)"
  by (induction lt k v m rule: map_ins.induct) auto

lemma distinct_map_ins: "k \<notin> fst ` set m \<Longrightarrow> distinct (map fst m) \<Longrightarrow> distinct (map fst (map_ins lt k v m))"
  by (induction lt k v m rule: map_ins.induct) (auto simp: keys_map_ins)

lemma map_of_map_set [simp]: "map_of (map_set lt k v m) = (map_of m)(k \<mapsto> v)"
  by (simp add: map_set_def update_conv' map_of_map_ins)

lemma distinct_map_set: "distinct (map fst m) \<Longrightarrow> distinct (map fst (map_set lt k v m))"
  by (simp add: map_set_def distinct_update distinct_map_ins)

lemma sum_map_ins: "sum_list (map f (map_ins lt k v m)) = f (k, v) + sum_list (map (f :: _ \<Rightarrow> nat) m)"
  by (induction lt k v m rule: map_ins.induct) auto

lemma map_of_deletes:
  "map_of (foldl (\<lambda>next txin. AList.delete (prevout txin) next) m vins) = (map_of m) |` (- prevout ` set vins)"
  by (induction vins arbitrary: m) (auto simp: delete_conv' restrict_map_def fun_eq_iff)

lemma distinct_deletes:
  "distinct (map fst m) \<Longrightarrow> distinct (map fst (foldl (\<lambda>next txin. AList.delete (prevout txin) next) m vins))"
  by (induction vins arbitrary: m) (auto simp: distinct_delete)

lemma sum_delete: "distinct (map fst m) \<Longrightarrow> map_of m k = Some v \<Longrightarrow>
    sum_list (map f m) = f (k, v) + sum_list (map (f :: _ \<Rightarrow> nat) (AList.delete k m))"
proof (induction m)
  case (Cons x m)
  obtain k' v' where x: "x = (k', v')" by (cases x)
  show ?case
  proof (cases "k' = k")
    case True
    then have "AList.delete k m = m" using Cons.prems(1) x by (force simp: AList.delete_eq filter_id_conv)
    then show ?thesis using Cons.prems x True by (simp add: AList.delete_eq)
  next
    case False
    then show ?thesis using Cons x by (simp add: AList.delete_eq)
  qed
qed simp

text \<open>
  A pool is consistent when each input of each of its transactions is marked as spent by it, every
  mark points to such an input, and the total size is the sum of the sizes.
\<close>

definition inputs_marked :: "CTxMemPool \<Rightarrow> txid \<Rightarrow> CTransaction \<Rightarrow> bool" where
  "inputs_marked P h tx \<longleftrightarrow> tx_hash tx = h \<and> length (vin tx) < 2 ^ 32
     \<and> (\<forall>i<length (vin tx). map_of (mapNextTx P) (prevout (vin tx ! i)) = Some \<lparr>ip_ptx = h, ip_n = of_nat i\<rparr>)"

definition mark_ok :: "CTxMemPool \<Rightarrow> COutPoint \<Rightarrow> CInPoint \<Rightarrow> bool" where
  "mark_ok P p ip \<longleftrightarrow> (\<exists>e. map_of (mapTx P) (ip_ptx ip) = Some e
     \<and> unat (ip_n ip) < length (vin (me_tx e)) \<and> prevout (vin (me_tx e) ! unat (ip_n ip)) = p)"

definition pool_ok :: "CTxMemPool \<Rightarrow> bool" where
  "pool_ok P \<longleftrightarrow> distinct (map fst (mapTx P)) \<and> distinct (map fst (mapNextTx P))
     \<and> (\<forall>h e. map_of (mapTx P) h = Some e \<longrightarrow> inputs_marked P h (me_tx e))
     \<and> (\<forall>p ip. map_of (mapNextTx P) p = Some ip \<longrightarrow> mark_ok P p ip)
     \<and> totalTxSize P = of_nat (\<Sum>(h, e)\<leftarrow>mapTx P. me_nTxSize e)"

lemma pool_ok_marked: "pool_ok P \<Longrightarrow> map_of (mapTx P) h = Some e \<Longrightarrow> inputs_marked P h (me_tx e)"
  by (simp add: pool_ok_def)

lemma pool_ok_mark: "pool_ok P \<Longrightarrow> map_of (mapNextTx P) p = Some ip \<Longrightarrow> mark_ok P p ip"
  by (simp add: pool_ok_def)

lemma pool_ok_hash: "pool_ok P \<Longrightarrow> map_of (mapTx P) h = Some e \<Longrightarrow> tx_hash (me_tx e) = h"
  by (auto dest: pool_ok_marked simp: inputs_marked_def)

lemma marked_spender:
  assumes "pool_ok P" and "map_of (mapTx P) h = Some e" and "txin \<in> set (vin (me_tx e))"
  shows "\<exists>ip. map_of (mapNextTx P) (prevout txin) = Some ip \<and> ip_ptx ip = h"
proof -
  obtain i where "i < length (vin (me_tx e))" "txin = vin (me_tx e) ! i" using assms(3) by (auto simp: in_set_conv_nth)
  then show ?thesis using pool_ok_marked [OF assms(1,2)] by (simp add: inputs_marked_def)
qed

lemma mark_spender:
  assumes "pool_ok P" and "map_of (mapNextTx P) p = Some ip"
  shows "\<exists>e txin. map_of (mapTx P) (ip_ptx ip) = Some e \<and> txin \<in> set (vin (me_tx e)) \<and> prevout txin = p"
  using pool_ok_mark [OF assms] unfolding mark_ok_def by (auto intro: nth_mem)

text \<open>No two transactions of a consistent pool spend the same output.\<close>

lemma one_spender:
  assumes "pool_ok P" and "map_of (mapTx P) h = Some e" and "map_of (mapTx P) h' = Some e'"
    and "txin \<in> set (vin (me_tx e))" and "txin' \<in> set (vin (me_tx e'))" and "prevout txin = prevout txin'"
  shows "h = h'"
  using marked_spender [OF assms(1,2,4)] marked_spender [OF assms(1,3,5)] assms(6) by auto

section \<open>Removal\<close>

definition spends_output :: "txid \<Rightarrow> nat \<Rightarrow> CTransaction \<Rightarrow> bool" where
  "spends_output h n tx \<longleftrightarrow> (\<exists>txin\<in>set (vin tx). op_hash (prevout txin) = h \<and> unat (op_n (prevout txin)) < n)"

definition child_of :: "CTxMemPool \<Rightarrow> txid \<Rightarrow> txid \<Rightarrow> bool" where
  "child_of P h h' \<longleftrightarrow> (\<exists>e e'. map_of (mapTx P) h = Some e \<and> map_of (mapTx P) h' = Some e'
     \<and> spends_output h (length (vout (me_tx e))) (me_tx e'))"

definition family :: "CTxMemPool \<Rightarrow> txid set \<Rightarrow> txid set" where
  "family P S = {h'. \<exists>h\<in>S. (child_of P)\<^sup>*\<^sup>* h h'}"

lemma child_hashes_spec:
  assumes "pool_ok P"
  shows "\<exists>hs. child_hashes P h i vouts = Inr hs
     \<and> set hs = {h'. \<exists>j ip. i \<le> j \<and> j < i + length vouts \<and> map_of (mapNextTx P) \<lparr>op_hash = h, op_n = of_nat j\<rparr> = Some ip \<and> ip_ptx ip = h'}"
proof (induction vouts arbitrary: i)
  case (Cons txout vouts)
  obtain hs where hs: "child_hashes P h (i + 1) vouts = Inr hs"
    "set hs = {h'. \<exists>j ip. i + 1 \<le> j \<and> j < i + 1 + length vouts \<and> map_of (mapNextTx P) \<lparr>op_hash = h, op_n = of_nat j\<rparr> = Some ip \<and> ip_ptx ip = h'}"
    using Cons by blast
  have split: "(\<exists>j. i \<le> j \<and> j < i + length (txout # vouts) \<and> Q j) \<longleftrightarrow> Q i \<or> (\<exists>j. i + 1 \<le> j \<and> j < i + 1 + length vouts \<and> Q j)" for Q
  proof -
    have "i \<le> j \<and> j < i + length (txout # vouts) \<longleftrightarrow> j = i \<or> i + 1 \<le> j \<and> j < i + 1 + length vouts" for j by auto
    then show ?thesis by (simp only: conj_assoc [symmetric]) blast
  qed
  show ?case
  proof (cases "map_of (mapNextTx P) \<lparr>op_hash = h, op_n = of_nat i\<rparr>")
    case None
    then show ?thesis using hs split [of "\<lambda>j. \<exists>ip. map_of (mapNextTx P) \<lparr>op_hash = h, op_n = of_nat j\<rparr> = Some ip \<and> ip_ptx ip = _"] by auto
  next
    case (Some ip)
    then obtain e where e: "map_of (mapTx P) (ip_ptx ip) = Some e" using pool_ok_mark [OF assms Some] by (auto simp: mark_ok_def)
    then have "deref_ptx P ip = Inr (me_tx e)" "tx_hash (me_tx e) = ip_ptx ip" using pool_ok_hash [OF assms e] by (simp_all add: deref_ptx_def)
    then show ?thesis
      using Some hs split [of "\<lambda>j. \<exists>ip. map_of (mapNextTx P) \<lparr>op_hash = h, op_n = of_nat j\<rparr> = Some ip \<and> ip_ptx ip = _"] by auto
  qed
qed simp

lemma child_hashes_spenders:
  assumes "pool_ok P"
  shows "\<exists>hs. child_hashes P h 0 vouts = Inr hs
     \<and> set hs = {h'. \<exists>e'. map_of (mapTx P) h' = Some e' \<and> spends_output h (length vouts) (me_tx e')}"
proof -
  from child_hashes_spec [OF assms, of h 0 vouts] obtain hs where hs: "child_hashes P h 0 vouts = Inr hs
    \<and> set hs = {h'. \<exists>j ip. 0 \<le> j \<and> j < 0 + length vouts \<and> map_of (mapNextTx P) \<lparr>op_hash = h, op_n = of_nat j\<rparr> = Some ip \<and> ip_ptx ip = h'}"
    by (rule exE)
  have "(\<exists>j ip. j < length vouts \<and> map_of (mapNextTx P) \<lparr>op_hash = h, op_n = of_nat j\<rparr> = Some ip \<and> ip_ptx ip = h')
    \<longleftrightarrow> (\<exists>e'. map_of (mapTx P) h' = Some e' \<and> spends_output h (length vouts) (me_tx e'))" for h'
  proof
    assume "\<exists>j ip. j < length vouts \<and> map_of (mapNextTx P) \<lparr>op_hash = h, op_n = of_nat j\<rparr> = Some ip \<and> ip_ptx ip = h'"
    then obtain j ip where j: "j < length vouts" "map_of (mapNextTx P) \<lparr>op_hash = h, op_n = of_nat j\<rparr> = Some ip" "ip_ptx ip = h'" by blast
    obtain e txin where e: "map_of (mapTx P) h' = Some e" "txin \<in> set (vin (me_tx e))" "prevout txin = \<lparr>op_hash = h, op_n = of_nat j\<rparr>"
      using mark_spender [OF assms j(2)] j(3) by blast
    have "unat (of_nat j :: u32) \<le> j" unfolding unsigned_of_nat of_nat_id by (rule take_bit_nat_less_eq_self)
    then have "unat (of_nat j :: u32) < length vouts" using j(1) by (rule le_less_trans)
    then have "op_hash (prevout txin) = h \<and> unat (op_n (prevout txin)) < length vouts" by (simp only: e(3) COutPoint.simps simp_thms)
    then have "spends_output h (length vouts) (me_tx e)" unfolding spends_output_def using e(2) by blast
    then show "\<exists>e'. map_of (mapTx P) h' = Some e' \<and> spends_output h (length vouts) (me_tx e')" using e(1) by blast
  next
    assume "\<exists>e'. map_of (mapTx P) h' = Some e' \<and> spends_output h (length vouts) (me_tx e')"
    then obtain e txin where e: "map_of (mapTx P) h' = Some e" "txin \<in> set (vin (me_tx e))" "op_hash (prevout txin) = h"
      "unat (op_n (prevout txin)) < length vouts" by (auto simp: spends_output_def)
    obtain ip where "map_of (mapNextTx P) (prevout txin) = Some ip" "ip_ptx ip = h'" using marked_spender [OF assms e(1,2)] by blast
    moreover have "prevout txin = \<lparr>op_hash = h, op_n = of_nat (unat (op_n (prevout txin)))\<rparr>" using e(3) by simp
    ultimately show "\<exists>j ip. j < length vouts \<and> map_of (mapNextTx P) \<lparr>op_hash = h, op_n = of_nat j\<rparr> = Some ip \<and> ip_ptx ip = h'"
      using e(4) by metis
  qed
  then show ?thesis using hs by simp
qed

lemma erase_tx_fields:
  "mapTx (erase_tx P h e) = AList.delete h (mapTx P)"
  "map_of (mapNextTx (erase_tx P h e)) = (map_of (mapNextTx P)) |` (- prevout ` set (vin (me_tx e)))"
  by (simp_all add: erase_tx_def map_of_deletes)

lemma pool_ok_erase:
  assumes "pool_ok P" and e: "map_of (mapTx P) h = Some e"
  shows "pool_ok (erase_tx P h e)"
proof -
  let ?P = "erase_tx P h e"
  have tx: "map_of (mapTx ?P) h' = Some e' \<longleftrightarrow> h' \<noteq> h \<and> map_of (mapTx P) h' = Some e'" for h' e'
    by (simp add: erase_tx_fields delete_conv')
  have kept: "map_of (mapNextTx ?P) (prevout txin) = map_of (mapNextTx P) (prevout txin)"
    if "map_of (mapTx P) h' = Some e'" "h' \<noteq> h" "txin \<in> set (vin (me_tx e'))" for h' e' txin
  proof -
    have "prevout txin \<notin> prevout ` set (vin (me_tx e))" using one_spender [OF assms(1) that(1) e that(3)] that(2) by blast
    then show ?thesis by (simp add: erase_tx_fields)
  qed
  have marked: "inputs_marked ?P h' (me_tx e')" if "map_of (mapTx ?P) h' = Some e'" for h' e'
  proof -
    have e': "map_of (mapTx P) h' = Some e'" "h' \<noteq> h" using that tx by auto
    then show ?thesis using pool_ok_marked [OF assms(1) e'(1)] kept [OF e' nth_mem] by (simp add: inputs_marked_def)
  qed
  have mark: "mark_ok ?P p ip" if "map_of (mapNextTx ?P) p = Some ip" for p ip
  proof -
    have p: "map_of (mapNextTx P) p = Some ip" "p \<notin> prevout ` set (vin (me_tx e))"
      using that by (auto simp: erase_tx_fields restrict_map_def split: if_splits)
    have "ip_ptx ip \<noteq> h" using mark_spender [OF assms(1) p(1)] p(2) e by auto
    then show ?thesis using pool_ok_mark [OF assms(1) p(1)] by (auto simp: mark_ok_def tx)
  qed
  have d: "distinct (map fst (mapTx P))" and s: "totalTxSize P = of_nat (\<Sum>(h, e)\<leftarrow>mapTx P. me_nTxSize e)"
    using assms(1) by (simp_all add: pool_ok_def)
  have "totalTxSize ?P = of_nat (\<Sum>(h, e)\<leftarrow>mapTx ?P. me_nTxSize e)"
    using sum_delete [OF d e, of "\<lambda>(h, e). me_nTxSize e"] by (simp add: erase_tx_def s)
  then show ?thesis
    using assms(1) marked mark by (simp add: pool_ok_def erase_tx_def distinct_delete distinct_deletes)
qed

lemma child_of_erase: "child_of (erase_tx P h e) x y \<longleftrightarrow> child_of P x y \<and> x \<noteq> h \<and> y \<noteq> h"
  by (auto simp: child_of_def erase_tx_fields delete_conv')

lemma family_base: "S \<subseteq> family P S"
  by (auto simp: family_def)

lemma family_mono: "S \<subseteq> T \<Longrightarrow> family P S \<subseteq> family P T"
  by (auto simp: family_def)

lemma family_child: "x \<in> family P S \<Longrightarrow> child_of P x y \<Longrightarrow> y \<in> family P S"
  by (auto simp: family_def intro: rtranclp.rtrancl_into_rtrancl)

lemma family_least:
  assumes "S \<subseteq> R" and "\<And>x y. x \<in> R \<Longrightarrow> child_of P x y \<Longrightarrow> y \<in> R"
  shows "family P S \<subseteq> R"
proof -
  have "y \<in> R" if "(child_of P)\<^sup>*\<^sup>* x y" "x \<in> R" for x y using that by (induction rule: rtranclp_induct) (auto intro: assms(2))
  then show ?thesis using assms(1) by (auto simp: family_def)
qed

text \<open>Erasing \<open>h\<close> and queueing its children keeps the family of what is left.\<close>

lemma family_erase:
  assumes e: "map_of (mapTx P) h = Some e"
    and C: "C = {h'. \<exists>e'. map_of (mapTx P) h' = Some e' \<and> spends_output h (length (vout (me_tx e))) (me_tx e')}"
  shows "family P (insert h S) = insert h (family (erase_tx P h e) (S \<union> C))"
proof
  let ?R = "insert h (family (erase_tx P h e) (S \<union> C))"
  have "y \<in> ?R" if "x \<in> ?R" "child_of P x y" for x y
  proof (cases "x = h \<or> y = h")
    case True
    then have "y = h \<or> y \<in> C" using that(2) e by (auto simp: C child_of_def)
    then show ?thesis using family_base [of "S \<union> C"] by blast
  next
    case False
    then show ?thesis using that family_child [of x "erase_tx P h e" "S \<union> C" y] by (simp add: child_of_erase)
  qed
  then show "family P (insert h S) \<subseteq> ?R" using family_base [of "S \<union> C"] by (intro family_least) auto
next
  have h: "h \<in> family P (insert h S)" "S \<subseteq> family P (insert h S)" using family_base [of "insert h S" P] by auto
  have "child_of P h x" if "x \<in> C" for x using that e by (auto simp: C child_of_def)
  then have "C \<subseteq> family P (insert h S)" using h(1) family_child by blast
  then have "family (erase_tx P h e) (S \<union> C) \<subseteq> family P (insert h S)"
    using h by (intro family_least) (auto simp: child_of_erase intro: family_child)
  then show "insert h (family (erase_tx P h e) (S \<union> C)) \<subseteq> family P (insert h S)" using h by blast
qed

lemma family_absent: "map_of (mapTx P) h = None \<Longrightarrow> family P (insert h S) = insert h (family P S)"
proof -
  assume h: "map_of (mapTx P) h = None"
  have "family P (insert h S) \<subseteq> insert h (family P S)"
    using h family_base [of S P] family_child [of _ P S] by (intro family_least) (auto simp: child_of_def)
  moreover have "h \<in> family P (insert h S)" using family_base by blast
  moreover have "family P S \<subseteq> family P (insert h S)" by (rule family_mono) auto
  ultimately show ?thesis by blast
qed

definition removed_set :: "CTxMemPool \<Rightarrow> bool \<Rightarrow> txid set \<Rightarrow> txid set" where
  "removed_set P fRecursive S = (if fRecursive then family P S else S)"

definition pool_without :: "CTxMemPool \<Rightarrow> txid set \<Rightarrow> (txid \<times> CTxMemPoolEntry) list" where
  "pool_without P D = filter (\<lambda>(h, e). h \<notin> D) (mapTx P)"

lemma delete_without: "filter (\<lambda>(h, e). h \<notin> D) (AList.delete k m) = filter (\<lambda>(h, e). h \<notin> insert k D) m"
  by (auto simp: AList.delete_eq intro!: filter_cong)

lemma remove_loop_spec:
  "pool_ok P \<Longrightarrow> \<exists>P' rm. remove_loop P removed f q = Inr (P', removed @ rm) \<and> pool_ok P'
     \<and> mapTx P' = pool_without P (removed_set P f (set q)) \<and> mapDeltas P' = mapDeltas P
     \<and> set (map tx_hash rm) = removed_set P f (set q) \<inter> dom (map_of (mapTx P))"
proof (induction P removed f q rule: remove_loop.induct)
  case (1 P removed f)
  then show ?case by (auto simp: removed_set_def family_def pool_without_def)
next
  case (2 P removed f h q)
  show ?case
  proof (cases "map_of (mapTx P) h")
    case None
    then obtain P' rm where P': "remove_loop P removed f q = Inr (P', removed @ rm)" "pool_ok P'"
      "mapTx P' = pool_without P (removed_set P f (set q))" "mapDeltas P' = mapDeltas P"
      "set (map tx_hash rm) = removed_set P f (set q) \<inter> dom (map_of (mapTx P))"
      using 2 by blast
    have "removed_set P f (set (h # q)) = insert h (removed_set P f (set q))"
      using family_absent [OF None] by (simp add: removed_set_def)
    moreover have "pool_without P (insert h D) = pool_without P D" for D
      using None by (force simp: pool_without_def map_of_eq_None_iff intro!: filter_cong)
    ultimately show ?thesis using P' None by auto
  next
    case (Some e)
    let ?P = "erase_tx P h e"
    obtain hs where hs: "(if f then child_hashes P h 0 (vout (me_tx e)) else Inr []) = Inr hs"
      "f \<Longrightarrow> set hs = {h'. \<exists>e'. map_of (mapTx P) h' = Some e' \<and> spends_output h (length (vout (me_tx e))) (me_tx e')}"
      "\<not> f \<Longrightarrow> hs = []"
      using child_hashes_spenders [OF 2(3), of h "vout (me_tx e)"] by (cases f) auto
    then obtain P' rm where P': "remove_loop ?P (removed @ [me_tx e]) f (q @ hs) = Inr (P', (removed @ [me_tx e]) @ rm)" "pool_ok P'"
      "mapTx P' = pool_without ?P (removed_set ?P f (set (q @ hs)))" "mapDeltas P' = mapDeltas ?P"
      "set (map tx_hash rm) = removed_set ?P f (set (q @ hs)) \<inter> dom (map_of (mapTx ?P))"
      using 2(2) [OF Some] pool_ok_erase [OF 2(3) Some] by blast
    have r: "removed_set P f (set (h # q)) = insert h (removed_set ?P f (set (q @ hs)))"
      using family_erase [OF Some hs(2), of "set q"] hs(3) by (cases f) (simp_all add: removed_set_def)
    have "mapTx P' = pool_without P (removed_set P f (set (h # q)))"
      unfolding P'(3) r by (simp add: pool_without_def erase_tx_fields delete_without)
    moreover have "set (map tx_hash (me_tx e # rm)) = removed_set P f (set (h # q)) \<inter> dom (map_of (mapTx P))"
      unfolding r using P'(5) Some pool_ok_hash [OF 2(3) Some] by (auto simp: erase_tx_fields delete_conv')
    ultimately show ?thesis
      using Some hs(1) P'(1,2,4) by (intro exI [of _ P'] exI [of _ "me_tx e # rm"]) (simp add: erase_tx_def)
  qed
qed

text \<open>What a removal takes out: the transaction and, recursively, what spends its outputs.\<close>

definition removal :: "CTxMemPool \<Rightarrow> CTransaction \<Rightarrow> bool \<Rightarrow> txid set" where
  "removal P tx fRecursive = removed_set P fRecursive
     (insert (tx_hash tx) {h'. \<exists>e'. fRecursive \<and> map_of (mapTx P) h' = Some e' \<and> spends_output (tx_hash tx) (length (vout tx)) (me_tx e')})"

lemma pool_remove_spec:
  assumes "pool_ok P" and "\<forall>e. map_of (mapTx P) (tx_hash tx) = Some e \<longrightarrow> me_tx e = tx"
  shows "\<exists>P' rm. pool_remove P tx removed f = Inr (P', removed @ rm) \<and> pool_ok P'
     \<and> mapTx P' = pool_without P (removal P tx f) \<and> mapDeltas P' = mapDeltas P
     \<and> set (map tx_hash rm) = removal P tx f \<inter> dom (map_of (mapTx P))"
proof -
  let ?C = "{h'. \<exists>e'. map_of (mapTx P) h' = Some e' \<and> spends_output (tx_hash tx) (length (vout tx)) (me_tx e')}"
  obtain hs where "remove_start P tx f = Inr hs" "removed_set P f (set hs) = removal P tx f"
  proof (cases "f \<and> \<not> pool_exists P (tx_hash tx)")
    case True
    then obtain hs where "child_hashes P (tx_hash tx) 0 (vout tx) = Inr hs" "set hs = ?C"
      using child_hashes_spenders [OF assms(1)] by blast
    then show ?thesis using True that [of "tx_hash tx # hs"] by (simp add: remove_start_def removal_def)
  next
    case False
    have "removed_set P f {tx_hash tx} = removal P tx f"
    proof (cases f)
      case True
      then obtain e where e: "map_of (mapTx P) (tx_hash tx) = Some e" "me_tx e = tx" using False assms(2) by (auto simp: pool_exists_def)
      have "?C \<subseteq> family P {tx_hash tx}"
        using e family_base [of "{tx_hash tx}" P] by (auto simp: child_of_def intro!: family_child [of "tx_hash tx" P])
      then have "family P (insert (tx_hash tx) ?C) \<subseteq> family P {tx_hash tx}"
        using family_base [of "{tx_hash tx}" P] by (intro family_least) (auto intro: family_child)
      moreover have "family P {tx_hash tx} \<subseteq> family P (insert (tx_hash tx) ?C)" by (rule family_mono) blast
      ultimately show ?thesis using True by (simp add: removal_def removed_set_def)
    qed (simp add: removal_def removed_set_def)
    then show ?thesis using False that [of "[tx_hash tx]"] by (auto simp: remove_start_def)
  qed
  then show ?thesis using remove_loop_spec [OF assms(1), of removed f hs] by (simp add: pool_remove_def)
qed

lemma map_of_pool_without: "map_of (pool_without P D) = (map_of (mapTx P)) |` (- D)"
proof -
  have "map_of (filter (\<lambda>(h, e). h \<notin> D) m) h = ((map_of m) |` (- D)) h" for m :: "(txid \<times> CTxMemPoolEntry) list" and h
    by (induction m) (auto simp: restrict_map_def)
  then show ?thesis by (auto simp: pool_without_def fun_eq_iff)
qed

lemma removal_hash: "tx_hash tx \<in> removal P tx f"
  using family_base [of "insert (tx_hash tx) _" P] by (auto simp: removal_def removed_set_def)

text \<open>After \<^verbatim>\<open>removeConflicts\<close> only the transaction itself spends its inputs.\<close>

definition no_conflict :: "CTxMemPool \<Rightarrow> CTransaction \<Rightarrow> COutPoint set \<Rightarrow> bool" where
  "no_conflict P tx S \<longleftrightarrow> (\<forall>h e. map_of (mapTx P) h = Some e \<longrightarrow> h \<noteq> tx_hash tx \<longrightarrow> prevout ` set (vin (me_tx e)) \<inter> S = {})"

lemma restrict_le [simp]: "m |` A \<subseteq>\<^sub>m m"
  by (auto simp: map_le_def)

lemma map_leD: "m \<subseteq>\<^sub>m n \<Longrightarrow> m k = Some v \<Longrightarrow> n k = Some v"
  by (metis domI map_le_def)

lemma no_conflict_mono: "map_of (mapTx P') \<subseteq>\<^sub>m map_of (mapTx P) \<Longrightarrow> no_conflict P tx S \<Longrightarrow> no_conflict P' tx S"
  unfolding no_conflict_def using map_leD [of "map_of (mapTx P')" "map_of (mapTx P)"] by blast

lemma pool_ok_cong:
  "mapTx P' = mapTx P \<Longrightarrow> mapNextTx P' = mapNextTx P \<Longrightarrow> totalTxSize P' = totalTxSize P \<Longrightarrow> pool_ok P' \<longleftrightarrow> pool_ok P"
  by (simp only: pool_ok_def inputs_marked_def mark_ok_def)

lemma conflicts_loop_spec:
  "pool_ok P \<Longrightarrow> \<exists>P' rm. conflicts_loop P tx removed vins = Inr (P', removed @ rm) \<and> pool_ok P'
     \<and> map_of (mapTx P') \<subseteq>\<^sub>m map_of (mapTx P) \<and> mapDeltas P' = mapDeltas P \<and> no_conflict P' tx (prevout ` set vins)"
proof (induction vins arbitrary: P removed)
  case Nil
  then show ?case by (simp add: no_conflict_def)
next
  case (Cons txin vins)
  let ?p = "prevout txin"
  have "\<exists>P1 rm. (case map_of (mapNextTx P) ?p of None \<Rightarrow> Inr (P, removed)
      | Some p \<Rightarrow> bindE (deref_ptx P p) (\<lambda>c. if tx_hash c \<noteq> tx_hash tx then pool_remove P c removed True else Inr (P, removed))) = Inr (P1, removed @ rm)
     \<and> pool_ok P1 \<and> map_of (mapTx P1) \<subseteq>\<^sub>m map_of (mapTx P) \<and> mapDeltas P1 = mapDeltas P \<and> no_conflict P1 tx {?p}"
  proof (cases "map_of (mapNextTx P) ?p")
    case None
    have "no_conflict P tx {?p}"
      unfolding no_conflict_def using marked_spender [OF Cons.prems] None by fastforce
    then show ?thesis using None Cons.prems by auto
  next
    case (Some ip)
    obtain e i where e: "map_of (mapTx P) (ip_ptx ip) = Some e" "i \<in> set (vin (me_tx e))" "prevout i = ?p"
      using mark_spender [OF Cons.prems Some] by blast
    have d: "deref_ptx P ip = Inr (me_tx e)" "tx_hash (me_tx e) = ip_ptx ip"
      using e(1) pool_ok_hash [OF Cons.prems e(1)] by (simp_all add: deref_ptx_def)
    have only: "h = ip_ptx ip" if "map_of (mapTx P) h = Some e'" "?p \<in> prevout ` set (vin (me_tx e'))" for h e'
      using that one_spender [OF Cons.prems that(1) e(1) _ e(2)] e(3) by auto
    show ?thesis
    proof (cases "ip_ptx ip = tx_hash tx")
      case True
      then have "no_conflict P tx {?p}" using only by (fastforce simp: no_conflict_def)
      then show ?thesis using Some d True Cons.prems by auto
    next
      case False
      obtain P1 rm where P1: "pool_remove P (me_tx e) removed True = Inr (P1, removed @ rm)" "pool_ok P1"
        "mapTx P1 = pool_without P (removal P (me_tx e) True)" "mapDeltas P1 = mapDeltas P"
        using pool_remove_spec [OF Cons.prems, of "me_tx e" removed True] e(1) d(2) by auto
      have "map_of (mapTx P1) (ip_ptx ip) = None"
        using removal_hash [of "me_tx e" P True] d(2) by (simp add: P1(3) map_of_pool_without)
      then have "no_conflict P1 tx {?p}"
        unfolding no_conflict_def using only by (auto simp: P1(3) map_of_pool_without restrict_map_def split: if_splits)
      moreover have "map_of (mapTx P1) \<subseteq>\<^sub>m map_of (mapTx P)" by (simp add: P1(3) map_of_pool_without)
      ultimately show ?thesis using Some d False P1 by auto
    qed
  qed
  then obtain P1 rm where P1: "(case map_of (mapNextTx P) ?p of None \<Rightarrow> Inr (P, removed)
      | Some p \<Rightarrow> bindE (deref_ptx P p) (\<lambda>c. if tx_hash c \<noteq> tx_hash tx then pool_remove P c removed True else Inr (P, removed))) = Inr (P1, removed @ rm)"
    "pool_ok P1" "map_of (mapTx P1) \<subseteq>\<^sub>m map_of (mapTx P)" "mapDeltas P1 = mapDeltas P" "no_conflict P1 tx {?p}" by blast
  obtain P2 rm2 where P2: "conflicts_loop P1 tx (removed @ rm) vins = Inr (P2, (removed @ rm) @ rm2)" "pool_ok P2"
    "map_of (mapTx P2) \<subseteq>\<^sub>m map_of (mapTx P1)" "mapDeltas P2 = mapDeltas P1" "no_conflict P2 tx (prevout ` set vins)"
    using Cons.IH [OF P1(2)] by blast
  have "conflicts_loop P tx removed (txin # vins) = Inr (P2, removed @ rm @ rm2)"
    using P1(1) P2(1) by (auto simp: bindE_def split: option.splits sum.splits if_splits)
  moreover have "no_conflict P2 tx (prevout ` set (txin # vins))"
    using P2(5) no_conflict_mono [OF P2(3) P1(5)] by (auto simp: no_conflict_def)
  ultimately show ?case using P2 P1 map_le_trans [OF P2(3) P1(3)] by auto
qed

lemma block_loop_spec:
  assumes "\<forall>tx\<in>set txs. \<forall>e. map_of (mapTx P) (tx_hash tx) = Some e \<longrightarrow> me_tx e = tx" and "pool_ok P"
  shows "\<exists>P' cs. block_loop P conflicts txs = Inr (P', conflicts @ cs) \<and> pool_ok P' \<and> map_of (mapTx P') \<subseteq>\<^sub>m map_of (mapTx P)
     \<and> (\<forall>tx\<in>set txs. map_of (mapTx P') (tx_hash tx) = None \<and> no_conflict P' tx (prevout ` set (vin tx)))"
  using assms
proof (induction txs arbitrary: P conflicts)
  case (Cons tx txs)
  obtain P1 rm where P1: "pool_remove P tx [] False = Inr (P1, [] @ rm)" "pool_ok P1" "mapTx P1 = pool_without P (removal P tx False)"
    using pool_remove_spec [OF Cons.prems(2), of tx "[]" False] Cons.prems(1) by auto
  obtain P2 cs where P2: "removeConflicts P1 tx conflicts = Inr (P2, conflicts @ cs)" "pool_ok P2"
    "map_of (mapTx P2) \<subseteq>\<^sub>m map_of (mapTx P1)" "no_conflict P2 tx (prevout ` set (vin tx))"
    using conflicts_loop_spec [OF P1(2), of tx conflicts "vin tx"] by (auto simp: removeConflicts_def)
  let ?P = "ClearPrioritisation P2 (tx_hash tx)"
  have c: "pool_ok ?P" "mapTx ?P = mapTx P2" using P2(2) pool_ok_cong [of ?P P2] by (simp_all add: ClearPrioritisation_def)
  have le: "map_of (mapTx P2) \<subseteq>\<^sub>m map_of (mapTx P)"
    using map_le_trans [OF P2(3), of "map_of (mapTx P)"] by (simp add: P1(3) map_of_pool_without)
  have same: "map_of (mapTx P2) h = Some e \<Longrightarrow> map_of (mapTx P) h = Some e" for h e
    using map_leD [OF le] .
  obtain P3 cs' where P3: "block_loop ?P (conflicts @ cs) txs = Inr (P3, (conflicts @ cs) @ cs')" "pool_ok P3"
    "map_of (mapTx P3) \<subseteq>\<^sub>m map_of (mapTx P2)"
    "\<forall>tx\<in>set txs. map_of (mapTx P3) (tx_hash tx) = None \<and> no_conflict P3 tx (prevout ` set (vin tx))"
    using Cons.IH [OF _ c(1), of "conflicts @ cs"] Cons.prems(1) same c(2) by auto
  have "map_of (mapTx P1) (tx_hash tx) = None" using removal_hash [of tx P False] by (simp add: P1(3) map_of_pool_without)
  then have "map_of (mapTx P3) (tx_hash tx) = None"
    using map_leD [OF map_le_trans [OF P3(3) P2(3)], of "tx_hash tx"] by (cases "map_of (mapTx P3) (tx_hash tx)") simp_all
  moreover have "no_conflict P3 tx (prevout ` set (vin tx))" using no_conflict_mono [OF P3(3) P2(4)] .
  ultimately show ?case using P1(1) P2(1) P3 map_le_trans [OF P3(3) le] by auto
qed simp

lemma mark_spent_spec:
  "map_of (mark_spent h i vins next) p = (case map_of (rev (zip (map prevout vins) [i..<i + length vins])) p of
     Some j \<Rightarrow> Some \<lparr>ip_ptx = h, ip_n = of_nat j\<rparr> | None \<Rightarrow> map_of next p)"
  "distinct (map fst next) \<Longrightarrow> distinct (map fst (mark_spent h i vins next))"
proof (induction vins arbitrary: i "next")
  case (Cons txin vins)
  {
    case 1
    have "[i..<i + length (txin # vins)] = i # [i + 1..<i + 1 + length vins]"
      using upt_conv_Cons [of i "i + length (txin # vins)"] by simp
    then show ?case using Cons(1) [of "i + 1" "map_set outpoint_lt (prevout txin) \<lparr>ip_ptx = h, ip_n = of_nat i\<rparr> next"]
      by (auto split: option.splits simp: map_add_def)
  next
    case 2
    then show ?case using Cons(2) by (simp add: distinct_map_set)
  }
qed simp_all

lemma mark_spent_distinct:
  assumes "distinct (map prevout vins)" 
  shows "i < length vins \<Longrightarrow> map_of (mark_spent h 0 vins next) (prevout (vins ! i)) = Some \<lparr>ip_ptx = h, ip_n = of_nat i\<rparr>"
    and "p \<notin> prevout ` set vins \<Longrightarrow> map_of (mark_spent h 0 vins next) p = map_of next p"
proof -
  have d: "distinct (map fst (zip (map prevout vins) [0..<length vins]))" using assms by simp
  have r: "map_of (rev (zip (map prevout vins) [0..<length vins])) = map_of (zip (map prevout vins) [0..<length vins])"
    by (subst map_of_inject_set) (use d in \<open>simp_all add: rev_map [symmetric]\<close>)
  show "map_of (mark_spent h 0 vins next) (prevout (vins ! i)) = Some \<lparr>ip_ptx = h, ip_n = of_nat i\<rparr>" if "i < length vins"
  proof -
    have "(prevout (vins ! i), i) \<in> set (zip (map prevout vins) [0..<length vins])" using that by (force simp: set_zip)
    then have "map_of (zip (map prevout vins) [0..<length vins]) (prevout (vins ! i)) = Some i" using d by simp
    then show ?thesis using mark_spent_spec(1) [of h 0 vins "next"] by (simp add: r)
  qed
  show "map_of (mark_spent h 0 vins next) p = map_of next p" if "p \<notin> prevout ` set vins"
  proof -
    have "map_of (zip (map prevout vins) [0..<length vins]) p = None" using that by (auto simp: map_of_eq_None_iff dest: set_zip_leftD)
    then show ?thesis unfolding mark_spent_spec(1) add_0 r by (simp only: option.case)
  qed
qed

text \<open>What \<^verbatim>\<open>AcceptToMemoryPool\<close> has checked when it adds a transaction.\<close>

definition addable :: "CTxMemPool \<Rightarrow> txid \<Rightarrow> CTransaction \<Rightarrow> bool" where
  "addable P h tx \<longleftrightarrow> tx_hash tx = h \<and> \<not> pool_exists P h \<and> distinct (map prevout (vin tx)) \<and> length (vin tx) < 2 ^ 32
     \<and> (\<forall>txin\<in>set (vin tx). map_of (mapNextTx P) (prevout txin) = None)"

lemma pool_ok_add:
  assumes "pool_ok P" and "addable P h (me_tx e)"
  shows "pool_ok (addUnchecked P h e)"
proof -
  let ?P = "addUnchecked P h e" and ?tx = "me_tx e"
  have a: "tx_hash ?tx = h" "map_of (mapTx P) h = None" "distinct (map prevout (vin ?tx))" "length (vin ?tx) < 2 ^ 32"
    "\<And>txin. txin \<in> set (vin ?tx) \<Longrightarrow> map_of (mapNextTx P) (prevout txin) = None"
    using assms(2) by (auto simp: addable_def pool_exists_def)
  have tx: "map_of (mapTx ?P) = (map_of (mapTx P))(h \<mapsto> e)" by (simp add: addUnchecked_def)
  note nx = mark_spent_distinct [OF a(3), of _ h "mapNextTx P"]
  have old: "map_of (mapNextTx ?P) p = map_of (mapNextTx P) p" if "map_of (mapNextTx P) p \<noteq> None" for p
  proof -
    have "p \<notin> prevout ` set (vin ?tx)" using that a(5) by auto
    then show ?thesis by (simp add: addUnchecked_def nx(2))
  qed
  have marked: "inputs_marked ?P h' (me_tx e')" if "map_of (mapTx ?P) h' = Some e'" for h' e'
  proof (cases "h' = h")
    case True
    then have "e' = e" using that by (simp add: tx)
    then show ?thesis using True a(1,4) nx(1) by (simp add: inputs_marked_def addUnchecked_def)
  next
    case False
    then have "inputs_marked P h' (me_tx e')" using that pool_ok_marked [OF assms(1)] by (simp add: tx)
    then show ?thesis using old by (simp add: inputs_marked_def)
  qed
  have mark: "mark_ok ?P p ip" if "map_of (mapNextTx ?P) p = Some ip" for p ip
  proof (cases "p \<in> prevout ` set (vin ?tx)")
    case True
    then obtain i where i: "i < length (vin ?tx)" "p = prevout (vin ?tx ! i)" by (auto simp: in_set_conv_nth)
    then have ip: "ip = \<lparr>ip_ptx = h, ip_n = of_nat i\<rparr>" using that nx(1) by (simp add: addUnchecked_def)
    have "unat (of_nat i :: u32) = i" using i(1) a(4) by (simp add: unsigned_of_nat take_bit_nat_eq_self)
    then show ?thesis using i ip by (simp add: mark_ok_def tx)
  next
    case False
    then have "map_of (mapNextTx P) p = Some ip" using that by (simp add: addUnchecked_def nx(2))
    then have "mark_ok P p ip" by (rule pool_ok_mark [OF assms(1)])
    then show ?thesis using a(2) by (auto simp: mark_ok_def tx)
  qed
  have k: "h \<notin> fst ` set (mapTx P)" using a(2) by (simp add: map_of_eq_None_iff)
  have "(\<Sum>(h, e)\<leftarrow>mapTx ?P. me_nTxSize e) = me_nTxSize e + (\<Sum>(h, e)\<leftarrow>mapTx P. me_nTxSize e)"
    using k sum_map_ins [of "\<lambda>(h, e). me_nTxSize e" uint256_lt h e "mapTx P"] by (simp add: addUnchecked_def map_set_def)
  then have "totalTxSize ?P = of_nat (\<Sum>(h, e)\<leftarrow>mapTx ?P. me_nTxSize e)"
    using assms(1) by (simp add: addUnchecked_def pool_ok_def)
  then show ?thesis
    using assms(1) marked mark by (simp add: pool_ok_def) (simp add: addUnchecked_def distinct_map_set mark_spent_spec(2))
qed

section \<open>Reachable pools\<close>

definition same_tx :: "CTxMemPool \<Rightarrow> CTransaction \<Rightarrow> bool" where
  "same_tx P tx \<longleftrightarrow> (\<forall>e. map_of (mapTx P) (tx_hash tx) = Some e \<longrightarrow> me_tx e = tx)"

lemma same_tx_mono: "map_of (mapTx P') \<subseteq>\<^sub>m map_of (mapTx P) \<Longrightarrow> same_tx P tx \<Longrightarrow> same_tx P' tx"
  unfolding same_tx_def using map_leD [of "map_of (mapTx P')" "map_of (mapTx P)"] by blast

lemma remove_all_txs_spec:
  "pool_ok P \<Longrightarrow> \<forall>tx\<in>set txs. same_tx P tx \<Longrightarrow> \<exists>P'. remove_all_txs P txs = Inr P' \<and> pool_ok P'
     \<and> (\<forall>tx\<in>set txs. map_of (mapTx P') (tx_hash tx) = None) \<and> map_of (mapTx P') \<subseteq>\<^sub>m map_of (mapTx P)"
proof (induction txs arbitrary: P)
  case (Cons tx txs)
  obtain P1 rm where P1: "pool_remove P tx [] True = Inr (P1, rm)" "pool_ok P1" "mapTx P1 = pool_without P (removal P tx True)"
    using pool_remove_spec [OF Cons.prems(1), of tx "[]" True] Cons.prems(2) by (auto simp: same_tx_def)
  have le: "map_of (mapTx P1) \<subseteq>\<^sub>m map_of (mapTx P)" by (simp add: P1(3) map_of_pool_without)
  have gone: "map_of (mapTx P1) (tx_hash tx) = None" using removal_hash [of tx P True] by (simp add: P1(3) map_of_pool_without)
  have "\<forall>tx\<in>set txs. same_tx P1 tx" using Cons.prems(2) same_tx_mono [OF le] by simp
  from Cons.IH [OF P1(2) this] obtain P2 where P2: "remove_all_txs P1 txs = Inr P2" "pool_ok P2"
    "\<forall>tx\<in>set txs. map_of (mapTx P2) (tx_hash tx) = None" "map_of (mapTx P2) \<subseteq>\<^sub>m map_of (mapTx P1)" by blast
  have "map_of (mapTx P2) (tx_hash tx) = None" using gone map_leD [OF P2(4)] by (metis not_None_eq)
  then show ?case using P1(1) P2 map_le_trans [OF P2(4) le] by auto
qed simp

lemma immature_loop_subset: "immature_loop params P base h v m = Inr (txs, v') \<Longrightarrow> set txs \<subseteq> me_tx ` snd ` set m"
proof (induction m arbitrary: v txs v')
  case (Cons x m)
  obtain k e where x: "x = (k, e)" by (cases x)
  show ?case using Cons.prems Cons.IH by (fastforce simp: x bindE_Inr split: if_splits)
qed simp

text \<open>
  The steps that change the pool, additions under the checks of \<^verbatim>\<open>AcceptToMemoryPool\<close>; the
  transactions a removal names are those of the pool when their hash is in it.
\<close>

inductive pool_step :: "CTxMemPool \<Rightarrow> CTxMemPool \<Rightarrow> bool" where
  add: "addable P h (me_tx e) \<Longrightarrow> pool_step P (addUnchecked P h e)"
| remove: "same_tx P tx \<Longrightarrow> pool_remove P tx removed f = Inr (P', rm) \<Longrightarrow> pool_step P P'"
| conflicts: "removeConflicts P tx removed = Inr (P', rm) \<Longrightarrow> pool_step P P'"
| block: "\<forall>tx\<in>set txs. same_tx P tx \<Longrightarrow> removeForBlock P txs cs = Inr (P', cs') \<Longrightarrow> pool_step P P'"
| coinbases: "removeCoinbaseSpends params P db_view v h = Inr (P', v') \<Longrightarrow> pool_step P P'"
| clear: "pool_step P (pool_clear P)"
| prioritise: "pool_step P (PrioritiseTransaction rnd P hash dPriorityDelta nFeeDelta)"
| unprioritise: "pool_step P (ClearPrioritisation P hash)"
| updated: "pool_step P (AddTransactionsUpdated P n)"

lemma removeCoinbaseSpends_ok:
  assumes "pool_ok P" and "removeCoinbaseSpends params P base v h = Inr (P', v')"
  shows "pool_ok P'"
proof -
  obtain txs where txs: "immature_loop params P base h v (mapTx P) = Inr (txs, v')" "remove_all_txs P txs = Inr P'"
    using assms(2) by (auto simp: removeCoinbaseSpends_def bindE_Inr)
  have "same_tx P tx" if tx: "tx \<in> set txs" for tx
  proof -
    obtain k e where "(k, e) \<in> set (mapTx P)" "tx = me_tx e" using immature_loop_subset [OF txs(1)] tx by force
    then have "map_of (mapTx P) k = Some e" "tx = me_tx e" using assms(1) by (simp_all add: pool_ok_def)
    then show ?thesis using pool_ok_hash [OF assms(1)] by (auto simp: same_tx_def)
  qed
  then show ?thesis using remove_all_txs_spec [OF assms(1), of txs] txs(2) by auto
qed

lemma pool_step_ok: "pool_step P P' \<Longrightarrow> pool_ok P \<Longrightarrow> pool_ok P'"
proof (induction rule: pool_step.induct)
  case (add P h e)
  then show ?case by (simp add: pool_ok_add)
next
  case (remove P tx removed f P' rm)
  then show ?case using pool_remove_spec [of P tx removed f] by (auto simp: same_tx_def)
next
  case (conflicts P tx removed P' rm)
  then show ?case using conflicts_loop_spec [of P tx removed "vin tx"] by (auto simp: removeConflicts_def)
next
  case (block txs P cs P' cs')
  then show ?case using block_loop_spec [of txs P cs] by (auto simp: removeForBlock_def same_tx_def)
next
  case (coinbases params P v h P' v')
  then show ?case by (simp add: removeCoinbaseSpends_ok)
next
  case (clear P)
  then show ?case by (simp add: pool_clear_def pool_ok_def)
next
  case (prioritise P rnd hash p d)
  then show ?case using pool_ok_cong [of "PrioritiseTransaction rnd P hash p d" P]
    by (simp add: PrioritiseTransaction_def split: prod.split)
next
  case (unprioritise P hash)
  then show ?case using pool_ok_cong [of "ClearPrioritisation P hash" P] by (simp add: ClearPrioritisation_def)
next
  case (updated P n)
  then show ?case using pool_ok_cong [of "AddTransactionsUpdated P n" P] by (simp add: AddTransactionsUpdated_def)
qed

lemma reachable_pool_ok: "pool_step\<^sup>*\<^sup>* CTxMemPool_new P \<Longrightarrow> pool_ok P"
proof (induction rule: rtranclp_induct)
  case base
  show ?case by (simp add: CTxMemPool_new_def pool_ok_def)
qed (rule pool_step_ok)

section \<open>Properties\<close>



text \<open>
  C33. After \<^verbatim>\<open>removeForBlock\<close> the pool holds no transaction of the block and none that
  spends an output the block spends, and what is left was in the pool before.
\<close>

theorem removeForBlock_resolves:
  assumes "pool_ok P" and "\<forall>tx\<in>set txs. same_tx P tx"
  shows "\<exists>P' cs. removeForBlock P txs conflicts = Inr (P', conflicts @ cs) \<and> pool_ok P'
     \<and> map_of (mapTx P') \<subseteq>\<^sub>m map_of (mapTx P)
     \<and> (\<forall>tx\<in>set txs. map_of (mapTx P') (tx_hash tx) = None
          \<and> (\<forall>h e. map_of (mapTx P') h = Some e \<longrightarrow> prevout ` set (vin (me_tx e)) \<inter> prevout ` set (vin tx) = {}))"
proof -
  obtain P' cs where "block_loop P conflicts txs = Inr (P', conflicts @ cs)" "pool_ok P'" "map_of (mapTx P') \<subseteq>\<^sub>m map_of (mapTx P)"
    "\<forall>tx\<in>set txs. map_of (mapTx P') (tx_hash tx) = None \<and> no_conflict P' tx (prevout ` set (vin tx))"
    using block_loop_spec [OF _ assms(1), of txs conflicts] assms(2) by (auto simp: same_tx_def)
  moreover from this have "prevout ` set (vin (me_tx e)) \<inter> prevout ` set (vin tx) = {}"
    if "tx \<in> set txs" "map_of (mapTx P') h = Some e" for tx h e
    using that unfolding no_conflict_def by (cases "h = tx_hash tx") auto
  ultimately show ?thesis unfolding removeForBlock_def by blast
qed

text \<open>A transaction \<open>1\<close> and its child \<open>2\<close>; \<open>3\<close> spends what \<open>1\<close> spends.\<close>

definition ex_pool_tx :: "u64 \<Rightarrow> u64 \<Rightarrow> CTransaction" where
  "ex_pool_tx h parent = \<lparr>tx_hash = uint256_of_u64 h, tx_nVersion = 1,
     vin = [\<lparr>prevout = \<lparr>op_hash = uint256_of_u64 parent, op_n = 0\<rparr>, scriptSig = [], nSequence = 0\<rparr>],
     vout = [\<lparr>nValue = 1, scriptPubKey = []\<rparr>], nLockTime = 0\<rparr>"

definition ex_add :: "u64 \<Rightarrow> u64 \<Rightarrow> CTxMemPool \<Rightarrow> CTxMemPool" where
  "ex_add h parent P = addUnchecked P (uint256_of_u64 h) (CTxMemPoolEntry_of (ex_pool_tx h parent) 0 0 0 1)"

definition ex_pool :: CTxMemPool where "ex_pool = ex_add 2 1 (ex_add 1 9 CTxMemPool_new)"

lemma ex_pool_simps [simp]:
  "me_tx (CTxMemPoolEntry_of tx f t q l) = tx" "tx_hash (ex_pool_tx h p) = uint256_of_u64 h"
  "vin (ex_pool_tx h p) = [\<lparr>prevout = \<lparr>op_hash = uint256_of_u64 p, op_n = 0\<rparr>, scriptSig = [], nSequence = 0\<rparr>]"
  "vout (ex_pool_tx h p) = [\<lparr>nValue = 1, scriptPubKey = []\<rparr>]"
  by (simp_all add: CTxMemPoolEntry_of_def ex_pool_tx_def Let_def)

lemma ex_add_maps:
  "map_of (mapTx (ex_add h p P)) = (map_of (mapTx P))(uint256_of_u64 h \<mapsto> CTxMemPoolEntry_of (ex_pool_tx h p) 0 0 0 1)"
  "map_of (mapNextTx (ex_add h p P)) = (map_of (mapNextTx P))(\<lparr>op_hash = uint256_of_u64 p, op_n = 0\<rparr> \<mapsto> \<lparr>ip_ptx = uint256_of_u64 h, ip_n = 0\<rparr>)"
  by (simp_all add: ex_add_def addUnchecked_def)

lemma ex_pool_maps:
  "map_of (mapTx ex_pool) = [uint256_of_u64 1 \<mapsto> CTxMemPoolEntry_of (ex_pool_tx 1 9) 0 0 0 1, uint256_of_u64 2 \<mapsto> CTxMemPoolEntry_of (ex_pool_tx 2 1) 0 0 0 1]"
  by (simp add: ex_pool_def ex_add_maps) (simp add: CTxMemPool_new_def)

lemma ex_pool_reached: "pool_step\<^sup>*\<^sup>* CTxMemPool_new ex_pool"
proof -
  have one: "pool_step CTxMemPool_new (ex_add 1 9 CTxMemPool_new)"
    unfolding ex_add_def by (rule pool_step.add) (simp add: addable_def pool_exists_def CTxMemPool_new_def)
  have "addable (ex_add 1 9 CTxMemPool_new) (uint256_of_u64 2) (ex_pool_tx 2 1)"
    by (simp add: addable_def pool_exists_def ex_add_maps uint256_of_u64_inj) (simp add: CTxMemPool_new_def)
  then have "pool_step (ex_add 1 9 CTxMemPool_new) ex_pool"
    unfolding ex_pool_def ex_add_def [of 2] by (intro pool_step.add) simp
  with one show ?thesis by simp
qed

lemma ex_pool_ok: "pool_ok ex_pool" "same_tx ex_pool (ex_pool_tx 1 9)" "same_tx ex_pool (ex_pool_tx 3 9)"
  using reachable_pool_ok [OF ex_pool_reached] by (simp_all add: same_tx_def ex_pool_maps uint256_of_u64_inj)



theorem removeForBlock_resolves_witness:
  "\<exists>P' cs. removeForBlock ex_pool [ex_pool_tx 3 9] [] = Inr (P', cs) \<and> map_of (mapTx P') (uint256_of_u64 1) = None"
proof -
  obtain P' cs where P': "removeForBlock ex_pool [ex_pool_tx 3 9] [] = Inr (P', [] @ cs)" "map_of (mapTx P') \<subseteq>\<^sub>m map_of (mapTx ex_pool)"
    "\<forall>h e. map_of (mapTx P') h = Some e \<longrightarrow> prevout ` set (vin (me_tx e)) \<inter> prevout ` set (vin (ex_pool_tx 3 9)) = {}"
    using removeForBlock_resolves [OF ex_pool_ok(1), of "[ex_pool_tx 3 9]" "[]"] ex_pool_ok(3) by auto
  have "map_of (mapTx P') (uint256_of_u64 1) = None"
  proof (cases "map_of (mapTx P') (uint256_of_u64 1)")
    case (Some e)
    then have "e = CTxMemPoolEntry_of (ex_pool_tx 1 9) 0 0 0 1" using map_leD [OF P'(2) Some] by (simp add: ex_pool_maps uint256_of_u64_inj)
    then show ?thesis using P'(3) Some by fastforce
  qed
  then show ?thesis using P'(1) by auto
qed

end
