(* ===== verification/Standard.thy ===== *)
theory Standard
  imports Interpreter
begin

text \<open>
  Standard output scripts (\<^verbatim>\<open>src/script/standard.cpp\<close>): the template solver, the
  number of arguments a script takes, the standardness test, and the destinations of a script.
  A destination is a key identifier or a script identifier, the 160-bit numbers as their bytes;
  \<open>Hash160\<close> is an argument. The main theorem describes the scripts the solver accepts by
  their form.
\<close>

section \<open>The solver\<close>

datatype txnouttype = TX_NONSTANDARD | TX_PUBKEY | TX_PUBKEYHASH | TX_SCRIPTHASH | TX_MULTISIG | TX_NULL_DATA

definition OP_SMALLINTEGER :: opcodetype where "OP_SMALLINTEGER = 0xfa"
definition OP_PUBKEYS :: opcodetype where "OP_PUBKEYS = 0xfb"
definition OP_PUBKEYHASH :: opcodetype where "OP_PUBKEYHASH = 0xfd"
definition OP_PUBKEY :: opcodetype where "OP_PUBKEY = 0xfe"

definition mTemplates :: "(txnouttype \<times> bytes) list" where
  "mTemplates =
     [(TX_PUBKEY, [OP_PUBKEY, OP_CHECKSIG]),
      (TX_PUBKEYHASH, [OP_DUP, OP_HASH160, OP_PUBKEYHASH, OP_EQUALVERIFY, OP_CHECKSIG]),
      (TX_MULTISIG, [OP_SMALLINTEGER, OP_PUBKEYS, OP_SMALLINTEGER, OP_CHECKMULTISIG])]"

lemma GetOp_ok: "GetOp pc = (True, opcode, v, pc') \<Longrightarrow> length pc' < length pc"
  using GetOp_progress [of pc True opcode v pc'] by (cases pc) auto

text \<open>
  The keys of a multisignature script: the loop collects pushes as long as they have the size of a
  key, and leaves the first operation that is none.
\<close>

function pubkeys_loop :: "opcodetype \<Rightarrow> bytes \<Rightarrow> bytes \<Rightarrow> bytes list \<Rightarrow> opcodetype \<times> bytes \<times> bytes \<times> bytes list" where
  "pubkeys_loop opcode1 vch1 pc1 sols =
     (if 33 \<le> length vch1 \<and> length vch1 \<le> 65
      then case GetOp pc1 of (ok, opcode', vch', pc') \<Rightarrow>
             if ok then pubkeys_loop opcode' vch' pc' (sols @ [vch1]) else (opcode', vch', pc', sols @ [vch1])
      else (opcode1, vch1, pc1, sols))"
  by pat_completeness auto
termination by (relation "measure (\<lambda>(op, v, pc, s). length pc)") (auto dest: GetOp_ok [OF sym])

declare pubkeys_loop.simps [simp del]

text \<open>
  One round of the comparison of a script with a template: \<open>None\<close> is a
  \<^verbatim>\<open>break\<close>, otherwise the iterators and the solutions for the next round.
\<close>

definition match_op :: "opcodetype \<Rightarrow> bytes \<Rightarrow> opcodetype \<Rightarrow> bytes \<Rightarrow> bytes list \<Rightarrow> bytes list option" where
  "match_op opcode1 vch1 opcode2 vch2 sols =
     (if opcode2 = OP_PUBKEY then if length vch1 < 33 \<or> 65 < length vch1 then None else Some (sols @ [vch1])
      else if opcode2 = OP_PUBKEYHASH then if length vch1 \<noteq> 20 then None else Some (sols @ [vch1])
      else if opcode2 = OP_SMALLINTEGER
      then if opcode1 = OP_0 \<or> OP_1 \<le> opcode1 \<and> opcode1 \<le> OP_16
           then map_option (\<lambda>n. sols @ [[word_of_int n]]) (DecodeOP_N opcode1) else None
      else if opcode1 \<noteq> opcode2 \<or> vch1 \<noteq> vch2 then None else Some sols)"

definition template_step :: "bytes \<Rightarrow> bytes \<Rightarrow> bytes list \<Rightarrow> (bytes \<times> bytes \<times> bytes list) option" where
  "template_step pc1 pc2 sols =
     (case GetOp pc1 of (ok1, opcode1, vch1, pc1) \<Rightarrow> if \<not> ok1 then None else
      case GetOp pc2 of (ok2, opcode2, vch2, pc2) \<Rightarrow> if \<not> ok2 then None else
      if opcode2 = OP_PUBKEYS
      then case pubkeys_loop opcode1 vch1 pc1 sols of (opcode1, vch1, pc1, sols) \<Rightarrow>
           case GetOp pc2 of (ok2, opcode2, vch2, pc2) \<Rightarrow>
             if \<not> ok2 then None else map_option (\<lambda>sols. (pc1, pc2, sols)) (match_op opcode1 vch1 opcode2 vch2 sols)
      else map_option (\<lambda>sols. (pc1, pc2, sols)) (match_op opcode1 vch1 opcode2 vch2 sols))"

lemma template_step_length: "template_step pc1 pc2 sols = Some (q1, q2, r) \<Longrightarrow> length q2 < length pc2"
  by (auto simp: template_step_def split: prod.splits if_splits dest!: GetOp_ok)

function template_loop :: "bytes \<Rightarrow> bytes \<Rightarrow> bytes list \<Rightarrow> bytes list option" where
  "template_loop pc1 pc2 sols =
     (if pc1 = [] \<and> pc2 = [] then Some sols
      else case template_step pc1 pc2 sols of None \<Rightarrow> None | Some (pc1, pc2, sols) \<Rightarrow> template_loop pc1 pc2 sols)"
  by pat_completeness auto
termination by (relation "measure (\<lambda>(p, q, s). length q)") (auto dest: template_step_length)

declare template_loop.simps [simp del]

text \<open>
  The templates in the order of the map. The additional checks compare bytes; the number of
  solutions is at least two.
\<close>

fun scan_templates :: "bytes \<Rightarrow> (txnouttype \<times> bytes) list \<Rightarrow> bool \<times> txnouttype \<times> bytes list" where
  "scan_templates script1 [] = (False, TX_NONSTANDARD, [])"
| "scan_templates script1 ((tplate, script2) # templates) =
     (case template_loop script1 script2 [] of
        None \<Rightarrow> scan_templates script1 templates
      | Some sols \<Rightarrow>
          if tplate = TX_MULTISIG
          then let m = hd (hd sols); n = hd (last sols)
               in (\<not> (m < 1 \<or> n < 1 \<or> n < m \<or> length sols - 2 \<noteq> unat n), tplate, sols)
          else (True, tplate, sols))"

definition Solver :: "bytes \<Rightarrow> bool \<times> txnouttype \<times> bytes list" where
  "Solver script =
     (if IsPayToScriptHash script then (True, TX_SCRIPTHASH, [take 20 (drop 2 script)])
      else if 1 \<le> length script \<and> hd script = OP_RETURN \<and> IsPushOnly (drop 1 script) then (True, TX_NULL_DATA, [])
      else scan_templates script mTemplates)"

definition ScriptSigArgsExpected :: "txnouttype \<Rightarrow> bytes list \<Rightarrow> int" where
  "ScriptSigArgsExpected t vSolutions =
     (case t of
        TX_NONSTANDARD \<Rightarrow> - 1
      | TX_NULL_DATA \<Rightarrow> - 1
      | TX_PUBKEY \<Rightarrow> 1
      | TX_PUBKEYHASH \<Rightarrow> 2
      | TX_MULTISIG \<Rightarrow> if length vSolutions < 1 \<or> length (hd vSolutions) < 1 then - 1 else uint (hd (hd vSolutions)) + 1
      | TX_SCRIPTHASH \<Rightarrow> 1)"

definition MAX_OP_RETURN_RELAY :: nat where "MAX_OP_RETURN_RELAY = 83"

text \<open>The option \<^verbatim>\<open>-datacarrier\<close> is an argument. The type is a result, too.\<close>

definition IsStandard :: "bool \<Rightarrow> bytes \<Rightarrow> bool \<times> txnouttype" where
  "IsStandard datacarrier script =
     (case Solver script of (ok, whichType, vSolutions) \<Rightarrow>
        (ok \<and> (if whichType = TX_MULTISIG
               then let m = hd (hd vSolutions); n = hd (last vSolutions) in \<not> (n < 1 \<or> 3 < n) \<and> \<not> (m < 1 \<or> n < m)
               else \<not> (whichType = TX_NULL_DATA \<and> (\<not> datacarrier \<or> MAX_OP_RETURN_RELAY < length script)))
         \<and> whichType \<noteq> TX_NONSTANDARD, whichType))"

section \<open>Destinations\<close>

datatype CTxDestination = CNoDestination | CKeyID bytes | CScriptID bytes

definition ExtractDestination :: "(bytes \<Rightarrow> bytes) \<Rightarrow> bytes \<Rightarrow> CTxDestination option" where
  "ExtractDestination Hash160 script =
     (case Solver script of (ok, whichType, vSolutions) \<Rightarrow>
        if \<not> ok then None
        else if whichType = TX_PUBKEY then (let key = CPubKey_Set (hd vSolutions) in if CPubKey_IsValid key then Some (CKeyID (Hash160 key)) else None)
        else if whichType = TX_PUBKEYHASH then Some (CKeyID (hd vSolutions))
        else if whichType = TX_SCRIPTHASH then Some (CScriptID (hd vSolutions))
        else None)"

text \<open>
  The result with the reference arguments: the type, the addresses, and the number required, which
  is left alone on the early returns.
\<close>

definition ExtractDestinations :: "(bytes \<Rightarrow> bytes) \<Rightarrow> bytes \<Rightarrow> bool \<times> txnouttype \<times> CTxDestination list \<times> int option" where
  "ExtractDestinations Hash160 script =
     (case Solver script of (ok, typeRet, vSolutions) \<Rightarrow>
        if \<not> ok then (False, typeRet, [], None)
        else if typeRet = TX_NULL_DATA then (False, typeRet, [], None)
        else if typeRet = TX_MULTISIG
        then let addressRet = map (\<lambda>key. CKeyID (Hash160 key)) (filter CPubKey_IsValid (map CPubKey_Set (butlast (tl vSolutions))))
             in (addressRet \<noteq> [], typeRet, addressRet, Some (uint (hd (hd vSolutions))))
        else (case ExtractDestination Hash160 script of
                None \<Rightarrow> (False, typeRet, [], Some 1)
              | Some address \<Rightarrow> (True, typeRet, [address], Some 1)))"

definition GetScriptForDestination :: "CTxDestination \<Rightarrow> bytes" where
  "GetScriptForDestination dest =
     (case dest of
        CNoDestination \<Rightarrow> []
      | CKeyID keyID \<Rightarrow> script_for_key keyID
      | CScriptID scriptID \<Rightarrow> script_for_script scriptID)"

section \<open>The forms the solver accepts\<close>

text \<open>A push of \<open>d\<close>, in any of the four encodings that can hold it.\<close>

definition push_of :: "bytes \<Rightarrow> bytes \<Rightarrow> bool" where
  "push_of p d \<longleftrightarrow> length d < 76 \<and> p = of_nat (length d) # d
     \<or> length d < 256 \<and> p = OP_PUSHDATA1 # le_bytes 1 (length d) @ d
     \<or> length d < 256 ^ 2 \<and> p = OP_PUSHDATA2 # le_bytes 2 (length d) @ d
     \<or> length d < 256 ^ 4 \<and> p = OP_PUSHDATA4 # le_bytes 4 (length d) @ d"

definition small_op :: "nat \<Rightarrow> opcodetype" where "small_op n = (if n = 0 then OP_0 else of_nat (n + 80))"

definition key_size :: "bytes \<Rightarrow> bool" where "key_size k \<longleftrightarrow> 33 \<le> length k \<and> length k \<le> 65"

lemma GetOp_long:
  assumes "(op, k) = (OP_PUSHDATA1, 1) \<or> (op, k) = (OP_PUSHDATA2, 2) \<or> (op, k) = (OP_PUSHDATA4, 4)" and "length d < 256 ^ k"
  shows "GetOp (op # le_bytes k (length d) @ d @ rest) = (True, op, d, rest)"
proof -
  have "push_size op (le_bytes k (length d) @ d @ rest) = Some (le_nat (le_bytes k (length d)), d @ rest)"
    using assms(1) length_le_bytes [of k "length d"] by (auto simp: push_size_def simp del: length_le_bytes)
  moreover have "op \<le> OP_PUSHDATA4" using assms(1) by auto
  ultimately show ?thesis using assms(2) by (simp add: le_nat_le_bytes)
qed

lemma push_of_GetOp:
  assumes "push_of p d"
  shows "GetOp (p @ rest) = (True, hd p, d, rest)" and "hd p \<le> OP_PUSHDATA4" and "p \<noteq> []"
proof -
  consider (short) "length d < 76" "p = of_nat (length d) # d"
    | (long) op k where "(op, k) = (OP_PUSHDATA1, 1) \<or> (op, k) = (OP_PUSHDATA2, 2) \<or> (op, k) = (OP_PUSHDATA4, 4)"
        "length d < 256 ^ k" "p = op # le_bytes k (length d) @ d"
    using assms unfolding push_of_def by (metis power_one_right)
  then have "GetOp (p @ rest) = (True, hd p, d, rest) \<and> hd p \<le> OP_PUSHDATA4 \<and> p \<noteq> []"
  proof cases
    case short
    then show ?thesis using GetOp_short [of d rest] by (simp add: word_le_nat_alt del: GetOp.simps)
  next
    case long
    then show ?thesis using GetOp_long [OF long(1,2)] by (auto simp del: GetOp.simps)
  qed
  then show "GetOp (p @ rest) = (True, hd p, d, rest)" "hd p \<le> OP_PUSHDATA4" "p \<noteq> []" by blast+
qed

lemma GetOp_push:
  assumes "GetOp pc = (True, op, d, rest)" and "op \<le> OP_PUSHDATA4"
  shows "\<exists>p. push_of p d \<and> pc = p @ rest \<and> op = hd p"
proof -
  obtain opc pc1 where pc: "pc = opc # pc1" using assms(1) by (cases pc) auto
  have o: "opc = op" "op \<le> OP_PUSHDATA4" using assms pc by (auto split: if_splits option.splits)
  then obtain n pc2 where n: "push_size op pc1 = Some (n, pc2)" "n \<le> length pc2" "d = take n pc2" "rest = drop n pc2"
    using assms(1) pc by (auto split: option.splits if_splits)
  then have d: "pc2 = d @ rest" "length d = n" by simp_all
  show ?thesis
  proof (cases "op < OP_PUSHDATA1")
    case True
    then have "n = unat op" "pc2 = pc1" using n(1) by (simp_all add: push_size_def)
    moreover from this have "n < 76" using True by (simp add: word_less_nat_alt)
    ultimately have "push_of (op # d) d" "pc = (op # d) @ rest" using d o pc by (simp_all add: push_of_def)
    then show ?thesis by fastforce
  next
    case False
    define k :: nat where "k = (if op = OP_PUSHDATA1 then 1 else if op = OP_PUSHDATA2 then 2 else 4)"
    have k: "k \<le> length pc1" "n = le_nat (take k pc1)" "pc2 = drop k pc1"
      using n(1) False by (auto simp: push_size_def k_def Suc_le_eq split: if_splits)
    then have b: "take k pc1 = le_bytes k n" "n < 256 ^ k" using le_bytes_le_nat [of "take k pc1"] le_nat_lt [of "take k pc1"]
      by (simp_all add: min_absorb2)
    have "op = OP_PUSHDATA1 \<or> op = OP_PUSHDATA2 \<or> op = OP_PUSHDATA4"
      using False o(2) by (auto simp: word_less_nat_alt word_le_nat_alt word_unat_eq_iff)
    then have "push_of (op # le_bytes k n @ d) d" using b(2) d(2) by (auto simp: push_of_def k_def)
    moreover have "pc = (op # le_bytes k n @ d) @ rest"
      using pc o(1) b(1) k(3) d(1) append_take_drop_id [of k pc1] by simp
    ultimately show ?thesis by fastforce
  qed
qed
lemma GetOp_op: "OP_PUSHDATA4 < op \<Longrightarrow> GetOp (op # pc) = (True, op, [], pc)"
  by (auto dest: leD)

lemma GetOp_code: "GetOp pc = (True, op, d, rest) \<Longrightarrow> OP_PUSHDATA4 < op \<Longrightarrow> pc = op # rest \<and> d = []"
  by (cases pc) (auto split: if_splits option.splits)

lemma small_op_unat: "0 < n \<Longrightarrow> n \<le> 16 \<Longrightarrow> unat (small_op n) = n + 80"
proof -
  assume n: "0 < n" "n \<le> 16"
  have "unat (of_nat (n + 80) :: u8) = n + 80" using n(2) unfolding unsigned_of_nat by (subst take_bit_nat_eq_self) simp_all
  then show ?thesis using n(1) by (simp only: small_op_def less_numeral_extra(3) if_False neq0_conv [symmetric])
qed

lemma small_op_cases:
  assumes "GetOp pc = (True, op, d, rest)"
  shows "op = OP_0 \<or> OP_1 \<le> op \<and> op \<le> OP_16 \<longleftrightarrow> (\<exists>n\<le>16. op = small_op n \<and> pc = small_op n # rest \<and> d = [])" (is "?L \<longleftrightarrow> ?R")
proof
  assume ?L
  then show ?R
  proof
    assume z: "op = OP_0"
    then have "pc = 0 # rest \<and> d = []"
      using assms by (cases pc) (auto simp: push_size_def split: if_splits option.splits)
    then show ?R using z by (intro exI [of _ 0]) (simp add: small_op_def)
  next
    assume o: "OP_1 \<le> op \<and> op \<le> OP_16"
    then have u: "81 \<le> unat op" "unat op \<le> 96" by (simp_all add: word_le_nat_alt)
    then have "op = small_op (unat op - 80)" by (auto simp: small_op_def)
    moreover have "pc = op # rest \<and> d = []" using GetOp_code [OF assms] u by (simp add: word_less_nat_alt)
    ultimately show ?R using u by (intro exI [of _ "unat op - 80"]) simp
  qed
next
  assume ?R
  then obtain n where n: "n \<le> 16" "op = small_op n" by blast
  show ?L
  proof (cases "n = 0")
    case False
    then have "unat op = n + 80" using n small_op_unat by simp
    then show ?thesis using n(1) False by (simp add: word_le_nat_alt)
  qed (use n in \<open>simp add: small_op_def\<close>)
qed



lemma DecodeOP_N_small: "n \<le> 16 \<Longrightarrow> DecodeOP_N (small_op n) = Some (int n)"
proof (cases "n = 0")
  case False
  assume "n \<le> 16"
  with False have u: "unat (small_op n) = n + 80" by (simp add: small_op_unat)
  then have "uint (small_op n) = int n + 80" by (simp add: uint_nat)
  moreover have "small_op n \<noteq> OP_0" "OP_1 \<le> small_op n" "small_op n \<le> OP_16"
    using u False \<open>n \<le> 16\<close> by (auto simp: word_le_nat_alt dest!: arg_cong [of _ _ unat])
  ultimately show ?thesis by (simp add: DecodeOP_N_def)
qed (simp add: DecodeOP_N_def small_op_def)

lemma GetOp_small: "n \<le> 16 \<Longrightarrow> GetOp (small_op n # pc) = (True, small_op n, [], pc)"
proof (cases "n = 0")
  case False
  assume "n \<le> 16"
  then show ?thesis using False small_op_unat [of n] by (intro GetOp_op) (simp add: word_less_nat_alt)
qed (simp add: small_op_def push_size_def)

lemma match_small:
  assumes "GetOp pc = (True, op, d, rest)"
  shows "match_op op d OP_SMALLINTEGER [] sols = Some r
    \<longleftrightarrow> (\<exists>n\<le>16. pc = small_op n # rest \<and> r = sols @ [[of_nat n]])"
proof -
  have "match_op op d OP_SMALLINTEGER [] sols
      = (if op = OP_0 \<or> OP_1 \<le> op \<and> op \<le> OP_16 then map_option (\<lambda>n. sols @ [[word_of_int n]]) (DecodeOP_N op) else None)"
    by (simp add: match_op_def OP_SMALLINTEGER_def OP_PUBKEY_def OP_PUBKEYHASH_def)
  moreover have "map_option (\<lambda>n. sols @ [[word_of_int n]]) (DecodeOP_N (small_op n)) = Some (sols @ [[of_nat n]])" if "n \<le> 16" for n
    using DecodeOP_N_small [OF that] by simp
  moreover have "op = small_op n" if "pc = small_op n # rest" "n \<le> 16" for n using that assms GetOp_small [OF that(2), of rest] by simp
  ultimately have e: "match_op op d OP_SMALLINTEGER [] sols
      = (if \<exists>n\<le>16. op = small_op n \<and> pc = small_op n # rest \<and> d = [] then map_option (\<lambda>n. sols @ [[word_of_int n]]) (DecodeOP_N op) else None)"
    and v: "\<And>n. n \<le> 16 \<Longrightarrow> map_option (\<lambda>n. sols @ [[word_of_int n]]) (DecodeOP_N (small_op n)) = Some (sols @ [[of_nat n]])"
    and o: "\<And>n. pc = small_op n # rest \<Longrightarrow> n \<le> 16 \<Longrightarrow> op = small_op n \<and> d = []"
    using small_op_cases [OF assms] GetOp_small assms by auto
  show ?thesis
  proof
    assume m: "match_op op d OP_SMALLINTEGER [] sols = Some r"
    then obtain n where n: "n \<le> 16" "op = small_op n" "pc = small_op n # rest" using e by (auto split: if_splits)
    then have "(\<exists>n\<le>16. op = small_op n \<and> pc = small_op n # rest \<and> d = [])" using o by blast
    then have "Some r = map_option (\<lambda>n. sols @ [[word_of_int n]]) (DecodeOP_N (small_op n))" using m e n(2) by simp
    then show "\<exists>n\<le>16. pc = small_op n # rest \<and> r = sols @ [[of_nat n]]" using v [OF n(1)] n by auto
  next
    assume "\<exists>n\<le>16. pc = small_op n # rest \<and> r = sols @ [[of_nat n]]"
    then obtain n where n: "n \<le> 16" "pc = small_op n # rest" "r = sols @ [[of_nat n]]" by blast
    then have "op = small_op n" "d = []" using o by blast+
    then show "match_op op d OP_SMALLINTEGER [] sols = Some r" using e v [OF n(1)] n by auto
  qed
qed

text \<open>A push and a rest determine each other.\<close>

lemma push_unique:
  assumes "push_of p d" and "push_of q e" and "p @ r = q @ s"
  shows "d = e \<and> r = s \<and> p = q"
proof -
  have "GetOp (p @ r) = (True, hd p, d, r)" "GetOp (q @ s) = (True, hd q, e, s)" using push_of_GetOp assms(1,2) by blast+
  then show ?thesis using assms(3) by auto
qed

lemma push_GetOp_iff:
  "GetOp pc = (True, op, d, rest) \<Longrightarrow> d \<noteq> [] \<Longrightarrow> \<exists>p. push_of p d \<and> pc = p @ rest"
  using GetOp_push [of pc op d rest] GetOp_code [of pc op d rest] by (meson not_le)

lemma pubkeys_loop_iff:
  "GetOp pc0 = (True, op, d, pc) \<Longrightarrow> pubkeys_loop op d pc sols = (op', d', pc', r') \<Longrightarrow>
    match_op op' d' OP_SMALLINTEGER [] r' = Some r \<longleftrightarrow>
    (\<exists>ps ks n. pc0 = concat ps @ small_op n # pc' \<and> list_all2 push_of ps ks \<and> (\<forall>k\<in>set ks. key_size k) \<and> n \<le> 16
       \<and> r = sols @ ks @ [[of_nat n]])"
proof (induction op d pc sols arbitrary: pc0 rule: pubkeys_loop.induct)
  case (1 op d pc sols)
  show ?case
  proof (cases "key_size d")
    case False
    then have e: "op' = op" "d' = d" "pc' = pc" "r' = sols" using 1(3) by (subst (asm) pubkeys_loop.simps; auto simp: key_size_def)+
    show ?thesis unfolding e(1,2,4) match_small [OF 1(2)]
    proof
      assume "\<exists>n\<le>16. pc0 = small_op n # pc \<and> r = sols @ [[of_nat n]]"
      then show "\<exists>ps ks n. pc0 = concat ps @ small_op n # pc' \<and> list_all2 push_of ps ks \<and> (\<forall>k\<in>set ks. key_size k) \<and> n \<le> 16
          \<and> r = sols @ ks @ [[of_nat n]]"
        unfolding e(3) by (metis (no_types, lifting) append_Nil concat.simps(1) empty_iff empty_set list.rel_inject(1))
    next
      assume "\<exists>ps ks n. pc0 = concat ps @ small_op n # pc' \<and> list_all2 push_of ps ks \<and> (\<forall>k\<in>set ks. key_size k) \<and> n \<le> 16
          \<and> r = sols @ ks @ [[of_nat n]]"
      then obtain ps ks n where a: "pc0 = concat ps @ small_op n # pc'" "list_all2 push_of ps ks" "\<forall>k\<in>set ks. key_size k" "n \<le> 16"
          "r = sols @ ks @ [[of_nat n]]" by blast
      have "ps = []"
      proof (cases ps)
        case (Cons p qs)
        then obtain k ks' where k: "ks = k # ks'" "push_of p k" using a(2) by (auto simp: list_all2_Cons1)
        then have "d = k" using a(1) 1(2) Cons push_of_GetOp(1) [OF k(2), of "concat qs @ small_op n # pc'"] by simp
        then show ?thesis using False a(3) k(1) by simp
      qed
      then show "\<exists>n\<le>16. pc0 = small_op n # pc \<and> r = sols @ [[of_nat n]]" using a e(3) by auto
    qed
  next
    case True
    obtain p where p: "push_of p d" "pc0 = p @ pc" using push_GetOp_iff [OF 1(2)] True by (cases d) (auto simp: key_size_def)
    obtain ok op2 d2 pc2 where g: "GetOp pc = (ok, op2, d2, pc2)" by (metis surj_pair)
    have split: "(\<exists>ps ks n. pc0 = concat ps @ small_op n # pc' \<and> list_all2 push_of ps ks \<and> (\<forall>k\<in>set ks. key_size k) \<and> n \<le> 16
          \<and> r = sols @ ks @ [[of_nat n]])
        \<longleftrightarrow> (\<exists>ps ks n. pc = concat ps @ small_op n # pc' \<and> list_all2 push_of ps ks \<and> (\<forall>k\<in>set ks. key_size k) \<and> n \<le> 16
          \<and> r = (sols @ [d]) @ ks @ [[of_nat n]])" (is "?A \<longleftrightarrow> ?B")
    proof
      assume ?A
      then obtain ps ks n where a: "pc0 = concat ps @ small_op n # pc'" "list_all2 push_of ps ks" "\<forall>k\<in>set ks. key_size k" "n \<le> 16"
          "r = sols @ ks @ [[of_nat n]]" by blast
      have "ps \<noteq> []"
      proof
        assume "ps = []"
        then have "d = []" using a(1) 1(2) GetOp_small [OF a(4), of pc'] by simp
        then show False using True by (simp add: key_size_def)
      qed
      then obtain q qs k ks' where q: "ps = q # qs" "ks = k # ks'" "push_of q k" "list_all2 push_of qs ks'"
        using a(2) by (cases ps) (auto simp: list_all2_Cons1)
      have "p @ pc = q @ concat qs @ small_op n # pc'" using a(1) p(2) q(1) by simp
      then have "d = k" "pc = concat qs @ small_op n # pc'" using push_unique [OF p(1) q(3)] by blast+
      then show ?B using a q by (intro exI [of _ qs] exI [of _ ks'] exI [of _ n]) auto
    next
      assume ?B
      then obtain ps ks n where "pc = concat ps @ small_op n # pc'" "list_all2 push_of ps ks" "\<forall>k\<in>set ks. key_size k" "n \<le> 16"
          "r = (sols @ [d]) @ ks @ [[of_nat n]]" by blast
      then show ?A using p True by (intro exI [of _ "p # ps"] exI [of _ "d # ks"] exI [of _ n]) auto
    qed
    show ?thesis
    proof (cases ok)
      case ok: True
      then have "pubkeys_loop op2 d2 pc2 (sols @ [d]) = (op', d', pc', r')"
        using 1(3) True g by (subst (asm) pubkeys_loop.simps) (simp add: key_size_def)
      then show ?thesis unfolding split using 1(1) [OF _ g [symmetric] refl refl ok, of pc] True g ok by (simp add: key_size_def)
    next
      case False
      then have "op' = op2" "d' = d2" using 1(3) True g by (subst (asm) pubkeys_loop.simps; simp add: key_size_def)+
      moreover have "op2 = OP_INVALIDOPCODE" "d2 = []" using g False by (cases pc; auto split: if_splits option.splits)+
      ultimately have "match_op op' d' OP_SMALLINTEGER [] r' = None"
        by (simp add: match_op_def OP_SMALLINTEGER_def OP_PUBKEY_def OP_PUBKEYHASH_def)
      moreover have "\<not> (pc = concat ps @ small_op n # pc' \<and> list_all2 push_of ps ks \<and> n \<le> 16)" for ps ks n
      proof
        assume a: "pc = concat ps @ small_op n # pc' \<and> list_all2 push_of ps ks \<and> n \<le> 16"
        show False
        proof (cases ps)
          case Nil
          then show ?thesis using a g False GetOp_small [of n pc'] by simp
        next
          case (Cons q qs)
          then obtain k where "push_of q k" using a by (auto simp: list_all2_Cons1)
          then show ?thesis using push_of_GetOp(1) [of q k "concat qs @ small_op n # pc'"] a Cons g False by simp
        qed
      qed
      ultimately show ?thesis unfolding split by auto
    qed
  qed
qed

lemma template_step_eq:
  "GetOp pc = (ok, op1, d, rest) \<Longrightarrow> GetOp pc2' = (True, op, v2, pc2) \<Longrightarrow> op \<noteq> OP_PUBKEYS
    \<Longrightarrow> template_step pc pc2' sols = (if ok then map_option (\<lambda>s. (rest, pc2, s)) (match_op op1 d op v2 sols) else None)"
  by (simp add: template_step_def)

lemma codes_distinct:
  "OP_PUBKEY \<noteq> OP_PUBKEYHASH" "OP_PUBKEY \<noteq> OP_PUBKEYS" "OP_PUBKEY \<noteq> OP_SMALLINTEGER" "OP_PUBKEYHASH \<noteq> OP_PUBKEYS"
  "OP_PUBKEYHASH \<noteq> OP_SMALLINTEGER" "OP_SMALLINTEGER \<noteq> OP_PUBKEYS"
  by (simp_all add: OP_SMALLINTEGER_def OP_PUBKEYS_def OP_PUBKEYHASH_def OP_PUBKEY_def)

lemma step_code:
  assumes "OP_PUSHDATA4 < op" and "op \<notin> {OP_SMALLINTEGER, OP_PUBKEYS, OP_PUBKEYHASH, OP_PUBKEY}"
  shows "template_step pc (op # pc2) sols = Some (q1, q2, r) \<longleftrightarrow> pc = op # q1 \<and> q2 = pc2 \<and> r = sols"
proof -
  obtain ok op1 d rest where g: "GetOp pc = (ok, op1, d, rest)" by (metis surj_pair)
  have "template_step pc (op # pc2) sols = (if ok \<and> op1 = op \<and> d = [] then Some (rest, pc2, sols) else None)"
    using assms(2) by (simp add: template_step_def g GetOp_op [OF assms(1)] match_op_def del: GetOp.simps)
  moreover have "ok \<and> op1 = op \<and> d = [] \<and> rest = q1 \<longleftrightarrow> pc = op # q1"
    using g GetOp_code [of pc op1 d rest] GetOp_op [OF assms(1), of q1] assms(1) by auto
  ultimately show ?thesis by auto
qed

lemma special_codes: "OP_PUSHDATA4 < OP_PUBKEY" "OP_PUSHDATA4 < OP_PUBKEYHASH" "OP_PUSHDATA4 < OP_PUBKEYS" "OP_PUSHDATA4 < OP_SMALLINTEGER"
  by (simp_all add: OP_PUBKEY_def OP_PUBKEYHASH_def OP_PUBKEYS_def OP_SMALLINTEGER_def)

lemma push_result:
  assumes "GetOp pc = (ok, op, d, rest)"
  shows "(\<exists>p k. pc = p @ q \<and> push_of p k \<and> k \<noteq> [] \<and> P k) \<longleftrightarrow> ok \<and> rest = q \<and> d \<noteq> [] \<and> P d"
proof
  assume "\<exists>p k. pc = p @ q \<and> push_of p k \<and> k \<noteq> [] \<and> P k"
  then obtain p k where "pc = p @ q" "push_of p k" "k \<noteq> []" "P k" by blast
  then show "ok \<and> rest = q \<and> d \<noteq> [] \<and> P d" using push_of_GetOp(1) [of p k q] assms by simp
next
  assume a: "ok \<and> rest = q \<and> d \<noteq> [] \<and> P d"
  then obtain p where "push_of p d" "pc = p @ q" using push_GetOp_iff [of pc op d rest] assms by auto
  then show "\<exists>p k. pc = p @ q \<and> push_of p k \<and> k \<noteq> [] \<and> P k" using a by blast
qed

lemma step_key:
  "template_step pc (OP_PUBKEY # pc2) sols = Some (q1, q2, r)
    \<longleftrightarrow> q2 = pc2 \<and> (\<exists>p k. pc = p @ q1 \<and> push_of p k \<and> key_size k \<and> r = sols @ [k])"
proof -
  obtain ok op1 d rest where g: "GetOp pc = (ok, op1, d, rest)" by (metis surj_pair)
  have "template_step pc (OP_PUBKEY # pc2) sols = (if ok \<and> key_size d then Some (rest, pc2, sols @ [d]) else None)"
    unfolding template_step_eq [OF g GetOp_op [OF special_codes(1)] codes_distinct(2)] by (auto simp: match_op_def key_size_def)
  moreover have "k \<noteq> [] \<and> key_size k \<longleftrightarrow> key_size k" for k by (auto simp: key_size_def)
  ultimately show ?thesis using push_result [OF g, of q1 "\<lambda>k. key_size k \<and> r = sols @ [k]"] by (auto split: if_splits)
qed

lemma step_hash:
  "template_step pc (OP_PUBKEYHASH # pc2) sols = Some (q1, q2, r)
    \<longleftrightarrow> q2 = pc2 \<and> (\<exists>p h. pc = p @ q1 \<and> push_of p h \<and> length h = 20 \<and> r = sols @ [h])"
proof -
  obtain ok op1 d rest where g: "GetOp pc = (ok, op1, d, rest)" by (metis surj_pair)
  have "template_step pc (OP_PUBKEYHASH # pc2) sols = (if ok \<and> length d = 20 then Some (rest, pc2, sols @ [d]) else None)"
    unfolding template_step_eq [OF g GetOp_op [OF special_codes(2)] codes_distinct(4)] by (simp add: match_op_def codes_distinct [symmetric])
  moreover have "k \<noteq> [] \<and> length k = 20 \<longleftrightarrow> length k = 20" for k :: bytes by auto
  ultimately show ?thesis using push_result [OF g, of q1 "\<lambda>k. length k = 20 \<and> r = sols @ [k]"] by (auto split: if_splits)
qed

lemma step_small:
  "template_step pc (OP_SMALLINTEGER # pc2) sols = Some (q1, q2, r)
    \<longleftrightarrow> q2 = pc2 \<and> (\<exists>n\<le>16. pc = small_op n # q1 \<and> r = sols @ [[of_nat n]])"
proof -
  obtain ok op1 d rest where g: "GetOp pc = (ok, op1, d, rest)" by (metis surj_pair)
  have e: "template_step pc (OP_SMALLINTEGER # pc2) sols
      = (if ok then map_option (\<lambda>s. (rest, pc2, s)) (match_op op1 d OP_SMALLINTEGER [] sols) else None)"
    by (rule template_step_eq [OF g GetOp_op [OF special_codes(4)] codes_distinct(6)])
  show ?thesis
  proof (cases ok)
    case True
    then have g': "GetOp pc = (True, op1, d, rest)" using g by simp
    have "rest = q1" if "pc = small_op n # q1" "n \<le> 16" for n using g' that GetOp_small [OF that(2), of q1] by simp
    then show ?thesis using e True match_small [OF g', of sols] by auto
  next
    case False
    then have "pc \<noteq> small_op n # q1" if "n \<le> 16" for n using g GetOp_small [OF that, of q1] by auto
    then show ?thesis using e False by auto
  qed
qed

lemma step_keys:
  "template_step pc (OP_PUBKEYS # OP_SMALLINTEGER # pc2) sols = Some (q1, q2, r)
    \<longleftrightarrow> q2 = pc2 \<and> (\<exists>ps ks n. pc = concat ps @ small_op n # q1 \<and> list_all2 push_of ps ks \<and> (\<forall>k\<in>set ks. key_size k) \<and> n \<le> 16
       \<and> r = sols @ ks @ [[of_nat n]])"
proof -
  obtain ok op1 d rest where g: "GetOp pc = (ok, op1, d, rest)" by (metis surj_pair)
  obtain op' d' pc' r' where l: "pubkeys_loop op1 d rest sols = (op', d', pc', r')" by (metis surj_pair)
  have e: "template_step pc (OP_PUBKEYS # OP_SMALLINTEGER # pc2) sols
      = (if ok then map_option (\<lambda>s. (pc', pc2, s)) (match_op op' d' OP_SMALLINTEGER [] r') else None)"
    unfolding template_step_def g GetOp_op [OF special_codes(3)] prod.case GetOp_op [OF special_codes(4)] l by simp
  show ?thesis
  proof (cases ok)
    case True
    then have g': "GetOp pc = (True, op1, d, rest)" using g by simp
    have "pc' = q1" if a: "pc = concat ps @ small_op n # q1" "list_all2 push_of ps ks" "\<forall>k\<in>set ks. key_size k" "n \<le> 16" for ps ks n
    proof -
      have "\<exists>op' d' r'. pubkeys_loop op d rest sols = (op', d', q1, r')"
        if "GetOp (concat ps @ small_op n # q1) = (True, op, d, rest)" "list_all2 push_of ps ks" "\<forall>k\<in>set ks. key_size k" for op d rest sols
        using that
      proof (induction ps arbitrary: ks op d rest sols)
        case Nil
        then have "d = []" "rest = q1" using GetOp_small [OF a(4), of q1] by simp_all
        then show ?case by (subst pubkeys_loop.simps) simp
      next
        case (Cons p ps)
        then obtain k ks' where k: "ks = k # ks'" "push_of p k" "list_all2 push_of ps ks'" by (auto simp: list_all2_Cons1)
        have kd: "d = k" "rest = concat ps @ small_op n # q1"
          using Cons.prems(1) push_of_GetOp(1) [OF k(2), of "concat ps @ small_op n # q1"] by simp_all
        obtain op2 d2 rest2 where g2: "GetOp rest = (True, op2, d2, rest2)"
        proof (cases ps)
          case Nil
          then show ?thesis using that GetOp_small [OF a(4), of q1] kd(2) by simp
        next
          case (Cons p2 qs)
          then obtain k2 where "push_of p2 k2" using k(3) by (auto simp: list_all2_Cons1)
          then show ?thesis using that push_of_GetOp(1) [of p2 k2 "concat qs @ small_op n # q1"] kd(2) Cons by simp
        qed
        obtain op' d' r' where "pubkeys_loop op2 d2 rest2 (sols @ [d]) = (op', d', q1, r')"
          using Cons.IH [OF _ k(3)] g2 kd(2) Cons.prems(3) k(1) by fastforce
        then show ?case using g2 kd(1) Cons.prems(3) k(1) by (subst pubkeys_loop.simps) (simp add: key_size_def)
      qed
      from this [of op1 d rest sols] show ?thesis using g' a(1-3) l by simp
    qed
    note only = this
    show ?thesis
    proof (cases "pc' = q1")
      case True
      then show ?thesis using e \<open>ok\<close> pubkeys_loop_iff [OF g' l, of r] by auto
    next
      case False
      then show ?thesis using e \<open>ok\<close> only by auto
    qed
  next
    case False
    have "False" if a: "pc = concat ps @ small_op n # q1" "list_all2 push_of ps ks" "n \<le> 16" for ps ks n
    proof (cases ps)
      case Nil
      then show ?thesis using a g False GetOp_small [OF a(3), of q1] by simp
    next
      case (Cons q qs)
      then obtain k where "push_of q k" using a(2) by (auto simp: list_all2_Cons1)
      then show ?thesis using push_of_GetOp(1) [of q k "concat qs @ small_op n # q1"] a(1) Cons g False by simp
    qed
    then show ?thesis using e False by auto
  qed
qed

lemma loop_step:
  "template_loop pc (x # pc2) sols = Some r \<longleftrightarrow> (\<exists>q1 q2 s. template_step pc (x # pc2) sols = Some (q1, q2, s) \<and> template_loop q1 q2 s = Some r)"
  by (subst template_loop.simps) (auto split: option.splits)

lemma loop_end: "template_loop pc [] sols = Some r \<longleftrightarrow> pc = [] \<and> r = sols"
  by (subst template_loop.simps) (auto simp: template_step_def split: prod.splits)

lemma step_codes:
  assumes "op \<in> {OP_CHECKSIG, OP_DUP, OP_HASH160, OP_EQUALVERIFY, OP_CHECKMULTISIG}"
  shows "template_step pc (op # pc2) sols = Some (q1, q2, r) \<longleftrightarrow> pc = op # q1 \<and> q2 = pc2 \<and> r = sols"
  using assms by (intro step_code) (auto simp: OP_SMALLINTEGER_def OP_PUBKEYS_def OP_PUBKEYHASH_def OP_PUBKEY_def)

lemma match_pubkey:
  "template_loop s [OP_PUBKEY, OP_CHECKSIG] [] = Some r \<longleftrightarrow> (\<exists>p k. s = p @ [OP_CHECKSIG] \<and> push_of p k \<and> key_size k \<and> r = [k])"
  by (auto simp: loop_step step_key step_codes loop_end)

lemma match_pubkeyhash:
  "template_loop s [OP_DUP, OP_HASH160, OP_PUBKEYHASH, OP_EQUALVERIFY, OP_CHECKSIG] [] = Some r
    \<longleftrightarrow> (\<exists>p h. s = [OP_DUP, OP_HASH160] @ p @ [OP_EQUALVERIFY, OP_CHECKSIG] \<and> push_of p h \<and> length h = 20 \<and> r = [h])"
  by (auto simp: loop_step step_hash step_codes loop_end)

lemma match_multisig:
  "template_loop s [OP_SMALLINTEGER, OP_PUBKEYS, OP_SMALLINTEGER, OP_CHECKMULTISIG] [] = Some r
    \<longleftrightarrow> (\<exists>m n ps ks. s = [small_op m] @ concat ps @ [small_op n, OP_CHECKMULTISIG] \<and> m \<le> 16 \<and> n \<le> 16
         \<and> list_all2 push_of ps ks \<and> (\<forall>k\<in>set ks. key_size k) \<and> r = [[of_nat m]] @ ks @ [[of_nat n]])"
proof -
  have last: "template_loop q [OP_CHECKMULTISIG] a = Some r \<longleftrightarrow> q = [OP_CHECKMULTISIG] \<and> r = a" for q a
    by (auto simp: loop_step step_codes loop_end)
  have keys: "template_loop q [OP_PUBKEYS, OP_SMALLINTEGER, OP_CHECKMULTISIG] a = Some r \<longleftrightarrow>
      (\<exists>ps ks n. q = concat ps @ small_op n # [OP_CHECKMULTISIG] \<and> list_all2 push_of ps ks \<and> (\<forall>k\<in>set ks. key_size k) \<and> n \<le> 16
         \<and> r = a @ ks @ [[of_nat n]])" for q a
    unfolding loop_step [of q] step_keys using last by blast
  have "template_loop s [OP_SMALLINTEGER, OP_PUBKEYS, OP_SMALLINTEGER, OP_CHECKMULTISIG] [] = Some r \<longleftrightarrow>
      (\<exists>q m. m \<le> 16 \<and> s = small_op m # q \<and> template_loop q [OP_PUBKEYS, OP_SMALLINTEGER, OP_CHECKMULTISIG] [[of_nat m]] = Some r)"
    unfolding loop_step [of s] step_small append_Nil by blast
  then show ?thesis unfolding keys append_Cons append_Nil by blast
qed
text \<open>The forms: a script of the type with these solutions.\<close>

inductive standard_form :: "txnouttype \<Rightarrow> bytes list \<Rightarrow> bytes \<Rightarrow> bool" where
  script_hash: "length h = 20 \<Longrightarrow> standard_form TX_SCRIPTHASH [h] ([OP_HASH160, 20] @ h @ [OP_EQUAL])"
| null_data: "IsPushOnly data \<Longrightarrow> standard_form TX_NULL_DATA [] (OP_RETURN # data)"
| pubkey: "push_of p k \<Longrightarrow> key_size k \<Longrightarrow> standard_form TX_PUBKEY [k] (p @ [OP_CHECKSIG])"
| pubkeyhash: "push_of p h \<Longrightarrow> length h = 20 \<Longrightarrow> standard_form TX_PUBKEYHASH [h] ([OP_DUP, OP_HASH160] @ p @ [OP_EQUALVERIFY, OP_CHECKSIG])"
| multisig: "list_all2 push_of ps ks \<Longrightarrow> (\<forall>k\<in>set ks. key_size k) \<Longrightarrow> 1 \<le> m \<Longrightarrow> m \<le> length ks \<Longrightarrow> length ks \<le> 16
    \<Longrightarrow> standard_form TX_MULTISIG ([[of_nat m]] @ ks @ [[of_nat (length ks)]])
          ([small_op m] @ concat ps @ [small_op (length ks), OP_CHECKMULTISIG])"

text \<open>The first byte tells the forms apart.\<close>

lemma push_first: "push_of p d \<Longrightarrow> p = hd p # tl p \<and> hd p \<le> OP_PUSHDATA4"
  using push_of_GetOp(2,3) by simp

lemma key_push_first: "push_of p k \<Longrightarrow> key_size k \<Longrightarrow> hd p \<noteq> OP_0"
proof -
  assume "push_of p k" "key_size k"
  moreover have "of_nat (length k) \<noteq> (0 :: u8)" if "length k < 76" "33 \<le> length k"
    using unat_len [OF that(1)] that(2) by (metis unat_0 not_numeral_le_zero)
  ultimately show ?thesis by (auto simp: push_of_def key_size_def)
qed

lemma script_hash_iff: "IsPayToScriptHash s \<longleftrightarrow> (\<exists>h. length h = 20 \<and> s = [OP_HASH160, 20] @ h @ [OP_EQUAL])"
proof
  assume a: "IsPayToScriptHash s"
  then obtain x y t where s: "s = x # y # t" "length t = 21" by (auto simp: IsPayToScriptHash_def eval_nat_numeral length_Suc_conv)
  then obtain h z where t: "t = h @ [z]" "length h = 20" by (cases t rule: rev_cases) auto
  then have "s ! 22 = z" using s by (simp add: nth_Cons' nth_append)
  then show "\<exists>h. length h = 20 \<and> s = [OP_HASH160, 20] @ h @ [OP_EQUAL]" using a s t by (auto simp: IsPayToScriptHash_def)
next
  assume "\<exists>h. length h = 20 \<and> s = [OP_HASH160, 20] @ h @ [OP_EQUAL]"
  then show "IsPayToScriptHash s" by (auto simp: IsPayToScriptHash_def nth_Cons' nth_append)
qed

lemma small_first: "n \<le> 16 \<Longrightarrow> small_op n = OP_0 \<or> OP_1 \<le> small_op n \<and> small_op n \<le> OP_16"
  using small_op_unat [of n] by (cases "n = 0") (auto simp: small_op_def word_le_nat_alt)

lemma unat_small: "n \<le> 16 \<Longrightarrow> unat (of_nat n :: u8) = n"
  by (rule unat_len) simp

lemma small_inj: "m \<le> 16 \<Longrightarrow> n \<le> 16 \<Longrightarrow> of_nat m = (of_nat n :: u8) \<Longrightarrow> m = n"
  using unat_small by metis

lemma scan_pubkey:
  assumes "template_loop s [OP_PUBKEY, OP_CHECKSIG] [] = Some r"
  shows "\<not> IsPayToScriptHash s" "hd s \<noteq> OP_RETURN" "standard_form TX_PUBKEY r s"
    "template_loop s [OP_DUP, OP_HASH160, OP_PUBKEYHASH, OP_EQUALVERIFY, OP_CHECKSIG] [] = None"
    "template_loop s [OP_SMALLINTEGER, OP_PUBKEYS, OP_SMALLINTEGER, OP_CHECKMULTISIG] [] = None"
proof -
  obtain p k where p: "s = p @ [OP_CHECKSIG]" "push_of p k" "key_size k" "r = [k]" using assms unfolding match_pubkey by blast
  obtain x y where x: "p = x # y" "x \<le> OP_PUSHDATA4" "x \<noteq> OP_0" using push_first [OF p(2)] key_push_first [OF p(2,3)] by (metis list.sel(1))
  have ne: "x \<noteq> OP_HASH160" "x \<noteq> OP_RETURN" "x \<noteq> OP_DUP" "\<not> OP_1 \<le> x" using x(2) by (auto simp: word_le_nat_alt)
  show "\<not> IsPayToScriptHash s" "hd s \<noteq> OP_RETURN" using p(1) x(1) ne by (auto simp: script_hash_iff)
  show "standard_form TX_PUBKEY r s" using standard_form.pubkey p by blast
  show "template_loop s [OP_DUP, OP_HASH160, OP_PUBKEYHASH, OP_EQUALVERIFY, OP_CHECKSIG] [] = None"
    using match_pubkeyhash [of s] p(1) x(1) ne by (cases "template_loop s [OP_DUP, OP_HASH160, OP_PUBKEYHASH, OP_EQUALVERIFY, OP_CHECKSIG] []") auto
  have "x \<noteq> small_op m" if "m \<le> 16" for m using small_first [OF that] ne x(3) by auto
  then show "template_loop s [OP_SMALLINTEGER, OP_PUBKEYS, OP_SMALLINTEGER, OP_CHECKMULTISIG] [] = None"
    using match_multisig [of s] p(1) x(1) by (cases "template_loop s [OP_SMALLINTEGER, OP_PUBKEYS, OP_SMALLINTEGER, OP_CHECKMULTISIG] []") auto
qed

lemma scan_pubkeyhash:
  assumes "template_loop s [OP_DUP, OP_HASH160, OP_PUBKEYHASH, OP_EQUALVERIFY, OP_CHECKSIG] [] = Some r"
  shows "\<not> IsPayToScriptHash s" "hd s \<noteq> OP_RETURN" "standard_form TX_PUBKEYHASH r s"
    "template_loop s [OP_PUBKEY, OP_CHECKSIG] [] = None"
proof -
  obtain p h where p: "s = [OP_DUP, OP_HASH160] @ p @ [OP_EQUALVERIFY, OP_CHECKSIG]" "push_of p h" "length h = 20" "r = [h]"
    using assms unfolding match_pubkeyhash by blast
  show "\<not> IsPayToScriptHash s" "hd s \<noteq> OP_RETURN" using p(1) by (auto simp: script_hash_iff)
  show "standard_form TX_PUBKEYHASH r s" using standard_form.pubkeyhash p by blast
  show "template_loop s [OP_PUBKEY, OP_CHECKSIG] [] = None"
    using scan_pubkey(4) [of s] assms by (cases "template_loop s [OP_PUBKEY, OP_CHECKSIG] []") auto
qed

lemma scan_multisig:
  assumes "template_loop s [OP_SMALLINTEGER, OP_PUBKEYS, OP_SMALLINTEGER, OP_CHECKMULTISIG] [] = Some r"
  shows "\<not> IsPayToScriptHash s" "hd s \<noteq> OP_RETURN"
    "template_loop s [OP_PUBKEY, OP_CHECKSIG] [] = None"
    "template_loop s [OP_DUP, OP_HASH160, OP_PUBKEYHASH, OP_EQUALVERIFY, OP_CHECKSIG] [] = None"
proof -
  obtain m q where m: "s = small_op m # q" "m \<le> 16" using assms unfolding match_multisig by auto
  have ne: "small_op m \<noteq> OP_HASH160" "small_op m \<noteq> OP_RETURN" "small_op m \<noteq> OP_DUP" using small_first [OF m(2)] by (auto simp: word_le_nat_alt)
  show "\<not> IsPayToScriptHash s" "hd s \<noteq> OP_RETURN" using m(1) ne by (auto simp: script_hash_iff)
  show "template_loop s [OP_PUBKEY, OP_CHECKSIG] [] = None"
    using scan_pubkey(5) [of s] assms by (cases "template_loop s [OP_PUBKEY, OP_CHECKSIG] []") auto
  show "template_loop s [OP_DUP, OP_HASH160, OP_PUBKEYHASH, OP_EQUALVERIFY, OP_CHECKSIG] [] = None"
    using match_pubkeyhash [of s] m(1) ne by (cases "template_loop s [OP_DUP, OP_HASH160, OP_PUBKEYHASH, OP_EQUALVERIFY, OP_CHECKSIG] []") auto
qed

lemma multisig_checks:
  assumes "template_loop s [OP_SMALLINTEGER, OP_PUBKEYS, OP_SMALLINTEGER, OP_CHECKMULTISIG] [] = Some r"
  shows "(let m = hd (hd r); n = hd (last r) in \<not> (m < 1 \<or> n < 1 \<or> n < m \<or> length r - 2 \<noteq> unat n)) \<longleftrightarrow> standard_form TX_MULTISIG r s"
proof -
  obtain m n ps ks where s: "s = [small_op m] @ concat ps @ [small_op n, OP_CHECKMULTISIG]" "m \<le> 16" "n \<le> 16"
      "list_all2 push_of ps ks" "\<forall>k\<in>set ks. key_size k" "r = [[of_nat m]] @ ks @ [[of_nat n]]"
    using assms unfolding match_multisig by blast
  have "(let m = hd (hd r); n = hd (last r) in \<not> (m < 1 \<or> n < 1 \<or> n < m \<or> length r - 2 \<noteq> unat n)) \<longleftrightarrow> 1 \<le> m \<and> m \<le> n \<and> length ks = n"
    using unat_small [OF s(2)] unat_small [OF s(3)] s(6) by (auto simp: word_less_nat_alt)
  also have "\<dots> \<longleftrightarrow> standard_form TX_MULTISIG r s"
  proof
    assume "1 \<le> m \<and> m \<le> n \<and> length ks = n"
    then show "standard_form TX_MULTISIG r s" using standard_form.multisig [OF s(4,5)] s by auto
  next
    assume "standard_form TX_MULTISIG r s"
    then show "1 \<le> m \<and> m \<le> n \<and> length ks = n"
    proof cases
      case (multisig ps' ks' m')
      have "of_nat m' = (of_nat m :: u8)" "ks' = ks" "of_nat (length ks') = (of_nat n :: u8)" using multisig(1) s(6) by auto
      then have "m' = m" "length ks = n"
        using small_inj [of m' m] small_inj [of "length ks" n] multisig(5-7) s(2,3) by simp_all
      then show ?thesis using multisig(5,6) \<open>ks' = ks\<close> by simp
    qed
  qed
  finally show ?thesis .
qed
text \<open>
  C37. The solver accepts exactly the standard forms: it reports a type and solutions if and only if
  the script is of the form of that type with these data, where a push may use any encoding that
  fits and a multisignature script has between one and sixteen keys and a threshold they can meet.
\<close>

theorem Solver_forms: "Solver s = (True, t, sols) \<longleftrightarrow> standard_form t sols s"
proof -
  let ?tk = "[OP_PUBKEY, OP_CHECKSIG]" and ?th = "[OP_DUP, OP_HASH160, OP_PUBKEYHASH, OP_EQUALVERIFY, OP_CHECKSIG]"
    and ?tm = "[OP_SMALLINTEGER, OP_PUBKEYS, OP_SMALLINTEGER, OP_CHECKMULTISIG]"
  have ret: "1 \<le> length s \<and> hd s = OP_RETURN \<longleftrightarrow> (\<exists>d. s = OP_RETURN # d)" by (cases s) auto
  have scan: "scan_templates s mTemplates = (case template_loop s ?tk [] of Some r \<Rightarrow> (True, TX_PUBKEY, r)
      | None \<Rightarrow> (case template_loop s ?th [] of Some r \<Rightarrow> (True, TX_PUBKEYHASH, r)
      | None \<Rightarrow> (case template_loop s ?tm [] of Some r \<Rightarrow> (standard_form TX_MULTISIG r s, TX_MULTISIG, r)
      | None \<Rightarrow> (False, TX_NONSTANDARD, []))))"
    using multisig_checks [of s] by (auto simp: mTemplates_def Let_def split: option.split)
  show ?thesis
  proof
    assume S: "Solver s = (True, t, sols)"
    show "standard_form t sols s"
    proof (cases "IsPayToScriptHash s")
      case True
      then obtain h where h: "length h = 20" "s = [OP_HASH160, 20] @ h @ [OP_EQUAL]" by (auto simp: script_hash_iff)
      then have "t = TX_SCRIPTHASH" "sols = [h]" using S True by (simp_all add: Solver_def)
      then show ?thesis using standard_form.script_hash [OF h(1)] h(2) by simp
    next
      case nsh: False
      show ?thesis
      proof (cases "1 \<le> length s \<and> hd s = OP_RETURN \<and> IsPushOnly (drop 1 s)")
        case True
        then obtain d where d: "s = OP_RETURN # d" "IsPushOnly d" using ret by auto
        then have "t = TX_NULL_DATA" "sols = []" using S True nsh by (simp_all add: Solver_def)
        then show ?thesis using standard_form.null_data [OF d(2)] d(1) by simp
      next
        case False
        then have "scan_templates s mTemplates = (True, t, sols)" using S nsh by (auto simp: Solver_def)
        then show ?thesis unfolding scan using scan_pubkey(3) [of s] scan_pubkeyhash(3) [of s] by (auto split: option.splits)
      qed
    qed
  next
    assume F: "standard_form t sols s"
    then show "Solver s = (True, t, sols)"
    proof cases
      case (script_hash h)
      moreover from this have "IsPayToScriptHash s" using script_hash_iff by blast
      ultimately show ?thesis by (simp add: Solver_def)
    next
      case (null_data d)
      moreover from this have "\<not> IsPayToScriptHash s" by (auto simp: script_hash_iff)
      ultimately show ?thesis by (simp add: Solver_def)
    next
      case (pubkey p k)
      then have m: "template_loop s ?tk [] = Some sols" using match_pubkey by blast
      then show ?thesis using scan_pubkey(1,2) [OF m] pubkey(1) unfolding Solver_def scan by simp
    next
      case (pubkeyhash p h)
      then have m: "template_loop s ?th [] = Some sols" using match_pubkeyhash by blast
      then show ?thesis using scan_pubkeyhash(1,2,4) [OF m] pubkeyhash(1) unfolding Solver_def scan by simp
    next
      case (multisig ps ks m)
      have "m \<le> 16" using multisig by simp
      then have l: "template_loop s ?tm [] = Some sols" using match_multisig multisig by blast
      then show ?thesis using scan_multisig [OF l] multisig(1) F unfolding Solver_def scan by simp
    qed
  qed
qed

lemma push_data_of: "length d < 256 ^ 4 \<Longrightarrow> push_of (push_data d) d"
proof -
  assume d: "length d < 256 ^ 4"

  consider "length d < 76" | "76 \<le> length d" "length d \<le> 255" | "255 < length d" "length d \<le> 65535" | "65535 < length d" by linarith
  then show ?thesis
  proof cases
    case 2
    then show ?thesis by (auto simp: push_of_def push_data_def)
  qed (use d in \<open>auto simp: push_of_def push_data_def\<close>)
qed

lemma script_for_key_form: "length h = 20 \<Longrightarrow> standard_form TX_PUBKEYHASH [h] (script_for_key h)"
  unfolding script_for_key_def by (rule standard_form.pubkeyhash) (simp_all add: push_data_of)

lemma script_for_script_form: "length h = 20 \<Longrightarrow> standard_form TX_SCRIPTHASH [h] (script_for_script h)"
  using standard_form.script_hash [of h] by (simp add: script_for_script_def push_data_short)

text \<open>
  C38. A destination is found again in the script that pays to it: for identifiers of twenty bytes
  the extracted destination of the script of a destination is that destination.
\<close>

theorem destination_roundtrip:
  assumes "length h = 20"
  shows "ExtractDestination Hash160 (GetScriptForDestination (CKeyID h)) = Some (CKeyID h)
    \<and> ExtractDestination Hash160 (GetScriptForDestination (CScriptID h)) = Some (CScriptID h)"
proof -
  have "Solver (script_for_key h) = (True, TX_PUBKEYHASH, [h])" "Solver (script_for_script h) = (True, TX_SCRIPTHASH, [h])"
    using script_for_key_form [OF assms] script_for_script_form [OF assms] by (simp_all only: Solver_forms)
  then show ?thesis by (simp add: ExtractDestination_def GetScriptForDestination_def)
qed

theorem destination_roundtrip_witness:
  "ExtractDestination id (GetScriptForDestination (CKeyID (replicate 20 7))) = Some (CKeyID (replicate 20 7))
    \<and> ExtractDestination id (GetScriptForDestination (CScriptID (replicate 20 7))) = Some (CScriptID (replicate 20 7))"
  by (rule destination_roundtrip) simp

end
