(* ===== verification/Accept_Tx.thy ===== *)
theory Accept_Tx
  imports Mempool Standard Disconnect
begin

text \<open>
  Loose transactions (\<^verbatim>\<open>src/main.cpp\<close>): the standardness of a transaction and of its
  inputs, the relay fee and the limiter of free transactions, acceptance to the memory pool, and the
  pool of orphans. Prices in \<^verbatim>\<open>double\<close> are real numbers with the rounding of the
  hardware and \<^verbatim>\<open>pow\<close> as arguments.
\<close>

section \<open>What acceptance reads\<close>

text \<open>
  The environment of the checks with the options, the clocks, the height of the active chain, the
  inputs locked by SwiftTX and the hash functions of the interpreter.
\<close>

record accept_env =
  ae_con :: connect_env
  ae_eval :: eval_env
  ae_rnd :: "real \<Rightarrow> real"
  ae_pow :: "real \<Rightarrow> real \<Rightarrow> real"
  ae_RequireStandard :: bool
  ae_fIsBareMultisigStd :: bool
  ae_datacarrier :: bool
  ae_minRelayTxFee :: int
  ae_relaypriority :: bool
  ae_limitfreerelay :: int
  ae_mapLockedInputs :: "COutPoint \<rightharpoonup> txid"
  ae_GetTime :: int
  ae_GetAdjustedTime :: int
  ae_Height :: int

abbreviation ae_params :: "accept_env \<Rightarrow> CChainParams" where "ae_params env \<equiv> env_params (ae_con env)"

section \<open>Standard transactions\<close>

definition MAX_STANDARD_TX_SIZE :: nat where "MAX_STANDARD_TX_SIZE = 100000"
definition MAX_P2SH_SIGOPS :: nat where "MAX_P2SH_SIGOPS = 15"
definition MAX_TX_SIGOPS :: u32 where "MAX_TX_SIGOPS = MAX_BLOCK_SIGOPS div 5"
definition DEFAULT_BLOCK_PRIORITY_SIZE :: nat where "DEFAULT_BLOCK_PRIORITY_SIZE = 50000"

text \<open>The loop over the outputs counts the data outputs; a string is the reason.\<close>

fun standard_outputs :: "accept_env \<Rightarrow> nat \<Rightarrow> CTxOut list \<Rightarrow> string + nat" where
  "standard_outputs env nDataOut [] = Inr nDataOut"
| "standard_outputs env nDataOut (txout # vouts) =
     (case IsStandard (ae_datacarrier env) (scriptPubKey txout) of (ok, whichType) \<Rightarrow>
        if \<not> ok then Inl ''scriptpubkey''
        else if whichType = TX_NULL_DATA then standard_outputs env (nDataOut + 1) vouts
        else if whichType = TX_MULTISIG \<and> \<not> ae_fIsBareMultisigStd env then Inl ''bare-multisig''
        else if IsDust (ae_minRelayTxFee env) txout then Inl ''dust''
        else standard_outputs env nDataOut vouts)"

definition standard_input :: "CTxIn \<Rightarrow> string + unit" where
  "standard_input txin =
     (if 1650 < length (scriptSig txin) then Inl ''scriptsig-size''
      else if \<not> IsPushOnly (scriptSig txin) then Inl ''scriptsig-not-pushonly''
      else Inr ())"

fun standard_inputs :: "CTxIn list \<Rightarrow> string + unit" where
  "standard_inputs [] = Inr ()"
| "standard_inputs (txin # vins) = bindE (standard_input txin) (\<lambda>_. standard_inputs vins)"

definition IsStandardTx :: "accept_env \<Rightarrow> CTransaction \<Rightarrow> string + unit" where
  "IsStandardTx env tx =
     (if 1 < tx_nVersion tx \<or> tx_nVersion tx < 1 then Inl ''version''
      else if \<not> IsFinalTx (ae_Height env) (ae_GetAdjustedTime env) tx (ae_Height env + 1) 0 then Inl ''non-final''
      else if MAX_STANDARD_TX_SIZE \<le> length (ser_tx tx) then Inl ''tx-size''
      else bindE (standard_inputs (vin tx)) (\<lambda>_.
           bindE (standard_outputs env 0 (vout tx)) (\<lambda>nDataOut.
             if 1 < nDataOut then Inl ''multi-op-return'' else Inr ())))"

text \<open>
  \<^verbatim>\<open>AreInputsStandard\<close>. The scripts run with \<^verbatim>\<open>BaseSignatureChecker\<close>,
  whose signature check fails, and with no flags. A pay-to-script-hash input with a script that the
  solver does not know decides the result for the whole transaction.
\<close>

definition input_standard :: "eval_env \<Rightarrow> CTxOut \<Rightarrow> bytes \<Rightarrow> bool + unit" where
  "input_standard ev prev scriptSig' =
     (case Solver (scriptPubKey prev) of (ok, whichType, vSolutions) \<Rightarrow>
        let nArgsExpected = ScriptSigArgsExpected whichType vSolutions
        in if \<not> ok then Inl False
        else if nArgsExpected < 0 then Inl False
        else (case EvalScript (ev\<lparr>ev_CheckSig := \<lambda>_ _ _. False\<rparr>) [] scriptSig' 0 of
            Inl e \<Rightarrow> Inl False
          | Inr stack \<Rightarrow>
              bindE (if whichType = TX_SCRIPTHASH
                 then (case stack of [] \<Rightarrow> Inl False
                   | subscript # stack' \<Rightarrow> (case Solver subscript of (ok2, whichType2, vSolutions2) \<Rightarrow>
                       if ok2
                       then let tmpExpected = ScriptSigArgsExpected whichType2 vSolutions2
                            in if tmpExpected < 0 then Inl False else Inr (nArgsExpected + tmpExpected)
                       else Inl (GetSigOpCount True subscript \<le> MAX_P2SH_SIGOPS)))
                 else Inr nArgsExpected) (\<lambda>nArgsExpected.
                 if int (length stack) \<noteq> nArgsExpected then Inl False else Inr ())))"

fun inputs_standard_loop :: "eval_env \<Rightarrow> 'v CCoinsView \<Rightarrow> 'v CCoinsViewCache \<Rightarrow> CTxIn list \<Rightarrow> fault + bool \<times> 'v CCoinsViewCache" where
  "inputs_standard_loop ev base mapInputs [] = Inr (True, mapInputs)"
| "inputs_standard_loop ev base mapInputs (txin # vins) =
     bindE (GetOutputFor base mapInputs txin) (\<lambda>(prev, mapInputs).
       case input_standard ev prev (scriptSig txin) of
         Inl r \<Rightarrow> Inr (r, mapInputs)
       | Inr _ \<Rightarrow> inputs_standard_loop ev base mapInputs vins)"

definition AreInputsStandard :: "eval_env \<Rightarrow> 'v CCoinsView \<Rightarrow> CTransaction \<Rightarrow> 'v CCoinsViewCache \<Rightarrow> fault + bool \<times> 'v CCoinsViewCache" where
  "AreInputsStandard ev base tx mapInputs =
     (if IsCoinBase tx then Inr (True, mapInputs) else inputs_standard_loop ev base mapInputs (vin tx))"

section \<open>Fees and priorities\<close>

text \<open>
  \<^verbatim>\<open>CCoinsViewCache::GetPriority\<close>: value times age is computed in 64 bits and then
  converted.
\<close>

fun priority_loop :: "(real \<Rightarrow> real) \<Rightarrow> 'v CCoinsView \<Rightarrow> int \<Rightarrow> real \<Rightarrow> 'v CCoinsViewCache \<Rightarrow> CTxIn list
    \<Rightarrow> fault + real \<times> 'v CCoinsViewCache" where
  "priority_loop rnd base h dResult view [] = Inr (dResult, view)"
| "priority_loop rnd base h dResult view (txin # vins) =
     (case AccessCoins base view (op_hash (prevout txin)) of
        (None, view) \<Rightarrow> Inl AssertFalse
      | (Some coins, view) \<Rightarrow>
          let n = unat (op_n (prevout txin)) in
          if \<not> IsAvailable coins n then priority_loop rnd base h dResult view vins
          else if coins_nHeight coins < h
          then priority_loop rnd base h
                 (rnd (dResult + rnd (real_of_int (wrap64 (nValue (coins_vout coins ! n) * (h - coins_nHeight coins)))))) view vins
          else priority_loop rnd base h dResult view vins)"

definition ComputePriority :: "(real \<Rightarrow> real) \<Rightarrow> CTransaction \<Rightarrow> real \<Rightarrow> nat \<Rightarrow> real" where
  "ComputePriority rnd tx dPriorityInputs nTxSize =
     (let nTxSize = CalculateModifiedSize tx nTxSize in if nTxSize = 0 then 0 else rnd (dPriorityInputs / real nTxSize))"

definition GetPriority :: "(real \<Rightarrow> real) \<Rightarrow> 'v CCoinsView \<Rightarrow> CTransaction \<Rightarrow> int \<Rightarrow> 'v CCoinsViewCache \<Rightarrow> fault + real \<times> 'v CCoinsViewCache" where
  "GetPriority rnd base tx h view =
     (if IsCoinBase tx \<or> IsCoinStake tx then Inr (0, view)
      else bindE (priority_loop rnd base h 0 view (vin tx)) (\<lambda>(dResult, view). Inr (ComputePriority rnd tx dResult 0, view)))"

definition GetMinRelayFee :: "accept_env \<Rightarrow> CTxMemPool \<Rightarrow> CTransaction \<Rightarrow> nat \<Rightarrow> bool \<Rightarrow> int" where
  "GetMinRelayFee env pool tx nBytes fAllowFree =
     (case ApplyDeltas (ae_rnd env) pool (tx_hash tx) (0, 0) of (dPriorityDelta, nFeeDelta) \<Rightarrow>
        if 0 < dPriorityDelta \<or> 0 < nFeeDelta then 0
        else let nMinFee = GetFee (ae_minRelayTxFee env) nBytes;
                 nMinFee = (if fAllowFree \<and> nBytes < DEFAULT_BLOCK_PRIORITY_SIZE - 1000 then 0 else nMinFee)
             in if \<not> MoneyRange (ae_params env) nMinFee then MaxMoneyOut (ae_params env) else nMinFee)"

text \<open>The limiter of free transactions: the exponentially decaying count of bytes.\<close>

record free_limiter =
  dFreeCount :: real
  nLastTime :: int

definition REJECT_DUPLICATE :: nat where "REJECT_DUPLICATE = 0x12"
definition REJECT_INSUFFICIENTFEE :: nat where "REJECT_INSUFFICIENTFEE = 0x42"

definition limit_free :: "accept_env \<Rightarrow> nat \<Rightarrow> free_limiter \<Rightarrow> bool \<times> free_limiter" where
  "limit_free env nSize l =
     (let rnd = ae_rnd env; nNow = ae_GetTime env;
          decay = ae_pow env (rnd (1 - rnd (1 / 600))) (rnd (real_of_int (nNow - nLastTime l)));
          l = l\<lparr>dFreeCount := rnd (dFreeCount l * decay), nLastTime := nNow\<rparr>
      in if real_of_int (ae_limitfreerelay env * 10 * 1000) \<le> dFreeCount l then (False, l)
         else (True, l\<lparr>dFreeCount := rnd (dFreeCount l + real nSize)\<rparr>))"

section \<open>Acceptance\<close>

text \<open>
  The view behind the cache while the inputs are read is the pool on top of the tip cache, and
  afterwards the dummy view, which has no coins. What the operation changes besides its cache: the
  validation state, \<^verbatim>\<open>pfMissingInputs\<close>, the pool, the tip cache and the limiter.
\<close>

definition dummy_view :: "'v CCoinsView" where
  "dummy_view = \<lparr>view_GetCoins = \<lambda>v k. (None, v), view_GetBestBlock = \<lambda>v. (uint256_of_u64 0, v),
     view_BatchWrite = \<lambda>v m h. Some (v, False)\<rparr>"

record 'v accept_state =
  as_state :: CValidationState
  as_missing :: bool
  as_pool :: CTxMemPool
  as_tip :: 'v
  as_limiter :: free_limiter

definition state_reject :: "CValidationState \<Rightarrow> reject \<Rightarrow> CValidationState" where
  "state_reject st r = (case r of DoS level code reason \<Rightarrow> state_DoS st level code reason False)"

definition lock_conflict :: "accept_env \<Rightarrow> CTransaction \<Rightarrow> bool" where
  "lock_conflict env tx \<longleftrightarrow> list_ex (\<lambda>txin. case ae_mapLockedInputs env (prevout txin) of
     None \<Rightarrow> False | Some h \<Rightarrow> h \<noteq> tx_hash tx) (vin tx)"

definition pool_conflict :: "CTxMemPool \<Rightarrow> CTransaction \<Rightarrow> bool" where
  "pool_conflict pool tx \<longleftrightarrow> list_ex (\<lambda>txin. map_of (mapNextTx pool) (prevout txin) \<noteq> None) (vin tx)"

text \<open>The checks before the coins are looked at: the state of a rejection.\<close>

definition accept_checks :: "accept_env \<Rightarrow> CTxMemPool \<Rightarrow> CTransaction \<Rightarrow> CValidationState \<Rightarrow> CValidationState + unit" where
  "accept_checks env pool tx st =
     (case CheckTransaction (ae_params env) tx of
        Inl r \<Rightarrow> Inl (state_reject st r)
      | Inr _ \<Rightarrow>
          if IsCoinBase tx then Inl (state_DoS st 100 REJECT_INVALID ''coinbase'' False)
          else if IsCoinStake tx then Inl (state_DoS st 100 REJECT_INVALID ''coinstake'' False)
          else case (if ae_RequireStandard env then IsStandardTx env tx else Inr ()) of
            Inl reason \<Rightarrow> Inl (state_DoS st 0 REJECT_NONSTANDARD reason False)
          | Inr _ \<Rightarrow>
              if pool_exists pool (tx_hash tx) then Inl st
              else if lock_conflict env tx then Inl (state_DoS st 0 REJECT_INVALID ''tx-lock-conflict'' False)
              else if pool_conflict pool tx then Inl st
              else Inr ())"

text \<open>Are the transactions of the inputs there? The first that is missing ends the loop.\<close>

fun have_coins_loop :: "'v CCoinsView \<Rightarrow> 'v CCoinsViewCache \<Rightarrow> CTxIn list \<Rightarrow> bool \<times> 'v CCoinsViewCache" where
  "have_coins_loop base view [] = (True, view)"
| "have_coins_loop base view (txin # vins) =
     (case HaveCoins base view (op_hash (prevout txin)) of
        (have, view) \<Rightarrow> if have then have_coins_loop base view vins else (False, view))"

text \<open>
  Filling the cache: a rejection with the new state and the flag for missing inputs, or the value of
  the inputs.
\<close>

definition accept_inputs :: "'v CCoinsView \<Rightarrow> CTransaction \<Rightarrow> CValidationState \<Rightarrow> 'v CCoinsViewCache
    \<Rightarrow> fault + ((CValidationState \<times> bool) + int) \<times> 'v CCoinsViewCache" where
  "accept_inputs base tx st view =
     (case HaveCoins base view (tx_hash tx) of (known, view) \<Rightarrow>
        if known then Inr (Inl (st, False), view)
        else case have_coins_loop base view (vin tx) of (have, view) \<Rightarrow>
        if \<not> have then Inr (Inl (st, True), view)
        else case HaveInputs base view tx of (avail, view) \<Rightarrow>
        if \<not> avail then Inr (Inl (state_Invalid st REJECT_DUPLICATE ''bad-txns-inputs-spent'', False), view)
        else case GetBestBlock base view of (best, view) \<Rightarrow>
        bindE (GetValueIn base view tx) (\<lambda>(nValueIn, view). Inr (Inr nValueIn, view)))"

text \<open>
  The entry after the check of the signature operations. \<^verbatim>\<open>AcceptToMemoryPool\<close> computes
  the priority and drops it.
\<close>

definition accept_entry :: "accept_env \<Rightarrow> bool \<Rightarrow> CTransaction \<Rightarrow> CValidationState \<Rightarrow> int \<Rightarrow> 'v CCoinsViewCache
    \<Rightarrow> fault + (CValidationState + CTxMemPoolEntry) \<times> 'v CCoinsViewCache" where
  "accept_entry env fKeepPriority tx st nValueIn view =
     bindE (GetP2SHSigOpCount dummy_view tx view) (\<lambda>(n, view).
       if MAX_TX_SIGOPS < GetLegacySigOpCount tx + n
       then Inr (Inl (state_DoS st 0 REJECT_NONSTANDARD ''bad-txns-too-many-sigops'' False), view)
       else (case GetValueOut tx of
           Inl e \<Rightarrow> Inl (Threw e)
         | Inr nValueOut \<Rightarrow>
             bindE (GetPriority (ae_rnd env) dummy_view tx (ae_Height env) view) (\<lambda>(p, view).
             Inr (Inr (CTxMemPoolEntry_of tx (wrap64 (nValueIn - nValueOut)) (ae_GetTime env)
                         (if fKeepPriority then p else 0) (word_of_int (ae_Height env))), view))))"

text \<open>The fees: the minimum, the priority of free transactions, and the limiter.\<close>

definition accept_fees :: "accept_env \<Rightarrow> CTxMemPool \<Rightarrow> CTxMemPoolEntry \<Rightarrow> bool \<Rightarrow> CValidationState \<Rightarrow> free_limiter \<Rightarrow> 'v CCoinsViewCache
    \<Rightarrow> fault + ((CValidationState + unit) \<times> free_limiter) \<times> 'v CCoinsViewCache" where
  "accept_fees env pool entry fLimitFree st l view =
     (let tx = me_tx entry; nSize = me_nTxSize entry; nFees = me_nFee entry;
          free = (nFees < GetFee (ae_minRelayTxFee env) nSize)
      in if fLimitFree \<and> nFees < GetMinRelayFee env pool tx nSize True
         then Inr ((Inl (state_DoS st 0 REJECT_INSUFFICIENTFEE ''insufficient fee'' False), l), view)
         else bindE (if ae_relaypriority env \<and> free
                then bindE (GetPriority (ae_rnd env) dummy_view tx (ae_Height env + 1) view) (\<lambda>(p, view). Inr (AllowFree p, view))
                else Inr (True, view)) (\<lambda>(enough, view).
           if \<not> enough then Inr ((Inl (state_DoS st 0 REJECT_INSUFFICIENTFEE ''insufficient priority'' False), l), view)
           else if fLimitFree \<and> free
           then (case limit_free env nSize l of (ok, l) \<Rightarrow>
                  if ok then Inr ((Inr (), l), view)
                  else Inr ((Inl (state_DoS st 0 REJECT_INSUFFICIENTFEE ''rate limited free transaction'' False), l), view))
           else Inr ((Inr (), l), view)))"

definition insane_fee :: "accept_env \<Rightarrow> CTxMemPoolEntry \<Rightarrow> bool" where
  "insane_fee env entry \<longleftrightarrow> wrap64 (GetFee (ae_minRelayTxFee env) (me_nTxSize entry) * 10000) < me_nFee entry"

text \<open>The script checks with the standard flags and again with the mandatory ones.\<close>

definition accept_scripts :: "accept_env \<Rightarrow> CTransaction \<Rightarrow> CValidationState \<Rightarrow> 'v CCoinsViewCache
    \<Rightarrow> fault + (CValidationState + unit) \<times> 'v CCoinsViewCache" where
  "accept_scripts env tx st view =
     bindE (CheckInputs (ae_con env) dummy_view tx st view True STANDARD_SCRIPT_VERIFY_FLAGS False) (\<lambda>(r, view).
       case r of Inl st \<Rightarrow> Inr (Inl st, view)
       | Inr _ \<Rightarrow> bindE (CheckInputs (ae_con env) dummy_view tx st view True MANDATORY_SCRIPT_VERIFY_FLAGS False) (\<lambda>(r, view).
           case r of Inl st \<Rightarrow> Inr (Inl st, view) | Inr _ \<Rightarrow> Inr (Inr (), view)))"

text \<open>What follows once the coins of the inputs are in the cache.\<close>

definition accept_rest :: "accept_env \<Rightarrow> CTransaction \<Rightarrow> bool \<Rightarrow> bool \<Rightarrow> bool \<Rightarrow> int \<Rightarrow> 'v CCoinsViewCache \<Rightarrow> 'v accept_state
    \<Rightarrow> fault + bool \<times> 'v accept_state" where
  "accept_rest env tx fLimitFree fRejectInsaneFee ignoreFees nValueIn view s =
     bindE (if ae_RequireStandard env then AreInputsStandard (ae_eval env) dummy_view tx view else Inr (True, view)) (\<lambda>(ok, view).
              if \<not> ok then Inr (False, s)
              else bindE (accept_entry env False tx (as_state s) nValueIn view) (\<lambda>(r, view).
              case r of
                Inl st \<Rightarrow> Inr (False, s\<lparr>as_state := st\<rparr>)
              | Inr entry \<Rightarrow>
                  bindE (if ignoreFees then Inr ((Inr (), as_limiter s), view)
                         else accept_fees env (as_pool s) entry fLimitFree (as_state s) (as_limiter s) view) (\<lambda>((r, l), view).
                  let s = s\<lparr>as_limiter := l\<rparr> in
                  case r of
                    Inl st \<Rightarrow> Inr (False, s\<lparr>as_state := st\<rparr>)
                  | Inr _ \<Rightarrow>
                      if fRejectInsaneFee \<and> insane_fee env entry then Inr (False, s)
                      else bindE (accept_scripts env tx (as_state s) view) (\<lambda>(r, view).
                        case r of
                          Inl st \<Rightarrow> Inr (False, s\<lparr>as_state := st\<rparr>)
                        | Inr _ \<Rightarrow> Inr (True, s\<lparr>as_pool := addUnchecked (as_pool s) (tx_hash tx) entry\<rparr>)))))"

definition AcceptToMemoryPool :: "accept_env \<Rightarrow> 'v CCoinsView \<Rightarrow> CTransaction \<Rightarrow> bool \<Rightarrow> bool \<Rightarrow> bool \<Rightarrow> 'v accept_state
    \<Rightarrow> fault + bool \<times> 'v accept_state" where
  "AcceptToMemoryPool env base tx fLimitFree fRejectInsaneFee ignoreFees s =
     (let s = s\<lparr>as_missing := False\<rparr>
      in case accept_checks env (as_pool s) tx (as_state s) of
        Inl st \<Rightarrow> Inr (False, s\<lparr>as_state := st\<rparr>)
      | Inr _ \<Rightarrow>
          bindE (accept_inputs (mempool_view (as_pool s) base) tx (as_state s) (new_cache (as_tip s))) (\<lambda>(r, view).
          let s = s\<lparr>as_tip := view_base view\<rparr> in
          case r of
            Inl (st, missing) \<Rightarrow> Inr (False, s\<lparr>as_state := st, as_missing := missing\<rparr>)
          | Inr nValueIn \<Rightarrow> accept_rest env tx fLimitFree fRejectInsaneFee ignoreFees nValueIn view s))"

text \<open>
  \<^verbatim>\<open>AcceptableInputs\<close> makes the same checks but the standardness of the transaction, without
  scripts, and stores nothing. It has a limiter of its own.
\<close>

definition acceptable_checks :: "accept_env \<Rightarrow> CTxMemPool \<Rightarrow> CTransaction \<Rightarrow> CValidationState \<Rightarrow> CValidationState + unit" where
  "acceptable_checks env pool tx st =
     (case CheckTransaction (ae_params env) tx of
        Inl r \<Rightarrow> Inl (state_reject st r)
      | Inr _ \<Rightarrow>
          if IsCoinBase tx then Inl (state_DoS st 100 REJECT_INVALID ''coinbase'' False)
          else if pool_exists pool (tx_hash tx) then Inl st
          else if lock_conflict env tx then Inl (state_DoS st 0 REJECT_INVALID ''tx-lock-conflict'' False)
          else if pool_conflict pool tx then Inl st
          else Inr ())"

definition AcceptableInputs :: "accept_env \<Rightarrow> 'v CCoinsView \<Rightarrow> CTransaction \<Rightarrow> bool \<Rightarrow> bool \<Rightarrow> 'v accept_state
    \<Rightarrow> fault + bool \<times> 'v accept_state" where
  "AcceptableInputs env base tx fLimitFree fRejectInsaneFee s =
     (let s = s\<lparr>as_missing := False\<rparr>; pool = as_pool s; mem = mempool_view pool base
      in case acceptable_checks env pool tx (as_state s) of
        Inl st \<Rightarrow> Inr (False, s\<lparr>as_state := st\<rparr>)
      | Inr _ \<Rightarrow>
          bindE (accept_inputs mem tx (as_state s) (new_cache (as_tip s))) (\<lambda>(r, view).
          let s = s\<lparr>as_tip := view_base view\<rparr> in
          case r of
            Inl (st, missing) \<Rightarrow> Inr (False, s\<lparr>as_state := st, as_missing := missing\<rparr>)
          | Inr nValueIn \<Rightarrow>
              bindE (accept_entry env True tx (as_state s) nValueIn view) (\<lambda>(r, view).
              case r of
                Inl st \<Rightarrow> Inr (False, s\<lparr>as_state := st\<rparr>)
              | Inr entry \<Rightarrow>
                  bindE (accept_fees env pool entry fLimitFree (as_state s) (as_limiter s) view) (\<lambda>((r, l), view).
                  let s = s\<lparr>as_limiter := l\<rparr> in
                  case r of
                    Inl st \<Rightarrow> Inr (False, s\<lparr>as_state := st\<rparr>)
                  | Inr _ \<Rightarrow>
                      if fRejectInsaneFee \<and> insane_fee env entry then Inr (False, s)
                      else bindE (CheckInputs (ae_con env) dummy_view tx (as_state s) view False STANDARD_SCRIPT_VERIFY_FLAGS False) (\<lambda>(r, view).
                        case r of
                          Inl st \<Rightarrow> Inr (False, s\<lparr>as_state := st\<rparr>)
                        | Inr _ \<Rightarrow> Inr (True, s))))))"

section \<open>Ages of inputs\<close>

text \<open>
  \<^verbatim>\<open>GetInputAge\<close> and its variants for SwiftTX; the locks of SwiftTX are
  the number of signatures per transaction, the depth an argument.
\<close>

definition GetInputAge :: "CTxMemPool \<Rightarrow> 'v CCoinsView \<Rightarrow> CBlockIndex option \<Rightarrow> CTxIn \<Rightarrow> 'v \<Rightarrow> fault + int \<times> 'v" where
  "GetInputAge pool base chainTip txin tip =
     (case AccessCoins (mempool_view pool base) (new_cache tip) (op_hash (prevout txin)) of
        (None, view) \<Rightarrow> Inr (- 1, view_base view)
      | (Some coins, view) \<Rightarrow>
          if coins_nHeight coins < 0 then Inr (0, view_base view)
          else (case chainTip of None \<Rightarrow> Inl NullRead | Some b \<Rightarrow> Inr (nHeight b + 1 - coins_nHeight coins, view_base view)))"

definition SWIFTTX_SIGNATURES_REQUIRED :: int where "SWIFTTX_SIGNATURES_REQUIRED = 6"

definition lock_signatures :: "(txid \<rightharpoonup> int) \<Rightarrow> txid \<Rightarrow> int" where
  "lock_signatures mapTxLocks h = (case mapTxLocks h of None \<Rightarrow> 0 | Some n \<Rightarrow> n)"

definition GetInputAgeIX :: "(txid \<rightharpoonup> int) \<Rightarrow> int \<Rightarrow> CTxMemPool \<Rightarrow> 'v CCoinsView \<Rightarrow> CBlockIndex option \<Rightarrow> txid \<Rightarrow> CTxIn \<Rightarrow> 'v
    \<Rightarrow> fault + int \<times> 'v" where
  "GetInputAgeIX mapTxLocks nSwiftTXDepth pool base chainTip nTXHash txin tip =
     bindE (GetInputAge pool base chainTip txin tip) (\<lambda>(nResult, tip).
       let nResult = max nResult 0
       in Inr (if nResult < 6 \<and> SWIFTTX_SIGNATURES_REQUIRED \<le> lock_signatures mapTxLocks nTXHash
               then nSwiftTXDepth + nResult else - 1, tip))"

definition GetIXConfirmations :: "(txid \<rightharpoonup> int) \<Rightarrow> int \<Rightarrow> txid \<Rightarrow> int" where
  "GetIXConfirmations mapTxLocks nSwiftTXDepth nTXHash =
     (if SWIFTTX_SIGNATURES_REQUIRED \<le> lock_signatures mapTxLocks nTXHash then nSwiftTXDepth else 0)"

section \<open>Orphans\<close>

text \<open>
  Transactions that wait for a parent: \<^verbatim>\<open>mapOrphanTransactions\<close> in the order of its keys and
  \<^verbatim>\<open>mapOrphanTransactionsByPrev\<close>, whose sets are lists without duplicates.
\<close>

record COrphanTx =
  otx :: CTransaction
  fromPeer :: int

record orphanage =
  mapOrphanTransactions :: "(txid \<times> COrphanTx) list"
  mapOrphanTransactionsByPrev :: "(txid \<times> txid list) list"

definition add_by_prev :: "txid \<Rightarrow> (txid \<times> txid list) list \<Rightarrow> CTxIn \<Rightarrow> (txid \<times> txid list) list" where
  "add_by_prev hash m txin =
     (let k = op_hash (prevout txin); old = (case map_of m k of None \<Rightarrow> [] | Some s \<Rightarrow> s)
      in map_set uint256_lt k (List.insert hash old) m)"

definition AddOrphanTx :: "orphanage \<Rightarrow> CTransaction \<Rightarrow> int \<Rightarrow> bool \<times> orphanage" where
  "AddOrphanTx orp tx peer =
     (let hash = tx_hash tx
      in if map_of (mapOrphanTransactions orp) hash \<noteq> None then (False, orp)
         else if 5000 < length (ser_tx tx) then (False, orp)
         else (True, \<lparr>mapOrphanTransactions = map_set uint256_lt hash \<lparr>otx = tx, fromPeer = peer\<rparr> (mapOrphanTransactions orp),
                      mapOrphanTransactionsByPrev = foldl (add_by_prev hash) (mapOrphanTransactionsByPrev orp) (vin tx)\<rparr>))"

definition erase_by_prev :: "txid \<Rightarrow> (txid \<times> txid list) list \<Rightarrow> CTxIn \<Rightarrow> (txid \<times> txid list) list" where
  "erase_by_prev hash m txin =
     (let k = op_hash (prevout txin)
      in case map_of m k of
           None \<Rightarrow> m
         | Some s \<Rightarrow> let s = remove1 hash s in if s = [] then AList.delete k m else AList.update k s m)"

definition EraseOrphanTx :: "orphanage \<Rightarrow> txid \<Rightarrow> orphanage" where
  "EraseOrphanTx orp hash =
     (case map_of (mapOrphanTransactions orp) hash of
        None \<Rightarrow> orp
      | Some it \<Rightarrow> \<lparr>mapOrphanTransactions = AList.delete hash (mapOrphanTransactions orp),
                   mapOrphanTransactionsByPrev = foldl (erase_by_prev hash) (mapOrphanTransactionsByPrev orp) (vin (otx it))\<rparr>)"

text \<open>The loop visits each entry once, in the order of the map at its start.\<close>

definition EraseOrphansFor :: "orphanage \<Rightarrow> int \<Rightarrow> orphanage" where
  "EraseOrphansFor orp peer =
     foldl (\<lambda>orp (k, e). if fromPeer e = peer then EraseOrphanTx orp (tx_hash (otx e)) else orp) orp (mapOrphanTransactions orp)"

text \<open>
  The random hashes are an argument: a function of the round. The entry at or after the hash is
  evicted, the first one when there is none.
\<close>

definition evict_choice :: "orphanage \<Rightarrow> txid \<Rightarrow> txid" where
  "evict_choice orp randomhash =
     (case filter (\<lambda>k. \<not> uint256_lt k randomhash) (map fst (mapOrphanTransactions orp)) of
        [] \<Rightarrow> fst (hd (mapOrphanTransactions orp))
      | k # _ \<Rightarrow> k)"

lemma EraseOrphanTx_shrinks:
  assumes "map_of (mapOrphanTransactions orp) h = Some e"
  shows "length (mapOrphanTransactions (EraseOrphanTx orp h)) < length (mapOrphanTransactions orp)"
  using assms by (simp add: EraseOrphanTx_def length_delete)

lemma evict_choice_in: "mapOrphanTransactions orp \<noteq> [] \<Longrightarrow> evict_choice orp r \<in> fst ` set (mapOrphanTransactions orp)"
proof -
  assume ne: "mapOrphanTransactions orp \<noteq> []"
  let ?f = "filter (\<lambda>k. \<not> uint256_lt k r) (map fst (mapOrphanTransactions orp))"
  show ?thesis
  proof (cases ?f)
    case Nil
    then show ?thesis using ne by (simp add: evict_choice_def)
  next
    case (Cons k ks)
    then have "k \<in> set ?f" by simp
    then have "k \<in> fst ` set (mapOrphanTransactions orp)" unfolding set_filter set_map by blast
    then show ?thesis using Cons by (simp add: evict_choice_def)
  qed
qed

function limit_orphans :: "(nat \<Rightarrow> txid) \<Rightarrow> nat \<Rightarrow> nat \<Rightarrow> orphanage \<Rightarrow> nat \<times> orphanage" where
  "limit_orphans GetRandHash nMaxOrphans nEvicted orp =
     (if nMaxOrphans < length (mapOrphanTransactions orp)
      then limit_orphans GetRandHash nMaxOrphans (nEvicted + 1) (EraseOrphanTx orp (evict_choice orp (GetRandHash nEvicted)))
      else (nEvicted, orp))"
  by pat_completeness auto
termination
proof (relation "measure (\<lambda>(g, m, n, orp). length (mapOrphanTransactions orp))")
  fix g :: "nat \<Rightarrow> txid" and m n :: nat and orp :: orphanage
  assume "m < length (mapOrphanTransactions orp)"
  then have "mapOrphanTransactions orp \<noteq> []" by auto
  then have "evict_choice orp (g n) \<in> fst ` set (mapOrphanTransactions orp)" by (rule evict_choice_in)
  then obtain e where "map_of (mapOrphanTransactions orp) (evict_choice orp (g n)) = Some e"
    by (metis map_of_eq_None_iff option.exhaust)
  from EraseOrphanTx_shrinks [OF this]
  show "((g, m, n + 1, EraseOrphanTx orp (evict_choice orp (g n))), g, m, n, orp) \<in> measure (\<lambda>(g, m, n, orp). length (mapOrphanTransactions orp))"
    by simp
qed simp

declare limit_orphans.simps [simp del]

definition LimitOrphanTxSize :: "(nat \<Rightarrow> txid) \<Rightarrow> nat \<Rightarrow> orphanage \<Rightarrow> nat \<times> orphanage" where
  "LimitOrphanTxSize GetRandHash nMaxOrphans orp = limit_orphans GetRandHash nMaxOrphans 0 orp"

section \<open>What an accepted transaction spends\<close>

definition input_coin :: "utxo_map \<Rightarrow> CTxIn \<Rightarrow> CTxOut option" where
  "input_coin u txin =
     (case u (op_hash (prevout txin)) of
        None \<Rightarrow> None
      | Some c \<Rightarrow> if IsAvailable c (unat (op_n (prevout txin))) then Some (coins_vout c ! unat (op_n (prevout txin))) else None)"

definition input_sum :: "utxo_map \<Rightarrow> CTxIn list \<Rightarrow> int" where
  "input_sum u vins = sum_list (map (\<lambda>txin. nValue (the (input_coin u txin))) vins)"

definition all_known :: "'v CCoinsViewCache \<Rightarrow> CTxIn list \<Rightarrow> bool" where
  "all_known c vins \<longleftrightarrow> (\<forall>txin\<in>set vins. cache_known c (op_hash (prevout txin)))"

definition known_le :: "'v CCoinsViewCache \<Rightarrow> 'v CCoinsViewCache \<Rightarrow> bool" where
  "known_le c c' \<longleftrightarrow> (\<forall>j. cache_known c j \<longrightarrow> cache_known c' j)"

lemma known_le_trans: "known_le a b \<Longrightarrow> known_le b c \<Longrightarrow> known_le a c"
  by (simp add: known_le_def)

lemma known_le_refl [simp]: "known_le a a"
  by (simp add: known_le_def)

lemma known_le_all: "all_known a vins \<Longrightarrow> known_le a b \<Longrightarrow> all_known b vins"
  by (simp add: known_le_def all_known_def)

context readable_view begin

lemma read_coins:
  assumes "rep c u h" and "AccessCoins ops c k = (r, c')"
  shows "rep c' u h \<and> unpruned_opt r = u k \<and> (u k \<noteq> None \<longrightarrow> cache_known c' k) \<and> known_le c c'"
proof -
  obtain e where "FetchCoins ops c k = (e, c')" "r = map_option entry_coins e"
    using assms(2) by (auto simp: AccessCoins_def split: prod.splits)
  with FetchCoins_spec [of c k e c'] assms(1) show ?thesis by (auto simp: view_rep_def known_le_def)
qed

lemma read_have:
  assumes "rep c u h" and "HaveCoins ops c k = (b, c')"
  shows "rep c' u h \<and> known_le c c'"
proof -
  obtain e where "FetchCoins ops c k = (e, c')" using assms(2) by (auto simp: HaveCoins_def split: prod.splits)
  with FetchCoins_spec [of c k e c'] assms(1) show ?thesis by (auto simp: view_rep_def known_le_def)
qed

lemma read_have_loop: "rep c u h \<Longrightarrow> have_coins_loop ops c vins = (b, c') \<Longrightarrow> rep c' u h"
proof (induction vins arbitrary: c)
  case (Cons txin vins)
  obtain b1 c1 where 1: "HaveCoins ops c (op_hash (prevout txin)) = (b1, c1)" by force
  then show ?case using read_have [OF Cons.prems(1) 1] Cons by (auto split: if_splits)
qed simp

lemma available_coin: "unpruned_opt (Some coins) = u k \<Longrightarrow> IsAvailable coins n \<Longrightarrow> u k = Some coins"
  by (auto simp: unpruned_opt_def unpruned_def IsAvailable_def IsPruned_def list_all_length split: if_splits)

lemma read_inputs:
  "rep c u h \<Longrightarrow> have_inputs_loop ops c vins = (True, c') \<Longrightarrow>
    rep c' u h \<and> known_le c c' \<and> all_known c' vins \<and> (\<forall>txin\<in>set vins. input_coin u txin \<noteq> None)"
proof (induction vins arbitrary: c)
  case (Cons txin vins)
  obtain r c1 where 1: "AccessCoins ops c (op_hash (prevout txin)) = (r, c1)" by force
  note a = read_coins [OF Cons.prems(1) 1]
  obtain coins where r: "r = Some coins" "IsAvailable coins (unat (op_n (prevout txin)))" "have_inputs_loop ops c1 vins = (True, c')"
    using Cons.prems(2) 1 by (auto split: option.splits if_splits)
  have u: "u (op_hash (prevout txin)) = Some coins" using available_coin [of coins u "op_hash (prevout txin)", OF _ r(2)] a r(1) by simp
  note b = Cons.IH [OF conjunct1 [OF a] r(3)]
  have k: "cache_known c1 (op_hash (prevout txin))" "known_le c c1" using a u by auto
  have "input_coin u txin \<noteq> None" using u r(2) by (simp add: input_coin_def)
  moreover have "cache_known c' (op_hash (prevout txin))" using k(1) b by (simp add: known_le_def)
  ultimately show ?case using b known_le_trans [OF k(2), of c'] by (simp add: all_known_def)
qed (simp add: all_known_def)

lemma read_best: "rep c u h \<Longrightarrow> GetBestBlock ops c = (b, c') \<Longrightarrow> rep c' u h \<and> known_le c c'"
  using GetBestBlock_spec [of c b c'] by (auto simp: view_rep_def known_le_def)

lemma read_value_in:
  "rep c u h \<Longrightarrow> value_in_loop ops c n vins = Inr (r, c') \<Longrightarrow>
    rep c' u h \<and> known_le c c' \<and> r = foldl (\<lambda>n txin. add64 n (nValue (the (input_coin u txin)))) n vins"
proof (induction vins arbitrary: c n)
  case (Cons txin vins)
  obtain out c1 where 1: "GetOutputFor ops c txin = Inr (out, c1)" "value_in_loop ops c1 (add64 n (nValue out)) vins = Inr (r, c')"
    using Cons.prems(2) by (auto simp: bindE_def split: sum.splits)
  obtain r1 c2 where 2: "AccessCoins ops c (op_hash (prevout txin)) = (r1, c2)" by force
  obtain coins where 3: "r1 = Some coins" "IsAvailable coins (unat (op_n (prevout txin)))" "c2 = c1"
      "out = coins_vout coins ! unat (op_n (prevout txin))"
    using 1(1) 2 by (auto simp: GetOutputFor_def split: option.splits if_splits)
  note a = read_coins [OF Cons.prems(1) 2]
  have "u (op_hash (prevout txin)) = Some coins" using available_coin [of coins u "op_hash (prevout txin)", OF _ 3(2)] a 3(1) by simp
  then have "input_coin u txin = Some out" using 3 by (simp add: input_coin_def)
  moreover have "rep c1 u h" "known_le c c1" using a 3(3) by simp_all
  ultimately show ?case using Cons.IH [OF \<open>rep c1 u h\<close> 1(2)] known_le_trans [of c c1 c'] by simp
qed simp

lemma accept_inputs_spec:
  assumes "rep c u h" and "accept_inputs ops tx st c = Inr (r, c')"
  shows "rep c' u h \<and> (\<forall>n. r = Inr n \<longrightarrow> \<not> IsCoinBase tx \<longrightarrow> all_known c' (vin tx)
     \<and> (\<forall>txin\<in>set (vin tx). input_coin u txin \<noteq> None) \<and> n = foldl (\<lambda>n txin. add64 n (nValue (the (input_coin u txin)))) 0 (vin tx))"
proof -
  obtain b1 c1 where 1: "HaveCoins ops c (tx_hash tx) = (b1, c1)" by force
  have r1: "rep c1 u h" using read_have [OF assms(1) 1] by blast
  obtain b2 c2 where 2: "have_coins_loop ops c1 (vin tx) = (b2, c2)" by force
  have r2: "rep c2 u h" using read_have_loop [OF r1 2] .
  obtain b3 c3 where 3: "HaveInputs ops c2 tx = (b3, c3)" by force
  have r3: "rep c3 u h" using rep_HaveInputs [OF r2 3] .
  obtain b4 c4 where 4: "GetBestBlock ops c3 = (b4, c4)" by force
  have r4: "rep c4 u h" "known_le c3 c4" using read_best [OF r3 4] by simp_all
  show ?thesis
  proof (cases "\<not> b1 \<and> b2 \<and> b3")
    case False
    then show ?thesis using assms(2) 1 2 3 r1 r2 r3 by (cases b1; cases b2; cases b3) (auto simp: accept_inputs_def)
  next
    case True
    then obtain n where n: "GetValueIn ops c4 tx = Inr (n, c')" "r = Inr n"
      using assms(2) 1 2 3 4 by (auto simp: accept_inputs_def bindE_def split: sum.splits)
    have "rep c' u h" using rep_GetValueIn [OF r4(1) n(1)] .
    moreover have "all_known c' (vin tx) \<and> (\<forall>txin\<in>set (vin tx). input_coin u txin \<noteq> None)
        \<and> n = foldl (\<lambda>n txin. add64 n (nValue (the (input_coin u txin)))) 0 (vin tx)" if "\<not> IsCoinBase tx"
    proof -
      have "have_inputs_loop ops c2 (vin tx) = (True, c3)" using 3 True that by (simp add: HaveInputs_def)
      note a = read_inputs [OF r2 this]
      have v: "value_in_loop ops c4 0 (vin tx) = Inr (n, c')" using n(1) that by (simp add: GetValueIn_def)
      note b = read_value_in [OF r4(1) v]
      show ?thesis using a b known_le_all [of c3 "vin tx" c'] known_le_trans [OF r4(2)] by blast
    qed
    ultimately show ?thesis using n(2) by blast
  qed
qed

end

text \<open>Reading an entry that is in the cache does not look at the view behind it.\<close>

definition holds_coins :: "utxo_map \<Rightarrow> 'v CCoinsViewCache \<Rightarrow> CTxIn list \<Rightarrow> bool" where
  "holds_coins u c vins \<longleftrightarrow> (\<forall>txin\<in>set vins. \<exists>e. map_of (cacheCoins c) (op_hash (prevout txin)) = Some e
     \<and> unpruned (entry_coins e) = u (op_hash (prevout txin)))"

lemma holds_access:
  assumes "map_of (cacheCoins c) k = Some e"
  shows "AccessCoins base c k = (Some (entry_coins e), c)"
  using assms by (simp add: AccessCoins_def FetchCoins_def)

lemma rep_holds:
  assumes "view_rep I (cache_utxo U) B c u h" and "all_known c vins"
  shows "holds_coins u c vins"
proof -
  have "\<exists>e. map_of (cacheCoins c) k = Some e \<and> unpruned (entry_coins e) = u k" if "cache_known c k" for k
  proof -
    obtain e where e: "map_of (cacheCoins c) k = Some e" using \<open>cache_known c k\<close> by (auto simp: cache_known_def)
    have "u k = cache_utxo U c k" using assms(1) by (auto simp: view_rep_def)
    also have "\<dots> = unpruned (entry_coins e)" using e by (simp add: cache_utxo_def)
    finally show ?thesis using e by simp
  qed
  then show ?thesis using assms(2) by (simp add: holds_coins_def all_known_def)
qed

lemma held_coin:
  assumes "holds_coins u c vins" and "txin \<in> set vins" and "input_coin u txin = Some out"
  shows "\<exists>coins. u (op_hash (prevout txin)) = Some coins \<and> AccessCoins base c (op_hash (prevout txin)) = (Some coins, c)
    \<and> IsAvailable coins (unat (op_n (prevout txin))) \<and> out = coins_vout coins ! unat (op_n (prevout txin))"
proof -
  obtain e where e: "map_of (cacheCoins c) (op_hash (prevout txin)) = Some e" "unpruned (entry_coins e) = u (op_hash (prevout txin))"
    using assms(1,2) unfolding holds_coins_def by blast
  obtain coins where c: "u (op_hash (prevout txin)) = Some coins" "IsAvailable coins (unat (op_n (prevout txin)))"
      "out = coins_vout coins ! unat (op_n (prevout txin))"
    using assms(3) by (auto simp: input_coin_def split: option.splits if_splits)
  have "entry_coins e = coins" using e(2) c(1) by (auto simp: unpruned_def split: if_splits)
  then show ?thesis using c holds_access [OF e(1)] by blast
qed

lemma GetOutputFor_held:
  assumes "holds_coins u c vins" and "txin \<in> set vins" and "input_coin u txin = Some out"
  shows "GetOutputFor base c txin = Inr (out, c)"
  using held_coin [OF assms, of base] by (auto simp: GetOutputFor_def)

lemma holds_Cons: "holds_coins u c (txin # vins) \<Longrightarrow> holds_coins u c vins"
  by (simp add: holds_coins_def)

lemma have_inputs_held:
  "holds_coins u c vins \<Longrightarrow> \<forall>txin\<in>set vins. input_coin u txin \<noteq> None \<Longrightarrow> have_inputs_loop base c vins = (True, c)"
proof (induction vins)
  case (Cons txin vins)
  then obtain out where out: "input_coin u txin = Some out" by auto
  from held_coin [OF Cons.prems(1) _ out, of base] obtain coins where
    "AccessCoins base c (op_hash (prevout txin)) = (Some coins, c)" "IsAvailable coins (unat (op_n (prevout txin)))" by auto
  then show ?case using Cons.IH [OF holds_Cons [OF Cons.prems(1)]] Cons.prems(2) by simp
qed simp

text \<open>The sum of the values that the checks keep in range is exact.\<close>

lemma input_values_held:
  assumes "MaxMoneyOut (env_params env) < 2 ^ 62"
  shows "holds_coins u c vins \<Longrightarrow> \<forall>txin\<in>set vins. input_coin u txin \<noteq> None \<Longrightarrow> 0 \<le> n \<Longrightarrow> n \<le> MaxMoneyOut (env_params env)
    \<Longrightarrow> input_values_loop env base d st c n vins = Inr (Inr v, c') \<Longrightarrow>
    c' = c \<and> v = n + input_sum u vins \<and> foldl (\<lambda>n txin. add64 n (nValue (the (input_coin u txin)))) n vins = v
      \<and> v \<le> MaxMoneyOut (env_params env)"
proof (induction vins arbitrary: n)
  case (Cons txin vins)
  obtain out where out: "input_coin u txin = Some out" using Cons.prems(2) by auto
  obtain coins where coins: "AccessCoins base c (op_hash (prevout txin)) = (Some coins, c)" "out = coins_vout coins ! unat (op_n (prevout txin))"
    using held_coin [OF Cons.prems(1) _ out, of base] by auto
  let ?v = "nValue out"
  have ok: "MoneyRange (env_params env) ?v" "MoneyRange (env_params env) (add64 n ?v)"
      "input_values_loop env base d st c (add64 n ?v) vins = Inr (Inr v, c')"
    using Cons.prems(5) coins by (auto simp: Let_def split: if_splits)
  have r: "0 \<le> ?v" "?v < 2 ^ 62" "n < 2 ^ 62" using ok(1) assms Cons.prems(4) by (auto simp: MoneyRange_def)
  then have "add64 n ?v = n + ?v" using Cons.prems(3) by (subst add64_over) auto
  then have a: "add64 n ?v = n + ?v" "0 \<le> add64 n ?v" "add64 n ?v \<le> MaxMoneyOut (env_params env)"
    using ok(2) by (simp_all add: MoneyRange_def)
  have "c' = c \<and> v = add64 n ?v + input_sum u vins \<and> foldl (\<lambda>n txin. add64 n (nValue (the (input_coin u txin)))) (add64 n ?v) vins = v
      \<and> v \<le> MaxMoneyOut (env_params env)"
    using Cons.IH [OF holds_Cons [OF Cons.prems(1)] _ a(2,3) ok(3)] Cons.prems(2) by simp
  then show ?case using out a(1) by (simp add: input_sum_def)
qed (simp add: input_sum_def)

lemma CheckInputs_held:
  assumes "MaxMoneyOut (env_params env) < 2 ^ 62" and "0 \<le> MaxMoneyOut (env_params env)"
    and "\<not> IsCoinBase tx" and "\<not> IsCoinStake tx" and "holds_coins u c (vin tx)" and "\<forall>txin\<in>set (vin tx). input_coin u txin \<noteq> None"
    and "CheckInputs env base tx st c fS flags pv = Inr (Inr chk, c')"
  shows "foldl (\<lambda>n txin. add64 n (nValue (the (input_coin u txin)))) 0 (vin tx) = input_sum u (vin tx)"
    and "\<exists>out. GetValueOut tx = Inr out \<and> out \<le> input_sum u (vin tx)"
    and "input_sum u (vin tx) \<le> MaxMoneyOut (env_params env)"
proof -
  obtain b c1 where 1: "GetBestBlock base c = (b, c1)" by force
  have "cacheCoins c1 = cacheCoins c" using 1 by (auto simp: GetBestBlock_def split: if_splits prod.splits)
  then have h: "holds_coins u c1 (vin tx)" using assms(5) by (simp add: holds_coins_def)
  obtain p where p: "env_mapBlockIndex env b = Some p"
    using assms(7,3) 1 have_inputs_held [OF assms(5,6), of base] by (auto simp: CheckInputs_def HaveInputs_def split: option.splits)
  obtain r c2 where 2: "input_values_loop env base (nHeight p + 1) st c1 0 (vin tx) = Inr (r, c2)"
      "(case r of Inl st \<Rightarrow> Inr (Inl st, c2)
        | Inr nValueIn \<Rightarrow> bindE (check_fee env tx st nValueIn) (\<lambda>r. case r of Inl st \<Rightarrow> Inr (Inl st, c2)
            | Inr _ \<Rightarrow> if fS then script_checks_loop env base tx flags pv st c2 [] 0 (vin tx) else Inr (Inr [], c2))) = Inr (Inr chk, c')"
    using assms(7,3) 1 p have_inputs_held [OF assms(5,6), of base] by (auto simp: CheckInputs_def HaveInputs_def bindE_Inr_pair)
  obtain v where v: "r = Inr v" using 2(2) by (cases r) auto
  have v2: "input_values_loop env base (nHeight p + 1) st c1 0 (vin tx) = Inr (Inr v, c2)" using 2(1) v by simp
  note s = input_values_held [OF assms(1) h assms(6) order_refl assms(2) v2]
  show "foldl (\<lambda>n txin. add64 n (nValue (the (input_coin u txin)))) 0 (vin tx) = input_sum u (vin tx)"
    "input_sum u (vin tx) \<le> MaxMoneyOut (env_params env)" using s by simp_all
  have "\<exists>y. check_fee env tx st v = Inr (Inr y)"
  proof -
    obtain x where x: "check_fee env tx st v = Inr x" "(case x of Inl st \<Rightarrow> Inr (Inl st, c2)
            | Inr _ \<Rightarrow> if fS then script_checks_loop env base tx flags pv st c2 [] 0 (vin tx) else Inr (Inr [], c2)) = Inr (Inr chk, c')"
      using 2(2) unfolding v sum.case(2) bindE_Inr by blast
    show ?thesis using x by (cases x) auto
  qed
  then show "\<exists>out. GetValueOut tx = Inr out \<and> out \<le> input_sum u (vin tx)"
    using s assms(4) by (auto simp: check_fee_def Let_def split: sum.splits if_splits)
qed

text \<open>The checks between the two backends leave the cache alone.\<close>

lemma inputs_standard_held:
  "holds_coins u c vins \<Longrightarrow> \<forall>txin\<in>set vins. input_coin u txin \<noteq> None \<Longrightarrow> inputs_standard_loop ev base c vins = Inr (r, c') \<Longrightarrow> c' = c"
proof (induction vins)
  case (Cons txin vins)
  then obtain out where out: "input_coin u txin = Some out" by auto
  have g: "GetOutputFor base c txin = Inr (out, c)" using GetOutputFor_held [OF Cons.prems(1) _ out] by simp
  show ?case using Cons.IH [OF holds_Cons [OF Cons.prems(1)]] Cons.prems(2,3) g by (auto split: sum.splits)
qed simp

lemma p2sh_loop_held:
  "holds_coins u c vins \<Longrightarrow> \<forall>txin\<in>set vins. input_coin u txin \<noteq> None \<Longrightarrow> p2sh_sigop_loop base c n vins = Inr (r, c') \<Longrightarrow> c' = c"
proof (induction vins arbitrary: n)
  case (Cons txin vins)
  then obtain out where out: "input_coin u txin = Some out" by auto
  have g: "GetOutputFor base c txin = Inr (out, c)" using GetOutputFor_held [OF Cons.prems(1) _ out] by simp
  show ?case using Cons.IH [OF holds_Cons [OF Cons.prems(1)]] Cons.prems(2,3) g by auto
qed simp

lemma priority_loop_held:
  "holds_coins u c vins \<Longrightarrow> \<forall>txin\<in>set vins. input_coin u txin \<noteq> None \<Longrightarrow> priority_loop rnd base h d c vins = Inr (r, c') \<Longrightarrow> c' = c"
proof (induction vins arbitrary: d)
  case (Cons txin vins)
  then obtain out where out: "input_coin u txin = Some out" by auto
  obtain coins where g: "AccessCoins base c (op_hash (prevout txin)) = (Some coins, c)" using held_coin [OF Cons.prems(1) _ out, of base] by auto
  show ?case using Cons.IH [OF holds_Cons [OF Cons.prems(1)]] Cons.prems(2,3) g by (auto simp: Let_def split: if_splits)
qed simp

lemma GetPriority_held:
  "holds_coins u c (vin tx) \<Longrightarrow> \<forall>txin\<in>set (vin tx). input_coin u txin \<noteq> None \<Longrightarrow> GetPriority rnd base tx h c = Inr (r, c') \<Longrightarrow> c' = c"
  using priority_loop_held by (fastforce simp: GetPriority_def bindE_Inr split: if_splits)

lemma accept_entry_held:
  assumes "holds_coins u c (vin tx)" and "\<forall>txin\<in>set (vin tx). input_coin u txin \<noteq> None"
    and "accept_entry env keep tx st n c = Inr (Inr e, c')"
  shows "c' = c \<and> me_tx e = tx \<and> (\<exists>out. GetValueOut tx = Inr out \<and> me_nFee e = wrap64 (n - out))"
proof -
  obtain k c1 where 1: "GetP2SHSigOpCount dummy_view tx c = Inr (k, c1)" using assms(3) by (auto simp: accept_entry_def bindE_Inr)
  have "c1 = c" using 1 p2sh_loop_held [OF assms(1,2)] by (auto simp: GetP2SHSigOpCount_def split: if_splits)
  then show ?thesis
    using assms(3) 1 GetPriority_held [OF assms(1,2)]
    by (auto simp: accept_entry_def bindE_Inr CTxMemPoolEntry_of_def Let_def split: if_splits sum.splits)
qed

lemma accept_fees_held:
  assumes "holds_coins u c (vin (me_tx e))" and "\<forall>txin\<in>set (vin (me_tx e)). input_coin u txin \<noteq> None"
    and "accept_fees env pool e lf st l c = Inr ((r, l'), c')"
  shows "c' = c"
  using assms(3) GetPriority_held [OF assms(1,2)]
  by (auto simp: accept_fees_def Let_def bindE_Inr split: if_splits prod.splits)

lemma tx_size_vin:
  assumes "length (ser_tx tx) \<le> MAX_BLOCK_SIZE"
  shows "length (vin tx) < 2 ^ 32"
proof -
  have "length vins \<le> sum_list (map (length \<circ> ser_txin) vins)" for vins
    by (induction vins) (auto simp: ser_txin_def ser_u32_def)
  from this [of "vin tx"] have "length (vin tx) \<le> length (ser_tx tx)" by (simp add: length_ser_tx length_ser_vec)
  then show ?thesis using assms by (simp add: MAX_BLOCK_SIZE_def)
qed

lemma accept_checks_ok:
  assumes "accept_checks env pool tx st = Inr ()" and "0 \<le> MaxMoneyOut (ae_params env)" and "MaxMoneyOut (ae_params env) < 2 ^ 62"
  shows "\<not> IsCoinBase tx" "\<not> IsCoinStake tx" "addable pool (tx_hash tx) tx"
proof -
  have c: "CheckTransaction (ae_params env) tx = Inr ()" "\<not> IsCoinBase tx" "\<not> IsCoinStake tx" "\<not> pool_exists pool (tx_hash tx)" "\<not> pool_conflict pool tx"
    using assms(1) by (auto simp: accept_checks_def split: sum.splits if_splits)
  then show "\<not> IsCoinBase tx" "\<not> IsCoinStake tx" by blast+
  have "distinct (map prevout (vin tx))" "length (ser_tx tx) \<le> MAX_BLOCK_SIZE"
    using c(1) unfolding CheckTransaction_iff [OF assms(2,3)] by blast+
  then show "addable pool (tx_hash tx) tx"
    using c(4,5) tx_size_vin [of tx] by (auto simp: addable_def pool_conflict_def list_ex_iff)
qed

lemma wrap64_small: "0 \<le> n \<Longrightarrow> n < 2 ^ 63 \<Longrightarrow> wrap64 n = n"
  using add64_over [of n 0] by (simp add: add64_def)

lemma case_sum_eq: "(case r of Inl x \<Rightarrow> f x | Inr y \<Rightarrow> g y) = z \<longleftrightarrow> (\<exists>x. r = Inl x \<and> f x = z) \<or> (\<exists>y. r = Inr y \<and> g y = z)"
  by (cases r) auto

text \<open>Whatever it returns, the rest keeps the tip cache, and on a rejection the pool.\<close>

definition keeps :: "'v accept_state \<Rightarrow> fault + bool \<times> 'v accept_state \<Rightarrow> bool" where
  "keeps s r \<longleftrightarrow> (\<forall>ok s'. r = Inr (ok, s') \<longrightarrow> as_tip s' = as_tip s \<and> (\<not> ok \<longrightarrow> as_pool s' = as_pool s))"

lemma keeps_bind: "(\<And>x. keeps s (f x)) \<Longrightarrow> keeps s (bindE m f)"
  by (cases m) (simp_all add: keeps_def)

lemma keeps_Inr: "keeps s (Inr (ok, s')) \<longleftrightarrow> as_tip s' = as_tip s \<and> (\<not> ok \<longrightarrow> as_pool s' = as_pool s)"
  by (simp add: keeps_def)

lemma accept_rest_keeps: "keeps s (accept_rest env tx lf ri ig n view s)"
  unfolding accept_rest_def Let_def
  by (intro keeps_bind; simp split: prod.split sum.split; safe?; (intro keeps_bind)?; simp add: keeps_Inr split: prod.split sum.split;
      safe?; (intro keeps_bind)?; simp add: keeps_Inr split: prod.split sum.split; safe?; (intro keeps_bind)?; simp add: keeps_Inr split: prod.split sum.split)

lemma accept_rest_frame:
  assumes "accept_rest env tx lf ri ig n view s = Inr (ok, s')"
  shows "as_tip s' = as_tip s" "\<not> ok \<Longrightarrow> as_pool s' = as_pool s"
  using accept_rest_keeps [of s env tx lf ri ig n view] assms unfolding keeps_def by blast+

lemma value_out_ge: "value_out_loop n outs = Inr v \<Longrightarrow> n \<le> v"
  by (induction outs arbitrary: n) (force split: if_splits)+

lemma accept_rest_ok:
  assumes "accept_rest env tx lf ri ig n view s = Inr (True, s')"
    and "holds_coins u view (vin tx)" and "\<forall>txin\<in>set (vin tx). input_coin u txin \<noteq> None"
    and "n = foldl (\<lambda>n txin. add64 n (nValue (the (input_coin u txin)))) 0 (vin tx)"
    and "0 \<le> MaxMoneyOut (ae_params env)" "MaxMoneyOut (ae_params env) < 2 ^ 62" "\<not> IsCoinBase tx" "\<not> IsCoinStake tx"
  shows "\<exists>e out. as_pool s' = addUnchecked (as_pool s) (tx_hash tx) e \<and> me_tx e = tx \<and> GetValueOut tx = Inr out
    \<and> out \<le> input_sum u (vin tx) \<and> me_nFee e = wrap64 (input_sum u (vin tx) - out) \<and> input_sum u (vin tx) - out < 2 ^ 63"
proof -
  obtain v1 where 1: "(if ae_RequireStandard env then AreInputsStandard (ae_eval env) dummy_view tx view else Inr (True, view)) = Inr (True, v1)"
    using assms(1) by (auto simp: accept_rest_def bindE_Inr split: if_splits)
  have v1: "v1 = view" using 1 inputs_standard_held [OF assms(2,3)] assms(7) by (auto simp: AreInputsStandard_def split: if_splits)
  obtain e v2 where 2: "accept_entry env False tx (as_state s) n view = Inr (Inr e, v2)"
    using assms(1) 1 v1 by (auto simp: accept_rest_def bindE_Inr split: if_splits sum.splits)
  have e: "v2 = view" "me_tx e = tx" "\<exists>out. GetValueOut tx = Inr out \<and> me_nFee e = wrap64 (n - out)"
    using accept_entry_held [OF assms(2,3) 2] by blast+
  obtain l v3 where 3: "(if ig then Inr ((Inr (), as_limiter s), view)
                         else accept_fees env (as_pool s) e lf (as_state s) (as_limiter s) view) = Inr ((Inr (), l), v3)"
    using assms(1) 1 v1 2 e(1) by (auto simp: accept_rest_def bindE_Inr Let_def split: if_splits sum.splits)
  have v3: "v3 = view" using 3 accept_fees_held [of u view e] assms(2,3) e(2) by (auto split: if_splits)
  obtain v4 where 4: "accept_scripts env tx (as_state s) view = Inr (Inr (), v4)" "as_pool s' = addUnchecked (as_pool s) (tx_hash tx) e"
    using assms(1) 1 v1 2 e(1) 3 v3 by (auto simp: accept_rest_def bindE_Inr Let_def split: if_splits sum.splits)
  obtain chk v5 where 5: "CheckInputs (ae_con env) dummy_view tx (as_state s) view True STANDARD_SCRIPT_VERIFY_FLAGS False = Inr (Inr chk, v5)"
    using 4(1) by (auto simp: accept_scripts_def bindE_Inr case_sum_eq)
  note c = CheckInputs_held [OF assms(6,5,7,8,2,3) 5]
  obtain out where out: "GetValueOut tx = Inr out" "out \<le> input_sum u (vin tx)" using c(2) by blast
  have "0 \<le> out" using value_out_ge [of 0 "vout tx" out] out(1) by (simp add: GetValueOut_def)
  then have "input_sum u (vin tx) - out < 2 ^ 63" using c(3) assms(6) by simp
  moreover have "me_nFee e = wrap64 (input_sum u (vin tx) - out)" using e(3) out(1) assms(4) c(1) by auto
  ultimately show ?thesis using out e(2) 4(2) by blast
qed

text \<open>
  C39. Acceptance to the memory pool is safe: the pool stays consistent, the coins of the chain are
  left as they were, and a rejected transaction leaves the pool as it was. An accepted transaction is
  neither coinbase nor coinstake and is added under its hash; the pool did not know it and did not
  spend any of its inputs, each input is an unspent output of the pool or the chain, and its fee is
  what the inputs are worth beyond the outputs, and not negative.
\<close>

theorem accepted_transaction:
  assumes "pool_ok (as_pool s)" and "tip_inv (as_tip s)"
    and "0 \<le> MaxMoneyOut (ae_params env)" and "MaxMoneyOut (ae_params env) < 2 ^ 62"
    and "AcceptToMemoryPool env tip_ops tx fLimitFree fRejectInsaneFee ignoreFees s = Inr (ok, s')"
  shows "pool_ok (as_pool s') \<and> tip_inv (as_tip s') \<and> tip_utxo (as_tip s') = tip_utxo (as_tip s)
    \<and> tip_best (as_tip s') = tip_best (as_tip s) \<and> (\<not> ok \<longrightarrow> as_pool s' = as_pool s)
    \<and> (ok \<longrightarrow> \<not> IsCoinBase tx \<and> \<not> IsCoinStake tx \<and> \<not> pool_exists (as_pool s) (tx_hash tx)
        \<and> (\<forall>txin\<in>set (vin tx). map_of (mapNextTx (as_pool s)) (prevout txin) = None
             \<and> input_coin (pool_utxo (as_pool s) (tip_utxo (as_tip s))) txin \<noteq> None)
        \<and> (\<exists>e out. as_pool s' = addUnchecked (as_pool s) (tx_hash tx) e \<and> me_tx e = tx \<and> GetValueOut tx = Inr out
             \<and> 0 \<le> me_nFee e \<and> me_nFee e = input_sum (pool_utxo (as_pool s) (tip_utxo (as_tip s))) (vin tx) - out))"
proof -
  let ?pool = "as_pool s" and ?u = "tip_utxo (as_tip s)" and ?h = "tip_best (as_tip s)"
  let ?U = "pool_utxo ?pool ?u"
  show ?thesis
  proof (cases "accept_checks env ?pool tx (as_state s)")
    case (Inl st)
    then have "ok = False" "as_pool s' = ?pool" "as_tip s' = as_tip s" using assms(5) by (auto simp: AcceptToMemoryPool_def)
    then show ?thesis using assms(1,2) by simp
  next
    case (Inr x)
    then have ck: "accept_checks env ?pool tx (as_state s) = Inr ()" by simp
    note tx = accept_checks_ok [OF ck assms(3,4)]
    obtain r view where v: "accept_inputs (mempool_view ?pool tip_ops) tx (as_state s) (new_cache (as_tip s)) = Inr (r, view)"
        "(case r of Inl (st, missing) \<Rightarrow> Inr (False, s\<lparr>as_missing := False, as_tip := view_base view, as_state := st, as_missing := missing\<rparr>)
          | Inr nValueIn \<Rightarrow> accept_rest env tx fLimitFree fRejectInsaneFee ignoreFees nValueIn view
              (s\<lparr>as_missing := False, as_tip := view_base view\<rparr>)) = Inr (ok, s')"
      using assms(5) ck by (auto simp: AcceptToMemoryPool_def bindE_Inr Let_def)
    let ?I = "\<lambda>v. tip_inv v \<and> tip_utxo v = ?u \<and> tip_best v = ?h"
    have "view_rep (cache_inv ?I (\<lambda>_. ?U) (\<lambda>_ _. True)) (cache_utxo (\<lambda>_. ?U)) (cache_best (\<lambda>_. ?h)) (new_cache (as_tip s)) ?U ?h"
      using mem.new_cache_inv [of "as_tip s" ?u ?h ?pool] assms(2) by (simp add: view_rep_def)
    note a = mem.accept_inputs_spec [OF this v(1)]
    have base: "tip_inv (view_base view)" "tip_utxo (view_base view) = ?u" "tip_best (view_base view) = ?h"
      using conjunct1 [OF a] by (simp_all add: view_rep_def cache_inv_def)
    show ?thesis
    proof (cases r)
      case (Inl y)
      then have "ok = False" "as_pool s' = ?pool" "as_tip s' = view_base view" using v(2) by (auto split: prod.splits)
      then show ?thesis using base assms(1) by simp
    next
      case (Inr n)
      then have rest: "accept_rest env tx fLimitFree fRejectInsaneFee ignoreFees n view (s\<lparr>as_missing := False, as_tip := view_base view\<rparr>) = Inr (ok, s')"
        using v(2) by simp
      note fr = accept_rest_frame [OF rest]
      have n: "all_known view (vin tx)" "\<forall>txin\<in>set (vin tx). input_coin ?U txin \<noteq> None"
          "n = foldl (\<lambda>n txin. add64 n (nValue (the (input_coin ?U txin)))) 0 (vin tx)"
        using a Inr tx(1) by blast+
      show ?thesis
      proof (cases ok)
        case False
        then show ?thesis using fr base assms(1) by simp
      next
        case True
        have h: "holds_coins ?U view (vin tx)" using rep_holds [OF conjunct1 [OF a] n(1)] .
        obtain e out where e: "as_pool s' = addUnchecked ?pool (tx_hash tx) e" "me_tx e = tx" "GetValueOut tx = Inr out"
            "out \<le> input_sum ?U (vin tx)" "me_nFee e = wrap64 (input_sum ?U (vin tx) - out)" "input_sum ?U (vin tx) - out < 2 ^ 63"
          using accept_rest_ok [OF rest [unfolded eqTrueI [OF True]] h n(2,3) assms(3,4) tx(1,2)] by auto
        have "pool_ok (as_pool s')" unfolding e(1) using pool_ok_add [OF assms(1)] tx(3) e(2) by simp
        moreover have "me_nFee e = input_sum ?U (vin tx) - out" "0 \<le> me_nFee e" using e(4-6) wrap64_small by auto
        moreover have "\<not> pool_exists ?pool (tx_hash tx)" "\<forall>txin\<in>set (vin tx). map_of (mapNextTx ?pool) (prevout txin) = None"
          using tx(3) by (auto simp: addable_def)
        ultimately show ?thesis using True base fr(1) tx(1,2) n(2) e(1-3) by auto
      qed
    qed
  qed
qed

section \<open>A concrete acceptance\<close>

definition ex_coin :: CCoins where "ex_coin = ex_reward\<lparr>fCoinBase := False\<rparr>"

definition ex_coin_db :: CCoinsViewDB where
  "ex_coin_db = \<lparr>db_coins = [(uint256_of_u64 1, ex_coin)], db_best = Some (uint256_of_u64 5)\<rparr>"

definition ex_accept_env :: accept_env where
  "ex_accept_env = \<lparr>ae_con = ex_env\<lparr>env_VerifyScript := \<lambda>_ _ _ _ _. None\<rparr>, ae_eval = zero_env, ae_rnd = id, ae_pow = (\<lambda>x _. x),
     ae_RequireStandard = False, ae_fIsBareMultisigStd = True, ae_datacarrier = True, ae_minRelayTxFee = 10000,
     ae_relaypriority = False, ae_limitfreerelay = 15, ae_mapLockedInputs = Map.empty, ae_GetTime = 0, ae_GetAdjustedTime = 0,
     ae_Height = 99\<rparr>"

definition ex_accept :: "tip_cache accept_state" where
  "ex_accept = \<lparr>as_state = state_valid, as_missing = False, as_pool = CTxMemPool_new, as_tip = new_cache ex_coin_db,
     as_limiter = \<lparr>dFreeCount = 0, nLastTime = 0\<rparr>\<rparr>"

lemma ex_accept_inv: "pool_ok (as_pool ex_accept)" "tip_inv (as_tip ex_accept)"
proof -
  show "pool_ok (as_pool ex_accept)" by (simp add: ex_accept_def pool_ok_def CTxMemPool_new_def)
  have "db_inv ex_coin_db" by (simp add: db_inv_def clean_alist_def ex_coin_db_def ex_coin_def ex_reward_def IsPruned_def CTxOut_IsNull_def
      unpruned_opt_def unpruned_def)
  then show "tip_inv (as_tip ex_accept)" using db.new_cache_inv by (simp add: ex_accept_def)
qed

lemma ex_spend_checks: "CheckTransaction CMainParams ex_spend = Inr ()"
proof -
  have "length (ser_tx ex_spend) = 60" by code_simp
  then show ?thesis using ex_cb
    by (simp add: CheckTransaction_iff CMainParams_MaxMoneyOut MAX_BLOCK_SIZE_def)
      (simp add: ex_spend_def CTxOut_IsEmpty_def CMainParams_MaxMoneyOut COutPoint_IsNull_def)
qed

lemma ex_accept_checks: "accept_checks ex_accept_env CTxMemPool_new ex_spend state_valid = Inr ()"
  using ex_cb
  by (simp add: accept_checks_def ex_accept_env_def ex_env_def ex_spend_checks pool_exists_def CTxMemPool_new_def lock_conflict_def pool_conflict_def)
    (simp add: list_ex_iff)

definition ex_accept_view :: work_cache where
  "ex_accept_view = \<lparr>view_base = \<lparr>view_base = ex_coin_db, hashBlock = uint256_of_u64 5,
       cacheCoins = [(uint256_of_u64 1, \<lparr>entry_coins = ex_coin, entry_flags = 0\<rparr>)]\<rparr>,
     hashBlock = uint256_of_u64 5, cacheCoins = [(uint256_of_u64 1, \<lparr>entry_coins = ex_coin, entry_flags = 0\<rparr>)]\<rparr>"

lemma ex_coin_available: "IsAvailable ex_coin 0" "\<not> IsPruned ex_coin" "coins_vout ex_coin = [\<lparr>nValue = 50, scriptPubKey = []\<rparr>]"
    "\<not> fCoinBase ex_coin" "\<not> fCoinStake ex_coin"
  by (simp_all add: ex_coin_def ex_reward_def IsAvailable_def IsPruned_def CTxOut_IsNull_def)

lemma ex_accept_inputs:
  "accept_inputs (mempool_view CTxMemPool_new tip_ops) ex_spend state_valid (new_cache (new_cache ex_coin_db)) = Inr (Inr 50, ex_accept_view)"
  by (simp add: accept_inputs_def HaveCoins_def view_access_defs mempool_view_def mempool_GetCoins_def pool_lookup_def CTxMemPool_new_def
      new_cache_def ex_coin_db_def ex_ids ex_spend_vin HaveInputs_def GetValueIn_def GetOutputFor_def ex_cb ex_coin_available add64_small
      ex_accept_view_def Let_def)

lemma ex_accept_scripts: "accept_scripts ex_accept_env ex_spend state_valid ex_accept_view = Inr (Inr (), ex_accept_view)"
proof -
  have "env_mapBlockIndex (ae_con ex_accept_env) (uint256_of_u64 5) = Some ex_prev" "env_params (ae_con ex_accept_env) = CMainParams"
      "env_VerifyScript (ae_con ex_accept_env) = (\<lambda>_ _ _ _ _. None)"
    by (simp_all add: ex_accept_env_def ex_env_def)
  then show ?thesis
    by (simp add: accept_scripts_def CheckInputs_def HaveInputs_def view_access_defs ex_accept_view_def ex_cb ex_spend_vin ex_coin_available
      MoneyRange_def CMainParams_MaxMoneyOut add64_small check_fee_def ex_out CScriptCheck_run_def Let_def)
qed

lemma ex_accepted: "\<exists>s'. AcceptToMemoryPool ex_accept_env tip_ops ex_spend False False True ex_accept = Inr (True, s')"
proof -
  have e: "ae_RequireStandard ex_accept_env = False" by (simp add: ex_accept_env_def)
  have p: "GetP2SHSigOpCount dummy_view ex_spend ex_accept_view = Inr (0, ex_accept_view)"
    by (simp add: GetP2SHSigOpCount_def ex_cb ex_spend_vin GetOutputFor_def view_access_defs ex_accept_view_def ex_coin_available ex_p2sh)
  have q: "\<exists>r. GetPriority rnd dummy_view ex_spend h ex_accept_view = Inr (r, ex_accept_view)" for rnd h
    by (simp add: GetPriority_def ex_cb ex_spend_vin view_access_defs ex_accept_view_def ex_coin_available Let_def)
  obtain entry where "accept_entry ex_accept_env False ex_spend state_valid 50 ex_accept_view = Inr (Inr entry, ex_accept_view)"
    using q [of "ae_rnd ex_accept_env" "ae_Height ex_accept_env"] p
    by (auto simp: accept_entry_def ex_sig ex_out MAX_TX_SIGOPS_def)
  then show ?thesis
    using ex_accept_checks ex_accept_inputs ex_accept_scripts e
    by (simp add: AcceptToMemoryPool_def accept_rest_def ex_accept_def Let_def)
qed

theorem accepted_transaction_witness:
  "\<exists>s'. AcceptToMemoryPool ex_accept_env tip_ops ex_spend False False True ex_accept = Inr (True, s') \<and> pool_ok (as_pool s')
    \<and> (\<exists>e out. as_pool s' = addUnchecked CTxMemPool_new (uint256_of_u64 3) e \<and> GetValueOut ex_spend = Inr out \<and> 0 \<le> me_nFee e)"
proof -
  have m: "0 \<le> MaxMoneyOut (ae_params ex_accept_env)" "MaxMoneyOut (ae_params ex_accept_env) < 2 ^ 62"
    by (simp_all add: ex_accept_env_def ex_env_def CMainParams_MaxMoneyOut)
  obtain s' where s': "AcceptToMemoryPool ex_accept_env tip_ops ex_spend False False True ex_accept = Inr (True, s')" using ex_accepted by blast
  from accepted_transaction [OF ex_accept_inv m s'] have "pool_ok (as_pool s')
      \<and> (\<exists>e out. as_pool s' = addUnchecked (as_pool ex_accept) (tx_hash ex_spend) e \<and> GetValueOut ex_spend = Inr out \<and> 0 \<le> me_nFee e)" by blast
  then show ?thesis using s' ex_ids(2) by (auto simp: ex_accept_def)
qed

section \<open>Consistency of the orphans\<close>

definition waiting_for :: "(txid \<times> txid list) list \<Rightarrow> txid \<Rightarrow> txid set" where
  "waiting_for m k = (case map_of m k of None \<Rightarrow> {} | Some s \<Rightarrow> set s)"

definition sets_ok :: "(txid \<times> txid list) list \<Rightarrow> bool" where
  "sets_ok m \<longleftrightarrow> distinct (map fst m) \<and> (\<forall>k s. map_of m k = Some s \<longrightarrow> s \<noteq> [] \<and> distinct s)"

lemma sets_okD: "sets_ok m \<Longrightarrow> map_of m k = Some s \<Longrightarrow> s \<noteq> [] \<and> distinct s" "sets_ok m \<Longrightarrow> distinct (map fst m)"
  unfolding sets_ok_def by blast+

lemma sets_okI: "distinct (map fst m) \<Longrightarrow> (\<And>k s. map_of m k = Some s \<Longrightarrow> s \<noteq> [] \<and> distinct s) \<Longrightarrow> sets_ok m"
  unfolding sets_ok_def by blast

definition spends_tx :: "CTransaction \<Rightarrow> txid \<Rightarrow> bool" where
  "spends_tx tx k \<longleftrightarrow> (\<exists>txin\<in>set (vin tx). op_hash (prevout txin) = k)"

text \<open>The index by parent lists exactly the orphans that spend an output of the parent.\<close>

definition orphans_ok :: "orphanage \<Rightarrow> bool" where
  "orphans_ok orp \<longleftrightarrow> distinct (map fst (mapOrphanTransactions orp)) \<and> sets_ok (mapOrphanTransactionsByPrev orp)
     \<and> (\<forall>h e. map_of (mapOrphanTransactions orp) h = Some e \<longrightarrow> tx_hash (otx e) = h)
     \<and> (\<forall>k. waiting_for (mapOrphanTransactionsByPrev orp) k
           = {h. \<exists>e. map_of (mapOrphanTransactions orp) h = Some e \<and> spends_tx (otx e) k})"

lemma add_by_prev_ok:
  assumes "sets_ok m"
  shows "sets_ok (add_by_prev h m txin)"
    "waiting_for (add_by_prev h m txin) k = waiting_for m k \<union> (if op_hash (prevout txin) = k then {h} else {})"
proof -
  define s where "s = List.insert h (case map_of m (op_hash (prevout txin)) of None \<Rightarrow> [] | Some s \<Rightarrow> s)"
  have a: "add_by_prev h m txin = map_set uint256_lt (op_hash (prevout txin)) s m" by (simp add: add_by_prev_def s_def Let_def)
  have s: "set s = insert h (waiting_for m (op_hash (prevout txin)))" "distinct s" "s \<noteq> []"
  proof -
    show "set s = insert h (waiting_for m (op_hash (prevout txin)))"
      by (cases "map_of m (op_hash (prevout txin))") (simp_all add: s_def waiting_for_def)
    show "distinct s"
    proof (cases "map_of m (op_hash (prevout txin))")
      case (Some t)
      from sets_okD(1) [OF assms Some] Some show ?thesis by (simp add: s_def)
    qed (simp add: s_def)
    show "s \<noteq> []"
    proof -
      have "h \<in> set s" by (simp add: s_def)
      then show ?thesis by auto
    qed
  qed
  show "sets_ok (add_by_prev h m txin)"
  proof -
    let ?m = "map_set uint256_lt (op_hash (prevout txin)) s m"
    have "distinct (map fst m)" using assms unfolding sets_ok_def by blast
    then have "distinct (map fst ?m)" by (rule distinct_map_set)
    moreover have "t \<noteq> [] \<and> distinct t" if "map_of ?m q = Some t" for q t
    proof (cases "q = op_hash (prevout txin)")
      case True
      then show ?thesis using that s(2,3) by simp
    next
      case False
      then have "map_of m q = Some t" using that by simp
      then show ?thesis using assms unfolding sets_ok_def by blast
    qed
    ultimately show ?thesis unfolding a sets_ok_def by blast
  qed
  show "waiting_for (add_by_prev h m txin) k = waiting_for m k \<union> (if op_hash (prevout txin) = k then {h} else {})"
    using s(1) unfolding a by (simp add: waiting_for_def del: map_of_eq_Some_iff)
qed

lemma adds_by_prev_ok:
  "sets_ok m \<Longrightarrow> sets_ok (foldl (add_by_prev h) m vins) \<and> waiting_for (foldl (add_by_prev h) m vins) k
     = waiting_for m k \<union> (if \<exists>txin\<in>set vins. op_hash (prevout txin) = k then {h} else {})"
  by (induction vins arbitrary: m) (auto simp: add_by_prev_ok)

lemma erase_by_prev_ok:
  assumes "sets_ok m"
  shows "sets_ok (erase_by_prev h m txin)"
    "waiting_for (erase_by_prev h m txin) k = waiting_for m k - (if op_hash (prevout txin) = k then {h} else {})"
proof -
  have d: "distinct s" "s \<noteq> []" if "map_of m q = Some s" for q s using assms that by (auto simp: sets_ok_def)
  have r: "set (remove1 h s) = set s - {h}" if "map_of m q = Some s" for q s using d [OF that] by simp
  show "sets_ok (erase_by_prev h m txin)"
  proof (cases "map_of m (op_hash (prevout txin))")
    case None
    then show ?thesis using assms by (simp add: erase_by_prev_def)
  next
    case (Some s)
    let ?k = "op_hash (prevout txin)"
    let ?m = "if remove1 h s = [] then AList.delete ?k m else AList.update ?k (remove1 h s) m"
    have "distinct (map fst m)" using assms unfolding sets_ok_def by blast
    then have "distinct (map fst ?m)" by (simp add: distinct_update distinct_delete)
    moreover have "t \<noteq> [] \<and> distinct t" if "map_of ?m q = Some t" for q t
    proof (cases "q = ?k")
      case True
      then have "t = remove1 h s" "remove1 h s \<noteq> []"
        using that by (simp_all add: update_conv' delete_conv' del: map_of_eq_Some_iff split: if_splits)
      then show ?thesis using d(1) [OF Some] by simp
    next
      case False
      then have "map_of m q = Some t"
        using that by (simp add: update_conv' delete_conv' del: map_of_eq_Some_iff split: if_splits)
      from d [OF this] show ?thesis by simp
    qed
    ultimately have "sets_ok ?m" by (rule sets_okI)
    then show ?thesis using Some by (simp only: erase_by_prev_def Let_def option.case)
  qed
  show "waiting_for (erase_by_prev h m txin) k = waiting_for m k - (if op_hash (prevout txin) = k then {h} else {})"
  proof (cases "map_of m (op_hash (prevout txin))")
    case None
    then show ?thesis by (auto simp: erase_by_prev_def waiting_for_def)
  next
    case (Some s)
    have z: "set s - {h} = {}" if "remove1 h s = []" using r [OF Some] that by simp
    have e: "erase_by_prev h m txin = (if remove1 h s = [] then AList.delete (op_hash (prevout txin)) m
        else AList.update (op_hash (prevout txin)) (remove1 h s) m)"
      using Some by (simp add: erase_by_prev_def Let_def del: map_of_eq_Some_iff)
    show ?thesis
    proof (cases "op_hash (prevout txin) = k")
      case True
      then show ?thesis using Some r [OF Some] z unfolding e
        by (simp add: waiting_for_def update_conv' delete_conv' del: map_of_eq_Some_iff)
    next
      case False
      then show ?thesis unfolding e by (simp add: waiting_for_def update_conv' delete_conv' del: map_of_eq_Some_iff)
    qed
  qed
qed

lemma erases_by_prev_ok:
  "sets_ok m \<Longrightarrow> sets_ok (foldl (erase_by_prev h) m vins) \<and> waiting_for (foldl (erase_by_prev h) m vins) k
     = waiting_for m k - (if \<exists>txin\<in>set vins. op_hash (prevout txin) = k then {h} else {})"
  by (induction vins arbitrary: m) (auto simp: erase_by_prev_ok)

lemma AddOrphanTx_ok:
  assumes "orphans_ok orp"
  shows "orphans_ok (snd (AddOrphanTx orp tx peer))"
proof (cases "map_of (mapOrphanTransactions orp) (tx_hash tx) = None \<and> \<not> 5000 < length (ser_tx tx)")
  case True
  have s: "sets_ok (mapOrphanTransactionsByPrev orp)" "distinct (map fst (mapOrphanTransactions orp))" using assms by (simp_all add: orphans_ok_def)
  show ?thesis
    using assms True adds_by_prev_ok [OF s(1), of "tx_hash tx" "vin tx"] s(2)
    by (auto simp: AddOrphanTx_def Let_def orphans_ok_def distinct_map_set spends_tx_def split: if_splits simp del: map_of_eq_Some_iff)
next
  case False
  then show ?thesis using assms by (auto simp: AddOrphanTx_def Let_def)
qed

lemma EraseOrphanTx_ok:
  assumes "orphans_ok orp"
  shows "orphans_ok (EraseOrphanTx orp h)" "map_of (mapOrphanTransactions (EraseOrphanTx orp h)) = (map_of (mapOrphanTransactions orp))(h := None)"
proof -
  have s: "sets_ok (mapOrphanTransactionsByPrev orp)" using assms by (simp add: orphans_ok_def)
  show "map_of (mapOrphanTransactions (EraseOrphanTx orp h)) = (map_of (mapOrphanTransactions orp))(h := None)"
    by (auto simp: EraseOrphanTx_def delete_conv' fun_eq_iff split: option.split)
  show "orphans_ok (EraseOrphanTx orp h)"
  proof (cases "map_of (mapOrphanTransactions orp) h")
    case None
    then show ?thesis using assms by (simp add: EraseOrphanTx_def)
  next
    case (Some e)
    let ?m = "map_of (mapOrphanTransactions orp)"
    have w: "waiting_for (mapOrphanTransactionsByPrev orp) k - (if spends_tx (otx e) k then {h} else {})
        = {q. \<exists>e. (?m(h := None)) q = Some e \<and> spends_tx (otx e) k}" for k
    proof -
      have "waiting_for (mapOrphanTransactionsByPrev orp) k = {h. \<exists>e. ?m h = Some e \<and> spends_tx (otx e) k}"
        using assms unfolding orphans_ok_def by blast
      then show ?thesis using Some by (auto simp del: map_of_eq_Some_iff)
    qed
    show ?thesis using assms Some w erases_by_prev_ok [OF s, of h "vin (otx e)"]
      by (simp add: EraseOrphanTx_def orphans_ok_def delete_conv' distinct_delete spends_tx_def del: map_of_eq_Some_iff)
  qed
qed

lemma limit_orphans_ok:
  "orphans_ok orp \<Longrightarrow> orphans_ok (snd (limit_orphans g m n orp)) \<and> length (mapOrphanTransactions (snd (limit_orphans g m n orp))) \<le> m"
proof (induction g m n orp rule: limit_orphans.induct)
  case (1 g m n orp)
  show ?case
  proof (cases "m < length (mapOrphanTransactions orp)")
    case True
    then show ?thesis using 1 EraseOrphanTx_ok(1) [OF 1(2)] by (subst (1 2) limit_orphans.simps) simp
  next
    case False
    then show ?thesis using 1(2) by (subst (1 2) limit_orphans.simps) simp
  qed
qed

lemma erase_for_ok:
  "orphans_ok orp \<Longrightarrow> (\<forall>(k, e)\<in>set es. tx_hash (otx e) = k) \<Longrightarrow>
    (let orp' = foldl (\<lambda>orp (k, e). if fromPeer e = peer then EraseOrphanTx orp (tx_hash (otx e)) else orp) orp es
     in orphans_ok orp' \<and> map_of (mapOrphanTransactions orp')
          = map_of (mapOrphanTransactions orp) |` (- {k. \<exists>e. (k, e) \<in> set es \<and> fromPeer e = peer}))"
proof (induction es arbitrary: orp)
  case (Cons x es)
  obtain k e where x: "x = (k, e)" by force
  let ?o = "if fromPeer e = peer then EraseOrphanTx orp (tx_hash (otx e)) else orp"
  have o: "orphans_ok ?o" using EraseOrphanTx_ok(1) [OF Cons.prems(1)] Cons.prems(1) by simp
  have "tx_hash (otx e) = k" using Cons.prems(2) x by simp
  then have "map_of (mapOrphanTransactions ?o) = map_of (mapOrphanTransactions orp) |` (- {q. q = k \<and> fromPeer e = peer})"
    using EraseOrphanTx_ok(2) [OF Cons.prems(1)] by (auto simp: fun_eq_iff restrict_map_def)
  then show ?case using Cons.IH [OF o] Cons.prems(2) x by (auto simp: Let_def restrict_map_def fun_eq_iff)
qed (simp add: restrict_map_def)

text \<open>
  C40. The orphans stay consistent under every operation: the index by parent lists exactly the orphans
  that spend an output of the parent. Erasing for a peer removes exactly the orphans that came from
  it, and limiting the number ends with at most that many, whatever the random choices are.
\<close>

theorem orphans_consistent:
  assumes "orphans_ok orp"
  shows "orphans_ok (snd (AddOrphanTx orp tx peer)) \<and> orphans_ok (EraseOrphanTx orp h)
    \<and> orphans_ok (EraseOrphansFor orp peer)
    \<and> (\<forall>h. map_of (mapOrphanTransactions (EraseOrphansFor orp peer)) h
         = (case map_of (mapOrphanTransactions orp) h of None \<Rightarrow> None | Some e \<Rightarrow> if fromPeer e = peer then None else Some e))
    \<and> orphans_ok (snd (LimitOrphanTxSize GetRandHash m orp))
    \<and> length (mapOrphanTransactions (snd (LimitOrphanTxSize GetRandHash m orp))) \<le> m"
proof -
  let ?es = "mapOrphanTransactions orp"
  have d: "distinct (map fst ?es)" using assms by (simp add: orphans_ok_def)
  then have mem: "(k, e) \<in> set ?es \<longleftrightarrow> map_of ?es k = Some e" for k e by simp
  have "\<forall>(k, e)\<in>set ?es. tx_hash (otx e) = k" using assms mem by (auto simp: orphans_ok_def)
  from erase_for_ok [OF assms this, of peer] have e: "orphans_ok (EraseOrphansFor orp peer)"
      "map_of (mapOrphanTransactions (EraseOrphansFor orp peer)) = map_of ?es |` (- {k. \<exists>e. map_of ?es k = Some e \<and> fromPeer e = peer})"
    unfolding EraseOrphansFor_def mem Let_def by blast+
  show ?thesis
    using AddOrphanTx_ok [OF assms] EraseOrphanTx_ok(1) [OF assms] e limit_orphans_ok [OF assms]
    by (auto simp: LimitOrphanTxSize_def restrict_map_def split: option.split)
qed

definition ex_orphans :: orphanage where
  "ex_orphans = snd (AddOrphanTx \<lparr>mapOrphanTransactions = [], mapOrphanTransactionsByPrev = []\<rparr> ex_spend 7)"

theorem orphans_consistent_witness:
  "orphans_ok ex_orphans \<and> map_of (mapOrphanTransactions ex_orphans) (uint256_of_u64 3) = Some \<lparr>otx = ex_spend, fromPeer = 7\<rparr>
    \<and> mapOrphanTransactions (EraseOrphansFor ex_orphans 7) = []"
proof -
  let ?o = "\<lparr>mapOrphanTransactions = [], mapOrphanTransactionsByPrev = []\<rparr>"
  have z: "orphans_ok ?o" by (simp add: orphans_ok_def sets_ok_def waiting_for_def)
  have "length (ser_tx ex_spend) = 60" by code_simp
  then have m: "mapOrphanTransactions ex_orphans = [(uint256_of_u64 3, \<lparr>otx = ex_spend, fromPeer = 7\<rparr>)]"
    by (simp add: ex_orphans_def AddOrphanTx_def Let_def ex_ids map_set_def)
  have o: "orphans_ok ex_orphans" using conjunct1 [OF orphans_consistent [OF z, where tx = ex_spend and peer = 7]] by (simp add: ex_orphans_def)
  have "map_of (mapOrphanTransactions (EraseOrphansFor ex_orphans 7)) h = None" for h
    using orphans_consistent [OF o, where peer = 7] m by (auto split: option.splits if_splits)
  then have "mapOrphanTransactions (EraseOrphansFor ex_orphans 7) = []"
    by (metis map_of_eq_empty_iff ext)
  then show ?thesis using o m by simp
qed

end
