(* ===== verification/Best_Chain.thy ===== *)
theory Best_Chain
  imports Kernel
begin

text \<open>
  Choosing and activating the best chain (\<^verbatim>\<open>FindMostWorkChain\<close>,
  \<^verbatim>\<open>ActivateBestChain\<close>, \<^verbatim>\<open>InvalidateBlock\<close>,
  \<^verbatim>\<open>ReconsiderBlock\<close> and the handlers of invalid chains of
  \<^verbatim>\<open>src/main.cpp\<close>). The state is the block index with the active chain, the candidate
  set in the order of its comparator, the blocks that wait for a parent, the warnings and the scores of
  peers; \<open>world\<close> holds what only the operations on the tip read and write. Those operations
  are the fields of a record, as the coin views are, and the locale \<open>tip_operations\<close> states
  what the callers rely on.
\<close>

section \<open>Outcomes that may not return\<close>

type_synonym 'a outcome = "(fault + 'a) option"

definition bindP :: "'a outcome \<Rightarrow> ('a \<Rightarrow> 'b outcome) \<Rightarrow> 'b outcome" where
  "bindP m f = Option.bind m (\<lambda>r. case r of Inl e \<Rightarrow> Some (Inl e) | Inr x \<Rightarrow> f x)"

lemma bindP_simps [simp]: "bindP None f = None" "bindP (Some (Inl e)) f = Some (Inl e)" "bindP (Some (Inr x)) f = f x"
  by (simp_all add: bindP_def)

lemma bindP_mono [partial_function_mono]:
  assumes "mono_option F" and "\<And>x. mono_option (\<lambda>f. G x f)"
  shows "mono_option (\<lambda>f. bindP (F f) (\<lambda>x. G x f))"
  unfolding bindP_def
proof (rule bind_mono [OF assms(1)])
  show "mono_option (\<lambda>f. case r of Inl e \<Rightarrow> Some (Inl e) | Inr x \<Rightarrow> G x f)" for r
    using assms(2) by (cases r) (auto intro: partial_function_mono)
qed

lemma bindP_Inr: "bindP m f = Some (Inr y) \<longleftrightarrow> (\<exists>x. m = Some (Inr x) \<and> f x = Some (Inr y))"
  by (cases m) (auto simp: bindP_def split: sum.splits)

lemma bindP_None: "bindP m f = None \<longleftrightarrow> m = None \<or> (\<exists>x. m = Some (Inr x) \<and> f x = None)"
  by (cases m) (auto simp: bindP_def split: sum.splits)

lemma bindP_E: "bindP m f = Some (Inr y) \<Longrightarrow> (\<And>x. m = Some (Inr x) \<Longrightarrow> f x = Some (Inr y) \<Longrightarrow> P) \<Longrightarrow> P"
  by (auto simp: bindP_Inr)

section \<open>The state\<close>

text \<open>A peer, as far as invalid blocks are held against it.\<close>

record CNodeState =
  nMisbehavior :: int
  fShouldBan :: bool
  rejects :: "(nat \<times> string \<times> base_uint) list"

record 'w chain_state =
  idx :: index_state
  chainActive :: vchain
  setBlockIndexCandidates :: "ptr list"
  mapBlocksUnlinked :: "(ptr option \<times> ptr) list"
  nBlockSequenceId :: u32
  pindexBestInvalid :: "ptr option"
  pindexBestForkTip :: "ptr option"
  pindexBestForkBase :: "ptr option"
  fLargeWorkForkFound :: bool
  fLargeWorkInvalidChainFound :: bool
  lockIBDState :: bool
  mapBlockSource :: "base_uint \<rightharpoonup> int"
  mapNodeState :: "int \<rightharpoonup> CNodeState"
  world :: 'w

text \<open>
  What the operations read besides the state: parameters, options, the clock and the order in
  which the unordered map of blocks is walked.
\<close>

record chain_env =
  ce_params :: CChainParams
  ce_GetHash :: "CBlockHeader \<Rightarrow> base_uint"
  ce_fImporting :: bool
  ce_fReindex :: bool
  ce_fEnabled :: bool
  ce_checkpoints :: MapCheckpoints
  ce_GetTime :: int
  ce_banscore :: int
  ce_order :: "BlockMap \<Rightarrow> base_uint list"

abbreviation nodes :: "('w, 'a) chain_state_scheme \<Rightarrow> block_store" where "nodes s \<equiv> entries (idx s)"

definition deref :: "('w, 'a) chain_state_scheme \<Rightarrow> ptr option \<Rightarrow> fault + CBlockIndex" where
  "deref s p = (case Option.bind p (nodes s) of None \<Rightarrow> Inl NullRead | Some b \<Rightarrow> Inr (blk b))"

definition set_status :: "ptr \<Rightarrow> (u32 \<Rightarrow> u32) \<Rightarrow> block_store \<Rightarrow> block_store" where
  "set_status p f st = (case st p of None \<Rightarrow> st | Some b \<Rightarrow> st(p \<mapsto> b\<lparr>blk := (blk b)\<lparr>nStatus := f (nStatus (blk b))\<rparr>\<rparr>))"

definition upd_status :: "ptr \<Rightarrow> (u32 \<Rightarrow> u32) \<Rightarrow> bool \<Rightarrow> 'w chain_state \<Rightarrow> 'w chain_state" where
  "upd_status p f dirty s =
     s\<lparr>idx := (idx s)\<lparr>entries := set_status p f (nodes s),
        setDirtyBlockIndex := (if dirty then insert p (setDirtyBlockIndex (idx s)) else setDirtyBlockIndex (idx s))\<rparr>\<rparr>"

definition chain_tip :: "vchain \<Rightarrow> ptr option" where
  "chain_tip vChain = (if vChain = [] then None else vChain ! (length vChain - 1))"

definition BLOCK_FAILED_VALID :: u32 where "BLOCK_FAILED_VALID = 32"
definition BLOCK_FAILED_CHILD :: u32 where "BLOCK_FAILED_CHILD = 64"
definition BLOCK_VALID_TRANSACTIONS :: u32 where "BLOCK_VALID_TRANSACTIONS = 3"

definition has_failed :: "CBlockIndex \<Rightarrow> bool" where "has_failed b \<longleftrightarrow> nStatus b AND BLOCK_FAILED_MASK \<noteq> 0"
definition has_data :: "CBlockIndex \<Rightarrow> bool" where "has_data b \<longleftrightarrow> nStatus b AND BLOCK_HAVE_DATA \<noteq> 0"

section \<open>The candidate set\<close>

text \<open>
  \<^verbatim>\<open>CBlockIndexWorkComparator\<close>: more work comes later, then the entry received
  earlier, then the smaller address. Elements are equivalent when neither comes first.
\<close>

definition work_less :: "ptr \<Rightarrow> CBlockIndex \<Rightarrow> ptr \<Rightarrow> CBlockIndex \<Rightarrow> bool" where
  "work_less pa a pb b =
     (if uint256_lt (nChainWork b) (nChainWork a) then False
      else if uint256_lt (nChainWork a) (nChainWork b) then True
      else if nSequenceId a < nSequenceId b then False
      else if nSequenceId b < nSequenceId a then True
      else if pa < pb then False
      else if pb < pa then True
      else False)"

definition CBlockIndexWorkComparator :: "block_store \<Rightarrow> ptr \<Rightarrow> ptr \<Rightarrow> fault + bool" where
  "CBlockIndexWorkComparator st pa pb =
     (case (st pa, st pb) of (Some a, Some b) \<Rightarrow> Inr (work_less pa (blk a) pb (blk b)) | _ \<Rightarrow> Inl NullRead)"

fun cand_insert :: "block_store \<Rightarrow> ptr \<Rightarrow> ptr list \<Rightarrow> fault + ptr list" where
  "cand_insert st p [] = Inr [p]"
| "cand_insert st p (q # qs) =
     bindE (CBlockIndexWorkComparator st p q) (\<lambda>lt.
       if lt then Inr (p # q # qs)
       else bindE (CBlockIndexWorkComparator st q p) (\<lambda>gt.
         if gt then bindE (cand_insert st p qs) (\<lambda>r. Inr (q # r)) else Inr (q # qs)))"

fun cand_erase :: "block_store \<Rightarrow> ptr \<Rightarrow> ptr list \<Rightarrow> fault + ptr list" where
  "cand_erase st p [] = Inr []"
| "cand_erase st p (q # qs) =
     bindE (CBlockIndexWorkComparator st q p) (\<lambda>lt.
       if lt then bindE (cand_erase st p qs) (\<lambda>r. Inr (q # r))
       else bindE (CBlockIndexWorkComparator st p q) (\<lambda>gt. if gt then Inr (q # qs) else Inr qs))"

definition insert_candidate :: "ptr \<Rightarrow> 'w chain_state \<Rightarrow> fault + 'w chain_state" where
  "insert_candidate p s = bindE (cand_insert (nodes s) p (setBlockIndexCandidates s)) (\<lambda>c. Inr (s\<lparr>setBlockIndexCandidates := c\<rparr>))"

definition erase_candidate :: "ptr \<Rightarrow> 'w chain_state \<Rightarrow> fault + 'w chain_state" where
  "erase_candidate p s = bindE (cand_erase (nodes s) p (setBlockIndexCandidates s)) (\<lambda>c. Inr (s\<lparr>setBlockIndexCandidates := c\<rparr>))"

text \<open>\<^verbatim>\<open>value_comp()(p, chainActive.Tip())\<close> and the converse.\<close>

definition below_tip :: "'w chain_state \<Rightarrow> ptr \<Rightarrow> fault + bool" where
  "below_tip s p = (case chain_tip (chainActive s) of None \<Rightarrow> Inl NullRead | Some t \<Rightarrow> CBlockIndexWorkComparator (nodes s) p t)"

definition above_tip :: "'w chain_state \<Rightarrow> ptr \<Rightarrow> fault + bool" where
  "above_tip s p = (case chain_tip (chainActive s) of None \<Rightarrow> Inl NullRead | Some t \<Rightarrow> CBlockIndexWorkComparator (nodes s) t p)"

section \<open>Warnings and invalid chains\<close>

definition IsInitialBlockDownload :: "chain_env \<Rightarrow> 'w chain_state \<Rightarrow> fault + bool \<times> 'w chain_state" where
  "IsInitialBlockDownload env s =
     (if ce_fImporting env \<or> ce_fReindex env
         \<or> Height (chainActive s) < GetTotalBlocksEstimate (ce_fEnabled env) (ce_checkpoints env) then Inr (True, s)
      else if lockIBDState s then Inr (False, s)
      else bindE (deref s (pindexBestHeader (idx s))) (\<lambda>best.
        let state = (Height (chainActive s) < nHeight best - 24 * 6 \<or> GetBlockTime best < ce_GetTime env - 6 * 60 * 60)
        in Inr (state, if \<not> state then s\<lparr>lockIBDState := True\<rparr> else s)))"

text \<open>The condition on the best invalid chain is read only when there is no known fork.\<close>

definition invalid_chain_longer :: "'w chain_state \<Rightarrow> fault + bool" where
  "invalid_chain_longer s =
     (if pindexBestInvalid s = None then Inr False
      else bindE (deref s (pindexBestInvalid s)) (\<lambda>inval. bindE (deref s (chain_tip (chainActive s))) (\<lambda>t.
           bindE (lift_uint (GetBlockProof (nBits t))) (\<lambda>proof.
             Inr (uint256_lt (add (nChainWork t) (mul32 proof 6)) (nChainWork inval))))))"

definition drop_old_fork :: "'w chain_state \<Rightarrow> fault + 'w chain_state" where
  "drop_old_fork s =
     (if pindexBestForkTip s = None then Inr s
      else bindE (deref s (pindexBestForkTip s)) (\<lambda>fork.
        Inr (if 72 \<le> Height (chainActive s) - nHeight fork then s\<lparr>pindexBestForkTip := None\<rparr> else s)))"

definition set_warnings :: "bool \<Rightarrow> 'w chain_state \<Rightarrow> fault + 'w chain_state" where
  "set_warnings warn s =
     (if \<not> warn then Inr (s\<lparr>fLargeWorkForkFound := False, fLargeWorkInvalidChainFound := False\<rparr>)
      else if pindexBestForkTip s \<noteq> None \<and> pindexBestForkBase s \<noteq> None
      then bindE (deref s (pindexBestForkBase s)) (\<lambda>base.
           if phashBlock base = None then Inr s
           else bindE (deref s (pindexBestForkTip s)) (\<lambda>fork.
                if phashBlock fork = None then Inl NullRead else Inr (s\<lparr>fLargeWorkForkFound := True\<rparr>)))
      else Inr (s\<lparr>fLargeWorkInvalidChainFound := True\<rparr>))"

definition CheckForkWarningConditions :: "chain_env \<Rightarrow> 'w chain_state \<Rightarrow> fault + 'w chain_state" where
  "CheckForkWarningConditions env s =
     bindE (IsInitialBlockDownload env s) (\<lambda>(ibd, s).
       if ibd then Inr s
       else bindE (drop_old_fork s) (\<lambda>s.
            bindE (if pindexBestForkTip s \<noteq> None then Inr True else invalid_chain_longer s) (\<lambda>warn. set_warnings warn s)))"

text \<open>The walk to the last block of the active chain below a fork.\<close>

partial_function (option) longer_loop :: "block_store \<Rightarrow> int \<Rightarrow> ptr option \<Rightarrow> (ptr option) outcome" where
  "longer_loop st h plonger =
     (case plonger of
        None \<Rightarrow> Some (Inr None)
      | Some q \<Rightarrow> (case st q of
          None \<Rightarrow> Some (Inl NullRead)
        | Some b \<Rightarrow> if h < nHeight (blk b) then longer_loop st h (pprev b) else Some (Inr plonger)))"

partial_function (option) pfork_loop :: "block_store \<Rightarrow> ptr option \<Rightarrow> ptr option \<Rightarrow> (ptr option) outcome" where
  "pfork_loop st pfork plonger =
     (case pfork of
        None \<Rightarrow> Some (Inr None)
      | Some p \<Rightarrow>
          if pfork = plonger then Some (Inr pfork)
          else (case st p of
            None \<Rightarrow> Some (Inl NullRead)
          | Some b \<Rightarrow> bindP (longer_loop st (nHeight (blk b)) plonger) (\<lambda>plonger.
              if pfork = plonger then Some (Inr pfork) else pfork_loop st (pprev b) plonger)))"

definition note_new_fork :: "ptr \<Rightarrow> ptr option \<Rightarrow> 'w chain_state \<Rightarrow> fault + 'w chain_state" where
  "note_new_fork pindexNewForkTip pfork s =
     (if pfork = None then Inr s
      else bindE (deref s pfork) (\<lambda>base. bindE (deref s (Some pindexNewForkTip)) (\<lambda>new.
           bindE (if pindexBestForkTip s = None then Inr True
                  else bindE (deref s (pindexBestForkTip s)) (\<lambda>old. Inr (nHeight old < nHeight new))) (\<lambda>higher.
           bindE (lift_uint (GetBlockProof (nBits base))) (\<lambda>proof.
             Inr (if higher \<and> uint256_lt (mul32 proof 7) (sub (nChainWork new) (nChainWork base))
                     \<and> Height (chainActive s) - nHeight new < 72
                  then s\<lparr>pindexBestForkTip := Some pindexNewForkTip, pindexBestForkBase := pfork\<rparr> else s))))))"

definition CheckForkWarningConditionsOnNewFork :: "chain_env \<Rightarrow> ptr \<Rightarrow> 'w chain_state \<Rightarrow> 'w chain_state outcome" where
  "CheckForkWarningConditionsOnNewFork env pindexNewForkTip s =
     bindP (pfork_loop (nodes s) (Some pindexNewForkTip) (chain_tip (chainActive s))) (\<lambda>pfork.
       Some (bindE (note_new_fork pindexNewForkTip pfork s) (CheckForkWarningConditions env)))"

text \<open>\<^verbatim>\<open>pindexBestInvalid\<close> moves to a failed block with more work.\<close>

definition raise_best_invalid :: "ptr \<Rightarrow> 'w chain_state \<Rightarrow> fault + 'w chain_state" where
  "raise_best_invalid pindexNew s =
     bindE (if pindexBestInvalid s = None then Inr True
            else bindE (deref s (Some pindexNew)) (\<lambda>new. bindE (deref s (pindexBestInvalid s)) (\<lambda>old.
                   Inr (uint256_lt (nChainWork old) (nChainWork new)))))
       (\<lambda>better. Inr (if better then s\<lparr>pindexBestInvalid := Some pindexNew\<rparr> else s))"

text \<open>The log lines read the hash of the block and the tip.\<close>

definition InvalidChainFound :: "chain_env \<Rightarrow> ptr \<Rightarrow> 'w chain_state \<Rightarrow> fault + 'w chain_state" where
  "InvalidChainFound env pindexNew s =
     bindE (raise_best_invalid pindexNew s) (\<lambda>s.
     bindE (deref s (Some pindexNew)) (\<lambda>new. bindE (deref s (chain_tip (chainActive s))) (\<lambda>t.
       if phashBlock new = None \<or> phashBlock t = None then Inl NullRead else CheckForkWarningConditions env s)))"

definition Misbehaving :: "chain_env \<Rightarrow> int \<Rightarrow> int \<Rightarrow> 'w chain_state \<Rightarrow> 'w chain_state" where
  "Misbehaving env pnode howmuch s =
     (if howmuch = 0 then s
      else case mapNodeState s pnode of
        None \<Rightarrow> s
      | Some peer \<Rightarrow>
          let n = nMisbehavior peer + howmuch;
              peer = peer\<lparr>nMisbehavior := n\<rparr>
          in s\<lparr>mapNodeState := (mapNodeState s)(pnode \<mapsto>
               if ce_banscore env \<le> n \<and> n - howmuch < ce_banscore env then peer\<lparr>fShouldBan := True\<rparr> else peer)\<rparr>)"

definition MAX_REJECT_MESSAGE_LENGTH :: nat where "MAX_REJECT_MESSAGE_LENGTH = 111"

definition punish_source :: "chain_env \<Rightarrow> base_uint \<Rightarrow> CValidationState \<Rightarrow> 'w chain_state \<Rightarrow> 'w chain_state" where
  "punish_source env hash st s =
     (case mapBlockSource s hash of
        None \<Rightarrow> s
      | Some pnode \<Rightarrow> (case mapNodeState s pnode of
          None \<Rightarrow> s
        | Some peer \<Rightarrow>
            let s = s\<lparr>mapNodeState := (mapNodeState s)(pnode \<mapsto>
                       peer\<lparr>rejects := rejects peer @ [(chRejectCode st, take MAX_REJECT_MESSAGE_LENGTH (strRejectReason st), hash)]\<rparr>)\<rparr>
            in if 0 < vs_nDoS st then Misbehaving env pnode (int (vs_nDoS st)) s else s))"

definition InvalidBlockFound :: "chain_env \<Rightarrow> ptr \<Rightarrow> CValidationState \<Rightarrow> 'w chain_state \<Rightarrow> fault + 'w chain_state" where
  "InvalidBlockFound env p st s =
     bindE (deref s (Some p)) (\<lambda>b.
     bindE (if vs_mode st = MODE_INVALID
            then (case phashBlock b of None \<Rightarrow> Inl NullRead | Some hash \<Rightarrow> Inr (punish_source env hash st s)) else Inr s) (\<lambda>s.
       if corruptionPossible st then Inr s
       else bindE (erase_candidate p (upd_status p (\<lambda>x. x OR BLOCK_FAILED_VALID) True s)) (InvalidChainFound env p)))"

section \<open>The best candidate\<close>

text \<open>
  The first block on the way from a candidate to the active chain that is failed or has no data,
  and whether it is failed.
\<close>

partial_function (option) find_unusable :: "block_store \<Rightarrow> vchain \<Rightarrow> ptr option \<Rightarrow> ((ptr \<times> bool) option) outcome" where
  "find_unusable st vChain pindexTest =
     (case pindexTest of
        None \<Rightarrow> Some (Inr None)
      | Some p \<Rightarrow> (case st p of
          None \<Rightarrow> Some (Inl NullRead)
        | Some b \<Rightarrow>
            if at_height vChain (nHeight (blk b)) = Some p then Some (Inr None)
            else if nChainTx (blk b) = 0 \<and> nHeight (blk b) \<noteq> 0 then Some (Inl AssertFalse)
            else if has_failed (blk b) \<or> \<not> has_data (blk b) then Some (Inr (Some (p, has_failed (blk b))))
            else find_unusable st vChain (pprev b)))"

text \<open>Removing the blocks from \<open>pindexFailed\<close> down to \<open>pindexTest\<close>.\<close>

definition remove_failed_step :: "bool \<Rightarrow> ptr \<Rightarrow> CBlockNode \<Rightarrow> 'w chain_state \<Rightarrow> fault + 'w chain_state" where
  "remove_failed_step fFailedChain p b s =
     erase_candidate p
       (if fFailedChain then upd_status p (\<lambda>x. x OR BLOCK_FAILED_CHILD) False s
        else s\<lparr>mapBlocksUnlinked := mapBlocksUnlinked s @ [(pprev b, p)]\<rparr>)"

partial_function (option) remove_failed_loop :: "bool \<Rightarrow> ptr \<Rightarrow> ptr option \<Rightarrow> 'w chain_state \<Rightarrow> ('w chain_state) outcome" where
  "remove_failed_loop fFailedChain pindexTest pindexFailed s =
     (if pindexFailed = Some pindexTest then Some (Inr s)
      else case pindexFailed of
        None \<Rightarrow> Some (Inl NullRead)
      | Some p \<Rightarrow> (case nodes s p of
          None \<Rightarrow> Some (Inl NullRead)
        | Some b \<Rightarrow> bindP (Some (remove_failed_step fFailedChain p b s))
                      (remove_failed_loop fFailedChain pindexTest (pprev b))))"

definition note_best_invalid :: "bool \<Rightarrow> ptr \<Rightarrow> 'w chain_state \<Rightarrow> fault + 'w chain_state" where
  "note_best_invalid fFailedChain pindexNew s =
     (if fFailedChain then raise_best_invalid pindexNew s else Inr s)"

partial_function (option) FindMostWorkChain :: "'w chain_state \<Rightarrow> (ptr option \<times> 'w chain_state) outcome" where
  "FindMostWorkChain s =
     (if setBlockIndexCandidates s = [] then Some (Inr (None, s))
      else let pindexNew = last (setBlockIndexCandidates s)
           in bindP (find_unusable (nodes s) (chainActive s) (Some pindexNew)) (\<lambda>r.
                case r of
                  None \<Rightarrow> Some (Inr (Some pindexNew, s))
                | Some (pindexTest, fFailedChain) \<Rightarrow>
                    bindP (Some (note_best_invalid fFailedChain pindexNew s)) (\<lambda>s.
                    bindP (remove_failed_loop fFailedChain pindexTest (Some pindexNew) s) (\<lambda>s.
                    bindP (Some (erase_candidate pindexTest s)) FindMostWorkChain))))"

fun prune_candidates :: "'w chain_state \<Rightarrow> ptr list \<Rightarrow> fault + ptr list" where
  "prune_candidates s [] = Inr []"
| "prune_candidates s (p # ps) = bindE (below_tip s p) (\<lambda>lt. if lt then prune_candidates s ps else Inr (p # ps))"

definition PruneBlockIndexCandidates :: "'w chain_state \<Rightarrow> fault + 'w chain_state" where
  "PruneBlockIndexCandidates s =
     bindE (prune_candidates s (setBlockIndexCandidates s)) (\<lambda>c.
       if c = [] then Inl AssertFalse else Inr (s\<lparr>setBlockIndexCandidates := c\<rparr>))"

section \<open>The operations on the tip\<close>

text \<open>
  \<^verbatim>\<open>DisconnectTip\<close>, \<^verbatim>\<open>ConnectTip\<close> and the periodic
  \<^verbatim>\<open>FlushStateToDisk\<close>: the Boolean result with the validation state, and the new state.
\<close>

type_synonym 'w tip_result = "((bool \<times> CValidationState) \<times> 'w chain_state) outcome"

record 'w tip_ops =
  op_DisconnectTip :: "CValidationState \<Rightarrow> 'w chain_state \<Rightarrow> 'w tip_result"
  op_ConnectTip :: "CValidationState \<Rightarrow> ptr \<Rightarrow> CBlock option \<Rightarrow> bool \<Rightarrow> 'w chain_state \<Rightarrow> 'w tip_result"
  op_FlushPeriodic :: "CValidationState \<Rightarrow> 'w chain_state \<Rightarrow> 'w tip_result"

section \<open>One step towards the best chain\<close>

partial_function (option) disconnect_to :: "'w tip_ops \<Rightarrow> ptr option \<Rightarrow> CValidationState \<Rightarrow> 'w chain_state \<Rightarrow> 'w tip_result" where
  "disconnect_to ops pindexFork st s =
     (if chain_tip (chainActive s) \<noteq> None \<and> chain_tip (chainActive s) \<noteq> pindexFork
      then bindP (op_DisconnectTip ops st s) (\<lambda>((ok, st), s).
             if ok then disconnect_to ops pindexFork st s else Some (Inr ((False, st), s)))
      else Some (Inr ((True, st), s)))"

text \<open>The blocks above height \<open>h\<close> down from \<open>pindexIter\<close>, the highest first.\<close>

partial_function (option) collect_path :: "block_store \<Rightarrow> int \<Rightarrow> ptr option \<Rightarrow> (ptr list) outcome" where
  "collect_path st h pindexIter =
     (case pindexIter of
        None \<Rightarrow> Some (Inr [])
      | Some p \<Rightarrow> (case st p of
          None \<Rightarrow> Some (Inl NullRead)
        | Some b \<Rightarrow> if nHeight (blk b) = h then Some (Inr [])
                    else bindP (collect_path st h (pprev b)) (\<lambda>ps. Some (Inr (p # ps)))))"

text \<open>
  How connecting a list of blocks ends: all connected, the tip is better than the old one, a
  block is invalid (with the lowest block of the list), or a system error.
\<close>

datatype connect_status = All_connected | Better_tip | Invalid_found ptr | System_error

definition tip_better :: "'w chain_state \<Rightarrow> ptr option \<Rightarrow> fault + bool" where
  "tip_better s pindexOldTip =
     (if pindexOldTip = None then Inr True
      else bindE (deref s (chain_tip (chainActive s))) (\<lambda>t. bindE (deref s pindexOldTip) (\<lambda>old.
             Inr (uint256_lt (nChainWork old) (nChainWork t)))))"

fun connect_each :: "chain_env \<Rightarrow> 'w tip_ops \<Rightarrow> ptr \<Rightarrow> CBlock option \<Rightarrow> bool \<Rightarrow> ptr option \<Rightarrow> ptr \<Rightarrow> ptr list \<Rightarrow> CValidationState
    \<Rightarrow> 'w chain_state \<Rightarrow> ((connect_status \<times> CValidationState) \<times> 'w chain_state) outcome" where
  "connect_each env ops pindexMostWork pblock fAlreadyChecked pindexOldTip plowest [] st s = Some (Inr ((All_connected, st), s))"
| "connect_each env ops pindexMostWork pblock fAlreadyChecked pindexOldTip plowest (p # ps) st s =
     bindP (op_ConnectTip ops st p (if p = pindexMostWork then pblock else None) fAlreadyChecked s) (\<lambda>((ok, st), s).
       if \<not> ok
       then (if vs_mode st = MODE_INVALID
             then bindP (Some (if corruptionPossible st then Inr s else InvalidChainFound env plowest s)) (\<lambda>s.
                    Some (Inr ((Invalid_found plowest, state_valid), s)))
             else Some (Inr ((System_error, st), s)))
       else bindP (Some (PruneBlockIndexCandidates s)) (\<lambda>s.
            bindP (Some (tip_better s pindexOldTip)) (\<lambda>better.
              if better then Some (Inr ((Better_tip, st), s))
              else connect_each env ops pindexMostWork pblock fAlreadyChecked pindexOldTip plowest ps st s)))"

partial_function (option) connect_chunks :: "chain_env \<Rightarrow> 'w tip_ops \<Rightarrow> ptr \<Rightarrow> CBlock option \<Rightarrow> bool \<Rightarrow> ptr option \<Rightarrow> int \<Rightarrow> CValidationState
    \<Rightarrow> 'w chain_state \<Rightarrow> ((connect_status \<times> CValidationState) \<times> 'w chain_state) outcome" where
  "connect_chunks env ops pindexMostWork pblock fAlreadyChecked pindexOldTip h st s =
     (case nodes s pindexMostWork of
        None \<Rightarrow> Some (Inl NullRead)
      | Some m \<Rightarrow>
          if h = nHeight (blk m) then Some (Inr ((All_connected, st), s))
          else let nTargetHeight = min (h + 32) (nHeight (blk m))
               in bindP (Some (GetAncestor (nodes s) pindexMostWork nTargetHeight)) (\<lambda>pindexIter.
                  bindP (collect_path (nodes s) h pindexIter) (\<lambda>vpindexToConnect.
                  bindP (connect_each env ops pindexMostWork pblock fAlreadyChecked pindexOldTip
                           (last vpindexToConnect) (rev vpindexToConnect) st s) (\<lambda>((status, st), s).
                    if status = All_connected
                    then connect_chunks env ops pindexMostWork pblock fAlreadyChecked pindexOldTip nTargetHeight st s
                    else Some (Inr ((status, st), s))))))"

definition ActivateBestChainStep :: "chain_env \<Rightarrow> 'w tip_ops \<Rightarrow> CValidationState \<Rightarrow> ptr \<Rightarrow> CBlock option \<Rightarrow> bool \<Rightarrow> 'w chain_state \<Rightarrow> 'w tip_result" where
  "ActivateBestChainStep env ops st pindexMostWork pblock fAlreadyChecked s =
     (let fAlreadyChecked = (pblock \<noteq> None \<and> fAlreadyChecked);
          pindexOldTip = chain_tip (chainActive s)
      in bindP (FindFork (nodes s) (chainActive s) pindexMostWork) (\<lambda>pindexFork.
         bindP (disconnect_to ops pindexFork st s) (\<lambda>((ok, st), s).
           if \<not> ok then Some (Inr ((False, st), s))
           else bindP (Some (if pindexFork = None then Inr (- 1) else bindE (deref s pindexFork) (\<lambda>b. Inr (nHeight b)))) (\<lambda>h.
                bindP (connect_chunks env ops pindexMostWork pblock fAlreadyChecked pindexOldTip h st s) (\<lambda>((status, st), s).
                  case status of
                    System_error \<Rightarrow> Some (Inr ((False, st), s))
                  | Invalid_found plowest \<Rightarrow>
                      bindP (CheckForkWarningConditionsOnNewFork env plowest s) (\<lambda>s. Some (Inr ((True, st), s)))
                  | _ \<Rightarrow> bindP (Some (CheckForkWarningConditions env s)) (\<lambda>s. Some (Inr ((True, st), s))))))))"

text \<open>
  \<^verbatim>\<open>ActivateBestChain\<close>. The announcements between two rounds read nothing back, and
  the consistency check is off outside of regression tests. \<open>None\<close> is the loop that does not
  end.
\<close>

partial_function (option) activate_loop :: "chain_env \<Rightarrow> 'w tip_ops \<Rightarrow> CBlock option \<Rightarrow> bool \<Rightarrow> CValidationState \<Rightarrow> 'w chain_state
    \<Rightarrow> ((bool option \<times> CValidationState) \<times> 'w chain_state) outcome" where
  "activate_loop env ops pblock fAlreadyChecked st s =
     bindP (FindMostWorkChain s) (\<lambda>(pindexMostWork, s).
       case pindexMostWork of
         None \<Rightarrow> Some (Inr ((Some True, st), s))
       | Some m \<Rightarrow>
           if chain_tip (chainActive s) = Some m then Some (Inr ((Some True, st), s))
           else bindP (Some (deref s (Some m))) (\<lambda>b.
                bindP (case pblock of
                    None \<Rightarrow> Some (Inr None)
                  | Some block \<Rightarrow> (case phashBlock b of
                      None \<Rightarrow> Some (Inl NullRead)
                    | Some hash \<Rightarrow> Some (Inr (if ce_GetHash env (block_header block) = hash then pblock else None)))) (\<lambda>pb.
                bindP (ActivateBestChainStep env ops st m pb fAlreadyChecked s) (\<lambda>((ok, st), s).
                  if \<not> ok then Some (Inr ((Some False, st), s))
                  else bindP (Some (IsInitialBlockDownload env s)) (\<lambda>(ibd, s).
                    if chain_tip (chainActive s) \<noteq> Some m then activate_loop env ops pblock fAlreadyChecked st s
                    else Some (Inr ((None, st), s)))))))"

definition ActivateBestChain :: "chain_env \<Rightarrow> 'w tip_ops \<Rightarrow> CValidationState \<Rightarrow> CBlock option \<Rightarrow> bool \<Rightarrow> 'w chain_state \<Rightarrow> 'w tip_result" where
  "ActivateBestChain env ops st pblock fAlreadyChecked s =
     bindP (activate_loop env ops pblock fAlreadyChecked st s) (\<lambda>((early, st), s).
       case early of
         Some r \<Rightarrow> Some (Inr ((r, st), s))
       | None \<Rightarrow> bindP (op_FlushPeriodic ops st s) (\<lambda>((ok, st), s). Some (Inr ((ok, st), s))))"

section \<open>Marking blocks by hand\<close>

partial_function (option) invalidate_loop :: "'w tip_ops \<Rightarrow> ptr \<Rightarrow> CValidationState \<Rightarrow> 'w chain_state \<Rightarrow> 'w tip_result" where
  "invalidate_loop ops pindex st s =
     bindP (Some (Contains (nodes s) (chainActive s) pindex)) (\<lambda>c.
       if \<not> c then Some (Inr ((True, st), s))
       else case chain_tip (chainActive s) of
         None \<Rightarrow> Some (Inl NullRead)
       | Some t \<Rightarrow>
           bindP (Some (erase_candidate t (upd_status t (\<lambda>x. x OR BLOCK_FAILED_CHILD) True s))) (\<lambda>s.
           bindP (op_DisconnectTip ops st s) (\<lambda>((ok, st), s).
             if ok then invalidate_loop ops pindex st s else Some (Inr ((False, st), s)))))"

text \<open>A block that may be tried again: valid with all its transactions, and not below the tip.\<close>

definition is_valid_tx :: "CBlockIndex \<Rightarrow> fault + bool" where
  "is_valid_tx b = (case IsValid b BLOCK_VALID_TRANSACTIONS of None \<Rightarrow> Inl AssertFalse | Some v \<Rightarrow> Inr v)"

fun readd_candidates :: "'w chain_state \<Rightarrow> base_uint list \<Rightarrow> fault + 'w chain_state" where
  "readd_candidates s [] = Inr s"
| "readd_candidates s (h # hs) =
     (case mapBlockIndex (idx s) h of
        None \<Rightarrow> readd_candidates s hs
      | Some p \<Rightarrow> bindE (deref s (Some p)) (\<lambda>b. bindE (is_valid_tx b) (\<lambda>v.
          bindE (if v \<and> nChainTx b \<noteq> 0 then bindE (below_tip s p) (\<lambda>lt. Inr (\<not> lt)) else Inr False) (\<lambda>add_it.
          bindE (if add_it then insert_candidate p s else Inr s) (\<lambda>s. readd_candidates s hs)))))"

definition InvalidateBlock :: "chain_env \<Rightarrow> 'w tip_ops \<Rightarrow> CValidationState \<Rightarrow> ptr \<Rightarrow> 'w chain_state \<Rightarrow> 'w tip_result" where
  "InvalidateBlock env ops st pindex s =
     (if nodes s pindex = None then Some (Inl NullRead)
      else bindP (Some (erase_candidate pindex (upd_status pindex (\<lambda>x. x OR BLOCK_FAILED_VALID) True s))) (\<lambda>s.
           bindP (invalidate_loop ops pindex st s) (\<lambda>((ok, st), s).
             if \<not> ok then Some (Inr ((False, st), s))
             else bindP (Some (readd_candidates s (ce_order env (mapBlockIndex (idx s))))) (\<lambda>s.
                  bindP (Some (InvalidChainFound env pindex s)) (\<lambda>s. Some (Inr ((True, st), s)))))))"

fun reconsider_each :: "int \<Rightarrow> ptr \<Rightarrow> 'w chain_state \<Rightarrow> base_uint list \<Rightarrow> fault + 'w chain_state" where
  "reconsider_each h pindex s [] = Inr s"
| "reconsider_each h pindex s (hash # hs) =
     (case mapBlockIndex (idx s) hash of
        None \<Rightarrow> reconsider_each h pindex s hs
      | Some p \<Rightarrow> bindE (deref s (Some p)) (\<lambda>b. bindE (is_valid_tx b) (\<lambda>v.
          bindE (if v then Inr False else bindE (GetAncestor (nodes s) p h) (\<lambda>a. Inr (a = Some pindex))) (\<lambda>clear.
            if \<not> clear then reconsider_each h pindex s hs
            else let s = upd_status p (\<lambda>x. x AND NOT BLOCK_FAILED_MASK) True s
                 in bindE (deref s (Some p)) (\<lambda>b. bindE (is_valid_tx b) (\<lambda>v.
                    bindE (if v \<and> nChainTx b \<noteq> 0 then above_tip s p else Inr False) (\<lambda>add_it.
                    bindE (if add_it then insert_candidate p s else Inr s) (\<lambda>s.
                      reconsider_each h pindex (if pindexBestInvalid s = Some p then s\<lparr>pindexBestInvalid := None\<rparr> else s) hs))))))))"

partial_function (option) reconsider_ancestors :: "ptr option \<Rightarrow> 'w chain_state \<Rightarrow> ('w chain_state) outcome" where
  "reconsider_ancestors pindex s =
     (case pindex of
        None \<Rightarrow> Some (Inr s)
      | Some p \<Rightarrow> (case nodes s p of
          None \<Rightarrow> Some (Inl NullRead)
        | Some b \<Rightarrow> reconsider_ancestors (pprev b)
            (if has_failed (blk b) then upd_status p (\<lambda>x. x AND NOT BLOCK_FAILED_MASK) True s else s)))"

definition ReconsiderBlock :: "chain_env \<Rightarrow> ptr \<Rightarrow> 'w chain_state \<Rightarrow> ('w chain_state) outcome" where
  "ReconsiderBlock env pindex s =
     bindP (Some (deref s (Some pindex))) (\<lambda>b.
     bindP (Some (reconsider_each (nHeight b) pindex s (ce_order env (mapBlockIndex (idx s))))) (reconsider_ancestors (Some pindex)))"

section \<open>The order of the candidates\<close>

definition works_ok :: "block_store \<Rightarrow> bool" where
  "works_ok st \<longleftrightarrow> (\<forall>p b. st p = Some b \<longrightarrow> is_uint256 (nChainWork (blk b)))"

text \<open>The comparator on entries of the index.\<close>

definition wl :: "block_store \<Rightarrow> ptr \<Rightarrow> ptr \<Rightarrow> bool" where
  "wl st p q = work_less p (blk (the (st p))) q (blk (the (st q)))"

definition work :: "block_store \<Rightarrow> ptr \<Rightarrow> nat" where "work st p = uval (nChainWork (blk (the (st p))))"
definition seq_id :: "block_store \<Rightarrow> ptr \<Rightarrow> nat" where "seq_id st p = unat (nSequenceId (blk (the (st p))))"

lemma wl_iff:
  assumes "works_ok st" and "p \<in> dom st" and "q \<in> dom st"
  shows "wl st p q \<longleftrightarrow> work st p < work st q
    \<or> work st p = work st q \<and> (seq_id st q < seq_id st p \<or> seq_id st p = seq_id st q \<and> q < p)"
proof -
  have "is_uint256 (nChainWork (blk (the (st p))))" "is_uint256 (nChainWork (blk (the (st q))))"
    using assms by (auto simp: works_ok_def)
  then show ?thesis
    by (auto simp: wl_def work_less_def work_def seq_id_def uint256_lt_iff word_less_nat_alt)
qed

lemma wl_irrefl: "works_ok st \<Longrightarrow> p \<in> dom st \<Longrightarrow> \<not> wl st p p"
  by (simp add: wl_iff)

lemma wl_trans:
  "works_ok st \<Longrightarrow> p \<in> dom st \<Longrightarrow> q \<in> dom st \<Longrightarrow> r \<in> dom st \<Longrightarrow> wl st p q \<Longrightarrow> wl st q r \<Longrightarrow> wl st p r"
  by (auto simp: wl_iff)

lemma wl_linear: "works_ok st \<Longrightarrow> p \<in> dom st \<Longrightarrow> q \<in> dom st \<Longrightarrow> p \<noteq> q \<Longrightarrow> \<not> wl st p q \<Longrightarrow> wl st q p"
  by (auto simp: wl_iff)

lemma comparator_wl: "p \<in> dom st \<Longrightarrow> q \<in> dom st \<Longrightarrow> CBlockIndexWorkComparator st p q = Inr (wl st p q)"
  by (auto simp: CBlockIndexWorkComparator_def wl_def)

text \<open>A set with the comparator: entries of the index in strictly increasing order.\<close>

definition cand_ok :: "block_store \<Rightarrow> ptr list \<Rightarrow> bool" where
  "cand_ok st ps \<longleftrightarrow> set ps \<subseteq> dom st \<and> sorted_wrt (wl st) ps"

lemma cand_ok_simps: "cand_ok st []" "cand_ok st (p # ps) \<longleftrightarrow> p \<in> dom st \<and> cand_ok st ps \<and> (\<forall>q\<in>set ps. wl st p q)"
  by (auto simp: cand_ok_def)

lemma cand_ok_distinct: "works_ok st \<Longrightarrow> cand_ok st ps \<Longrightarrow> distinct ps"
proof (induction ps)
  case (Cons p ps)
  then show ?case using wl_irrefl [OF Cons.prems(1), of p] by (auto simp: cand_ok_simps)
qed simp

lemma cand_ok_filter: "cand_ok st ps \<Longrightarrow> cand_ok st (filter P ps)"
  by (induction ps) (auto simp: cand_ok_simps)

lemma cand_insert_ok:
  assumes "works_ok st" and "p \<in> dom st"
  shows "cand_ok st ps \<Longrightarrow> \<exists>r. cand_insert st p ps = Inr r \<and> cand_ok st r \<and> set r = insert p (set ps)"
proof (induction ps)
  case (Cons q ps)
  then have q: "q \<in> dom st" "cand_ok st ps" "\<forall>r\<in>set ps. wl st q r" "set ps \<subseteq> dom st"
    by (auto simp: cand_ok_def)
  obtain r where r: "cand_insert st p ps = Inr r" "cand_ok st r" "set r = insert p (set ps)" using Cons.IH q(2) by blast
  show ?case
  proof (cases "wl st p q")
    case True
    then have "\<forall>r\<in>set ps. wl st p r" using wl_trans [OF assms(1)] assms(2) q by blast
    then show ?thesis using True q assms comparator_wl [OF assms(2) q(1)] by (auto simp: cand_ok_simps bindE_def)
  next
    case False
    show ?thesis
    proof (cases "wl st q p")
      case True
      then show ?thesis using False q r assms comparator_wl [OF assms(2) q(1)] comparator_wl [OF q(1) assms(2)]
        by (auto simp: cand_ok_simps bindE_def)
    next
      case eq: False
      then have "p = q" using wl_linear [OF assms(1)] assms(2) q(1) False by blast
      then show ?thesis using False eq q comparator_wl [OF q(1) q(1)] by (auto simp: cand_ok_simps bindE_def)
    qed
  qed
qed (use assms(2) in \<open>auto simp: cand_ok_simps\<close>)

lemma cand_erase_filter:
  assumes "works_ok st" and "p \<in> dom st"
  shows "cand_ok st ps \<Longrightarrow> cand_erase st p ps = Inr (filter (\<lambda>q. q \<noteq> p) ps)"
proof (induction ps)
  case (Cons q ps)
  then have q: "q \<in> dom st" "cand_ok st ps" "\<forall>r\<in>set ps. wl st q r" "set ps \<subseteq> dom st"
    by (auto simp: cand_ok_def)
  note c = comparator_wl [OF assms(2) q(1)] comparator_wl [OF q(1) assms(2)]
  consider "wl st q p" | "\<not> wl st q p" "wl st p q" | "p = q" using wl_linear [OF assms(1)] assms(2) q(1) by blast
  then show ?case
  proof cases
    case 1
    then have "q \<noteq> p" using wl_irrefl [OF assms] by auto
    then show ?thesis using 1 c Cons.IH q(2) by (simp add: bindE_def)
  next
    case 2
    then have n: "q \<noteq> p" using wl_irrefl [OF assms] by auto
    have "r \<noteq> p" if "r \<in> set ps" for r using wl_trans [OF assms(1), of p q r] that 2 q assms wl_irrefl [OF assms] by blast
    then have "filter (\<lambda>q. q \<noteq> p) ps = ps" by (intro filter_True) blast
    then show ?thesis using 2 c n by (simp add: bindE_def)
  next
    case 3
    then have "r \<noteq> p" if "r \<in> set ps" for r using that q(3) wl_irrefl [OF assms] by blast
    then have "filter (\<lambda>q. q \<noteq> p) ps = ps" by (intro filter_True) blast
    then show ?thesis using 3 c wl_irrefl [OF assms] by (simp add: bindE_def)
  qed
qed simp

section \<open>Stores with the same tree\<close>

text \<open>What the status and the results of validation leave alone.\<close>

definition same_block :: "CBlockNode \<Rightarrow> CBlockNode \<Rightarrow> bool" where
  "same_block b c \<longleftrightarrow> pprev c = pprev b \<and> pskip c = pskip b \<and> nHeight (blk c) = nHeight (blk b)
     \<and> phashBlock (blk c) = phashBlock (blk b) \<and> nChainWork (blk c) = nChainWork (blk b)
     \<and> nSequenceId (blk c) = nSequenceId (blk b) \<and> nChainTx (blk c) = nChainTx (blk b)
     \<and> nBits (blk c) = nBits (blk b) \<and> nFlags (blk c) = nFlags (blk b)"

definition same_tree :: "block_store \<Rightarrow> block_store \<Rightarrow> bool" where
  "same_tree st st' \<longleftrightarrow> (\<forall>p. rel_option same_block (st p) (st' p))"

lemma same_block_refl [simp]: "same_block b b"
  by (simp add: same_block_def)

lemma same_tree_refl [simp]: "same_tree st st"
  by (auto simp: same_tree_def option.rel_refl)

lemma same_tree_trans:
  assumes "same_tree a b" and "same_tree b c"
  shows "same_tree a c"
proof -
  have "transp same_block" by (simp add: transp_def same_block_def)
  then have "transp (rel_option same_block)" by (rule option.rel_transp)
  then show ?thesis using assms unfolding same_tree_def by (meson transpD)
qed

lemma same_treeD: "same_tree st st' \<Longrightarrow> st p = Some b \<Longrightarrow> \<exists>c. st' p = Some c \<and> same_block b c"
  unfolding same_tree_def by (metis option_rel_Some1)

lemma same_treeD': "same_tree st st' \<Longrightarrow> st' p = Some c \<Longrightarrow> \<exists>b. st p = Some b \<and> same_block b c"
  unfolding same_tree_def by (metis option_rel_Some2)

lemma same_tree_None: "same_tree st st' \<Longrightarrow> st' p = None \<longleftrightarrow> st p = None"
  unfolding same_tree_def by (metis rel_option_None1 rel_option_None2)

lemma same_tree_dom: "same_tree st st' \<Longrightarrow> dom st' = dom st"
  using same_tree_None by (auto simp: dom_def)

lemma same_tree_upd: "st p = Some b \<Longrightarrow> same_block b c \<Longrightarrow> same_tree st (st(p \<mapsto> c))"
  by (auto simp: same_tree_def option.rel_refl)

lemma same_tree_up: "same_tree st st' \<Longrightarrow> up st' n p = up st n p"
proof (induction n arbitrary: p)
  case (Suc n)
  show ?case
  proof (cases "st p")
    case None
    then have "st' p = None" using same_tree_None [OF Suc.prems] by blast
    then show ?thesis using None by simp
  next
    case (Some b)
    then obtain c where "st' p = Some c" "pprev c = pprev b" using same_treeD [OF Suc.prems] by (auto simp: same_block_def)
    then show ?thesis using Some Suc by (auto split: option.splits)
  qed
qed simp

lemma same_tree_path: "same_tree st st' \<Longrightarrow> path st' p h = path st p h"
  by (simp add: path_def same_tree_up)

lemma same_tree_wf:
  assumes "same_tree st st'" and "wf_store st"
  shows "wf_store st'"
proof -
  have "wf_node st' p c" if "st' p = Some c" for p c
  proof -
    obtain b where b: "st p = Some b" "same_block b c" using same_treeD' [OF assms(1) \<open>st' p = Some c\<close>] by blast
    have "\<exists>d'. st' q = Some d' \<and> nHeight (blk d') = nHeight (blk d)" if "st q = Some d" for q d
      using same_treeD [OF assms(1) that] by (auto simp: same_block_def)
    then show ?thesis using wf_storeD [OF assms(2) b(1)] b(2) same_tree_up [OF assms(1)]
      by (force simp: wf_node_def same_block_def split: option.splits)
  qed
  then show ?thesis by (simp add: wf_store_def)
qed

lemma same_tree_chain_ok: "same_tree st st' \<Longrightarrow> chain_ok st v \<Longrightarrow> chain_ok st' v"
  unfolding chain_ok_def using same_treeD [of st st'] by (fastforce simp: same_block_def same_tree_path)

lemma same_tree_works: "same_tree st st' \<Longrightarrow> works_ok st \<Longrightarrow> works_ok st'"
  using same_treeD' [of st st'] by (fastforce simp: works_ok_def same_block_def)

lemma same_tree_wl: "same_tree st st' \<Longrightarrow> p \<in> dom st \<Longrightarrow> q \<in> dom st \<Longrightarrow> wl st' p q = wl st p q"
  using same_treeD [of st st' p] same_treeD [of st st' q] by (auto simp: wl_def work_less_def same_block_def)

lemma same_tree_work: "same_tree st st' \<Longrightarrow> p \<in> dom st \<Longrightarrow> work st' p = work st p"
  using same_treeD [of st st' p] by (auto simp: work_def same_block_def)

lemma same_tree_cand:
  assumes "same_tree st st'" and "cand_ok st ps"
  shows "cand_ok st' ps"
proof -
  have "set ps \<subseteq> dom st \<Longrightarrow> sorted_wrt (wl st) ps \<Longrightarrow> sorted_wrt (wl st') ps"
  proof (induction ps)
    case (Cons p ps)
    then have "wl st' p q = wl st p q" if "q \<in> set ps" for q using that by (intro same_tree_wl [OF assms(1)]) auto
    then show ?case using Cons by simp
  qed simp
  then show ?thesis using assms(2) by (simp add: cand_ok_def same_tree_dom [OF assms(1)])
qed

text \<open>Every block of the way back has its transactions counted.\<close>

definition txs_ok :: "block_store \<Rightarrow> ptr \<Rightarrow> bool" where
  "txs_ok st p \<longleftrightarrow> (\<forall>n q c. up st n p = Some q \<longrightarrow> st q = Some c \<longrightarrow> nChainTx (blk c) \<noteq> 0 \<or> nHeight (blk c) = 0)"

lemma same_tree_txs: "same_tree st st' \<Longrightarrow> txs_ok st p \<Longrightarrow> txs_ok st' p"
  unfolding txs_ok_def using same_treeD' [of st st'] by (fastforce simp: same_block_def same_tree_up)

lemma txs_ok_up: "txs_ok st p \<Longrightarrow> up st n p = Some q \<Longrightarrow> txs_ok st q"
  unfolding txs_ok_def by (metis up_add bind.bind_lunit)

text \<open>The invariant of the block tree under the active chain and the candidates.\<close>

definition tree_ok :: "('w, 'a) chain_state_scheme \<Rightarrow> bool" where
  "tree_ok s \<longleftrightarrow> wf_store (nodes s) \<and> works_ok (nodes s) \<and> finite (dom (nodes s))
     \<and> chain_ok (nodes s) (chainActive s) \<and> cand_ok (nodes s) (setBlockIndexCandidates s)
     \<and> (\<forall>p\<in>set (setBlockIndexCandidates s). txs_ok (nodes s) p)"

lemma tree_ok_same:
  assumes "tree_ok s" and "same_tree (nodes s) (nodes s')" and "chain_ok (nodes s) (chainActive s')"
    and "setBlockIndexCandidates s' = filter P (setBlockIndexCandidates s)"
  shows "tree_ok s'"
proof -
  have t: "wf_store (nodes s)" "works_ok (nodes s)" "finite (dom (nodes s))" "cand_ok (nodes s) (setBlockIndexCandidates s)"
      "\<forall>p\<in>set (setBlockIndexCandidates s). txs_ok (nodes s) p"
    using assms(1) by (simp_all add: tree_ok_def)
  show ?thesis
    unfolding tree_ok_def assms(4)
    using same_tree_wf [OF assms(2) t(1)] same_tree_works [OF assms(2) t(2)] t(3) same_tree_dom [OF assms(2)]
      same_tree_chain_ok [OF assms(2,3)] same_tree_cand [OF assms(2) cand_ok_filter [OF t(4)]] same_tree_txs [OF assms(2)] t(5)
    by auto
qed

section \<open>Usable candidates\<close>

definition on_chain :: "block_store \<Rightarrow> vchain \<Rightarrow> ptr \<Rightarrow> bool" where
  "on_chain st vChain p \<longleftrightarrow> (\<exists>b. st p = Some b \<and> at_height vChain (nHeight (blk b)) = Some p)"

definition failed :: "block_store \<Rightarrow> ptr \<Rightarrow> bool" where
  "failed st p \<longleftrightarrow> (\<exists>b. st p = Some b \<and> has_failed (blk b))"

definition no_data :: "block_store \<Rightarrow> ptr \<Rightarrow> bool" where
  "no_data st p \<longleftrightarrow> (\<exists>b. st p = Some b \<and> \<not> has_data (blk b))"

text \<open>The \<open>n\<close>-th block back is failed or has no data, and the active chain is not reached before.\<close>

definition bad_at :: "block_store \<Rightarrow> vchain \<Rightarrow> ptr \<Rightarrow> nat \<Rightarrow> ptr \<Rightarrow> bool" where
  "bad_at st vChain p n t \<longleftrightarrow> up st n p = Some t \<and> (failed st t \<or> no_data st t)
     \<and> (\<forall>k\<le>n. \<forall>q. up st k p = Some q \<longrightarrow> \<not> on_chain st vChain q)"

definition usable :: "block_store \<Rightarrow> vchain \<Rightarrow> ptr \<Rightarrow> bool" where
  "usable st vChain p \<longleftrightarrow> \<not> (\<exists>n t. bad_at st vChain p n t)"

lemma bad_at_0: "bad_at st v p 0 t \<longleftrightarrow> t = p \<and> (failed st p \<or> no_data st p) \<and> \<not> on_chain st v p"
  by (auto simp: bad_at_def)

lemma bad_at_Suc:
  assumes "st p = Some b"
  shows "bad_at st v p (Suc n) t \<longleftrightarrow> \<not> on_chain st v p \<and> (\<exists>q. pprev b = Some q \<and> bad_at st v q n t)"
proof -
  have "(\<forall>k\<le>Suc n. \<forall>r. up st k p = Some r \<longrightarrow> \<not> on_chain st v r)
      \<longleftrightarrow> \<not> on_chain st v p \<and> (\<forall>k\<le>n. \<forall>r. up st (Suc k) p = Some r \<longrightarrow> \<not> on_chain st v r)"
    by (auto simp: All_less_Suc2 less_Suc_eq_le [symmetric] simp del: up.simps(2))
  then show ?thesis using assms by (auto simp: bad_at_def split: option.splits)
qed

lemma usable_step:
  assumes "st p = Some b"
  shows "usable st v p \<longleftrightarrow> on_chain st v p \<or> \<not> failed st p \<and> \<not> no_data st p \<and> (\<forall>q. pprev b = Some q \<longrightarrow> usable st v q)"
proof -
  have "(\<exists>n t. bad_at st v p n t) \<longleftrightarrow> (\<exists>t. bad_at st v p 0 t) \<or> (\<exists>n t. bad_at st v p (Suc n) t)"
    by (metis not0_implies_Suc)
  then show ?thesis by (auto simp: usable_def bad_at_0 bad_at_Suc [of st p b v, OF assms])
qed

lemma on_chain_same: "same_tree st st' \<Longrightarrow> on_chain st' v p \<longleftrightarrow> on_chain st v p"
  using same_treeD [of st st' p] same_treeD' [of st st' p] by (fastforce simp: on_chain_def same_block_def)

lemma find_unusable_spec:
  assumes "wf_store st"
  shows "st p = Some b \<Longrightarrow> txs_ok st p \<Longrightarrow>
    (usable st v p \<and> find_unusable st v (Some p) = Some (Inr None))
    \<or> (\<exists>n t. bad_at st v p n t \<and> find_unusable st v (Some p) = Some (Inr (Some (t, failed st t))))"
proof (induction "hgt b" arbitrary: p b rule: less_induct)
  case less
  have tx: "nChainTx (blk b) \<noteq> 0 \<or> nHeight (blk b) = 0" using less.prems by (simp add: txs_ok_def) (metis up.simps(1))
  have f: "failed st p \<longleftrightarrow> has_failed (blk b)" "no_data st p \<longleftrightarrow> \<not> has_data (blk b)"
      "on_chain st v p \<longleftrightarrow> at_height v (nHeight (blk b)) = Some p"
    using less.prems(1) by (auto simp: failed_def no_data_def on_chain_def)
  consider "on_chain st v p" | "\<not> on_chain st v p" "failed st p \<or> no_data st p" | "\<not> on_chain st v p" "\<not> failed st p" "\<not> no_data st p"
    by blast
  then show ?case
  proof cases
    case 1
    then have "usable st v p" using usable_step [of st p] less.prems(1) by blast
    then show ?thesis using 1 less.prems(1) f by (simp add: find_unusable.simps)
  next
    case 2
    then have "find_unusable st v (Some p) = Some (Inr (Some (p, failed st p)))"
      using less.prems(1) f tx by (simp add: find_unusable.simps)
    moreover have "bad_at st v p 0 p" using 2 by (simp add: bad_at_0)
    ultimately show ?thesis by blast
  next
    case 3
    then have e: "find_unusable st v (Some p) = find_unusable st v (pprev b)"
      using less.prems(1) f tx by (subst find_unusable.simps) auto
    have u: "usable st v p \<longleftrightarrow> (\<forall>q. pprev b = Some q \<longrightarrow> usable st v q)" using 3 usable_step [of st p b, OF less.prems(1)] by blast
    show ?thesis
    proof (cases "pprev b")
      case None
      then show ?thesis using u e by (simp add: find_unusable.simps)
    next
      case (Some q)
      obtain c where c: "st q = Some c" "nHeight (blk b) = nHeight (blk c) + 1"
        using wf_storeD [OF assms less.prems(1)] Some by (auto simp: wf_node_def)
      then have h: "hgt c < hgt b" using wf_storeD [OF assms c(1)] by (simp add: wf_node_def)
      have "up st 1 p = Some q" using less.prems(1) Some by simp
      then have "txs_ok st q" using txs_ok_up [OF less.prems(2)] by blast
      then consider "usable st v q" "find_unusable st v (Some q) = Some (Inr None)"
        | n t where "bad_at st v q n t" "find_unusable st v (Some q) = Some (Inr (Some (t, failed st t)))"
        using less.hyps [OF h c(1)] by blast
      then show ?thesis
      proof cases
        case 1
        then show ?thesis using u e Some by simp
      next
        case (2 n t)
        then have "bad_at st v p (Suc n) t" using 3(1) Some bad_at_Suc [of st p b, OF less.prems(1)] by blast
        then show ?thesis using 2 e Some by metis
      qed
    qed
  qed
qed

text \<open>Marking blocks that are already unusable changes the usability of none.\<close>

lemma up_add_Some: "up st m p = Some q \<Longrightarrow> up st (m + n) p = up st n q"
  by (simp add: up_add)

lemma usable_marks:
  assumes "same_tree st st'" and "\<And>q. failed st q \<Longrightarrow> failed st' q" and "\<And>q. no_data st' q \<longleftrightarrow> no_data st q"
    and "\<And>q. failed st' q \<Longrightarrow> \<not> failed st q \<Longrightarrow> \<not> usable st v q"
  shows "usable st' v p \<longleftrightarrow> usable st v p"
proof
  assume u: "usable st' v p"
  show "usable st v p" unfolding usable_def
  proof
    assume "\<exists>n t. bad_at st v p n t"
    then obtain n t where "bad_at st v p n t" by blast
    then have "bad_at st' v p n t"
      using assms(2,3) by (auto simp: bad_at_def same_tree_up [OF assms(1)] on_chain_same [OF assms(1)])
    then show False using u unfolding usable_def by blast
  qed
next
  assume u: "usable st v p"
  show "usable st' v p" unfolding usable_def
  proof
    assume "\<exists>n t. bad_at st' v p n t"
    then obtain n t where b: "bad_at st' v p n t" by blast
    then have path: "up st n p = Some t" "\<forall>k\<le>n. \<forall>q. up st k p = Some q \<longrightarrow> \<not> on_chain st v q" "failed st' t \<or> no_data st t"
      using assms(3) by (auto simp: bad_at_def same_tree_up [OF assms(1)] on_chain_same [OF assms(1)])
    show False
    proof (cases "failed st t \<or> no_data st t")
      case True
      then have "bad_at st v p n t" using path by (simp add: bad_at_def)
      then show False using u unfolding usable_def by blast
    next
      case False
      then have "\<not> usable st v t" using path(3) assms(4) by blast
      then obtain m r where r: "bad_at st v t m r" unfolding usable_def by blast
      have "\<not> on_chain st v q" if "k \<le> n + m" "up st k p = Some q" for k q
      proof (cases "k \<le> n")
        case True
        then show ?thesis using path(2) that(2) by blast
      next
        case False
        then have "k = n + (k - n)" by simp
        then have "up st (k - n) t = Some q" using up_add_Some [OF path(1), of "k - n"] that(2) by metis
        moreover have "k - n \<le> m" using that(1) by simp
        ultimately show ?thesis using r unfolding bad_at_def by blast
      qed
      moreover have "up st (n + m) p = Some r" using r up_add_Some [OF path(1)] by (simp add: bad_at_def)
      ultimately have "bad_at st v p (n + m) r" using r by (auto simp: bad_at_def)
      then show False using u unfolding usable_def by blast
    qed
  qed
qed

text \<open>Every block between a candidate and the block that makes it unusable is unusable.\<close>

lemma bad_at_between:
  assumes "bad_at st v p n t" and "i \<le> n" and "up st i p = Some q"
  shows "\<not> usable st v q"
proof -
  have "n = i + (n - i)" using assms(2) by simp
  then have "up st (n - i) q = Some t" using assms(1) up_add_Some [OF assms(3), of "n - i"] unfolding bad_at_def by metis
  moreover have "\<not> on_chain st v r" if "k \<le> n - i" "up st k q = Some r" for k r
  proof -
    have "i + k \<le> n" "up st (i + k) p = Some r" using that assms(2) up_add_Some [OF assms(3), of k] by simp_all
    then show ?thesis using assms(1) unfolding bad_at_def by blast
  qed
  ultimately have "bad_at st v q (n - i) t" using assms(1) unfolding bad_at_def by blast
  then show ?thesis unfolding usable_def by blast
qed

section \<open>Flags\<close>

lemma has_failed_bits: "has_failed b \<longleftrightarrow> bit (nStatus b) 5 \<or> bit (nStatus b) 6"
proof -
  have e: "(32 :: u32) = push_bit 5 1" "(64 :: u32) = push_bit 6 1" by simp_all
  have "nStatus b AND BLOCK_FAILED_MASK = nStatus b AND push_bit 5 1 OR nStatus b AND push_bit 6 1"
    unfolding BLOCK_FAILED_MASK_def e by (rule bit.conj_disj_distrib)
  moreover have "x OR y = 0 \<longleftrightarrow> x = 0 \<and> y = 0" for x y :: u32 by (metis or_eq_0_iff)
  ultimately show ?thesis unfolding has_failed_def by (simp only: bit_iff_and_push_bit_not_eq_0) simp
qed

lemma has_data_bit: "has_data b \<longleftrightarrow> bit (nStatus b) 3"
proof -
  have "BLOCK_HAVE_DATA = push_bit 3 1" by (simp add: BLOCK_HAVE_DATA_def)
  then show ?thesis unfolding has_data_def by (simp only: bit_iff_and_push_bit_not_eq_0)
qed

lemma bit_push_one: "k < 32 \<Longrightarrow> bit (push_bit k (1 :: u32)) n \<longleftrightarrow> n = k"
  unfolding bit_push_bit_iff by (auto simp: bit_1_iff)

lemma flag_bits:
  "bit BLOCK_FAILED_CHILD n \<longleftrightarrow> n = 6" "bit BLOCK_FAILED_VALID n \<longleftrightarrow> n = 5"
proof -
  have e: "BLOCK_FAILED_CHILD = push_bit 6 1" "BLOCK_FAILED_VALID = push_bit 5 1"
    by (simp_all add: BLOCK_FAILED_CHILD_def BLOCK_FAILED_VALID_def)
  show "bit BLOCK_FAILED_CHILD n \<longleftrightarrow> n = 6" "bit BLOCK_FAILED_VALID n \<longleftrightarrow> n = 5"
    unfolding e by (rule bit_push_one, simp)+
qed

lemma bit_FAILED_MASK: "bit BLOCK_FAILED_MASK n \<longleftrightarrow> n = 5 \<or> n = 6"
proof -
  have e: "(32 :: u32) = push_bit 5 1" "(64 :: u32) = push_bit 6 1" by simp_all
  show ?thesis unfolding BLOCK_FAILED_MASK_def e bit_or_iff by (subst (1 2) bit_push_one) simp_all
qed

text \<open>How the three changes of the status act on the flags.\<close>

definition flag_change :: "(u32 \<Rightarrow> u32) \<Rightarrow> bool \<Rightarrow> bool" where
  "flag_change f fail \<longleftrightarrow> (\<forall>x. (bit (f x) 5 \<or> bit (f x) 6 \<longleftrightarrow> fail) \<and> (bit (f x) 3 \<longleftrightarrow> bit x 3))"

lemma flag_changes:
  "flag_change (\<lambda>x. x OR BLOCK_FAILED_CHILD) True" "flag_change (\<lambda>x. x OR BLOCK_FAILED_VALID) True"
  "flag_change (\<lambda>x. x AND NOT BLOCK_FAILED_MASK) False"
  by (auto simp: flag_change_def bit_or_iff bit_and_iff bit_not_iff flag_bits bit_FAILED_MASK)

lemma set_status_same: "same_tree st (set_status p f st)"
  by (cases "st p") (auto simp: set_status_def same_block_def intro: same_tree_upd)

lemma set_status_flags:
  assumes "flag_change f fail"
  shows "failed (set_status p f st) q \<longleftrightarrow> (if q = p \<and> p \<in> dom st then fail else failed st q)"
    and "no_data (set_status p f st) q \<longleftrightarrow> no_data st q"
  using assms by (auto simp: set_status_def failed_def no_data_def has_failed_bits has_data_bit flag_change_def split: option.splits)

lemma upd_status_simps [simp]:
  "nodes (upd_status p f d s) = set_status p f (nodes s)" "chainActive (upd_status p f d s) = chainActive s"
  "setBlockIndexCandidates (upd_status p f d s) = setBlockIndexCandidates s" "world (upd_status p f d s) = world s"
  "mapBlockIndex (idx (upd_status p f d s)) = mapBlockIndex (idx s)" "mapBlocksUnlinked (upd_status p f d s) = mapBlocksUnlinked s"
  "pindexBestInvalid (upd_status p f d s) = pindexBestInvalid s"
  by (simp_all add: upd_status_def)

section \<open>What a search for the best chain may change\<close>

definition search_step :: "'w chain_state \<Rightarrow> 'w chain_state \<Rightarrow> bool" where
  "search_step s s' \<longleftrightarrow> same_tree (nodes s) (nodes s') \<and> chainActive s' = chainActive s \<and> world s' = world s
     \<and> mapBlockIndex (idx s') = mapBlockIndex (idx s)
     \<and> (\<forall>q. failed (nodes s) q \<longrightarrow> failed (nodes s') q)
     \<and> (\<forall>q. no_data (nodes s') q \<longleftrightarrow> no_data (nodes s) q)
     \<and> (\<forall>q. failed (nodes s') q \<longrightarrow> \<not> failed (nodes s) q \<longrightarrow> \<not> usable (nodes s) (chainActive s) q)
     \<and> (\<exists>P. setBlockIndexCandidates s' = filter P (setBlockIndexCandidates s)
          \<and> (\<forall>q\<in>set (setBlockIndexCandidates s). \<not> P q \<longrightarrow> \<not> usable (nodes s) (chainActive s) q))"

lemma search_step_usable: "search_step s s' \<Longrightarrow> usable (nodes s') (chainActive s') q \<longleftrightarrow> usable (nodes s) (chainActive s) q"
  unfolding search_step_def by (elim conjE) (simp add: usable_marks)

lemma search_step_tree_ok: "search_step s s' \<Longrightarrow> tree_ok s \<Longrightarrow> tree_ok s'"
  unfolding search_step_def by (elim conjE exE) (rule tree_ok_same, simp_all add: tree_ok_def)

lemma search_step_refl: "search_step s s"
  unfolding search_step_def by (auto intro!: exI [of _ "\<lambda>_. True"])

lemma search_step_trans:
  assumes "search_step a b" and "search_step b c"
  shows "search_step a c"
proof -
  have u: "usable (nodes b) (chainActive b) q \<longleftrightarrow> usable (nodes a) (chainActive a) q" for q by (rule search_step_usable [OF assms(1)])
  have ab: "same_tree (nodes a) (nodes b)" "chainActive b = chainActive a" "world b = world a"
      "mapBlockIndex (idx b) = mapBlockIndex (idx a)" "\<And>q. failed (nodes a) q \<Longrightarrow> failed (nodes b) q"
      "\<And>q. no_data (nodes b) q = no_data (nodes a) q"
      "\<And>q. failed (nodes b) q \<Longrightarrow> \<not> failed (nodes a) q \<Longrightarrow> \<not> usable (nodes a) (chainActive a) q"
    using assms(1) by (simp_all add: search_step_def)
  have bc: "same_tree (nodes b) (nodes c)" "chainActive c = chainActive b" "world c = world b"
      "mapBlockIndex (idx c) = mapBlockIndex (idx b)" "\<And>q. failed (nodes b) q \<Longrightarrow> failed (nodes c) q"
      "\<And>q. no_data (nodes c) q = no_data (nodes b) q"
      "\<And>q. failed (nodes c) q \<Longrightarrow> \<not> failed (nodes b) q \<Longrightarrow> \<not> usable (nodes b) (chainActive b) q"
    using assms(2) by (simp_all add: search_step_def)
  obtain P where P: "setBlockIndexCandidates b = filter P (setBlockIndexCandidates a)"
      "\<forall>q\<in>set (setBlockIndexCandidates a). \<not> P q \<longrightarrow> \<not> usable (nodes a) (chainActive a) q"
    using assms(1) unfolding search_step_def by blast
  obtain Q where Q: "setBlockIndexCandidates c = filter Q (setBlockIndexCandidates b)"
      "\<forall>q\<in>set (setBlockIndexCandidates b). \<not> Q q \<longrightarrow> \<not> usable (nodes b) (chainActive b) q"
    using assms(2) unfolding search_step_def by blast
  have "setBlockIndexCandidates c = filter (\<lambda>q. P q \<and> Q q) (setBlockIndexCandidates a)" using P(1) Q(1) by (simp add: conj_commute)
  moreover have "\<forall>q\<in>set (setBlockIndexCandidates a). \<not> (P q \<and> Q q) \<longrightarrow> \<not> usable (nodes a) (chainActive a) q"
    using P Q(2) u by auto
  ultimately have f: "\<exists>R. setBlockIndexCandidates c = filter R (setBlockIndexCandidates a)
          \<and> (\<forall>q\<in>set (setBlockIndexCandidates a). \<not> R q \<longrightarrow> \<not> usable (nodes a) (chainActive a) q)" by blast
  have "\<not> usable (nodes a) (chainActive a) q" if "failed (nodes c) q" "\<not> failed (nodes a) q" for q
    using ab(7) bc(7) that u by blast
  then show ?thesis unfolding search_step_def
    using f ab bc same_tree_trans [OF ab(1) bc(1)] by auto
qed

lemma erase_candidate_ok:
  assumes "tree_ok s" and "p \<in> dom (nodes s)"
  shows "erase_candidate p s = Inr (s\<lparr>setBlockIndexCandidates := filter (\<lambda>q. q \<noteq> p) (setBlockIndexCandidates s)\<rparr>)"
  using assms cand_erase_filter [of "nodes s" p "setBlockIndexCandidates s"] by (simp add: erase_candidate_def tree_ok_def bindE_def)

lemma search_step_erase:
  assumes "\<not> usable (nodes s) (chainActive s) p"
  shows "search_step s (s\<lparr>setBlockIndexCandidates := filter (\<lambda>q. q \<noteq> p) (setBlockIndexCandidates s)\<rparr>)"
  unfolding search_step_def using assms by (auto intro!: exI [of _ "\<lambda>q. q \<noteq> p"])

lemma search_step_mark:
  assumes "\<not> usable (nodes s) (chainActive s) p" and "flag_change f True"
  shows "search_step s (upd_status p f d s)"
  unfolding search_step_def using assms set_status_same [of "nodes s" p f]
  by (auto simp: set_status_flags [OF assms(2)] intro!: exI [of _ "\<lambda>_. True"] split: if_splits)

lemma search_step_frame:
  assumes "idx s' = idx s" and "chainActive s' = chainActive s" and "world s' = world s"
    and "setBlockIndexCandidates s' = setBlockIndexCandidates s"
  shows "search_step s s'"
  unfolding search_step_def using assms by (auto intro!: exI [of _ "\<lambda>_. True"])

lemma remove_failed_step_ok:
  assumes "tree_ok s" and "nodes s p = Some b" and "\<not> usable (nodes s) (chainActive s) p"
  shows "\<exists>s'. remove_failed_step fc p b s = Inr s' \<and> search_step s s' \<and> tree_ok s' \<and> p \<notin> set (setBlockIndexCandidates s')
    \<and> (pprev (the (nodes s' p)) = pprev b)"
proof -
  let ?s = "if fc then upd_status p (\<lambda>x. x OR BLOCK_FAILED_CHILD) False s
        else s\<lparr>mapBlocksUnlinked := mapBlocksUnlinked s @ [(pprev b, p)]\<rparr>"
  have m: "search_step s ?s" using search_step_mark [OF assms(3) flag_changes(1)] search_step_frame [of ?s s] by auto
  then have t: "tree_ok ?s" using search_step_tree_ok assms(1) by blast
  have "same_tree (nodes s) (nodes ?s)" using m by (simp add: search_step_def)
  then have d: "p \<in> dom (nodes ?s)" using assms(2) same_tree_dom by blast
  let ?e = "?s\<lparr>setBlockIndexCandidates := filter (\<lambda>q. q \<noteq> p) (setBlockIndexCandidates ?s)\<rparr>"
  have r: "remove_failed_step fc p b s = Inr ?e" using erase_candidate_ok [OF t d] by (simp add: remove_failed_step_def)
  have "\<not> usable (nodes ?s) (chainActive ?s) p" using search_step_usable [OF m] assms(3) by blast
  then have e: "search_step s ?e" using search_step_trans [OF m search_step_erase] by blast
  then have "same_tree (nodes s) (nodes ?e)" by (simp add: search_step_def)
  then obtain c where "nodes ?e p = Some c" "same_block b c" using same_treeD assms(2) by blast
  then have pp: "pprev (the (nodes ?e p)) = pprev b" by (simp add: same_block_def)
  have "p \<notin> set (setBlockIndexCandidates ?e)" by simp
  then show ?thesis using r e search_step_tree_ok [OF e assms(1)] pp by blast
qed

lemma remove_failed_loop_ok:
  "tree_ok s \<Longrightarrow> bad_at (nodes s) (chainActive s) p n t \<Longrightarrow>
    \<exists>s'. remove_failed_loop fc t (Some p) s = Some (Inr s') \<and> search_step s s'
      \<and> (p \<noteq> t \<longrightarrow> p \<notin> set (setBlockIndexCandidates s'))"
proof (induction n arbitrary: p s)
  case 0
  then show ?case using search_step_refl by (auto simp: bad_at_0 remove_failed_loop.simps)
next
  case (Suc n)
  show ?case
  proof (cases "p = t")
    case True
    then show ?thesis using search_step_refl by (auto simp: remove_failed_loop.simps)
  next
    case False
    obtain b q where b: "nodes s p = Some b" "pprev b = Some q" "up (nodes s) n q = Some t"
      using Suc.prems(2) by (auto simp: bad_at_def split: option.splits)
    have u: "\<not> usable (nodes s) (chainActive s) p" using Suc.prems(2) by (auto simp: usable_def)
    obtain s1 where s1: "remove_failed_step fc p b s = Inr s1" "search_step s s1" "tree_ok s1" "p \<notin> set (setBlockIndexCandidates s1)"
      using remove_failed_step_ok [OF Suc.prems(1) b(1) u] by blast
    have st: "same_tree (nodes s) (nodes s1)" "chainActive s1 = chainActive s" "\<And>q. failed (nodes s) q \<Longrightarrow> failed (nodes s1) q"
        "\<And>q. no_data (nodes s1) q = no_data (nodes s) q"
      using s1(2) by (simp_all add: search_step_def)
    have "bad_at (nodes s) (chainActive s) q n t" using Suc.prems(2) bad_at_Suc [of "nodes s" p b, OF b(1)] b(2) by simp
    then have "bad_at (nodes s1) (chainActive s1) q n t"
      using st by (auto simp: bad_at_def same_tree_up on_chain_same)
    then obtain s2 where s2: "remove_failed_loop fc t (Some q) s1 = Some (Inr s2)" "search_step s1 s2"
      using Suc.IH [OF s1(3)] by blast
    obtain P where "setBlockIndexCandidates s2 = filter P (setBlockIndexCandidates s1)" using s2(2) unfolding search_step_def by blast
    then have n: "p \<notin> set (setBlockIndexCandidates s2)" using s1(4) by simp
    have "remove_failed_loop fc t (Some p) s = Some (Inr s2)"
      using False b s1(1) s2(1) by (subst remove_failed_loop.simps) simp
    then show ?thesis using search_step_trans [OF s1(2) s2(2)] n by blast
  qed
qed

section \<open>The reference: the best usable candidate\<close>

definition best_candidate :: "'w chain_state \<Rightarrow> ptr option" where
  "best_candidate s =
     (let ps = filter (usable (nodes s) (chainActive s)) (setBlockIndexCandidates s) in if ps = [] then None else Some (last ps))"

lemma note_best_invalid_frame:
  assumes "note_best_invalid fc p s = Inr s'"
  shows "idx s' = idx s \<and> chainActive s' = chainActive s \<and> world s' = world s \<and> setBlockIndexCandidates s' = setBlockIndexCandidates s"
  using assms by (auto simp: note_best_invalid_def raise_best_invalid_def bindE_def split: if_splits sum.splits)

text \<open>The marker of the best invalid chain points into the index.\<close>

definition marker_ok :: "'w chain_state \<Rightarrow> bool" where
  "marker_ok s \<longleftrightarrow> (\<forall>p. pindexBestInvalid s = Some p \<longrightarrow> p \<in> dom (nodes s))"

lemma deref_Inr: "deref s q = Inr x \<longleftrightarrow> (\<exists>p b. q = Some p \<and> nodes s p = Some b \<and> x = blk b)"
  by (cases q) (auto simp: deref_def split: option.splits)

lemma note_best_invalid_ok:
  assumes "marker_ok s" and "p \<in> dom (nodes s)"
  shows "\<exists>s'. note_best_invalid fc p s = Inr s' \<and> search_step s s' \<and> marker_ok s'"
proof -
  obtain b where b: "nodes s p = Some b" using assms(2) by blast
  have "\<exists>x. deref s (pindexBestInvalid s) = Inr x" if "pindexBestInvalid s \<noteq> None"
    using that assms(1) by (auto simp: deref_Inr marker_ok_def)
  then obtain better where "(if pindexBestInvalid s = None then Inr True
                  else bindE (deref s (Some p)) (\<lambda>new. bindE (deref s (pindexBestInvalid s)) (\<lambda>old.
                         Inr (uint256_lt (nChainWork old) (nChainWork new))))) = Inr better"
    using b by (cases "pindexBestInvalid s") (auto simp: bindE_def deref_def)
  then have "note_best_invalid fc p s = Inr (if fc \<and> better then s\<lparr>pindexBestInvalid := Some p\<rparr> else s)"
    by (simp add: note_best_invalid_def raise_best_invalid_def bindE_def)
  moreover have "marker_ok (if fc \<and> better then s\<lparr>pindexBestInvalid := Some p\<rparr> else s)"
    using assms by (auto simp: marker_ok_def)
  ultimately obtain s' where s': "note_best_invalid fc p s = Inr s'" "marker_ok s'" by blast
  then show ?thesis using note_best_invalid_frame [OF s'(1)] search_step_frame by metis
qed

text \<open>Removing keeps the marker.\<close>

lemma remove_failed_step_marker:
  assumes "remove_failed_step fc p b s = Inr s'"
  shows "pindexBestInvalid s' = pindexBestInvalid s"
  using assms by (auto simp: remove_failed_step_def erase_candidate_def bindE_def split: sum.splits if_splits)

lemma remove_failed_loop_marker:
  "remove_failed_loop fc t p s = Some (Inr s') \<Longrightarrow> pindexBestInvalid s' = pindexBestInvalid s"
proof -
  have "\<forall>s'. r = Inr s' \<longrightarrow> pindexBestInvalid s' = pindexBestInvalid s" if "remove_failed_loop fc t p s = Some r" for r
    using that
  proof (rule remove_failed_loop.raw_induct [rotated])
    fix f :: "bool \<Rightarrow> ptr \<Rightarrow> ptr option \<Rightarrow> 'a chain_state \<Rightarrow> 'a chain_state outcome" and fc t p and s :: "'a chain_state" and y
    assume ih: "\<And>fc t p s y. f fc t p s = Some y \<Longrightarrow> \<forall>s'. y = Inr s' \<longrightarrow> pindexBestInvalid s' = pindexBestInvalid s"
      and b: "(if p = Some t then Some (Inr s) else case p of None \<Rightarrow> Some (Inl NullRead)
        | Some q \<Rightarrow> (case nodes s q of None \<Rightarrow> Some (Inl NullRead)
          | Some b \<Rightarrow> bindP (Some (remove_failed_step fc q b s)) (f fc t (pprev b)))) = Some y"
    show "\<forall>s'. y = Inr s' \<longrightarrow> pindexBestInvalid s' = pindexBestInvalid s"
    proof (intro allI impI)
      fix s' assume y: "y = Inr s'"
      show "pindexBestInvalid s' = pindexBestInvalid s"
      proof (cases "p = Some t")
        case True
        then show ?thesis using b y by simp
      next
        case False
        then obtain q b' s1 where "remove_failed_step fc q b' s = Inr s1" "f fc t (pprev b') s1 = Some (Inr s')"
          using b y by (auto simp: bindP_Inr split: option.splits)
        then show ?thesis using ih remove_failed_step_marker by metis
      qed
    qed
  qed
  then show "remove_failed_loop fc t p s = Some (Inr s') \<Longrightarrow> ?thesis" by blast
qed

lemma last_filter_last: "xs \<noteq> [] \<Longrightarrow> P (last xs) \<Longrightarrow> last (filter P xs) = last xs"
  by (induction xs rule: rev_induct) auto

lemma FindMostWorkChain_ok:
  "tree_ok s \<Longrightarrow> marker_ok s \<Longrightarrow> \<exists>s'. FindMostWorkChain s = Some (Inr (best_candidate s, s')) \<and> search_step s s' \<and> marker_ok s'
    \<and> (case best_candidate s of None \<Rightarrow> setBlockIndexCandidates s' = []
       | Some m \<Rightarrow> setBlockIndexCandidates s' \<noteq> [] \<and> last (setBlockIndexCandidates s') = m \<and> usable (nodes s) (chainActive s) m)"
proof (induction "length (setBlockIndexCandidates s)" arbitrary: s rule: less_induct)
  case less
  let ?cs = "setBlockIndexCandidates s" and ?u = "usable (nodes s) (chainActive s)"
  show ?case
  proof (cases "?cs = []")
    case True
    then show ?thesis using search_step_refl less.prems by (auto simp: FindMostWorkChain.simps best_candidate_def)
  next
    case False
    define p where "p = last ?cs"
    then have p: "p \<in> set ?cs" using False by simp
    then obtain b where b: "nodes s p = Some b" and tx: "txs_ok (nodes s) p"
      using less.prems(1) by (auto simp: tree_ok_def cand_ok_def)
    have wf: "wf_store (nodes s)" using less.prems(1) by (simp add: tree_ok_def)
    consider "?u p" "find_unusable (nodes s) (chainActive s) (Some p) = Some (Inr None)"
      | n t where "bad_at (nodes s) (chainActive s) p n t"
          "find_unusable (nodes s) (chainActive s) (Some p) = Some (Inr (Some (t, failed (nodes s) t)))"
      using find_unusable_spec [OF wf b tx] by blast
    then show ?thesis
    proof cases
      case 1
      have "last (filter ?u ?cs) = p" "filter ?u ?cs \<noteq> []"
        using 1(1) False p by (auto simp: p_def last_filter_last filter_empty_conv)
      then show ?thesis using 1 False search_step_refl less.prems(2)
        by (subst FindMostWorkChain.simps) (auto simp: best_candidate_def p_def [symmetric])
    next
      case (2 n t)
      have up: "\<not> ?u p" using 2(1) by (auto simp: usable_def)
      have ut: "\<not> ?u t" using bad_at_between [OF 2(1), of n t] 2(1) by (simp add: bad_at_def)
      have td: "t \<in> dom (nodes s)" using 2(1) by (auto simp: bad_at_def failed_def no_data_def)
      obtain s1 where s1: "note_best_invalid (failed (nodes s) t) p s = Inr s1" "search_step s s1" "marker_ok s1"
        using note_best_invalid_ok [OF less.prems(2)] b by blast
      note f1 = note_best_invalid_frame [OF s1(1)]
      have t1: "tree_ok s1" using search_step_tree_ok [OF s1(2) less.prems(1)] .
      have "bad_at (nodes s1) (chainActive s1) p n t" using 2(1) f1 by simp
      then obtain s2 where s2: "remove_failed_loop (failed (nodes s) t) t (Some p) s1 = Some (Inr s2)" "search_step s1 s2"
          "p \<noteq> t \<longrightarrow> p \<notin> set (setBlockIndexCandidates s2)"
        using remove_failed_loop_ok [OF t1] by blast
      have t2: "tree_ok s2" using search_step_tree_ok [OF s2(2) t1] .
      have s02: "search_step s s2" using search_step_trans [OF s1(2) s2(2)] .
      then have dom2: "dom (nodes s2) = dom (nodes s)" by (simp add: search_step_def same_tree_dom)
      define s3 where "s3 = s2\<lparr>setBlockIndexCandidates := filter (\<lambda>q. q \<noteq> t) (setBlockIndexCandidates s2)\<rparr>"
      have e3: "erase_candidate t s2 = Inr s3" using erase_candidate_ok [OF t2] td dom2 by (simp add: s3_def)
      have "\<not> usable (nodes s2) (chainActive s2) t" using search_step_usable [OF s02] ut by blast
      then have s03: "search_step s s3" using search_step_trans [OF s02 search_step_erase] unfolding s3_def by blast
      have t3: "tree_ok s3" using search_step_tree_ok [OF s03 less.prems(1)] .
      have m3: "marker_ok s3" using s1(3) remove_failed_loop_marker [OF s2(1)] dom2 f1
        by (simp add: marker_ok_def s3_def)
      have p3: "p \<notin> set (setBlockIndexCandidates s3)" using s2(3) by (auto simp: s3_def)
      obtain P where P: "setBlockIndexCandidates s3 = filter P ?cs" "\<forall>q\<in>set ?cs. \<not> P q \<longrightarrow> \<not> ?u q"
        using s03 unfolding search_step_def by blast
      have "length (setBlockIndexCandidates s3) < length ?cs" using p p3 P(1) by (auto intro: length_filter_less)
      then obtain s4 where s4: "FindMostWorkChain s3 = Some (Inr (best_candidate s3, s4))" "search_step s3 s4" "marker_ok s4"
          "case best_candidate s3 of None \<Rightarrow> setBlockIndexCandidates s4 = []
           | Some m \<Rightarrow> setBlockIndexCandidates s4 \<noteq> [] \<and> last (setBlockIndexCandidates s4) = m \<and> usable (nodes s3) (chainActive s3) m"
        using less.hyps [OF _ t3 m3] by blast
      have u3: "usable (nodes s3) (chainActive s3) = ?u" using search_step_usable [OF s03] by blast
      have "filter ?u (setBlockIndexCandidates s3) = filter ?u ?cs" using P by (auto simp: intro: filter_cong)
      then have "best_candidate s3 = best_candidate s" by (simp add: best_candidate_def u3)
      moreover have "FindMostWorkChain s = FindMostWorkChain s3"
        using False 2(2) s1(1) s2(1) e3 by (subst FindMostWorkChain.simps) (simp add: p_def [symmetric])
      ultimately show ?thesis using s4 search_step_trans [OF s03 s4(2)] u3 by (simp split: option.splits)
    qed
  qed
qed

section \<open>The search finds the best usable candidate\<close>

text \<open>The chain 0, 1, 4 is active; its rival 0, 1, 2, 3 has more work, and data for all its blocks.\<close>

definition ex_tree :: block_store where
  "ex_tree p = map_option (\<lambda>b. b\<lparr>blk := (blk b)\<lparr>nStatus := 11, nChainTx := 1, nSequenceId := 0,
     nChainWork := uint256_of_u64 (word_of_int (nHeight (blk b) + 1))\<rparr>\<rparr>) (ex_store p)"

definition ex_fork :: "'w \<Rightarrow> 'w chain_state" where
  "ex_fork w = \<lparr>idx = empty_index\<lparr>entries := ex_tree,
       mapBlockIndex := (\<lambda>h. find (\<lambda>p. h = uint256_of_u64 (word_of_nat p)) [0, 1, 2, 3, 4])\<rparr>,
     chainActive = [Some 0, Some 1, Some 4], setBlockIndexCandidates = [4, 3], mapBlocksUnlinked = [], nBlockSequenceId = 1,
     pindexBestInvalid = None, pindexBestForkTip = None, pindexBestForkBase = None, fLargeWorkForkFound = False,
     fLargeWorkInvalidChainFound = False, lockIBDState = False, mapBlockSource = Map.empty, mapNodeState = Map.empty, world = w\<rparr>"

lemma ex_tree_pprev: "ex_tree p = Some b \<longleftrightarrow> (\<exists>c. ex_store p = Some c \<and> b = c\<lparr>blk := (blk c)\<lparr>nStatus := 11, nChainTx := 1, nSequenceId := 0,
     nChainWork := uint256_of_u64 (word_of_int (nHeight (blk c) + 1))\<rparr>\<rparr>)"
  by (auto simp: ex_tree_def)

lemma ex_tree_up: "up ex_tree n p = up ex_store n p"
  by (induction n arbitrary: p) (auto simp: ex_tree_def split: option.splits)

lemma ex_tree_path: "path ex_tree p h = path ex_store p h"
  by (simp add: path_def ex_tree_up)

lemma ex_tree_wf: "wf_store ex_tree"
proof -
  have "wf_node ex_tree p b" if t: "ex_tree p = Some b" for p b
  proof -
    obtain c where c: "ex_store p = Some c" "b = c\<lparr>blk := (blk c)\<lparr>nStatus := 11, nChainTx := 1, nSequenceId := 0,
     nChainWork := uint256_of_u64 (word_of_int (nHeight (blk c) + 1))\<rparr>\<rparr>" using t by (auto simp: ex_tree_pprev)
    have "\<exists>d'. ex_tree q = Some d' \<and> nHeight (blk d') = nHeight (blk d)" if "ex_store q = Some d" for q d
      using that by (simp add: ex_tree_def)
    then show ?thesis using wf_storeD [OF ex_store_wf c(1)] unfolding c(2) wf_node_def ex_tree_up
      by (force split: option.splits)
  qed
  then show ?thesis by (simp add: wf_store_def)
qed

lemma ex_tree_dom: "dom ex_tree = {0, 1, 2, 3, 4}"
proof -
  have "dom ex_tree = dom ex_store" by (auto simp: ex_tree_def)
  then show ?thesis using ex_store_cases by (auto simp: dom_def)
qed

lemma ex_tree_works: "works_ok ex_tree"
  using is_uint256_simps(1) by (auto simp: works_ok_def ex_tree_def)

lemma ex_tree_txs: "txs_ok ex_tree p"
  by (auto simp: txs_ok_def ex_tree_def)

lemma ex_fork_simps [simp]: "nodes (ex_fork w) = ex_tree" "chainActive (ex_fork w) = [Some 0, Some 1, Some 4]"
    "setBlockIndexCandidates (ex_fork w) = [4, 3]" "world (ex_fork w) = w" "pindexBestInvalid (ex_fork w) = None"
  by (simp_all add: ex_fork_def)

lemma ex_fork_ok: "tree_ok (ex_fork w)" "marker_ok (ex_fork w)"
proof -
  have "chain_ok ex_tree (path ex_tree 4 2)"
    unfolding chain_ok_def by (intro disjI2 exI [of _ 4]) (simp add: ex_tree_def)
  then have "chain_ok ex_tree [Some 0, Some 1, Some 4]" by (simp add: ex_tree_path ex_path)
  moreover have "wl ex_tree 4 3"
    by (simp add: wl_iff [OF ex_tree_works] ex_tree_dom) (simp add: work_def ex_tree_def)
  ultimately show "tree_ok (ex_fork w)"
    using ex_tree_wf ex_tree_works ex_tree_txs by (simp add: tree_ok_def cand_ok_def ex_tree_dom)
  show "marker_ok (ex_fork w)" by (simp add: marker_ok_def)
qed

lemma ex_tree_flags: "failed ex_tree p = False" "no_data ex_tree p = False"
  by (auto simp: failed_def no_data_def has_failed_bits has_data_bit ex_tree_def)

text \<open>
  C4. \<^verbatim>\<open>FindMostWorkChain\<close> against its purpose: on a well-formed tree the loop over the
  candidates ends without a fault and finds the last candidate, in the order of the comparator, that
  has no failed block and no block without data between it and the active chain, or none when no
  candidate is like that. It leaves the tree and the active chain as they are, and it marks, or takes
  out of the candidates, only blocks that are not usable.
\<close>

theorem FindMostWorkChain_best:
  assumes "tree_ok s" and "marker_ok s"
  shows "\<exists>s'. FindMostWorkChain s = Some (Inr (best_candidate s, s')) \<and> same_tree (nodes s) (nodes s')
    \<and> chainActive s' = chainActive s \<and> world s' = world s
    \<and> (\<forall>q. failed (nodes s') q \<longrightarrow> \<not> failed (nodes s) q \<longrightarrow> \<not> usable (nodes s) (chainActive s) q)
    \<and> (\<forall>q\<in>set (setBlockIndexCandidates s). usable (nodes s) (chainActive s) q \<longrightarrow> q \<in> set (setBlockIndexCandidates s'))"
  using FindMostWorkChain_ok [OF assms] unfolding search_step_def by auto

theorem FindMostWorkChain_best_witness: "\<exists>s'. FindMostWorkChain (ex_fork ()) = Some (Inr (Some 3, s')) \<and> chainActive s' = [Some 0, Some 1, Some 4]"
proof -
  have "usable ex_tree [Some 0, Some 1, Some 4] p" for p
    by (simp add: usable_def bad_at_def ex_tree_flags)
  then have "best_candidate (ex_fork ()) = Some 3" by (simp add: best_candidate_def)
  then show ?thesis using FindMostWorkChain_best [OF ex_fork_ok, of "()"] by auto
qed

end
