(* ===== verification/Block_Files.thy ===== *)
theory Block_Files
  imports Best_Chain Disconnect
begin

text \<open>
  The files of blocks and of undo data (\<^verbatim>\<open>src/main.cpp\<close>, \<^verbatim>\<open>src/main.h\<close>,
  \<^verbatim>\<open>src/undo.h\<close>): the records of the files, finding a place, writing and reading. A file is
  its bytes; a file that is not there reads like an empty one. Free space, the files that can be
  opened and the hash functions are arguments.
\<close>

section \<open>Files\<close>

record disk_env =
  de_MessageStart :: bytes
  de_space :: "u64 \<Rightarrow> bool"
  de_blk :: "nat \<Rightarrow> bool"
  de_rev :: "nat \<Rightarrow> bool"
  de_Hash :: "bytes \<Rightarrow> base_uint"
  de_GetHash :: "CBlockHeader \<Rightarrow> base_uint"
  de_params :: CChainParams
  de_IsFullyValid :: "bytes \<Rightarrow> bool"
  de_EC_Decompress :: "bytes \<Rightarrow> bytes option"

record CBlockFileInfo =
  fi_nBlocks :: u32
  fi_nSize :: u32
  fi_nUndoSize :: u32
  fi_nHeightFirst :: u32
  fi_nHeightLast :: u32
  fi_nTimeFirst :: u64
  fi_nTimeLast :: u64

definition CBlockFileInfo_SetNull :: CBlockFileInfo where
  "CBlockFileInfo_SetNull = \<lparr>fi_nBlocks = 0, fi_nSize = 0, fi_nUndoSize = 0, fi_nHeightFirst = 0, fi_nHeightLast = 0,
     fi_nTimeFirst = 0, fi_nTimeLast = 0\<rparr>"

definition ser_fileinfo :: "CBlockFileInfo \<Rightarrow> bytes" where
  "ser_fileinfo i = WriteVarInt (fi_nBlocks i) @ WriteVarInt (fi_nSize i) @ WriteVarInt (fi_nUndoSize i)
     @ WriteVarInt (fi_nHeightFirst i) @ WriteVarInt (fi_nHeightLast i) @ WriteVarInt (fi_nTimeFirst i) @ WriteVarInt (fi_nTimeLast i)"

definition unser_fileinfo :: "CBlockFileInfo reader" where
  "unser_fileinfo is =
     bindE (ReadVarInt is) (\<lambda>(b, is). bindE (ReadVarInt is) (\<lambda>(s, is). bindE (ReadVarInt is) (\<lambda>(u, is).
     bindE (ReadVarInt is) (\<lambda>(hf, is). bindE (ReadVarInt is) (\<lambda>(hl, is). bindE (ReadVarInt is) (\<lambda>(tf, is).
     bindE (ReadVarInt is) (\<lambda>(tl, is).
       Inr (\<lparr>fi_nBlocks = b, fi_nSize = s, fi_nUndoSize = u, fi_nHeightFirst = hf, fi_nHeightLast = hl,
              fi_nTimeFirst = tf, fi_nTimeLast = tl\<rparr>, is))))))))"

definition AddBlock :: "CBlockFileInfo \<Rightarrow> u32 \<Rightarrow> u64 \<Rightarrow> CBlockFileInfo" where
  "AddBlock i nHeightIn nTimeIn =
     i\<lparr>fi_nHeightFirst := (if fi_nBlocks i = 0 \<or> nHeightIn < fi_nHeightFirst i then nHeightIn else fi_nHeightFirst i),
       fi_nTimeFirst := (if fi_nBlocks i = 0 \<or> nTimeIn < fi_nTimeFirst i then nTimeIn else fi_nTimeFirst i),
       fi_nBlocks := fi_nBlocks i + 1,
       fi_nHeightLast := (if fi_nHeightLast i < nHeightIn then nHeightIn else fi_nHeightLast i),
       fi_nTimeLast := (if fi_nTimeLast i < nTimeIn then nTimeIn else fi_nTimeLast i)\<rparr>"

record block_files =
  vinfoBlockFile :: "CBlockFileInfo list"
  nLastBlockFile :: nat
  setDirtyFileInfo :: "nat set"
  blk_files :: "nat \<Rightarrow> bytes"
  rev_files :: "nat \<Rightarrow> bytes"

text \<open>Writing at an offset, past the end over a gap of zeros; cutting or growing; preallocation.\<close>

definition write_at :: "nat \<Rightarrow> bytes \<Rightarrow> bytes \<Rightarrow> bytes" where
  "write_at off bs f = take off (f @ replicate (off - length f) 0) @ bs @ drop (off + length bs) f"

definition TruncateFile :: "nat \<Rightarrow> bytes \<Rightarrow> bytes" where
  "TruncateFile n f = take n f @ replicate (n - length f) 0"

definition AllocateFileRange :: "bytes \<Rightarrow> nat \<Rightarrow> nat \<Rightarrow> bytes" where
  "AllocateFileRange f offset n = f @ replicate (offset + n - length f) 0"

definition FlushBlockFile :: "disk_env \<Rightarrow> bool \<Rightarrow> block_files \<Rightarrow> block_files" where
  "FlushBlockFile env fFinalize fs =
     (let n = nLastBlockFile fs; i = vinfoBlockFile fs ! n;
          fs = (if de_blk env n \<and> fFinalize
                then fs\<lparr>blk_files := (blk_files fs)(n := TruncateFile (unat (fi_nSize i)) (blk_files fs n))\<rparr> else fs)
      in if de_rev env n \<and> fFinalize
         then fs\<lparr>rev_files := (rev_files fs)(n := TruncateFile (unat (fi_nUndoSize i)) (rev_files fs n))\<rparr> else fs)"

definition MAX_BLOCKFILE_SIZE :: u32 where "MAX_BLOCKFILE_SIZE = 0x8000000"
definition BLOCKFILE_CHUNK_SIZE :: u32 where "BLOCKFILE_CHUNK_SIZE = 0x1000000"
definition UNDOFILE_CHUNK_SIZE :: u32 where "UNDOFILE_CHUNK_SIZE = 0x100000"

section \<open>Finding a place\<close>

definition grow_info :: "nat \<Rightarrow> block_files \<Rightarrow> block_files" where
  "grow_info n fs =
     (if length (vinfoBlockFile fs) \<le> n
      then fs\<lparr>vinfoBlockFile := vinfoBlockFile fs @ replicate (n + 1 - length (vinfoBlockFile fs)) CBlockFileInfo_SetNull\<rparr> else fs)"

text \<open>The search for a file with room; \<open>None\<close> is the loop that finds none.\<close>

partial_function (option) room_loop :: "disk_env \<Rightarrow> u32 \<Rightarrow> nat \<Rightarrow> block_files \<Rightarrow> (nat \<times> block_files) option" where
  "room_loop env nAddSize n fs =
     (if MAX_BLOCKFILE_SIZE \<le> fi_nSize (vinfoBlockFile fs ! n) + nAddSize
      then room_loop env nAddSize (n + 1) (grow_info (n + 1) (FlushBlockFile env True fs))
      else Some (n, fs))"

definition set_info :: "nat \<Rightarrow> (CBlockFileInfo \<Rightarrow> CBlockFileInfo) \<Rightarrow> block_files \<Rightarrow> block_files" where
  "set_info n f fs = fs\<lparr>vinfoBlockFile := (vinfoBlockFile fs)[n := f (vinfoBlockFile fs ! n)]\<rparr>"

definition chunks :: "u32 \<Rightarrow> u32 \<Rightarrow> u32" where "chunks chunk n = (n + chunk - 1) div chunk"

text \<open>A position that is known comes from a scan of the files; a negative file number is out of range.\<close>

definition FindBlockPos :: "disk_env \<Rightarrow> CValidationState \<Rightarrow> CDiskBlockPos \<Rightarrow> u32 \<Rightarrow> u32 \<Rightarrow> u64 \<Rightarrow> bool \<Rightarrow> block_files
    \<Rightarrow> ((CValidationState + CDiskBlockPos) \<times> block_files) outcome" where
  "FindBlockPos env st pos nAddSize h t fKnown fs =
     (if fKnown \<and> pos_nFile pos < 0 then Some (Inl OutOfRange)
      else let n = (if fKnown then nat (pos_nFile pos) else nLastBlockFile fs); fs = grow_info n fs
      in case (if fKnown then Some (n, fs) else room_loop env nAddSize n fs) of
           None \<Rightarrow> None
         | Some (n, fs) \<Rightarrow>
             let pos = (if fKnown then pos else \<lparr>pos_nFile = int n, pos_nPos = fi_nSize (vinfoBlockFile fs ! n)\<rparr>);
                 fs = set_info n (\<lambda>i. let i = AddBlock i h t
                        in i\<lparr>fi_nSize := (if fKnown then max (pos_nPos pos + nAddSize) (fi_nSize i) else fi_nSize i + nAddSize)\<rparr>)
                        (fs\<lparr>nLastBlockFile := n\<rparr>);
                 nOldChunks = chunks BLOCKFILE_CHUNK_SIZE (pos_nPos pos);
                 nNewChunks = chunks BLOCKFILE_CHUNK_SIZE (fi_nSize (vinfoBlockFile fs ! n));
                 len = nNewChunks * BLOCKFILE_CHUNK_SIZE - pos_nPos pos
             in if \<not> fKnown \<and> nOldChunks < nNewChunks \<and> \<not> de_space env (ucast len)
                then Some (Inr (Inl (state_Error st ''out of disk space''), fs))
                else let fs = (if \<not> fKnown \<and> nOldChunks < nNewChunks \<and> de_blk env n
                               then fs\<lparr>blk_files := (blk_files fs)(n := AllocateFileRange (blk_files fs n) (unat (pos_nPos pos)) (unat len))\<rparr>
                               else fs)
                     in Some (Inr (Inr pos, fs\<lparr>setDirtyFileInfo := insert n (setDirtyFileInfo fs)\<rparr>)))"

definition FindUndoPos :: "disk_env \<Rightarrow> CValidationState \<Rightarrow> int \<Rightarrow> u32 \<Rightarrow> block_files
    \<Rightarrow> fault + (CValidationState + CDiskBlockPos) \<times> block_files" where
  "FindUndoPos env st file nAddSize fs =
     (if file < 0 \<or> int (length (vinfoBlockFile fs)) \<le> file then Inl OutOfRange
      else let n = nat file;
               pos = \<lparr>pos_nFile = file, pos_nPos = fi_nUndoSize (vinfoBlockFile fs ! n)\<rparr>;
               fs = set_info n (\<lambda>i. i\<lparr>fi_nUndoSize := fi_nUndoSize i + nAddSize\<rparr>) fs;
               fs = fs\<lparr>setDirtyFileInfo := insert n (setDirtyFileInfo fs)\<rparr>;
               nOldChunks = chunks UNDOFILE_CHUNK_SIZE (pos_nPos pos);
               nNewChunks = chunks UNDOFILE_CHUNK_SIZE (fi_nUndoSize (vinfoBlockFile fs ! n));
               len = nNewChunks * UNDOFILE_CHUNK_SIZE - pos_nPos pos
           in if nOldChunks < nNewChunks
              then (if \<not> de_space env (ucast len) then Inr (Inl (state_Error st ''out of disk space''), fs)
                    else Inr (Inr pos, if de_rev env n
                           then fs\<lparr>rev_files := (rev_files fs)(n := AllocateFileRange (rev_files fs n) (unat (pos_nPos pos)) (unat len))\<rparr>
                           else fs))
              else Inr (Inr pos, fs))"

section \<open>Writing and reading\<close>

text \<open>The bytes before an object: the network's magic and the size.\<close>

definition index_header :: "disk_env \<Rightarrow> bytes \<Rightarrow> bytes" where
  "index_header env bs = de_MessageStart env @ ser_u32 (of_nat (length bs))"

text \<open>An opened file stands at the position asked for; the writer leaves the position of the object.\<close>

definition WriteBlockToDisk :: "disk_env \<Rightarrow> CBlock \<Rightarrow> CDiskBlockPos \<Rightarrow> block_files \<Rightarrow> (CDiskBlockPos \<times> block_files) option" where
  "WriteBlockToDisk env block pos fs =
     (let n = nat (pos_nFile pos); bs = ser_block block; hd = index_header env bs; off = unat (pos_nPos pos)
      in if CDiskBlockPos_IsNull pos \<or> \<not> de_blk env n then None
         else Some (pos\<lparr>pos_nPos := of_nat (off + length hd)\<rparr>,
                    fs\<lparr>blk_files := (blk_files fs)(n := write_at off (hd @ bs) (blk_files fs n))\<rparr>))"

definition ReadBlockAt :: "disk_env \<Rightarrow> block_files \<Rightarrow> CDiskBlockPos \<Rightarrow> CBlock option" where
  "ReadBlockAt env fs pos =
     (if CDiskBlockPos_IsNull pos \<or> \<not> de_blk env (nat (pos_nFile pos)) then None
      else case unser_block (de_Hash env) (drop (unat (pos_nPos pos)) (blk_files fs (nat (pos_nFile pos)))) of
             Inl e \<Rightarrow> None
           | Inr (block, rest) \<Rightarrow>
               if CBlock_IsProofOfWork block
                  \<and> \<not> CheckProofOfWork (de_params env) (de_GetHash env (block_header block)) (hdr_nBits (block_header block))
               then None else Some block)"

text \<open>\<open>NullRead\<close>: the hash pointer of the entry is null.\<close>

definition ReadBlockFromDisk :: "disk_env \<Rightarrow> block_files \<Rightarrow> CBlockIndex \<Rightarrow> fault + CBlock option" where
  "ReadBlockFromDisk env fs pindex =
     (case ReadBlockAt env fs (GetBlockPos pindex) of
        None \<Rightarrow> Inr None
      | Some block \<Rightarrow> (case phashBlock pindex of
          None \<Rightarrow> Inl NullRead
        | Some hash \<Rightarrow> Inr (if de_GetHash env (block_header block) \<noteq> hash then None else Some block)))"

section \<open>Undo data\<close>

fun ser_each :: "('a \<Rightarrow> bytes option) \<Rightarrow> 'a list \<Rightarrow> bytes option" where
  "ser_each ser [] = Some []"
| "ser_each ser (x # xs) = (case (ser x, ser_each ser xs) of (Some b, Some bs) \<Rightarrow> Some (b @ bs) | _ \<Rightarrow> None)"

definition ser_vec_opt :: "('a \<Rightarrow> bytes option) \<Rightarrow> 'a list \<Rightarrow> bytes option" where
  "ser_vec_opt ser xs = map_option (\<lambda>bs. WriteCompactSize (of_nat (length xs)) @ bs) (ser_each ser xs)"

definition sizeof_CTxInUndo :: nat where "sizeof_CTxInUndo = 48"
definition sizeof_CTxUndo :: nat where "sizeof_CTxUndo = 24"

text \<open>The undo data of a block; \<open>None\<close> is a failed assertion in the compression of an amount.\<close>

definition ser_blockundo :: "disk_env \<Rightarrow> CTxInUndo list list \<Rightarrow> bytes option" where
  "ser_blockundo env = ser_vec_opt (ser_vec_opt (CTxInUndo_Serialize (de_IsFullyValid env)))"

text \<open>A record is read into a fresh one.\<close>

definition unser_blockundo :: "disk_env \<Rightarrow> CTxInUndo list list reader" where
  "unser_blockundo env =
     unser_vec sizeof_CTxUndo (unser_vec sizeof_CTxInUndo (CTxInUndo_Unserialize (de_EC_Decompress env) (CTxInUndo_of CTxOut_SetNull)))"

definition undo_checksum :: "disk_env \<Rightarrow> base_uint \<Rightarrow> bytes \<Rightarrow> base_uint" where
  "undo_checksum env hash bs = de_Hash env (ser_limbs hash @ bs)"

definition CBlockUndo_WriteToDisk :: "disk_env \<Rightarrow> CTxInUndo list list \<Rightarrow> CDiskBlockPos \<Rightarrow> base_uint \<Rightarrow> block_files
    \<Rightarrow> fault + (CDiskBlockPos \<times> block_files) option" where
  "CBlockUndo_WriteToDisk env vtxundo pos hash fs =
     (let n = nat (pos_nFile pos); off = unat (pos_nPos pos)
      in if CDiskBlockPos_IsNull pos \<or> \<not> de_rev env n then Inr None
         else case ser_blockundo env vtxundo of
                None \<Rightarrow> Inl AssertFalse
              | Some bs \<Rightarrow>
                  let hd = index_header env bs
                  in Inr (Some (pos\<lparr>pos_nPos := of_nat (off + length hd)\<rparr>,
                       fs\<lparr>rev_files := (rev_files fs)(n :=
                            write_at off (hd @ bs @ ser_limbs (undo_checksum env hash bs)) (rev_files fs n))\<rparr>)))"

text \<open>The checksum is computed from what was read, serialized again.\<close>

definition CBlockUndo_ReadFromDisk :: "disk_env \<Rightarrow> block_files \<Rightarrow> CDiskBlockPos \<Rightarrow> base_uint \<Rightarrow> fault + CTxInUndo list list option" where
  "CBlockUndo_ReadFromDisk env fs pos hash =
     (if CDiskBlockPos_IsNull pos \<or> \<not> de_rev env (nat (pos_nFile pos)) then Inr None
      else case bindE (unser_blockundo env (drop (unat (pos_nPos pos)) (rev_files fs (nat (pos_nFile pos)))))
                  (\<lambda>(u, is). bindE (unser_limbs 8 is) (\<lambda>(c, is). Inr (u, c))) of
             Inl e \<Rightarrow> Inr None
           | Inr (vtxundo, hashChecksum) \<Rightarrow>
               (case ser_blockundo env vtxundo of
                  None \<Rightarrow> Inl AssertFalse
                | Some bs \<Rightarrow> Inr (if hashChecksum \<noteq> undo_checksum env hash bs then None else Some vtxundo)))"

section \<open>Bytes at an offset\<close>

definition has_at :: "nat \<Rightarrow> bytes \<Rightarrow> bytes \<Rightarrow> bool" where
  "has_at p bs f \<longleftrightarrow> p + length bs \<le> length f \<and> take (length bs) (drop p f) = bs"

text \<open>What the first \<open>m\<close> bytes held stays.\<close>

definition kept :: "nat \<Rightarrow> bytes \<Rightarrow> bytes \<Rightarrow> bool" where
  "kept m f f' \<longleftrightarrow> take (min m (length f)) f' = take (min m (length f)) f"

lemma kept_refl [simp]: "kept m f f" by (simp add: kept_def)

lemma kept_length: "kept m f f' \<Longrightarrow> min m (length f) \<le> length f'"
proof -
  assume "kept m f f'"
  then have "length (take (min m (length f)) f') = length (take (min m (length f)) f)" by (simp add: kept_def)
  then show ?thesis by simp
qed

lemma kept_take: "kept m f f' \<Longrightarrow> n \<le> min m (length f) \<Longrightarrow> take n f' = take n f"
  unfolding kept_def by (metis min.absorb1 take_take)

lemma kept_has_at:
  assumes "has_at p bs f" and "kept m f f'" and "p + length bs \<le> m"
  shows "has_at p bs f'"
proof -
  let ?n = "p + length bs"
  have n: "?n \<le> min m (length f)" using assms(1,3) by (simp add: has_at_def)
  have "take (length bs) (drop p f') = drop p (take ?n f')" by (simp add: drop_take)
  also have "\<dots> = take (length bs) (drop p f)" unfolding kept_take [OF assms(2) n] by (simp add: drop_take)
  finally show ?thesis using assms(1) le_trans [OF n kept_length [OF assms(2)]] by (simp add: has_at_def)
qed

lemma kept_mono: "kept m f f' \<Longrightarrow> n \<le> m \<Longrightarrow> kept n f f'"
  using kept_take [of m f f' "min n (length f)"] by (simp add: kept_def)

lemma kept_trans:
  assumes "kept m f g" and "kept m g h"
  shows "kept m f h"
proof -
  let ?n = "min m (length f)"
  have "take ?n h = take ?n g" using kept_take [OF assms(2), of ?n] kept_length [OF assms(1)] by simp
  also have "\<dots> = take ?n f" using kept_take [OF assms(1), of ?n] by simp
  finally show ?thesis by (simp add: kept_def)
qed

lemma kept_write_at: "kept off f (write_at off bs f)"
  by (auto simp: kept_def write_at_def min_def)

lemma has_at_write_at: "has_at off bs (write_at off bs f)"
  by (auto simp: has_at_def write_at_def min_def)

lemma has_at_append:
  assumes "has_at p (xs @ ys) f"
  shows "has_at (p + length xs) ys f"
proof -
  have "take (length xs + length ys) (drop p f) = xs @ ys" using assms by (simp add: has_at_def)
  then have "drop (length xs) (take (length xs + length ys) (drop p f)) = ys" by simp
  then show ?thesis using assms by (simp add: has_at_def drop_take add.commute)
qed

lemma kept_truncate: "kept n f (TruncateFile n f)"
  by (auto simp: kept_def TruncateFile_def min_def)

lemma kept_allocate: "kept m f (AllocateFileRange f off n)"
  by (auto simp: kept_def AllocateFileRange_def min_def)

lemma has_at_drop: "has_at p bs f \<Longrightarrow> drop p f = bs @ drop (p + length bs) f"
  unfolding has_at_def by (metis append_take_drop_id drop_drop add.commute)
section \<open>What is stored stays\<close>

text \<open>Sizes only grow, and the bytes below the old sizes stay.\<close>

definition files_step :: "block_files \<Rightarrow> block_files \<Rightarrow> bool" where
  "files_step fs fs' \<longleftrightarrow> length (vinfoBlockFile fs) \<le> length (vinfoBlockFile fs')
     \<and> (\<forall>n<length (vinfoBlockFile fs).
          fi_nSize (vinfoBlockFile fs ! n) \<le> fi_nSize (vinfoBlockFile fs' ! n)
        \<and> fi_nUndoSize (vinfoBlockFile fs ! n) \<le> fi_nUndoSize (vinfoBlockFile fs' ! n)
        \<and> kept (unat (fi_nSize (vinfoBlockFile fs ! n))) (blk_files fs n) (blk_files fs' n)
        \<and> kept (unat (fi_nUndoSize (vinfoBlockFile fs ! n))) (rev_files fs n) (rev_files fs' n))"

lemma files_step_refl [simp]: "files_step fs fs" by (simp add: files_step_def)

lemma files_step_trans:
  assumes "files_step a b" and "files_step b c"
  shows "files_step a c"
proof -
  have "fi_nSize (vinfoBlockFile a ! n) \<le> fi_nSize (vinfoBlockFile c ! n) \<and> fi_nUndoSize (vinfoBlockFile a ! n) \<le> fi_nUndoSize (vinfoBlockFile c ! n)
      \<and> kept (unat (fi_nSize (vinfoBlockFile a ! n))) (blk_files a n) (blk_files c n)
      \<and> kept (unat (fi_nUndoSize (vinfoBlockFile a ! n))) (rev_files a n) (rev_files c n)"
    if n: "n < length (vinfoBlockFile a)" for n
  proof -
    have 1: "fi_nSize (vinfoBlockFile a ! n) \<le> fi_nSize (vinfoBlockFile b ! n)" "fi_nUndoSize (vinfoBlockFile a ! n) \<le> fi_nUndoSize (vinfoBlockFile b ! n)"
      "kept (unat (fi_nSize (vinfoBlockFile a ! n))) (blk_files a n) (blk_files b n)"
      "kept (unat (fi_nUndoSize (vinfoBlockFile a ! n))) (rev_files a n) (rev_files b n)"
      using assms(1) n by (simp_all add: files_step_def)
    have "n < length (vinfoBlockFile b)" using assms(1) n by (simp add: files_step_def)
    then have 2: "fi_nSize (vinfoBlockFile b ! n) \<le> fi_nSize (vinfoBlockFile c ! n)" "fi_nUndoSize (vinfoBlockFile b ! n) \<le> fi_nUndoSize (vinfoBlockFile c ! n)"
      "kept (unat (fi_nSize (vinfoBlockFile b ! n))) (blk_files b n) (blk_files c n)"
      "kept (unat (fi_nUndoSize (vinfoBlockFile b ! n))) (rev_files b n) (rev_files c n)"
      using assms(2) by (simp_all add: files_step_def)
    have "kept (unat (fi_nSize (vinfoBlockFile a ! n))) (blk_files b n) (blk_files c n)"
      "kept (unat (fi_nUndoSize (vinfoBlockFile a ! n))) (rev_files b n) (rev_files c n)"
      using kept_mono [OF 2(3)] kept_mono [OF 2(4)] 1(1,2) by (simp_all add: word_le_nat_alt)
    then show ?thesis using 1 2 kept_trans order_trans by blast
  qed
  then show ?thesis using assms by (simp add: files_step_def)
qed

definition stored_block :: "block_files \<Rightarrow> nat \<Rightarrow> nat \<Rightarrow> CBlock \<Rightarrow> bool" where
  "stored_block fs n p b \<longleftrightarrow> n < length (vinfoBlockFile fs)
     \<and> p + length (ser_block b) \<le> unat (fi_nSize (vinfoBlockFile fs ! n)) \<and> has_at p (ser_block b) (blk_files fs n)"

lemma stored_block_step: "stored_block fs n p b \<Longrightarrow> files_step fs fs' \<Longrightarrow> stored_block fs' n p b"
  unfolding stored_block_def files_step_def
  by (meson kept_has_at le_trans less_le_trans word_le_nat_alt)

definition stored_undo :: "block_files \<Rightarrow> nat \<Rightarrow> nat \<Rightarrow> bytes \<Rightarrow> bool" where
  "stored_undo fs n p bs \<longleftrightarrow> n < length (vinfoBlockFile fs)
     \<and> p + length bs \<le> unat (fi_nUndoSize (vinfoBlockFile fs ! n)) \<and> has_at p bs (rev_files fs n)"

lemma stored_undo_step: "stored_undo fs n p bs \<Longrightarrow> files_step fs fs' \<Longrightarrow> stored_undo fs' n p bs"
  unfolding stored_undo_def files_step_def
  by (meson kept_has_at le_trans less_le_trans word_le_nat_alt)

definition sized :: "block_files \<Rightarrow> bool" where
  "sized fs \<longleftrightarrow> (\<forall>i\<in>set (vinfoBlockFile fs). fi_nSize i \<le> MAX_BLOCKFILE_SIZE)"

lemma flush_step: "files_step fs (FlushBlockFile env fin fs)"
  by (auto simp: files_step_def FlushBlockFile_def Let_def kept_truncate)

lemma flush_fields [simp]:
  "vinfoBlockFile (FlushBlockFile env fin fs) = vinfoBlockFile fs" "nLastBlockFile (FlushBlockFile env fin fs) = nLastBlockFile fs"
  "setDirtyFileInfo (FlushBlockFile env fin fs) = setDirtyFileInfo fs"
  by (simp_all add: FlushBlockFile_def Let_def)

lemma grow_info_step: "files_step fs (grow_info n fs)"
  by (auto simp: files_step_def grow_info_def nth_append)

lemma grow_info_fields [simp]:
  "nLastBlockFile (grow_info n fs) = nLastBlockFile fs" "n < length (vinfoBlockFile (grow_info n fs))"
  by (auto simp: grow_info_def)

lemma grow_info_append:
  "\<exists>k. vinfoBlockFile (grow_info n fs) = vinfoBlockFile fs @ replicate k CBlockFileInfo_SetNull"
  by (auto simp: grow_info_def intro: exI [of _ 0])

lemma sized_grow: "sized fs \<Longrightarrow> sized (grow_info n fs)"
  using grow_info_append [of n fs] by (auto simp: sized_def CBlockFileInfo_SetNull_def)

text \<open>The search ends: only finitely many files are full, and a new one has room.\<close>

lemma room_loop_ok:
  assumes "a < MAX_BLOCKFILE_SIZE" and "n < length (vinfoBlockFile fs)" and "sized fs"
  shows "\<exists>m fs'. room_loop env a n fs = Some (m, fs') \<and> files_step fs fs' \<and> sized fs' \<and> n \<le> m \<and> m < length (vinfoBlockFile fs')
    \<and> \<not> MAX_BLOCKFILE_SIZE \<le> fi_nSize (vinfoBlockFile fs' ! m) + a"
  using assms(2,3)
proof (induction "length (filter (\<lambda>i. MAX_BLOCKFILE_SIZE \<le> fi_nSize i + a) (drop n (vinfoBlockFile fs)))" arbitrary: n fs rule: less_induct)
  case less
  let ?full = "\<lambda>i. MAX_BLOCKFILE_SIZE \<le> fi_nSize i + a"
  show ?case
  proof (cases "?full (vinfoBlockFile fs ! n)")
    case False
    then show ?thesis using less.prems by (subst room_loop.simps) auto
  next
    case True
    let ?fs = "grow_info (n + 1) (FlushBlockFile env True fs)"
    obtain k where k: "vinfoBlockFile ?fs = vinfoBlockFile fs @ replicate k CBlockFileInfo_SetNull"
      using grow_info_append [of "n + 1" "FlushBlockFile env True fs"] by auto
    have "\<not> ?full CBlockFileInfo_SetNull" using assms(1) by (simp add: CBlockFileInfo_SetNull_def)
    then have "filter ?full (drop (n + 1) (vinfoBlockFile ?fs)) = filter ?full (drop (n + 1) (vinfoBlockFile fs))"
      unfolding k using less.prems(1) by simp
    moreover have "drop n (vinfoBlockFile fs) = vinfoBlockFile fs ! n # drop (n + 1) (vinfoBlockFile fs)"
      using less.prems(1) by (simp add: Cons_nth_drop_Suc)
    ultimately have l: "length (filter ?full (drop (n + 1) (vinfoBlockFile ?fs))) < length (filter ?full (drop n (vinfoBlockFile fs)))"
      using True by simp
    have s: "sized ?fs" using less.prems(2) by (intro sized_grow) (simp add: sized_def)
    have st: "files_step fs ?fs" using flush_step grow_info_step files_step_trans by blast
    from less.hyps [OF l _ s] obtain m fs' where "room_loop env a (n + 1) ?fs = Some (m, fs')" "files_step ?fs fs'" "sized fs'"
        "n + 1 \<le> m" "m < length (vinfoBlockFile fs')" "\<not> ?full (vinfoBlockFile fs' ! m)"
      by (metis grow_info_fields(2))
    then show ?thesis using True files_step_trans [OF st] by (subst room_loop.simps) auto
  qed
qed
lemma set_info_fields [simp]:
  "length (vinfoBlockFile (set_info n f fs)) = length (vinfoBlockFile fs)" "blk_files (set_info n f fs) = blk_files fs"
  "rev_files (set_info n f fs) = rev_files fs" "nLastBlockFile (set_info n f fs) = nLastBlockFile fs"
  by (simp_all add: set_info_def)

lemma set_info_nth:
  "n < length (vinfoBlockFile fs) \<Longrightarrow> vinfoBlockFile (set_info n f fs) ! m = (if m = n then f (vinfoBlockFile fs ! n) else vinfoBlockFile fs ! m)"
  by (simp add: set_info_def nth_list_update)

lemma AddBlock_sizes [simp]: "fi_nSize (AddBlock i h t) = fi_nSize i" "fi_nUndoSize (AddBlock i h t) = fi_nUndoSize i"
  by (simp_all add: AddBlock_def)

lemma files_stepI:
  assumes "length (vinfoBlockFile fs) \<le> length (vinfoBlockFile fs')"
    and "\<And>n. n < length (vinfoBlockFile fs) \<Longrightarrow> fi_nSize (vinfoBlockFile fs ! n) \<le> fi_nSize (vinfoBlockFile fs' ! n)
      \<and> fi_nUndoSize (vinfoBlockFile fs ! n) \<le> fi_nUndoSize (vinfoBlockFile fs' ! n)"
    and "\<And>n. n < length (vinfoBlockFile fs) \<Longrightarrow> kept (unat (fi_nSize (vinfoBlockFile fs ! n))) (blk_files fs n) (blk_files fs' n)"
    and "\<And>n. n < length (vinfoBlockFile fs) \<Longrightarrow> kept (unat (fi_nUndoSize (vinfoBlockFile fs ! n))) (rev_files fs n) (rev_files fs' n)"
  shows "files_step fs fs'"
  using assms by (simp add: files_step_def)

lemma no_full_sum:
  fixes s a :: u32
  assumes "s \<le> MAX_BLOCKFILE_SIZE" and "a < MAX_BLOCKFILE_SIZE"
  shows "unat (s + a) = unat s + unat a" "s \<le> s + a"
proof -
  have "unat s \<le> 0x8000000" "unat a < 0x8000000" using assms by (simp_all add: MAX_BLOCKFILE_SIZE_def word_le_nat_alt word_less_nat_alt)
  then show "unat (s + a) = unat s + unat a" by (simp add: unat_word_ariths)
  then show "s \<le> s + a" by (simp add: word_le_nat_alt)
qed

text \<open>The place for a new block is after everything that is stored in its file.\<close>

lemma FindBlockPos_ok:
  assumes "a < MAX_BLOCKFILE_SIZE" and "sized fs"
  shows "\<exists>r fs1. FindBlockPos env st pos a h t False fs = Some (Inr (r, fs1)) \<and> files_step fs fs1 \<and> sized fs1
    \<and> (\<forall>q. r = Inr q \<longrightarrow> (\<exists>n. q = \<lparr>pos_nFile = int n, pos_nPos = pos_nPos q\<rparr> \<and> n < length (vinfoBlockFile fs1)
         \<and> unat (pos_nPos q) + unat a = unat (fi_nSize (vinfoBlockFile fs1 ! n))
         \<and> (n < length (vinfoBlockFile fs) \<longrightarrow> fi_nSize (vinfoBlockFile fs ! n) \<le> pos_nPos q)))"
proof -
  let ?g = "grow_info (nLastBlockFile fs) fs"
  obtain n fs2 where 2: "room_loop env a (nLastBlockFile fs) ?g = Some (n, fs2)" "files_step ?g fs2" "sized fs2"
      "n < length (vinfoBlockFile fs2)" "\<not> MAX_BLOCKFILE_SIZE \<le> fi_nSize (vinfoBlockFile fs2 ! n) + a"
    using room_loop_ok [OF assms(1) grow_info_fields(2) sized_grow [OF assms(2)], of env "nLastBlockFile fs"] by blast
  have g: "files_step fs fs2" using files_step_trans [OF grow_info_step 2(2)] .
  let ?p = "fi_nSize (vinfoBlockFile fs2 ! n)"
  have "?p \<le> MAX_BLOCKFILE_SIZE" using 2(3,4) by (simp add: sized_def)
  note sum = no_full_sum [OF this assms(1)]
  let ?f = "\<lambda>i. (AddBlock i h t)\<lparr>fi_nSize := fi_nSize i + a\<rparr>"
  let ?fs3 = "set_info n ?f (fs2\<lparr>nLastBlockFile := n\<rparr>)"
  have i3: "vinfoBlockFile ?fs3 ! m = (if m = n then ?f (vinfoBlockFile fs2 ! n) else vinfoBlockFile fs2 ! m)" for m
    using set_info_nth [of n "fs2\<lparr>nLastBlockFile := n\<rparr>" ?f m] 2(4) by simp
  have s3: "fi_nSize (vinfoBlockFile ?fs3 ! n) = ?p + a" by (simp only: i3 refl if_True) simp
  have g3: "files_step fs2 ?fs3"
    by (rule files_stepI) (simp_all add: i3 sum(2))
  have z3: "sized ?fs3"
    using 2(3,5) set_update_subset_insert [of "vinfoBlockFile fs2" n "?f (vinfoBlockFile fs2 ! n)"]
    by (auto simp: sized_def set_info_def)
  let ?q = "\<lparr>pos_nFile = int n, pos_nPos = ?p\<rparr>"
  have before: "n < length (vinfoBlockFile fs) \<longrightarrow> fi_nSize (vinfoBlockFile fs ! n) \<le> ?p" using g by (simp add: files_step_def)
  let ?c = "chunks BLOCKFILE_CHUNK_SIZE ?p < chunks BLOCKFILE_CHUNK_SIZE (fi_nSize (vinfoBlockFile ?fs3 ! n))"
  let ?len = "chunks BLOCKFILE_CHUNK_SIZE (fi_nSize (vinfoBlockFile ?fs3 ! n)) * BLOCKFILE_CHUNK_SIZE - ?p"
  let ?fs4 = "if ?c \<and> de_blk env n then ?fs3\<lparr>blk_files := (blk_files ?fs3)(n := AllocateFileRange (blk_files ?fs3 n) (unat ?p) (unat ?len))\<rparr> else ?fs3"
  let ?fs5 = "?fs4\<lparr>setDirtyFileInfo := insert n (setDirtyFileInfo ?fs4)\<rparr>"
  have i5: "vinfoBlockFile ?fs5 = vinfoBlockFile ?fs3" by simp
  have g5: "files_step ?fs3 ?fs5"
    by (rule files_stepI) (auto simp: kept_allocate)
  have r: "FindBlockPos env st pos a h t False fs =
      (if ?c \<and> \<not> de_space env (ucast ?len) then Some (Inr (Inl (state_Error st ''out of disk space''), ?fs3))
       else Some (Inr (Inr ?q, ?fs5)))"
    unfolding FindBlockPos_def Let_def by (simp only: 2(1) if_False simp_thms option.case prod.case CDiskBlockPos.simps AddBlock_sizes)
  show ?thesis
  proof (cases "?c \<and> \<not> de_space env (ucast ?len)")
    case True
    then show ?thesis using r files_step_trans [OF g g3] z3 by simp
  next
    case False
    have "sized ?fs5" using z3 by (simp add: sized_def)
    moreover have "unat ?p + unat a = unat (fi_nSize (vinfoBlockFile ?fs5 ! n))" using s3 sum(1) by simp
    moreover have "n < length (vinfoBlockFile ?fs5)" unfolding i5 using 2(4) by simp
    ultimately show ?thesis
      using False r files_step_trans [OF files_step_trans [OF g g3] g5] before
      by (intro exI [of _ "Inr ?q"] exI [of _ ?fs5]) auto
  qed
qed
lemma FindUndoPos_ok:
  assumes "0 \<le> file" and "nat file < length (vinfoBlockFile fs)"
    and "unat (fi_nUndoSize (vinfoBlockFile fs ! nat file)) + unat a < 2 ^ 32"
  shows "\<exists>r fs1. FindUndoPos env st file a fs = Inr (r, fs1) \<and> files_step fs fs1 \<and> (sized fs \<longrightarrow> sized fs1)
    \<and> nat file < length (vinfoBlockFile fs1)
    \<and> unat (fi_nUndoSize (vinfoBlockFile fs1 ! nat file)) = unat (fi_nUndoSize (vinfoBlockFile fs ! nat file)) + unat a
    \<and> (\<forall>q. r = Inr q \<longrightarrow> q = \<lparr>pos_nFile = file, pos_nPos = fi_nUndoSize (vinfoBlockFile fs ! nat file)\<rparr>)"
proof -
  let ?n = "nat file"
  let ?p = "fi_nUndoSize (vinfoBlockFile fs ! ?n)"
  have sum: "unat (?p + a) = unat ?p + unat a" using assms(3) by (simp add: unat_word_ariths)
  then have le: "?p \<le> ?p + a" by (simp add: word_le_nat_alt)
  let ?f = "\<lambda>i. i\<lparr>fi_nUndoSize := fi_nUndoSize i + a\<rparr>"
  let ?fs2 = "(set_info ?n ?f fs)\<lparr>setDirtyFileInfo := insert ?n (setDirtyFileInfo (set_info ?n ?f fs))\<rparr>"
  have i2: "vinfoBlockFile ?fs2 ! m = (if m = ?n then ?f (vinfoBlockFile fs ! ?n) else vinfoBlockFile fs ! m)" for m
    using set_info_nth [OF assms(2), of ?f m] by simp
  have s2: "fi_nUndoSize (vinfoBlockFile ?fs2 ! ?n) = ?p + a" by (simp only: i2 refl if_True) simp
  have g2: "files_step fs ?fs2"
    using i2 le by (intro files_stepI) simp_all
  have z2: "sized ?fs2" if "sized fs"
    using that assms(2) set_update_subset_insert [of "vinfoBlockFile fs" ?n "?f (vinfoBlockFile fs ! ?n)"]
    by (auto simp: sized_def set_info_def)
  let ?q = "\<lparr>pos_nFile = file, pos_nPos = ?p\<rparr>"
  let ?c = "chunks UNDOFILE_CHUNK_SIZE ?p < chunks UNDOFILE_CHUNK_SIZE (fi_nUndoSize (vinfoBlockFile ?fs2 ! ?n))"
  let ?len = "chunks UNDOFILE_CHUNK_SIZE (fi_nUndoSize (vinfoBlockFile ?fs2 ! ?n)) * UNDOFILE_CHUNK_SIZE - ?p"
  let ?fs3 = "if de_rev env ?n then ?fs2\<lparr>rev_files := (rev_files ?fs2)(?n := AllocateFileRange (rev_files ?fs2 ?n) (unat ?p) (unat ?len))\<rparr> else ?fs2"
  have g3: "files_step ?fs2 ?fs3" by (rule files_stepI) (auto simp: kept_allocate)
  have z3: "sized ?fs3" if "sized fs" using z2 [OF that] by (simp add: sized_def)
  have ok: "\<not> (file < 0 \<or> int (length (vinfoBlockFile fs)) \<le> file)" using assms(1,2) by auto
  have r: "FindUndoPos env st file a fs =
      (if ?c then if \<not> de_space env (ucast ?len) then Inr (Inl (state_Error st ''out of disk space''), ?fs2) else Inr (Inr ?q, ?fs3)
       else Inr (Inr ?q, ?fs2))"
    unfolding FindUndoPos_def Let_def using ok by (simp only: if_False CDiskBlockPos.simps)
  have u: "unat (fi_nUndoSize (vinfoBlockFile ?fs2 ! ?n)) = unat ?p + unat a" using s2 sum by simp
  have l2: "?n < length (vinfoBlockFile ?fs2)" using assms(2) by simp
  consider "?c" "\<not> de_space env (ucast ?len)" | "?c" "de_space env (ucast ?len)" | "\<not> ?c" by blast
  then show ?thesis
  proof cases
    case 1
    then have "FindUndoPos env st file a fs = Inr (Inl (state_Error st ''out of disk space''), ?fs2)" using r by simp
    then show ?thesis using g2 z2 u l2 by blast
  next
    case 2
    then have f: "FindUndoPos env st file a fs = Inr (Inr ?q, ?fs3)" using r by simp
    have "vinfoBlockFile ?fs3 = vinfoBlockFile ?fs2" by simp
    then have "?n < length (vinfoBlockFile ?fs3)" "unat (fi_nUndoSize (vinfoBlockFile ?fs3 ! ?n)) = unat ?p + unat a"
      using l2 u by presburger+
    then show ?thesis using f files_step_trans [OF g2 g3] z3 by blast
  next
    case 3
    then have "FindUndoPos env st file a fs = Inr (Inr ?q, ?fs2)" using r by simp
    then show ?thesis using g2 z2 u l2 by blast
  qed
qed

lemma write_block_step:
  assumes "WriteBlockToDisk env b q fs = Some (q', fs')" and "n = nat (pos_nFile q)" and "files_step old fs"
    and "n < length (vinfoBlockFile old) \<longrightarrow> fi_nSize (vinfoBlockFile old ! n) \<le> pos_nPos q"
  shows "files_step old fs'"
proof -
  obtain bs where fs': "fs' = fs\<lparr>blk_files := (blk_files fs)(n := write_at (unat (pos_nPos q)) bs (blk_files fs n))\<rparr>"
    using assms(1,2) by (auto simp: WriteBlockToDisk_def Let_def split: if_splits)
  show ?thesis
  proof (rule files_stepI)
    fix m assume m: "m < length (vinfoBlockFile old)"
    let ?k = "unat (fi_nSize (vinfoBlockFile old ! m))"
    have "kept ?k (blk_files old m) (blk_files fs m)" using assms(3) m by (simp add: files_step_def)
    moreover have "kept ?k (blk_files fs m) (blk_files fs' m)"
    proof (cases "m = n")
      case True
      then have "?k \<le> unat (pos_nPos q)" using assms(4) m by (simp add: word_le_nat_alt)
      then show ?thesis using True kept_mono [OF kept_write_at] by (simp add: fs')
    qed (simp add: fs')
    ultimately show "kept ?k (blk_files old m) (blk_files fs' m)" by (rule kept_trans)
  qed (use assms(3) in \<open>simp_all add: files_step_def fs'\<close>)
qed

lemma write_undo_step:
  assumes "CBlockUndo_WriteToDisk env u q hash fs = Inr (Some (q', fs'))" and "n = nat (pos_nFile q)" and "files_step old fs"
    and "n < length (vinfoBlockFile old) \<longrightarrow> fi_nUndoSize (vinfoBlockFile old ! n) \<le> pos_nPos q"
  shows "files_step old fs'"
proof -
  obtain bs where fs': "fs' = fs\<lparr>rev_files := (rev_files fs)(n := write_at (unat (pos_nPos q)) bs (rev_files fs n))\<rparr>"
    using assms(1,2) by (auto simp: CBlockUndo_WriteToDisk_def Let_def split: if_splits option.splits)
  show ?thesis
  proof (rule files_stepI)
    fix m assume m: "m < length (vinfoBlockFile old)"
    let ?k = "unat (fi_nUndoSize (vinfoBlockFile old ! m))"
    have "kept ?k (rev_files old m) (rev_files fs m)" using assms(3) m by (simp add: files_step_def)
    moreover have "kept ?k (rev_files fs m) (rev_files fs' m)"
    proof (cases "m = n")
      case True
      then have "?k \<le> unat (pos_nPos q)" using assms(4) m by (simp add: word_le_nat_alt)
      then show ?thesis using True kept_mono [OF kept_write_at] by (simp add: fs')
    qed (simp add: fs')
    ultimately show "kept ?k (rev_files old m) (rev_files fs' m)" by (rule kept_trans)
  qed (use assms(3) in \<open>simp_all add: files_step_def fs'\<close>)
qed

section \<open>The encoding of undo data\<close>

lemma ser_each_ok:
  assumes "\<And>x. x \<in> set xs \<Longrightarrow> \<exists>b. ser x = Some b \<and> (\<forall>rest. un (b @ rest) = Inr (x, rest))"
  shows "\<exists>bs. ser_each ser xs = Some bs \<and> (\<forall>rest. unser_elems un (length xs) (bs @ rest) = Inr (xs, rest))"
  using assms
proof (induction xs)
  case (Cons x xs)
  obtain b where "ser x = Some b" "\<forall>rest. un (b @ rest) = Inr (x, rest)" using Cons.prems by auto
  moreover obtain bs where "ser_each ser xs = Some bs" "\<forall>rest. unser_elems un (length xs) (bs @ rest) = Inr (xs, rest)"
    using Cons by auto
  ultimately show ?case by simp
qed simp

lemma ser_vec_opt_ok:
  assumes "\<And>x. x \<in> set xs \<Longrightarrow> \<exists>b. ser x = Some b \<and> (\<forall>rest. un (b @ rest) = Inr (x, rest))"
    and "length xs \<le> MAX_SIZE" and "0 < k" and "k \<le> 5000000"
  shows "\<exists>bs. ser_vec_opt ser xs = Some bs \<and> (\<forall>rest. unser_vec k un (bs @ rest) = Inr (xs, rest))"
proof -
  obtain bs where bs: "ser_each ser xs = Some bs" "\<And>rest. unser_elems un (length xs) (bs @ rest) = Inr (xs, rest)"
    using ser_each_ok [OF assms(1)] by blast
  have "\<exists>n. ReadCompactSize (WriteCompactSize (of_nat (length xs)) @ bs @ rest) = Inr (n, bs @ rest) \<and> unat n = length xs" for rest
    using assms(2) ReadCompactSize_length_iff [of "WriteCompactSize (of_nat (length xs)) @ bs @ rest" _ "bs @ rest"] by blast
  moreover have "0 < 5000000 div k" using assms(3,4) by (simp add: div_greater_zero_iff)
  ultimately have "unser_vec k un ((WriteCompactSize (of_nat (length xs)) @ bs) @ rest) = Inr (xs, rest)" for rest
    by (metis (no_types, lifting) append.assoc append_Nil bindE_simps(2) bs(2) case_prod_conv unser_vec_def unser_vec_loop_eq)
  then show ?thesis using bs(1) by (auto simp: ser_vec_opt_def)
qed

definition wf_undo :: "CTxInUndo \<Rightarrow> bool" where
  "wf_undo u \<longleftrightarrow> wf_output (undo_txout u) \<and> \<not> CTxOut_IsNull (undo_txout u) \<and> unat (undo_nHeight u) < 2 ^ 30
     \<and> 0 \<le> undo_nVersion u \<and> undo_nVersion u < 2 ^ 31 \<and> (undo_nHeight u = 0 \<longrightarrow> undo_nVersion u = 0)"

definition wf_blockundo :: "CTxInUndo list list \<Rightarrow> bool" where
  "wf_blockundo vtxundo \<longleftrightarrow> length vtxundo \<le> MAX_SIZE \<and> (\<forall>us\<in>set vtxundo. length us \<le> MAX_SIZE \<and> list_all wf_undo us)"

lemma blockundo_roundtrip:
  assumes "ec_law (de_IsFullyValid env) (de_EC_Decompress env)" and "wf_blockundo vtxundo"
  shows "\<exists>bs. ser_blockundo env vtxundo = Some bs \<and> (\<forall>rest. unser_blockundo env (bs @ rest) = Inr (vtxundo, rest))"
proof -
  have u: "\<exists>b. CTxInUndo_Serialize (de_IsFullyValid env) u = Some b
      \<and> (\<forall>rest. CTxInUndo_Unserialize (de_EC_Decompress env) (CTxInUndo_of CTxOut_SetNull) (b @ rest) = Inr (u, rest))"
    if w: "wf_undo u" for u
  proof -
    let ?P = "\<lambda>b rest. CTxInUndo_Serialize (de_IsFullyValid env) u = Some b
      \<and> CTxInUndo_Unserialize (de_EC_Decompress env) (CTxInUndo_of CTxOut_SetNull) (b @ rest) = Inr (u, rest)"
    have "\<exists>b. ?P b rest" for rest
      using undo_roundtrip [OF assms(1), of u "CTxInUndo_of CTxOut_SetNull" rest] w
      by (cases u) (auto simp: wf_undo_def CTxInUndo_of_def)
    then show ?thesis by (metis option.inject)
  qed
  show ?thesis unfolding ser_blockundo_def unser_blockundo_def
  proof (rule ser_vec_opt_ok)
    fix us assume "us \<in> set vtxundo"
    then show "\<exists>b. ser_vec_opt (CTxInUndo_Serialize (de_IsFullyValid env)) us = Some b
      \<and> (\<forall>rest. unser_vec sizeof_CTxInUndo (CTxInUndo_Unserialize (de_EC_Decompress env) (CTxInUndo_of CTxOut_SetNull)) (b @ rest) = Inr (us, rest))"
      using assms(2) u by (intro ser_vec_opt_ok) (auto simp: wf_blockundo_def list_all_iff sizeof_CTxInUndo_def)
  qed (use assms(2) in \<open>auto simp: wf_blockundo_def sizeof_CTxUndo_def\<close>)
qed

section \<open>Sequences of operations\<close>

text \<open>
  The operations of the node on its files: storing a block, storing undo data of a file that does not
  grow past 4 GiB, and finishing a file. The size of a block is bounded before it is stored.
\<close>

inductive file_op :: "disk_env \<Rightarrow> block_files \<Rightarrow> block_files \<Rightarrow> bool" for env where
  place: "FindBlockPos env st pos a h t False fs = Some (Inr (r, fs1)) \<Longrightarrow> a < MAX_BLOCKFILE_SIZE \<Longrightarrow> file_op env fs fs1"
| store_block: "FindBlockPos env st pos a h t False fs = Some (Inr (Inr q, fs1)) \<Longrightarrow> a < MAX_BLOCKFILE_SIZE
    \<Longrightarrow> WriteBlockToDisk env b q fs1 = Some (q', fs2) \<Longrightarrow> file_op env fs fs2"
| store_undo: "FindUndoPos env st file a fs = Inr (Inr q, fs1)
    \<Longrightarrow> unat (fi_nUndoSize (vinfoBlockFile fs ! nat file)) + unat a < 2 ^ 32
    \<Longrightarrow> CBlockUndo_WriteToDisk env u q hash fs1 = Inr (Some (q', fs2)) \<Longrightarrow> file_op env fs fs2"
| flush: "file_op env fs (FlushBlockFile env fin fs)"

lemma FindUndoPos_range: "FindUndoPos env st file a fs = Inr r \<Longrightarrow> 0 \<le> file \<and> nat file < length (vinfoBlockFile fs)"
  by (auto simp: FindUndoPos_def split: if_splits)

lemma written_fields:
  "WriteBlockToDisk env b q fs = Some (q', fs') \<Longrightarrow> vinfoBlockFile fs' = vinfoBlockFile fs"
  "CBlockUndo_WriteToDisk env u q hash fs = Inr (Some (q', fs')) \<Longrightarrow> vinfoBlockFile fs' = vinfoBlockFile fs"
  by (auto simp: WriteBlockToDisk_def CBlockUndo_WriteToDisk_def Let_def split: if_splits option.splits)

lemma file_op_step:
  assumes "file_op env fs fs'" and "sized fs"
  shows "files_step fs fs' \<and> sized fs'"
  using assms
proof (induction rule: file_op.induct)
  case (place st pos a h t fs r fs1)
  from FindBlockPos_ok [OF place(2,3), of env st pos h t] place(1) show ?case by auto
next
  case (store_block st pos a h t fs q fs1 b q' fs2)
  from FindBlockPos_ok [OF store_block(2,4), of env st pos h t] store_block(1) obtain n where
    "files_step fs fs1" "sized fs1" "q = \<lparr>pos_nFile = int n, pos_nPos = pos_nPos q\<rparr>"
    "n < length (vinfoBlockFile fs) \<longrightarrow> fi_nSize (vinfoBlockFile fs ! n) \<le> pos_nPos q" by auto
  moreover from this(3) have "n = nat (pos_nFile q)" by (metis CDiskBlockPos.select_convs(1) nat_int)
  ultimately show ?case
    using write_block_step [OF store_block(3)] written_fields(1) [OF store_block(3)] by (simp add: sized_def)
next
  case (store_undo st nf a fs q fs1 u hash q' fs2)
  note r = FindUndoPos_range [OF store_undo(1)]
  from FindUndoPos_ok [OF conjunct1 [OF r] conjunct2 [OF r] store_undo(2), of env st] store_undo(1)
  have u: "files_step fs fs1" "sized fs \<longrightarrow> sized fs1"
    "q = \<lparr>pos_nFile = nf, pos_nPos = fi_nUndoSize (vinfoBlockFile fs ! nat nf)\<rparr>" by auto
  have "files_step fs fs2"
    by (rule write_undo_step [OF store_undo(3) refl u(1)]) (simp add: u(3))
  then show ?case using u(2) store_undo(4) written_fields(2) [OF store_undo(3)] by (simp add: sized_def)
next
  case (flush fs fin)
  then show ?case by (simp add: flush_step sized_def)
qed

lemma file_ops_step:
  assumes "(file_op env)\<^sup>*\<^sup>* fs fs'" and "sized fs"
  shows "files_step fs fs' \<and> sized fs'"
  using assms by (induction rule: rtranclp_induct) (auto dest: file_op_step intro: files_step_trans)

lemma length_index_header: "length (de_MessageStart env) = 4 \<Longrightarrow> length (index_header env bs) = 8"
  by (simp add: index_header_def ser_u32_def)

lemma stored_block_read:
  assumes "stored_block fs n p b" and "wf_block (de_Hash env) b" and "de_blk env n" and "p < 2 ^ 32"
    and "CBlock_IsProofOfWork b \<longrightarrow> CheckProofOfWork (de_params env) (de_GetHash env (block_header b)) (hdr_nBits (block_header b))"
  shows "ReadBlockAt env fs \<lparr>pos_nFile = int n, pos_nPos = of_nat p\<rparr> = Some b"
proof -
  have p: "unat (of_nat p :: u32) = p" using assms(4) by (simp add: unsigned_of_nat take_bit_nat_eq_self)
  have "has_at p (ser_block b) (blk_files fs n)" using assms(1) by (simp add: stored_block_def)
  from has_at_drop [OF this] have "unser_block (de_Hash env) (drop p (blk_files fs n))
      = Inr (b, drop (p + length (ser_block b)) (blk_files fs n))"
    using assms(2) by (simp add: block.decode_iff)
  then show ?thesis using assms(3,5) p by (simp add: ReadBlockAt_def CDiskBlockPos_IsNull_def)
qed

lemma stored_new_block:
  assumes "sized fs" and "length (ser_block b) + 8 < 2 ^ 27" and "length (de_MessageStart env) = 4"
    and "FindBlockPos env st pos (of_nat (length (ser_block b) + 8)) h t False fs = Some (Inr (Inr q, fs1))"
    and "WriteBlockToDisk env b q fs1 = Some (q', fs2)"
  shows "\<exists>n p. q' = \<lparr>pos_nFile = int n, pos_nPos = of_nat p\<rparr> \<and> p < 2 ^ 32 \<and> de_blk env n \<and> stored_block fs2 n p b"
proof -
  let ?a = "of_nat (length (ser_block b) + 8) :: u32"
  have "length (ser_block b) + 8 < 2 ^ 32" using assms(2) by simp
  then have a: "unat ?a = length (ser_block b) + 8" by (simp add: unsigned_of_nat take_bit_nat_eq_self del: of_nat_add)
  have "?a < MAX_BLOCKFILE_SIZE" using assms(2) a by (simp add: word_less_nat_alt MAX_BLOCKFILE_SIZE_def)
  from FindBlockPos_ok [OF this assms(1), of env st pos h t] assms(4) obtain n where
    n: "q = \<lparr>pos_nFile = int n, pos_nPos = pos_nPos q\<rparr>" "n < length (vinfoBlockFile fs1)"
    "unat (pos_nPos q) + unat ?a = unat (fi_nSize (vinfoBlockFile fs1 ! n))" by auto
  have f: "nat (pos_nFile q) = n" using n(1) by (metis CDiskBlockPos.select_convs(1) nat_int)
  let ?off = "unat (pos_nPos q)" and ?hd = "index_header env (ser_block b)"
  have h8: "length ?hd = 8" by (rule length_index_header [OF assms(3)])
  have w: "de_blk env n" "q' = q\<lparr>pos_nPos := of_nat (?off + 8)\<rparr>"
    "fs2 = fs1\<lparr>blk_files := (blk_files fs1)(n := write_at ?off (?hd @ ser_block b) (blk_files fs1 n))\<rparr>"
    using assms(5) f h8 by (auto simp: WriteBlockToDisk_def Let_def split: if_splits)
  have "?off + 8 + length (ser_block b) = unat (fi_nSize (vinfoBlockFile fs1 ! n))" using n(3) a by simp
  moreover have "unat (fi_nSize (vinfoBlockFile fs1 ! n)) < 2 ^ 32"
    using unsigned_less [of "fi_nSize (vinfoBlockFile fs1 ! n)"] by simp
  moreover have "has_at (?off + 8) (ser_block b) (blk_files fs2 n)"
    using has_at_append [OF has_at_write_at, of ?off ?hd "ser_block b" "blk_files fs1 n"] h8 by (simp add: w(3))
  moreover have "q' = \<lparr>pos_nFile = int n, pos_nPos = of_nat (?off + 8)\<rparr>" using w(2) n(1) by (metis CDiskBlockPos.update_convs(2))
  ultimately show ?thesis using w(1) n(2) by (intro exI [of _ n] exI [of _ "?off + 8"]) (simp add: stored_block_def w(3))
qed

section \<open>Theorems\<close>

text \<open>
  C12. A block that is stored is read back, whatever the node stores after it: finding a place always
  ends, with a place or out of disk space; and after the block is written and any further blocks and
  undo data are stored and files are finished, reading at the position gives the same block. Every
  block that was stored before is still stored.
\<close>

theorem block_storage:
  assumes "sized fs" and "wf_block (de_Hash env) b" and "length (ser_block b) + 8 < 2 ^ 27" and "length (de_MessageStart env) = 4"
    and "FindBlockPos env st pos (of_nat (length (ser_block b) + 8)) h t False fs = Some (Inr (Inr q, fs1))"
    and "WriteBlockToDisk env b q fs1 = Some (q', fs2)" and "(file_op env)\<^sup>*\<^sup>* fs2 fs3"
    and "CBlock_IsProofOfWork b \<longrightarrow> CheckProofOfWork (de_params env) (de_GetHash env (block_header b)) (hdr_nBits (block_header b))"
  shows "ReadBlockAt env fs3 q' = Some b \<and> (\<forall>n p c. stored_block fs n p c \<longrightarrow> stored_block fs3 n p c)
    \<and> (\<exists>r fs'. FindBlockPos env st pos' (of_nat (length (ser_block b) + 8)) h' t' False fs3 = Some (Inr (r, fs')))"
proof -
  let ?a = "of_nat (length (ser_block b) + 8) :: u32"
  have "length (ser_block b) + 8 < 2 ^ 32" using assms(3) by simp
  then have "unat ?a = length (ser_block b) + 8" by (simp add: unsigned_of_nat take_bit_nat_eq_self del: of_nat_add)
  then have a: "?a < MAX_BLOCKFILE_SIZE" using assms(3) by (simp add: word_less_nat_alt MAX_BLOCKFILE_SIZE_def del: of_nat_add)
  have s2: "files_step fs fs2 \<and> sized fs2" by (rule file_op_step [OF file_op.store_block [OF assms(5) a assms(6)] assms(1)])
  then have s3: "files_step fs2 fs3 \<and> sized fs3" using file_ops_step [OF assms(7)] by blast
  obtain n p where q': "q' = \<lparr>pos_nFile = int n, pos_nPos = of_nat p\<rparr>" "p < 2 ^ 32" "de_blk env n" "stored_block fs2 n p b"
    using stored_new_block [OF assms(1,3,4,5,6)] by blast
  have "ReadBlockAt env fs3 q' = Some b"
    unfolding q'(1) by (rule stored_block_read [OF stored_block_step [OF q'(4) conjunct1 [OF s3]] assms(2) q'(3,2) assms(8)])
  moreover have "\<forall>n p c. stored_block fs n p c \<longrightarrow> stored_block fs3 n p c"
    using s2 s3 stored_block_step by blast
  moreover have "\<exists>r fs'. FindBlockPos env st pos' ?a h' t' False fs3 = Some (Inr (r, fs'))"
    using FindBlockPos_ok [OF a conjunct2 [OF s3], of env st pos' h' t'] by blast
  ultimately show ?thesis by blast
qed

text \<open>
  C13. The undo data of a block reads back, whatever the node stores after it: the record written at
  the place found gives the same undo data under the hash of the block it was written for. Under
  another hash the read fails, unless the two checksums collide.
\<close>

theorem undo_storage:
  assumes "sized fs" and "wf_blockundo u" and "ec_law (de_IsFullyValid env) (de_EC_Decompress env)"
    and "ser_blockundo env u = Some bs" and "length (de_MessageStart env) = 4" and "\<And>x. length (de_Hash env x) = 8"
    and "FindUndoPos env st nf (of_nat (length bs + 40)) fs = Inr (Inr q, fs1)"
    and "unat (fi_nUndoSize (vinfoBlockFile fs ! nat nf)) + (length bs + 40) < 2 ^ 32"
    and "CBlockUndo_WriteToDisk env u q hash fs1 = Inr (Some (q', fs2))" and "(file_op env)\<^sup>*\<^sup>* fs2 fs3"
  shows "CBlockUndo_ReadFromDisk env fs3 q' hash = Inr (Some u)
    \<and> (\<forall>hash'. undo_checksum env hash' bs \<noteq> undo_checksum env hash bs \<longrightarrow> CBlockUndo_ReadFromDisk env fs3 q' hash' = Inr None)"
proof -
  let ?a = "of_nat (length bs + 40) :: u32" and ?n = "nat nf"
  have "length bs + 40 < 2 ^ 32" using assms(8) by simp
  then have a: "unat ?a = length bs + 40" by (simp add: unsigned_of_nat take_bit_nat_eq_self del: of_nat_add)
  then have fit: "unat (fi_nUndoSize (vinfoBlockFile fs ! ?n)) + unat ?a < 2 ^ 32" using assms(8) by simp
  note r = FindUndoPos_range [OF assms(7)]
  obtain p where p: "q = \<lparr>pos_nFile = nf, pos_nPos = p\<rparr>" "unat p + (length bs + 40) = unat (fi_nUndoSize (vinfoBlockFile fs1 ! ?n))"
      "?n < length (vinfoBlockFile fs1)"
    using FindUndoPos_ok [OF conjunct1 [OF r] conjunct2 [OF r] fit, of env st] assms(7) a by auto
  let ?hd = "index_header env bs" and ?c = "ser_limbs (undo_checksum env hash bs)"
  have h8: "length ?hd = 8" by (rule length_index_header [OF assms(5)])
  have c32: "length ?c = 32" by (simp add: undo_checksum_def assms(6))
  have w: "de_rev env ?n" "q' = \<lparr>pos_nFile = nf, pos_nPos = of_nat (unat p + 8)\<rparr>"
    "fs2 = fs1\<lparr>rev_files := (rev_files fs1)(?n := write_at (unat p) (?hd @ bs @ ?c) (rev_files fs1 ?n))\<rparr>"
    using assms(9) h8 by (auto simp: CBlockUndo_WriteToDisk_def Let_def p(1) assms(4) split: if_splits)
  have s2: "files_step fs fs2 \<and> sized fs2" by (rule file_op_step [OF file_op.store_undo [OF assms(7) fit assms(9)] assms(1)])
  then have s3: "files_step fs2 fs3" using file_ops_step [OF assms(10)] by blast
  have "has_at (unat p + 8) (bs @ ?c) (rev_files fs2 ?n)"
    using has_at_append [OF has_at_write_at, of "unat p" ?hd "bs @ ?c" "rev_files fs1 ?n"] h8 by (simp add: w(3))
  then have "stored_undo fs2 ?n (unat p + 8) (bs @ ?c)" using p(2,3) c32 by (simp add: stored_undo_def w(3))
  from stored_undo_step [OF this s3] have "has_at (unat p + 8) (bs @ ?c) (rev_files fs3 ?n)" by (simp add: stored_undo_def)
  from has_at_drop [OF this] obtain rest where d: "drop (unat p + 8) (rev_files fs3 ?n) = bs @ ?c @ rest" by auto
  have "unat p + 8 < 2 ^ 32" using p(2) unat_u32_lt [of "fi_nUndoSize (vinfoBlockFile fs1 ! ?n)"] by simp
  then have pos: "unat (of_nat (unat p + 8) :: u32) = unat p + 8"
    by (simp add: unsigned_of_nat take_bit_nat_eq_self del: of_nat_add)
  have "unser_blockundo env (bs @ ?c @ rest) = Inr (u, ?c @ rest)"
    using blockundo_roundtrip [OF assms(3,2)] assms(4) by auto
  moreover have "unser_limbs 8 (?c @ rest) = Inr (undo_checksum env hash bs, rest)"
    by (simp add: unser_limbs_iff undo_checksum_def assms(6))
  ultimately have "CBlockUndo_ReadFromDisk env fs3 q' h
      = Inr (if undo_checksum env hash bs \<noteq> undo_checksum env h bs then None else Some u)" for h
    using w(1) r pos by (simp add: CBlockUndo_ReadFromDisk_def w(2) CDiskBlockPos_IsNull_def d assms(4))
  then show ?thesis by auto
qed

definition ex_disk :: disk_env where
  "ex_disk = \<lparr>de_MessageStart = [1, 2, 3, 4], de_space = (\<lambda>_. True), de_blk = (\<lambda>_. True), de_rev = (\<lambda>_. True),
     de_Hash = (\<lambda>_. uint256_of_u64 7), de_GetHash = (\<lambda>_. uint256_of_u64 5), de_params = CMainParams\<lparr>SkipProofOfWorkCheck := True\<rparr>,
     de_IsFullyValid = (\<lambda>_. False), de_EC_Decompress = (\<lambda>_. None)\<rparr>"

definition ex_files :: block_files where
  "ex_files = \<lparr>vinfoBlockFile = [CBlockFileInfo_SetNull], nLastBlockFile = 0, setDirtyFileInfo = {}, blk_files = (\<lambda>_. []), rev_files = (\<lambda>_. [])\<rparr>"

definition ex_disk_block :: CBlock where
  "ex_disk_block = \<lparr>block_header = \<lparr>hdr_nVersion = 4, hashPrevBlock = uint256_of_u64 0, hashMerkleRoot = uint256_of_u64 0,
     hdr_nTime = 9, hdr_nBits = 0, nNonce = 0\<rparr>,
     vtx = [\<lparr>tx_hash = uint256_of_u64 7, tx_nVersion = 1, vin = [], vout = [\<lparr>nValue = 5, scriptPubKey = [1, 2]\<rparr>], nLockTime = 0\<rparr>], vchBlockSig = []\<rparr>"

lemma ex_files_sized: "sized ex_files"
  by (simp add: sized_def ex_files_def CBlockFileInfo_SetNull_def)

lemma space_place:
  assumes "FindBlockPos env st pos a h t False fs = Some (Inr (r, fs1))" and "de_space env = (\<lambda>_. True)"
  shows "\<exists>q. r = Inr q"
  using assms by (auto simp: FindBlockPos_def Let_def split: option.splits prod.splits if_splits)

lemma space_undo:
  assumes "FindUndoPos env st nf a fs = Inr (r, fs1)" and "de_space env = (\<lambda>_. True)"
  shows "\<exists>q. r = Inr q"
  using assms by (auto simp: FindUndoPos_def Let_def split: if_splits)

theorem block_storage_witness:
  "\<exists>q fs1 q' fs2. FindBlockPos ex_disk state_valid CDiskBlockPos_SetNull (of_nat (length (ser_block ex_disk_block) + 8)) 1 9 False ex_files
       = Some (Inr (Inr q, fs1)) \<and> WriteBlockToDisk ex_disk ex_disk_block q fs1 = Some (q', fs2)
     \<and> ReadBlockAt ex_disk (FlushBlockFile ex_disk True fs2) q' = Some ex_disk_block"
proof -
  have len: "length (ser_block ex_disk_block) = 102" by code_simp
  let ?F = "FindBlockPos ex_disk state_valid CDiskBlockPos_SetNull (of_nat (length (ser_block ex_disk_block) + 8)) 1 9 False ex_files"
  have "of_nat (length (ser_block ex_disk_block) + 8) < MAX_BLOCKFILE_SIZE" by (simp add: len MAX_BLOCKFILE_SIZE_def)
  from FindBlockPos_ok [OF this ex_files_sized, of ex_disk state_valid CDiskBlockPos_SetNull 1 9]
  obtain r fs1 where f: "?F = Some (Inr (r, fs1))" "\<And>q. r = Inr q \<Longrightarrow> \<exists>n. q = \<lparr>pos_nFile = int n, pos_nPos = pos_nPos q\<rparr>" by blast
  obtain q where q: "r = Inr q" using space_place [OF f(1)] by (auto simp: ex_disk_def)
  obtain n where n: "q = \<lparr>pos_nFile = int n, pos_nPos = pos_nPos q\<rparr>" using f(2) q by blast
  have "\<not> CDiskBlockPos_IsNull q" by (subst n) (simp add: CDiskBlockPos_IsNull_def)
  then obtain q' fs2 where w: "WriteBlockToDisk ex_disk ex_disk_block q fs1 = Some (q', fs2)"
    by (auto simp: WriteBlockToDisk_def Let_def ex_disk_def)
  have "wf_block (de_Hash ex_disk) ex_disk_block"
    by (simp add: wf_block_def wf_header_def wf_tx_def wf_txout_def ex_disk_block_def ex_disk_def MAX_SIZE_def CBlock_IsProofOfStake_def is_uint256_simps)
  then have "ReadBlockAt ex_disk (FlushBlockFile ex_disk True fs2) q' = Some ex_disk_block"
    using block_storage [OF ex_files_sized, of ex_disk ex_disk_block state_valid CDiskBlockPos_SetNull 1 9 q fs1 q' fs2 "FlushBlockFile ex_disk True fs2"]
      f(1) q w len r_into_rtranclp [of "file_op ex_disk", OF file_op.flush]
    by (auto simp: ex_disk_def CheckProofOfWork_def)
  then show ?thesis using f(1) q w by blast
qed

definition ex_undo :: "CTxInUndo list list" where
  "ex_undo = [[CTxInUndo_of \<lparr>nValue = 100, scriptPubKey = [81]\<rparr>]]"

theorem undo_storage_witness:
  "\<exists>q fs1 q' fs2. FindUndoPos ex_disk state_valid 0 (of_nat (length (the (ser_blockundo ex_disk ex_undo)) + 40)) ex_files = Inr (Inr q, fs1)
     \<and> CBlockUndo_WriteToDisk ex_disk ex_undo q (uint256_of_u64 6) fs1 = Inr (Some (q', fs2))
     \<and> CBlockUndo_ReadFromDisk ex_disk fs2 q' (uint256_of_u64 6) = Inr (Some ex_undo)"
proof -
  have bs: "ser_blockundo ex_disk ex_undo = Some [1, 1, 0, 3, 7, 81]" by code_simp
  let ?F = "FindUndoPos ex_disk state_valid 0 (of_nat (length (the (ser_blockundo ex_disk ex_undo)) + 40)) ex_files"
  have "(0::int) \<le> 0" "nat 0 < length (vinfoBlockFile ex_files)"
    "unat (fi_nUndoSize (vinfoBlockFile ex_files ! nat 0)) + unat (of_nat (length (the (ser_blockundo ex_disk ex_undo)) + 40) :: u32) < 2 ^ 32"
    by (simp_all add: ex_files_def CBlockFileInfo_SetNull_def bs)
  from FindUndoPos_ok [OF this, of ex_disk state_valid] obtain r fs1 where 1: "?F = Inr (r, fs1)"
      "\<forall>q. r = Inr q \<longrightarrow> q = \<lparr>pos_nFile = 0, pos_nPos = fi_nUndoSize (vinfoBlockFile ex_files ! nat 0)\<rparr>"
    by blast
  moreover obtain q where "r = Inr q" using space_undo [OF 1(1)] by (auto simp: ex_disk_def)
  ultimately have f: "?F = Inr (Inr q, fs1)" "pos_nFile q = 0" by auto
  have "de_rev ex_disk 0" by (simp add: ex_disk_def)
  then obtain q' fs2 where w: "CBlockUndo_WriteToDisk ex_disk ex_undo q (uint256_of_u64 6) fs1 = Inr (Some (q', fs2))"
    using f(2) by (simp add: CBlockUndo_WriteToDisk_def Let_def bs CDiskBlockPos_IsNull_def)
  have "wf_blockundo ex_undo"
    by (simp add: wf_blockundo_def ex_undo_def wf_undo_def CTxInUndo_of_def MAX_SIZE_def wf_output_def CTxOut_IsNull_def nSpecialScripts_def)
  note wf = this
  have F: "FindUndoPos ex_disk state_valid 0 (of_nat (length [1, 1, 0, 3, 7, 81 :: u8] + 40)) ex_files = Inr (Inr q, fs1)"
    using f(1) bs by simp
  have "CBlockUndo_ReadFromDisk ex_disk fs2 q' (uint256_of_u64 6) = Inr (Some ex_undo)"
  proof (rule conjunct1 [OF undo_storage [OF ex_files_sized wf _ bs _ _ F _ w rtranclp.rtrancl_refl]])
    show "ec_law (de_IsFullyValid ex_disk) (de_EC_Decompress ex_disk)" by (simp add: ec_law_def ex_disk_def)
    show "length (de_MessageStart ex_disk) = 4" "length (de_Hash ex_disk x) = 8" for x
      by (simp_all add: ex_disk_def is_uint256_simps [unfolded is_uint256_def])
    show "unat (fi_nUndoSize (vinfoBlockFile ex_files ! nat 0)) + (length [1, 1, 0, 3, 7, 81 :: u8] + 40) < 2 ^ 32"
      by (simp add: ex_files_def CBlockFileInfo_SetNull_def)
  qed
  then show ?thesis using f(1) w by blast
qed

end
