(* ===== verification/Node.thy ===== *)
theory Node
  imports Block_Files Accept_Tx Merkle
begin

text \<open>
  The node as a whole (\<^verbatim>\<open>src/main.cpp\<close>): what the globals hold besides the block tree,
  looking up a transaction, and the checks of a block that need no coins
  (\<^verbatim>\<open>CheckBlock\<close>, \<^verbatim>\<open>CheckWork\<close>,
  \<^verbatim>\<open>ContextualCheckBlockHeader\<close>, \<^verbatim>\<open>ContextualCheckBlock\<close>). A check is
  \<open>Inl\<close> with the state it rejects with, or \<open>Inr\<close> with the state it goes on with.
\<close>

section \<open>The state\<close>

text \<open>
  The coins, the pool, the limiter, the block files, the database of the block tree (file records, the
  last file, index entries under their hash, the transaction index) and the blocks rejected lately.
\<close>

record node_world =
  pcoinsTip :: tip_cache
  mempool :: CTxMemPool
  limiter :: free_limiter
  files :: block_files
  nLastWrite :: int
  fWarned :: bool
  db_files :: "nat \<rightharpoonup> CBlockFileInfo"
  db_last_file :: nat
  db_index :: "base_uint \<rightharpoonup> CBlockNode \<times> base_uint"
  db_txindex :: "base_uint \<rightharpoonup> CDiskBlockPos \<times> nat"
  mapRejectedBlocks :: "base_uint \<rightharpoonup> int"

type_synonym node_state = "node_world chain_state"

text \<open>
  Options, clocks, hash functions, and the answers of the masternode and SwiftTX managers. The
  environments of the components are templates: the fields that the state determines are filled in.
\<close>

record node_env =
  ne_chain :: chain_env
  ne_disk :: disk_env
  ne_accept :: accept_env
  ne_kernel :: kernel_env
  ne_HashPair :: hash2
  ne_HashGenesisBlock :: base_uint
  ne_nCoinCacheSize :: nat
  ne_GetTimeMicros :: int
  ne_tree_ok :: bool
  ne_coins_ok :: bool
  ne_spork3 :: bool
  ne_IsBlockPayeeValid :: "CBlock \<Rightarrow> int \<Rightarrow> bool"
  ne_maxreorg :: "int option"
  ne_new_address :: "block_store \<Rightarrow> ptr"

abbreviation ne_params :: "node_env \<Rightarrow> CChainParams" where "ne_params env \<equiv> ce_params (ne_chain env)"
abbreviation ne_GetHash :: "node_env \<Rightarrow> CBlockHeader \<Rightarrow> base_uint" where "ne_GetHash env \<equiv> ce_GetHash (ne_chain env)"
abbreviation block_hash :: "node_env \<Rightarrow> CBlock \<Rightarrow> base_uint" where "block_hash env b \<equiv> ne_GetHash env (block_header b)"

definition disk :: "node_env \<Rightarrow> disk_env" where
  "disk env = (ne_disk env)\<lparr>de_params := ne_params env, de_GetHash := ne_GetHash env\<rparr>"

definition entry_at :: "block_store \<Rightarrow> ptr \<Rightarrow> CBlockIndex option" where
  "entry_at st p = map_option blk (st p)"

text \<open>An entry and its ancestors; parents have smaller heights.\<close>

definition pprev_list :: "block_store \<Rightarrow> ptr \<Rightarrow> CBlockIndex list" where
  "pprev_list st p = (case st p of
     None \<Rightarrow> [] | Some b \<Rightarrow> List.map_filter (entry_at st) (lineage st (nat (nHeight (blk b))) p))"

definition upd_world :: "(node_world \<Rightarrow> node_world) \<Rightarrow> node_state \<Rightarrow> node_state" where
  "upd_world f s = s\<lparr>world := f (world s)\<rparr>"

section \<open>Looking up a transaction\<close>

definition read_indexed :: "disk_env \<Rightarrow> block_files \<Rightarrow> base_uint \<Rightarrow> CDiskBlockPos \<Rightarrow> nat \<Rightarrow> (CTransaction \<times> base_uint) option" where
  "read_indexed env fs hash postx nTxOffset =
     (if CDiskBlockPos_IsNull postx \<or> \<not> de_blk env (nat (pos_nFile postx)) then None
      else case unser_header (drop (unat (pos_nPos postx)) (blk_files fs (nat (pos_nFile postx)))) of
             Inl e \<Rightarrow> None
           | Inr (header, rest) \<Rightarrow> (case unser_tx (de_Hash env) (drop nTxOffset rest) of
               Inl e \<Rightarrow> None
             | Inr (txOut, _) \<Rightarrow> if tx_hash txOut \<noteq> hash then None else Some (txOut, de_GetHash env header)))"

definition coin_height :: "tip_cache \<Rightarrow> base_uint \<Rightarrow> int \<times> tip_cache" where
  "coin_height view hash =
     (case AccessCoins db_view view hash of (None, view) \<Rightarrow> (- 1, view) | (Some coins, view) \<Rightarrow> (coins_nHeight coins, view))"

text \<open>
  A transaction of the pool leaves \<^verbatim>\<open>hashBlock\<close> as it was, \<open>hash0\<close>. The slow
  way finds the block by the height of the coins and scans it.
\<close>

definition GetTransaction :: "node_env \<Rightarrow> base_uint \<Rightarrow> base_uint \<Rightarrow> bool \<Rightarrow> node_state
    \<Rightarrow> fault + (CTransaction \<times> base_uint) option \<times> node_state" where
  "GetTransaction env hash hash0 fAllowSlow s =
     (case pool_lookup (mempool (world s)) hash of
        Some tx \<Rightarrow> Inr (Some (tx, hash0), s)
      | None \<Rightarrow>
          if env_fTxIndex (ae_con (ne_accept env))
          then Inr (Option.bind (db_txindex (world s) hash) (\<lambda>(postx, off). read_indexed (disk env) (files (world s)) hash postx off), s)
          else if \<not> fAllowSlow then Inr (None, s)
          else case coin_height (pcoinsTip (world s)) hash of (h, tip) \<Rightarrow>
               let s = upd_world (\<lambda>w. w\<lparr>pcoinsTip := tip\<rparr>) s
               in (case (if 0 < h then at_height (chainActive s) h else None) of
                     None \<Rightarrow> Inr (None, s)
                   | Some p \<Rightarrow>
                       bindE (deref s (Some p)) (\<lambda>b. bindE (ReadBlockFromDisk (disk env) (files (world s)) b) (\<lambda>r.
                         case r of
                           None \<Rightarrow> Inr (None, s)
                         | Some block \<Rightarrow> (case find (\<lambda>tx. tx_hash tx = hash) (vtx block) of
                             None \<Rightarrow> Inr (None, s)
                           | Some tx \<Rightarrow> bindE (deref_hash b) (\<lambda>h. Inr (Some (tx, h), s)))))))"

section \<open>Checks of a block without its context\<close>

type_synonym 's checked = "fault + (CValidationState + CValidationState) \<times> 's"

definition CheckBlockHeader :: "node_env \<Rightarrow> CBlockHeader \<Rightarrow> CValidationState \<Rightarrow> bool \<Rightarrow> CValidationState + CValidationState" where
  "CheckBlockHeader env header st fCheckPOW =
     (if fCheckPOW \<and> \<not> CheckProofOfWork (ne_params env) (ne_GetHash env header) (hdr_nBits header)
      then Inl (state_DoS st 50 REJECT_INVALID ''high-hash'' False) else Inr st)"

definition STAKE_MIN_CONF :: int where "STAKE_MIN_CONF = 10"

definition block_time :: "CBlock \<Rightarrow> int" where "block_time block = int (unat (hdr_nTime (block_header block)))"

definition check_merkle :: "node_env \<Rightarrow> CBlock \<Rightarrow> CValidationState \<Rightarrow> CValidationState + CValidationState" where
  "check_merkle env block st =
     (case BuildMerkleTree (ne_HashPair env) (map tx_hash (vtx block)) of (_, hashMerkleRoot2, mutated) \<Rightarrow>
        if hashMerkleRoot (block_header block) \<noteq> hashMerkleRoot2 then Inl (state_DoS st 100 REJECT_INVALID ''bad-txnmrklroot'' True)
        else if mutated then Inl (state_DoS st 100 REJECT_INVALID ''bad-txns-duplicate'' True)
        else Inr st)"

text \<open>
  The checks up to the coinstake. A proof-of-stake block has a second transaction, so the test for an
  empty block there is never true.
\<close>

definition check_form :: "CBlock \<Rightarrow> CValidationState \<Rightarrow> CValidationState + CValidationState" where
  "check_form block st =
     (if vtx block = [] \<or> MAX_BLOCK_SIZE < length (vtx block) \<or> MAX_BLOCK_SIZE < length (ser_block block)
      then Inl (state_DoS st 100 REJECT_INVALID ''bad-blk-length'' False)
      else if \<not> IsCoinBase (vtx block ! 0) then Inl (state_DoS st 100 REJECT_INVALID ''bad-cb-missing'' False)
      else if list_ex IsCoinBase (drop 1 (vtx block)) then Inl (state_DoS st 100 REJECT_INVALID ''bad-cb-multiple'' False)
      else if CBlock_IsProofOfStake block
      then if length (vout (vtx block ! 0)) \<noteq> 1 \<or> \<not> CTxOut_IsEmpty (vout (vtx block ! 0) ! 0) then Inl (state_DoS st 100 0 '''' False)
           else if vtx block = [] \<or> \<not> IsCoinStake (vtx block ! 1) then Inl (state_DoS st 100 0 '''' False)
           else if list_ex IsCoinStake (drop 2 (vtx block)) then Inl (state_DoS st 100 0 '''' False)
           else Inr st
      else Inr st)"

definition check_shape :: "node_env \<Rightarrow> CBlock \<Rightarrow> CValidationState \<Rightarrow> bool \<Rightarrow> CValidationState + CValidationState" where
  "check_shape env block st fCheckMerkleRoot =
     (case CheckBlockHeader env (block_header block) st (CBlock_IsProofOfWork block) of
        Inl st \<Rightarrow> Inl (state_DoS st 100 REJECT_INVALID ''bad-header'' True)
      | Inr st \<Rightarrow>
          if ae_GetAdjustedTime (ne_accept env) + (if CBlock_IsProofOfStake block then 180 else 7200) < block_time block
          then Inl (state_Invalid st REJECT_INVALID ''time-too-new'')
          else bindE (if fCheckMerkleRoot then check_merkle env block st else Inr st) (check_form block))"

text \<open>
  The age of the staked output. The header of the entry reads the hash of its parent. The sum of time
  and minimum age is computed in 32 bits.
\<close>

definition header_read :: "node_state \<Rightarrow> ptr \<Rightarrow> fault + CBlockIndex" where
  "header_read s p = (case nodes s p of
     None \<Rightarrow> Inl NullRead
   | Some b \<Rightarrow> if pprev b = None then Inr (blk b) else bindE (deref s (pprev b)) (\<lambda>q. bindE (deref_hash q) (\<lambda>h. Inr (blk b))))"

definition check_stake_age :: "node_env \<Rightarrow> CBlock \<Rightarrow> CValidationState \<Rightarrow> node_state \<Rightarrow> node_state checked" where
  "check_stake_age env block st s =
     (let bad = Inl (state_DoS st 100 0 '''' False)
      in bindE (GetTransaction env (op_hash (prevout (vin (vtx block ! 1) ! 0))) (uint256_of_u64 0) True s) (\<lambda>(r, s).
         case r of
           None \<Rightarrow> Inr (bad, s)
         | Some (txPrev, hashBlockPrev) \<Rightarrow> (case mapBlockIndex (idx s) hashBlockPrev of
             None \<Rightarrow> Inr (bad, s)
           | Some pindex \<Rightarrow>
               bindE (header_read s pindex) (\<lambda>b.
                 if ae_GetAdjustedTime (ne_accept env) < int (unat (nTime b + nStakeMinAge)) then Inr (bad, s)
                 else bindE (deref s (chain_tip (chainActive s))) (\<lambda>t.
                   Inr (if nHeight t - nHeight b < STAKE_MIN_CONF then bad else Inr st, s))))))"

definition reject_block :: "node_env \<Rightarrow> CBlock \<Rightarrow> node_state \<Rightarrow> node_state" where
  "reject_block env block s = upd_world (\<lambda>w. w\<lparr>mapRejectedBlocks :=
     (if mapRejectedBlocks w (block_hash env block) = None
      then (mapRejectedBlocks w)(block_hash env block \<mapsto> ce_GetTime (ne_chain env)) else mapRejectedBlocks w)\<rparr>) s"

definition check_locks :: "node_env \<Rightarrow> CBlock \<Rightarrow> CValidationState \<Rightarrow> node_state \<Rightarrow> node_state checked" where
  "check_locks env block st s =
     (if ne_spork3 env \<and> list_ex (\<lambda>tx. \<not> IsCoinBase tx \<and> lock_conflict (ne_accept env) tx) (vtx block)
      then Inr (Inl (state_DoS st 0 REJECT_INVALID ''conflicting-tx-ix'' False), reject_block env block s)
      else Inr (Inr st, s))"

definition payee_height :: "CBlock \<Rightarrow> node_state \<Rightarrow> CBlockIndex \<Rightarrow> fault + int" where
  "payee_height block s pindexPrev =
     bindE (deref_hash pindexPrev) (\<lambda>h.
       if h = hashPrevBlock (block_header block) then Inr (nHeight pindexPrev + 1)
       else case mapBlockIndex (idx s) (hashPrevBlock (block_header block)) of
              None \<Rightarrow> Inr 0
            | Some p \<Rightarrow> bindE (deref s (Some p)) (\<lambda>b. Inr (nHeight b + 1)))"

definition check_payee :: "node_env \<Rightarrow> CBlock \<Rightarrow> CValidationState \<Rightarrow> node_state \<Rightarrow> node_state checked" where
  "check_payee env block st s =
     (case chain_tip (chainActive s) of
        None \<Rightarrow> Inr (Inr st, s)
      | Some t \<Rightarrow>
          bindE (deref s (Some t)) (\<lambda>pindexPrev. bindE (payee_height block s pindexPrev) (\<lambda>h.
          bindE (if h \<noteq> 0 then IsInitialBlockDownload (ne_chain env) s else Inr (True, s)) (\<lambda>(skip, s).
            if \<not> skip \<and> \<not> ne_IsBlockPayeeValid env block h
            then Inr (Inl (state_DoS st 0 REJECT_INVALID ''bad-cb-payee'' False), reject_block env block s)
            else Inr (Inr st, s)))))"

fun check_each_tx :: "CChainParams \<Rightarrow> CValidationState \<Rightarrow> CTransaction list \<Rightarrow> CValidationState + CValidationState" where
  "check_each_tx params st [] = Inr st"
| "check_each_tx params st (tx # txs) =
     (case CheckTransaction params tx of Inl r \<Rightarrow> Inl (state_reject st r) | Inr _ \<Rightarrow> check_each_tx params st txs)"

definition check_txs :: "node_env \<Rightarrow> CBlock \<Rightarrow> CValidationState \<Rightarrow> CValidationState + CValidationState" where
  "check_txs env block st =
     bindE (check_each_tx (ne_params env) st (vtx block)) (\<lambda>st.
       if MAX_BLOCK_SIGOPS < foldl (\<lambda>n tx. n + GetLegacySigOpCount tx) 0 (vtx block)
       then Inl (state_DoS st 100 REJECT_INVALID ''bad-blk-sigops'' True) else Inr st)"

text \<open>A check after the checks before it passed.\<close>

definition and_then :: "'s checked \<Rightarrow> (CValidationState \<Rightarrow> 's \<Rightarrow> 's checked) \<Rightarrow> 's checked" where
  "and_then m f = bindE m (\<lambda>(r, s). case r of Inl st \<Rightarrow> Inr (Inl st, s) | Inr st \<Rightarrow> f st s)"

text \<open>\<^verbatim>\<open>fCheckPOW\<close> and \<^verbatim>\<open>fCheckSig\<close> are not used by the code.\<close>

definition CheckBlock :: "node_env \<Rightarrow> CBlock \<Rightarrow> CValidationState \<Rightarrow> bool \<Rightarrow> bool \<Rightarrow> node_state \<Rightarrow> node_state checked" where
  "CheckBlock env block st fCheckPOW fCheckMerkleRoot s =
     and_then (Inr (check_shape env block st fCheckMerkleRoot, s)) (\<lambda>st s.
     and_then (if CBlock_IsProofOfStake block then check_stake_age env block st s else Inr (Inr st, s)) (\<lambda>st s.
     and_then (check_locks env block st s) (\<lambda>st s.
     and_then (check_payee env block st s) (\<lambda>st s. Inr (check_txs env block st, s)))))"

section \<open>Work and context\<close>

text \<open>
  \<^verbatim>\<open>ConvertBitsToDouble\<close> with the rounding of the hardware; \<open>None\<close> is the
  infinity of the division by a zero mantissa.
\<close>

definition ConvertBitsToDouble :: "(real \<Rightarrow> real) \<Rightarrow> u32 \<Rightarrow> real option" where
  "ConvertBitsToDouble rnd c =
     (let nShift = unat (drop_bit 24 c AND 0xff); m = unat (c AND 0x00ffffff)
      in if m = 0 then None
         else let dDiff = rnd (real 0xffff / real m)
              in Some (if nShift < 29 then ((\<lambda>d. rnd (d * 256)) ^^ (29 - nShift)) dDiff
                       else ((\<lambda>d. rnd (d / 256)) ^^ (nShift - 29)) dDiff))"

text \<open>\<^verbatim>\<open>abs(n1 - n2) > n1 * 0.5\<close>: false when \<^verbatim>\<open>n1\<close> is infinite.\<close>

definition work_differs :: "(real \<Rightarrow> real) \<Rightarrow> real option \<Rightarrow> real option \<Rightarrow> bool" where
  "work_differs rnd n1 n2 =
     (case (n1, n2) of (None, _) \<Rightarrow> False | (Some _, None) \<Rightarrow> True | (Some a, Some b) \<Rightarrow> rnd (a * (1 / 2)) < \<bar>rnd (a - b)\<bar>)"

definition lift_pow :: "pow_error + 'a \<Rightarrow> fault + 'a" where
  "lift_pow r = (case r of
     Inl (UintError e) \<Rightarrow> Inl (Threw_uint e) | Inl NullDeref \<Rightarrow> Inl NullRead | Inl AssertFailed \<Rightarrow> Inl AssertFalse | Inr x \<Rightarrow> Inr x)"

definition CheckWork :: "node_env \<Rightarrow> CBlock \<Rightarrow> ptr option \<Rightarrow> node_state \<Rightarrow> fault + bool" where
  "CheckWork env block pindexPrev s =
     (case pindexPrev of
        None \<Rightarrow> Inr False
      | Some p \<Rightarrow> bindE (deref s (Some p)) (\<lambda>b.
          bindE (lift_pow (GetNextWorkRequired (ne_params env) (pprev_list (nodes s) p))) (\<lambda>nBitsRequired.
            let rnd = ae_rnd (ne_accept env); c = hdr_nBits (block_header block)
            in Inr (if CBlock_IsProofOfWork block \<and> nHeight b + 1 \<le> LAST_POW_BLOCK (ne_params env)
                    then \<not> work_differs rnd (ConvertBitsToDouble rnd c) (ConvertBitsToDouble rnd nBitsRequired)
                    else c = nBitsRequired))))"

definition REJECT_OBSOLETE :: nat where "REJECT_OBSOLETE = 0x11"
definition REJECT_CHECKPOINT :: nat where "REJECT_CHECKPOINT = 0x43"

text \<open>The entry that \<^verbatim>\<open>mapBlockIndex\<close> holds for a hash.\<close>

definition map_entry :: "node_state \<Rightarrow> base_uint \<Rightarrow> CBlockIndex option" where
  "map_entry s h = Option.bind (mapBlockIndex (idx s) h) (entry_at (nodes s))"

definition outdated_version :: "node_env \<Rightarrow> CBlock \<Rightarrow> pprev_chain \<Rightarrow> bool" where
  "outdated_version env block prev =
     (let v = hdr_nVersion (block_header block); n = RejectBlockOutdatedMajority (ne_params env)
      in v < 2 \<and> IsSuperMajority (ne_params env) 2 prev n \<or> v < 3 \<and> IsSuperMajority (ne_params env) 3 prev n)"

definition ContextualCheckBlockHeader :: "node_env \<Rightarrow> CBlock \<Rightarrow> CValidationState \<Rightarrow> ptr option \<Rightarrow> node_state
    \<Rightarrow> fault + (CValidationState + CValidationState)" where
  "ContextualCheckBlockHeader env block st pindexPrev s =
     (let hash = block_hash env block in
      if hash = ne_HashGenesisBlock env then Inr (Inr st)
      else case pindexPrev of
        None \<Rightarrow> Inl AssertFalse
      | Some p \<Rightarrow> bindE (deref s (Some p)) (\<lambda>prev.
          let h = nHeight prev + 1;
              nMaxReorgDepth = (case ne_maxreorg env of Some n \<Rightarrow> n | None \<Rightarrow> MaxReorganizationDepth (ne_params env))
          in if nMaxReorgDepth \<le> Height (chainActive s) - h then Inr (Inl (state_DoS st 1 0 '''' False))
             else (case GetMedianTimePast (pprev_list (nodes s) p) of
                 None \<Rightarrow> Inl NullRead
               | Some median \<Rightarrow>
                   if block_time block \<le> median then Inr (Inl (state_Invalid st REJECT_INVALID ''time-too-old''))
                   else if \<not> Checkpoints_CheckBlock (ce_fEnabled (ne_chain env)) (ce_checkpoints (ne_chain env)) h hash False
                   then Inr (Inl (state_DoS st 100 REJECT_CHECKPOINT ''checkpoint mismatch'' False))
                   else if (case GetLastCheckpoint (ce_fEnabled (ne_chain env)) (ce_checkpoints (ne_chain env)) (map_entry s) of
                              None \<Rightarrow> False | Some pcheckpoint \<Rightarrow> h < nHeight pcheckpoint)
                   then Inr (Inl (state_DoS st 0 0 '''' False))
                   else if outdated_version env block (pprev_list (nodes s) p)
                   then Inr (Inl (state_Invalid st REJECT_OBSOLETE ''bad-version''))
                   else Inr (Inr st))))"

text \<open>The coinbase of a block has an input, since \<^verbatim>\<open>CheckBlock\<close> passed before.\<close>

definition ContextualCheckBlock :: "node_env \<Rightarrow> CBlock \<Rightarrow> CValidationState \<Rightarrow> ptr option \<Rightarrow> node_state
    \<Rightarrow> fault + (CValidationState + CValidationState)" where
  "ContextualCheckBlock env block st pindexPrev s =
     bindE (case pindexPrev of None \<Rightarrow> Inr 0 | Some p \<Rightarrow> bindE (deref s (Some p)) (\<lambda>b. Inr (nHeight b + 1))) (\<lambda>h.
       if list_ex (\<lambda>tx. \<not> IsFinalTx (Height (chainActive s)) (ae_GetAdjustedTime (ne_accept env)) tx h (block_time block)) (vtx block)
       then Inr (Inl (state_DoS st 10 REJECT_INVALID ''bad-txns-nonfinal'' False))
       else if 2 \<le> hdr_nVersion (block_header block)
               \<and> IsSuperMajority (ne_params env) 2 (case pindexPrev of None \<Rightarrow> [] | Some p \<Rightarrow> pprev_list (nodes s) p)
                   (EnforceBlockUpgradeMajority (ne_params env))
       then (if vtx block = [] \<or> vin (vtx block ! 0) = [] then Inl OutOfRange
             else let expect = push_int64 h; sig = scriptSig (vin (vtx block ! 0) ! 0)
                  in if length sig < length expect \<or> take (length expect) sig \<noteq> expect
                     then Inr (Inl (state_DoS st 100 REJECT_INVALID ''bad-cb-height'' False)) else Inr (Inr st))
       else Inr (Inr st))"

end
