(* ===== verification/Activate.thy ===== *)
theory Activate
  imports Best_Chain
begin

text \<open>
  \<^verbatim>\<open>ActivateBestChain\<close> ends, at the best candidate. The locale \<open>tip_operations\<close>
  states what it relies on when it connects and disconnects blocks; every step then lowers a measure of
  the blocks that are not known to be invalid and of the blocks better than the tip, unless a
  block is reported corrupted.
\<close>

section \<open>What the operations on the tip promise\<close>

definition chain_inv :: "'w chain_state \<Rightarrow> bool" where "chain_inv s \<longleftrightarrow> tree_ok s \<and> marker_ok s"

definition tip_step :: "'w chain_state \<Rightarrow> 'w chain_state \<Rightarrow> bool" where
  "tip_step s s' \<longleftrightarrow> chain_inv s' \<and> same_tree (nodes s) (nodes s') \<and> mapBlockIndex (idx s') = mapBlockIndex (idx s)
     \<and> (\<forall>q. failed (nodes s) q \<longrightarrow> failed (nodes s') q)
     \<and> set (setBlockIndexCandidates s') \<subseteq> set (setBlockIndexCandidates s)"

lemma tip_step_refl: "chain_inv s \<Longrightarrow> tip_step s s"
  by (simp add: tip_step_def)

lemma tip_step_trans: "tip_step a b \<Longrightarrow> tip_step b c \<Longrightarrow> tip_step a c"
  unfolding tip_step_def by (elim conjE) (auto intro: same_tree_trans)

lemma tip_step_inv: "tip_step s s' \<Longrightarrow> chain_inv s'" by (simp add: tip_step_def)

lemma search_step_tip: "search_step s s' \<Longrightarrow> chain_inv s \<Longrightarrow> marker_ok s' \<Longrightarrow> tip_step s s'"
  unfolding tip_step_def chain_inv_def using search_step_tree_ok [of s s'] by (auto simp: search_step_def)

text \<open>Steps that leave the index and the chain alone and at most drop candidates.\<close>

lemma tip_step_frame:
  assumes "chain_inv s" and "idx s' = idx s" and "chainActive s' = chainActive s"
    and "set (setBlockIndexCandidates s') \<subseteq> set (setBlockIndexCandidates s)" and "sorted_wrt (wl (nodes s)) (setBlockIndexCandidates s')"
    and "marker_ok s'"
  shows "tip_step s s'"
  unfolding tip_step_def using assms by (auto simp: chain_inv_def tree_ok_def cand_ok_def)

locale tip_operations =
  fixes ops :: "'w tip_ops"
  assumes disconnect_returns:
      "chain_inv s \<Longrightarrow> chain_tip (chainActive s) = Some t \<Longrightarrow> \<exists>r. op_DisconnectTip ops st s = Some r"
    and disconnect_step:
      "chain_inv s \<Longrightarrow> chain_tip (chainActive s) = Some t \<Longrightarrow> op_DisconnectTip ops st s = Some (Inr ((ok, st'), s'))
        \<Longrightarrow> tip_step s s' \<and> chainActive s' = (if ok then butlast (chainActive s) else chainActive s)"
    and connect_returns:
      "chain_inv s \<Longrightarrow> nodes s p = Some b \<Longrightarrow> pprev b = chain_tip (chainActive s) \<Longrightarrow> \<exists>r. op_ConnectTip ops st p pb fc s = Some r"
    and connect_step:
      "chain_inv s \<Longrightarrow> nodes s p = Some b \<Longrightarrow> pprev b = chain_tip (chainActive s)
        \<Longrightarrow> op_ConnectTip ops st p pb fc s = Some (Inr ((ok, st'), s'))
        \<Longrightarrow> tip_step s s' \<and> chainActive s' = (if ok then chainActive s @ [Some p] else chainActive s)
          \<and> (\<not> ok \<longrightarrow> vs_mode st' = MODE_INVALID \<longrightarrow> \<not> corruptionPossible st' \<longrightarrow> failed (nodes s') p)"
    and flush_returns: "chain_inv s \<Longrightarrow> \<exists>r. op_FlushPeriodic ops st s = Some r"
    and flush_step: "chain_inv s \<Longrightarrow> op_FlushPeriodic ops st s = Some (Inr ((ok, st'), s'))
        \<Longrightarrow> tip_step s s' \<and> chainActive s' = chainActive s"

text \<open>The node stores no block that turns out to be corrupted when it is connected.\<close>

locale sound_tip_operations = tip_operations +
  assumes no_corruption:
    "chain_inv s \<Longrightarrow> op_ConnectTip ops st p pb fc s = Some (Inr ((False, st'), s')) \<Longrightarrow> vs_mode st' = MODE_INVALID
      \<Longrightarrow> \<not> corruptionPossible st'"

section \<open>Paths\<close>

lemma chain_tip_take: "i \<le> length v \<Longrightarrow> chain_tip (take i v) = (if i = 0 then None else v ! (i - 1))"
  by (auto simp: chain_tip_def min_def)

lemma path_Some:
  assumes "wf_store st" and "st m = Some b" and "i \<le> hgt b"
  obtains q c where "path st m (hgt b) ! i = Some q" "st q = Some c" "hgt c = i" "nHeight (blk c) = int i"
    "pprev c = (if i = 0 then None else path st m (hgt b) ! (i - 1))"
proof -
  obtain q c where q: "up st (hgt b - i) m = Some q" "st q = Some c" "hgt c = hgt b - (hgt b - i)"
    using up_exists [OF assms(1,2), of "hgt b - i"] by auto
  obtain n where "nHeight (blk c) = int n" by (rule wf_height [OF assms(1) q(2)])
  then have h: "nHeight (blk c) = int i" using q(3) assms(3) by simp
  have "pprev c = (if i = 0 then None else path st m (hgt b) ! (i - 1))"
  proof (cases "i = 0")
    case True
    then show ?thesis using wf_root [OF assms(1) q(2)] h by simp
  next
    case False
    then have "Suc (hgt b - i) = hgt b - (i - 1)" using assms(3) by linarith
    then show ?thesis using up_Suc [OF q(1,2)] assms(3) False by simp
  qed
  then show ?thesis using that q h assms(3) by simp
qed

lemma path_nth_inj:
  assumes "wf_store st" and "st m = Some b" and "i \<le> hgt b" and "j \<le> hgt b" and "path st m (hgt b) ! i = path st m (hgt b) ! j"
  shows "i = j"
proof -
  obtain q c where "path st m (hgt b) ! i = Some q" "st q = Some c" "hgt c = i" by (rule path_Some [OF assms(1-3)])
  moreover obtain q' c' where "path st m (hgt b) ! j = Some q'" "st q' = Some c'" "hgt c' = j" by (rule path_Some [OF assms(1,2,4)])
  ultimately show ?thesis using assms(5) by simp
qed

text \<open>A prefix of a path is the path to its last block.\<close>

lemma path_take:
  assumes "wf_store st" and "st m = Some b" and "i \<le> hgt b" and "path st m (hgt b) ! i = Some q"
  shows "take (Suc i) (path st m (hgt b)) = path st q i"
proof (rule path_eqI)
  show "length (take (Suc i) (path st m (hgt b))) = Suc i" using assms(3) by simp
  fix j assume j: "j \<le> i"
  have u: "up st (hgt b - i) m = Some q" using assms(3,4) by simp
  have "hgt b - j = (hgt b - i) + (i - j)" using j assms(3) by simp
  then have "up st (hgt b - j) m = up st (i - j) q" using up_add_Some [OF u, of "i - j"] by simp
  then show "take (Suc i) (path st m (hgt b)) ! j = up st (i - j) q" using j assms(3) by simp
qed

lemma chain_ok_take:
  assumes "wf_store st" and "st m = Some b"
  shows "chain_ok st (take i (path st m (hgt b)))"
proof (cases "i = 0")
  case False
  define k where "k = min (i - 1) (hgt b)"
  have k: "take i (path st m (hgt b)) = take (Suc k) (path st m (hgt b))" "k \<le> hgt b"
    using False by (auto simp: k_def min_def intro: take_equalityI)
  obtain q c where q: "path st m (hgt b) ! k = Some q" "st q = Some c" "hgt c = k" by (rule path_Some [OF assms k(2)])
  then show ?thesis using path_take [OF assms k(2) q(1)] k(1) unfolding chain_ok_def by metis
qed (simp add: chain_ok_def)

lemma collect_path_ok:
  assumes "wf_store st" and "st m = Some b"
  shows "T \<le> hgt b \<Longrightarrow> j \<le> Suc T \<Longrightarrow> \<exists>ps. collect_path st (int j - 1) (path st m (hgt b) ! T) = Some (Inr (rev ps))
    \<and> map Some ps = drop j (take (Suc T) (path st m (hgt b)))"
proof (induction T)
  case 0
  obtain q c where q: "path st m (hgt b) ! 0 = Some q" "st q = Some c" "nHeight (blk c) = 0" "pprev c = None"
    by (rule path_Some [OF assms 0(1)]) simp
  have n: "collect_path st h None = Some (Inr [])" for h by (simp add: collect_path.simps)
  show ?case
  proof (cases "j = 0")
    case True
    then have "collect_path st (int j - 1) (Some q) = Some (Inr (rev [q]))" using q n by (subst collect_path.simps) simp
    moreover have "take (Suc 0) (path st m (hgt b)) = [Some q]" using q(1) by (simp add: take_Suc_conv_app_nth)
    ultimately show ?thesis using q(1) True by (intro exI [of _ "[q]"]) simp
  next
    case False
    then have "j = 1" using 0(2) by simp
    then show ?thesis using q by (intro exI [of _ "[]"]) (simp add: collect_path.simps)
  qed
next
  case (Suc T)
  obtain q c where q: "path st m (hgt b) ! Suc T = Some q" "st q = Some c" "nHeight (blk c) = int (Suc T)"
      "pprev c = path st m (hgt b) ! T"
    by (rule path_Some [OF assms Suc.prems(1)]) simp
  show ?case
  proof (cases "j = Suc (Suc T)")
    case True
    then show ?thesis using q by (intro exI [of _ "[]"]) (simp add: collect_path.simps)
  next
    case False
    then have j: "j \<le> Suc T" using Suc.prems(2) by simp
    obtain ps where ps: "collect_path st (int j - 1) (path st m (hgt b) ! T) = Some (Inr (rev ps))"
        "map Some ps = drop j (take (Suc T) (path st m (hgt b)))"
      using Suc.IH j Suc.prems(1) by auto
    have "collect_path st (int j - 1) (Some q) = Some (Inr (q # rev ps))" using q ps(1) j by (subst collect_path.simps) simp
    moreover have "drop j (take (Suc (Suc T)) (path st m (hgt b))) = drop j (take (Suc T) (path st m (hgt b))) @ [Some q]"
      using q(1) j Suc.prems(1) by (subst take_Suc_conv_app_nth) simp_all
    ultimately show ?thesis using q(1) ps(2) by (intro exI [of _ "ps @ [q]"]) simp
  qed
qed

section \<open>Frames of the local steps\<close>

lemma IsInitialBlockDownload_frame:
  "IsInitialBlockDownload env s = Inr (r, s') \<Longrightarrow> s' = s \<or> s' = s\<lparr>lockIBDState := True\<rparr>"
  by (auto simp: IsInitialBlockDownload_def bindE_def Let_def split: if_splits sum.splits)

definition warning_step :: "'w chain_state \<Rightarrow> 'w chain_state \<Rightarrow> bool" where
  "warning_step s s' \<longleftrightarrow> idx s' = idx s \<and> chainActive s' = chainActive s \<and> setBlockIndexCandidates s' = setBlockIndexCandidates s
     \<and> (pindexBestInvalid s' = pindexBestInvalid s \<or> pindexBestInvalid s' = None
        \<or> (\<exists>p\<in>dom (nodes s). pindexBestInvalid s' = Some p))
     \<and> world s' = world s"

lemma warning_step_trans: "warning_step a b \<Longrightarrow> warning_step b c \<Longrightarrow> warning_step a c"
  unfolding warning_step_def by auto

lemma warning_step_refl: "warning_step s s" by (simp add: warning_step_def)

lemma warning_step_tip: "warning_step s s' \<Longrightarrow> chain_inv s \<Longrightarrow> tip_step s s' \<and> chainActive s' = chainActive s"
  by (auto simp: warning_step_def chain_inv_def marker_ok_def tree_ok_def cand_ok_def intro!: tip_step_frame)

lemma drop_old_fork_frame: "drop_old_fork s = Inr s' \<Longrightarrow> warning_step s s'"
  by (auto simp: drop_old_fork_def bindE_Inr warning_step_def split: if_splits)

lemma set_warnings_frame: "set_warnings w s = Inr s' \<Longrightarrow> warning_step s s'"
  by (auto simp: set_warnings_def bindE_Inr warning_step_def split: if_splits)

lemma note_new_fork_frame: "note_new_fork p q s = Inr s' \<Longrightarrow> warning_step s s'"
  by (auto simp: note_new_fork_def bindE_Inr warning_step_def split: if_splits)

lemma CheckForkWarningConditions_frame:
  assumes "CheckForkWarningConditions env s = Inr s'"
  shows "warning_step s s'"
proof -
  obtain r s1 where s1: "IsInitialBlockDownload env s = Inr (r, s1)"
      "(if r then Inr s1 else bindE (drop_old_fork s1) (\<lambda>s. bindE (if pindexBestForkTip s \<noteq> None then Inr True else invalid_chain_longer s)
         (\<lambda>warn. set_warnings warn s))) = Inr s'"
    using assms unfolding CheckForkWarningConditions_def bindE_Inr by fast
  have w1: "warning_step s s1" using IsInitialBlockDownload_frame [OF s1(1)] by (auto simp: warning_step_def)
  show ?thesis
  proof (cases r)
    case True
    then show ?thesis using s1(2) w1 by simp
  next
    case False
    then obtain s2 warn where "drop_old_fork s1 = Inr s2" "set_warnings warn s2 = Inr s'"
      using s1(2) unfolding if_not_P [OF False] bindE_Inr by blast
    then show ?thesis using warning_step_trans w1 drop_old_fork_frame set_warnings_frame by blast
  qed
qed

lemma CheckForkWarningConditionsOnNewFork_frame:
  assumes "CheckForkWarningConditionsOnNewFork env p s = Some (Inr s')"
  shows "warning_step s s'"
proof -
  obtain s1 pfork where s1: "note_new_fork p pfork s = Inr s1" "CheckForkWarningConditions env s1 = Inr s'"
    using assms by (auto simp: CheckForkWarningConditionsOnNewFork_def bindP_Inr bindE_Inr)
  show ?thesis using warning_step_trans [OF note_new_fork_frame [OF s1(1)] CheckForkWarningConditions_frame [OF s1(2)]] .
qed

lemma InvalidChainFound_frame:
  assumes "InvalidChainFound env p s = Inr s'"
  shows "warning_step s s'"
proof -
  obtain s1 new where s1: "raise_best_invalid p s = Inr s1" "deref s1 (Some p) = Inr new" "CheckForkWarningConditions env s1 = Inr s'"
    using assms by (auto simp: InvalidChainFound_def bindE_Inr split: if_splits)
  have "s1 = s \<or> s1 = s\<lparr>pindexBestInvalid := Some p\<rparr>"
    using s1(1) unfolding raise_best_invalid_def bindE_Inr by (elim exE conjE) (simp split: if_splits)
  then have "warning_step s s1" using s1(2) by (auto simp: warning_step_def deref_Inr)
  then show ?thesis using warning_step_trans CheckForkWarningConditions_frame [OF s1(3)] by blast
qed

lemma prune_candidates_suffix: "prune_candidates s ps = Inr qs \<Longrightarrow> \<exists>xs. ps = xs @ qs"
proof (induction ps)
  case (Cons p ps)
  then obtain lt where lt: "(if lt then prune_candidates s ps else Inr (p # ps)) = Inr qs" by (auto simp: bindE_Inr)
  show ?case
  proof (cases lt)
    case True
    then obtain xs where "ps = xs @ qs" using Cons.IH lt by auto
    then show ?thesis by (intro exI [of _ "p # xs"]) simp
  qed (use lt in auto)
qed simp

lemma PruneBlockIndexCandidates_frame:
  assumes "PruneBlockIndexCandidates s = Inr s'" and "chain_inv s"
  shows "tip_step s s' \<and> chainActive s' = chainActive s \<and> nodes s' = nodes s"
proof -
  obtain qs xs where qs: "setBlockIndexCandidates s = xs @ qs" "s' = s\<lparr>setBlockIndexCandidates := qs\<rparr>"
    using assms(1) prune_candidates_suffix [of s "setBlockIndexCandidates s"]
    unfolding PruneBlockIndexCandidates_def bindE_Inr by (elim exE conjE) (auto split: if_splits)
  have "sorted_wrt (wl (nodes s)) (setBlockIndexCandidates s)" using assms(2) by (simp add: chain_inv_def tree_ok_def cand_ok_def)
  then have "sorted_wrt (wl (nodes s)) qs" using qs(1) by (simp add: sorted_wrt_append)
  then show ?thesis using qs assms(2)
    by (auto simp: chain_inv_def marker_ok_def intro!: tip_step_frame)
qed

text \<open>Induction along the walk to the genesis block.\<close>

lemma parent_induct [consumes 1, case_names dangling node]:
  assumes "wf_store st" and "\<And>q. st q = None \<Longrightarrow> P q"
    and "\<And>q b. st q = Some b \<Longrightarrow> (\<And>r. pprev b = Some r \<Longrightarrow> P r) \<Longrightarrow> P q"
  shows "P q"
proof (induction "case st q of None \<Rightarrow> 0 | Some b \<Rightarrow> hgt b" arbitrary: q rule: less_induct)
  case less
  show ?case
  proof (cases "st q")
    case None
    then show ?thesis by (rule assms(2))
  next
    case (Some b)
    have "P r" if r: "pprev b = Some r" for r
    proof -
      obtain c where c: "st r = Some c" "nHeight (blk b) = nHeight (blk c) + 1"
        using wf_storeD [OF assms(1) Some] r by (auto simp: wf_node_def)
      obtain n where "nHeight (blk c) = int n" by (rule wf_height [OF assms(1) c(1)])
      then have "hgt c < hgt b" using c(2) by simp
      then show ?thesis using less Some c(1) by simp
    qed
    then show ?thesis by (rule assms(3) [OF Some])
  qed
qed

text \<open>The walks that look for a fork end.\<close>

lemma longer_loop_ends:
  assumes "wf_store st"
  shows "\<exists>r. longer_loop st h q = Some r"
proof -
  have n: "longer_loop st h None = Some (Inr None)" by (simp add: longer_loop.simps)
  have "\<exists>r. longer_loop st h (Some p) = Some r" for p
    using assms
  proof (induction p rule: parent_induct)
    case (node q b)
    have "\<exists>r. longer_loop st h (pprev b) = Some r" using node.IH n by (cases "pprev b") auto
    then show ?case using node(1) by (subst longer_loop.simps) auto
  qed (simp add: longer_loop.simps)
  then show ?thesis using n by (cases q) auto
qed

lemma pfork_loop_ends:
  assumes "wf_store st"
  shows "\<exists>r. pfork_loop st (Some q) l = Some r"
  using assms
proof (induction q arbitrary: l rule: parent_induct)
  case (node q b)
  obtain r where r: "longer_loop st (nHeight (blk b)) l = Some r" using longer_loop_ends [OF assms] by blast
  have "pfork_loop st None l' = Some (Inr None)" for l' by (simp add: pfork_loop.simps)
  then have "\<exists>r. pfork_loop st (pprev b) l' = Some r" for l' using node.IH by (cases "pprev b") auto
  then show ?case using node(1) r by (subst pfork_loop.simps) (cases r, auto)
qed (simp add: pfork_loop.simps)

lemma CheckForkWarningConditionsOnNewFork_ends:
  assumes "wf_store (nodes s)"
  shows "\<exists>r. CheckForkWarningConditionsOnNewFork env p s = Some r"
proof -
  obtain r where "pfork_loop (nodes s) (Some p) (chain_tip (chainActive s)) = Some r"
    using pfork_loop_ends [OF assms] by blast
  then show ?thesis by (cases r) (auto simp: CheckForkWarningConditionsOnNewFork_def)
qed

section \<open>One step of the activation\<close>

lemma drop_take_Cons: "map Some (p # ps) = drop j (take e v) \<Longrightarrow> j < length v \<and> j < e \<and> v ! j = Some p \<and> map Some ps = drop (Suc j) (take e v)"
proof -
  assume a: "map Some (p # ps) = drop j (take e v)"
  then have "length (drop j (take e v)) > 0" by (metis length_greater_0_conv list.map_disc_iff list.discI)
  then have j: "j < length v" "j < e" by simp_all
  then have "drop j (take e v) = v ! j # drop (Suc j) (take e v)" by (subst Cons_nth_drop_Suc [symmetric]) simp_all
  then show ?thesis using a j by simp
qed

lemma take_snoc: "j < length v \<Longrightarrow> take j v @ [v ! j] = take (Suc j) v"
  by (simp add: take_Suc_conv_app_nth)

lemma tip_better_work:
  assumes "tip_better s old = Inr True" and "works_ok (nodes s)" and "old = Some o'"
  shows "\<exists>t. chain_tip (chainActive s) = Some t \<and> t \<in> dom (nodes s) \<and> work (nodes s) o' < work (nodes s) t"
  using assms by (auto simp: tip_better_def bindE_Inr deref_Inr work_def works_ok_def uint256_lt_iff)

context tip_operations begin

lemma disconnect_to_ok:
  assumes "wf_store st0" and "st0 t = Some c" and "v = path st0 t (hgt c)"
    and "fork = (if k = 0 then None else v ! (k - 1))"
  shows "chain_inv s \<Longrightarrow> same_tree st0 (nodes s) \<Longrightarrow> chainActive s = take i v \<Longrightarrow> k \<le> i \<Longrightarrow> i \<le> length v \<Longrightarrow>
    \<exists>r. disconnect_to ops fork st s = Some r
      \<and> (\<forall>ok st' s'. r = Inr ((ok, st'), s') \<longrightarrow> tip_step s s' \<and> (ok \<longrightarrow> chainActive s' = take k v))"
proof (induction i arbitrary: s st)
  case 0
  have "disconnect_to ops fork st s = Some (Inr ((True, st), s))" using 0 by (subst disconnect_to.simps) (simp add: chain_tip_def)
  then show ?case using tip_step_refl [OF 0(1)] 0 by simp
next
  case (Suc i)
  have len: "length v = Suc (hgt c)" using assms(3) by simp
  have tip: "chain_tip (chainActive s) = v ! i" using Suc.prems(3,5) chain_tip_take [of "Suc i" v] by simp
  obtain q d where q: "v ! i = Some q" by (rule path_Some [OF assms(1,2), of i]) (use Suc.prems(5) len assms(3) in simp_all)
  show ?case
  proof (cases "k = Suc i")
    case True
    then have "disconnect_to ops fork st s = Some (Inr ((True, st), s))"
      using tip q assms(4) by (subst disconnect_to.simps) simp
    then show ?thesis using tip_step_refl [OF Suc.prems(1)] Suc.prems(3) True by simp
  next
    case False
    then have k: "k \<le> i" using Suc.prems(4) by simp
    have ne: "v ! i \<noteq> fork"
    proof (cases "k = 0")
      case False
      then have "v ! i \<noteq> v ! (k - 1)" using path_nth_inj [OF assms(1,2), of i "k - 1"] k Suc.prems(5) len assms(3) by fastforce
      then show ?thesis using assms(4) False by simp
    qed (use q assms(4) in simp)
    obtain r where r: "op_DisconnectTip ops st s = Some r" using disconnect_returns [OF Suc.prems(1)] tip q by fastforce
    have e: "disconnect_to ops fork st s = bindP (Some r) (\<lambda>((ok, st), s).
             if ok then disconnect_to ops fork st s else Some (Inr ((False, st), s)))"
      using tip q ne r by (subst disconnect_to.simps) simp
    show ?thesis
    proof (cases r)
      case (Inl x)
      then show ?thesis using e by simp
    next
      case (Inr x)
      obtain ok st1 s1 where x: "x = ((ok, st1), s1)" by (metis surj_pair)
      have s1: "tip_step s s1" "chainActive s1 = (if ok then butlast (chainActive s) else chainActive s)"
        using disconnect_step [OF Suc.prems(1)] tip q r Inr x by fastforce+
      show ?thesis
      proof (cases ok)
        case False
        then show ?thesis using e Inr x s1(1) by simp
      next
        case True
        have "chainActive s1 = take i v" using s1(2) True Suc.prems(3,5) by (simp add: butlast_take)
        moreover have "same_tree st0 (nodes s1)" using same_tree_trans Suc.prems(2) s1(1) unfolding tip_step_def by blast
        ultimately obtain r2 where r2: "disconnect_to ops fork st1 s1 = Some r2"
            "\<forall>ok st' s'. r2 = Inr ((ok, st'), s') \<longrightarrow> tip_step s1 s' \<and> (ok \<longrightarrow> chainActive s' = take k v)"
          using Suc.IH [OF tip_step_inv [OF s1(1)]] k Suc.prems(5) by fastforce
        then show ?thesis using e Inr x True tip_step_trans [OF s1(1)] by fastforce
      qed
    qed
  qed
qed

end

context sound_tip_operations begin

lemma connect_each_ok:
  assumes "wf_store st0" and "st0 m = Some b" and "v = path st0 m (hgt b)" and "old \<in> Some ` dom st0 \<union> {None}"
  shows "chain_inv s \<Longrightarrow> same_tree st0 (nodes s) \<Longrightarrow> chainActive s = take j v \<Longrightarrow> map Some ps = drop j (take e v) \<Longrightarrow>
    j \<le> e \<Longrightarrow> e \<le> length v \<Longrightarrow>
    \<exists>r. connect_each env ops m pb fc old low ps st s = Some r
      \<and> (\<forall>status st' s'. r = Inr ((status, st'), s') \<longrightarrow> tip_step s s' \<and>
          (case status of All_connected \<Rightarrow> chainActive s' = take e v
           | Better_tip \<Rightarrow> \<exists>t. chain_tip (chainActive s') = Some t \<and> t \<in> dom st0 \<and> (\<forall>p. old = Some p \<longrightarrow> work st0 p < work st0 t)
           | Invalid_found q \<Rightarrow> \<exists>p\<in>set ps. failed (nodes s') p
           | System_error \<Rightarrow> True))"
proof (induction ps arbitrary: s st j)
  case Nil
  then have "e \<le> j" by simp
  then have "e = j" using Nil.prems(5) by simp
  then show ?case using tip_step_refl [OF Nil.prems(1)] Nil.prems(3) by simp
next
  case (Cons p ps)
  have j: "j < length v" "j < e" "v ! j = Some p" "map Some ps = drop (Suc j) (take e v)"
    using drop_take_Cons [OF Cons.prems(4)] by auto
  have len: "length v = Suc (hgt b)" using assms(3) by simp
  obtain c where c: "st0 p = Some c" "pprev c = (if j = 0 then None else v ! (j - 1))"
    by (rule path_Some [OF assms(1,2), of j]) (use j len assms(3) in auto)
  obtain c' where c': "nodes s p = Some c'" "pprev c' = pprev c" using same_treeD [OF Cons.prems(2) c(1)] by (auto simp: same_block_def)
  have pp: "pprev c' = chain_tip (chainActive s)"
    using c(2) c'(2) Cons.prems(3) chain_tip_take [of j v] j(1) by simp
  let ?pb = "if p = m then pb else None"
  obtain r where r: "op_ConnectTip ops st p ?pb fc s = Some r" using connect_returns [OF Cons.prems(1) c'(1) pp] by blast
  show ?case
  proof (cases r)
    case (Inl x)
    then show ?thesis using r by simp
  next
    case (Inr x)
    obtain ok st1 s1 where x: "x = ((ok, st1), s1)" by (metis surj_pair)
    have s1: "tip_step s s1" "chainActive s1 = (if ok then chainActive s @ [Some p] else chainActive s)"
        "\<not> ok \<Longrightarrow> vs_mode st1 = MODE_INVALID \<Longrightarrow> \<not> corruptionPossible st1 \<Longrightarrow> failed (nodes s1) p"
      using connect_step [OF Cons.prems(1) c'(1) pp] r Inr x by blast+
    have inv1: "chain_inv s1" using tip_step_inv [OF s1(1)] .
    show ?thesis
    proof (cases ok)
      case False
      show ?thesis
      proof (cases "vs_mode st1 = MODE_INVALID")
        case True
        have "op_ConnectTip ops st p ?pb fc s = Some (Inr ((False, st1), s1))" using r Inr x False by simp
        then have nc: "\<not> corruptionPossible st1" using no_corruption [OF Cons.prems(1) _ True] by blast
        have f: "failed (nodes s1) p" using s1(3) False True nc by blast
        have e: "connect_each env ops m pb fc old low (p # ps) st s = bindP (Some (InvalidChainFound env low s1)) (\<lambda>s.
                    Some (Inr ((Invalid_found low, state_valid), s)))"
          using r Inr x False True nc by simp
        show ?thesis
        proof (cases "InvalidChainFound env low s1")
          case (Inl y)
          then show ?thesis unfolding e by simp
        next
          case (Inr s2)
          then have w: "warning_step s1 s2" by (rule InvalidChainFound_frame)
          then have "tip_step s s2" using warning_step_tip [OF w inv1] tip_step_trans [OF s1(1)] by blast
          moreover have "failed (nodes s2) p" using f w by (simp add: warning_step_def)
          ultimately show ?thesis unfolding e using Inr by simp
        qed
      next
        case mode: False
        then show ?thesis using r Inr x False s1(1) by simp
      qed
    next
      case True
      have e1: "connect_each env ops m pb fc old low (p # ps) st s = bindP (Some (PruneBlockIndexCandidates s1)) (\<lambda>s.
            bindP (Some (tip_better s old)) (\<lambda>better.
              if better then Some (Inr ((Better_tip, st1), s))
              else connect_each env ops m pb fc old low ps st1 s))"
        using r Inr x True by simp
      show ?thesis
      proof (cases "PruneBlockIndexCandidates s1")
        case (Inl y)
        then show ?thesis unfolding e1 by simp
      next
        case (Inr s2)
        have s2: "tip_step s1 s2" "chainActive s2 = chainActive s1" "nodes s2 = nodes s1"
          using PruneBlockIndexCandidates_frame [OF Inr inv1] by blast+
        have s02: "tip_step s s2" using tip_step_trans [OF s1(1) s2(1)] .
        have st2: "same_tree st0 (nodes s2)" using same_tree_trans [OF Cons.prems(2)] s02 by (simp add: tip_step_def)
        have ch2: "chainActive s2 = take (Suc j) v" using s2(2) s1(2) True Cons.prems(3) take_snoc [OF j(1)] j(3) by simp
        show ?thesis
        proof (cases "tip_better s2 old")
          case (Inl y)
          then show ?thesis unfolding e1 using Inr by simp
        next
          case better: (Inr z)
          show ?thesis
          proof (cases z)
            case True
            have "works_ok (nodes s2)" using s02 by (simp add: tip_step_def chain_inv_def tree_ok_def)
            have t: "chain_tip (chainActive s2) = Some p" using ch2 chain_tip_take [of "Suc j" v] j by simp
            have "work st0 q < work st0 p" if "old = Some q" for q
            proof -
              have d: "q \<in> dom st0" "p \<in> dom st0" using assms(4) that c(1) by auto
              have "work (nodes s2) q < work (nodes s2) p"
                using tip_better_work [OF _ \<open>works_ok (nodes s2)\<close> that] better True t by simp
              then show ?thesis using same_tree_work [OF st2] d by simp
            qed
            then show ?thesis unfolding e1 using Inr better True s02 t c(1) by auto
          next
            case False
            obtain r2 where r2: "connect_each env ops m pb fc old low ps st1 s2 = Some r2"
              "\<forall>status st' s'. r2 = Inr ((status, st'), s') \<longrightarrow> tip_step s2 s' \<and>
                (case status of All_connected \<Rightarrow> chainActive s' = take e v
                 | Better_tip \<Rightarrow> \<exists>t. chain_tip (chainActive s') = Some t \<and> t \<in> dom st0 \<and> (\<forall>p. old = Some p \<longrightarrow> work st0 p < work st0 t)
                 | Invalid_found q \<Rightarrow> \<exists>p\<in>set ps. failed (nodes s') p
                 | System_error \<Rightarrow> True)"
              using Cons.IH [OF tip_step_inv [OF s02] st2 ch2 j(4) _ Cons.prems(6), of st1] j(2) by auto
            have "connect_each env ops m pb fc old low (p # ps) st s = Some r2" unfolding e1 using Inr better False r2(1) by simp
            moreover have "tip_step s s' \<and>
                (case status of All_connected \<Rightarrow> chainActive s' = take e v
                 | Better_tip \<Rightarrow> \<exists>t. chain_tip (chainActive s') = Some t \<and> t \<in> dom st0 \<and> (\<forall>p. old = Some p \<longrightarrow> work st0 p < work st0 t)
                 | Invalid_found q \<Rightarrow> \<exists>p\<in>set (p # ps). failed (nodes s') p
                 | System_error \<Rightarrow> True)" if "r2 = Inr ((status, st'), s')" for status st' s'
            proof -
              note o = r2(2) [rule_format, OF that]
              show ?thesis using o tip_step_trans [OF s02, of s'] by (cases status) auto
            qed
            ultimately show ?thesis by blast
          qed
        qed
      qed
    qed
  qed
qed

end

text \<open>Where the chain and the way to a candidate part.\<close>

lemma chain_okE:
  assumes "chain_ok st v" and "v \<noteq> []"
  obtains t c where "st t = Some c" "v = path st t (hgt c)" "chain_tip v = Some t"
proof -
  obtain t c where t: "st t = Some c" "v = path st t (hgt c)" using assms by (auto simp: chain_ok_def)
  then have "chain_tip v = Some t" using assms(2) by (simp add: chain_tip_def)
  then show ?thesis using that t by blast
qed

lemma on_chain_path:
  assumes "wf_store st" and "st t = Some c" and "st q = Some d"
  shows "on_chain st (path st t (hgt c)) q \<longleftrightarrow> Some q \<in> set (path st t (hgt c))"
  using at_height_member [OF assms] assms(3) by (simp add: on_chain_def)

lemma fork_common:
  assumes "wf_store st" and "chain_ok st v" and "st m = Some b"
  shows "\<exists>k. FindFork st v m = Some (Inr (if k = 0 then None else v ! (k - 1))) \<and> k \<le> length v \<and> k \<le> Suc (hgt b)
    \<and> take k v = take k (path st m (hgt b))
    \<and> (\<forall>n q. up st n m = Some q \<longrightarrow> n \<le> hgt b - k \<longrightarrow> k \<le> hgt b \<longrightarrow> \<not> on_chain st v q)"
proof (cases "v = []")
  case True
  have n: "fork_loop st [] None = Some (Inr None)" by (simp add: fork_loop.simps)
  have "GetAncestor st m (- 1) = Inr None" using GetAncestor_up [OF assms(1,3)] by simp
  then have "FindFork st [] m = Some (Inr None)"
    using assms(3) n wf_storeD [OF assms(1,3)] by (auto simp: FindFork_def Height_def wf_node_def)
  then show ?thesis using True by (intro exI [of _ 0]) (auto simp: on_chain_def at_height_def)
next
  case False
  obtain t c where t: "st t = Some c" "v = path st t (hgt c)" "chain_tip v = Some t" by (rule chain_okE [OF assms(2) False])
  let ?r = "meeting st m (hgt b) v 0"
  have ff: "FindFork st v m = Some (Inr ?r)" using FindFork_meeting [OF assms(1,3) t(1)] t(2) by simp
  have oc: "on_chain st v q \<longleftrightarrow> Some q \<in> set v" if q: "up st n m = Some q" "n \<le> hgt b" for n q
  proof -
    obtain d where "st q = Some d" using up_exists [OF assms(1,3) q(2)] q(1) by auto
    then show ?thesis using on_chain_path [OF assms(1) t(1)] t(2) by simp
  qed
  show ?thesis
  proof (cases ?r)
    case None
    have "Some q \<notin> set v" if q: "up st n m = Some q" "n \<le> hgt b" for n q
    proof
      assume "Some q \<in> set v"
      then obtain i where i: "i \<le> n" "?r = up st i m" using meeting_first [of n "hgt b" 0 st m v] q by auto
      then show False using up_exists [OF assms(1,3), of i] q(2) None by auto
    qed
    then show ?thesis using ff None oc by (intro exI [of _ 0]) auto
  next
    case (Some f)
    have "\<exists>i. i < Suc (hgt b) \<and> up st i m = Some f"
      using Some by (auto simp: meeting_def bind_eq_Some_conv find_Some_iff simp del: upt_Suc)
    then obtain i where i: "i \<le> hgt b" "up st i m = Some f" by (auto simp: less_Suc_eq_le)
    obtain d where d: "st f = Some d" "hgt d = hgt b - i" using up_exists [OF assms(1,3) i(1)] i(2) by auto
    have fv: "Some f \<in> set v" using meeting_member [OF Some] .
    let ?k = "Suc (hgt b - i)"
    have m: "path st m (hgt b) ! (hgt b - i) = Some f" using i by simp
    have "up st i m \<in> set (path st t (hgt c))" using fv i(2) t(2) by simp
    then have h: "hgt b - i \<le> hgt c" "up st (hgt c - (hgt b - i)) t = Some f"
      using on_path [OF assms(1,3) t(1) i(1)] i(2) by auto
    then have vi: "v ! (hgt b - i) = Some f" using t(2) by simp
    have "take ?k v = path st f (hgt b - i)" using path_take [OF assms(1) t(1) h(1)] vi t(2) by simp
    moreover have "take ?k (path st m (hgt b)) = path st f (hgt b - i)" by (rule path_take [OF assms(1,3) _ m]) simp
    ultimately have tk: "take ?k v = take ?k (path st m (hgt b))" by simp
    have off: "\<not> on_chain st v q" if q: "up st n m = Some q" "n \<le> hgt b - ?k" "?k \<le> hgt b" for n q
    proof
      assume "on_chain st v q"
      then have "up st n m \<in> set v" using oc [OF q(1)] q(1,2) by simp
      moreover have "n \<le> hgt b" using q(2) by simp
      ultimately obtain j where j: "j \<le> n" "?r = up st j m" using meeting_first [of n "hgt b" 0 st m v] by auto
      have uj: "up st j m = Some f" "j \<le> hgt b" using j Some q(2) by simp_all
      then have "hgt b - j = hgt b - i" using up_exists [OF assms(1,3) uj(2)] d by auto
      then show False using j(1) q(2,3) i(1) by linarith
    qed
    show ?thesis
    proof (intro exI [of _ ?k] conjI)
      show "FindFork st v m = Some (Inr (if ?k = 0 then None else v ! (?k - 1)))" using ff Some vi by simp
      show "?k \<le> length v" using h(1) t(2) by simp
      show "?k \<le> Suc (hgt b)" by simp
      show "take ?k v = take ?k (path st m (hgt b))" using tk .
      show "\<forall>n q. up st n m = Some q \<longrightarrow> n \<le> hgt b - ?k \<longrightarrow> ?k \<le> hgt b \<longrightarrow> \<not> on_chain st v q" using off by blast
    qed
  qed
qed

lemma usable_path_not_failed:
  assumes "wf_store st" and "st m = Some b" and "usable st v m"
    and "\<forall>n q. up st n m = Some q \<longrightarrow> n \<le> hgt b - k \<longrightarrow> k \<le> hgt b \<longrightarrow> \<not> on_chain st v q"
    and "Some p \<in> set (drop k (path st m (hgt b)))"
  shows "\<not> failed st p"
proof
  assume f: "failed st p"
  obtain j where j: "j < length (drop k (path st m (hgt b)))" "drop k (path st m (hgt b)) ! j = Some p"
    using assms(5) by (metis in_set_conv_nth)
  then have k: "k + j \<le> hgt b" by simp
  then have "path st m (hgt b) ! (k + j) = Some p" using j by simp
  then have u: "up st (hgt b - (k + j)) m = Some p" using k by simp
  have "\<forall>i\<le>hgt b - (k + j). \<forall>q. up st i m = Some q \<longrightarrow> \<not> on_chain st v q"
    using assms(4) k by simp
  then have "bad_at st v m (hgt b - (k + j)) p" using u f by (simp add: bad_at_def)
  then show False using assms(3) by (auto simp: usable_def)
qed

context sound_tip_operations begin

lemma connect_chunks_ok:
  assumes "wf_store st0" and "st0 m = Some b" and "v = path st0 m (hgt b)" and "old \<in> Some ` dom st0 \<union> {None}"
  shows "chain_inv s \<Longrightarrow> same_tree st0 (nodes s) \<Longrightarrow> chainActive s = take j v \<Longrightarrow> j \<le> length v \<Longrightarrow> k \<le> j \<Longrightarrow>
    \<exists>r. connect_chunks env ops m pb fc old (int j - 1) st s = Some r
      \<and> (\<forall>status st' s'. r = Inr ((status, st'), s') \<longrightarrow> tip_step s s' \<and>
          (case status of All_connected \<Rightarrow> chainActive s' = v
           | Better_tip \<Rightarrow> \<exists>t. chain_tip (chainActive s') = Some t \<and> t \<in> dom st0 \<and> (\<forall>p. old = Some p \<longrightarrow> work st0 p < work st0 t)
           | Invalid_found q \<Rightarrow> \<exists>p. Some p \<in> set (drop k v) \<and> failed (nodes s') p
           | System_error \<Rightarrow> True))"
proof (induction "length v - j" arbitrary: j s st rule: less_induct)
  case less
  have len: "length v = Suc (hgt b)" using assms(3) by simp
  obtain b' where b': "nodes s m = Some b'" "nHeight (blk b') = nHeight (blk b)"
    using same_treeD [OF less.prems(2) assms(2)] by (auto simp: same_block_def)
  obtain H where H: "nHeight (blk b) = int H" by (rule wf_height [OF assms(1,2)])
  have hb: "hgt b = H" "hgt b' = H" using H b'(2) by simp_all
  have wf: "wf_store (nodes s)" using less.prems(1) by (simp add: chain_inv_def tree_ok_def)
  have v': "v = path (nodes s) m (hgt b')" using assms(3) hb same_tree_path [OF less.prems(2)] by simp
  show ?case
  proof (cases "j = length v")
    case True
    then have "int j - 1 = nHeight (blk b')" using len hb H b'(2) by simp
    then have "connect_chunks env ops m pb fc old (int j - 1) st s = Some (Inr ((All_connected, st), s))"
      using b'(1) by (subst connect_chunks.simps) simp
    then show ?thesis using tip_step_refl [OF less.prems(1)] less.prems(3) True by simp
  next
    case False
    then have jH: "j \<le> H" using less.prems(4) len hb by simp
    define T where "T = min (j + 31) H"
    have T: "T \<le> H" "j \<le> T" using jH by (auto simp: T_def)
    have tgt: "min (int j - 1 + 32) (nHeight (blk b')) = int T" using H b'(2) by (auto simp: T_def min_def)
    have ga: "GetAncestor (nodes s) m (int T) = Inr (v ! T)"
      using GetAncestor_up [OF wf b'(1), of "int T"] H b'(2) T(1) hb assms(3) same_tree_up [OF less.prems(2)] by simp
    obtain ps where ps: "collect_path (nodes s) (int j - 1) (v ! T) = Some (Inr (rev ps))" "map Some ps = drop j (take (Suc T) v)"
      using collect_path_ok [OF wf b'(1), of T j] T hb v' by auto
    have e: "connect_chunks env ops m pb fc old (int j - 1) st s
        = bindP (connect_each env ops m pb fc old (last (rev ps)) ps st s) (\<lambda>((status, st), s).
            if status = All_connected
            then connect_chunks env ops m pb fc old (int T) st s
            else Some (Inr ((status, st), s)))"
      using b' tgt ga ps(1) jH H by (subst connect_chunks.simps) (simp add: Let_def)
    have Tl: "Suc T \<le> length v" using T(1) len hb by simp
    obtain r where r: "connect_each env ops m pb fc old (last (rev ps)) ps st s = Some r"
      "\<forall>status st' s'. r = Inr ((status, st'), s') \<longrightarrow> tip_step s s' \<and>
          (case status of All_connected \<Rightarrow> chainActive s' = take (Suc T) v
           | Better_tip \<Rightarrow> \<exists>t. chain_tip (chainActive s') = Some t \<and> t \<in> dom st0 \<and> (\<forall>p. old = Some p \<longrightarrow> work st0 p < work st0 t)
           | Invalid_found q \<Rightarrow> \<exists>p\<in>set ps. failed (nodes s') p
           | System_error \<Rightarrow> True)"
      using connect_each_ok [OF assms less.prems(1-3) ps(2) le_SucI [OF T(2)] Tl,
          where env = env and pb = pb and fc = fc and low = "last (rev ps)" and st = st] by blast
    have psd: "Some p \<in> set (drop k v)" if "p \<in> set ps" for p
    proof -
      have "Some p \<in> set (map Some ps)" using that by simp
      then have "Some p \<in> set (take (Suc T - j) (drop j v))" unfolding ps(2) by (simp only: drop_take)
      then have "Some p \<in> set (drop j v)" by (rule in_set_takeD)
      then show ?thesis using set_drop_subset_set_drop [OF less.prems(5), of v] by auto
    qed
    show ?thesis
    proof (cases r)
      case (Inl x)
      then show ?thesis using e r(1) by simp
    next
      case (Inr x)
      obtain status st1 s1 where x: "x = ((status, st1), s1)" by (metis surj_pair)
      note o = r(2) [rule_format, of status st1 s1]
      show ?thesis
      proof (cases "status = All_connected")
        case True
        have s1: "tip_step s s1" "chainActive s1 = take (Suc T) v" using o Inr x True by simp_all
        have "same_tree st0 (nodes s1)" using same_tree_trans [OF less.prems(2)] s1(1) by (simp add: tip_step_def)
        moreover have "length v - Suc T < length v - j" using T Tl by linarith
        moreover have "int (Suc T) - 1 = int T" by simp
        ultimately obtain r2 where r2: "connect_chunks env ops m pb fc old (int T) st1 s1 = Some r2"
            "\<forall>status st' s'. r2 = Inr ((status, st'), s') \<longrightarrow> tip_step s1 s' \<and>
              (case status of All_connected \<Rightarrow> chainActive s' = v
               | Better_tip \<Rightarrow> \<exists>t. chain_tip (chainActive s') = Some t \<and> t \<in> dom st0 \<and> (\<forall>p. old = Some p \<longrightarrow> work st0 p < work st0 t)
               | Invalid_found q \<Rightarrow> \<exists>p. Some p \<in> set (drop k v) \<and> failed (nodes s') p
               | System_error \<Rightarrow> True)"
          using less.hyps [OF _ tip_step_inv [OF s1(1)] _ s1(2) Tl, of st1] T(2) less.prems(5) by fastforce
        have "connect_chunks env ops m pb fc old (int j - 1) st s = Some r2" using e r(1) Inr x True r2(1) by simp
        then show ?thesis using r2(2) tip_step_trans [OF s1(1)] by blast
      next
        case False
        then have "connect_chunks env ops m pb fc old (int j - 1) st s = Some (Inr ((status, st1), s1))"
          using e r(1) Inr x by simp
        then show ?thesis using o Inr x False psd by (cases status) auto
      qed
    qed
  qed
qed

end

section \<open>The activation ends\<close>

definition fresh_blocks :: "'w chain_state \<Rightarrow> ptr set" where
  "fresh_blocks s = {p \<in> dom (nodes s). \<not> failed (nodes s) p}"

definition better_blocks :: "'w chain_state \<Rightarrow> ptr set" where
  "better_blocks s = {p \<in> dom (nodes s). \<forall>t. chain_tip (chainActive s) = Some t \<longrightarrow> work (nodes s) t < work (nodes s) p}"

definition measure_of :: "'w chain_state \<Rightarrow> nat \<times> nat" where
  "measure_of s = (card (fresh_blocks s), card (better_blocks s))"

lemma chain_inv_finite: "chain_inv s \<Longrightarrow> finite (fresh_blocks s) \<and> finite (better_blocks s)"
  by (auto simp: chain_inv_def tree_ok_def fresh_blocks_def better_blocks_def)

lemma tip_step_dom: "tip_step s s' \<Longrightarrow> dom (nodes s') = dom (nodes s)"
  by (simp add: tip_step_def same_tree_dom)

lemma fresh_mono: "tip_step s s' \<Longrightarrow> fresh_blocks s' \<subseteq> fresh_blocks s"
  using tip_step_dom [of s s'] by (auto simp: fresh_blocks_def tip_step_def)

lemma measure_failed:
  assumes "chain_inv s" and "tip_step s s'" and "failed (nodes s') p" and "\<not> failed (nodes s) p"
  shows "measure_of s' < measure_of s"
proof -
  have "p \<in> dom (nodes s')" using assms(3) by (auto simp: failed_def)
  then have "p \<in> fresh_blocks s - fresh_blocks s'" using assms(3,4) tip_step_dom [OF assms(2)] by (simp add: fresh_blocks_def)
  then have "fresh_blocks s' \<subset> fresh_blocks s" using fresh_mono [OF assms(2)] by blast
  then show ?thesis using chain_inv_finite [OF assms(1)] psubset_card_mono by (auto simp: measure_of_def)
qed

lemma measure_better:
  assumes "chain_inv s" and "tip_step s s'" and "chain_tip (chainActive s') = Some t" and "t \<in> dom (nodes s)"
    and "\<forall>o'. chain_tip (chainActive s) = Some o' \<longrightarrow> o' \<in> dom (nodes s) \<and> work (nodes s) o' < work (nodes s) t"
  shows "measure_of s' < measure_of s"
proof -
  have w: "work (nodes s') p = work (nodes s) p" if "p \<in> dom (nodes s)" for p
    using same_tree_work that assms(2) unfolding tip_step_def by blast
  have "better_blocks s' \<subseteq> better_blocks s"
  proof
    fix p assume "p \<in> better_blocks s'"
    then have p: "p \<in> dom (nodes s)" "work (nodes s) t < work (nodes s) p"
      using assms(3,4) w [of t] w [of p] tip_step_dom [OF assms(2)] by (auto simp: better_blocks_def)
    then show "p \<in> better_blocks s" using assms(5) order.strict_trans unfolding better_blocks_def by blast
  qed
  moreover have "t \<in> better_blocks s" "t \<notin> better_blocks s'" using assms(3-5) by (auto simp: better_blocks_def)
  ultimately have "better_blocks s' \<subset> better_blocks s" by blast
  moreover have "card (fresh_blocks s') \<le> card (fresh_blocks s)"
    using card_mono fresh_mono [OF assms(2)] chain_inv_finite [OF assms(1)] by blast
  ultimately show ?thesis using chain_inv_finite [OF assms(1)] psubset_card_mono by (auto simp: measure_of_def)
qed

text \<open>No candidate comes after the tip.\<close>

definition tip_is_best :: "'w chain_state \<Rightarrow> bool" where
  "tip_is_best s \<longleftrightarrow> (\<forall>p\<in>set (setBlockIndexCandidates s). \<exists>t. chain_tip (chainActive s) = Some t \<and> (p = t \<or> wl (nodes s) p t))"

lemma sorted_wrt_last: "sorted_wrt P ps \<Longrightarrow> p \<in> set ps \<Longrightarrow> p = last ps \<or> P p (last ps)"
  by (induction ps) auto

lemma tip_is_best_step:
  assumes "chain_inv s" and "tip_step s s'" and "setBlockIndexCandidates s \<noteq> []" and "last (setBlockIndexCandidates s) = m"
    and "chain_tip (chainActive s') = Some m"
  shows "tip_is_best s'"
proof -
  have c: "cand_ok (nodes s) (setBlockIndexCandidates s)" using assms(1) by (simp add: chain_inv_def tree_ok_def)
  have "p = m \<or> wl (nodes s') p m" if "p \<in> set (setBlockIndexCandidates s')" for p
  proof -
    have p: "p \<in> set (setBlockIndexCandidates s)" using that assms(2) by (auto simp: tip_step_def)
    then have "p = m \<or> wl (nodes s) p m" using sorted_wrt_last [of "wl (nodes s)"] c assms(4) by (auto simp: cand_ok_def)
    moreover have "p \<in> dom (nodes s)" "m \<in> dom (nodes s)" using p c assms(3,4) last_in_set by (auto simp: cand_ok_def)
    ultimately show ?thesis using same_tree_wl assms(2) unfolding tip_step_def by blast
  qed
  then show ?thesis using assms(5) by (auto simp: tip_is_best_def)
qed

lemma chain_inv_tip:
  assumes "chain_inv s" and "chain_tip (chainActive s) = Some t"
  shows "t \<in> dom (nodes s)"
proof -
  have "chain_ok (nodes s) (chainActive s)" using assms(1) by (simp add: chain_inv_def tree_ok_def)
  moreover have "chainActive s \<noteq> []" using assms(2) by (auto simp: chain_tip_def)
  ultimately show ?thesis using assms(2) by (elim chain_okE) auto
qed

context sound_tip_operations begin

lemma ActivateBestChainStep_ok:
  assumes "chain_inv s" and "nodes s m = Some b" and "usable (nodes s) (chainActive s) m"
  shows "\<exists>r. ActivateBestChainStep env ops st m pb fc s = Some r
    \<and> (\<forall>ok st' s'. r = Inr ((ok, st'), s') \<longrightarrow> tip_step s s' \<and> (ok \<longrightarrow>
         chain_tip (chainActive s') = Some m \<or> measure_of s' < measure_of s))"
proof -
  have wf: "wf_store (nodes s)" and ck: "chain_ok (nodes s) (chainActive s)" using assms(1) by (simp_all add: chain_inv_def tree_ok_def)
  let ?v = "path (nodes s) m (hgt b)" and ?old = "chain_tip (chainActive s)"
  obtain k where k: "FindFork (nodes s) (chainActive s) m = Some (Inr (if k = 0 then None else chainActive s ! (k - 1)))"
      "k \<le> length (chainActive s)" "k \<le> Suc (hgt b)" "take k (chainActive s) = take k ?v"
      "\<forall>n q. up (nodes s) n m = Some q \<longrightarrow> n \<le> hgt b - k \<longrightarrow> k \<le> hgt b \<longrightarrow> \<not> on_chain (nodes s) (chainActive s) q"
    using fork_common [OF wf ck assms(2)] by blast
  define fork where "fork = (if k = 0 then None else chainActive s ! (k - 1))"
  have ffk: "FindFork (nodes s) (chainActive s) m = Some (Inr fork)" using k(1) by (simp add: fork_def)
  have fork_v: "fork = (if k = 0 then None else ?v ! (k - 1))"
  proof (cases "k = 0")
    case False
    then have "chainActive s ! (k - 1) = take k (chainActive s) ! (k - 1)" by simp
    also have "\<dots> = ?v ! (k - 1)" using False k(4) by simp
    finally show ?thesis using False by (simp add: fork_def)
  qed (simp add: fork_def)
  obtain r1 where r1: "disconnect_to ops fork st s = Some r1"
      "\<forall>ok st' s'. r1 = Inr ((ok, st'), s') \<longrightarrow> tip_step s s' \<and> (ok \<longrightarrow> chainActive s' = take k ?v)"
  proof (cases "chainActive s = []")
    case True
    then have "disconnect_to ops fork st s = Some (Inr ((True, st), s))" by (subst disconnect_to.simps) (simp add: chain_tip_def)
    then show ?thesis using that tip_step_refl [OF assms(1)] True k(2) by simp
  next
    case False
    obtain t c where t: "nodes s t = Some c" "chainActive s = path (nodes s) t (hgt c)" by (rule chain_okE [OF ck False])
    have "\<exists>r. disconnect_to ops fork st s = Some r
      \<and> (\<forall>ok st' s'. r = Inr ((ok, st'), s') \<longrightarrow> tip_step s s' \<and> (ok \<longrightarrow> chainActive s' = take k (chainActive s)))"
      using disconnect_to_ok [OF wf t fork_def assms(1) same_tree_refl, of "length (chainActive s)" st] k(2) by simp
    then show ?thesis using that k(4) by auto
  qed
  let ?fc = "pb \<noteq> None \<and> fc"
  have e: "ActivateBestChainStep env ops st m pb fc s = bindP (Some r1) (\<lambda>((ok, st), s).
           if \<not> ok then Some (Inr ((False, st), s))
           else bindP (Some (if fork = None then Inr (- 1) else bindE (deref s fork) (\<lambda>b. Inr (nHeight b)))) (\<lambda>h.
                bindP (connect_chunks env ops m pb ?fc ?old h st s) (\<lambda>((status, st), s).
                  case status of
                    System_error \<Rightarrow> Some (Inr ((False, st), s))
                  | Invalid_found plow \<Rightarrow>
                      bindP (CheckForkWarningConditionsOnNewFork env plow s) (\<lambda>s. Some (Inr ((True, st), s)))
                  | _ \<Rightarrow> bindP (Some (CheckForkWarningConditions env s)) (\<lambda>s. Some (Inr ((True, st), s))))))"
    unfolding ActivateBestChainStep_def Let_def ffk bindP_simps r1(1) ..
  show ?thesis
  proof (cases r1)
    case (Inl x)
    then show ?thesis unfolding e by simp
  next
    case (Inr x)
    obtain ok st1 s1 where x: "x = ((ok, st1), s1)" by (metis surj_pair)
    have s1: "tip_step s s1" "ok \<Longrightarrow> chainActive s1 = take k ?v" using r1(2) Inr x by blast+
    show ?thesis
    proof (cases ok)
      case False
      then show ?thesis unfolding e using Inr x s1(1) by simp
    next
      case True
      have tree: "same_tree (nodes s) (nodes s1)" using s1(1) by (simp add: tip_step_def)
      have h: "(if fork = None then Inr (- 1) else bindE (deref s1 fork) (\<lambda>b. Inr (nHeight b))) = Inr (int k - 1)"
      proof (cases "k = 0")
        case True
        then show ?thesis using fork_v by simp
      next
        case False
        obtain q c where q: "?v ! (k - 1) = Some q" "nodes s q = Some c" "nHeight (blk c) = int (k - 1)"
          by (rule path_Some [OF wf assms(2), of "k - 1"]) (use k(3) in auto)
        obtain c' where "nodes s1 q = Some c'" "nHeight (blk c') = nHeight (blk c)"
          using same_treeD [OF tree q(2)] by (auto simp: same_block_def)
        then have "deref s1 fork = Inr (blk c')" "fork = Some q" "nHeight (blk c') = int k - 1"
          using q fork_v False by (auto simp: deref_def)
        then show ?thesis by (simp add: bindE_def)
      qed
      have old: "?old \<in> Some ` dom (nodes s) \<union> {None}"
        using chain_inv_tip [OF assms(1)] by (cases ?old) auto
      obtain r2 where r2: "connect_chunks env ops m pb ?fc ?old (int k - 1) st1 s1 = Some r2"
          "\<forall>status st' s'. r2 = Inr ((status, st'), s') \<longrightarrow> tip_step s1 s' \<and>
            (case status of All_connected \<Rightarrow> chainActive s' = ?v
             | Better_tip \<Rightarrow> \<exists>t. chain_tip (chainActive s') = Some t \<and> t \<in> dom (nodes s) \<and> (\<forall>p. ?old = Some p \<longrightarrow> work (nodes s) p < work (nodes s) t)
             | Invalid_found q \<Rightarrow> \<exists>p. Some p \<in> set (drop k ?v) \<and> failed (nodes s') p
             | System_error \<Rightarrow> True)"
        using connect_chunks_ok [OF wf assms(2) refl old tip_step_inv [OF s1(1)] tree s1(2) [OF True] _ order_refl,
            where env = env and pb = pb and fc = ?fc and st = st1] k(3) by auto
      have e2: "ActivateBestChainStep env ops st m pb fc s = bindP (Some r2) (\<lambda>((status, st), s).
                  case status of
                    System_error \<Rightarrow> Some (Inr ((False, st), s))
                  | Invalid_found plow \<Rightarrow>
                      bindP (CheckForkWarningConditionsOnNewFork env plow s) (\<lambda>s. Some (Inr ((True, st), s)))
                  | _ \<Rightarrow> bindP (Some (CheckForkWarningConditions env s)) (\<lambda>s. Some (Inr ((True, st), s))))"
        unfolding e Inr x using True h r2(1) by simp
      show ?thesis
      proof (cases r2)
        case (Inl y)
        then show ?thesis unfolding e2 by simp
      next
        case (Inr y)
        obtain status st2 s2 where y: "y = ((status, st2), s2)" by (metis surj_pair)
        note o = r2(2) [rule_format, of status st2 s2, unfolded Inr y, OF refl]
        have s2: "tip_step s s2" using o tip_step_trans [OF s1(1)] by blast
        have inv2: "chain_inv s2" using tip_step_inv [OF s2] .
        have warn: "tip_step s s3 \<and> chainActive s3 = chainActive s2 \<and> nodes s3 = nodes s2" if "warning_step s2 s3" for s3
          using warning_step_tip [OF that inv2] tip_step_trans [OF s2] that by (auto simp: warning_step_def)
        have goal: "chain_tip (chainActive s2) = Some m \<or> measure_of s2 < measure_of s" if "status \<noteq> System_error"
        proof (cases status)
          case All_connected
          then have "chainActive s2 = ?v" using o by simp
          then show ?thesis by (simp add: chain_tip_def)
        next
          case Better_tip
          then show ?thesis using o measure_better [OF assms(1) s2] chain_inv_tip [OF assms(1)] by auto
        next
          case (Invalid_found q)
          then obtain p where p: "Some p \<in> set (drop k ?v)" "failed (nodes s2) p" using o by auto
          have "\<not> failed (nodes s) p" using usable_path_not_failed [OF wf assms(2,3) k(5) p(1)] .
          then show ?thesis using measure_failed [OF assms(1) s2 p(2)] by blast
        qed (use that in simp)
        have m3: "measure_of s3 = measure_of s2" if "warning_step s2 s3" for s3
          using that by (simp add: warning_step_def measure_of_def fresh_blocks_def better_blocks_def)
        consider "status = System_error"
          | "status \<noteq> System_error" "ActivateBestChainStep env ops st m pb fc s = bindP (Some (CheckForkWarningConditions env s2)) (\<lambda>s. Some (Inr ((True, st2), s)))"
          | q where "status = Invalid_found q"
              "ActivateBestChainStep env ops st m pb fc s = bindP (CheckForkWarningConditionsOnNewFork env q s2) (\<lambda>s. Some (Inr ((True, st2), s)))"
          unfolding e2 Inr y by (cases status) auto
        then show ?thesis
        proof cases
          case 1
          then show ?thesis unfolding e2 using Inr y s2 by simp
        next
          case 2
          then show ?thesis using CheckForkWarningConditions_frame [of env s2] warn goal m3
            by (cases "CheckForkWarningConditions env s2") auto
        next
          case (3 q)
          obtain r3 where r3: "CheckForkWarningConditionsOnNewFork env q s2 = Some r3"
            using CheckForkWarningConditionsOnNewFork_ends [of s2 env q] inv2 by (auto simp: chain_inv_def tree_ok_def)
          then show ?thesis using 3 CheckForkWarningConditionsOnNewFork_frame [of env q s2] warn goal m3
            by (cases r3) auto
        qed
      qed
    qed
  qed
qed

end

lemma measure_search:
  assumes "chain_inv s" and "search_step s s'" and "tip_step s s'"
  shows "measure_of s' \<le> measure_of s"
proof -
  have "better_blocks s' = better_blocks s"
  proof -
    have "same_tree (nodes s) (nodes s')" "chainActive s' = chainActive s" using assms(2) by (simp_all add: search_step_def)
    then show ?thesis using chain_inv_tip [OF assms(1)] by (auto simp: better_blocks_def same_tree_dom same_tree_work domIff)
  qed
  moreover have "card (fresh_blocks s') \<le> card (fresh_blocks s)"
    using card_mono fresh_mono [OF assms(3)] chain_inv_finite [OF assms(1)] by blast
  ultimately show ?thesis by (auto simp: measure_of_def)
qed

context sound_tip_operations begin

lemma activate_loop_ok:
  "chain_inv s \<Longrightarrow> \<exists>r. activate_loop env ops pblock fc st s = Some r
    \<and> (\<forall>early st' s'. r = Inr ((early, st'), s') \<longrightarrow> tip_step s s' \<and> (early \<noteq> Some False \<longrightarrow> tip_is_best s'))"
proof (induction "measure_of s" arbitrary: s st rule: less_induct)
  case less
  have t: "tree_ok s" "marker_ok s" using less.prems by (simp_all add: chain_inv_def)
  obtain s1 where s1: "FindMostWorkChain s = Some (Inr (best_candidate s, s1))" "search_step s s1" "marker_ok s1"
      "case best_candidate s of None \<Rightarrow> setBlockIndexCandidates s1 = []
       | Some m \<Rightarrow> setBlockIndexCandidates s1 \<noteq> [] \<and> last (setBlockIndexCandidates s1) = m \<and> usable (nodes s) (chainActive s) m"
    using FindMostWorkChain_ok [OF t] by blast
  have st1: "tip_step s s1" using search_step_tip [OF s1(2) less.prems s1(3)] .
  have inv1: "chain_inv s1" using tip_step_inv [OF st1] .
  show ?case
  proof (cases "best_candidate s")
    case None
    then have "activate_loop env ops pblock fc st s = Some (Inr ((Some True, st), s1))" using s1(1) by (subst activate_loop.simps) simp
    moreover have "tip_is_best s1" using s1(4) None by (simp add: tip_is_best_def)
    ultimately show ?thesis using st1 by simp
  next
    case (Some m)
    then have m: "setBlockIndexCandidates s1 \<noteq> []" "last (setBlockIndexCandidates s1) = m" "usable (nodes s) (chainActive s) m"
      using s1(4) by simp_all
    have "m \<in> set (setBlockIndexCandidates s1)" using m(1,2) last_in_set by blast
    then obtain b where b: "nodes s1 m = Some b" using inv1 by (auto simp: chain_inv_def tree_ok_def cand_ok_def)
    have u1: "usable (nodes s1) (chainActive s1) m" using search_step_usable [OF s1(2)] m(3) by blast
    show ?thesis
    proof (cases "chain_tip (chainActive s1) = Some m")
      case True
      then have "activate_loop env ops pblock fc st s = Some (Inr ((Some True, st), s1))"
        using s1(1) Some by (subst activate_loop.simps) simp
      then show ?thesis using st1 tip_is_best_step [OF inv1 tip_step_refl [OF inv1] m(1,2) True] by simp
    next
      case False
      define pbr where "pbr = (case pblock of
                    None \<Rightarrow> Some (Inr None)
                  | Some block \<Rightarrow> (case phashBlock (blk b) of
                      None \<Rightarrow> Some (Inl NullRead)
                    | Some hash \<Rightarrow> Some (Inr (if ce_GetHash env (block_header block) = hash then pblock else None))))"
      have d: "deref s1 (Some m) = Inr (blk b)" using b by (simp add: deref_def)
      have e: "activate_loop env ops pblock fc st s = bindP pbr (\<lambda>pb.
                bindP (ActivateBestChainStep env ops st m pb fc s1) (\<lambda>((ok, st), s).
                  if \<not> ok then Some (Inr ((Some False, st), s))
                  else bindP (Some (IsInitialBlockDownload env s)) (\<lambda>(ibd, s).
                    if chain_tip (chainActive s) \<noteq> Some m then activate_loop env ops pblock fc st s
                    else Some (Inr ((None, st), s)))))"
        using s1(1) Some False d by (subst activate_loop.simps) (simp add: pbr_def)
      have "pbr = Some (Inl NullRead) \<or> (\<exists>pb. pbr = Some (Inr pb))" by (auto simp: pbr_def split: option.splits)
      then consider "pbr = Some (Inl NullRead)" | pb where "pbr = Some (Inr pb)" by blast
      then show ?thesis
      proof cases
        case 1
        then show ?thesis unfolding e by simp
      next
        case (2 pb)
        obtain r where r: "ActivateBestChainStep env ops st m pb fc s1 = Some r"
            "\<forall>ok st' s'. r = Inr ((ok, st'), s') \<longrightarrow> tip_step s1 s' \<and> (ok \<longrightarrow>
               chain_tip (chainActive s') = Some m \<or> measure_of s' < measure_of s1)"
          using ActivateBestChainStep_ok [OF inv1 b u1] by blast
        show ?thesis
        proof (cases r)
          case (Inl x)
          then show ?thesis unfolding e using 2 r(1) by simp
        next
          case (Inr x)
          obtain ok st2 s2 where x: "x = ((ok, st2), s2)" by (metis surj_pair)
          have s2: "tip_step s1 s2" "ok \<Longrightarrow> chain_tip (chainActive s2) = Some m \<or> measure_of s2 < measure_of s1"
            using r(2) Inr x by blast+
          have s02: "tip_step s s2" using tip_step_trans [OF st1 s2(1)] .
          show ?thesis
          proof (cases ok)
            case False
            then show ?thesis unfolding e using 2 r(1) Inr x s02 by simp
          next
            case True
            show ?thesis
            proof (cases "IsInitialBlockDownload env s2")
              case (Inl y)
              then show ?thesis unfolding e using 2 r(1) Inr x True by simp
            next
              case ibd: (Inr y)
              obtain f s3 where y: "y = (f, s3)" by (metis surj_pair)
              have w: "warning_step s2 s3" using IsInitialBlockDownload_frame [of env s2 f s3] ibd y by (auto simp: warning_step_def)
              have s3: "tip_step s2 s3" "chainActive s3 = chainActive s2" "measure_of s3 = measure_of s2"
                using warning_step_tip [OF w tip_step_inv [OF s2(1)]] w
                by (simp_all add: warning_step_def measure_of_def fresh_blocks_def better_blocks_def)
              have s03: "tip_step s s3" using tip_step_trans [OF s02 s3(1)] .
              have e3: "activate_loop env ops pblock fc st s = (if chain_tip (chainActive s3) \<noteq> Some m
                  then activate_loop env ops pblock fc st2 s3 else Some (Inr ((None, st2), s3)))"
                unfolding e using 2 r(1) Inr x True ibd y by simp
              show ?thesis
              proof (cases "chain_tip (chainActive s3) = Some m")
                case at_m: True
                then show ?thesis unfolding e3
                  using s03 tip_is_best_step [OF inv1 tip_step_trans [OF s2(1) s3(1)] m(1,2) at_m] by simp
              next
                case False
                then have "measure_of s3 < measure_of s"
                  using s2(2) [OF True] s3 measure_search [OF less.prems s1(2) st1] by simp
                then obtain r3 where r3: "activate_loop env ops pblock fc st2 s3 = Some r3"
                    "\<forall>early st' s'. r3 = Inr ((early, st'), s') \<longrightarrow> tip_step s3 s' \<and> (early \<noteq> Some False \<longrightarrow> tip_is_best s')"
                  using less.hyps [OF _ tip_step_inv [OF s03]] by blast
                then show ?thesis unfolding e3 using False tip_step_trans [OF s03] by simp
              qed
            qed
          qed
        qed
      qed
    qed
  qed
qed

lemma ActivateBestChain_ok:
  assumes "chain_inv s"
  shows "\<exists>r. ActivateBestChain env ops st pblock fc s = Some r
    \<and> (\<forall>ok st' s'. r = Inr ((ok, st'), s') \<longrightarrow> tip_step s s' \<and> (ok \<longrightarrow> tip_is_best s'))"
proof -
  obtain r where r: "activate_loop env ops pblock fc st s = Some r"
      "\<forall>early st' s'. r = Inr ((early, st'), s') \<longrightarrow> tip_step s s' \<and> (early \<noteq> Some False \<longrightarrow> tip_is_best s')"
    using activate_loop_ok [OF assms] by blast
  show ?thesis
  proof (cases r)
    case (Inl x)
    then show ?thesis using r(1) by (simp add: ActivateBestChain_def)
  next
    case (Inr x)
    obtain early st1 s1 where x: "x = ((early, st1), s1)" by (metis surj_pair)
    have s1: "tip_step s s1" "early \<noteq> Some False \<Longrightarrow> tip_is_best s1" using r(2) Inr x by blast+
    show ?thesis
    proof (cases early)
      case (Some f)
      then show ?thesis using r(1) Inr x s1 by (auto simp: ActivateBestChain_def)
    next
      case None
      have inv1: "chain_inv s1" using tip_step_inv [OF s1(1)] .
      obtain r2 where r2: "op_FlushPeriodic ops st1 s1 = Some r2" using flush_returns [OF inv1] by blast
      have "tip_step s s2 \<and> tip_is_best s2" if "r2 = Inr ((ok, st2), s2)" for ok st2 s2
      proof -
        have f: "tip_step s1 s2" "chainActive s2 = chainActive s1" using flush_step [OF inv1] r2 that by blast+
        have c: "set (setBlockIndexCandidates s1) \<subseteq> dom (nodes s1)" using inv1 by (simp add: chain_inv_def tree_ok_def cand_ok_def)
        have "tip_is_best s1" using s1(2) None by simp
        then have "tip_is_best s2"
          using f c chain_inv_tip [OF inv1] same_tree_wl [of "nodes s1" "nodes s2"] unfolding tip_is_best_def tip_step_def
          by (metis subsetD)
        then show ?thesis using tip_step_trans [OF s1(1) f(1)] by blast
      qed
      then show ?thesis using r(1) Inr x None r2 by (cases r2) (auto simp: ActivateBestChain_def)
    qed
  qed
qed

end

section \<open>Corrupted blocks\<close>

text \<open>
  The loop tries a block again whose copy turned out to be corrupted, for ever if nothing else
  changes. Operations that stop there with a fault never do that, and what they return the
  operations themselves return.
\<close>

definition halt_on_corruption :: "'w tip_ops \<Rightarrow> 'w tip_ops" where
  "halt_on_corruption ops = ops\<lparr>op_ConnectTip := (\<lambda>st p pb fc s.
     case op_ConnectTip ops st p pb fc s of
       Some (Inr ((ok, st'), s')) \<Rightarrow>
         if \<not> ok \<and> vs_mode st' = MODE_INVALID \<and> corruptionPossible st' then Some (Inl AssertFalse) else Some (Inr ((ok, st'), s'))
     | r \<Rightarrow> r)\<rparr>"

lemma halt_simps [simp]:
  "op_DisconnectTip (halt_on_corruption ops) = op_DisconnectTip ops"
  "op_FlushPeriodic (halt_on_corruption ops) = op_FlushPeriodic ops"
  by (simp_all add: halt_on_corruption_def)

lemma halt_ConnectTip:
  "op_ConnectTip (halt_on_corruption ops) st p pb fc s = Some (Inr ((ok, st'), s')) \<longleftrightarrow>
     op_ConnectTip ops st p pb fc s = Some (Inr ((ok, st'), s')) \<and> \<not> (\<not> ok \<and> vs_mode st' = MODE_INVALID \<and> corruptionPossible st')"
  by (auto simp: halt_on_corruption_def split: option.splits sum.splits prod.splits)

lemma halt_ConnectTip_None:
  "op_ConnectTip (halt_on_corruption ops) st p pb fc s = None \<longleftrightarrow> op_ConnectTip ops st p pb fc s = None"
  by (auto simp: halt_on_corruption_def split: option.splits sum.splits prod.splits)

context tip_operations begin

lemma halt_sound: "sound_tip_operations (halt_on_corruption ops)"
proof
  show "\<exists>r. op_DisconnectTip (halt_on_corruption ops) st s = Some r"
    if "chain_inv s" "chain_tip (chainActive s) = Some t" for s st t
    using disconnect_returns [OF that] by simp
  show "tip_step s s' \<and> chainActive s' = (if ok then butlast (chainActive s) else chainActive s)"
    if "chain_inv s" "chain_tip (chainActive s) = Some t"
      "op_DisconnectTip (halt_on_corruption ops) st s = Some (Inr ((ok, st'), s'))" for s t st ok st' s'
    using disconnect_step [OF that(1,2)] that(3) by simp
  show "\<exists>r. op_ConnectTip (halt_on_corruption ops) st p pb fc s = Some r"
    if "chain_inv s" "nodes s p = Some b" "pprev b = chain_tip (chainActive s)" for s p b st pb fc
    using connect_returns [OF that] halt_ConnectTip_None [of ops] by (metis option.exhaust option.distinct(1))
  show "tip_step s s' \<and> chainActive s' = (if ok then chainActive s @ [Some p] else chainActive s)
      \<and> (\<not> ok \<longrightarrow> vs_mode st' = MODE_INVALID \<longrightarrow> \<not> corruptionPossible st' \<longrightarrow> failed (nodes s') p)"
    if "chain_inv s" "nodes s p = Some b" "pprev b = chain_tip (chainActive s)"
      "op_ConnectTip (halt_on_corruption ops) st p pb fc s = Some (Inr ((ok, st'), s'))" for s p b st pb fc ok st' s'
    using connect_step [OF that(1-3)] that(4) unfolding halt_ConnectTip by blast
  show "\<exists>r. op_FlushPeriodic (halt_on_corruption ops) st s = Some r" if "chain_inv s" for s st
    using flush_returns [OF that] by simp
  show "tip_step s s' \<and> chainActive s' = chainActive s"
    if "chain_inv s" "op_FlushPeriodic (halt_on_corruption ops) st s = Some (Inr ((ok, st'), s'))" for s st ok st' s'
    using flush_step [OF that(1)] that(2) by simp
  show "\<not> corruptionPossible st'"
    if "chain_inv s" "op_ConnectTip (halt_on_corruption ops) st p pb fc s = Some (Inr ((False, st'), s'))" "vs_mode st' = MODE_INVALID"
    for s st p pb fc st' s'
    using that(2,3) unfolding halt_ConnectTip by blast
qed

end

lemma halt_connect_each:
  "connect_each env (halt_on_corruption ops) m pb fc old low ps st s = Some (Inr r) \<Longrightarrow> connect_each env ops m pb fc old low ps st s = Some (Inr r)"
proof (induction ps arbitrary: st s)
  case (Cons p ps)
  obtain ok st1 s1 where c: "op_ConnectTip (halt_on_corruption ops) st p (if p = m then pb else None) fc s = Some (Inr ((ok, st1), s1))"
    using Cons.prems by (auto simp: bindP_Inr)
  then have o: "op_ConnectTip ops st p (if p = m then pb else None) fc s = Some (Inr ((ok, st1), s1))" unfolding halt_ConnectTip by blast
  have e: "connect_each env (halt_on_corruption ops) m pb fc old low (p # ps) st s
      = (if \<not> ok then (if vs_mode st1 = MODE_INVALID
             then bindP (Some (if corruptionPossible st1 then Inr s1 else InvalidChainFound env low s1)) (\<lambda>s.
                    Some (Inr ((Invalid_found low, state_valid), s)))
             else Some (Inr ((System_error, st1), s1)))
         else bindP (Some (PruneBlockIndexCandidates s1)) (\<lambda>s.
              bindP (Some (tip_better s old)) (\<lambda>better.
              if better then Some (Inr ((Better_tip, st1), s)) else connect_each env (halt_on_corruption ops) m pb fc old low ps st1 s)))"
    unfolding connect_each.simps c bindP_simps prod.case by (rule refl)
  have e': "connect_each env ops m pb fc old low (p # ps) st s
      = (if \<not> ok then (if vs_mode st1 = MODE_INVALID
             then bindP (Some (if corruptionPossible st1 then Inr s1 else InvalidChainFound env low s1)) (\<lambda>s.
                    Some (Inr ((Invalid_found low, state_valid), s)))
             else Some (Inr ((System_error, st1), s1)))
         else bindP (Some (PruneBlockIndexCandidates s1)) (\<lambda>s.
              bindP (Some (tip_better s old)) (\<lambda>better.
              if better then Some (Inr ((Better_tip, st1), s)) else connect_each env ops m pb fc old low ps st1 s)))"
    unfolding connect_each.simps o bindP_simps prod.case by (rule refl)
  show ?case
  proof (cases ok)
    case False
    then show ?thesis using Cons.prems unfolding e e' by simp
  next
    case True
    then obtain s2 better where s2: "PruneBlockIndexCandidates s1 = Inr s2" "tip_better s2 old = Inr better"
        "(if better then Some (Inr ((Better_tip, st1), s2)) else connect_each env (halt_on_corruption ops) m pb fc old low ps st1 s2) = Some (Inr r)"
      using Cons.prems unfolding e by (auto elim!: bindP_E)
    then show ?thesis using True Cons.IH [of st1 s2] unfolding e' by (cases better) simp_all
  qed
qed simp

lemma halt_connect_chunks:
  assumes "connect_chunks env (halt_on_corruption ops) m pb fc old h st s = Some (Inr y)"
  shows "connect_chunks env ops m pb fc old h st s = Some (Inr y)"
proof -
  let ?P = "\<lambda>env ops' m pb fc old h st s r. \<forall>y. (r :: fault + _) = Inr y \<longrightarrow> ops' = halt_on_corruption ops
      \<longrightarrow> connect_chunks env ops m pb fc old h st s = Some (Inr y)"
  have "?P env (halt_on_corruption ops) m pb fc old h st s (Inr y)"
  proof (rule connect_chunks.raw_induct [where P = ?P, OF _ assms], goal_cases)
    case (1 cc env ops' m pb fc old h st s r)
    show ?case
    proof (intro allI impI)
      fix y assume y: "r = Inr y" "ops' = halt_on_corruption ops"
      obtain b where b: "nodes s m = Some b" using 1(2) y(1) by (cases "nodes s m") auto
      show "connect_chunks env ops m pb fc old h st s = Some (Inr y)"
      proof (cases "h = nHeight (blk b)")
        case True
        then show ?thesis using 1(2) y(1) b by (subst connect_chunks.simps) simp
      next
        case False
        let ?t = "min (h + 32) (nHeight (blk b))"
        obtain q ps status st1 s1 where s1: "GetAncestor (nodes s) m ?t = Inr q" "collect_path (nodes s) h q = Some (Inr ps)"
            "connect_each env ops' m pb fc old (last ps) (rev ps) st s = Some (Inr ((status, st1), s1))"
            "(if status = All_connected then cc env ops' m pb fc old ?t st1 s1 else Some (Inr ((status, st1), s1))) = Some (Inr y)"
          using 1(2) unfolding b y(1) option.case if_not_P [OF False] Let_def by (auto elim!: bindP_E)
        have e: "connect_chunks env ops m pb fc old h st s
            = (if status = All_connected then connect_chunks env ops m pb fc old ?t st1 s1 else Some (Inr ((status, st1), s1)))"
          using b False s1(1,2) halt_connect_each [OF s1(3) [unfolded y(2)]] by (subst connect_chunks.simps) simp
        show ?thesis
        proof (cases "status = All_connected")
          case True
          then have "cc env ops' m pb fc old ?t st1 s1 = Some (Inr y)" using s1(4) by simp
          from 1(1) [OF this] have "connect_chunks env ops m pb fc old ?t st1 s1 = Some (Inr y)" using y(2) by simp
          then show ?thesis using True unfolding e by simp
        qed (use e s1(4) in simp)
      qed
    qed
  qed
  then show ?thesis by simp
qed

lemma halt_disconnect_to:
  assumes "disconnect_to (halt_on_corruption ops) p st s = Some r"
  shows "disconnect_to ops p st s = Some r"
proof -
  let ?P = "\<lambda>ops' p st s r. ops' = halt_on_corruption ops \<longrightarrow> disconnect_to ops p st s = Some r"
  have "?P (halt_on_corruption ops) p st s r"
  proof (rule disconnect_to.raw_induct [where P = ?P, OF _ assms], goal_cases)
    case (1 dt ops' p st s r)
    show ?case
    proof (intro impI)
      assume o: "ops' = halt_on_corruption ops"
      show "disconnect_to ops p st s = Some r"
      proof (cases "chain_tip (chainActive s) \<noteq> None \<and> chain_tip (chainActive s) \<noteq> p")
        case False
        then show ?thesis using 1(2) by (subst disconnect_to.simps) (simp only: if_False)
      next
        case True
        have e: "disconnect_to ops p st s = bindP (op_DisconnectTip ops st s) (\<lambda>((ok, st), s).
             if ok then disconnect_to ops p st s else Some (Inr ((False, st), s)))"
          using True by (subst disconnect_to.simps) (simp only: if_True simp_thms)
        have r: "bindP (op_DisconnectTip ops st s) (\<lambda>((ok, st), s).
             if ok then dt ops' p st s else Some (Inr ((False, st), s))) = Some r"
          using 1(2) True by (simp only: o if_True halt_simps simp_thms)
        show ?thesis
        proof (cases "op_DisconnectTip ops st s")
          case None
          then show ?thesis using r by simp
        next
          case (Some x)
          then show ?thesis using r 1(1) o unfolding e by (cases x) (auto split: if_splits)
        qed
      qed
    qed
  qed
  then show ?thesis by simp
qed

lemma halt_ActivateBestChainStep:
  fixes ops :: "'w tip_ops"
  assumes "ActivateBestChainStep env (halt_on_corruption ops) st m pb fc s = Some (Inr y)"
  shows "ActivateBestChainStep env ops st m pb fc s = Some (Inr y)"
proof -
  obtain pf ok st1 s1 where s1: "FindFork (nodes s) (chainActive s) m = Some (Inr pf)"
      "disconnect_to (halt_on_corruption ops) pf st s = Some (Inr ((ok, st1), s1))"
    using assms unfolding ActivateBestChainStep_def Let_def by (auto elim!: bindP_E)
  note d = halt_disconnect_to [OF s1(2)]
  define rest where "rest o' = (\<lambda>((ok, st), s2). if \<not> ok then Some (Inr ((False, st), s2))
           else bindP (Some (if pf = None then Inr (- 1) else bindE (deref s2 pf) (\<lambda>b. Inr (nHeight b)))) (\<lambda>h.
                bindP (connect_chunks env o' m pb (pb \<noteq> None \<and> fc) (chain_tip (chainActive s)) h st s2) (\<lambda>((status, st), s).
                  case status of
                    System_error \<Rightarrow> Some (Inr ((False, st), s))
                  | Invalid_found plowest \<Rightarrow>
                      bindP (CheckForkWarningConditionsOnNewFork env plowest s) (\<lambda>s. Some (Inr ((True, st), s)))
                  | _ \<Rightarrow> bindP (Some (CheckForkWarningConditions env s)) (\<lambda>s. Some (Inr ((True, st), s))))))" for o' :: "'w tip_ops"
  have e: "disconnect_to o' pf st s = Some (Inr x) \<Longrightarrow> ActivateBestChainStep env o' st m pb fc s = rest o' x" for o' :: "'w tip_ops" and x
    unfolding ActivateBestChainStep_def Let_def s1(1) bindP_simps rest_def by (simp only: bindP_simps)
  have r: "rest (halt_on_corruption ops) ((ok, st1), s1) = Some (Inr y)" using e [OF s1(2)] assms by simp
  have "rest ops ((ok, st1), s1) = Some (Inr y)"
  proof (cases ok)
    case False
    then show ?thesis using r by (auto simp: rest_def)
  next
    case True
    obtain h status st2 s2 where s2: "(if pf = None then Inr (- 1) else bindE (deref s1 pf) (\<lambda>b. Inr (nHeight b))) = Inr h"
        "connect_chunks env (halt_on_corruption ops) m pb (pb \<noteq> None \<and> fc) (chain_tip (chainActive s)) h st1 s1 = Some (Inr ((status, st2), s2))"
      using r True unfolding rest_def by (auto elim!: bindP_E simp del: not_None_eq)
    show ?thesis using r True unfolding rest_def prod.case s2 halt_connect_chunks [OF s2(2)] bindP_simps by simp
  qed
  then show ?thesis using e [OF d] by simp
qed

lemma halt_activate_loop:
  assumes "activate_loop env (halt_on_corruption ops) pblock fc st s = Some (Inr y)"
  shows "activate_loop env ops pblock fc st s = Some (Inr y)"
proof -
  let ?P = "\<lambda>env ops' pblock fc st s r. \<forall>y. (r :: fault + _) = Inr y \<longrightarrow> ops' = halt_on_corruption ops \<longrightarrow> activate_loop env ops pblock fc st s = Some (Inr y)"
  have "?P env (halt_on_corruption ops) pblock fc st s (Inr y)"
  proof (rule activate_loop.raw_induct [where P = ?P, OF _ assms], goal_cases)
    case (1 al env ops' pblock fc st s r)
    show ?case
    proof (intro allI impI)
      fix y assume y: "r = Inr y" "ops' = halt_on_corruption ops"
      obtain best s1 where s1: "FindMostWorkChain s = Some (Inr (best, s1))" using 1(2) unfolding y(1) by (auto elim!: bindP_E)
      show "activate_loop env ops pblock fc st s = Some (Inr y)"
      proof (cases "best = None \<or> chain_tip (chainActive s1) = best")
        case True
        then show ?thesis using 1(2) s1 y(1) by (subst activate_loop.simps) (auto split: option.splits)
      next
        case False
        then obtain m where m: "best = Some m" "chain_tip (chainActive s1) \<noteq> Some m" by auto
        let ?pb = "\<lambda>b. case pblock of None \<Rightarrow> Some (Inr None)
                  | Some block \<Rightarrow> (case phashBlock b of None \<Rightarrow> Some (Inl NullRead)
                    | Some hash \<Rightarrow> Some (Inr (if ce_GetHash env (block_header block) = hash then pblock else None)))"
        obtain b pb ok st2 s2 where s2: "deref s1 (Some m) = Inr b" "?pb b = Some (Inr pb)"
            "ActivateBestChainStep env ops' st m pb fc s1 = Some (Inr ((ok, st2), s2))"
            "(if \<not> ok then Some (Inr ((Some False, st2), s2)) else bindP (Some (IsInitialBlockDownload env s2)) (\<lambda>(ibd, s).
                    if chain_tip (chainActive s) \<noteq> Some m then al env ops' pblock fc st2 s
                    else Some (Inr ((None, st2), s)))) = Some (Inr y)"
          using 1(2) unfolding s1 m(1) y(1) bindP_simps prod.case option.case if_not_P [OF m(2)]
          by (elim bindP_E) (auto elim!: bindP_E)
        have e: "activate_loop env ops pblock fc st s
            = (if \<not> ok then Some (Inr ((Some False, st2), s2)) else bindP (Some (IsInitialBlockDownload env s2)) (\<lambda>(ibd, s).
                    if chain_tip (chainActive s) \<noteq> Some m then activate_loop env ops pblock fc st2 s
                    else Some (Inr ((None, st2), s))))"
          unfolding activate_loop.simps [of env ops pblock fc st s] s1 m(1) bindP_simps prod.case option.case if_not_P [OF m(2)]
            s2(1,2) halt_ActivateBestChainStep [OF s2(3) [unfolded y(2)]] by (rule refl)
        show ?thesis
        proof (cases ok)
          case False
          then show ?thesis using s2(4) unfolding e by simp
        next
          case True
          obtain ibd s3 where s3: "IsInitialBlockDownload env s2 = Inr (ibd, s3)" using s2(4) True by (auto elim!: bindP_E)
          show ?thesis
          proof (cases "chain_tip (chainActive s3) = Some m")
            case True
            then show ?thesis using s2(4) \<open>ok\<close> s3 unfolding e by simp
          next
            case False
            then have "al env ops' pblock fc st2 s3 = Some (Inr y)" using s2(4) \<open>ok\<close> s3 by simp
            from 1(1) [OF this] have "activate_loop env ops pblock fc st2 s3 = Some (Inr y)" using y(2) by simp
            then show ?thesis using False \<open>ok\<close> s3 unfolding e by simp
          qed
        qed
      qed
    qed
  qed
  then show ?thesis by simp
qed

lemma halt_ActivateBestChain:
  assumes "ActivateBestChain env (halt_on_corruption ops) st pblock fc s = Some (Inr y)"
  shows "ActivateBestChain env ops st pblock fc s = Some (Inr y)"
proof -
  obtain early st1 s1 where a: "activate_loop env (halt_on_corruption ops) pblock fc st s = Some (Inr ((early, st1), s1))"
    using assms unfolding ActivateBestChain_def by (auto elim!: bindP_E)
  show ?thesis using assms by (cases early) (simp_all add: ActivateBestChain_def a halt_activate_loop [OF a])
qed

end
