(* ===== verification/Mark_Blocks.thy ===== *)
theory Mark_Blocks
  imports Activate
begin

text \<open>
  What \<^verbatim>\<open>InvalidateBlock\<close> and \<^verbatim>\<open>ReconsiderBlock\<close> do to the marks
  of the blocks, to the active chain and to the candidates.
\<close>

section \<open>Marking a block invalid, and reconsidering it\<close>

lemma is_valid_tx_Inr: "is_valid_tx b = Inr (\<not> has_failed b \<and> BLOCK_VALID_TRANSACTIONS \<le> nStatus b AND BLOCK_VALID_MASK)"
proof -
  have "BLOCK_VALID_TRANSACTIONS AND NOT BLOCK_VALID_MASK = 0" by (simp add: BLOCK_VALID_TRANSACTIONS_def BLOCK_VALID_MASK_eq)
  then show ?thesis by (simp add: is_valid_tx_def IsValid_def has_failed_def)
qed

text \<open>A block whose transactions are counted has ancestors with that property.\<close>

definition linked_txs :: "block_store \<Rightarrow> bool" where
  "linked_txs st \<longleftrightarrow> (\<forall>p b. st p = Some b \<longrightarrow> nChainTx (blk b) \<noteq> 0 \<longrightarrow> txs_ok st p)"

lemma same_tree_linked:
  assumes "same_tree st st'" and "linked_txs st"
  shows "linked_txs st'"
  unfolding linked_txs_def
proof (intro allI impI)
  fix p c assume c: "st' p = Some c" "nChainTx (blk c) \<noteq> 0"
  obtain b where "st p = Some b" "same_block b c" using same_treeD' [OF assms(1) c(1)] by blast
  then have "txs_ok st p" using assms(2) c(2) by (auto simp: linked_txs_def same_block_def)
  then show "txs_ok st' p" by (rule same_tree_txs [OF assms(1)])
qed

lemma insert_candidate_ok:
  assumes "chain_inv s" and "p \<in> dom (nodes s)" and "txs_ok (nodes s) p"
  shows "\<exists>c. insert_candidate p s = Inr (s\<lparr>setBlockIndexCandidates := c\<rparr>)
    \<and> set c = insert p (set (setBlockIndexCandidates s)) \<and> chain_inv (s\<lparr>setBlockIndexCandidates := c\<rparr>)"
proof -
  obtain c where c: "cand_insert (nodes s) p (setBlockIndexCandidates s) = Inr c" "cand_ok (nodes s) c"
      "set c = insert p (set (setBlockIndexCandidates s))"
    using cand_insert_ok [of "nodes s" p "setBlockIndexCandidates s"] assms(1,2) by (auto simp: chain_inv_def tree_ok_def)
  then have "insert_candidate p s = Inr (s\<lparr>setBlockIndexCandidates := c\<rparr>)" by (simp add: insert_candidate_def bindE_def)
  moreover have "chain_inv (s\<lparr>setBlockIndexCandidates := c\<rparr>)"
    using c assms by (simp add: chain_inv_def tree_ok_def marker_ok_def)
  ultimately show ?thesis using c(3) by blast
qed

text \<open>The change of a status keeps the invariant.\<close>

lemma upd_status_inv:
  assumes "chain_inv s"
  shows "chain_inv (upd_status p f d s)"
proof -
  have "tree_ok (upd_status p f d s)"
    by (rule tree_ok_same [of s _ "\<lambda>_. True"]) (use assms set_status_same in \<open>simp_all add: chain_inv_def tree_ok_def\<close>)
  moreover have "marker_ok (upd_status p f d s)"
    using assms same_tree_dom [OF set_status_same [of "nodes s" p f]] by (simp add: chain_inv_def marker_ok_def)
  ultimately show ?thesis by (simp add: chain_inv_def)
qed

lemma upd_status_tip_step:
  assumes "chain_inv s" and "flag_change f True"
  shows "tip_step s (upd_status p f d s)"
  unfolding tip_step_def using upd_status_inv [OF assms(1)] set_status_same [of "nodes s" p f]
  by (auto simp: set_status_flags [OF assms(2)])

lemma erase_candidate_tip_step:
  assumes "chain_inv s" and "p \<in> dom (nodes s)"
  shows "\<exists>s'. erase_candidate p s = Inr s' \<and> tip_step s s' \<and> idx s' = idx s \<and> chainActive s' = chainActive s
    \<and> p \<notin> set (setBlockIndexCandidates s')"
proof -
  let ?s = "s\<lparr>setBlockIndexCandidates := filter (\<lambda>q. q \<noteq> p) (setBlockIndexCandidates s)\<rparr>"
  have "erase_candidate p s = Inr ?s" using erase_candidate_ok [of s p] assms by (simp add: chain_inv_def)
  moreover have "tree_ok ?s"
    by (rule tree_ok_same [of s _ "\<lambda>q. q \<noteq> p"]) (use assms(1) in \<open>simp_all add: chain_inv_def tree_ok_def\<close>)
  then have "tip_step s ?s" using assms(1) by (auto simp: tip_step_def chain_inv_def marker_ok_def)
  ultimately show ?thesis by auto
qed

context tip_operations begin

lemma invalidate_loop_ok:
  "chain_inv s \<Longrightarrow> p \<in> dom (nodes s) \<Longrightarrow> \<exists>r. invalidate_loop ops p st s = Some r
    \<and> (\<forall>ok st' s'. r = Inr ((ok, st'), s') \<longrightarrow> tip_step s s' \<and> (ok \<longrightarrow> \<not> on_chain (nodes s') (chainActive s') p))"
proof (induction "length (chainActive s)" arbitrary: s st rule: less_induct)
  case less
  obtain b where b: "nodes s p = Some b" using less.prems(2) by blast
  have c: "Contains (nodes s) (chainActive s) p = Inr (on_chain (nodes s) (chainActive s) p)"
    using b by (simp add: Contains_def on_chain_def)
  show ?case
  proof (cases "on_chain (nodes s) (chainActive s) p")
    case False
    then have "invalidate_loop ops p st s = Some (Inr ((True, st), s))" using c by (subst invalidate_loop.simps) simp
    then show ?thesis using False tip_step_refl [OF less.prems(1)] by simp
  next
    case True
    then have ne: "chainActive s \<noteq> []" using b by (auto simp: on_chain_def at_height_def split: if_splits)
    have ck: "chain_ok (nodes s) (chainActive s)" using less.prems(1) by (simp add: chain_inv_def tree_ok_def)
    obtain t ct where t: "nodes s t = Some ct" "chain_tip (chainActive s) = Some t" by (rule chain_okE [OF ck ne])
    let ?s1 = "upd_status t (\<lambda>x. x OR BLOCK_FAILED_CHILD) True s"
    have s1: "tip_step s ?s1" using upd_status_tip_step [OF less.prems(1) flag_changes(1)] .
    have td: "t \<in> dom (nodes ?s1)" using t(1) tip_step_dom [OF s1] by blast
    obtain s2 where s2: "erase_candidate t ?s1 = Inr s2" "tip_step ?s1 s2" "chainActive s2 = chainActive ?s1"
      using erase_candidate_tip_step [OF tip_step_inv [OF s1] td] by blast
    have s02: "tip_step s s2" using tip_step_trans [OF s1 s2(2)] .
    have tip2: "chain_tip (chainActive s2) = Some t" using s2(3) t(2) by simp
    obtain r where r: "op_DisconnectTip ops st s2 = Some r" using disconnect_returns [OF tip_step_inv [OF s02] tip2] by blast
    have e: "invalidate_loop ops p st s = bindP (Some r) (\<lambda>((ok, st), s).
             if ok then invalidate_loop ops p st s else Some (Inr ((False, st), s)))"
      using True c t(2) s2(1) r by (subst invalidate_loop.simps) simp
    show ?thesis
    proof (cases r)
      case (Inl x)
      then show ?thesis unfolding e by simp
    next
      case (Inr x)
      obtain ok st3 s3 where x: "x = ((ok, st3), s3)" by (metis surj_pair)
      have s3: "tip_step s2 s3" "chainActive s3 = (if ok then butlast (chainActive s2) else chainActive s2)"
        using disconnect_step [OF tip_step_inv [OF s02] tip2] r Inr x by blast+
      have s03: "tip_step s s3" using tip_step_trans [OF s02 s3(1)] .
      show ?thesis
      proof (cases ok)
        case False
        then show ?thesis unfolding e using Inr x s03 by simp
      next
        case True
        then have "length (chainActive s3) < length (chainActive s)" using s3(2) s2(3) ne by simp
        then obtain r2 where "invalidate_loop ops p st3 s3 = Some r2"
            "\<forall>ok st' s'. r2 = Inr ((ok, st'), s') \<longrightarrow> tip_step s3 s' \<and> (ok \<longrightarrow> \<not> on_chain (nodes s') (chainActive s') p)"
          using less.hyps [OF _ tip_step_inv [OF s03]] less.prems(2) tip_step_dom [OF s03] by blast
        then show ?thesis unfolding e using Inr x True tip_step_trans [OF s03] by auto
      qed
    qed
  qed
qed

end

text \<open>Blocks that may be tried, against the tip \<open>t\<close>.\<close>

definition tryable :: "block_store \<Rightarrow> ptr \<Rightarrow> ptr \<Rightarrow> bool" where
  "tryable st t p \<longleftrightarrow> (\<exists>b. st p = Some b \<and> \<not> has_failed (blk b) \<and> BLOCK_VALID_TRANSACTIONS \<le> nStatus (blk b) AND BLOCK_VALID_MASK
     \<and> nChainTx (blk b) \<noteq> 0) \<and> \<not> wl st p t"

lemma readd_candidates_ok:
  "chain_inv s \<Longrightarrow> linked_txs (nodes s) \<Longrightarrow> (\<And>h p. mapBlockIndex (idx s) h = Some p \<Longrightarrow> p \<in> dom (nodes s))
    \<Longrightarrow> chain_tip (chainActive s) = Some t \<Longrightarrow>
    \<exists>c. readd_candidates s hs = Inr (s\<lparr>setBlockIndexCandidates := c\<rparr>) \<and> chain_inv (s\<lparr>setBlockIndexCandidates := c\<rparr>)
      \<and> set c = set (setBlockIndexCandidates s) \<union> {p. (\<exists>h\<in>set hs. mapBlockIndex (idx s) h = Some p) \<and> tryable (nodes s) t p}"
proof (induction hs arbitrary: s)
  case Nil
  then show ?case by (intro exI [of _ "setBlockIndexCandidates s"]) simp
next
  case (Cons h hs)
  show ?case
  proof (cases "mapBlockIndex (idx s) h")
    case None
    then show ?thesis using Cons.IH [OF Cons.prems] by auto
  next
    case (Some p)
    then obtain b where b: "nodes s p = Some b" using Cons.prems(3) by blast
    have pd: "p \<in> dom (nodes s)" "t \<in> dom (nodes s)" using b chain_inv_tip [OF Cons.prems(1,4)] by auto
    have bt: "below_tip s p = Inr (wl (nodes s) p t)" using comparator_wl [OF pd] Cons.prems(4) by (simp add: below_tip_def)
    have d: "deref s (Some p) = Inr (blk b)" using b by (simp add: deref_def)
    have e: "readd_candidates s (h # hs)
        = bindE (if tryable (nodes s) t p then insert_candidate p s else Inr s) (\<lambda>s. readd_candidates s hs)"
      using Some d bt b by (simp add: is_valid_tx_Inr bindE_def tryable_def)
    show ?thesis
    proof (cases "tryable (nodes s) t p")
      case False
      then have "\<And>q. (\<exists>x\<in>set (h # hs). mapBlockIndex (idx s) x = Some q) \<and> tryable (nodes s) t q
          \<longleftrightarrow> (\<exists>x\<in>set hs. mapBlockIndex (idx s) x = Some q) \<and> tryable (nodes s) t q" using Some by auto
      then show ?thesis using Cons.IH [OF Cons.prems] e False by (simp add: bindE_def)
    next
      case True
      then have "txs_ok (nodes s) p" using Cons.prems(2) b by (auto simp: tryable_def linked_txs_def)
      then obtain c where c: "insert_candidate p s = Inr (s\<lparr>setBlockIndexCandidates := c\<rparr>)"
          "set c = insert p (set (setBlockIndexCandidates s))" "chain_inv (s\<lparr>setBlockIndexCandidates := c\<rparr>)"
        using insert_candidate_ok [OF Cons.prems(1) pd(1)] by blast
      obtain c2 where c2: "readd_candidates (s\<lparr>setBlockIndexCandidates := c\<rparr>) hs = Inr (s\<lparr>setBlockIndexCandidates := c2\<rparr>)"
          "chain_inv (s\<lparr>setBlockIndexCandidates := c2\<rparr>)"
          "set c2 = set c \<union> {p. (\<exists>h\<in>set hs. mapBlockIndex (idx s) h = Some p) \<and> tryable (nodes s) t p}"
        using Cons.IH [of "s\<lparr>setBlockIndexCandidates := c\<rparr>"] c(3) Cons.prems(2-4) by auto
      have "readd_candidates s (h # hs) = Inr (s\<lparr>setBlockIndexCandidates := c2\<rparr>)" using e True c(1) c2(1) by (simp add: bindE_def)
      moreover have "set c2 = set (setBlockIndexCandidates s) \<union> {p. (\<exists>h\<in>set (h # hs). mapBlockIndex (idx s) h = Some p) \<and> tryable (nodes s) t p}"
        using c2(3) c(2) Some True by auto
      ultimately show ?thesis using c2(2) by blast
    qed
  qed
qed

text \<open>The invariants of the callers that neither operation changes.\<close>

definition index_inv :: "'w chain_state \<Rightarrow> bool" where
  "index_inv s \<longleftrightarrow> chain_inv s \<and> linked_txs (nodes s) \<and> indexed (nodes s) (mapBlockIndex (idx s))"

definition walks_all :: "chain_env \<Rightarrow> BlockMap \<Rightarrow> bool" where
  "walks_all env m \<longleftrightarrow> set (ce_order env m) = dom m"

lemma same_tree_indexed:
  assumes "same_tree st st'" and "indexed st m"
  shows "indexed st' m"
  unfolding indexed_def
proof (intro conjI allI impI)
  fix h p assume "m h = Some p"
  then obtain b where b: "st p = Some b" "phashBlock (blk b) = Some h" using indexed_lookup [OF assms(2)] by blast
  obtain c where "st' p = Some c" "same_block b c" using same_treeD [OF assms(1) b(1)] by blast
  then show "\<exists>b. st' p = Some b \<and> phashBlock (blk b) = Some h" using b(2) by (auto simp: same_block_def)
next
  fix p c assume c: "st' p = Some c"
  obtain b where b: "st p = Some b" "same_block b c" using same_treeD' [OF assms(1) c] by blast
  then show "\<exists>h. phashBlock (blk c) = Some h \<and> m h = Some p" using indexed_node [OF assms(2) b(1)] by (auto simp: same_block_def)
qed

lemma tip_step_index_inv: "tip_step s s' \<Longrightarrow> index_inv s \<Longrightarrow> index_inv s'"
  using same_tree_indexed same_tree_linked unfolding index_inv_def tip_step_def by metis

lemma readd_candidates_frame: "readd_candidates s hs = Inr s' \<Longrightarrow> chainActive s' = chainActive s"
proof (induction hs arbitrary: s)
  case (Cons h hs)
  show ?case
  proof (cases "mapBlockIndex (idx s) h")
    case (Some p)
    obtain add_it s1 where s1: "(if add_it then insert_candidate p s else Inr s) = Inr s1" "readd_candidates s1 hs = Inr s'"
      using Cons.prems Some by (auto simp: bindE_Inr split: option.splits)
    then have "chainActive s1 = chainActive s" by (auto simp: insert_candidate_def bindE_Inr split: if_splits)
    then show ?thesis using Cons.IH [OF s1(2)] by simp
  qed (use Cons in auto)
qed simp

lemma InvalidChainFound_tip: "InvalidChainFound env p s = Inr s' \<Longrightarrow> \<exists>t. chain_tip (chainActive s) = Some t"
  by (auto simp: InvalidChainFound_def raise_best_invalid_def bindE_Inr deref_Inr split: if_splits)

lemma walks_all_hash:
  assumes "walks_all env (mapBlockIndex (idx s))" and "index_inv s" and "q \<in> dom (nodes s)"
  shows "\<exists>h\<in>set (ce_order env (mapBlockIndex (idx s))). mapBlockIndex (idx s) h = Some q"
proof -
  have ix: "indexed (nodes s) (mapBlockIndex (idx s))" using assms(2) by (simp add: index_inv_def)
  have "set (ce_order env (mapBlockIndex (idx s))) = dom (mapBlockIndex (idx s))" using assms(1) by (simp add: walks_all_def)
  moreover obtain h where "mapBlockIndex (idx s) h = Some q" using indexed_node [OF ix] assms(3) by blast
  ultimately show ?thesis by blast
qed

context tip_operations begin

lemma InvalidateBlock_ok:
  assumes "index_inv s" and "walks_all env (mapBlockIndex (idx s))" and "p \<in> dom (nodes s)"
  shows "\<exists>r. InvalidateBlock env ops st p s = Some r \<and> (\<forall>st' s'. r = Inr ((True, st'), s') \<longrightarrow>
     index_inv s' \<and> same_tree (nodes s) (nodes s') \<and> failed (nodes s') p \<and> \<not> on_chain (nodes s') (chainActive s') p
     \<and> (\<exists>t. chain_tip (chainActive s') = Some t \<and> (\<forall>q. tryable (nodes s') t q \<longrightarrow> q \<in> set (setBlockIndexCandidates s'))))"
proof -
  have inv: "chain_inv s" using assms(1) by (simp add: index_inv_def)
  let ?s1 = "upd_status p (\<lambda>x. x OR BLOCK_FAILED_VALID) True s"
  have s1: "tip_step s ?s1" using upd_status_tip_step [OF inv flag_changes(2)] .
  have f1: "failed (nodes ?s1) p" using set_status_flags(1) [OF flag_changes(2), of p "nodes s" p] assms(3) by simp
  have pd: "p \<in> dom (nodes ?s1)" using assms(3) tip_step_dom [OF s1] by blast
  obtain s2 where s2: "erase_candidate p ?s1 = Inr s2" "tip_step ?s1 s2" "idx s2 = idx ?s1"
    using erase_candidate_tip_step [OF tip_step_inv [OF s1] pd] by blast
  have s02: "tip_step s s2" using tip_step_trans [OF s1 s2(2)] .
  have f2: "failed (nodes s2) p" using f1 s2(3) by simp
  have "p \<in> dom (nodes s2)" using assms(3) tip_step_dom [OF s02] by blast
  then obtain r where r: "invalidate_loop ops p st s2 = Some r"
      "\<forall>ok st' s'. r = Inr ((ok, st'), s') \<longrightarrow> tip_step s2 s' \<and> (ok \<longrightarrow> \<not> on_chain (nodes s') (chainActive s') p)"
    using invalidate_loop_ok [OF tip_step_inv [OF s02]] by blast
  have e: "InvalidateBlock env ops st p s = bindP (Some r) (\<lambda>((ok, st), s).
             if \<not> ok then Some (Inr ((False, st), s))
             else bindP (Some (readd_candidates s (ce_order env (mapBlockIndex (idx s))))) (\<lambda>s.
                  bindP (Some (InvalidChainFound env p s)) (\<lambda>s. Some (Inr ((True, st), s)))))"
    using assms(3) s2(1) r(1) by (auto simp: InvalidateBlock_def domIff)
  show ?thesis
  proof (cases r)
    case (Inl x)
    then show ?thesis unfolding e by simp
  next
    case (Inr x)
    obtain ok st3 s3 where x: "x = ((ok, st3), s3)" by (metis surj_pair)
    have s3: "tip_step s2 s3" "ok \<Longrightarrow> \<not> on_chain (nodes s3) (chainActive s3) p" using r(2) Inr x by blast+
    have s03: "tip_step s s3" using tip_step_trans [OF s02 s3(1)] .
    have f3: "failed (nodes s3) p" using f2 s3(1) by (simp add: tip_step_def)
    have ix3: "index_inv s3" using tip_step_index_inv [OF s03 assms(1)] .
    show ?thesis
    proof (cases "\<exists>s4 s5. ok \<and> readd_candidates s3 (ce_order env (mapBlockIndex (idx s3))) = Inr s4 \<and> InvalidChainFound env p s4 = Inr s5")
      case False
      have "r' \<noteq> Inr ((True, st'), s')" if "InvalidateBlock env ops st p s = Some r'" for r' st' s'
        using that False unfolding e Inr x
        by (cases ok; cases "readd_candidates s3 (ce_order env (mapBlockIndex (idx s3)))")
          (auto split: sum.splits simp: bindP_def)
      moreover have "\<exists>r'. InvalidateBlock env ops st p s = Some r'"
        unfolding e Inr x
        by (cases ok; cases "readd_candidates s3 (ce_order env (mapBlockIndex (idx s3)))")
          (auto split: sum.splits simp: bindP_def)
      ultimately show ?thesis by blast
    next
      case True
      then obtain s4 s5 where ok: ok and s4: "readd_candidates s3 (ce_order env (mapBlockIndex (idx s3))) = Inr s4"
          and s5: "InvalidChainFound env p s4 = Inr s5" by blast
      obtain t where t: "chain_tip (chainActive s3) = Some t" using InvalidChainFound_tip [OF s5] readd_candidates_frame [OF s4] by auto
      have m: "q \<in> dom (nodes s3)" if "mapBlockIndex (idx s3) h = Some q" for h q
        using indexed_lookup that ix3 unfolding index_inv_def by blast
      obtain c where c: "s4 = s3\<lparr>setBlockIndexCandidates := c\<rparr>" "chain_inv s4"
          "set c = set (setBlockIndexCandidates s3) \<union> {q. (\<exists>h\<in>set (ce_order env (mapBlockIndex (idx s3))). mapBlockIndex (idx s3) h = Some q) \<and> tryable (nodes s3) t q}"
        using readd_candidates_ok [of s3 t "ce_order env (mapBlockIndex (idx s3))"] m t ix3 s4 unfolding index_inv_def
        by (metis (no_types, lifting) sum.inject(2))
      have w: "warning_step s4 s5" using InvalidChainFound_frame [OF s5] .
      have ix4: "index_inv s4" using ix3 c(1,2) by (simp add: index_inv_def)
      have ix5: "index_inv s5" using tip_step_index_inv [OF _ ix4] warning_step_tip [OF w c(2)] by blast
      have n5: "nodes s5 = nodes s3" "chainActive s5 = chainActive s3" "setBlockIndexCandidates s5 = c"
        using w c(1) by (simp_all add: warning_step_def)
      have all_in: "q \<in> set c" if "tryable (nodes s3) t q" for q
      proof -
        have "q \<in> dom (nodes s3)" using that by (auto simp: tryable_def)
        moreover have "walks_all env (mapBlockIndex (idx s3))" using assms(2) s03 by (simp add: tip_step_def)
        ultimately show ?thesis using walks_all_hash [OF _ ix3] that c(3) by blast
      qed
      have "InvalidateBlock env ops st p s = Some (Inr ((True, st3), s5))" unfolding e Inr x using ok s4 s5 by simp
      then show ?thesis using ix5 n5 f3 s3(2) [OF ok] t all_in s03 by (auto simp: tip_step_def)
    qed
  qed
qed

end

text \<open>The blocks that have \<open>p\<close> on their way back, and the validation level of a status.\<close>

definition descends :: "block_store \<Rightarrow> ptr \<Rightarrow> ptr \<Rightarrow> bool" where
  "descends st q p \<longleftrightarrow> (\<exists>n. up st n q = Some p)"

definition counted :: "block_store \<Rightarrow> ptr \<Rightarrow> bool" where
  "counted st q \<longleftrightarrow> (\<exists>b. st q = Some b \<and> BLOCK_VALID_TRANSACTIONS \<le> nStatus (blk b) AND BLOCK_VALID_MASK \<and> nChainTx (blk b) \<noteq> 0)"

lemma same_tree_descends: "same_tree st st' \<Longrightarrow> descends st' q p \<longleftrightarrow> descends st q p"
  by (simp add: descends_def same_tree_up)

lemma up_height_le: "wf_store st \<Longrightarrow> st q = Some b \<Longrightarrow> up st n q = Some p \<Longrightarrow> n \<le> hgt b"
proof (induction n arbitrary: q b)
  case (Suc n)
  then obtain r where r: "pprev b = Some r" "up st n r = Some p" by (auto split: option.splits)
  then obtain c where c: "st r = Some c" "nHeight (blk b) = nHeight (blk c) + 1" "0 \<le> nHeight (blk c)"
    using wf_storeD [OF Suc.prems(1,2)] wf_storeD [OF Suc.prems(1), of r] by (auto simp: wf_node_def)
  have "n \<le> hgt c" using Suc.IH [OF Suc.prems(1) c(1) r(2)] .
  then show ?case using c(2,3) by simp
qed simp

lemma GetAncestor_descends:
  assumes "wf_store st" and "st q = Some b" and "st p = Some c"
  shows "\<exists>a. GetAncestor st q (nHeight (blk c)) = Inr a \<and> (a = Some p \<longleftrightarrow> descends st q p)"
proof -
  have h: "0 \<le> nHeight (blk b)" "0 \<le> nHeight (blk c)" using wf_storeD [OF assms(1)] assms(2,3) by (auto simp: wf_node_def)
  have n: "n \<le> hgt b" "n = hgt b - hgt c" "hgt c \<le> hgt b" if u: "up st n q = Some p" for n
  proof -
    show "n \<le> hgt b" using up_height_le [OF assms(1,2) that] .
    from up_exists [OF assms(1,2) this] obtain c' where "st p = Some c'" "hgt c' = hgt b - n" using u by auto
    then show "n = hgt b - hgt c" "hgt c \<le> hgt b" using assms(3) \<open>n \<le> hgt b\<close> by auto
  qed
  have "(if nHeight (blk c) \<le> nHeight (blk b) then up st (hgt b - hgt c) q else None) = Some p \<longleftrightarrow> descends st q p"
  proof (cases "descends st q p")
    case True
    then obtain n where u: "up st n q = Some p" by (auto simp: descends_def)
    then have "up st (hgt b - hgt c) q = Some p" "hgt c \<le> hgt b" using n [OF u] by auto
    then show ?thesis using h True by auto
  next
    case False
    then show ?thesis by (auto simp: descends_def)
  qed
  then show ?thesis using GetAncestor_up [OF assms(1,2)] h by simp
qed

text \<open>What clearing the failure of the blocks \<open>Q\<close> does.\<close>

definition clear_step :: "'w chain_state \<Rightarrow> 'w chain_state \<Rightarrow> ptr set \<Rightarrow> bool" where
  "clear_step s s' Q \<longleftrightarrow> index_inv s' \<and> same_tree (nodes s) (nodes s') \<and> mapBlockIndex (idx s') = mapBlockIndex (idx s)
     \<and> chainActive s' = chainActive s \<and> (\<forall>q. failed (nodes s') q \<longleftrightarrow> failed (nodes s) q \<and> q \<notin> Q)
     \<and> (\<forall>q. counted (nodes s') q \<longleftrightarrow> counted (nodes s) q) \<and> set (setBlockIndexCandidates s) \<subseteq> set (setBlockIndexCandidates s')"

lemma clear_step_refl: "index_inv s \<Longrightarrow> clear_step s s {}"
  by (simp add: clear_step_def)

lemma clear_step_trans: "clear_step a b P \<Longrightarrow> clear_step b c Q \<Longrightarrow> clear_step a c (P \<union> Q)"
  unfolding clear_step_def by (elim conjE) (auto intro: same_tree_trans)

lemma level_kept: "(x AND NOT BLOCK_FAILED_MASK) AND BLOCK_VALID_MASK = x AND (BLOCK_VALID_MASK :: u32)"
  by (simp add: BLOCK_FAILED_MASK_def BLOCK_FAILED_VALID_def BLOCK_FAILED_CHILD_def BLOCK_VALID_MASK_eq and.assoc)

lemma clear_status_step:
  assumes "index_inv s"
  shows "clear_step s (upd_status p (\<lambda>x. x AND NOT BLOCK_FAILED_MASK) d s) {p}"
proof -
  let ?s = "upd_status p (\<lambda>x. x AND NOT BLOCK_FAILED_MASK) d s"
  have t: "same_tree (nodes s) (nodes ?s)" using set_status_same by simp
  have "chain_inv ?s" using assms by (intro upd_status_inv) (simp add: index_inv_def)
  then have "index_inv ?s" using assms same_tree_linked [OF t] same_tree_indexed [OF t] by (simp add: index_inv_def)
  moreover have "failed (nodes ?s) q \<longleftrightarrow> failed (nodes s) q \<and> q \<notin> {p}" for q
    using set_status_flags(1) [OF flag_changes(3), of p "nodes s" q] by (auto simp: failed_def)
  moreover have "counted (nodes ?s) q \<longleftrightarrow> counted (nodes s) q" for q
    by (auto simp: counted_def set_status_def level_kept split: option.splits)
  ultimately show ?thesis using t by (simp add: clear_step_def)
qed

lemma insert_candidate_clear:
  assumes "index_inv s" and "counted (nodes s) p"
  shows "\<exists>s'. insert_candidate p s = Inr s' \<and> clear_step s s' {} \<and> p \<in> set (setBlockIndexCandidates s') \<and> nodes s' = nodes s"
proof -
  have i: "chain_inv s" "p \<in> dom (nodes s)" "txs_ok (nodes s) p"
    using assms by (auto simp: index_inv_def linked_txs_def counted_def)
  obtain c where c: "insert_candidate p s = Inr (s\<lparr>setBlockIndexCandidates := c\<rparr>)" "set c = insert p (set (setBlockIndexCandidates s))"
      "chain_inv (s\<lparr>setBlockIndexCandidates := c\<rparr>)"
    using insert_candidate_ok [OF i] by blast
  then show ?thesis using assms(1) by (intro exI [of _ "s\<lparr>setBlockIndexCandidates := c\<rparr>"]) (auto simp: clear_step_def index_inv_def)
qed

lemma unmark_clear:
  assumes "index_inv s"
  shows "clear_step s (if pindexBestInvalid s = Some p then s\<lparr>pindexBestInvalid := None\<rparr> else s) {}"
  using assms by (auto simp: clear_step_def index_inv_def chain_inv_def tree_ok_def marker_ok_def)
lemma chain_inv_wf: "chain_inv s \<Longrightarrow> wf_store (nodes s)"
  by (simp add: chain_inv_def tree_ok_def)

text \<open>The pass over the index.\<close>

lemma reconsider_each_ok:
  "index_inv s \<Longrightarrow> nodes s p = Some c \<Longrightarrow> chain_tip (chainActive s) = Some t \<Longrightarrow>
   \<exists>s'. reconsider_each (nHeight (blk c)) p s hs = Inr s'
     \<and> (\<exists>Q. clear_step s s' Q \<and> (\<forall>q. q \<in> Q \<longrightarrow> descends (nodes s) q p)
        \<and> (\<forall>h\<in>set hs. \<forall>q. mapBlockIndex (idx s) h = Some q \<and> descends (nodes s) q p \<and> failed (nodes s) q \<longrightarrow>
             q \<in> Q \<and> (counted (nodes s) q \<and> wl (nodes s) t q \<longrightarrow> q \<in> set (setBlockIndexCandidates s'))))"
proof (induction hs arbitrary: s c)
  case Nil
  then show ?case using clear_step_refl by fastforce
next
  case (Cons h hs)
  let ?h = "nHeight (blk c)"
  note inv = Cons.prems(1)
  have ci: "chain_inv s" "indexed (nodes s) (mapBlockIndex (idx s))" using inv by (simp_all add: index_inv_def)
  have skip: ?case
    if e: "reconsider_each ?h p s (h # hs) = reconsider_each ?h p s hs"
      and nf: "\<And>q. mapBlockIndex (idx s) h = Some q \<Longrightarrow> descends (nodes s) q p \<Longrightarrow> \<not> failed (nodes s) q"
  proof -
    obtain s' Q where "reconsider_each ?h p s hs = Inr s'" "clear_step s s' Q" "\<forall>q. q \<in> Q \<longrightarrow> descends (nodes s) q p"
        "\<forall>h\<in>set hs. \<forall>q. mapBlockIndex (idx s) h = Some q \<and> descends (nodes s) q p \<and> failed (nodes s) q \<longrightarrow>
             q \<in> Q \<and> (counted (nodes s) q \<and> wl (nodes s) t q \<longrightarrow> q \<in> set (setBlockIndexCandidates s'))"
      using Cons.IH [OF Cons.prems] by blast
    then show ?thesis using e nf by (intro exI [of _ s'] conjI exI [of _ Q]) auto
  qed
  show ?case
  proof (cases "mapBlockIndex (idx s) h")
    case None
    then show ?thesis by (intro skip) simp_all
  next
    case (Some q)
    then obtain b where b: "nodes s q = Some b" using indexed_lookup [OF ci(2)] by blast
    have d: "deref s (Some q) = Inr (blk b)" using b by (simp add: deref_def)
    obtain a where a: "GetAncestor (nodes s) q ?h = Inr a" "a = Some p \<longleftrightarrow> descends (nodes s) q p"
      using GetAncestor_descends [OF chain_inv_wf [OF ci(1)] b Cons.prems(2)] by blast
    let ?v = "\<not> has_failed (blk b) \<and> BLOCK_VALID_TRANSACTIONS \<le> nStatus (blk b) AND BLOCK_VALID_MASK"
    show ?thesis
    proof (cases "?v \<or> \<not> descends (nodes s) q p")
      case True
      then have "reconsider_each ?h p s (h # hs) = reconsider_each ?h p s hs"
        using Some d a by (auto simp: is_valid_tx_Inr bindE_def)
      moreover have "\<not> failed (nodes s) r" if "mapBlockIndex (idx s) h = Some r" "descends (nodes s) r p" for r
        using True that Some b by (auto simp: failed_def)
      ultimately show ?thesis by (rule skip)
    next
      case False
      define s1 where "s1 = upd_status q (\<lambda>x. x AND NOT BLOCK_FAILED_MASK) True s"
      have s1: "clear_step s s1 {q}" unfolding s1_def by (rule clear_status_step [OF inv])
      then obtain b1 where b1: "nodes s1 q = Some b1" "same_block b b1"
        using same_treeD [of "nodes s" "nodes s1" q b] b by (auto simp: clear_step_def)
      have nf1: "\<not> has_failed (blk b1)" using s1 b1(1) by (auto simp: clear_step_def failed_def)
      have tip1: "chain_tip (chainActive s1) = Some t" using s1 Cons.prems(3) by (simp add: clear_step_def)
      have i1: "index_inv s1" using s1 by (simp add: clear_step_def)
      then have i1: "index_inv s1" "chain_inv s1" by (simp_all add: index_inv_def)
      have ab: "above_tip s1 q = Inr (wl (nodes s1) t q)"
        using comparator_wl [of t "nodes s1" q] chain_inv_tip [OF i1(2) tip1] b1(1) tip1 by (simp add: above_tip_def domI)
      let ?add = "counted (nodes s1) q \<and> wl (nodes s1) t q"
      define r where "r = (if ?add then insert_candidate q s1 else Inr s1)"
      obtain s2 where s2: "r = Inr s2" "clear_step s1 s2 {}" "?add \<longrightarrow> q \<in> set (setBlockIndexCandidates s2)"
      proof (cases ?add)
        case True
        then obtain s2 where "insert_candidate q s1 = Inr s2" "clear_step s1 s2 {}" "q \<in> set (setBlockIndexCandidates s2)"
          using insert_candidate_clear [OF i1(1), of q] by blast
        then show ?thesis using that [of s2] True by (simp add: r_def)
      next
        case no: False
        show ?thesis by (rule that [of s1]) (use no clear_step_refl [OF i1(1)] in \<open>auto simp: r_def\<close>)
      qed
      define s3 where "s3 = (if pindexBestInvalid s2 = Some q then s2\<lparr>pindexBestInvalid := None\<rparr> else s2)"
      have "clear_step s2 s3 {}" unfolding s3_def using s2(2) by (intro unmark_clear) (simp add: clear_step_def)
      then have s03: "clear_step s s3 {q}" and s23: "set (setBlockIndexCandidates s2) \<subseteq> set (setBlockIndexCandidates s3)"
        using clear_step_trans [OF s1 clear_step_trans [OF s2(2), of s3 "{}"]] by (simp_all only: Un_empty_right) (simp add: clear_step_def)
      have e: "reconsider_each ?h p s (h # hs) = reconsider_each ?h p s3 hs"
      proof -
        let ?rest = "\<lambda>s. reconsider_each ?h p (if pindexBestInvalid s = Some q then s\<lparr>pindexBestInvalid := None\<rparr> else s) hs"
        have d1: "deref s1 (Some q) = Inr (blk b1)" using b1(1) by (simp add: deref_def)
        have v: "?v = False" "(a = Some p) = True" using False a(2) by blast+
        have "bindE (if v \<and> nChainTx (blk b1) \<noteq> 0 then above_tip s1 q else Inr False) (\<lambda>add_it.
                bindE (if add_it then insert_candidate q s1 else Inr s1) ?rest) = bindE r ?rest"
          if "v = (BLOCK_VALID_TRANSACTIONS \<le> nStatus (blk b1) AND BLOCK_VALID_MASK)" for v
          using that b1(1) by (cases "counted (nodes s1) q") (auto simp: counted_def ab bindE_def r_def)
        then have "reconsider_each ?h p s (h # hs) = bindE r ?rest"
          unfolding reconsider_each.simps Some option.case d is_valid_tx_Inr a(1) s1_def [symmetric] Let_def bindE_simps(2) d1
          by (simp only: v if_False if_True not_True_eq_False not_False_eq_True bindE_simps(2) d1 nf1 simp_thms)
        then show ?thesis by (simp only: s2(1) s3_def bindE_def sum.case)
      qed
      have t3: "same_tree (nodes s) (nodes s3)" "mapBlockIndex (idx s3) = mapBlockIndex (idx s)" "index_inv s3"
          "chain_tip (chainActive s3) = Some t" "counted (nodes s3) = counted (nodes s)"
          "failed (nodes s3) = (\<lambda>x. failed (nodes s) x \<and> x \<noteq> q)"
        using s03 Cons.prems(3) by (auto simp: clear_step_def)
      obtain c3 where c3: "nodes s3 p = Some c3" "nHeight (blk c3) = ?h" using same_treeD [OF t3(1) Cons.prems(2)] by (auto simp: same_block_def)
      have wl3: "wl (nodes s3) t x = wl (nodes s) t x" if "x \<in> dom (nodes s)" for x
        using same_tree_wl [OF t3(1) chain_inv_tip [OF ci(1) Cons.prems(3)] that] .
      have wl1: "wl (nodes s1) t q = wl (nodes s) t q"
        using same_tree_wl [of "nodes s" "nodes s1" t q] s1 chain_inv_tip [OF ci(1) Cons.prems(3)] b by (auto simp: clear_step_def)
      have ct1: "counted (nodes s1) q = counted (nodes s) q" using s1 by (simp add: clear_step_def)
      obtain s' Q where s': "reconsider_each ?h p s3 hs = Inr s'" "clear_step s3 s' Q" "\<forall>x. x \<in> Q \<longrightarrow> descends (nodes s3) x p"
          "\<forall>h\<in>set hs. \<forall>x. mapBlockIndex (idx s3) h = Some x \<and> descends (nodes s3) x p \<and> failed (nodes s3) x \<longrightarrow>
             x \<in> Q \<and> (counted (nodes s3) x \<and> wl (nodes s3) t x \<longrightarrow> x \<in> set (setBlockIndexCandidates s'))"
        using Cons.IH [OF t3(3) c3(1) t3(4)] unfolding c3(2) by blast
      have ds: "descends (nodes s3) x p = descends (nodes s) x p" for x using same_tree_descends [OF t3(1)] .
      have qd: "descends (nodes s) q p" using False by blast
      have qin: "q \<in> set (setBlockIndexCandidates s')" if "counted (nodes s) q" "wl (nodes s) t q"
        using s2(3) that wl1 ct1 s23 s'(2) by (auto simp: clear_step_def)
      have xd: "x \<in> dom (nodes s)" if "mapBlockIndex (idx s) k = Some x" for k x using indexed_lookup [OF ci(2) that] by blast
      have all_x: "x \<in> {q} \<union> Q \<and> (counted (nodes s) x \<and> wl (nodes s) t x \<longrightarrow> x \<in> set (setBlockIndexCandidates s'))"
        if k: "k \<in> set (h # hs)" and x: "mapBlockIndex (idx s) k = Some x" "descends (nodes s) x p" "failed (nodes s) x" for k x
      proof (cases "x = q")
        case True
        then show ?thesis using qin by blast
      next
        case ne: False
        then have "k \<in> set hs" using k x(1) Some by auto
        then show ?thesis using s'(4) x ne t3(2,5,6) ds wl3 [OF xd [OF x(1)]] by auto
      qed
      have "clear_step s s' ({q} \<union> Q)" using clear_step_trans [OF s03 s'(2)] .
      moreover have "\<forall>x. x \<in> {q} \<union> Q \<longrightarrow> descends (nodes s) x p" using s'(3) ds qd by auto
      ultimately show ?thesis using e s'(1) all_x by (intro exI [of _ s'] conjI exI [of _ "{q} \<union> Q"]) auto
    qed
  qed
qed

text \<open>The walk to the genesis block.\<close>

lemma reconsider_ancestors_ok:
  "index_inv s \<Longrightarrow> q \<in> dom (nodes s) \<Longrightarrow>
    \<exists>s' Q. reconsider_ancestors (Some q) s = Some (Inr s') \<and> clear_step s s' Q \<and> (\<forall>x. failed (nodes s) x \<longrightarrow> x \<in> Q \<longleftrightarrow> descends (nodes s) q x)"
proof (induction "hgt (the (nodes s q))" arbitrary: q s rule: less_induct)
  case less
  obtain b where b: "nodes s q = Some b" using less.prems(2) by blast
  define s1 where "s1 = (if has_failed (blk b) then upd_status q (\<lambda>x. x AND NOT BLOCK_FAILED_MASK) True s else s)"
  have f: "failed (nodes s) q \<longleftrightarrow> has_failed (blk b)" using b by (simp add: failed_def)
  have "clear_step s s {q}" if "\<not> has_failed (blk b)" using that less.prems(1) f by (auto simp: clear_step_def)
  then have s1: "clear_step s s1 {q}" unfolding s1_def using clear_status_step [OF less.prems(1)] by simp
  have wf: "wf_store (nodes s)" using less.prems(1) by (simp add: index_inv_def chain_inv_wf)
  have step: "descends (nodes s) q x \<longleftrightarrow> x = q \<or> (\<exists>r. pprev b = Some r \<and> descends (nodes s) r x)" for x
  proof -
    have "(\<exists>n. up (nodes s) n q = Some x) \<longleftrightarrow> up (nodes s) 0 q = Some x \<or> (\<exists>n. up (nodes s) (Suc n) q = Some x)"
      by (metis not0_implies_Suc)
    then show ?thesis using b by (auto simp: descends_def split: option.splits)
  qed
  have e: "reconsider_ancestors (Some q) s = reconsider_ancestors (pprev b) s1"
    using b by (subst reconsider_ancestors.simps) (simp add: s1_def)
  show ?case
  proof (cases "pprev b")
    case None
    then have "reconsider_ancestors (Some q) s = Some (Inr s1)" unfolding e by (subst reconsider_ancestors.simps) simp
    then show ?thesis using s1 step None by auto
  next
    case (Some r)
    obtain d where d: "nodes s r = Some d" "nHeight (blk b) = nHeight (blk d) + 1" "0 \<le> nHeight (blk d)"
      using wf_storeD [OF wf b] Some wf_storeD [OF wf, of r] by (auto simp: wf_node_def)
    have t1: "same_tree (nodes s) (nodes s1)" "index_inv s1" using s1 by (simp_all add: clear_step_def)
    obtain d1 where d1: "nodes s1 r = Some d1" "nHeight (blk d1) = nHeight (blk d)"
      using same_treeD [OF t1(1) d(1)] by (auto simp: same_block_def)
    have "hgt (the (nodes s1 r)) < hgt (the (nodes s q))" using b d d1 by simp
    then obtain s' Q where s': "reconsider_ancestors (Some r) s1 = Some (Inr s')" "clear_step s1 s' Q"
        "\<forall>x. failed (nodes s1) x \<longrightarrow> x \<in> Q \<longleftrightarrow> descends (nodes s1) r x"
      using less.hyps [OF _ t1(2), of r] d1(1) by blast
    have "clear_step s s' ({q} \<union> Q)" using clear_step_trans [OF s1 s'(2)] .
    moreover have "x \<in> {q} \<union> Q \<longleftrightarrow> descends (nodes s) q x" if x: "failed (nodes s) x" for x
    proof (cases "x = q")
      case False
      then have "failed (nodes s1) x" using x s1 by (auto simp: clear_step_def)
      then have "x \<in> Q \<longleftrightarrow> descends (nodes s) r x" using s'(3) same_tree_descends [OF t1(1)] by blast
      then show ?thesis using False step Some by auto
    qed (use step in auto)
    ultimately show ?thesis using e s'(1) Some by auto
  qed
qed

lemma ReconsiderBlock_ok:
  assumes "index_inv s" and "walks_all env (mapBlockIndex (idx s))" and "p \<in> dom (nodes s)" and "chain_tip (chainActive s) = Some t"
  shows "\<exists>s'. ReconsiderBlock env p s = Some (Inr s') \<and> index_inv s' \<and> same_tree (nodes s) (nodes s') \<and> chainActive s' = chainActive s
    \<and> (\<forall>q. failed (nodes s') q \<longleftrightarrow> failed (nodes s) q \<and> \<not> descends (nodes s) q p \<and> \<not> descends (nodes s) p q)
    \<and> (\<forall>q. failed (nodes s) q \<and> descends (nodes s) q p \<and> counted (nodes s) q \<and> wl (nodes s) t q \<longrightarrow> q \<in> set (setBlockIndexCandidates s'))"
proof -
  let ?hs = "ce_order env (mapBlockIndex (idx s))"
  obtain c where c: "nodes s p = Some c" using assms(3) by blast
  obtain s1 Q where s1: "reconsider_each (nHeight (blk c)) p s ?hs = Inr s1" "clear_step s s1 Q" "\<forall>q. q \<in> Q \<longrightarrow> descends (nodes s) q p"
      "\<forall>h\<in>set ?hs. \<forall>q. mapBlockIndex (idx s) h = Some q \<and> descends (nodes s) q p \<and> failed (nodes s) q \<longrightarrow>
             q \<in> Q \<and> (counted (nodes s) q \<and> wl (nodes s) t q \<longrightarrow> q \<in> set (setBlockIndexCandidates s1))"
    using reconsider_each_ok [OF assms(1) c assms(4), of ?hs] by blast
  have t1: "same_tree (nodes s) (nodes s1)" "index_inv s1" using s1(2) by (simp_all add: clear_step_def)
  have "p \<in> dom (nodes s1)" using same_tree_dom [OF t1(1)] assms(3) by blast
  then obtain s2 R where s2: "reconsider_ancestors (Some p) s1 = Some (Inr s2)" "clear_step s1 s2 R"
      "\<forall>x. failed (nodes s1) x \<longrightarrow> x \<in> R \<longleftrightarrow> descends (nodes s1) p x"
    using reconsider_ancestors_ok [OF t1(2)] by blast
  have s02: "clear_step s s2 (Q \<union> R)" using clear_step_trans [OF s1(2) s2(2)] .
  have hit: "q \<in> Q \<and> (counted (nodes s) q \<and> wl (nodes s) t q \<longrightarrow> q \<in> set (setBlockIndexCandidates s1))"
    if q: "failed (nodes s) q" "descends (nodes s) q p" for q
  proof -
    have "q \<in> dom (nodes s)" using q(1) by (auto simp: failed_def)
    then show ?thesis using walks_all_hash [OF assms(2,1)] s1(4) q by blast
  qed
  have "failed (nodes s2) q \<longleftrightarrow> failed (nodes s) q \<and> \<not> descends (nodes s) q p \<and> \<not> descends (nodes s) p q" for q
  proof -
    have "failed (nodes s1) q \<longleftrightarrow> failed (nodes s) q \<and> \<not> descends (nodes s) q p" using s1(2,3) hit by (auto simp: clear_step_def)
    moreover have "failed (nodes s2) q \<longleftrightarrow> failed (nodes s1) q \<and> \<not> descends (nodes s1) p q" using s2(2,3) by (auto simp: clear_step_def)
    ultimately show ?thesis using same_tree_descends [OF t1(1)] by blast
  qed
  moreover have "ReconsiderBlock env p s = Some (Inr s2)"
    using c s1(1) s2(1) by (simp add: ReconsiderBlock_def deref_def)
  moreover have "set (setBlockIndexCandidates s1) \<subseteq> set (setBlockIndexCandidates s2)" using s2(2) by (simp add: clear_step_def)
  ultimately show ?thesis using s02 hit by (intro exI [of _ s2]) (auto simp: clear_step_def)
qed

end
