(* ===== verification/Tips.thy ===== *)
theory Tips
  imports Node Mark_Blocks
begin

text \<open>
  Moving the tip of the active chain (\<^verbatim>\<open>FlushStateToDisk\<close>,
  \<^verbatim>\<open>UpdateTip\<close>, \<^verbatim>\<open>DisconnectTip\<close> and
  \<^verbatim>\<open>ConnectTip\<close> of \<^verbatim>\<open>src/main.cpp\<close>) on the state of the node, and
  choosing the best chain with them. What the wallet and the other subscribers of the signals are told
  is not modelled. A block that fails leaves the money supply of its entry and the coins read for it
  uncached; in the code they stay, unused, until the block is connected again.
\<close>

section \<open>The environments of the components\<close>

definition active_entries :: "node_state \<Rightarrow> CBlockIndex list" where
  "active_entries s = List.map_filter (\<lambda>p. Option.bind p (entry_at (nodes s))) (chainActive s)"

definition parents :: "node_state \<Rightarrow> CBlockNode \<Rightarrow> pprev_chain" where
  "parents s b = (case pprev b of None \<Rightarrow> [] | Some q \<Rightarrow> pprev_list (nodes s) q)"

text \<open>
  The undo data of a block: the place for it, 40 bytes larger than the data, and the file of the
  block. The entry stores the position behind the eight bytes of magic and size.
\<close>

definition undo_place :: "node_env \<Rightarrow> block_files \<Rightarrow> CValidationState \<Rightarrow> int \<Rightarrow> CTxInUndo list list
    \<Rightarrow> fault + (CValidationState + CDiskBlockPos) \<times> block_files" where
  "undo_place env fs st file vtxundo =
     (case ser_blockundo (disk env) vtxundo of
        None \<Rightarrow> Inl AssertFalse
      | Some bs \<Rightarrow> FindUndoPos (disk env) st file (of_nat (length bs) + 40) fs)"

text \<open>
  What connecting a block reads of the state. \<^verbatim>\<open>ConnectBlock\<close> decides with these
  functions; \<open>store_undo\<close> repeats them on the files, and raises the fault that has no place
  in their result.
\<close>

definition connect_env_at :: "node_env \<Rightarrow> node_state \<Rightarrow> CBlockIndex \<Rightarrow> connect_env" where
  "connect_env_at env s b = (ae_con (ne_accept env))
     \<lparr>env_params := ne_params env, env_fEnabled := ce_fEnabled (ne_chain env), env_checkpoints := ce_checkpoints (ne_chain env),
      env_mapBlockIndex := map_entry s, env_vChain := active_entries s,
      env_GetHash := ne_GetHash env, env_HashGenesisBlock := ne_HashGenesisBlock env,
      env_FindUndoPos := (\<lambda>st file u. case undo_place env (files (world s)) st file u of
          Inl e \<Rightarrow> Inr 0
        | Inr (Inl st, fs) \<Rightarrow> Inl st
        | Inr (Inr pos, fs) \<Rightarrow> Inr (pos_nPos pos + 8)),
      env_WriteUndo := (\<lambda>u h. 0 \<le> nFile b \<and> de_rev (disk env) (nat (nFile b)))\<rparr>"

definition accept_env_at :: "node_env \<Rightarrow> node_state \<Rightarrow> CBlockIndex \<Rightarrow> accept_env" where
  "accept_env_at env s b = (ne_accept env)\<lparr>ae_con := connect_env_at env s b, ae_Height := Height (chainActive s)\<rparr>"

definition check_pool :: "node_env \<Rightarrow> CBlockIndex \<Rightarrow> node_state \<Rightarrow> fault + node_state" where
  "check_pool env b s =
     bindE (pool_check (connect_env_at env s b) (mempool (world s)) db_view (pcoinsTip (world s)))
       (\<lambda>tip. Inr (upd_world (\<lambda>w. w\<lparr>pcoinsTip := tip\<rparr>) s))"

text \<open>\<^verbatim>\<open>view.Flush()\<close>, asserted.\<close>

definition flush_view :: "work_cache \<Rightarrow> node_state \<Rightarrow> fault + node_state" where
  "flush_view view s =
     (case Flush tip_ops view of
        Some (view, True) \<Rightarrow> Inr (upd_world (\<lambda>w. w\<lparr>pcoinsTip := view_base view\<rparr>) s)
      | _ \<Rightarrow> Inl AssertFalse)"

section \<open>Flushing the state\<close>

datatype flush_mode = FLUSH_STATE_IF_NEEDED | FLUSH_STATE_PERIODIC | FLUSH_STATE_ALWAYS

definition DATABASE_WRITE_INTERVAL :: int where "DATABASE_WRITE_INTERVAL = 3600"

definition flush_needed :: "node_env \<Rightarrow> flush_mode \<Rightarrow> node_world \<Rightarrow> bool" where
  "flush_needed env mode w \<longleftrightarrow> mode = FLUSH_STATE_ALWAYS \<or> ne_nCoinCacheSize env < length (cacheCoins (pcoinsTip w))
     \<or> mode = FLUSH_STATE_PERIODIC \<and> nLastWrite w + DATABASE_WRITE_INTERVAL * 1000000 < ne_GetTimeMicros env"

text \<open>
  \<^verbatim>\<open>CDiskBlockIndex\<close>: an entry with the hash of its parent, under the hash of its header.
\<close>

definition CDiskBlockIndex :: "node_env \<Rightarrow> block_store \<Rightarrow> ptr \<Rightarrow> fault + base_uint \<times> CBlockNode \<times> base_uint" where
  "CDiskBlockIndex env st p =
     (case st p of
        None \<Rightarrow> Inl NullRead
      | Some b \<Rightarrow>
          bindE (case pprev b of
              None \<Rightarrow> Inr (uint256_of_u64 0)
            | Some q \<Rightarrow> (case st q of None \<Rightarrow> Inl NullRead | Some c \<Rightarrow> deref_hash (blk c))) (\<lambda>hashPrev.
            Inr (ne_GetHash env \<lparr>hdr_nVersion = nVersion (blk b), hashPrevBlock = hashPrev,
                   hashMerkleRoot = idx_hashMerkleRoot b, hdr_nTime = nTime (blk b),
                   hdr_nBits = nBits (blk b), nNonce = idx_nNonce b\<rparr>, b, hashPrev)))"

fun write_entries :: "node_env \<Rightarrow> block_store \<Rightarrow> ptr list \<Rightarrow> (base_uint \<rightharpoonup> CBlockNode \<times> base_uint)
    \<Rightarrow> fault + (base_uint \<rightharpoonup> CBlockNode \<times> base_uint)" where
  "write_entries env st [] db = Inr db"
| "write_entries env st (p # ps) db = bindE (CDiskBlockIndex env st p) (\<lambda>(h, e). write_entries env st ps (db(h \<mapsto> e)))"

text \<open>The records of the dirty files; the number of the last file only when there are some.\<close>

definition write_infos :: "node_world \<Rightarrow> node_world" where
  "write_infos w =
     (let fs = files w; ns = sorted_list_of_set (setDirtyFileInfo fs)
      in w\<lparr>db_files := foldl (\<lambda>m n. m(n \<mapsto> vinfoBlockFile fs ! n)) (db_files w) ns,
           db_last_file := (if ns = [] then db_last_file w else nLastBlockFile fs),
           files := fs\<lparr>setDirtyFileInfo := {}\<rparr>\<rparr>)"

type_synonym node_result = "fault + (bool \<times> CValidationState) \<times> node_state"

definition write_index :: "node_env \<Rightarrow> CValidationState \<Rightarrow> node_state \<Rightarrow> node_result" where
  "write_index env st s =
     (let fs = FlushBlockFile (disk env) False (files (world s));
          s = upd_world (\<lambda>w. w\<lparr>files := fs\<rparr>) s;
          failed_write = Inr ((False, state_Error st ''Failed to write to block index''), s)
      in if setDirtyFileInfo fs \<noteq> {} \<and> \<not> ne_tree_ok env then failed_write
         else let s = upd_world write_infos s
              in bindE (write_entries env (nodes s) (sorted_list_of_set (setDirtyBlockIndex (idx s))) (db_index (world s))) (\<lambda>db.
                   if setDirtyBlockIndex (idx s) \<noteq> {} \<and> \<not> ne_tree_ok env then failed_write
                   else Inr ((True, st), (upd_world (\<lambda>w. w\<lparr>db_index := db\<rparr>) s)
                          \<lparr>idx := (idx s)\<lparr>setDirtyBlockIndex := {}\<rparr>\<rparr>)))"

definition write_coins :: "node_env \<Rightarrow> CValidationState \<Rightarrow> node_state \<Rightarrow> node_result" where
  "write_coins env st s =
     (if \<not> ne_coins_ok env then Inr ((False, state_Error st ''System error while flushing: Database I/O error''), s)
      else case Flush db_view (pcoinsTip (world s)) of
             None \<Rightarrow> Inl AssertFalse
           | Some (tip, False) \<Rightarrow> Inr ((False, state_Error st ''Failed to write to coin database''), upd_world (\<lambda>w. w\<lparr>pcoinsTip := tip\<rparr>) s)
           | Some (tip, True) \<Rightarrow> Inr ((True, st), upd_world (\<lambda>w. w\<lparr>pcoinsTip := tip, nLastWrite := ne_GetTimeMicros env\<rparr>) s))"

definition FlushStateToDisk :: "node_env \<Rightarrow> CValidationState \<Rightarrow> flush_mode \<Rightarrow> node_state \<Rightarrow> node_result" where
  "FlushStateToDisk env st mode s =
     (if \<not> flush_needed env mode (world s) then Inr ((True, st), s)
      else if \<not> de_space (disk env) (ucast (100 * 2 * 2 * of_nat (length (cacheCoins (pcoinsTip (world s)))) :: u32))
      then Inr ((False, state_Error st ''out of disk space''), s)
      else bindE (write_index env st s) (\<lambda>((ok, st), s).
             if \<not> ok then Inr ((False, st), s) else write_coins env st s))"

section \<open>The tip\<close>

definition CURRENT_VERSION :: int where "CURRENT_VERSION = 4"

text \<open>The log line reads the new tip. The warning is raised once.\<close>

definition after_tip :: "node_env \<Rightarrow> node_state \<Rightarrow> fault + node_state" where
  "after_tip env s =
     bindE (deref s (chain_tip (chainActive s))) (\<lambda>t. bindE (deref_hash t) (\<lambda>h.
     bindE (IsInitialBlockDownload (ne_chain env) s) (\<lambda>(ibd, s).
       let walk = (case chain_tip (chainActive s) of None \<Rightarrow> [] | Some p \<Rightarrow> take 100 (pprev_list (nodes s) p));
           nUpgraded = length (filter (\<lambda>b. CURRENT_VERSION < nVersion b) walk)
       in Inr (if \<not> ibd \<and> \<not> fWarned (world s) \<and> 100 div 2 < nUpgraded
               then upd_world (\<lambda>w. w\<lparr>fWarned := True\<rparr>) s else s))))"

definition UpdateTip :: "node_env \<Rightarrow> ptr option \<Rightarrow> node_state \<Rightarrow> node_state outcome" where
  "UpdateTip env pindexNew s =
     bindP (SetTip (nodes s) (chainActive s) pindexNew) (\<lambda>v.
       Some (after_tip env (upd_world (\<lambda>w. w\<lparr>mempool := AddTransactionsUpdated (mempool w) 1\<rparr>) (s\<lparr>chainActive := v\<rparr>))))"

section \<open>Disconnecting the tip\<close>

definition read_undo :: "node_env \<Rightarrow> node_state \<Rightarrow> CBlockNode \<Rightarrow> fault + CTxInUndo list list option" where
  "read_undo env s b =
     (if CDiskBlockPos_IsNull (GetUndoPos (blk b)) then Inr None
      else bindE (deref s (pprev b)) (\<lambda>q. bindE (deref_hash q) (CBlockUndo_ReadFromDisk (disk env) (files (world s)) (GetUndoPos (blk b)))))"

text \<open>Taking back the coins: the block, or the state of the failure.\<close>

definition disconnect_coins :: "node_env \<Rightarrow> CValidationState \<Rightarrow> CBlockNode \<Rightarrow> node_state
    \<Rightarrow> fault + (CValidationState + CValidationState \<times> CBlock) \<times> node_state" where
  "disconnect_coins env st b s =
     bindE (check_pool env (blk b) s) (\<lambda>s.
     bindE (ReadBlockFromDisk (disk env) (files (world s)) (blk b)) (\<lambda>r.
       case r of
         None \<Rightarrow> Inr (Inl (state_Error st ''Failed to read block''), s)
       | Some block \<Rightarrow>
           bindE (read_undo env s b) (\<lambda>undo.
           bindE (DisconnectBlock tip_ops block (blk b) (parents s b) (\<lambda>pos h. undo) (new_cache (pcoinsTip (world s)))) (\<lambda>r.
             case r of
               None \<Rightarrow> Inr (Inl st, s)
             | Some (fClean, view) \<Rightarrow>
                 if \<not> DisconnectBlock_ok False fClean then Inr (Inl st, s)
                 else bindE (flush_view view s) (\<lambda>s.
                      bindE (FlushStateToDisk env st FLUSH_STATE_ALWAYS s) (\<lambda>((ok, st), s).
                        Inr (if ok then Inr (st, block) else Inl st, s)))))))"

text \<open>The transactions of the block go back to the pool; errors are ignored.\<close>

definition readmit :: "node_env \<Rightarrow> CBlockIndex \<Rightarrow> CTransaction \<Rightarrow> node_state \<Rightarrow> fault + bool \<times> node_state" where
  "readmit env b tx s =
     (if IsCoinBase tx \<or> IsCoinStake tx then Inr (False, s)
      else let w = world s
           in bindE (AcceptToMemoryPool (accept_env_at env s b) tip_ops tx False False False
                \<lparr>as_state = state_valid, as_missing = False, as_pool = mempool w, as_tip = pcoinsTip w, as_limiter = limiter w\<rparr>)
                (\<lambda>(ok, a). Inr (ok, upd_world (\<lambda>w. w\<lparr>mempool := as_pool a, pcoinsTip := as_tip a, limiter := as_limiter a\<rparr>) s)))"

fun resurrect :: "node_env \<Rightarrow> CBlockIndex \<Rightarrow> CTransaction list \<Rightarrow> node_state \<Rightarrow> fault + node_state" where
  "resurrect env b [] s = Inr s"
| "resurrect env b (tx # txs) s =
     bindE (readmit env b tx s) (\<lambda>(ok, s).
     bindE (if ok then Inr s
            else bindE (pool_remove (mempool (world s)) tx [] True) (\<lambda>(pool, removed). Inr (upd_world (\<lambda>w. w\<lparr>mempool := pool\<rparr>) s)))
       (resurrect env b txs))"

definition drop_immature :: "node_env \<Rightarrow> CBlockIndex \<Rightarrow> node_state \<Rightarrow> fault + node_state" where
  "drop_immature env b s =
     bindE (removeCoinbaseSpends (ne_params env) (mempool (world s)) db_view (pcoinsTip (world s)) (word_of_int (nHeight b)))
       (\<lambda>(pool, tip). Inr (upd_world (\<lambda>w. w\<lparr>mempool := pool, pcoinsTip := tip\<rparr>) s))"

definition DisconnectTip :: "node_env \<Rightarrow> CValidationState \<Rightarrow> node_state \<Rightarrow> node_world tip_result" where
  "DisconnectTip env st s =
     (case chain_tip (chainActive s) of
        None \<Rightarrow> Some (Inl AssertFalse)
      | Some t \<Rightarrow> (case nodes s t of
          None \<Rightarrow> Some (Inl NullRead)
        | Some b \<Rightarrow>
            bindP (Some (disconnect_coins env st b s)) (\<lambda>(r, s). case r of
                Inl st \<Rightarrow> Some (Inr ((False, st), s))
              | Inr (st, block) \<Rightarrow>
                  bindP (Some (resurrect env (blk b) (vtx block) s)) (\<lambda>s.
                  bindP (Some (drop_immature env (blk b) s)) (\<lambda>s.
                  bindP (Some (check_pool env (blk b) s)) (\<lambda>s.
                  bindP (UpdateTip env (pprev b) s) (\<lambda>s. Some (Inr ((True, st), s)))))))))"

section \<open>Connecting a new tip\<close>

text \<open>
  The undo data and the transaction index of a connected block. The genesis block writes neither, and
  a block connected before keeps its undo data.
\<close>

definition store_undo :: "node_env \<Rightarrow> CBlock \<Rightarrow> CBlockNode \<Rightarrow> tip_cache connected \<Rightarrow> node_state \<Rightarrow> fault + node_state" where
  "store_undo env block b con s =
     (if block_hash env block = ne_HashGenesisBlock env \<or> \<not> CDiskBlockPos_IsNull (GetUndoPos (blk b)) then Inr s
      else bindE (undo_place env (files (world s)) (con_state con) (nFile (blk b)) (con_blockundo con)) (\<lambda>(r, fs).
        case r of
          Inl st \<Rightarrow> Inr s
        | Inr pos \<Rightarrow>
            bindE (deref s (pprev b)) (\<lambda>q. bindE (deref_hash q) (\<lambda>h.
            bindE (CBlockUndo_WriteToDisk (disk env) (con_blockundo con) pos h fs) (\<lambda>r.
              case r of None \<Rightarrow> Inr s | Some (pos, fs) \<Rightarrow> Inr (upd_world (\<lambda>w. w\<lparr>files := fs\<rparr>) s))))))"

definition store_txindex :: "node_env \<Rightarrow> tip_cache connected \<Rightarrow> node_state \<Rightarrow> node_state" where
  "store_txindex env con s =
     (if env_fTxIndex (ae_con (ne_accept env))
      then upd_world (\<lambda>w. w\<lparr>db_txindex := foldl (\<lambda>m (h, pos). m(h \<mapsto> pos)) (db_txindex w) (con_vPos con)\<rparr>) s else s)"

definition store_entry :: "ptr \<Rightarrow> CBlockNode \<Rightarrow> tip_cache connected \<Rightarrow> node_state \<Rightarrow> node_state" where
  "store_entry p b con s =
     s\<lparr>idx := (idx s)\<lparr>entries := (nodes s)(p \<mapsto> b\<lparr>blk := con_pindex con\<rparr>),
        setDirtyBlockIndex := (if con_dirty con then insert p (setDirtyBlockIndex (idx s)) else setDirtyBlockIndex (idx s))\<rparr>\<rparr>"

text \<open>
  \<^verbatim>\<open>ConnectBlock\<close> on the state: \<^verbatim>\<open>CheckBlock\<close>, which may fetch coins and
  remember a rejected block, then the rest.
\<close>

definition connect_block :: "node_env \<Rightarrow> CBlock \<Rightarrow> CValidationState \<Rightarrow> ptr \<Rightarrow> CBlockNode \<Rightarrow> bool \<Rightarrow> node_state
    \<Rightarrow> fault + (CValidationState + tip_cache connected) \<times> node_state" where
  "connect_block env block st p b fAlreadyChecked s =
     bindE (if fAlreadyChecked then Inr (Inr st, s) else CheckBlock env block st True True s) (\<lambda>(r, s).
       case r of
         Inl st \<Rightarrow> Inr (Inl st, s)
       | Inr st \<Rightarrow>
           bindE (ConnectBlock (connect_env_at env s (blk b)) tip_ops block st (blk b) (parents s b)
                    (new_cache (pcoinsTip (world s))) False True) (\<lambda>r.
             case r of
               Inl st \<Rightarrow> Inr (Inl st, s)
             | Inr con \<Rightarrow> bindE (store_undo env block b con s) (\<lambda>s.
                 Inr (Inr con, store_entry p b con (store_txindex env con s)))))"

definition block_to_connect :: "node_env \<Rightarrow> CBlockNode \<Rightarrow> CBlock option \<Rightarrow> node_state \<Rightarrow> fault + CBlock option" where
  "block_to_connect env b pblock s =
     (case pblock of Some block \<Rightarrow> Inr (Some block) | None \<Rightarrow> ReadBlockFromDisk (disk env) (files (world s)) (blk b))"

text \<open>After a block is connected: the coins, the flush to disk, the pool.\<close>

definition flush_mode_for :: "node_state \<Rightarrow> CBlockNode \<Rightarrow> fault + flush_mode" where
  "flush_mode_for s b =
     (if pprev b = None then Inr FLUSH_STATE_IF_NEEDED
      else bindE (deref s (pprev b)) (\<lambda>q.
        Inr (if pos_nFile (GetBlockPos (blk b)) \<noteq> pos_nFile (GetBlockPos q) then FLUSH_STATE_ALWAYS else FLUSH_STATE_IF_NEEDED)))"

definition after_connect :: "node_env \<Rightarrow> CBlock \<Rightarrow> ptr \<Rightarrow> CBlockNode \<Rightarrow> base_uint \<Rightarrow> tip_cache connected \<Rightarrow> node_state
    \<Rightarrow> node_world tip_result" where
  "after_connect env block p b hash con s =
     bindP (Some (flush_view (con_view con) (s\<lparr>mapBlockSource := (mapBlockSource s)(hash := None)\<rparr>))) (\<lambda>s.
     bindP (Some (flush_mode_for s b)) (\<lambda>mode.
     bindP (Some (FlushStateToDisk env (con_state con) mode s)) (\<lambda>((ok, st), s).
       if \<not> ok then Some (Inr ((False, st), s))
       else bindP (Some (removeForBlock (mempool (world s)) (vtx block) [])) (\<lambda>(pool, txConflicted).
            bindP (Some (check_pool env (blk b) (upd_world (\<lambda>w. w\<lparr>mempool := pool\<rparr>) s))) (\<lambda>s.
            bindP (UpdateTip env (Some p) s) (\<lambda>s. Some (Inr ((True, st), s))))))))"

definition ConnectTip :: "node_env \<Rightarrow> CValidationState \<Rightarrow> ptr \<Rightarrow> CBlock option \<Rightarrow> bool \<Rightarrow> node_state \<Rightarrow> node_world tip_result" where
  "ConnectTip env st p pblock fAlreadyChecked s =
     (case nodes s p of
        None \<Rightarrow> Some (Inl NullRead)
      | Some b \<Rightarrow>
          if pprev b \<noteq> chain_tip (chainActive s) then Some (Inl AssertFalse)
          else bindP (Some (check_pool env (blk b) s)) (\<lambda>s.
               bindP (Some (block_to_connect env b pblock s)) (\<lambda>r. case r of
                   None \<Rightarrow> Some (Inr ((False, state_Error st ''Failed to read block''), s))
                 | Some block \<Rightarrow>
                     bindP (Some (deref_hash (blk b))) (\<lambda>hash.
                     bindP (Some (connect_block env block st p b (pblock \<noteq> None \<and> fAlreadyChecked) s)) (\<lambda>(r, s). case r of
                         Inl st \<Rightarrow>
                           bindP (Some (if vs_mode st = MODE_INVALID then InvalidBlockFound (ne_chain env) p st s else Inr s)) (\<lambda>s.
                             Some (Inr ((False, st), s)))
                       | Inr con \<Rightarrow> after_connect env block p b hash con s)))))"

definition FlushPeriodic :: "node_env \<Rightarrow> CValidationState \<Rightarrow> node_state \<Rightarrow> node_world tip_result" where
  "FlushPeriodic env st s = Some (FlushStateToDisk env st FLUSH_STATE_PERIODIC s)"

definition node_tip_ops :: "node_env \<Rightarrow> node_world tip_ops" where
  "node_tip_ops env = \<lparr>op_DisconnectTip = DisconnectTip env, op_ConnectTip = ConnectTip env, op_FlushPeriodic = FlushPeriodic env\<rparr>"

text \<open>\<^verbatim>\<open>DisconnectBlocksAndReprocess\<close>: one block more than asked for; failures are ignored.\<close>

fun disconnect_times :: "node_env \<Rightarrow> CValidationState \<Rightarrow> nat \<Rightarrow> node_state \<Rightarrow> node_state outcome" where
  "disconnect_times env st 0 s = Some (Inr s)"
| "disconnect_times env st (Suc n) s = bindP (DisconnectTip env st s) (\<lambda>((ok, st), s). disconnect_times env st n s)"

definition DisconnectBlocksAndReprocess :: "node_env \<Rightarrow> int \<Rightarrow> node_state \<Rightarrow> node_state outcome" where
  "DisconnectBlocksAndReprocess env blocks s = disconnect_times env state_valid (nat (blocks + 1)) s"

section \<open>What validation changes of an entry\<close>

definition validated :: "CBlockIndex \<Rightarrow> CBlockIndex \<Rightarrow> bool" where
  "validated b c \<longleftrightarrow> nHeight c = nHeight b \<and> phashBlock c = phashBlock b \<and> nChainWork c = nChainWork b
     \<and> nSequenceId c = nSequenceId b \<and> nChainTx c = nChainTx b \<and> nBits c = nBits b \<and> nFlags c = nFlags b
     \<and> (has_failed c \<longleftrightarrow> has_failed b)"

lemma validated_refl [simp]: "validated b b"
  by (simp add: validated_def)

lemma validated_trans: "validated a b \<Longrightarrow> validated b c \<Longrightarrow> validated a c"
  by (simp add: validated_def)

lemma validated_amounts: "validated b (b\<lparr>nMoneySupply := m, nMint := n\<rparr>)"
  by (simp add: validated_def has_failed_def)

lemma bit_HAVE_UNDO: "bit BLOCK_HAVE_UNDO n \<longleftrightarrow> n = 4"
proof -
  have e: "BLOCK_HAVE_UNDO = push_bit 4 1" by (simp add: BLOCK_HAVE_UNDO_def)
  show ?thesis unfolding e by (rule bit_push_one, simp)
qed

lemma validated_undo: "validated b (b\<lparr>nUndoPos := u, nStatus := nStatus b OR BLOCK_HAVE_UNDO\<rparr>)"
  by (simp add: validated_def has_failed_bits bit_or_iff bit_HAVE_UNDO)

lemma validated_RaiseValidity:
  assumes "RaiseValidity b BLOCK_VALID_SCRIPTS = Some (c, r)"
  shows "validated b c"
proof -
  have "bit (x AND NOT BLOCK_VALID_MASK OR BLOCK_VALID_SCRIPTS) 5 \<longleftrightarrow> bit x 5"
      "bit (x AND NOT BLOCK_VALID_MASK OR BLOCK_VALID_SCRIPTS) 6 \<longleftrightarrow> bit x 6" for x :: u32
    by (simp_all add: bit_simps BLOCK_VALID_MASK_def BLOCK_VALID_SCRIPTS_def)
  then show ?thesis using assms by (auto simp: RaiseValidity_def validated_def has_failed_bits split: if_splits)
qed

lemma write_undo_validated:
  assumes "write_undo env pindex prev undo st = Inr (Inr (pindex', dirty))"
  shows "validated pindex pindex'"
proof -
  obtain valid where v: "IsValid pindex BLOCK_VALID_SCRIPTS = Some valid" using assms by (auto simp: write_undo_def split: option.splits)
  show ?thesis
  proof (cases "CDiskBlockPos_IsNull (GetUndoPos pindex) \<or> \<not> valid")
    case False
    with assms v show ?thesis by (auto simp: write_undo_def)
  next
    case True
    then obtain p r where p: "RaiseValidity p BLOCK_VALID_SCRIPTS = Some (pindex', r)"
      "p = pindex \<or> (\<exists>pos. p = pindex\<lparr>nUndoPos := pos, nStatus := nStatus pindex OR BLOCK_HAVE_UNDO\<rparr>)"
      using assms v by (auto simp: write_undo_def bindE_check split: option.splits sum.splits list.splits if_splits)
    have "validated pindex p" using p(2) validated_undo by auto
    then show ?thesis using validated_trans validated_RaiseValidity [OF p(1)] by blast
  qed
qed

lemma connect_finish_validated:
  assumes "connect_finish env block pindex prev fJustCheck cv = Inr (Inr con)"
  shows "validated pindex (con_pindex con)"
  using assms unfolding connect_finish_def Let_def
  by (auto simp: bindE_check validated_amounts split: list.splits if_splits option.splits
      dest!: write_undo_validated intro: validated_trans [OF validated_amounts])

lemma ConnectBlock_validated:
  assumes "ConnectBlock env base block st pindex prev view fJustCheck fAlreadyChecked = Inr (Inr con)"
  shows "validated pindex (con_pindex con)"
proof -
  have "con_pindex con = pindex \<or> (\<exists>cv. connect_finish env block pindex prev fJustCheck cv = Inr (Inr con))"
    using assms unfolding ConnectBlock_def bindE_check
    by (elim exE conjE) (auto simp: bindE_check Let_def split: option.splits prod.splits if_splits)
  then show ?thesis using connect_finish_validated by (elim disjE exE) simp_all
qed

section \<open>Steps aside of the tree\<close>

text \<open>The entries, the map of their hashes, the active chain, the candidates and the marker stay.\<close>

definition aside :: "'w chain_state \<Rightarrow> 'w chain_state \<Rightarrow> bool" where
  "aside s s' \<longleftrightarrow> nodes s' = nodes s \<and> mapBlockIndex (idx s') = mapBlockIndex (idx s) \<and> chainActive s' = chainActive s
     \<and> setBlockIndexCandidates s' = setBlockIndexCandidates s \<and> pindexBestInvalid s' = pindexBestInvalid s"

lemma aside_refl [simp]: "aside s s"
  by (simp add: aside_def)

lemma aside_trans [trans]: "aside a b \<Longrightarrow> aside b c \<Longrightarrow> aside a c"
  by (simp add: aside_def)

lemma aside_world [simp]: "aside s (upd_world f s)" "aside s (s\<lparr>world := w\<rparr>)" "aside s (s\<lparr>mapBlockSource := m\<rparr>)"
    "aside s (s\<lparr>idx := (idx s)\<lparr>setDirtyBlockIndex := d\<rparr>\<rparr>)"
  by (simp_all add: aside_def upd_world_def)

lemma aside_chain_inv: "aside s s' \<Longrightarrow> chain_inv s \<Longrightarrow> chain_inv s'"
  by (simp add: aside_def chain_inv_def tree_ok_def marker_ok_def)

lemma aside_tip: "aside s s' \<Longrightarrow> chain_inv s \<Longrightarrow> tip_step s s'"
  using aside_chain_inv by (auto simp: aside_def tip_step_def)

lemma IsInitialBlockDownload_aside: "IsInitialBlockDownload env s = Inr (r, s') \<Longrightarrow> aside s s'"
  using IsInitialBlockDownload_frame [of env s r s'] by (auto simp: aside_def)

lemma bindE_E: "bindE m f = Inr y \<Longrightarrow> (\<And>x. m = Inr x \<Longrightarrow> f x = Inr y \<Longrightarrow> P) \<Longrightarrow> P"
  by (auto simp: bindE_Inr)

text \<open>The steps of \<^verbatim>\<open>CheckBlock\<close>.\<close>

lemma GetTransaction_aside:
  assumes "GetTransaction env hash hash0 slow s = Inr (r, s')"
  shows "aside s s'"
  using assms unfolding GetTransaction_def
  by (auto simp: Let_def elim!: bindE_E split: option.splits prod.splits if_splits)

lemma check_stake_age_aside:
  assumes "check_stake_age env block st s = Inr (r, s')"
  shows "aside s s'"
proof -
  obtain r1 where "GetTransaction env (op_hash (prevout (vin (vtx block ! 1) ! 0))) (uint256_of_u64 0) True s = Inr (r1, s')"
    using assms unfolding check_stake_age_def Let_def bindE_Inr
    by (elim exE conjE) (auto simp: bindE_Inr split: option.splits prod.splits if_splits)
  then show ?thesis by (rule GetTransaction_aside)
qed

lemma reject_block_aside [simp]: "aside s (reject_block env block s)"
  by (simp add: reject_block_def)

lemma check_locks_aside: "check_locks env block st s = Inr (r, s') \<Longrightarrow> aside s s'"
  by (auto simp: check_locks_def split: if_splits)

lemma check_payee_aside:
  assumes "check_payee env block st s = Inr (r, s')"
  shows "aside s s'"
  using assms unfolding check_payee_def
  by (auto elim!: bindE_E split: option.splits prod.splits if_splits dest!: IsInitialBlockDownload_aside
      intro: aside_trans [OF _ reject_block_aside])

lemma and_then_aside:
  assumes "and_then m f = Inr (r, s')" and "\<And>r1 s1. m = Inr (r1, s1) \<Longrightarrow> aside s s1"
    and "\<And>st s1. m = Inr (Inr st, s1) \<Longrightarrow> f st s1 = Inr (r, s') \<Longrightarrow> aside s1 s'"
  shows "aside s s'"
proof -
  obtain r1 s1 where m: "m = Inr (r1, s1)" "(case r1 of Inl st \<Rightarrow> Inr (Inl st, s1) | Inr st \<Rightarrow> f st s1) = Inr (r, s')"
    using assms(1) by (auto simp: and_then_def bindE_Inr)
  show ?thesis
  proof (cases r1)
    case (Inl a)
    then show ?thesis using m assms(2) by auto
  next
    case (Inr st)
    then show ?thesis using m assms(2,3) aside_trans by force
  qed
qed

lemma CheckBlock_aside:
  assumes "CheckBlock env block st pow merkle s = Inr (r, s')"
  shows "aside s s'"
  using assms unfolding CheckBlock_def
proof (rule and_then_aside)
  fix st1 s1
  assume "and_then (if CBlock_IsProofOfStake block then check_stake_age env block st1 s1 else Inr (Inr st1, s1)) (\<lambda>st s.
     and_then (check_locks env block st s) (\<lambda>st s.
     and_then (check_payee env block st s) (\<lambda>st s. Inr (check_txs env block st, s)))) = Inr (r, s')"
  then show "aside s1 s'"
  proof (rule and_then_aside)
    fix st2 s2
    assume "and_then (check_locks env block st2 s2) (\<lambda>st s.
       and_then (check_payee env block st s) (\<lambda>st s. Inr (check_txs env block st, s))) = Inr (r, s')"
    then show "aside s2 s'"
    proof (rule and_then_aside)
      fix st3 s3
      assume "and_then (check_payee env block st3 s3) (\<lambda>st s. Inr (check_txs env block st, s)) = Inr (r, s')"
      then show "aside s3 s'" by (rule and_then_aside) (simp_all add: check_payee_aside)
    qed (rule check_locks_aside)
  qed (auto split: if_splits intro: check_stake_age_aside)
qed simp

text \<open>The steps of connecting and disconnecting.\<close>

lemma check_pool_aside: "check_pool env b s = Inr s' \<Longrightarrow> aside s s'"
  unfolding check_pool_def by (auto elim!: bindE_E)

lemma flush_view_aside: "flush_view view s = Inr s' \<Longrightarrow> aside s s'"
  unfolding flush_view_def by (auto split: option.splits prod.splits bool.splits)

lemma write_index_aside:
  assumes "write_index env st s = Inr ((ok, st'), s')"
  shows "aside s s' \<and> (\<not> ok \<longrightarrow> vs_mode st' = MODE_ERROR)"
  using assms unfolding write_index_def Let_def
  by (auto elim!: bindE_E split: if_splits simp: state_Error_def aside_def upd_world_def)

lemma write_coins_aside:
  assumes "write_coins env st s = Inr ((ok, st'), s')"
  shows "aside s s' \<and> (\<not> ok \<longrightarrow> vs_mode st' = MODE_ERROR)"
  using assms unfolding write_coins_def by (auto split: if_splits option.splits prod.splits bool.splits simp: state_Error_def)

lemma FlushStateToDisk_aside:
  assumes "FlushStateToDisk env st mode s = Inr ((ok, st'), s')"
  shows "aside s s' \<and> (\<not> ok \<longrightarrow> vs_mode st' = MODE_ERROR)"
proof -
  consider "s' = s" "ok" | "s' = s" "vs_mode st' = MODE_ERROR"
    | ok1 st1 s1 where "write_index env st s = Inr ((ok1, st1), s1)"
        "(if \<not> ok1 then Inr ((False, st1), s1) else write_coins env st1 s1) = Inr ((ok, st'), s')"
    using assms unfolding FlushStateToDisk_def by (auto elim!: bindE_E split: if_splits simp: state_Error_def Let_def)
  then show ?thesis
  proof cases
    case 3
    have a: "aside s s1 \<and> (\<not> ok1 \<longrightarrow> vs_mode st1 = MODE_ERROR)" by (rule write_index_aside [OF 3(1)])
    show ?thesis
    proof (cases ok1)
      case True
      then have "aside s1 s' \<and> (\<not> ok \<longrightarrow> vs_mode st' = MODE_ERROR)" using 3(2) write_coins_aside [of env st1 s1] by simp
      then show ?thesis using a aside_trans by blast
    qed (use a 3(2) in auto)
  qed simp_all
qed

lemma readmit_aside: "readmit env b tx s = Inr (ok, s') \<Longrightarrow> aside s s'"
  unfolding readmit_def by (auto elim!: bindE_E split: if_splits simp: Let_def)

lemma resurrect_aside: "resurrect env b txs s = Inr s' \<Longrightarrow> aside s s'"
proof (induction txs arbitrary: s)
  case (Cons tx txs)
  show ?case using Cons.prems
    by (auto elim!: bindE_E split: if_splits dest!: readmit_aside Cons.IH) (meson aside_trans aside_world(1))+
qed simp

lemma drop_immature_aside: "drop_immature env b s = Inr s' \<Longrightarrow> aside s s'"
  unfolding drop_immature_def by (auto elim!: bindE_E)

lemma disconnect_coins_aside:
  assumes "disconnect_coins env st b s = Inr (r, s')"
  shows "aside s s'"
  using assms unfolding disconnect_coins_def
  by (auto elim!: bindE_E split: option.splits prod.splits if_splits dest!: check_pool_aside flush_view_aside FlushStateToDisk_aside)
    (meson aside_trans)+

lemma after_tip_aside: "after_tip env s = Inr s' \<Longrightarrow> aside s s'"
  unfolding after_tip_def
  by (auto elim!: bindE_E simp: Let_def split: if_splits dest!: IsInitialBlockDownload_aside intro: aside_trans)

lemma store_undo_aside: "store_undo env block b con s = Inr s' \<Longrightarrow> aside s s'"
  unfolding store_undo_def by (auto elim!: bindE_E split: if_splits sum.splits option.splits)

lemma store_txindex_aside [simp]: "aside s (store_txindex env con s)"
  by (simp add: store_txindex_def)

text \<open>A connected block: its entry is replaced by the validated one.\<close>

definition entry_step :: "ptr \<Rightarrow> CBlockNode \<Rightarrow> CBlockIndex \<Rightarrow> node_state \<Rightarrow> node_state \<Rightarrow> bool" where
  "entry_step p b c s s' \<longleftrightarrow> nodes s' = (nodes s)(p \<mapsto> b\<lparr>blk := c\<rparr>) \<and> mapBlockIndex (idx s') = mapBlockIndex (idx s)
     \<and> chainActive s' = chainActive s \<and> setBlockIndexCandidates s' = setBlockIndexCandidates s
     \<and> pindexBestInvalid s' = pindexBestInvalid s"

lemma aside_entry_step: "aside s a \<Longrightarrow> entry_step p b c a s' \<Longrightarrow> entry_step p b c s s'"
  by (simp add: aside_def entry_step_def)

lemma store_entry_step: "entry_step p b (con_pindex con) s (store_entry p b con s)"
  by (simp add: store_entry_def entry_step_def)

lemma connect_block_aside:
  assumes "connect_block env block st p b checked s = Inr (Inl st', s')"
  shows "aside s s'"
  using assms unfolding connect_block_def
  by (auto elim!: bindE_E split: sum.splits if_splits dest!: CheckBlock_aside)

lemma connect_block_step:
  assumes "connect_block env block st p b checked s = Inr (Inr con, s')"
  shows "entry_step p b (con_pindex con) s s' \<and> validated (blk b) (con_pindex con)"
proof -
  obtain r1 s1 s2 st1 where s: "(if checked then Inr (Inr st, s) else CheckBlock env block st True True s) = Inr (r1, s1)"
      "ConnectBlock (connect_env_at env s1 (blk b)) tip_ops block st1 (blk b) (parents s1 b)
                    (new_cache (pcoinsTip (world s1))) False True = Inr (Inr con)"
      "store_undo env block b con s1 = Inr s2" "s' = store_entry p b con (store_txindex env con s2)"
    using assms unfolding connect_block_def by (auto elim!: bindE_E split: sum.splits)
  have "aside s s1" using s(1) CheckBlock_aside [of env block st True True s r1 s1] by (auto split: if_splits)
  then have "aside s (store_txindex env con s2)" using aside_trans store_undo_aside [OF s(3)] store_txindex_aside by blast
  then show ?thesis using aside_entry_step [OF _ store_entry_step] s(4) ConnectBlock_validated [OF s(2)] by simp
qed

text \<open>The state of the validation of a block without faults stays inside of the tree.\<close>

lemma entry_step_tip:
  assumes "chain_inv s" and "nodes s p = Some b" and "entry_step p b c s s'" and "validated (blk b) c"
  shows "tip_step s s' \<and> chainActive s' = chainActive s"
proof -
  have sb: "same_block b (b\<lparr>blk := c\<rparr>)" using assms(4) by (simp add: same_block_def validated_def)
  have st: "same_tree (nodes s) (nodes s')" using assms(2,3) same_tree_upd [OF _ sb] by (simp add: entry_step_def)
  have "tree_ok s'"
    by (rule tree_ok_same [where P = "\<lambda>q. True"]) (use assms(1,3) st in \<open>auto simp: chain_inv_def entry_step_def tree_ok_def\<close>)
  moreover have "marker_ok s'" using assms(1-3) by (auto simp: chain_inv_def marker_ok_def entry_step_def)
  moreover have "failed (nodes s') q \<longleftrightarrow> failed (nodes s) q" for q
    using assms(2-4) by (auto simp: failed_def entry_step_def validated_def)
  ultimately show ?thesis using st assms(3) by (simp add: tip_step_def chain_inv_def entry_step_def)
qed

section \<open>Moving the tip in the tree\<close>

lemma path_snoc:
  assumes "wf_store st" and "st p = Some b"
  shows "path st p (hgt b) = (case pprev b of None \<Rightarrow> [] | Some q \<Rightarrow> path st q (hgt (the (st q)))) @ [Some p]"
proof (cases "hgt b = 0")
  case True
  then show ?thesis using wf_root [OF assms True] by (simp add: path_def)
next
  case False
  then obtain q c where q: "pprev b = Some q" "st q = Some c" "hgt b = Suc (hgt c)" using wf_parent [OF assms] by blast
  have "path st q (hgt c) @ [Some p] = path st p (hgt b)"
  proof (rule path_eqI)
    show "length (path st q (hgt c) @ [Some p]) = Suc (hgt b)" using q(3) by simp
    fix i assume i: "i \<le> hgt b"
    show "(path st q (hgt c) @ [Some p]) ! i = up st (hgt b - i) p"
    proof (cases "i = hgt b")
      case True
      then show ?thesis using q(3) by (simp add: nth_append)
    next
      case False
      then have "i \<le> hgt c" "hgt b - i = Suc (hgt c - i)" using i q(3) by simp_all
      then show ?thesis using assms(2) q(1) by (simp add: nth_append)
    qed
  qed
  then show ?thesis using q by simp
qed

lemma chain_path:
  assumes "chain_inv s"
  shows "chainActive s = (case chain_tip (chainActive s) of None \<Rightarrow> [] | Some t \<Rightarrow> path (nodes s) t (hgt (the (nodes s t))))"
proof (cases "chainActive s = []")
  case False
  moreover have "chain_ok (nodes s) (chainActive s)" using assms by (simp add: chain_inv_def tree_ok_def)
  ultimately obtain t b where t: "nodes s t = Some b" "chainActive s = path (nodes s) t (hgt b)" by (auto simp: chain_ok_def)
  then have "chain_tip (chainActive s) = Some t" by (simp add: chain_tip_def)
  then show ?thesis using t by simp
qed (simp add: chain_tip_def)

lemma chain_inv_tree: "chain_inv s \<Longrightarrow> wf_store (nodes s) \<and> chain_ok (nodes s) (chainActive s)"
  by (simp add: chain_inv_def tree_ok_def)

lemma chain_moved:
  assumes "chain_inv s" and "chain_ok (nodes s) v"
  shows "tip_step s (s\<lparr>chainActive := v\<rparr>)"
  using assms by (simp add: tip_step_def chain_inv_def tree_ok_def marker_ok_def)

lemma UpdateTip_returns:
  assumes "chain_inv s" and "\<And>q. pindexNew = Some q \<Longrightarrow> q \<in> dom (nodes s)"
  shows "\<exists>r. UpdateTip env pindexNew s = Some r"
proof (cases pindexNew)
  case None
  then show ?thesis by (simp add: UpdateTip_def SetTip_def)
next
  case (Some p)
  then obtain b where "nodes s p = Some b" using assms(2) by blast
  then have "SetTip (nodes s) (chainActive s) (Some p) = Some (Inr (path (nodes s) p (hgt b)))"
    using SetTip_path_lemma chain_inv_tree [OF assms(1)] by blast
  then show ?thesis using Some by (simp add: UpdateTip_def)
qed

lemma UpdateTip_step:
  assumes "UpdateTip env pindexNew s = Some (Inr s')" and "chain_inv s" and "\<And>q. pindexNew = Some q \<Longrightarrow> q \<in> dom (nodes s)"
  shows "tip_step s s' \<and> chainActive s' = (case pindexNew of None \<Rightarrow> [] | Some p \<Rightarrow> path (nodes s) p (hgt (the (nodes s p))))"
proof -
  let ?v = "case pindexNew of None \<Rightarrow> [] | Some p \<Rightarrow> path (nodes s) p (hgt (the (nodes s p)))"
  let ?s1 = "upd_world (\<lambda>w. w\<lparr>mempool := AddTransactionsUpdated (mempool w) 1\<rparr>) (s\<lparr>chainActive := ?v\<rparr>)"
  have w: "wf_store (nodes s)" "chain_ok (nodes s) (chainActive s)" using chain_inv_tree [OF assms(2)] by blast+
  have v: "SetTip (nodes s) (chainActive s) pindexNew = Some (Inr ?v) \<and> chain_ok (nodes s) ?v"
  proof (cases pindexNew)
    case (Some p)
    then obtain b where b: "nodes s p = Some b" using assms(3) by blast
    then show ?thesis using Some SetTip_path_lemma [OF w b] by (auto simp: chain_ok_def)
  qed (simp add: SetTip_def chain_ok_def)
  then have "after_tip env ?s1 = Inr s'" using assms(1) by (simp add: UpdateTip_def)
  then have "aside (s\<lparr>chainActive := ?v\<rparr>) s'" using aside_trans [OF aside_world(1)] after_tip_aside by blast
  moreover have m: "tip_step s (s\<lparr>chainActive := ?v\<rparr>)" using chain_moved [OF assms(2)] v by blast
  ultimately have "tip_step s s'" "chainActive s' = ?v"
    using tip_step_trans [OF m aside_tip [OF _ tip_step_inv [OF m]]] by (simp_all add: aside_def)
  then show ?thesis by blast
qed

lemma parent_dom:
  assumes "chain_inv s" and "nodes s p = Some b" and "pprev b = Some q"
  shows "q \<in> dom (nodes s)"
  using wf_storeD [of "nodes s" p b] chain_inv_tree [OF assms(1)] assms(2,3) by (auto simp: wf_node_def)

lemma UpdateTip_append:
  assumes "UpdateTip env (Some p) s = Some (Inr s')" and "chain_inv s" and "nodes s p = Some b" and "pprev b = chain_tip (chainActive s)"
  shows "tip_step s s' \<and> chainActive s' = chainActive s @ [Some p]"
  using UpdateTip_step [OF assms(1,2)] assms(3,4) path_snoc [of "nodes s" p b] chain_path [OF assms(2)] chain_inv_tree [OF assms(2)] by auto

lemma UpdateTip_butlast:
  assumes "UpdateTip env (pprev b) s = Some (Inr s')" and "chain_inv s" and "chain_tip (chainActive s) = Some t" and "nodes s t = Some b"
  shows "tip_step s s' \<and> chainActive s' = butlast (chainActive s)"
proof -
  have "tip_step s s' \<and> chainActive s' = (case pprev b of None \<Rightarrow> [] | Some q \<Rightarrow> path (nodes s) q (hgt (the (nodes s q))))"
    by (rule UpdateTip_step [OF assms(1,2)]) (rule parent_dom [OF assms(2,4)])
  moreover have "chainActive s = path (nodes s) t (hgt b)" using chain_path [OF assms(2)] assms(3,4) by simp
  ultimately show ?thesis using path_snoc [of "nodes s" t b] chain_inv_tree [OF assms(2)] assms(4) by simp
qed

section \<open>The operations on the tip keep the tree\<close>

lemma bindP_NE: "bindP m f = None \<Longrightarrow> (m = None \<Longrightarrow> P) \<Longrightarrow> (\<And>x. m = Some (Inr x) \<Longrightarrow> f x = None \<Longrightarrow> P) \<Longrightarrow> P"
  by (auto simp: bindP_None)

lemma aside_fields: "aside s s' \<Longrightarrow> chainActive s' = chainActive s \<and> nodes s' = nodes s"
  by (simp add: aside_def)

lemma DisconnectTip_step:
  assumes "chain_inv s" and "chain_tip (chainActive s) = Some t" and "DisconnectTip env st s = Some (Inr ((ok, st'), s'))"
  shows "tip_step s s' \<and> chainActive s' = (if ok then butlast (chainActive s) else chainActive s)"
proof -
  obtain b where b: "nodes s t = Some b" using chain_inv_tip [OF assms(1,2)] by blast
  obtain r s1 where s1: "disconnect_coins env st b s = Inr (r, s1)"
    and rest: "(case r of Inl st \<Rightarrow> Some (Inr ((False, st), s1))
              | Inr (st, block) \<Rightarrow>
                  bindP (Some (resurrect env (blk b) (vtx block) s1)) (\<lambda>s.
                  bindP (Some (drop_immature env (blk b) s)) (\<lambda>s.
                  bindP (Some (check_pool env (blk b) s)) (\<lambda>s.
                  bindP (UpdateTip env (pprev b) s) (\<lambda>s. Some (Inr ((True, st), s))))))) = Some (Inr ((ok, st'), s'))"
    using assms(2,3) b unfolding DisconnectTip_def by (auto elim!: bindP_E)
  have a1: "aside s s1" by (rule disconnect_coins_aside [OF s1])
  show ?thesis
  proof (cases r)
    case (Inl x)
    then show ?thesis using rest aside_tip [OF a1 assms(1)] aside_fields [OF a1] by simp
  next
    case (Inr x)
    obtain st2 block where x: "x = (st2, block)" by fastforce
    obtain s2 s3 s4 where s: "resurrect env (blk b) (vtx block) s1 = Inr s2" "drop_immature env (blk b) s2 = Inr s3"
        "check_pool env (blk b) s3 = Inr s4" "UpdateTip env (pprev b) s4 = Some (Inr s')" "ok"
      using rest unfolding Inr x by (auto elim!: bindP_E)
    have a: "aside s s4"
      using a1 resurrect_aside [OF s(1)] drop_immature_aside [OF s(2)] check_pool_aside [OF s(3)] by (meson aside_trans)
    have t4: "chain_tip (chainActive s4) = Some t" "nodes s4 t = Some b" using aside_fields [OF a] assms(2) b by simp_all
    have "tip_step s4 s' \<and> chainActive s' = butlast (chainActive s4)"
      by (rule UpdateTip_butlast [OF s(4) aside_chain_inv [OF a assms(1)] t4])
    then show ?thesis using tip_step_trans [OF aside_tip [OF a assms(1)]] aside_fields [OF a] s(5) by simp
  qed
qed

lemma DisconnectTip_returns:
  assumes "chain_inv s" and "chain_tip (chainActive s) = Some t"
  shows "\<exists>r. DisconnectTip env st s = Some r"
proof -
  obtain b where b: "nodes s t = Some b" using chain_inv_tip [OF assms] by blast
  have u: "\<exists>r. UpdateTip env (pprev b) s4 = Some r" if "aside s s4" for s4
    using UpdateTip_returns [OF aside_chain_inv [OF that assms(1)]] parent_dom [OF assms(1) b] aside_fields [OF that] by simp
  have False if n: "DisconnectTip env st s = None"
  proof -
    obtain st2 block s1 s2 s3 s4 where s: "disconnect_coins env st b s = Inr (Inr (st2, block), s1)"
        "resurrect env (blk b) (vtx block) s1 = Inr s2" "drop_immature env (blk b) s2 = Inr s3"
        "check_pool env (blk b) s3 = Inr s4" "UpdateTip env (pprev b) s4 = None"
      using n assms(2) b unfolding DisconnectTip_def by (auto elim!: bindP_NE split: sum.splits prod.splits)
    have "aside s s4"
      using disconnect_coins_aside [OF s(1)] resurrect_aside [OF s(2)] drop_immature_aside [OF s(3)] check_pool_aside [OF s(4)]
      by (meson aside_trans)
    then show False using u [of s4] s(5) by simp
  qed
  then show ?thesis by blast
qed

lemma punish_source_aside: "aside s (punish_source env hash st s)"
  by (simp add: punish_source_def Misbehaving_def aside_def Let_def split: option.splits)

lemma InvalidBlockFound_step:
  assumes "InvalidBlockFound env p st s = Inr s'" and "chain_inv s" and "p \<in> dom (nodes s)"
  shows "tip_step s s' \<and> chainActive s' = chainActive s \<and> (\<not> corruptionPossible st \<longrightarrow> failed (nodes s') p)"
proof -
  obtain x :: CBlockIndex and s1 where a: "(if vs_mode st = MODE_INVALID
            then (case phashBlock x of None \<Rightarrow> Inl NullRead | Some hash \<Rightarrow> Inr (punish_source env hash st s)) else Inr s) = Inr s1"
    and s2: "(if corruptionPossible st then Inr s1
       else bindE (erase_candidate p (upd_status p (\<lambda>x. x OR BLOCK_FAILED_VALID) True s1)) (InvalidChainFound env p)) = Inr s'"
    using assms(1) unfolding InvalidBlockFound_def bindE_Inr by blast
  have "aside s s1" using a punish_source_aside by (auto split: if_splits option.splits)
  note s1 = this s2
  have t1: "tip_step s s1" "chainActive s1 = chainActive s" using aside_tip [OF s1(1) assms(2)] aside_fields [OF s1(1)] by blast+
  show ?thesis
  proof (cases "corruptionPossible st")
    case True
    then show ?thesis using s1 t1 by simp
  next
    case False
    let ?s2 = "upd_status p (\<lambda>x. x OR BLOCK_FAILED_VALID) True s1"
    have t2: "tip_step s1 ?s2" by (rule upd_status_tip_step [OF tip_step_inv [OF t1(1)] flag_changes(2)])
    have p1: "p \<in> dom (nodes s1)" using assms(3) aside_fields [OF s1(1)] by simp
    then have p2: "p \<in> dom (nodes ?s2)" using tip_step_dom [OF t2] by blast
    obtain s3 where s3: "erase_candidate p ?s2 = Inr s3" "tip_step ?s2 s3" "idx s3 = idx ?s2" "chainActive s3 = chainActive ?s2"
      using erase_candidate_tip_step [OF tip_step_inv [OF t2] p2] by blast
    have "InvalidChainFound env p s3 = Inr s'" using s1(2) False s3(1) by (simp add: bindE_def)
    then have w: "warning_step s3 s'" by (rule InvalidChainFound_frame)
    have t4: "tip_step s3 s' \<and> chainActive s' = chainActive s3" by (rule warning_step_tip [OF w tip_step_inv [OF s3(2)]])
    have "failed (nodes ?s2) p" using set_status_flags(1) [OF flag_changes(2), of p "nodes s1" p] p1 by simp
    then have "failed (nodes s') p" using w s3(3) by (simp add: warning_step_def)
    then show ?thesis using tip_step_trans [OF t1(1) tip_step_trans [OF t2 tip_step_trans [OF s3(2)]]] t4 t1(2) s3(4) by simp
  qed
qed

lemma after_connect_step:
  assumes "after_connect env block p b hash con s = Some (Inr ((ok, st'), s'))" and "chain_inv s" and "nodes s p = Some b2"
    and "pprev b2 = chain_tip (chainActive s)"
  shows "tip_step s s' \<and> chainActive s' = (if ok then chainActive s @ [Some p] else chainActive s) \<and> (\<not> ok \<longrightarrow> vs_mode st' = MODE_ERROR)"
proof -
  obtain s1 mode ok1 st1 s2 where s1: "flush_view (con_view con) (s\<lparr>mapBlockSource := (mapBlockSource s)(hash := None)\<rparr>) = Inr s1"
      "FlushStateToDisk env (con_state con) mode s1 = Inr ((ok1, st1), s2)"
    and rest: "(if \<not> ok1 then Some (Inr ((False, st1), s2))
       else bindP (Some (removeForBlock (mempool (world s2)) (vtx block) [])) (\<lambda>(pool, txConflicted).
            bindP (Some (check_pool env (blk b) (upd_world (\<lambda>w. w\<lparr>mempool := pool\<rparr>) s2))) (\<lambda>s.
            bindP (UpdateTip env (Some p) s) (\<lambda>s. Some (Inr ((True, st1), s)))))) = Some (Inr ((ok, st'), s'))"
    using assms(1) unfolding after_connect_def by (auto elim!: bindP_E)
  have "aside s s1" using aside_trans [OF aside_world(3) flush_view_aside [OF s1(1)]] .
  moreover have f: "aside s1 s2 \<and> (\<not> ok1 \<longrightarrow> vs_mode st1 = MODE_ERROR)" by (rule FlushStateToDisk_aside [OF s1(2)])
  ultimately have a2: "aside s s2" using aside_trans by blast
  show ?thesis
  proof (cases ok1)
    case False
    then show ?thesis using rest f aside_tip [OF a2 assms(2)] aside_fields [OF a2] by simp
  next
    case True
    obtain pool txs s3 where s3: "check_pool env (blk b) (upd_world (\<lambda>w. w\<lparr>mempool := pool\<rparr>) s2) = Inr s3"
        "UpdateTip env (Some p) s3 = Some (Inr s')" "ok"
      using rest True by (auto elim!: bindP_E)
    have a3: "aside s s3" using aside_trans [OF a2 aside_trans [OF aside_world(1) check_pool_aside [OF s3(1)]]] .
    have "tip_step s3 s' \<and> chainActive s' = chainActive s3 @ [Some p]"
      by (rule UpdateTip_append [OF s3(2) aside_chain_inv [OF a3 assms(2)]]) (use aside_fields [OF a3] assms(3,4) in simp_all)
    then show ?thesis using tip_step_trans [OF aside_tip [OF a3 assms(2)]] aside_fields [OF a3] s3(3) by simp
  qed
qed

lemma after_connect_returns:
  assumes "chain_inv s" and "p \<in> dom (nodes s)"
  shows "\<exists>r. after_connect env block p b hash con s = Some r"
proof -
  have False if n: "after_connect env block p b hash con s = None"
  proof -
    obtain s1 mode ok1 st1 s2 pool s3 where s: "flush_view (con_view con) (s\<lparr>mapBlockSource := (mapBlockSource s)(hash := None)\<rparr>) = Inr s1"
      "FlushStateToDisk env (con_state con) mode s1 = Inr ((ok1, st1), s2)"
      "check_pool env (blk b) (upd_world (\<lambda>w. w\<lparr>mempool := pool\<rparr>) s2) = Inr s3" "UpdateTip env (Some p) s3 = None"
      using n unfolding after_connect_def by (auto elim!: bindP_NE split: if_splits)
    have "aside s s2" using aside_trans [OF aside_trans [OF aside_world(3) flush_view_aside [OF s(1)]]] FlushStateToDisk_aside [OF s(2)] by blast
    then have a: "aside s s3" using aside_trans aside_trans [OF aside_world(1) check_pool_aside [OF s(3)]] by blast
    have "\<exists>r. UpdateTip env (Some p) s3 = Some r"
      using UpdateTip_returns [OF aside_chain_inv [OF a assms(1)], of "Some p"] assms(2) aside_fields [OF a] by simp
    then show False using s(4) by simp
  qed
  then show ?thesis by blast
qed

lemma ConnectTip_step:
  assumes "chain_inv s" and "nodes s p = Some b" and "pprev b = chain_tip (chainActive s)"
    and "ConnectTip env st p pblock checked s = Some (Inr ((ok, st'), s'))"
  shows "tip_step s s' \<and> chainActive s' = (if ok then chainActive s @ [Some p] else chainActive s)
    \<and> (\<not> ok \<longrightarrow> vs_mode st' = MODE_INVALID \<longrightarrow> \<not> corruptionPossible st' \<longrightarrow> failed (nodes s') p)"
proof -
  obtain s1 pb where s1: "check_pool env (blk b) s = Inr s1" "block_to_connect env b pblock s1 = Inr pb"
    and rest: "(case pb of
                   None \<Rightarrow> Some (Inr ((False, state_Error st ''Failed to read block''), s1))
                 | Some block \<Rightarrow>
                     bindP (Some (deref_hash (blk b))) (\<lambda>hash.
                     bindP (Some (connect_block env block st p b (pblock \<noteq> None \<and> checked) s1)) (\<lambda>(r, s). case r of
                         Inl st \<Rightarrow>
                           bindP (Some (if vs_mode st = MODE_INVALID then InvalidBlockFound (ne_chain env) p st s else Inr s)) (\<lambda>s.
                             Some (Inr ((False, st), s)))
                       | Inr con \<Rightarrow> after_connect env block p b hash con s))) = Some (Inr ((ok, st'), s'))"
    using assms(2-4) unfolding ConnectTip_def by (auto elim!: bindP_E simp del: not_None_eq)
  have a1: "aside s s1" by (rule check_pool_aside [OF s1(1)])
  have inv1: "chain_inv s1" and t1: "tip_step s s1" using aside_chain_inv [OF a1 assms(1)] aside_tip [OF a1 assms(1)] by blast+
  have f1: "chainActive s1 = chainActive s" "nodes s1 = nodes s" using aside_fields [OF a1] by blast+
  show ?thesis
  proof (cases pb)
    case None
    then show ?thesis using rest t1 f1 by (auto simp: state_Error_def Let_def)
  next
    case (Some block)
    obtain hash r s2 where s2: "connect_block env block st p b (pblock \<noteq> None \<and> checked) s1 = Inr (r, s2)"
      and rest2: "(case r of
                         Inl st \<Rightarrow>
                           bindP (Some (if vs_mode st = MODE_INVALID then InvalidBlockFound (ne_chain env) p st s2 else Inr s2)) (\<lambda>s.
                             Some (Inr ((False, st), s)))
                       | Inr con \<Rightarrow> after_connect env block p b hash con s2) = Some (Inr ((ok, st'), s'))"
      using rest unfolding Some option.case by (elim bindP_E) auto
    show ?thesis
    proof (cases r)
      case (Inl st2)
      then have a2: "aside s1 s2" using connect_block_aside s2 by blast
      have t2: "tip_step s s2" and inv2: "chain_inv s2"
        using tip_step_trans [OF t1 aside_tip [OF a2 inv1]] aside_chain_inv [OF a2 inv1] by blast+
      have f2: "chainActive s2 = chainActive s" "nodes s2 = nodes s" using aside_fields [OF a2] f1 by simp_all
      have i: "(if vs_mode st2 = MODE_INVALID then InvalidBlockFound (ne_chain env) p st2 s2 else Inr s2) = Inr s'" "\<not> ok" "st' = st2"
        using rest2 unfolding Inl sum.case by (auto elim!: bindP_E)
      show ?thesis
      proof (cases "vs_mode st2 = MODE_INVALID")
        case True
        have p2: "p \<in> dom (nodes s2)" using f2 assms(2) by auto
        have "InvalidBlockFound (ne_chain env) p st2 s2 = Inr s'" using i(1) True by simp
        then have "tip_step s2 s' \<and> chainActive s' = chainActive s2 \<and> (\<not> corruptionPossible st2 \<longrightarrow> failed (nodes s') p)"
          using inv2 p2 by (rule InvalidBlockFound_step)
        then show ?thesis using tip_step_trans [OF t2] f2 i by simp
      next
        case False
        then show ?thesis using i t2 f2 by simp
      qed
    next
      case (Inr con)
      then have e: "entry_step p b (con_pindex con) s1 s2 \<and> validated (blk b) (con_pindex con)" using connect_block_step s2 by blast
      then have e2: "tip_step s1 s2 \<and> chainActive s2 = chainActive s1" using entry_step_tip [OF inv1, of p b] f1(2) assms(2) by metis
      have "nodes s2 p = Some (b\<lparr>blk := con_pindex con\<rparr>)" using e by (simp add: entry_step_def)
      then have "tip_step s2 s' \<and> chainActive s' = (if ok then chainActive s2 @ [Some p] else chainActive s2) \<and> (\<not> ok \<longrightarrow> vs_mode st' = MODE_ERROR)"
        using after_connect_step [of env block p b hash con s2 ok st' s'] rest2 Inr tip_step_inv [of s1 s2] e2 assms(3) f1 by simp
      then show ?thesis using tip_step_trans [OF t1 tip_step_trans [of s1 s2 s']] e2 f1 by simp
    qed
  qed
qed

lemma ConnectTip_returns:
  assumes "chain_inv s" and "nodes s p = Some b" and "pprev b = chain_tip (chainActive s)"
  shows "\<exists>r. ConnectTip env st p pblock checked s = Some r"
proof -
  have False if n: "ConnectTip env st p pblock checked s = None"
  proof -
    obtain s1 block hash con s2 where s: "check_pool env (blk b) s = Inr s1"
        "connect_block env block st p b (pblock \<noteq> None \<and> checked) s1 = Inr (Inr con, s2)"
        "after_connect env block p b hash con s2 = None"
      using n assms(2,3) unfolding ConnectTip_def by (auto elim!: bindP_NE split: sum.splits option.splits simp del: not_None_eq)
    have a1: "aside s s1" by (rule check_pool_aside [OF s(1)])
    have inv1: "chain_inv s1" by (rule aside_chain_inv [OF a1 assms(1)])
    have e: "entry_step p b (con_pindex con) s1 s2" "validated (blk b) (con_pindex con)" using connect_block_step [OF s(2)] by blast+
    have "chain_inv s2" using entry_step_tip [OF inv1 _ e] aside_fields [OF a1] assms(2) tip_step_inv [of s1 s2] by simp
    moreover have "p \<in> dom (nodes s2)" using e(1) by (simp add: entry_step_def)
    ultimately have "\<exists>r. after_connect env block p b hash con s2 = Some r" by (rule after_connect_returns)
    then show False using s(3) by simp
  qed
  then show ?thesis by blast
qed

text \<open>The node's operations are what choosing the best chain relies on.\<close>

interpretation tips: tip_operations "node_tip_ops env" for env
proof
  show "\<exists>r. op_DisconnectTip (node_tip_ops env) st s = Some r"
    if "chain_inv s" "chain_tip (chainActive s) = Some t" for s st t
    using DisconnectTip_returns [OF that] by (simp add: node_tip_ops_def)
  show "tip_step s s' \<and> chainActive s' = (if ok then butlast (chainActive s) else chainActive s)"
    if "chain_inv s" "chain_tip (chainActive s) = Some t" "op_DisconnectTip (node_tip_ops env) st s = Some (Inr ((ok, st'), s'))" for s t st ok st' s'
    using DisconnectTip_step [OF that(1,2)] that(3) by (simp add: node_tip_ops_def)
  show "\<exists>r. op_ConnectTip (node_tip_ops env) st p pb fc s = Some r"
    if "chain_inv s" "nodes s p = Some b" "pprev b = chain_tip (chainActive s)" for s p b st pb fc
    using ConnectTip_returns [OF that] by (simp add: node_tip_ops_def)
  show "tip_step s s' \<and> chainActive s' = (if ok then chainActive s @ [Some p] else chainActive s)
      \<and> (\<not> ok \<longrightarrow> vs_mode st' = MODE_INVALID \<longrightarrow> \<not> corruptionPossible st' \<longrightarrow> failed (nodes s') p)"
    if "chain_inv s" "nodes s p = Some b" "pprev b = chain_tip (chainActive s)"
      "op_ConnectTip (node_tip_ops env) st p pb fc s = Some (Inr ((ok, st'), s'))" for s p b st pb fc ok st' s'
    using ConnectTip_step [OF that(1-3)] that(4) by (simp add: node_tip_ops_def)
  show "\<exists>r. op_FlushPeriodic (node_tip_ops env) st s = Some r" for s st
    by (simp add: node_tip_ops_def FlushPeriodic_def)
  show "tip_step s s' \<and> chainActive s' = chainActive s"
    if "chain_inv s" "op_FlushPeriodic (node_tip_ops env) st s = Some (Inr ((ok, st'), s'))" for s st ok st' s'
  proof -
    have "aside s s'" using FlushStateToDisk_aside [of env st FLUSH_STATE_PERIODIC s ok st' s'] that(2)
      by (simp add: node_tip_ops_def FlushPeriodic_def)
    then show ?thesis using aside_tip [OF _ that(1)] aside_fields by blast
  qed
qed

interpretation sound_tips: sound_tip_operations "halt_on_corruption (node_tip_ops env)" for env
  by (rule tips.halt_sound)

section \<open>A concrete node\<close>

definition ex_chain_env :: chain_env where
  "ex_chain_env = \<lparr>ce_params = CMainParams, ce_GetHash = (\<lambda>h. uint256_of_u64 (ucast (nNonce h))), ce_fImporting = False, ce_fReindex = False,
     ce_fEnabled = False, ce_checkpoints = [], ce_GetTime = 0, ce_banscore = 100,
     ce_order = (\<lambda>m. filter (\<lambda>h. m h \<noteq> None) (map (\<lambda>n. uint256_of_u64 (word_of_nat n)) [0, 1, 2, 3, 4]))\<rparr>"

definition ex_disk_env :: disk_env where
  "ex_disk_env = \<lparr>de_MessageStart = [1, 2, 3, 4], de_space = (\<lambda>_. True), de_blk = (\<lambda>_. True), de_rev = (\<lambda>_. True),
     de_Hash = (\<lambda>bs. uint256_of_u64 (of_nat (le_nat bs))), de_GetHash = (\<lambda>_. uint256_of_u64 0), de_params = CMainParams,
     de_IsFullyValid = (\<lambda>_. False), de_EC_Decompress = (\<lambda>_. None)\<rparr>"

definition ex_node_env :: node_env where
  "ex_node_env = \<lparr>ne_chain = ex_chain_env, ne_disk = ex_disk_env, ne_accept = ex_accept_env, ne_kernel = ex_kernel,
     ne_HashPair = (\<lambda>a b. a), ne_HashGenesisBlock = uint256_of_u64 1, ne_nCoinCacheSize = 1000, ne_GetTimeMicros = 0,
     ne_tree_ok = True, ne_coins_ok = True, ne_spork3 = False, ne_IsBlockPayeeValid = (\<lambda>_ _. True), ne_maxreorg = None,
     ne_new_address = (\<lambda>st. 5)\<rparr>"

definition ex_world :: node_world where
  "ex_world = \<lparr>pcoinsTip = new_cache ex_coin_db, mempool = CTxMemPool_new, limiter = \<lparr>dFreeCount = 0, nLastTime = 0\<rparr>,
     files = \<lparr>vinfoBlockFile = [CBlockFileInfo_SetNull], nLastBlockFile = 0, setDirtyFileInfo = {}, blk_files = (\<lambda>_. []), rev_files = (\<lambda>_. [])\<rparr>,
     nLastWrite = 0, fWarned = False, db_files = Map.empty, db_last_file = 0, db_index = Map.empty, db_txindex = Map.empty,
     mapRejectedBlocks = Map.empty\<rparr>"

lemma ex_fork_inv: "chain_inv (ex_fork w)"
  by (simp add: chain_inv_def ex_fork_ok)

lemma ex_fork_index: "index_inv (ex_fork w)"
proof -
  have "linked_txs ex_tree" by (simp add: linked_txs_def ex_tree_txs)
  moreover have "indexed ex_tree (mapBlockIndex (idx (ex_fork w)))"
    unfolding indexed_def
  proof (intro conjI allI impI)
    fix h p assume "mapBlockIndex (idx (ex_fork w)) h = Some p"
    then have "p \<in> {0, 1, 2, 3, 4}" "h = uint256_of_u64 (word_of_nat p)"
      by (auto simp: ex_fork_def split: if_splits)
    then show "\<exists>b. ex_tree p = Some b \<and> phashBlock (blk b) = Some h"
      by (auto simp: ex_tree_def ex_index_def)
  next
    fix p b assume b: "ex_tree p = Some b"
    then have "p = 0 \<or> p = 1 \<or> p = 2 \<or> p = 3 \<or> p = 4" using ex_tree_dom by blast
    moreover have "phashBlock (blk b) = Some (uint256_of_u64 (word_of_nat p))"
      using b calculation by (auto simp: ex_tree_def ex_index_def)
    ultimately show "\<exists>h. phashBlock (blk b) = Some h \<and> mapBlockIndex (idx (ex_fork w)) h = Some p"
      by (auto simp: ex_fork_def uint256_of_u64_inj)
  qed
  ultimately show ?thesis using ex_fork_inv by (simp add: index_inv_def)
qed

lemma ex_fork_walk: "walks_all ex_chain_env (mapBlockIndex (idx (ex_fork w)))"
proof -
  have "\<exists>n\<in>{0, 1, 2, 3, 4}. h = uint256_of_u64 (word_of_nat n)" if "mapBlockIndex (idx (ex_fork w)) h = Some p" for h p
    using that by (auto simp: ex_fork_def split: if_splits)
  then show ?thesis by (fastforce simp: walks_all_def ex_chain_env_def dom_def)
qed

section \<open>The properties\<close>



text \<open>
  C14. \<^verbatim>\<open>ConnectTip\<close> and \<^verbatim>\<open>DisconnectTip\<close> move the active chain by one
  block and keep the block tree. Whatever the block, the coins and the files hold, both return; success
  appends the block, respectively drops the tip, and failure leaves the chain; the tree, its heights and
  its works are unchanged, marks of failed blocks stay, and a block rejected without suspicion of
  corruption is marked failed.
\<close>

theorem tip_moves_by_one:
  assumes "chain_inv s"
  shows "(nodes s p = Some b \<longrightarrow> pprev b = chain_tip (chainActive s) \<longrightarrow>
      (\<exists>r. ConnectTip env st p pblock checked s = Some r \<and> (\<forall>ok st' s'. r = Inr ((ok, st'), s') \<longrightarrow>
         tip_step s s' \<and> chainActive s' = (if ok then chainActive s @ [Some p] else chainActive s)
         \<and> (\<not> ok \<longrightarrow> vs_mode st' = MODE_INVALID \<longrightarrow> \<not> corruptionPossible st' \<longrightarrow> failed (nodes s') p))))
    \<and> (chainActive s \<noteq> [] \<longrightarrow>
      (\<exists>r. DisconnectTip env st s = Some r \<and> (\<forall>ok st' s'. r = Inr ((ok, st'), s') \<longrightarrow>
         tip_step s s' \<and> chainActive s' = (if ok then butlast (chainActive s) else chainActive s))))"
proof (intro conjI impI)
  assume "nodes s p = Some b" "pprev b = chain_tip (chainActive s)"
  then show "\<exists>r. ConnectTip env st p pblock checked s = Some r \<and> (\<forall>ok st' s'. r = Inr ((ok, st'), s') \<longrightarrow>
         tip_step s s' \<and> chainActive s' = (if ok then chainActive s @ [Some p] else chainActive s)
         \<and> (\<not> ok \<longrightarrow> vs_mode st' = MODE_INVALID \<longrightarrow> \<not> corruptionPossible st' \<longrightarrow> failed (nodes s') p))"
    using ConnectTip_returns [OF assms] ConnectTip_step [OF assms] by metis
next
  assume "chainActive s \<noteq> []"
  then obtain t where "chain_tip (chainActive s) = Some t"
    using chain_inv_tree [OF assms] by (auto elim: chain_okE)
  then show "\<exists>r. DisconnectTip env st s = Some r \<and> (\<forall>ok st' s'. r = Inr ((ok, st'), s') \<longrightarrow>
         tip_step s s' \<and> chainActive s' = (if ok then butlast (chainActive s) else chainActive s))"
    using DisconnectTip_returns [OF assms] DisconnectTip_step [OF assms] by metis
qed

theorem tip_moves_by_one_witness: "\<exists>r. DisconnectTip ex_node_env state_valid (ex_fork ex_world) = Some r"
  using tip_moves_by_one [OF ex_fork_inv, of ex_world 0 "the (ex_tree 0)" ex_node_env state_valid None False] by auto

text \<open>
  C15. \<^verbatim>\<open>InvalidateBlock\<close> returns, and after a success the block is marked failed, no
  longer on the active chain, and every block of the index that may be tried and does not come before
  the new tip is a candidate.
\<close>

theorem InvalidateBlock_removes:
  assumes "index_inv s" and "walks_all (ne_chain env) (mapBlockIndex (idx s))" and "p \<in> dom (nodes s)"
  shows "\<exists>r. InvalidateBlock (ne_chain env) (node_tip_ops env) st p s = Some r \<and> (\<forall>st' s'. r = Inr ((True, st'), s') \<longrightarrow>
     index_inv s' \<and> same_tree (nodes s) (nodes s') \<and> failed (nodes s') p \<and> \<not> on_chain (nodes s') (chainActive s') p
     \<and> (\<exists>t. chain_tip (chainActive s') = Some t \<and> (\<forall>q. tryable (nodes s') t q \<longrightarrow> q \<in> set (setBlockIndexCandidates s'))))"
  by (rule tips.InvalidateBlock_ok [OF assms])

theorem InvalidateBlock_removes_witness:
  "\<exists>r. InvalidateBlock (ne_chain ex_node_env) (node_tip_ops ex_node_env) state_valid 1 (ex_fork ex_world) = Some r"
proof -
  have "walks_all (ne_chain ex_node_env) (mapBlockIndex (idx (ex_fork ex_world)))" using ex_fork_walk by (simp add: ex_node_env_def)
  moreover have "1 \<in> dom (nodes (ex_fork ex_world))" by (simp add: ex_tree_dom)
  ultimately show ?thesis using InvalidateBlock_removes [OF ex_fork_index] by blast
qed

text \<open>
  C16. \<^verbatim>\<open>ReconsiderBlock\<close> takes back failure marks on the block's own branch only: exactly
  the blocks that descend from it or that it descends from lose the mark, the active chain and the tree
  stay, and a descendant that had failed, is fully received and comes after the tip is a candidate again.
\<close>

theorem ReconsiderBlock_clears:
  assumes "index_inv s" and "walks_all env (mapBlockIndex (idx s))" and "p \<in> dom (nodes s)" and "chain_tip (chainActive s) = Some t"
  shows "\<exists>s'. ReconsiderBlock env p s = Some (Inr s') \<and> index_inv s' \<and> same_tree (nodes s) (nodes s') \<and> chainActive s' = chainActive s
    \<and> (\<forall>q. failed (nodes s') q \<longleftrightarrow> failed (nodes s) q \<and> \<not> descends (nodes s) q p \<and> \<not> descends (nodes s) p q)
    \<and> (\<forall>q. failed (nodes s) q \<and> descends (nodes s) q p \<and> counted (nodes s) q \<and> wl (nodes s) t q \<longrightarrow> q \<in> set (setBlockIndexCandidates s'))"
  by (rule ReconsiderBlock_ok [OF assms])

text \<open>Block 3 was marked failed by hand and is reconsidered.\<close>

theorem ReconsiderBlock_clears_witness:
  "\<exists>s'. ReconsiderBlock ex_chain_env 3 (upd_status 3 (\<lambda>x. x OR BLOCK_FAILED_VALID) True (ex_fork ())) = Some (Inr s')
    \<and> \<not> failed (nodes s') 3 \<and> 3 \<in> set (setBlockIndexCandidates s')"
proof -
  let ?s = "upd_status 3 (\<lambda>x. x OR BLOCK_FAILED_VALID) True (ex_fork ())"
  have t: "tip_step (ex_fork ()) ?s" by (rule upd_status_tip_step [OF ex_fork_inv flag_changes(2)])
  have f: "failed (nodes ?s) 3" using set_status_flags(1) [OF flag_changes(2), of 3 ex_tree 3] by (simp add: ex_tree_dom)
  have c: "counted (nodes ?s) 3"
  proof -
    have "BLOCK_VALID_TRANSACTIONS \<le> (11 OR BLOCK_FAILED_VALID) AND BLOCK_VALID_MASK"
      by (simp add: BLOCK_VALID_TRANSACTIONS_def BLOCK_FAILED_VALID_def BLOCK_VALID_MASK_def)
    then show ?thesis by (simp add: counted_def set_status_def ex_tree_def)
  qed
  have "wl ex_tree 4 3" using ex_fork_ok(1) [of "()"] by (simp add: tree_ok_def cand_ok_def)
  then have w: "wl (nodes ?s) 4 3" using same_tree_wl [of ex_tree "nodes ?s" 4 3] set_status_same by (simp add: ex_tree_dom)
  have d: "descends (nodes ?s) 3 3" by (auto simp: descends_def intro: exI [of _ 0])
  have i: "index_inv ?s" by (rule tip_step_index_inv [OF t ex_fork_index])
  have k: "walks_all ex_chain_env (mapBlockIndex (idx ?s))" using ex_fork_walk [of "()"] by simp
  have "3 \<in> dom (nodes ?s)" using f by (auto simp: failed_def)
  moreover have "chain_tip (chainActive ?s) = Some 4" by (simp add: chain_tip_def)
  ultimately show ?thesis using ReconsiderBlock_clears [OF i k] f c w d by blast
qed

end
