(* ===== verification/Spec2Isabelle.thy ===== *)
theory Spec2Isabelle
  imports Disconnect Merkle Kernel Interpreter Mempool Standard Accept_Tx Tips
begin

text \<open>
  \<^bold>\<open>Verification library of the P2P coin node.\<close>

  The program (\<^verbatim>\<open>src/src\<close>) is a proof-of-stake node of the Bitcoin family. Its core
  validates blocks: it decodes them (\<^verbatim>\<open>serialize.h\<close>, \<^verbatim>\<open>streams.h\<close>,
  \<^verbatim>\<open>primitives/\<close>), places them in the block tree (\<^verbatim>\<open>main.cpp\<close>,
  \<^verbatim>\<open>chain.cpp\<close>) after checking work or stake (\<^verbatim>\<open>pow.cpp\<close>,
  \<^verbatim>\<open>kernel.cpp\<close>), runs the scripts of their inputs (\<^verbatim>\<open>script/\<close>), and
  moves the set of unspent outputs along the active chain (\<^verbatim>\<open>coins.cpp\<close>,
  \<^verbatim>\<open>compressor.cpp\<close>, \<^verbatim>\<open>main.cpp\<close>). The theories model those parts,
  each over the ones it calls.

  \<^bold>\<open>Theories, in the order of the imports.\<close>
  \<^item> \<^verbatim>\<open>P2P_Prelude\<close>: machine words, byte strings, the error monad \<open>bindE\<close>
    on \<open>error + value\<close>, and the lemmas on lists and words that the others share.
  \<^item> \<^verbatim>\<open>Uint256\<close> (\<^verbatim>\<open>uint256.h\<close>, \<^verbatim>\<open>uint256.cpp\<close>): a number is
    the list of its 32-bit limbs as in \<^verbatim>\<open>base_uint\<close>; every operator is its loop over the
    limbs. The lemmas show that the loops compute arithmetic modulo \<open>2 ^ BITS\<close>, that division
    throws exactly on zero, and \<^verbatim>\<open>Compact\<close> that the compact form loses at most one part in
    \<open>2 ^ 15\<close>.
  \<^item> \<^verbatim>\<open>Block_Index\<close> (\<^verbatim>\<open>chain.h\<close>, \<^verbatim>\<open>chainparams.cpp\<close>): one index
    entry as a record, flags, median time, parameters of the networks. \<^verbatim>\<open>Pow\<close>
    (\<^verbatim>\<open>pow.cpp\<close>): both difficulty rules over a chain given as the list of entries from the
    newest; the target they return is always valid. \<^verbatim>\<open>Subsidy\<close>: the reward by height and the
    masternode share, with the IEEE rounding of the code.
  \<^item> \<^verbatim>\<open>Serialize\<close>, \<^verbatim>\<open>Transaction\<close>: streams, integers, sizes, vectors, and on
    them transactions and blocks with their context-free checks. A reader takes the bytes and returns
    an error or the value and the rest; the decoders accept exactly the encodings of well-formed values.
  \<^item> \<^verbatim>\<open>Script\<close>, \<^verbatim>\<open>Interpreter\<close> (\<^verbatim>\<open>script/script.h\<close>,
    \<^verbatim>\<open>script/interpreter.cpp\<close>): numbers, pushes and scans of scripts; then the machine, one
    definition per group of opcodes, the signature hash and \<^verbatim>\<open>VerifyScript\<close>. Exceptions and
    failed assertions are values, and the lemmas show which of them cannot occur.
  \<^item> \<^verbatim>\<open>Compressor\<close>, \<^verbatim>\<open>Coins\<close>, \<^verbatim>\<open>Coins_View\<close>
    (\<^verbatim>\<open>compressor.cpp\<close>, \<^verbatim>\<open>coins.h\<close>, \<^verbatim>\<open>coins.cpp\<close>): the database
    form of outputs, coins and undo records, and the cache over a view. The contract of a view that is
    only read is the locale \<^verbatim>\<open>readable_view\<close>, with writing
    \<^verbatim>\<open>coins_view\<close>; the database, the caches over it and the memory pool are
    interpretations, and a flush is shown to reach the database.
  \<^item> \<^verbatim>\<open>Connect\<close>, \<^verbatim>\<open>Disconnect\<close> (\<^verbatim>\<open>main.cpp\<close>):
    \<^verbatim>\<open>CheckInputs\<close>, \<^verbatim>\<open>UpdateCoins\<close>, \<^verbatim>\<open>ConnectBlock\<close> and
    \<^verbatim>\<open>DisconnectBlock\<close> over any view, and the theorem that one inverts the other.
  \<^item> \<^verbatim>\<open>Mempool\<close> (\<^verbatim>\<open>txmempool.cpp\<close>): the maps of the pool, every
    operation on them, and their consistency. \<^verbatim>\<open>Standard\<close>
    (\<^verbatim>\<open>script/standard.cpp\<close>): the solver of output scripts and destinations.
    \<^verbatim>\<open>Accept_Tx\<close> (\<^verbatim>\<open>main.cpp\<close>): standardness, relay fees, acceptance to the
    pool and the orphans.
  \<^item> \<^verbatim>\<open>Merkle\<close> (\<^verbatim>\<open>primitives/block.cpp\<close>, \<^verbatim>\<open>merkleblock.cpp\<close>): the
    flat tree, branches and partial trees over any pair hash.
  \<^item> \<^verbatim>\<open>Chain\<close> (\<^verbatim>\<open>chain.h\<close>, \<^verbatim>\<open>chain.cpp\<close>, the skip list of
    \<^verbatim>\<open>main.cpp\<close>): the heap of index entries is a map from addresses to nodes, a pointer is an
    optional address, a null or dangling dereference is an error value. \<^verbatim>\<open>Kernel\<close>
    (\<^verbatim>\<open>kernel.cpp\<close>, \<^verbatim>\<open>AddToBlockIndex\<close>): stake modifiers, the kernel hash and
    the insertion of a block, which keeps the invariant of the tree.
  \<^item> \<^verbatim>\<open>Best_Chain\<close>, \<^verbatim>\<open>Activate\<close>,
    \<^verbatim>\<open>Mark_Blocks\<close> (\<^verbatim>\<open>main.cpp\<close>): the candidate set, the search for the best
    chain, the handling of invalid chains and \<^verbatim>\<open>ActivateBestChain\<close>, over the operations
    on the tip as a record; what they promise is the locale \<^verbatim>\<open>tip_operations\<close>. The search is
    shown to find the best usable candidate, the activation to end there, and the two commands that mark
    blocks by hand to do what they are for. A loop that may not end is a partial function, \<open>None\<close>
    when it does not; the theorems show that it returns.
  \<^item> \<^verbatim>\<open>Block_Files\<close> (\<^verbatim>\<open>main.cpp\<close>, \<^verbatim>\<open>main.h\<close>,
    \<^verbatim>\<open>util.cpp\<close>): the files of blocks and undo data as byte lists with their records; what is
    stored reads back. \<^verbatim>\<open>Node\<close>: the state of the node, looking up transactions, and the
    checks of a block. \<^verbatim>\<open>Tips\<close>: flushing to disk, connecting and disconnecting the tip on
    that state, which interprets \<^verbatim>\<open>tip_operations\<close> for the node.

  \<^bold>\<open>Conventions.\<close> A \<open>w\<close>-bit integer of the code is a word, or an integer with the bound
  or the wrap-around written out; a C++ exception, a failed assertion or undefined access is an error
  value of the function that reaches it. Loops are structural recursions or functions with a measure;
  the loops over the pointer graph take the height of their start plus one as fuel, which the theorems
  on them show to be enough, since parents have smaller heights. What a witness needs is evaluated by
  the simplifier on the same definitions.

  \<^bold>\<open>Parameters.\<close> The digests, the curve, the header hash, the clocks, whether the disk has room and its files open, and the
  answers of the masternode and budget managers are arguments of the definitions that use them; the
  theorems assume of them at most that digests have their length, or, where a theorem says so, that
  two different inputs do not collide.

  \<^bold>\<open>Not modelled.\<close> Sockets and threads, the wallet and its database, the graphical
  interface, RPC, logging, the storage engine and the curve library: they hold no consensus logic, or
  are third-party code. Masternodes and budgets, the acceptance of blocks from peers and disk, the
  text encodings and the bloom filters are still to be done, in that order of use.
\<close>

end
